(* ===== verification/Prelude.thy ===== *)
theory Prelude
  imports Main "HOL-Library.Word" "HOL-Library.Monad_Syntax"
begin

text \<open>
  What the component theories share: the machine types, the error values that stand for
  the failing branches of the C code (a failed assertion, a read or write outside an
  object), byte-level codecs for little-endian memory, and the list facts the proofs use.
\<close>

unbundle bit_operations_syntax

section \<open>Machine types\<close>

type_synonym u8 = "8 word"
type_synonym u16 = "16 word"
type_synonym u32 = "32 word"

text \<open>
  A run of the code that does not return normally. \<open>AssertFail\<close> is a failed
  \<open>xassert\<close> or \<open>configASSERT\<close>; \<open>OutOfBounds\<close> an access outside the object a
  pointer points into; \<open>NullDeref\<close> a dereference of NULL; \<open>BadVarArg\<close> a
  \<open>va_arg\<close> with no matching argument; \<open>Misaligned\<close> an access to a word through a pointer that is
  not on a 4-byte boundary, which the processor refuses.
\<close>

datatype c_error = AssertFail | OutOfBounds | NullDeref | BadVarArg | Misaligned

type_synonym 'a res = "c_error + 'a"

fun rbind :: "'a res \<Rightarrow> ('a \<Rightarrow> 'b res) \<Rightarrow> 'b res" where
  "rbind (Inl e) f = Inl e"
| "rbind (Inr x) f = f x"

lemma rbind_cong [fundef_cong]:
  "m = m' \<Longrightarrow> (\<And>x. m' = Inr x \<Longrightarrow> f x = g x) \<Longrightarrow> rbind m f = rbind m' g"
  by (cases m') auto

definition c_assert :: "bool \<Rightarrow> unit res" where
  "c_assert b = (if b then Inr () else Inl AssertFail)"

named_theorems res_simps \<open>evaluation of fallible runs\<close>

text \<open>The monad laws.\<close>

lemma rbind_assoc: "rbind (rbind m f) g = rbind m (\<lambda>x. rbind (f x) g)"
  by (cases m) simp_all

lemma rbind_Inr [simp]: "rbind m Inr = m"
  by (cases m) simp_all

lemma rbind_Inr_iff [res_simps]: "rbind m f = Inr y \<longleftrightarrow> (\<exists>x. m = Inr x \<and> f x = Inr y)"
  by (cases m) auto

lemma rbind_Inl_iff [res_simps]:
  "rbind m f = Inl e \<longleftrightarrow> m = Inl e \<or> (\<exists>x. m = Inr x \<and> f x = Inl e)"
  by (cases m) auto

lemma c_assert_Inr [simp]: "c_assert b = Inr u \<longleftrightarrow> b"
  by (simp add: c_assert_def)

lemma c_assert_Inl [simp]: "c_assert b = Inl e \<longleftrightarrow> \<not> b \<and> e = AssertFail"
  by (auto simp: c_assert_def)

lemma c_assert_True [simp]: "c_assert True = Inr ()"
  by (simp add: c_assert_def)

lemma c_assert_False [simp]: "c_assert False = Inl AssertFail"
  by (simp add: c_assert_def)

section \<open>Writing into an array\<close>

text \<open>\<open>memcpy\<close>: the elements of \<open>xs\<close> replace those of \<open>ys\<close> from index \<open>i\<close> on.\<close>

definition splice :: "nat \<Rightarrow> 'a list \<Rightarrow> 'a list \<Rightarrow> 'a list" where
  "splice i xs ys = take i ys @ xs @ drop (i + length xs) ys"

lemma length_splice [simp]: "i + length xs \<le> length ys \<Longrightarrow> length (splice i xs ys) = length ys"
  by (simp add: splice_def)

lemma take_splice: "i + length xs \<le> length ys \<Longrightarrow> take (i + length xs) (splice i xs ys) = take i ys @ xs"
  by (simp add: splice_def)

lemma splice_Nil [simp]: "splice i [] ys = ys"
  by (simp add: splice_def)

lemma splice_Cons: "i < length ys \<Longrightarrow> splice (Suc i) xs (ys[i := x]) = splice i (x # xs) ys"
  by (simp add: splice_def take_Suc_conv_app_nth)

lemma nth_splice:
  assumes "i + length xs \<le> length ys" and "j < length ys"
  shows "splice i xs ys ! j = (if i \<le> j \<and> j < i + length xs then xs ! (j - i) else ys ! j)"
  using assms by (auto simp: splice_def nth_append min_def)

section \<open>Byte codecs\<close>

text \<open>
  The contract of a fixed-width codec: \<open>enc\<close> produces \<open>width\<close> bytes and \<open>dec\<close>
  reads them back, also when more bytes follow.
\<close>

locale byte_codec =
  fixes width :: nat
    and enc :: "'a \<Rightarrow> u8 list"
    and dec :: "u8 list \<Rightarrow> 'a"
    and wf :: "'a \<Rightarrow> bool"
  assumes length_enc: "length (enc x) = width"
    and dec_enc: "wf x \<Longrightarrow> dec (enc x @ bs) = x"
begin

lemma dec_enc_exact: "wf x \<Longrightarrow> dec (enc x) = x"
  using dec_enc [of x "[]"] by simp

lemma drop_enc: "drop width (enc x @ bs) = bs"
  by (simp add: length_enc)

lemma enc_inject: "wf x \<Longrightarrow> wf y \<Longrightarrow> enc x = enc y \<longleftrightarrow> x = y"
  by (metis dec_enc_exact)

lemma length_concat_enc: "length (concat (map enc xs)) = width * length xs"
  by (induction xs) (simp_all add: length_enc)

lemma decode_many:
  assumes "\<forall>x \<in> set xs. wf x" and "i < length xs"
  shows "dec (drop (width * i) (concat (map enc xs) @ bs)) = xs ! i"
  using assms
proof (induction xs arbitrary: i)
  case Nil
  then show ?case by simp
next
  case (Cons x xs)
  show ?case
  proof (cases i)
    case 0
    with Cons.prems show ?thesis by (simp add: dec_enc)
  next
    case (Suc j)
    then have "drop (width * i) zs = drop (width * j) (drop width zs)" for zs :: "u8 list"
      by (simp add: add.commute)
    then have "drop (width * i) (enc x @ (concat (map enc xs) @ bs))
        = drop (width * j) (concat (map enc xs) @ bs)"
      by (simp only: drop_enc)
    with Cons Suc show ?thesis by simp
  qed
qed

end

subsection \<open>Little-endian words\<close>

text \<open>
  The memory image of a \<open>uint32_t\<close> and a \<open>uint16_t\<close> on the little-endian xcore, as
  \<open>memcpy\<close> sees it, and the byte swap that \<open>htonl\<close> and \<open>ntohl\<close> perform there.
\<close>

definition le32 :: "u32 \<Rightarrow> u8 list" where
  "le32 w = [ucast w, ucast (drop_bit 8 w), ucast (drop_bit 16 w), ucast (drop_bit 24 w)]"

fun of_le32 :: "u8 list \<Rightarrow> u32" where
  "of_le32 (a # b # c # d # bs) =
     ucast a OR push_bit 8 (ucast b) OR push_bit 16 (ucast c) OR push_bit 24 (ucast d)"
| "of_le32 bs = 0"

definition le16 :: "u16 \<Rightarrow> u8 list" where
  "le16 w = [ucast w, ucast (drop_bit 8 w)]"

definition htonl :: "u32 \<Rightarrow> u32" where
  "htonl w = of_le32 (rev (le32 w))"

definition ntohl :: "u32 \<Rightarrow> u32" where
  "ntohl w = htonl w"

definition htons :: "u16 \<Rightarrow> u16" where
  "htons w = push_bit 8 w OR drop_bit 8 w"

lemma u8_bit_bound: "bit (b :: u8) n \<Longrightarrow> n < 8"
  by (drule bit_imp_le_length) simp

lemma of_le32_le32_append [simp]: "of_le32 (le32 w @ bs) = w"
proof (rule bit_word_eqI)
  fix n assume "n < LENGTH(32)"
  then consider "n < 8" | "8 \<le> n" "n < 16" | "16 \<le> n" "n < 24" | "24 \<le> n" "n < 32"
    by fastforce
  then show "bit (of_le32 (le32 w @ bs)) n \<longleftrightarrow> bit w n"
    by cases (auto simp: le32_def bit_simps)
qed

lemma of_le32_le32 [simp]: "of_le32 (le32 w) = w"
  using of_le32_le32_append [of w "[]"] by simp

lemma length_le32 [simp]: "length (le32 w) = 4"
  by (simp add: le32_def)

lemma length_le16 [simp]: "length (le16 w) = 2"
  by (simp add: le16_def)

lemma le32_of_le32_4: "le32 (of_le32 [a, b, c, d]) = [a, b, c, d]"
  by (auto simp: le32_def intro!: bit_word_eqI)
     (auto simp: bit_simps dest: u8_bit_bound)

lemma length_4D: "length bs = 4 \<Longrightarrow> \<exists>a b c d. bs = [a, b, c, d]"
  by (auto simp: numeral_eq_Suc length_Suc_conv)

lemma le32_of_le32 [simp]: "length bs = 4 \<Longrightarrow> le32 (of_le32 bs) = bs"
  using le32_of_le32_4 by (auto dest: length_4D)

lemma htonl_htonl [simp]: "htonl (htonl w) = w"
  by (simp add: htonl_def)

lemma htonl_ntohl [simp]: "htonl (ntohl w) = w" "ntohl (htonl w) = w"
  by (simp_all add: ntohl_def)

lemma ntohl_inject [simp]: "ntohl a = ntohl b \<longleftrightarrow> a = b"
  by (metis htonl_ntohl(1))

lemma htonl_inject [simp]: "htonl a = htonl b \<longleftrightarrow> a = b"
  by (metis htonl_htonl)

lemma htonl_0_max: "htonl 0 = 0" "htonl 0xFFFFFFFF = 0xFFFFFFFF"
  by (simp_all add: htonl_def le32_def)

lemma htonl_eq_0_max [simp]: "htonl w = 0 \<longleftrightarrow> w = 0" "htonl w = 0xFFFFFFFF \<longleftrightarrow> w = 0xFFFFFFFF"
  by (metis htonl_0_max(1) htonl_inject, metis htonl_0_max(2) htonl_inject)

interpretation le32c: byte_codec 4 le32 of_le32 "\<lambda>_. True"
  by unfold_locales simp_all

end
