(* ===== verification/Dhcp_Message.thy ===== *)
theory Dhcp_Message
  imports Prelude
begin

text \<open>
  DHCP messages and their option field: the packed message structure, \<open>dhcp_option_add\<close>,
  which writes one option of a reply, and \<open>dhcp_option_get_next\<close>, which reads one option
  of a request (modules/rtos/sw_services/dhcpd/FreeRTOS/dhcpd.c). Pointers into the option
  array are indices; an access outside the array is the value \<open>Inl OutOfBounds\<close>.
  The lemmas show that reading never leaves the part of the array that was received, that it
  always makes progress, and that what was added is read back.
\<close>

section \<open>The message\<close>

type_synonym in_addr = u32  \<comment> \<open>\<open>s_addr\<close>, in network byte order\<close>
type_synonym mac_addr = "u8 list"  \<comment> \<open>the six bytes of a \<open>MACAddress_t\<close>\<close>

abbreviation (input) "INADDR_ANY \<equiv> (0 :: in_addr)"
abbreviation (input) "INADDR_BROADCAST \<equiv> (0xFFFFFFFF :: in_addr)"

abbreviation (input) "DHCP_OPTIONS_LENGTH \<equiv> (308 :: nat)"

abbreviation (input) "BOOTREQUEST \<equiv> (1 :: u8)"
abbreviation (input) "BOOTREPLY \<equiv> (2 :: u8)"

abbreviation (input) "DHCP_OPTION_PAD \<equiv> (0 :: u8)"
abbreviation (input) "DHCP_OPTION_SUBNET_MASK \<equiv> (1 :: u8)"
abbreviation (input) "DHCP_OPTION_ROUTER \<equiv> (3 :: u8)"
abbreviation (input) "DHCP_OPTION_DOMAIN_NAME_SERVER \<equiv> (6 :: u8)"
abbreviation (input) "DHCP_OPTION_INTERFACE_MTU \<equiv> (26 :: u8)"
abbreviation (input) "DHCP_OPTION_BROADCAST_ADDRESS \<equiv> (28 :: u8)"
abbreviation (input) "DHCP_OPTION_REQUESTED_IP_ADDRESS \<equiv> (50 :: u8)"
abbreviation (input) "DHCP_OPTION_IP_ADDRESS_LEASE_TIME \<equiv> (51 :: u8)"
abbreviation (input) "DHCP_OPTION_DHCP_MESSAGE_TYPE \<equiv> (53 :: u8)"
abbreviation (input) "DHCP_OPTION_SERVER_IDENTIFIER \<equiv> (54 :: u8)"
abbreviation (input) "DHCP_OPTION_PARAMETER_REQ_LIST \<equiv> (55 :: u8)"
abbreviation (input) "DHCP_OPTION_RENEWAL_TIME_VALUE \<equiv> (58 :: u8)"
abbreviation (input) "DHCP_OPTION_REBINDING_TIME_VALUE \<equiv> (59 :: u8)"
abbreviation (input) "DHCP_OPTION_END \<equiv> (255 :: u8)"

definition DHCP_MAGIC_COOKIE :: u32 where
  "DHCP_MAGIC_COOKIE = of_le32 [99, 130, 83, 99]"

record dhcp_message =
  op :: u8
  htype :: u8
  hlen :: u8
  hops :: u8
  xid :: u32
  secs :: u16
  flags :: u16
  ciaddr :: in_addr
  yiaddr :: in_addr
  siaddr :: in_addr
  giaddr :: in_addr
  chaddr :: mac_addr
  padding :: "u8 list"
  sname :: "u8 list"
  boot_file :: "u8 list"
  magic_cookie :: u32
  options :: "u8 list"

text \<open>Every message buffer holds the whole option array.\<close>

definition msg_wf :: "dhcp_message \<Rightarrow> bool" where
  "msg_wf m \<longleftrightarrow> length (options m) = DHCP_OPTIONS_LENGTH"

section \<open>Adding an option\<close>

text \<open>An option pointer that is NULL (\<open>None\<close>) stands for the start of the array.\<close>

definition ptr_index :: "nat option \<Rightarrow> nat" where
  "ptr_index p = (case p of None \<Rightarrow> 0 | Some i \<Rightarrow> i)"

lemma ptr_index_simps [simp]: "ptr_index None = 0" "ptr_index (Some i) = i"
  by (simp_all add: ptr_index_def)

text \<open>
  \<open>opt_ptr\<close> is \<open>None\<close> for NULL. \<open>options_end\<close> is the index of the last byte of the
  array, 307. The caller's \<open>nmemb * size\<close> is the length of \<open>data\<close>.
\<close>

definition dhcp_option_add ::
  "dhcp_message \<Rightarrow> nat option \<Rightarrow> u8 \<Rightarrow> u8 list \<Rightarrow> (dhcp_message \<times> nat option) res" where
  "dhcp_option_add m opt_ptr code data =
     (let option_len = length data;
          options_end = DHCP_OPTIONS_LENGTH - 1;
          opt_tmp = ptr_index opt_ptr
      in rbind (c_assert (option_len \<le> 255)) (\<lambda>_.
         rbind (c_assert (opt_tmp \<le> options_end)) (\<lambda>_.
         let opts = (options m)[opt_tmp := code]; opt_tmp = opt_tmp + 1
         in if option_len > 0 then
              rbind (c_assert (opt_tmp + option_len \<le> options_end)) (\<lambda>_.
              let opts = opts[opt_tmp := of_nat option_len];
                  opt_tmp = opt_tmp + 1;
                  opts = splice opt_tmp data opts
              in Inr (m\<lparr>options := opts\<rparr>, Some (opt_tmp + option_len)))
            else Inr (m\<lparr>options := opts\<rparr>, Some opt_tmp))))"

text \<open>The bytes one call puts into the message.\<close>

definition option_bytes :: "u8 \<Rightarrow> u8 list \<Rightarrow> u8 list" where
  "option_bytes code data = (if data = [] then [code] else code # of_nat (length data) # data)"

text \<open>
  Where the option still fits, \<open>dhcp_option_add\<close> succeeds, appends exactly
  \<open>option_bytes\<close> to what has been written so far and touches no other field.
\<close>

lemma dhcp_option_add_ok:
  assumes wf: "msg_wf m" and len: "length data \<le> 255"
    and fits: "ptr_index p + length (option_bytes code data) < DHCP_OPTIONS_LENGTH + 1"
  shows "\<exists>opts. dhcp_option_add m p code data =
      Inr (m\<lparr>options := opts\<rparr>, Some (ptr_index p + length (option_bytes code data)))
    \<and> length opts = DHCP_OPTIONS_LENGTH
    \<and> take (ptr_index p + length (option_bytes code data)) opts
        = take (ptr_index p) (options m) @ option_bytes code data"
proof (cases "data = []")
  case True
  let ?i = "ptr_index p"
  from fits True have i: "?i < DHCP_OPTIONS_LENGTH" by (simp add: option_bytes_def)
  moreover from i wf have "take (?i + 1) ((options m)[?i := code]) = take ?i (options m) @ [code]"
    by (simp add: msg_wf_def take_Suc_conv_app_nth)
  ultimately show ?thesis
    using True wf by (intro exI [of _ "(options m)[?i := code]"])
      (simp add: dhcp_option_add_def option_bytes_def msg_wf_def Let_def)
next
  case False
  let ?i = "ptr_index p" and ?n = "length data"
  let ?o = "(options m)[?i := code, Suc ?i := of_nat ?n]"
  from fits False have i: "?i + 2 + ?n \<le> DHCP_OPTIONS_LENGTH" by (simp add: option_bytes_def)
  from i wf have take2: "take (?i + 2) ?o = take ?i (options m) @ [code, of_nat ?n]"
    by (simp add: msg_wf_def take_Suc_conv_app_nth)
  have "take (?i + 2 + ?n) (splice (?i + 2) data ?o) = take (?i + 2) ?o @ data"
    by (rule take_splice) (use i wf in \<open>simp add: msg_wf_def\<close>)
  with take2 have "take (?i + 2 + ?n) (splice (?i + 2) data ?o)
      = take ?i (options m) @ option_bytes code data"
    using False by (simp add: option_bytes_def)
  moreover have "dhcp_option_add m p code data =
      Inr (m\<lparr>options := splice (?i + 2) data ?o\<rparr>, Some (?i + 2 + ?n))"
    using False i len by (simp add: dhcp_option_add_def Let_def)
  moreover have "length (splice (?i + 2) data ?o) = DHCP_OPTIONS_LENGTH"
    using i wf by (subst length_splice) (simp_all add: msg_wf_def)
  ultimately show ?thesis
    using False by (intro exI [of _ "splice (?i + 2) data ?o"]) (simp add: option_bytes_def)
qed

text \<open>Each assertion of \<open>dhcp_option_add\<close> guards the array: it never writes outside.\<close>

lemma dhcp_option_add_options_length:
  assumes "msg_wf m" and "dhcp_option_add m p code data = Inr (m', p')"
  shows "msg_wf m'"
proof (cases "data = []")
  case True
  with assms show ?thesis by (auto simp: dhcp_option_add_def msg_wf_def Let_def res_simps)
next
  case False
  with assms have "ptr_index p + 2 + length data \<le> 308"
    and m': "m' = m\<lparr>options := splice (ptr_index p + 2) data
        ((options m)[ptr_index p := code, Suc (ptr_index p) := of_nat (length data)])\<rparr>"
    by (auto simp: dhcp_option_add_def Let_def res_simps)
  with assms(1) show ?thesis by (simp add: msg_wf_def)
qed

section \<open>Reading an option\<close>

text \<open>A read of one byte of the option array.\<close>

definition read_option_byte :: "dhcp_message \<Rightarrow> nat \<Rightarrow> u8 res" where
  "read_option_byte m i = (if i < length (options m) then Inr (options m ! i) else Inl OutOfBounds)"

text \<open>
  The result of one call: the option code, the new \<open>*opt_ptr\<close>, and the data
  (\<open>*opt_data\<close> with \<open>*opt_len\<close> bytes). The code compares with \<open>options_end\<close>, the
  address of the byte at \<open>options_length - 1\<close>: \<open>opt_tmp <= options_end\<close> is
  \<open>opt_tmp < options_length\<close> on indices, also for an empty option field.
\<close>

record option_read =
  opt_code :: u8
  opt_next :: "nat option"
  opt_data :: "u8 list"

definition option_at_end :: "nat option \<Rightarrow> option_read" where
  "option_at_end p = \<lparr>opt_code = DHCP_OPTION_END, opt_next = p, opt_data = []\<rparr>"

definition dhcp_option_get_next :: "dhcp_message \<Rightarrow> nat option \<Rightarrow> nat \<Rightarrow> option_read res" where
  "dhcp_option_get_next m opt_ptr options_length =
     (let options_length = min options_length DHCP_OPTIONS_LENGTH;
          opt_tmp = ptr_index opt_ptr
      in rbind (read_option_byte m opt_tmp) (\<lambda>opt.
         let opt_tmp = opt_tmp + 1
         in if opt = DHCP_OPTION_END then Inr (option_at_end opt_ptr)
            else if opt = DHCP_OPTION_PAD then
              (if opt_tmp < options_length
               then Inr \<lparr>opt_code = DHCP_OPTION_PAD, opt_next = Some opt_tmp, opt_data = []\<rparr>
               else Inr (option_at_end opt_ptr))
            else if \<not> opt_tmp < options_length then Inr (option_at_end opt_ptr)
            else rbind (read_option_byte m opt_tmp) (\<lambda>l.
              let len = unat l; opt_tmp = opt_tmp + 1
              in if opt_tmp + len < options_length
                 then Inr \<lparr>opt_code = opt, opt_next = Some (opt_tmp + len),
                           opt_data = take len (drop opt_tmp (options m))\<rparr>
                 else Inr (option_at_end opt_ptr))))"

text \<open>
  From a position inside the received part, a call reads inside it only: it returns, and
  either the list ends or the position has grown and is still inside.
\<close>

lemma dhcp_option_get_next_step:
  assumes wf: "msg_wf m" and pos: "ptr_index p < n" and n: "n \<le> DHCP_OPTIONS_LENGTH"
  obtains r where "dhcp_option_get_next m p n = Inr r"
    and "opt_code r \<noteq> DHCP_OPTION_END \<Longrightarrow>
      (\<exists>q. opt_next r = Some q \<and> ptr_index p < q \<and> q < n
        \<and> length (opt_data r) < q - ptr_index p)"
proof -
  have "\<exists>r. dhcp_option_get_next m p n = Inr r \<and> (opt_code r \<noteq> DHCP_OPTION_END \<longrightarrow>
      (\<exists>q. opt_next r = Some q \<and> ptr_index p < q \<and> q < n
        \<and> length (opt_data r) < q - ptr_index p))"
    using assms
    by (auto simp: dhcp_option_get_next_def read_option_byte_def option_at_end_def msg_wf_def
        Let_def min_def)
  then show ?thesis using that by blast
qed

text \<open>Whatever the position, no call moves backwards.\<close>

lemma dhcp_option_get_next_progress:
  assumes "dhcp_option_get_next m p n = Inr r" and "opt_code r \<noteq> DHCP_OPTION_END"
  shows "ptr_index p < ptr_index (opt_next r) \<and> ptr_index (opt_next r) < DHCP_OPTIONS_LENGTH"
  using assms
  by (auto simp: dhcp_option_get_next_def option_at_end_def Let_def res_simps split: if_splits)

text \<open>
  What \<open>dhcp_option_add\<close> wrote is read back, provided the option is not END or PAD, has
  data, and is followed by at least one more received byte.
\<close>

lemma dhcp_option_get_next_written:
  assumes at: "take (length (option_bytes code data)) (drop (ptr_index p) (options m))
      = option_bytes code data"
    and wf: "msg_wf m" and len: "data \<noteq> []" "length data \<le> 255"
    and code: "code \<noteq> DHCP_OPTION_END" "code \<noteq> DHCP_OPTION_PAD"
    and more: "ptr_index p + length (option_bytes code data) < n" "n \<le> DHCP_OPTIONS_LENGTH"
  shows "dhcp_option_get_next m p n =
    Inr \<lparr>opt_code = code, opt_next = Some (ptr_index p + length (option_bytes code data)),
         opt_data = data\<rparr>"
proof -
  let ?i = "ptr_index p"
  from at len obtain rest where d: "drop ?i (options m) = code # of_nat (length data) # data @ rest"
    by (metis append_Cons append_take_drop_id option_bytes_def)
  then have o0: "options m ! ?i = code" and o1: "options m ! Suc ?i = of_nat (length data)"
    by (metis Cons_nth_drop_Suc drop_all list.inject list.simps(3) not_le,
        metis Cons_nth_drop_Suc drop_all list.inject list.simps(3) not_le)
  have "drop (Suc (Suc ?i)) (options m) = data @ rest"
    using d by (metis Suc_eq_plus1 add.commute drop_drop drop_Suc_Cons drop0 numeral_2_eq_2 plus_1_eq_Suc)
  moreover have "unat (of_nat (length data) :: u8) = length data"
    using len by (simp add: unat_of_nat)
  ultimately show ?thesis
    using o0 o1 wf len code more
    by (simp add: dhcp_option_get_next_def read_option_byte_def msg_wf_def Let_def min_def
        option_bytes_def add.commute)
qed

end
