(* ===== verification/Dhcp_Pool.thy ===== *)
theory Dhcp_Pool
  imports Dhcp_Message
begin

text \<open>
  The address pool of the DHCP server (modules/rtos/sw_services/dhcpd/FreeRTOS/dhcpd.c): the
  array \<open>dhcp_ip_infos\<close>, the FreeRTOS list \<open>dhcp_ip_pool\<close> that orders its entries by
  expiration time, the lookups, \<open>dhcp_client_update\<close> and the probe for addresses in use.
  A \<open>dhcp_ip_info_t *\<close> is an index into the array. The FreeRTOS list and network calls are
  not part of the repository: they are the fields of a record \<open>kernel\<close> that the
  definitions take, over an arbitrary type \<open>'w\<close> of the environment's state;
  \<open>list_api_ok\<close> and \<open>pings_drain\<close> state what the code relies on.
\<close>

section \<open>Entries and state\<close>

abbreviation (input) "DHCP_IP_STATE_AVAILABLE \<equiv> (0 :: int)"
abbreviation (input) "DHCP_IP_STATE_LEASED \<equiv> (1 :: int)"
abbreviation (input) "DHCP_IP_STATE_OFFERED \<equiv> (2 :: int)"
abbreviation (input) "DHCP_IP_STATE_STATIC \<equiv> (3 :: int)"
abbreviation (input) "DHCP_IP_STATE_UNAVAILABLE \<equiv> (4 :: int)"

text \<open>The default configuration of api/dhcpd.h (times in seconds).\<close>

abbreviation (input) "DHCPD_LEASE_TIME \<equiv> (600 :: u32)"
abbreviation (input) "DHCPD_OFFER_EXPIRATION_TIME \<equiv> (10 :: u32)"
abbreviation (input) "DHCPD_UNAVAILABLE_IP_PROBE_INTERVAL \<equiv> (300 :: u32)"
abbreviation (input) "DHCPD_IP_PROBE_WAIT_TIME \<equiv> (250 :: nat)"

record dhcp_ip_info =
  info_ip :: in_addr
  info_state :: int
  info_mac :: mac_addr

definition zero_mac :: mac_addr where
  "zero_mac = replicate 6 0"

text \<open>A list item: its value (\<open>xItemValue\<close>) and its owner.\<close>

type_synonym list_item = "u32 \<times> nat"

datatype dhcpd_event =
    ArpRefresh mac_addr in_addr  \<comment> \<open>\<open>vARPRefreshCacheEntry\<close>\<close>
  | SendTo in_addr dhcp_message nat  \<comment> \<open>\<open>sendto\<close>: destination, message, option bytes sent\<close>

record 'w dhcpd =
  server_ip :: in_addr
  netmask :: in_addr
  gateway :: in_addr
  dns0 :: in_addr
  dns1 :: in_addr
  pool_start :: in_addr
  pool_end :: in_addr
  network_mtu :: u16  \<comment> \<open>\<open>ipconfigNETWORK_MTU\<close>, set by the application's stack configuration\<close>
  infos :: "dhcp_ip_info list"
  pool :: "list_item list"
  events :: "dhcpd_event list"
  net :: 'w

record 'w kernel =
  vListInsert :: "list_item \<Rightarrow> list_item list \<Rightarrow> list_item list"
  uxListRemove :: "nat \<Rightarrow> list_item list \<Rightarrow> list_item list"
  time_seconds :: "'w \<Rightarrow> u32 \<times> 'w"  \<comment> \<open>\<open>rtos_time_get().seconds\<close>\<close>
  eARPGetCacheEntry :: "in_addr \<Rightarrow> 'w \<Rightarrow> bool \<times> 'w"  \<comment> \<open>\<open>eARPCacheHit\<close> or not\<close>
  OutputARPRequest :: "in_addr \<Rightarrow> 'w \<Rightarrow> 'w"
  vTaskDelay :: "'w \<Rightarrow> 'w"
  SendPingRequest :: "in_addr \<Rightarrow> 'w \<Rightarrow> u16 \<times> 'w"
  ping_queue_receive :: "'w \<Rightarrow> u16 option \<times> 'w"

text \<open>
  What the code relies on of FreeRTOS lists (list.h): \<open>vListInsert\<close> keeps a list in
  ascending order of the item values and puts a new item behind the items of equal value;
  \<open>uxListRemove\<close> takes out the given item and nothing else.
\<close>

definition list_api_ok :: "('w, 'z) kernel_scheme \<Rightarrow> bool" where
  "list_api_ok K \<longleftrightarrow>
     (\<forall>v c xs. sorted (map fst xs) \<longrightarrow>
        (\<exists>ys zs. xs = ys @ zs \<and> vListInsert K (v, c) xs = ys @ (v, c) # zs
          \<and> (\<forall>it \<in> set ys. fst it \<le> v) \<and> (\<forall>it \<in> set zs. v < fst it)))
   \<and> (\<forall>c xs. uxListRemove K c xs = filter (\<lambda>it. snd it \<noteq> c) xs)"

section \<open>Looking clients up\<close>

text \<open>
  The three lookups walk the list from its head and return the owner of the first item that
  matches, or NULL.
\<close>

fun pool_find :: "(dhcp_ip_info \<Rightarrow> bool) \<Rightarrow> dhcp_ip_info list \<Rightarrow> list_item list \<Rightarrow> nat option" where
  "pool_find P is [] = None"
| "pool_find P is ((v, c) # its) = (if P (is ! c) then Some c else pool_find P is its)"

definition dhcp_client_lookup_by_mac :: "mac_addr \<Rightarrow> ('w, 'z) dhcpd_scheme \<Rightarrow> nat option" where
  "dhcp_client_lookup_by_mac m s = pool_find (\<lambda>i. info_mac i = m) (infos s) (pool s)"

definition dhcp_client_lookup_by_ip :: "in_addr \<Rightarrow> ('w, 'z) dhcpd_scheme \<Rightarrow> nat option" where
  "dhcp_client_lookup_by_ip a s = pool_find (\<lambda>i. info_ip i = a) (infos s) (pool s)"

definition dhcp_client_get_oldest_disconnected :: "('w, 'z) dhcpd_scheme \<Rightarrow> nat option" where
  "dhcp_client_get_oldest_disconnected s =
     pool_find (\<lambda>i. info_state i = DHCP_IP_STATE_AVAILABLE) (infos s) (pool s)"

definition owners :: "('w, 'z) dhcpd_scheme \<Rightarrow> nat set" where
  "owners s = snd ` set (pool s)"

lemma pool_find_None: "pool_find P is its = None \<longleftrightarrow> (\<forall>c \<in> snd ` set its. \<not> P (is ! c))"
  by (induction P "is" its rule: pool_find.induct) auto

lemma pool_find_Some: "pool_find P is its = Some c \<Longrightarrow> c \<in> snd ` set its \<and> P (is ! c)"
  by (induction P "is" its rule: pool_find.induct) (auto split: if_splits)

text \<open>Among several matches the lookup takes the one that expires first.\<close>

lemma pool_find_oldest:
  "pool_find P is its = Some c \<Longrightarrow> sorted (map fst its) \<Longrightarrow>
   (v, c') \<in> set its \<Longrightarrow> P (is ! c') \<Longrightarrow> \<exists>w. (w, c) \<in> set its \<and> w \<le> v"
  by (induction P "is" its rule: pool_find.induct) (fastforce split: if_splits)+

lemma lookup_by_mac_None:
  "dhcp_client_lookup_by_mac m s = None \<longleftrightarrow> (\<forall>c \<in> owners s. info_mac (infos s ! c) \<noteq> m)"
  by (simp add: dhcp_client_lookup_by_mac_def pool_find_None owners_def)

lemma lookup_by_mac_Some:
  "dhcp_client_lookup_by_mac m s = Some c \<Longrightarrow> c \<in> owners s \<and> info_mac (infos s ! c) = m"
  unfolding dhcp_client_lookup_by_mac_def owners_def by (drule pool_find_Some) simp

lemma lookup_by_ip_None:
  "dhcp_client_lookup_by_ip a s = None \<longleftrightarrow> (\<forall>c \<in> owners s. info_ip (infos s ! c) \<noteq> a)"
  by (simp add: dhcp_client_lookup_by_ip_def pool_find_None owners_def)

lemma lookup_by_ip_Some:
  "dhcp_client_lookup_by_ip a s = Some c \<Longrightarrow> c \<in> owners s \<and> info_ip (infos s ! c) = a"
  unfolding dhcp_client_lookup_by_ip_def owners_def by (drule pool_find_Some) simp

lemma oldest_None:
  "dhcp_client_get_oldest_disconnected s = None \<longleftrightarrow>
    (\<forall>c \<in> owners s. info_state (infos s ! c) \<noteq> DHCP_IP_STATE_AVAILABLE)"
  by (simp add: dhcp_client_get_oldest_disconnected_def pool_find_None owners_def)

lemma oldest_Some:
  "dhcp_client_get_oldest_disconnected s = Some c \<Longrightarrow>
    c \<in> owners s \<and> info_state (infos s ! c) = DHCP_IP_STATE_AVAILABLE"
  unfolding dhcp_client_get_oldest_disconnected_def owners_def by (drule pool_find_Some) simp

lemmas lookup_None = lookup_by_mac_None lookup_by_ip_None oldest_None
lemmas lookup_SomeD = lookup_by_mac_Some lookup_by_ip_Some oldest_Some

section \<open>Updating a client\<close>

definition dhcp_client_update ::
  "('w, 'y) kernel_scheme \<Rightarrow> nat \<Rightarrow> int \<Rightarrow> u32 \<Rightarrow> ('w, 'z) dhcpd_scheme \<Rightarrow> ('w, 'z) dhcpd_scheme" where
  "dhcp_client_update K c st expiration s =
     (let (now, w) = time_seconds K (net s);
          removed = uxListRemove K c (pool s);
          entry = infos s ! c
      in s\<lparr>net := w,
           infos := (infos s)[c := entry\<lparr>info_state := st\<rparr>],
           pool := vListInsert K (now + expiration, c) removed\<rparr>)"

text \<open>\<open>client->mac = *mac\<close> and \<open>memset(&client->mac, 0, ...)\<close>.\<close>

definition client_set_mac :: "nat \<Rightarrow> mac_addr \<Rightarrow> ('w, 'z) dhcpd_scheme \<Rightarrow> ('w, 'z) dhcpd_scheme" where
  "client_set_mac c m s = s\<lparr>infos := (infos s)[c := (infos s ! c)\<lparr>info_mac := m\<rparr>]\<rparr>"

subsection \<open>The pool invariant\<close>

text \<open>
  The list is ordered by expiration, holds each entry at most once and only entries of the
  array; the entries carry distinct proper addresses; a client (a MAC address that is not
  zero) is bound to at most one of them.
\<close>

definition macs_unique :: "('w, 'z) dhcpd_scheme \<Rightarrow> bool" where
  "macs_unique s \<longleftrightarrow> (\<forall>c \<in> owners s. \<forall>d \<in> owners s.
     info_mac (infos s ! c) = info_mac (infos s ! d) \<and> info_mac (infos s ! c) \<noteq> zero_mac
       \<longrightarrow> c = d)"

definition pool_ok :: "('w, 'z) dhcpd_scheme \<Rightarrow> bool" where
  "pool_ok s \<longleftrightarrow>
     sorted (map fst (pool s)) \<and> distinct (map snd (pool s))
   \<and> (\<forall>c \<in> owners s. c < length (infos s))
   \<and> inj_on (\<lambda>c. info_ip (infos s ! c)) (owners s)
   \<and> (\<forall>c \<in> owners s. info_ip (infos s ! c) \<noteq> INADDR_ANY \<and> info_ip (infos s ! c) \<noteq> INADDR_BROADCAST)"

lemma pool_okD:
  assumes "pool_ok s"
  shows "sorted (map fst (pool s))" "distinct (map snd (pool s))"
    "c \<in> owners s \<Longrightarrow> c < length (infos s)"
    "c \<in> owners s \<Longrightarrow> d \<in> owners s \<Longrightarrow> info_ip (infos s ! c) = info_ip (infos s ! d) \<Longrightarrow> c = d"
    "c \<in> owners s \<Longrightarrow> info_ip (infos s ! c) \<noteq> INADDR_ANY"
    "c \<in> owners s \<Longrightarrow> info_ip (infos s ! c) \<noteq> INADDR_BROADCAST"
  using assms by (auto simp: pool_ok_def inj_on_def)

lemma vListInsert_sorted:
  assumes "list_api_ok K" and "sorted (map fst xs)"
  shows "sorted (map fst (vListInsert K (v, c) xs))"
    and "set (vListInsert K (v, c) xs) = insert (v, c) (set xs)"
    and "distinct (map snd (vListInsert K (v, c) xs)) \<longleftrightarrow> c \<notin> snd ` set xs \<and> distinct (map snd xs)"
    and "length (vListInsert K (v, c) xs) = Suc (length xs)"
proof -
  from assms obtain ys zs where xs: "xs = ys @ zs" and ins: "vListInsert K (v, c) xs = ys @ (v, c) # zs"
    and le: "\<forall>it \<in> set ys. fst it \<le> v" "\<forall>it \<in> set zs. v < fst it"
    unfolding list_api_ok_def by blast
  show "sorted (map fst (vListInsert K (v, c) xs))"
    unfolding ins using assms(2) le unfolding xs by (auto simp: sorted_append less_imp_le)
  show "set (vListInsert K (v, c) xs) = insert (v, c) (set xs)"
    unfolding ins unfolding xs by auto
  show "distinct (map snd (vListInsert K (v, c) xs)) \<longleftrightarrow> c \<notin> snd ` set xs \<and> distinct (map snd xs)"
    unfolding ins unfolding xs by auto
  show "length (vListInsert K (v, c) xs) = Suc (length xs)"
    unfolding ins unfolding xs by simp
qed

lemma uxListRemove_filter: "list_api_ok K \<Longrightarrow> uxListRemove K c xs = filter (\<lambda>it. snd it \<noteq> c) xs"
  by (simp add: list_api_ok_def)

lemma sorted_map_filter: "sorted (map f xs) \<Longrightarrow> sorted (map f (filter P xs))"
  by (induction xs) auto

lemma distinct_map_filter_snd: "distinct (map f xs) \<Longrightarrow> distinct (map f (filter P xs))"
  by (induction xs) auto

subsection \<open>What an update changes\<close>

lemma entry_update [simp]:
  "info_ip e = info_ip (is ! c) \<Longrightarrow> info_ip (is[c := e] ! d) = info_ip (is ! d)"
  "info_mac e = info_mac (is ! c) \<Longrightarrow> info_mac (is[c := e] ! d) = info_mac (is ! d)"
  "info_state e = info_state (is ! c) \<Longrightarrow> info_state (is[c := e] ! d) = info_state (is ! d)"
  by (cases "c = d"; cases "d < length is"; simp add: list_update_beyond)+

lemma update_frame [simp]:
  "server_ip (dhcp_client_update K c st e s) = server_ip s"
  "netmask (dhcp_client_update K c st e s) = netmask s"
  "gateway (dhcp_client_update K c st e s) = gateway s"
  "dns0 (dhcp_client_update K c st e s) = dns0 s"
  "dns1 (dhcp_client_update K c st e s) = dns1 s"
  "network_mtu (dhcp_client_update K c st e s) = network_mtu s"
  "events (dhcp_client_update K c st e s) = events s"
  "length (infos (dhcp_client_update K c st e s)) = length (infos s)"
  by (simp_all add: dhcp_client_update_def split: prod.splits)

lemma update_infos [simp]:
  "infos (dhcp_client_update K c st e s) = (infos s)[c := (infos s ! c)\<lparr>info_state := st\<rparr>]"
  by (simp add: dhcp_client_update_def split: prod.splits)

lemma update_pool:
  "pool (dhcp_client_update K c st e s) =
     vListInsert K (fst (time_seconds K (net s)) + e, c) (uxListRemove K c (pool s))"
  by (simp add: dhcp_client_update_def split: prod.splits)

lemma update_owners [simp]:
  assumes "list_api_ok K" "sorted (map fst (pool s))" "c \<in> owners s"
  shows "owners (dhcp_client_update K c st e s) = owners s"
proof -
  have "set (pool (dhcp_client_update K c st e s)) =
      insert (fst (time_seconds K (net s)) + e, c) {it \<in> set (pool s). snd it \<noteq> c}"
    using assms by (simp add: update_pool uxListRemove_filter vListInsert_sorted(2) sorted_map_filter)
  with assms(3) show ?thesis unfolding owners_def by force
qed

lemma owners_set_mac [simp]: "owners (client_set_mac c m s) = owners s"
  by (simp add: owners_def client_set_mac_def)

lemma set_mac_frame [simp]:
  "server_ip (client_set_mac c m s) = server_ip s"
  "netmask (client_set_mac c m s) = netmask s"
  "gateway (client_set_mac c m s) = gateway s"
  "dns0 (client_set_mac c m s) = dns0 s"
  "dns1 (client_set_mac c m s) = dns1 s"
  "network_mtu (client_set_mac c m s) = network_mtu s"
  "events (client_set_mac c m s) = events s"
  "pool (client_set_mac c m s) = pool s"
  "net (client_set_mac c m s) = net s"
  "infos (client_set_mac c m s) = (infos s)[c := (infos s ! c)\<lparr>info_mac := m\<rparr>]"
  by (simp_all add: client_set_mac_def)

lemma pool_ok_set_mac [simp]: "pool_ok s \<Longrightarrow> pool_ok (client_set_mac c m s)"
  by (simp add: pool_ok_def inj_on_def)

lemma pool_ok_update:
  assumes ok: "pool_ok s" and api: "list_api_ok K" and c: "c \<in> owners s"
  shows "pool_ok (dhcp_client_update K c st e s)"
proof -
  let ?t = "dhcp_client_update K c st e s" and ?r = "filter (\<lambda>it. snd it \<noteq> c) (pool s)"
  note p = pool_okD [OF ok]
  have r: "sorted (map fst ?r)" "distinct (map snd ?r)"
    using p(1,2) by (simp_all add: sorted_map_filter distinct_map_filter_snd)
  have "sorted (map fst (pool ?t))" "distinct (map snd (pool ?t))"
    using r api by (auto simp: update_pool uxListRemove_filter vListInsert_sorted)
  moreover have "owners ?t = owners s" using api p(1) c by (rule update_owners)
  ultimately show ?thesis
    using ok by (simp add: pool_ok_def inj_on_def)
qed

section \<open>The bindings as a table\<close>

text \<open>
  The contract the lease logic relies on, without the list and the array: a partial map from
  addresses to their state and client. \<open>assign\<close> is the code's idiom of storing a MAC
  address and then calling \<open>dhcp_client_update\<close>.
\<close>

definition binding :: "('w, 'z) dhcpd_scheme \<Rightarrow> in_addr \<Rightarrow> (int \<times> mac_addr) option" where
  "binding s a = map_option (\<lambda>c. (info_state (infos s ! c), info_mac (infos s ! c)))
     (dhcp_client_lookup_by_ip a s)"

definition client_assign ::
  "('w, 'y) kernel_scheme \<Rightarrow> nat \<Rightarrow> mac_addr \<Rightarrow> int \<Rightarrow> u32 \<Rightarrow> ('w, 'z) dhcpd_scheme \<Rightarrow> ('w, 'z) dhcpd_scheme" where
  "client_assign K c m st e s = dhcp_client_update K c st e (client_set_mac c m s)"

locale binding_table =
  fixes ok :: "'s \<Rightarrow> bool"
    and bnd :: "'s \<Rightarrow> in_addr \<Rightarrow> (int \<times> mac_addr) option"
    and addr :: "'s \<Rightarrow> nat \<Rightarrow> in_addr"
    and member :: "'s \<Rightarrow> nat \<Rightarrow> bool"
    and assign :: "nat \<Rightarrow> mac_addr \<Rightarrow> int \<Rightarrow> u32 \<Rightarrow> 's \<Rightarrow> 's"
  assumes ok_assign: "ok s \<Longrightarrow> member s c \<Longrightarrow> ok (assign c m st e s)"
    and member_assign: "ok s \<Longrightarrow> member s c \<Longrightarrow> member (assign c m st e s) d = member s d"
    and addr_assign: "ok s \<Longrightarrow> member s c \<Longrightarrow> addr (assign c m st e s) d = addr s d"
    and bnd_member: "ok s \<Longrightarrow> bnd s a \<noteq> None \<longleftrightarrow> (\<exists>c. member s c \<and> addr s c = a)"
    and bnd_assign: "ok s \<Longrightarrow> member s c \<Longrightarrow>
          bnd (assign c m st e s) = (bnd s)(addr s c \<mapsto> (st, m))"
begin

lemma dom_assign: "ok s \<Longrightarrow> member s c \<Longrightarrow> dom (bnd (assign c m st e s)) = dom (bnd s)"
  using bnd_member [of s "addr s c"] by (auto simp: bnd_assign)

lemma assign_other: "ok s \<Longrightarrow> member s c \<Longrightarrow> a \<noteq> addr s c \<Longrightarrow> bnd (assign c m st e s) a = bnd s a"
  by (simp add: bnd_assign)

lemma assign_assign:
  assumes "ok s" and "member s c"
  shows "bnd (assign c m st e (assign c m' st' e' s)) = bnd (assign c m st e s)"
  using assms by (simp add: bnd_assign ok_assign member_assign addr_assign)

text \<open>Assigning a client that holds no other address keeps clients on one address each.\<close>

lemma assign_unique:
  assumes ok: "ok s" "member s c"
    and uniq: "\<And>a b st st' k. bnd s a = Some (st, k) \<Longrightarrow> bnd s b = Some (st', k) \<Longrightarrow> k \<noteq> z \<Longrightarrow> a = b"
    and free: "m = z \<or> (\<forall>a st'. bnd s a = Some (st', m) \<longrightarrow> a = addr s c)"
    and b: "bnd (assign c m st e s) a = Some (sa, k)" "bnd (assign c m st e s) b = Some (sb, k)" "k \<noteq> z"
  shows "a = b"
proof (cases "a = addr s c \<or> b = addr s c")
  case True
  with b free show ?thesis
    by (auto simp: bnd_assign [OF ok] split: if_splits)
next
  case False
  with b uniq show ?thesis by (simp add: bnd_assign [OF ok])
qed

end

lemma lookup_by_ip_member:
  assumes "pool_ok s" and "c \<in> owners s"
  shows "dhcp_client_lookup_by_ip (info_ip (infos s ! c)) s = Some c"
proof (cases "dhcp_client_lookup_by_ip (info_ip (infos s ! c)) s")
  case None
  with assms(2) show ?thesis by (auto simp: lookup_by_ip_None)
next
  case (Some d)
  then have "d \<in> owners s" "info_ip (infos s ! d) = info_ip (infos s ! c)"
    by (simp_all add: lookup_by_ip_Some)
  with assms Some show ?thesis by (simp add: pool_okD(4))
qed

lemma binding_member:
  assumes "pool_ok s" and "c \<in> owners s"
  shows "binding s (info_ip (infos s ! c)) = Some (info_state (infos s ! c), info_mac (infos s ! c))"
  using assms by (simp add: binding_def lookup_by_ip_member)

lemma binding_eq_Some:
  assumes "pool_ok s"
  shows "binding s a = Some v \<longleftrightarrow> (\<exists>c \<in> owners s. info_ip (infos s ! c) = a
    \<and> v = (info_state (infos s ! c), info_mac (infos s ! c)))"
  using assms by (auto simp: binding_def lookup_by_ip_member dest!: lookup_by_ip_Some)

lemma binding_None: "binding s a = None \<longleftrightarrow> (\<forall>c \<in> owners s. info_ip (infos s ! c) \<noteq> a)"
  by (simp add: binding_def lookup_by_ip_None)

lemma client_assign_frame:
  assumes "list_api_ok K" "pool_ok s" "c \<in> owners s"
  shows "pool_ok (client_assign K c m st e s)" "owners (client_assign K c m st e s) = owners s"
    "info_ip (infos (client_assign K c m st e s) ! d) = info_ip (infos s ! d)"
  using assms pool_okD(1) [OF assms(2)]
  by (simp_all add: client_assign_def pool_ok_update)

lemma client_assign_entry:
  assumes "pool_ok s" "c \<in> owners s" "d \<in> owners s"
  shows "info_state (infos (client_assign K c m st e s) ! d) =
      (if d = c then st else info_state (infos s ! d))"
    and "info_mac (infos (client_assign K c m st e s) ! d) =
      (if d = c then m else info_mac (infos s ! d))"
  using pool_okD(3) [OF assms(1)] assms(2,3) by (auto simp: client_assign_def)

lemma binding_client_assign:
  assumes api: "list_api_ok K" and ok: "pool_ok s" and c: "c \<in> owners s"
  shows "binding (client_assign K c m st e s) = (binding s)(info_ip (infos s ! c) \<mapsto> (st, m))"
proof
  fix a
  let ?t = "client_assign K c m st e s"
  note f = client_assign_frame [OF api ok c]
  show "binding ?t a = ((binding s)(info_ip (infos s ! c) \<mapsto> (st, m))) a"
  proof (cases "binding s a")
    case None
    then have "binding ?t a = None" by (simp add: binding_None f)
    moreover from None c have "info_ip (infos s ! c) \<noteq> a" by (auto simp: binding_None)
    ultimately show ?thesis using None by simp
  next
    case (Some v)
    then obtain d where d: "d \<in> owners s" "info_ip (infos s ! d) = a"
      by (auto simp: binding_eq_Some [OF ok])
    then have "binding ?t a = Some (info_state (infos ?t ! d), info_mac (infos ?t ! d))"
      using binding_member [OF f(1)] f by fastforce
    moreover have "info_ip (infos s ! c) = a \<longleftrightarrow> d = c"
      using d c pool_okD(4) [OF ok] by blast
    ultimately show ?thesis
      using d binding_member [OF ok d(1)] by (auto simp: client_assign_entry [OF ok c])
  qed
qed

interpretation tbl: binding_table "\<lambda>s. list_api_ok K \<and> pool_ok s" binding
    "\<lambda>s c. info_ip (infos s ! c)" "\<lambda>s c. c \<in> owners s" "client_assign K"
  for K :: "('w, 'y) kernel_scheme"
proof unfold_locales
  fix s :: "('w, 'z) dhcpd_scheme" and c d m st e a
  assume s: "list_api_ok K \<and> pool_ok s"
  show "binding s a \<noteq> None \<longleftrightarrow> (\<exists>c. c \<in> owners s \<and> info_ip (infos s ! c) = a)"
    by (auto simp: binding_None)
  assume c: "c \<in> owners s"
  show "list_api_ok K \<and> pool_ok (client_assign K c m st e s)"
    "(d \<in> owners (client_assign K c m st e s)) = (d \<in> owners s)"
    "info_ip (infos (client_assign K c m st e s) ! d) = info_ip (infos s ! d)"
    using s c by (simp_all add: client_assign_frame)
  show "binding (client_assign K c m st e s) = (binding s)(info_ip (infos s ! c) \<mapsto> (st, m))"
    using s c by (simp add: binding_client_assign)
qed

text \<open>An update alone keeps the client: it is an assignment of the MAC already stored.\<close>

lemma update_as_assign: "dhcp_client_update K c st e s = client_assign K c (info_mac (infos s ! c)) st e s"
proof -
  have "client_set_mac c (info_mac (infos s ! c)) s = s" by (simp add: client_set_mac_def)
  then show ?thesis by (simp add: client_assign_def)
qed

lemma macs_unique_binding:
  assumes "pool_ok s"
  shows "macs_unique s \<longleftrightarrow> (\<forall>a b sa sb k. binding s a = Some (sa, k) \<longrightarrow> binding s b = Some (sb, k)
    \<longrightarrow> k \<noteq> zero_mac \<longrightarrow> a = b)"
  using assms pool_okD(4) [OF assms] unfolding macs_unique_def
  by (auto simp: binding_eq_Some) (metis binding_eq_Some)+

end
