(* ===== verification/Dhcp_Lease.thy ===== *)
theory Dhcp_Lease
  imports Dhcp_Pool
begin

text \<open>
  Choosing an address: the probe for addresses in use on the network and
  \<open>dhcpd_client_ip_address_lease\<close>, which offers, leases, registers or refuses an address
  (modules/rtos/sw_services/dhcpd/FreeRTOS/dhcpd.c). The lemmas show that it always returns,
  that it keeps the pool invariant and never binds a client twice, and what it answers to each
  kind of request.
\<close>

section \<open>Probing an address\<close>

text \<open>
  The inner loop waits \<open>n\<close> times 10 ms for an ARP cache entry to appear; the outer loop
  sends \<open>tries\<close> ARP requests.
\<close>

fun arp_wait :: "('w, 'y) kernel_scheme \<Rightarrow> in_addr \<Rightarrow> nat \<Rightarrow> 'w \<Rightarrow> bool \<times> 'w" where
  "arp_wait K a 0 w = (False, w)"
| "arp_wait K a (Suc n) w =
     (let (hit, w) = eARPGetCacheEntry K a (vTaskDelay K w)
      in if hit then (True, w) else arp_wait K a n w)"

fun arp_probe :: "('w, 'y) kernel_scheme \<Rightarrow> in_addr \<Rightarrow> nat \<Rightarrow> 'w \<Rightarrow> bool \<times> 'w" where
  "arp_probe K a 0 w = (False, w)"
| "arp_probe K a (Suc tries) w =
     (let (in_use, w) = arp_wait K a (DHCPD_IP_PROBE_WAIT_TIME div 10) (OutputARPRequest K a w)
      in if in_use then (True, w) else arp_probe K a tries w)"

text \<open>
  The loop that skips replies to earlier pings. It has no bound of its own, so not returning
  is the value \<open>None\<close>.
\<close>

partial_function (option) ping_wait ::
  "('w, 'y) kernel_scheme \<Rightarrow> u16 \<Rightarrow> 'w \<Rightarrow> (bool \<times> 'w) option" where
  "ping_wait K out w =
     (case ping_queue_receive K w of
        (None, w) \<Rightarrow> Some (False, w)
      | (Some n, w) \<Rightarrow> if out \<noteq> n then ping_wait K out w else Some (True, w))"

fun ping_probe :: "('w, 'y) kernel_scheme \<Rightarrow> in_addr \<Rightarrow> nat \<Rightarrow> 'w \<Rightarrow> (bool \<times> 'w) option" where
  "ping_probe K a 0 w = Some (False, w)"
| "ping_probe K a (Suc tries) w =
     (let (out, w) = SendPingRequest K a w
      in if out \<noteq> 0 then
           do { (ret, w) \<leftarrow> ping_wait K out w;
                if ret then Some (True, w) else ping_probe K a tries w }
         else ping_probe K a tries w)"

definition dhcpd_ip_address_in_use ::
  "('w, 'y) kernel_scheme \<Rightarrow> in_addr \<Rightarrow> 'w \<Rightarrow> (bool \<times> 'w) option" where
  "dhcpd_ip_address_in_use K a w =
     (let tries = 2; (hit, w) = eARPGetCacheEntry K a w
      in if \<not> hit then Some (arp_probe K a tries w) else ping_probe K a tries w)"

text \<open>
  What the code relies on of the network stack: the queue of ping replies runs dry, that is, a
  receive with a time-out eventually times out or delivers the awaited reply.
\<close>

definition pings_drain :: "('w, 'y) kernel_scheme \<Rightarrow> bool" where
  "pings_drain K \<longleftrightarrow> (\<forall>out w. ping_wait K out w \<noteq> None)"

lemma ping_probe_returns: "pings_drain K \<Longrightarrow> ping_probe K a tries w \<noteq> None"
proof (induction tries arbitrary: w)
  case (Suc tries)
  obtain out w1 where s: "SendPingRequest K a w = (out, w1)" by fastforce
  from Suc.prems obtain r w2 where "ping_wait K out w1 = Some (r, w2)"
    unfolding pings_drain_def by (metis option.exhaust surj_pair)
  with s Suc show ?case by (cases r) auto
qed simp

lemma in_use_returns: "pings_drain K \<Longrightarrow> \<exists>r w'. dhcpd_ip_address_in_use K a w = Some (r, w')"
  using ping_probe_returns [of K a 2]
  by (auto simp: dhcpd_ip_address_in_use_def split: prod.splits)

text \<open>A reply is queued only if it answers the outstanding ping.\<close>

record ping_state =
  ping_reply_queue :: "u16 option option"  \<comment> \<open>\<open>None\<close>: the queue is not created yet\<close>
  ping_number_out :: u16

definition dhcpd_ping_reply_received :: "u16 \<Rightarrow> ping_state \<Rightarrow> ping_state" where
  "dhcpd_ping_reply_received n p =
     (if ping_reply_queue p \<noteq> None \<and> ping_number_out p \<noteq> 0 \<and> n = ping_number_out p
      then p\<lparr>ping_reply_queue := Some (Some n)\<rparr> else p)"

section \<open>Leasing\<close>

abbreviation (input) "DHCP_DISCOVER \<equiv> (1 :: int)"
abbreviation (input) "DHCP_OFFER \<equiv> (2 :: int)"
abbreviation (input) "DHCP_REQUEST \<equiv> (3 :: int)"
abbreviation (input) "DHCP_DECLINE \<equiv> (4 :: int)"
abbreviation (input) "DHCP_ACK \<equiv> (5 :: int)"
abbreviation (input) "DHCP_NAK \<equiv> (6 :: int)"
abbreviation (input) "DHCP_RELEASE \<equiv> (7 :: int)"
abbreviation (input) "DHCP_INFORM \<equiv> (8 :: int)"

text \<open>The probe, with its effect on the server's environment.\<close>

definition probe :: "('w, 'y) kernel_scheme \<Rightarrow> nat \<Rightarrow> ('w, 'z) dhcpd_scheme
    \<Rightarrow> (bool \<times> ('w, 'z) dhcpd_scheme) option" where
  "probe K c s = do { (used, w) \<leftarrow> dhcpd_ip_address_in_use K (info_ip (infos s ! c)) (net s);
                      Some (used, s\<lparr>net := w\<rparr>) }"

text \<open>An address that answers although it is not leased: forget the client, set it aside.\<close>

definition mark_unavailable ::
  "('w, 'y) kernel_scheme \<Rightarrow> nat \<Rightarrow> ('w, 'z) dhcpd_scheme \<Rightarrow> ('w, 'z) dhcpd_scheme" where
  "mark_unavailable K c s = dhcp_client_update K c DHCP_IP_STATE_UNAVAILABLE
     DHCPD_UNAVAILABLE_IP_PROBE_INTERVAL (client_set_mac c zero_mac s)"

text \<open>The \<open>for (;;)\<close> loop over the available addresses.\<close>

partial_function (option) lease_search ::
  "('w, 'y) kernel_scheme \<Rightarrow> mac_addr \<Rightarrow> ('w, 'z) dhcpd_scheme
    \<Rightarrow> (in_addr \<times> ('w, 'z) dhcpd_scheme) option" where
  "lease_search K m s =
     (case dhcp_client_get_oldest_disconnected s of
        None \<Rightarrow> Some (INADDR_ANY, s)
      | Some c \<Rightarrow>
          do { (used, s) \<leftarrow> probe K c s;
               if used then lease_search K m (mark_unavailable K c s)
               else let s = dhcp_client_update K c DHCP_IP_STATE_OFFERED
                          DHCPD_OFFER_EXPIRATION_TIME (client_set_mac c m s)
                    in Some (info_ip (infos s ! c), s) })"

text \<open>
  The second half of the function: no address has been assigned to this MAC address yet, or
  not any more.
\<close>

definition lease_new :: "('w, 'y) kernel_scheme \<Rightarrow> mac_addr \<Rightarrow> in_addr \<Rightarrow> int \<Rightarrow> ('w, 'z) dhcpd_scheme
    \<Rightarrow> (in_addr \<times> ('w, 'z) dhcpd_scheme) option" where
  "lease_new K m requested_ip request_type s =
     (let rest = (\<lambda>s. if request_type = DHCP_DISCOVER then lease_search K m s
                      else Some (INADDR_ANY, s))
      in if request_type = DHCP_DISCOVER \<or> request_type = DHCP_INFORM then
           (case (if requested_ip \<noteq> INADDR_ANY then dhcp_client_lookup_by_ip requested_ip s
                  else None) of
              None \<Rightarrow> rest s
            | Some c \<Rightarrow>
                if info_state (infos s ! c) \<noteq> DHCP_IP_STATE_AVAILABLE then rest s
                else if request_type = DHCP_DISCOVER then
                  do { (used, s) \<leftarrow> probe K c s;
                       if used then rest (mark_unavailable K c s)
                       else let s = dhcp_client_update K c DHCP_IP_STATE_OFFERED
                                  DHCPD_OFFER_EXPIRATION_TIME (client_set_mac c m s)
                            in Some (info_ip (infos s ! c), s) }
                else let s = dhcp_client_update K c
                           (of_bool (request_type = DHCP_IP_STATE_STATIC)) 0 (client_set_mac c m s)
                     in Some (info_ip (infos s ! c), s))
         else Some (INADDR_ANY, s))"

definition dhcpd_client_ip_address_lease ::
  "('w, 'y) kernel_scheme \<Rightarrow> mac_addr \<Rightarrow> in_addr \<Rightarrow> int \<Rightarrow> ('w, 'z) dhcpd_scheme
    \<Rightarrow> (in_addr \<times> ('w, 'z) dhcpd_scheme) option" where
  "dhcpd_client_ip_address_lease K m requested_ip request_type s =
     (case dhcp_client_lookup_by_mac m s of
        None \<Rightarrow> lease_new K m requested_ip request_type s
      | Some c \<Rightarrow>
          if request_type = DHCP_REQUEST \<and> info_ip (infos s ! c) \<noteq> requested_ip
          then Some (INADDR_BROADCAST, s)
          else if request_type \<noteq> DHCP_INFORM then
            (let expiration = (if request_type = DHCP_DISCOVER then DHCPD_OFFER_EXPIRATION_TIME
                               else DHCPD_LEASE_TIME);
                 st = (if request_type = DHCP_DISCOVER then DHCP_IP_STATE_OFFERED
                       else DHCP_IP_STATE_LEASED);
                 renew = (\<lambda>s. let s = dhcp_client_update K c st expiration s;
                                  i = infos s ! c;
                                  s = (if st = DHCP_IP_STATE_LEASED
                                       then s\<lparr>events := events s @ [ArpRefresh (info_mac i) (info_ip i)]\<rparr>
                                       else s)
                              in Some (info_ip i, s))
             in if request_type = DHCP_DISCOVER \<and> info_state (infos s ! c) \<noteq> DHCP_IP_STATE_LEASED then
                  do { (used, s) \<leftarrow> probe K c s;
                       if used then
                         lease_new K m
                           (if requested_ip = info_ip (infos s ! c) then INADDR_ANY else requested_ip)
                           request_type (mark_unavailable K c s)
                       else renew s }
                else renew s)
          else if info_ip (infos s ! c) = requested_ip then
            (let s = dhcp_client_update K c DHCP_IP_STATE_STATIC 0 s
             in Some (info_ip (infos s ! c), s))
          else lease_new K m requested_ip request_type
                 (dhcp_client_update K c DHCP_IP_STATE_AVAILABLE 0 (client_set_mac c zero_mac s)))"

section \<open>What leasing does to the bindings\<close>

text \<open>
  An abstract account of the lease logic over the table of bindings. Probing may set
  available addresses aside; nothing else happens to addresses that are not granted.
\<close>

type_synonym bindings = "in_addr \<Rightarrow> (int \<times> mac_addr) option"

definition set_aside :: "bindings \<Rightarrow> bindings \<Rightarrow> bool" where
  "set_aside b b' \<longleftrightarrow> (\<forall>a. b' a = b a \<or>
     (\<exists>k. b a = Some (DHCP_IP_STATE_AVAILABLE, k) \<and> b' a = Some (DHCP_IP_STATE_UNAVAILABLE, zero_mac)))"

definition clients_unique :: "bindings \<Rightarrow> bool" where
  "clients_unique b \<longleftrightarrow> (\<forall>a a' st st' k. b a = Some (st, k) \<longrightarrow> b a' = Some (st', k)
     \<longrightarrow> k \<noteq> zero_mac \<longrightarrow> a = a')"

text \<open>
  The outcome of \<open>lease_new\<close>: silence, after all available addresses were found in use
  (for a DISCOVER), or one available address bound to the client.
\<close>

definition lease_new_post :: "mac_addr \<Rightarrow> int \<Rightarrow> bindings \<Rightarrow> in_addr \<Rightarrow> bindings \<Rightarrow> bool" where
  "lease_new_post m rt b a b' \<longleftrightarrow>
     a = INADDR_ANY \<and> set_aside b b'
       \<and> (rt = DHCP_DISCOVER \<longrightarrow> (\<forall>x k. b' x \<noteq> Some (DHCP_IP_STATE_AVAILABLE, k)))
   \<or> (rt = DHCP_DISCOVER \<or> rt = DHCP_INFORM) \<and> a \<noteq> INADDR_ANY \<and> a \<noteq> INADDR_BROADCAST
       \<and> (\<exists>c k. set_aside b c \<and> c a = Some (DHCP_IP_STATE_AVAILABLE, k)
            \<and> b' = c(a \<mapsto> (if rt = DHCP_DISCOVER then DHCP_IP_STATE_OFFERED
                           else DHCP_IP_STATE_AVAILABLE, m)))"

lemma set_aside_refl [simp]: "set_aside b b"
  by (simp add: set_aside_def)

lemma set_aside_trans: "set_aside a b \<Longrightarrow> set_aside b c \<Longrightarrow> set_aside a c"
  unfolding set_aside_def by (metis option.inject prod.inject)

lemma set_aside_one:
  "b a = Some (DHCP_IP_STATE_AVAILABLE, k) \<Longrightarrow>
    set_aside b (b(a \<mapsto> (DHCP_IP_STATE_UNAVAILABLE, zero_mac)))"
  by (simp add: set_aside_def)

lemma set_aside_dom: "set_aside b b' \<Longrightarrow> dom b' = dom b"
  unfolding set_aside_def dom_def by (metis option.distinct(1))

lemma set_aside_client:
  "set_aside b b' \<Longrightarrow> b' a = Some (st, k) \<Longrightarrow> k \<noteq> zero_mac \<Longrightarrow> b a = Some (st, k)"
  unfolding set_aside_def by (metis option.inject prod.inject)

lemma set_aside_kept:
  "set_aside b b' \<Longrightarrow> b a = Some (st, k) \<Longrightarrow> st \<noteq> DHCP_IP_STATE_AVAILABLE \<Longrightarrow> b' a = Some (st, k)"
  unfolding set_aside_def by (metis option.inject prod.inject)

lemma set_aside_unique: "set_aside b b' \<Longrightarrow> clients_unique b \<Longrightarrow> clients_unique b'"
  unfolding clients_unique_def by (meson set_aside_client)

lemma clients_unique_upd:
  assumes "clients_unique b" and "m = zero_mac \<or> (\<forall>x st'. b x = Some (st', m) \<longrightarrow> x = a)"
  shows "clients_unique (b(a \<mapsto> (st, m)))"
  using assms unfolding clients_unique_def by (auto split: if_splits)

lemma lease_new_post_pre:
  assumes "set_aside b0 b" and "lease_new_post m rt b a b'"
  shows "lease_new_post m rt b0 a b'"
  using assms(2) set_aside_trans [OF assms(1)] unfolding lease_new_post_def by blast

lemma lease_new_postE:
  assumes "lease_new_post m rt b a b'"
  obtains (silent) "a = INADDR_ANY" "set_aside b b'"
    | (granted) c st k where "set_aside b c" "c a = Some (DHCP_IP_STATE_AVAILABLE, k)"
        "b' = c(a \<mapsto> (st, m))" "a \<noteq> INADDR_ANY" "a \<noteq> INADDR_BROADCAST"
  using assms unfolding lease_new_post_def by blast

lemma lease_new_post_dom:
  assumes "lease_new_post m rt b a b'"
  shows "dom b' = dom b"
  using assms
proof (cases rule: lease_new_postE)
  case silent
  then show ?thesis by (simp add: set_aside_dom)
next
  case (granted c st k)
  then have "dom b' = dom c" by auto
  with granted(1) show ?thesis by (simp add: set_aside_dom)
qed

lemma lease_new_post_kept:
  assumes "lease_new_post m rt b a b'" and x: "b x = Some (st, k)" "st \<noteq> DHCP_IP_STATE_AVAILABLE"
  shows "b' x = Some (st, k)"
  using assms(1)
proof (cases rule: lease_new_postE)
  case silent
  with x show ?thesis by (simp add: set_aside_kept)
next
  case (granted c st' k')
  then have "c x = Some (st, k)" using x by (simp add: set_aside_kept)
  with granted x(2) show ?thesis by auto
qed

lemma lease_new_post_unique:
  assumes post: "lease_new_post m rt b a b'" and u: "clients_unique b"
    and free: "m = zero_mac \<or> (\<forall>x st. b x \<noteq> Some (st, m))"
  shows "clients_unique b'"
  using post
proof (cases rule: lease_new_postE)
  case silent
  then show ?thesis using u by (simp add: set_aside_unique)
next
  case (granted c st k)
  then have "m = zero_mac \<or> (\<forall>x st'. c x = Some (st', m) \<longrightarrow> x = a)"
    using free set_aside_client by blast
  with granted u show ?thesis by (simp add: clients_unique_upd set_aside_unique)
qed

section \<open>The code meets the account\<close>

lemma environment_frame [simp]:
  "binding (s\<lparr>net := w\<rparr>) = binding s" "binding (s\<lparr>events := ev\<rparr>) = binding s"
  "pool_ok (s\<lparr>net := w\<rparr>) = pool_ok s" "pool_ok (s\<lparr>events := ev\<rparr>) = pool_ok s"
  "owners (s\<lparr>net := w\<rparr>) = owners s" "owners (s\<lparr>events := ev\<rparr>) = owners s"
  by (auto simp: fun_eq_iff binding_def dhcp_client_lookup_by_ip_def pool_ok_def owners_def)

lemma probe_returns:
  assumes "pings_drain K"
  obtains used w where "probe K c s = Some (used, s\<lparr>net := w\<rparr>)"
  using in_use_returns [OF assms, of "info_ip (infos s ! c)" "net s"] that
  by (auto simp: probe_def)

lemma mark_unavailable_assign:
  "mark_unavailable K c s = client_assign K c zero_mac DHCP_IP_STATE_UNAVAILABLE
     DHCPD_UNAVAILABLE_IP_PROBE_INTERVAL s"
  by (simp add: mark_unavailable_def client_assign_def)

definition available_count :: "('w, 'z) dhcpd_scheme \<Rightarrow> nat" where
  "available_count s = card {c \<in> owners s. info_state (infos s ! c) = DHCP_IP_STATE_AVAILABLE}"

lemma finite_owners [simp]: "finite (owners s)"
  by (simp add: owners_def)

text \<open>Each turn of the search sets one available address aside.\<close>

lemma available_count_mark:
  assumes "pool_ok s" "list_api_ok K" "c \<in> owners s"
    and "info_state (infos s ! c) = DHCP_IP_STATE_AVAILABLE"
  shows "available_count (mark_unavailable K c s) < available_count s"
  unfolding available_count_def mark_unavailable_assign
proof -
  let ?A = "\<lambda>s. {c \<in> owners s. info_state (infos s ! c) = DHCP_IP_STATE_AVAILABLE}"
  let ?t = "client_assign K c zero_mac DHCP_IP_STATE_UNAVAILABLE DHCPD_UNAVAILABLE_IP_PROBE_INTERVAL s"
  have "?A ?t = ?A s - {c}"
    using assms by (auto simp: client_assign_frame client_assign_entry split: if_splits)
  then show "card (?A ?t) < card (?A s)"
    using assms by (simp add: card_Diff1_less del: card_Diff_insert)
qed

text \<open>Facts about an entry found by one of the lookups, in terms of the bindings.\<close>

lemma assign_found:
  assumes "list_api_ok K" "pool_ok s" "c \<in> owners s"
  shows "pool_ok (client_assign K c m st e s)"
    and "binding (client_assign K c m st e s) = (binding s)(info_ip (infos s ! c) \<mapsto> (st, m))"
    and "info_ip (infos (client_assign K c m st e s) ! c) = info_ip (infos s ! c)"
    and "info_ip (infos s ! c) \<noteq> INADDR_ANY" "info_ip (infos s ! c) \<noteq> INADDR_BROADCAST"
  using assms tbl.ok_assign [where K = K and s = s and c = c and m = m and st = st and e = e]
    tbl.bnd_assign [where K = K and s = s and c = c and m = m and st = st and e = e]
    tbl.addr_assign [where K = K and s = s and c = c and m = m and st = st and e = e and d = c]
    pool_okD(5,6) [OF assms(2,3)]
  by simp_all

lemma lease_search_post:
  assumes api: "list_api_ok K" and pings: "pings_drain K"
  shows "pool_ok s \<Longrightarrow> \<exists>a t. lease_search K m s = Some (a, t) \<and> pool_ok t
    \<and> lease_new_post m DHCP_DISCOVER (binding s) a (binding t)"
proof (induction "available_count s" arbitrary: s rule: less_induct)
  case (less s)
  note ok = \<open>pool_ok s\<close>
  show ?case
  proof (cases "dhcp_client_get_oldest_disconnected s")
    case None
    then have "\<forall>x k. binding s x \<noteq> Some (DHCP_IP_STATE_AVAILABLE, k)"
      by (auto simp: oldest_None binding_eq_Some [OF ok])
    with None ok show ?thesis
      by (subst lease_search.simps) (simp add: lease_new_post_def)
  next
    case (Some c)
    then have c: "c \<in> owners s" and av: "info_state (infos s ! c) = DHCP_IP_STATE_AVAILABLE"
      by (simp_all add: oldest_Some)
    then have b: "binding s (info_ip (infos s ! c)) = Some (DHCP_IP_STATE_AVAILABLE, info_mac (infos s ! c))"
      by (simp add: binding_member [OF ok])
    obtain used w where pr: "probe K c s = Some (used, s\<lparr>net := w\<rparr>)"
      using pings by (rule probe_returns)
    let ?s = "s\<lparr>net := w\<rparr>"
    have ok': "pool_ok ?s" and c': "c \<in> owners ?s" using ok c by simp_all
    show ?thesis
    proof (cases used)
      case True
      let ?t = "mark_unavailable K c ?s"
      have "available_count ?t < available_count s"
        using available_count_mark [OF ok' api c'] av by (simp add: available_count_def)
      moreover have t: "pool_ok ?t" "set_aside (binding s) (binding ?t)"
        using assign_found [OF api ok' c'] b by (simp_all add: mark_unavailable_assign set_aside_one)
      ultimately obtain a u where u: "lease_search K m ?t = Some (a, u)" "pool_ok u"
        "lease_new_post m DHCP_DISCOVER (binding ?t) a (binding u)"
        using less.hyps by blast
      have "lease_search K m s = Some (a, u)"
        by (subst lease_search.simps) (simp add: Some pr True u(1))
      with u(2) lease_new_post_pre [OF t(2) u(3)] show ?thesis by blast
    next
      case False
      let ?t = "client_assign K c m DHCP_IP_STATE_OFFERED DHCPD_OFFER_EXPIRATION_TIME ?s"
      note t = assign_found [OF api ok' c']
      have "lease_search K m s = Some (info_ip (infos s ! c), ?t)"
        using t(3) by (subst lease_search.simps) (simp add: Some pr False client_assign_def Let_def)
      with t b show ?thesis by (auto simp: lease_new_post_def intro!: exI [of _ "binding s"])
    qed
  qed
qed

text \<open>
  The second half of the function as a whole. \<open>rest\<close> is its common tail: the search for a
  DISCOVER, silence otherwise.
\<close>

lemma lease_new_found:
  assumes "requested \<noteq> INADDR_ANY" "dhcp_client_lookup_by_ip requested s = Some c"
    and "info_state (infos s ! c) = DHCP_IP_STATE_AVAILABLE"
  shows "lease_new K m requested DHCP_DISCOVER s =
      do { (used, s) \<leftarrow> probe K c s;
           if used then lease_search K m (mark_unavailable K c s)
           else let s = client_assign K c m DHCP_IP_STATE_OFFERED DHCPD_OFFER_EXPIRATION_TIME s
                in Some (info_ip (infos s ! c), s) }"
    and "lease_new K m requested DHCP_INFORM s =
      (let s = client_assign K c m DHCP_IP_STATE_AVAILABLE 0 s in Some (info_ip (infos s ! c), s))"
  using assms by (simp_all add: lease_new_def client_assign_def Let_def cong: if_cong)

lemma lease_new_rest:
  assumes "requested = INADDR_ANY \<or> dhcp_client_lookup_by_ip requested s = None
    \<or> (\<exists>c. dhcp_client_lookup_by_ip requested s = Some c
        \<and> info_state (infos s ! c) \<noteq> DHCP_IP_STATE_AVAILABLE)"
  shows "lease_new K m requested rt s =
    (if rt = DHCP_DISCOVER then lease_search K m s else Some (INADDR_ANY, s))"
  using assms by (auto simp: lease_new_def Let_def)

lemma lease_new_other: "rt \<noteq> DHCP_DISCOVER \<Longrightarrow> rt \<noteq> DHCP_INFORM \<Longrightarrow>
    lease_new K m requested rt s = Some (INADDR_ANY, s)"
  by (simp add: lease_new_def)

lemma lease_new_discover_found:
  assumes api: "list_api_ok K" and pings: "pings_drain K" and ok: "pool_ok s"
    and r: "requested \<noteq> INADDR_ANY" "dhcp_client_lookup_by_ip requested s = Some c"
      "info_state (infos s ! c) = DHCP_IP_STATE_AVAILABLE"
  shows "\<exists>a t. lease_new K m requested DHCP_DISCOVER s = Some (a, t) \<and> pool_ok t
    \<and> lease_new_post m DHCP_DISCOVER (binding s) a (binding t)"
proof -
  have c: "c \<in> owners s" using r(2) by (simp add: lookup_by_ip_Some)
  then have b: "binding s (info_ip (infos s ! c)) = Some (DHCP_IP_STATE_AVAILABLE, info_mac (infos s ! c))"
    using r(3) by (simp add: binding_member [OF ok])
  obtain used w where pr: "probe K c s = Some (used, s\<lparr>net := w\<rparr>)"
    using pings by (rule probe_returns)
  let ?s = "s\<lparr>net := w\<rparr>"
  have s: "pool_ok ?s" "c \<in> owners ?s" using ok c by simp_all
  show ?thesis
  proof (cases used)
    case True
    let ?t = "mark_unavailable K c ?s"
    have t: "pool_ok ?t" "set_aside (binding s) (binding ?t)"
      using assign_found [OF api s] b by (simp_all add: mark_unavailable_assign set_aside_one)
    then obtain a u where "lease_search K m ?t = Some (a, u)" "pool_ok u"
      "lease_new_post m DHCP_DISCOVER (binding ?t) a (binding u)"
      using lease_search_post [OF api pings t(1)] by blast
    with t(2) show ?thesis by (auto simp: lease_new_found [OF r] pr True intro: lease_new_post_pre)
  next
    case False
    note t = assign_found [OF api s]
    from t b show ?thesis
      by (auto simp: lease_new_found [OF r] pr False Let_def lease_new_post_def
          intro!: exI [of _ "binding s"])
  qed
qed

lemma lease_new_inform_found:
  assumes api: "list_api_ok K" and ok: "pool_ok s"
    and r: "requested \<noteq> INADDR_ANY" "dhcp_client_lookup_by_ip requested s = Some c"
      "info_state (infos s ! c) = DHCP_IP_STATE_AVAILABLE"
  shows "\<exists>a t. lease_new K m requested DHCP_INFORM s = Some (a, t) \<and> pool_ok t
    \<and> lease_new_post m DHCP_INFORM (binding s) a (binding t)"
proof -
  have c: "c \<in> owners s" using r(2) by (simp add: lookup_by_ip_Some)
  then have b: "binding s (info_ip (infos s ! c)) = Some (DHCP_IP_STATE_AVAILABLE, info_mac (infos s ! c))"
    using r(3) by (simp add: binding_member [OF ok])
  from assign_found [OF api ok c] b show ?thesis
    by (auto simp: lease_new_found [OF r] Let_def lease_new_post_def intro!: exI [of _ "binding s"])
qed

lemma lease_new_spec:
  assumes api: "list_api_ok K" and pings: "pings_drain K" and ok: "pool_ok s"
  shows "\<exists>a t. lease_new K m requested rt s = Some (a, t) \<and> pool_ok t
    \<and> lease_new_post m rt (binding s) a (binding t)"
proof (cases "\<exists>c. requested \<noteq> INADDR_ANY \<and> dhcp_client_lookup_by_ip requested s = Some c
    \<and> info_state (infos s ! c) = DHCP_IP_STATE_AVAILABLE")
  case True
  then obtain c where r: "requested \<noteq> INADDR_ANY" "dhcp_client_lookup_by_ip requested s = Some c"
    "info_state (infos s ! c) = DHCP_IP_STATE_AVAILABLE" by blast
  consider "rt = DHCP_DISCOVER" | "rt = DHCP_INFORM" | "rt \<noteq> DHCP_DISCOVER" "rt \<noteq> DHCP_INFORM"
    by blast
  then show ?thesis
  proof cases
    case 1
    then show ?thesis using lease_new_discover_found [OF api pings ok r] by simp
  next
    case 2
    then show ?thesis using lease_new_inform_found [OF api ok r] by simp
  next
    case 3
    then show ?thesis using ok by (simp add: lease_new_other lease_new_post_def)
  qed
next
  case False
  then have "lease_new K m requested rt s =
      (if rt = DHCP_DISCOVER then lease_search K m s else Some (INADDR_ANY, s))"
    by (intro lease_new_rest) (cases "dhcp_client_lookup_by_ip requested s"; auto)
  then show ?thesis
    using lease_search_post [OF api pings ok] ok by (auto simp: lease_new_post_def)
qed

section \<open>The account of a whole lease request\<close>

text \<open>
  The four outcomes: a NAK for a REQUEST of another address than the client's own; the client
  keeps its address; an unknown client gets a new one or silence; a known client whose address
  turned out to be in use, or who informs the server of another one, gives its address up first.
\<close>

definition kept_state :: "int \<Rightarrow> int" where
  "kept_state rt = (if rt = DHCP_DISCOVER then DHCP_IP_STATE_OFFERED
     else if rt = DHCP_INFORM then DHCP_IP_STATE_STATIC else DHCP_IP_STATE_LEASED)"

inductive lease_post :: "mac_addr \<Rightarrow> in_addr \<Rightarrow> int \<Rightarrow> bindings \<Rightarrow> in_addr \<Rightarrow> bindings \<Rightarrow> bool"
  for m req rt b where
  nak: "rt = DHCP_REQUEST \<Longrightarrow> b x = Some (st, m) \<Longrightarrow> x \<noteq> req \<Longrightarrow>
     lease_post m req rt b INADDR_BROADCAST b"
| kept: "b a = Some (st, m) \<Longrightarrow> a \<noteq> INADDR_ANY \<Longrightarrow> a \<noteq> INADDR_BROADCAST \<Longrightarrow>
     rt \<in> {DHCP_REQUEST, DHCP_INFORM} \<longrightarrow> a = req \<Longrightarrow>
     lease_post m req rt b a (b(a \<mapsto> (kept_state rt, m)))"
| fresh: "\<forall>x st. b x \<noteq> Some (st, m) \<Longrightarrow> lease_new_post m rt b a b' \<Longrightarrow>
     lease_post m req rt b a b'"
| moved: "b x = Some (st, m) \<Longrightarrow>
     rt = DHCP_DISCOVER \<and> st \<noteq> DHCP_IP_STATE_LEASED \<and> st' = DHCP_IP_STATE_UNAVAILABLE
       \<or> rt = DHCP_INFORM \<and> x \<noteq> req \<and> st' = DHCP_IP_STATE_AVAILABLE \<Longrightarrow>
     lease_new_post m rt (b(x \<mapsto> (st', zero_mac))) a b' \<Longrightarrow>
     lease_post m req rt b a b'"

inductive_cases lease_post_requestE: "lease_post m req DHCP_REQUEST b a b'"

text \<open>Case by case: no client found, then the branches for a client that was found.\<close>

lemma lease_unknown:
  assumes "list_api_ok K" "pings_drain K" "pool_ok s" and "dhcp_client_lookup_by_mac m s = None"
  shows "\<exists>a t. dhcpd_client_ip_address_lease K m req rt s = Some (a, t) \<and> pool_ok t
    \<and> lease_post m req rt (binding s) a (binding t)"
proof -
  have "\<forall>x st. binding s x \<noteq> Some (st, m)"
    using assms(3,4) by (auto simp: lookup_by_mac_None binding_eq_Some)
  with lease_new_spec [OF assms(1-3), of m req rt] assms(4) show ?thesis
    by (auto simp: dhcpd_client_ip_address_lease_def intro: lease_post.fresh)
qed

lemma lease_renew:
  assumes api: "list_api_ok K" and ok: "pool_ok s" and c: "c \<in> owners s" "info_mac (infos s ! c) = m"
    and rt: "rt \<noteq> DHCP_INFORM" "rt = DHCP_REQUEST \<longrightarrow> info_ip (infos s ! c) = req"
  shows "lease_post m req rt (binding s) (info_ip (infos s ! c))
    (binding (dhcp_client_update K c (if rt = DHCP_DISCOVER then DHCP_IP_STATE_OFFERED
        else DHCP_IP_STATE_LEASED) e s))"
proof -
  have b: "binding s (info_ip (infos s ! c)) = Some (info_state (infos s ! c), m)"
    using binding_member [OF ok c(1)] c(2) by simp
  show ?thesis
    using lease_post.kept [where b = "binding s", OF b, of rt req] assign_found [OF api ok c(1)] rt c(2)
    by (auto simp: update_as_assign kept_state_def)
qed

lemma lease_inform:
  assumes api: "list_api_ok K" and pings: "pings_drain K" and ok: "pool_ok s"
    and c: "dhcp_client_lookup_by_mac m s = Some c"
  shows "\<exists>a t. dhcpd_client_ip_address_lease K m req DHCP_INFORM s = Some (a, t) \<and> pool_ok t
    \<and> lease_post m req DHCP_INFORM (binding s) a (binding t)"
proof -
  from c have co: "c \<in> owners s" and mac: "info_mac (infos s ! c) = m"
    by (simp_all add: lookup_by_mac_Some)
  have b: "binding s (info_ip (infos s ! c)) = Some (info_state (infos s ! c), m)"
    using binding_member [OF ok co] mac by simp
  note f = assign_found [OF api ok co]
  show ?thesis
  proof (cases "info_ip (infos s ! c) = req")
    case True
    then show ?thesis
      using c mac f b lease_post.kept [where b = "binding s", OF b, of DHCP_INFORM req]
      by (simp add: dhcpd_client_ip_address_lease_def update_as_assign kept_state_def Let_def)
  next
    case False
    let ?s = "client_assign K c zero_mac DHCP_IP_STATE_AVAILABLE 0 s"
    obtain a t where t: "lease_new K m req DHCP_INFORM ?s = Some (a, t)" "pool_ok t"
      "lease_new_post m DHCP_INFORM (binding ?s) a (binding t)"
      using lease_new_spec [OF api pings f(1)] by blast
    have "dhcpd_client_ip_address_lease K m req DHCP_INFORM s = Some (a, t)"
      using c False t(1) by (simp add: dhcpd_client_ip_address_lease_def client_assign_def Let_def)
    moreover have "lease_post m req DHCP_INFORM (binding s) a (binding t)"
      using t(3) b False f(2)
      by (intro lease_post.moved [where x = "info_ip (infos s ! c)"]) auto
    ultimately show ?thesis using t(2) by blast
  qed
qed

text \<open>The branches of a known client that does not inform, as equations.\<close>

lemma lease_found_renew:
  assumes "dhcp_client_lookup_by_mac m s = Some c" and "rt \<noteq> DHCP_INFORM"
    and "rt = DHCP_REQUEST \<longrightarrow> info_ip (infos s ! c) = req"
    and "rt = DHCP_DISCOVER \<longrightarrow> info_state (infos s ! c) = DHCP_IP_STATE_LEASED"
  shows "dhcpd_client_ip_address_lease K m req rt s =
    (if rt = DHCP_DISCOVER
     then Some (info_ip (infos s ! c),
            dhcp_client_update K c DHCP_IP_STATE_OFFERED DHCPD_OFFER_EXPIRATION_TIME s)
     else let t = dhcp_client_update K c DHCP_IP_STATE_LEASED DHCPD_LEASE_TIME s
          in Some (info_ip (infos s ! c),
               t\<lparr>events := events s @ [ArpRefresh (info_mac (infos s ! c)) (info_ip (infos s ! c))]\<rparr>))"
  using assms by (auto simp: dhcpd_client_ip_address_lease_def Let_def)

lemma lease_found_probe:
  assumes "dhcp_client_lookup_by_mac m s = Some c"
    and "info_state (infos s ! c) \<noteq> DHCP_IP_STATE_LEASED"
    and "probe K c s = Some (used, t)" and "infos t = infos s"
  shows "dhcpd_client_ip_address_lease K m req DHCP_DISCOVER s =
    (if used then lease_new K m (if req = info_ip (infos s ! c) then INADDR_ANY else req)
                    DHCP_DISCOVER (mark_unavailable K c t)
     else Some (info_ip (infos s ! c),
            dhcp_client_update K c DHCP_IP_STATE_OFFERED DHCPD_OFFER_EXPIRATION_TIME t))"
  using assms by (simp add: dhcpd_client_ip_address_lease_def Let_def)

lemma lease_discover_probed:
  assumes api: "list_api_ok K" and pings: "pings_drain K" and ok: "pool_ok s"
    and c: "dhcp_client_lookup_by_mac m s = Some c"
    and st: "info_state (infos s ! c) \<noteq> DHCP_IP_STATE_LEASED"
  shows "\<exists>a t. dhcpd_client_ip_address_lease K m req DHCP_DISCOVER s = Some (a, t) \<and> pool_ok t
    \<and> lease_post m req DHCP_DISCOVER (binding s) a (binding t)"
proof -
  from c have co: "c \<in> owners s" and mac: "info_mac (infos s ! c) = m"
    by (simp_all add: lookup_by_mac_Some)
  obtain used w where pr: "probe K c s = Some (used, s\<lparr>net := w\<rparr>)"
    using pings by (rule probe_returns)
  let ?s = "s\<lparr>net := w\<rparr>" and ?r = "if req = info_ip (infos s ! c) then INADDR_ANY else req"
  have s: "pool_ok ?s" "c \<in> owners ?s" "info_mac (infos ?s ! c) = m" using ok co mac by simp_all
  note eq = lease_found_probe [OF c st pr, of req]
  show ?thesis
  proof (cases used)
    case True
    let ?t = "mark_unavailable K c ?s"
    have t: "pool_ok ?t" "binding ?t = (binding s)(info_ip (infos s ! c) \<mapsto>
        (DHCP_IP_STATE_UNAVAILABLE, zero_mac))"
      using assign_found [OF api s(1,2)] by (simp_all add: mark_unavailable_assign)
    then obtain a u where u: "lease_new K m ?r DHCP_DISCOVER ?t = Some (a, u)" "pool_ok u"
      "lease_new_post m DHCP_DISCOVER (binding ?t) a (binding u)"
      using lease_new_spec [OF api pings t(1)] by blast
    have "lease_post m req DHCP_DISCOVER (binding s) a (binding u)"
      using u(3) t(2) st binding_member [OF ok co] mac
      by (intro lease_post.moved [where x = "info_ip (infos s ! c)"]) auto
    with u eq True show ?thesis by simp
  next
    case False
    have "pool_ok (dhcp_client_update K c DHCP_IP_STATE_OFFERED DHCPD_OFFER_EXPIRATION_TIME ?s)"
      using s(1) api s(2) by (rule pool_ok_update)
    with lease_renew [OF api s(1,2,3), of DHCP_DISCOVER req] eq False show ?thesis by simp
  qed
qed

lemma lease_kept:
  assumes api: "list_api_ok K" and ok: "pool_ok s"
    and c: "dhcp_client_lookup_by_mac m s = Some c" and rt: "rt \<noteq> DHCP_INFORM"
    and req: "rt = DHCP_REQUEST \<longrightarrow> info_ip (infos s ! c) = req"
    and st: "rt = DHCP_DISCOVER \<longrightarrow> info_state (infos s ! c) = DHCP_IP_STATE_LEASED"
  shows "\<exists>a t. dhcpd_client_ip_address_lease K m req rt s = Some (a, t) \<and> pool_ok t
    \<and> lease_post m req rt (binding s) a (binding t)"
proof -
  from c have co: "c \<in> owners s" and mac: "info_mac (infos s ! c) = m"
    by (simp_all add: lookup_by_mac_Some)
  show ?thesis
    using lease_found_renew [OF c rt req st, of K] lease_renew [OF api ok co mac rt req]
      pool_ok_update [OF ok api co]
    by (auto simp: Let_def split: if_splits)
qed

lemma lease_total:
  assumes api: "list_api_ok K" and pings: "pings_drain K" and ok: "pool_ok s"
  shows "\<exists>a t. dhcpd_client_ip_address_lease K m req rt s = Some (a, t) \<and> pool_ok t
    \<and> lease_post m req rt (binding s) a (binding t)"
proof (cases "dhcp_client_lookup_by_mac m s")
  case None
  with assms show ?thesis by (rule lease_unknown)
next
  case (Some c)
  then have co: "c \<in> owners s" and mac: "info_mac (infos s ! c) = m"
    by (simp_all add: lookup_by_mac_Some)
  consider (nak) "rt = DHCP_REQUEST" "info_ip (infos s ! c) \<noteq> req"
    | (inform) "rt = DHCP_INFORM"
    | (probed) "rt = DHCP_DISCOVER" "info_state (infos s ! c) \<noteq> DHCP_IP_STATE_LEASED"
    | (kept) "rt \<noteq> DHCP_INFORM" "rt = DHCP_REQUEST \<longrightarrow> info_ip (infos s ! c) = req"
        "rt = DHCP_DISCOVER \<longrightarrow> info_state (infos s ! c) = DHCP_IP_STATE_LEASED"
    by blast
  then show ?thesis
  proof cases
    case nak
    then show ?thesis
      using Some ok binding_member [OF ok co] mac
      by (auto simp: dhcpd_client_ip_address_lease_def intro!: lease_post.nak)
  next
    case inform
    then show ?thesis using lease_inform [OF api pings ok Some] by simp
  next
    case probed
    then show ?thesis using lease_discover_probed [OF api pings ok Some] by simp
  next
    case kept
    then show ?thesis by (rule lease_kept [OF api ok Some])
  qed
qed

lemma dom_rebind: "b x = Some v \<Longrightarrow> dom (b(x \<mapsto> w)) = dom b"
  by auto

lemma lease_post_dom: "lease_post m req rt b a b' \<Longrightarrow> dom b' = dom b"
proof (induction rule: lease_post.induct)
  case (kept a st)
  from kept(1) show ?case by (simp only: dom_rebind)
next
  case (moved x st st' a b')
  from lease_new_post_dom [OF moved(3)] moved(1) show ?case by (simp only: dom_rebind)
qed (simp_all add: lease_new_post_dom)

lemma lease_post_unique:
  "lease_post m req rt b a b' \<Longrightarrow> clients_unique b \<Longrightarrow> clients_unique b'"
proof (induction rule: lease_post.induct)
  case (kept a st)
  then have "m = zero_mac \<or> (\<forall>x st'. b x = Some (st', m) \<longrightarrow> x = a)"
    unfolding clients_unique_def by blast
  with kept.prems show ?case by (rule clients_unique_upd)
next
  case (fresh a b')
  then show ?case by (auto intro: lease_new_post_unique)
next
  case (moved x st st' a b')
  then have "clients_unique (b(x \<mapsto> (st', zero_mac)))" by (simp add: clients_unique_upd)
  moreover have "m = zero_mac \<or> (\<forall>y sy. (b(x \<mapsto> (st', zero_mac))) y \<noteq> Some (sy, m))"
    using moved unfolding clients_unique_def by (auto split: if_splits)
  ultimately show ?case using moved(3) by (rule lease_new_post_unique [rotated])
qed simp

lemma lease_post_kept:
  assumes "lease_post m req rt b a b'" and "b x = Some (st, k)" "st \<noteq> DHCP_IP_STATE_AVAILABLE" "k \<noteq> m"
  shows "b' x = Some (st, k)"
  using assms
proof (induction rule: lease_post.induct)
  case (moved y sy st' a b')
  then have "x \<noteq> y" by auto
  with moved show ?case by (auto intro: lease_new_post_kept)
qed (auto intro: lease_new_post_kept)

lemma macs_unique_clients_unique: "pool_ok s \<Longrightarrow> macs_unique s \<longleftrightarrow> clients_unique (binding s)"
  by (simp add: macs_unique_binding clients_unique_def)

lemma lease_new_post_discover:
  assumes "lease_new_post m DHCP_DISCOVER b a b'"
  shows "a = INADDR_ANY \<and> (\<forall>x k. b' x \<noteq> Some (DHCP_IP_STATE_AVAILABLE, k))
    \<or> b' a = Some (DHCP_IP_STATE_OFFERED, m) \<and> (\<exists>k. b a = Some (DHCP_IP_STATE_AVAILABLE, k))"
proof -
  have avail: "b a = Some (DHCP_IP_STATE_AVAILABLE, k)"
    if "set_aside b c" "c a = Some (DHCP_IP_STATE_AVAILABLE, k)" for c k
    using that unfolding set_aside_def by (metis option.inject prod.inject zero_neq_numeral)
  show ?thesis using assms avail unfolding lease_new_post_def by auto
qed

section \<open>A reference environment\<close>

text \<open>
  A kernel that satisfies the assumptions: insertion by position, a clock that stands at
  1000 s and a network on which no address answers. It is used to show that the hypotheses
  of the theorems can hold.
\<close>

definition list_insert_ref :: "list_item \<Rightarrow> list_item list \<Rightarrow> list_item list" where
  "list_insert_ref it xs =
     takeWhile (\<lambda>x. fst x \<le> fst it) xs @ it # dropWhile (\<lambda>x. fst x \<le> fst it) xs"

definition quiet_kernel :: "unit kernel" where
  "quiet_kernel = \<lparr>vListInsert = list_insert_ref,
     uxListRemove = (\<lambda>c xs. filter (\<lambda>it. snd it \<noteq> c) xs),
     time_seconds = (\<lambda>w. (1000, w)), eARPGetCacheEntry = (\<lambda>a w. (False, w)),
     OutputARPRequest = (\<lambda>a w. w), vTaskDelay = (\<lambda>w. w),
     SendPingRequest = (\<lambda>a w. (1, w)), ping_queue_receive = (\<lambda>w. (None, w))\<rparr>"

lemma dropWhile_greater: "sorted (map fst xs) \<Longrightarrow> x \<in> set (dropWhile (\<lambda>x. fst x \<le> v) xs) \<Longrightarrow> v < fst x"
  by (induction xs) (auto split: if_splits)

lemma list_insert_ref_ok:
  assumes "sorted (map fst xs)"
  shows "\<exists>ys zs. xs = ys @ zs \<and> list_insert_ref (v, c) xs = ys @ (v, c) # zs
    \<and> (\<forall>it \<in> set ys. fst it \<le> v) \<and> (\<forall>it \<in> set zs. v < fst it)"
  using assms dropWhile_greater [OF assms, of _ v]
  by (intro exI [of _ "takeWhile (\<lambda>x. fst x \<le> v) xs"] exI [of _ "dropWhile (\<lambda>x. fst x \<le> v) xs"])
     (auto simp: list_insert_ref_def dest: set_takeWhileD)

lemma quiet_kernel_ok: "list_api_ok quiet_kernel" "pings_drain quiet_kernel"
  using list_insert_ref_ok
  by (auto simp: list_api_ok_def pings_drain_def quiet_kernel_def ping_wait.simps)

text \<open>A pool of 10.0.0.2 (leased to a client) and 10.0.0.3 (available).\<close>

definition client_a :: mac_addr where "client_a = [2, 0, 0, 0, 0, 1]"
definition client_b :: mac_addr where "client_b = [2, 0, 0, 0, 0, 2]"

definition two_pool :: "unit dhcpd" where
  "two_pool = \<lparr>server_ip = 0x0100000A, netmask = 0xFF, gateway = 0x0100000A,
     dns0 = 0x0500000A, dns1 = 0x0600000A, pool_start = 0x0200000A, pool_end = 0x0400000A, network_mtu = 1500,
     infos = [\<lparr>info_ip = 0x0200000A, info_state = DHCP_IP_STATE_LEASED, info_mac = client_a\<rparr>,
              \<lparr>info_ip = 0x0300000A, info_state = DHCP_IP_STATE_AVAILABLE, info_mac = zero_mac\<rparr>],
     pool = [(900, 1), (1500, 0)], events = [], net = ()\<rparr>"

lemma zero_mac_Cons: "zero_mac = [0, 0, 0, 0, 0, 0]"
  by (simp add: zero_mac_def numeral_eq_Suc)

lemma two_pool_owners: "owners two_pool = {0, 1}"
  by (auto simp: owners_def two_pool_def)

lemma two_pool_ok: "pool_ok two_pool" "macs_unique two_pool"
  by (auto simp: pool_ok_def macs_unique_def two_pool_owners)
     (auto simp: two_pool_def inj_on_def)

section \<open>Properties\<close>

text \<open>
  C11: A lease request always returns (the forever loop of the search ends), keeps the pool
  well-formed, neither adds nor loses an address, and leaves every client bound to at most
  one address.
\<close>

theorem lease_keeps_clients_unique:
  assumes "list_api_ok K" and "pings_drain K" and "pool_ok s" and "macs_unique s"
  shows "\<exists>a t. dhcpd_client_ip_address_lease K m req rt s = Some (a, t)
    \<and> pool_ok t \<and> macs_unique t \<and> dom (binding t) = dom (binding s)"
proof -
  obtain a t where t: "dhcpd_client_ip_address_lease K m req rt s = Some (a, t)" "pool_ok t"
    and post: "lease_post m req rt (binding s) a (binding t)"
    using lease_total [OF assms(1-3)] by blast
  from assms(3,4) post t(2) have "macs_unique t"
    by (simp add: macs_unique_clients_unique lease_post_unique)
  with t lease_post_dom [OF post] show ?thesis by blast
qed

theorem lease_keeps_clients_unique_witness:
  "\<exists>a t. dhcpd_client_ip_address_lease quiet_kernel client_b 0 DHCP_DISCOVER two_pool = Some (a, t)
    \<and> pool_ok t \<and> macs_unique t \<and> dom (binding t) = dom (binding two_pool)"
  by (rule lease_keeps_clients_unique [OF quiet_kernel_ok two_pool_ok])

text \<open>
  C12: No request takes an address away from another client: an address that is not available
  and bound to a client with a different MAC address keeps its client and its state.
\<close>

theorem lease_never_takes_over:
  assumes "list_api_ok K" and "pings_drain K" and "pool_ok s"
    and "dhcpd_client_ip_address_lease K m req rt s = Some (a, t)"
    and "binding s x = Some (st, k)" and "st \<noteq> DHCP_IP_STATE_AVAILABLE" and "k \<noteq> m"
  shows "binding t x = Some (st, k)"
proof -
  have "lease_post m req rt (binding s) a (binding t)"
    using lease_total [OF assms(1-3), of m req rt] assms(4) by simp
  then show ?thesis using assms(5-7) by (rule lease_post_kept)
qed

lemma two_pool_binding: "binding two_pool 0x0200000A = Some (DHCP_IP_STATE_LEASED, client_a)"
  using binding_member [OF two_pool_ok(1), of 0] by (simp add: two_pool_owners) (simp add: two_pool_def)

theorem lease_never_takes_over_witness:
  "\<exists>a t. dhcpd_client_ip_address_lease quiet_kernel client_b 0x0200000A DHCP_DISCOVER two_pool = Some (a, t)
    \<and> binding t 0x0200000A = Some (DHCP_IP_STATE_LEASED, client_a)"
proof -
  obtain a t where t: "dhcpd_client_ip_address_lease quiet_kernel client_b 0x0200000A DHCP_DISCOVER two_pool
      = Some (a, t)"
    using lease_total [OF quiet_kernel_ok two_pool_ok(1)] by blast
  have "client_a \<noteq> client_b" by (simp add: client_a_def client_b_def)
  then have "binding t 0x0200000A = Some (DHCP_IP_STATE_LEASED, client_a)"
    using lease_never_takes_over [OF quiet_kernel_ok two_pool_ok(1) t two_pool_binding] by simp
  with t show ?thesis by blast
qed

text \<open>
  C27: The answer to a DISCOVER is either silence, and then no address is available any more,
  or an address of the pool, now in the state OFFERED and bound to the client, which was
  available before or already the client's own.
\<close>

theorem lease_discover_grants:
  assumes "list_api_ok K" and "pings_drain K" and "pool_ok s"
    and "dhcpd_client_ip_address_lease K m req DHCP_DISCOVER s = Some (a, t)"
  shows "a = INADDR_ANY \<and> (\<forall>x k. binding t x \<noteq> Some (DHCP_IP_STATE_AVAILABLE, k))
    \<or> binding t a = Some (DHCP_IP_STATE_OFFERED, m)
      \<and> ((\<exists>k. binding s a = Some (DHCP_IP_STATE_AVAILABLE, k)) \<or> (\<exists>st. binding s a = Some (st, m)))"
proof -
  have "lease_post m req DHCP_DISCOVER (binding s) a (binding t)"
    using lease_total [OF assms(1-3), of m req DHCP_DISCOVER] assms(4) by simp
  then show ?thesis
  proof (cases rule: lease_post.cases)
    case (fresh)
    then show ?thesis using lease_new_post_discover by blast
  next
    case (moved x st st')
    from lease_new_post_discover [of m "(binding s)(x \<mapsto> (st', zero_mac))" a "binding t"] moved
    show ?thesis by (auto split: if_splits)
  qed (auto simp: kept_state_def)
qed

theorem lease_discover_grants_witness:
  "\<exists>a t. dhcpd_client_ip_address_lease quiet_kernel client_b 0 DHCP_DISCOVER two_pool = Some (a, t)
    \<and> (a = INADDR_ANY \<and> (\<forall>x k. binding t x \<noteq> Some (DHCP_IP_STATE_AVAILABLE, k))
    \<or> binding t a = Some (DHCP_IP_STATE_OFFERED, client_b)
      \<and> ((\<exists>k. binding two_pool a = Some (DHCP_IP_STATE_AVAILABLE, k))
         \<or> (\<exists>st. binding two_pool a = Some (st, client_b))))"
  using lease_total [OF quiet_kernel_ok two_pool_ok(1), of client_b 0 DHCP_DISCOVER]
    lease_discover_grants [OF quiet_kernel_ok two_pool_ok(1), of client_b 0] by blast

text \<open>
  C31: A REQUEST is answered by silence for an unknown client, by a NAK for a client that asks
  for another address than its own, and otherwise by a lease: the entry is leased to the
  client until the lease time has passed, and the ARP cache is refreshed.
\<close>

theorem lease_request_answers:
  assumes api: "list_api_ok K" and ok: "pool_ok s"
  shows "case dhcp_client_lookup_by_mac m s of
      None \<Rightarrow> dhcpd_client_ip_address_lease K m req DHCP_REQUEST s = Some (INADDR_ANY, s)
    | Some c \<Rightarrow> if info_ip (infos s ! c) \<noteq> req
        then dhcpd_client_ip_address_lease K m req DHCP_REQUEST s = Some (INADDR_BROADCAST, s)
        else \<exists>t. dhcpd_client_ip_address_lease K m req DHCP_REQUEST s = Some (req, t)
          \<and> binding t = (binding s)(req \<mapsto> (DHCP_IP_STATE_LEASED, m))
          \<and> (fst (time_seconds K (net s)) + DHCPD_LEASE_TIME, c) \<in> set (pool t)
          \<and> events t = events s @ [ArpRefresh m req]"
proof (cases "dhcp_client_lookup_by_mac m s")
  case None
  then show ?thesis by (simp add: dhcpd_client_ip_address_lease_def lease_new_def)
next
  case (Some c)
  then have c: "c \<in> owners s" "info_mac (infos s ! c) = m" by (simp_all add: lookup_by_mac_Some)
  show ?thesis
  proof (cases "info_ip (infos s ! c) = req")
    case False
    with Some show ?thesis by (simp add: dhcpd_client_ip_address_lease_def)
  next
    case True
    let ?t = "dhcp_client_update K c DHCP_IP_STATE_LEASED DHCPD_LEASE_TIME s"
    have "binding ?t = (binding s)(req \<mapsto> (DHCP_IP_STATE_LEASED, m))"
      using assign_found(2) [OF api ok c(1)] c(2) True by (simp add: update_as_assign)
    moreover have "(fst (time_seconds K (net s)) + DHCPD_LEASE_TIME, c) \<in> set (pool ?t)"
      using api pool_okD(1) [OF ok]
      by (simp add: update_pool vListInsert_sorted(2) uxListRemove_filter sorted_map_filter)
    ultimately show ?thesis
      using Some True c(2) by (simp add: lease_found_renew Let_def)
  qed
qed

theorem lease_request_answers_witness:
  "case dhcp_client_lookup_by_mac client_a two_pool of
      None \<Rightarrow> False
    | Some c \<Rightarrow> (if info_ip (infos two_pool ! c) \<noteq> 0x0200000A then False
        else \<exists>t. dhcpd_client_ip_address_lease quiet_kernel client_a 0x0200000A DHCP_REQUEST two_pool
              = Some (0x0200000A, t)
          \<and> binding t = (binding two_pool)(0x0200000A \<mapsto> (DHCP_IP_STATE_LEASED, client_a)))"
proof -
  have l: "dhcp_client_lookup_by_mac client_a two_pool = Some 0"
    by (simp add: dhcp_client_lookup_by_mac_def two_pool_def client_a_def zero_mac_Cons)
  have ip: "info_ip (infos two_pool ! 0) = 0x0200000A" by (simp add: two_pool_def)
  from lease_request_answers [OF quiet_kernel_ok(1) two_pool_ok(1), where m = client_a and req = "0x0200000A"] l ip
  show ?thesis by auto
qed

text \<open>
  A client that informs the server of an available address is acknowledged, but the entry
  stays AVAILABLE instead of becoming STATIC: the code passes the comparison
  \<open>request_type == DHCP_IP_STATE_STATIC\<close>, which is 0, as the new state.
\<close>

theorem inform_leaves_address_available:
  assumes "list_api_ok K" and ok: "pool_ok s"
    and "dhcp_client_lookup_by_mac m s = None" and "req \<noteq> INADDR_ANY"
    and "dhcp_client_lookup_by_ip req s = Some c"
    and "info_state (infos s ! c) = DHCP_IP_STATE_AVAILABLE"
  shows "\<exists>t. dhcpd_client_ip_address_lease K m req DHCP_INFORM s = Some (req, t)
    \<and> binding t req = Some (DHCP_IP_STATE_AVAILABLE, m)"
proof -
  have c: "c \<in> owners s" "info_ip (infos s ! c) = req" using assms(5) by (simp_all add: lookup_by_ip_Some)
  then show ?thesis
    using assms assign_found [OF assms(1) ok c(1)]
    by (simp add: dhcpd_client_ip_address_lease_def lease_new_found Let_def)
qed

theorem inform_leaves_address_available_witness:
  "\<exists>t. dhcpd_client_ip_address_lease quiet_kernel client_b 0x0300000A DHCP_INFORM two_pool
      = Some (0x0300000A, t)
    \<and> binding t 0x0300000A = Some (DHCP_IP_STATE_AVAILABLE, client_b)"
  by (rule inform_leaves_address_available [OF quiet_kernel_ok(1) two_pool_ok(1), where c = 1])
     (simp_all add: dhcp_client_lookup_by_mac_def dhcp_client_lookup_by_ip_def two_pool_def
        client_a_def client_b_def zero_mac_Cons)

end
