(* ===== verification/Dhcp_Init.thy ===== *)
theory Dhcp_Init
  imports Dhcp_Lease
begin

text \<open>
  Configuration checks and the construction of the address pool: \<open>netmask_valid\<close>,
  \<open>ip_netmask_compare\<close>, \<open>dhcpd_ip_address_pool_next_valid\<close> and \<open>dhcpd_ip_pool_init\<close>
  (modules/rtos/sw_services/dhcpd/FreeRTOS/dhcpd.c). The lemmas characterise the accepted
  netmasks, the next address, and the pool as the first usable addresses of the range.
\<close>

section \<open>Netmasks\<close>

text \<open>The two loops over the single-bit masks, from the top bit down.\<close>

lemma drop_bit_1_less: "(msk :: u32) \<noteq> 0 \<Longrightarrow> unat (drop_bit 1 msk) < unat msk"
  by (simp add: drop_bit_eq_div unat_div unat_gt_0)

function mask_skip_ones :: "u32 \<Rightarrow> u32 \<Rightarrow> u32" where
  "mask_skip_ones nm msk =
     (if msk \<noteq> 0 then if nm AND msk = 0 then msk else mask_skip_ones nm (drop_bit 1 msk)
      else msk)"
  by pat_completeness auto
termination
  by (relation "measure (\<lambda>(nm, msk). unat msk)") (use drop_bit_1_less in \<open>auto simp del: One_nat_def\<close>)

function mask_no_ones :: "u32 \<Rightarrow> u32 \<Rightarrow> bool" where
  "mask_no_ones nm msk =
     (if msk \<noteq> 0 then if nm AND msk \<noteq> 0 then False else mask_no_ones nm (drop_bit 1 msk)
      else True)"
  by pat_completeness auto
termination
  by (relation "measure (\<lambda>(nm, msk). unat msk)") (use drop_bit_1_less in \<open>auto simp del: One_nat_def\<close>)

declare mask_skip_ones.simps [simp del] mask_no_ones.simps [simp del]

definition netmask_valid :: "in_addr \<Rightarrow> bool" where
  "netmask_valid nm =
     (let nm_hostorder = htonl nm
      in mask_no_ones nm_hostorder (mask_skip_ones nm_hostorder (push_bit 31 1)))"

definition ip_netmask_compare :: "in_addr \<Rightarrow> in_addr \<Rightarrow> in_addr \<Rightarrow> bool" where
  "ip_netmask_compare addr1 addr2 msk = (addr1 AND msk = addr2 AND msk)"

definition mask_at :: "nat \<Rightarrow> u32" where
  "mask_at k = push_bit k 1"

lemma bit_mask_at: "bit (mask_at k) i \<longleftrightarrow> i = k \<and> k < 32"
  by (auto simp: mask_at_def bit_simps)

lemma mask_at_simps:
  "nm AND mask_at k = 0 \<longleftrightarrow> \<not> bit nm k"
  "k < 32 \<Longrightarrow> mask_at k \<noteq> 0"
  "Suc k < 32 \<Longrightarrow> drop_bit 1 (mask_at (Suc k)) = mask_at k"
  "drop_bit 1 (mask_at 0) = 0"
proof -
  have "bit (nm AND mask_at k) i \<longleftrightarrow> i = k \<and> bit nm k" for i
    by (auto simp: bit_and_iff bit_mask_at dest: bit_imp_le_length)
  then show "nm AND mask_at k = 0 \<longleftrightarrow> \<not> bit nm k"
    by (metis bit_0_eq bit_word_eqI bot_apply bot_bool_def)
  show "k < 32 \<Longrightarrow> mask_at k \<noteq> 0"
    using bit_mask_at [of k k] by auto
  show "Suc k < 32 \<Longrightarrow> drop_bit 1 (mask_at (Suc k)) = mask_at k"
    by (rule bit_word_eqI) (auto simp: bit_drop_bit_eq bit_mask_at)
  show "drop_bit 1 (mask_at 0) = 0"
    by (rule bit_word_eqI) (auto simp: bit_drop_bit_eq bit_mask_at)
qed

lemma mask_no_ones_0 [simp]: "mask_no_ones nm 0"
  by (simp add: mask_no_ones.simps)

lemma mask_skip_ones_0 [simp]: "mask_skip_ones nm 0 = 0"
  by (simp add: mask_skip_ones.simps)

lemma mask_no_ones_bits: "k < 32 \<Longrightarrow> mask_no_ones nm (mask_at k) \<longleftrightarrow> (\<forall>i \<le> k. \<not> bit nm i)"
proof (induction k)
  case 0
  show ?case
    by (subst mask_no_ones.simps) (simp add: mask_at_simps del: One_nat_def)
next
  case (Suc k)
  then have "mask_no_ones nm (mask_at (Suc k)) \<longleftrightarrow> \<not> bit nm (Suc k) \<and> mask_no_ones nm (mask_at k)"
    by (subst mask_no_ones.simps) (simp add: mask_at_simps del: One_nat_def)
  with Suc show ?case by (auto simp: le_Suc_eq)
qed

lemma mask_valid_bits:
  "k < 32 \<Longrightarrow> mask_no_ones nm (mask_skip_ones nm (mask_at k)) \<longleftrightarrow>
    (\<forall>i j. i < j \<and> j \<le> k \<and> bit nm i \<longrightarrow> bit nm j)"
proof (induction k)
  case 0
  have "mask_skip_ones nm (mask_at 0) = (if bit nm 0 then 0 else mask_at 0)"
    by (subst mask_skip_ones.simps) (simp add: mask_at_simps del: One_nat_def)
  then show ?case using mask_no_ones_bits [of 0 nm] by simp
next
  case (Suc k)
  have step: "mask_skip_ones nm (mask_at (Suc k)) =
      (if bit nm (Suc k) then mask_skip_ones nm (mask_at k) else mask_at (Suc k))"
    using Suc.prems by (subst mask_skip_ones.simps) (simp add: mask_at_simps del: One_nat_def)
  show ?case
  proof (cases "bit nm (Suc k)")
    case True
    with step Suc show ?thesis by (auto simp: le_Suc_eq)
  next
    case False
    have "(\<forall>i j. i < j \<and> j \<le> Suc k \<and> bit nm i \<longrightarrow> bit nm j) \<longleftrightarrow> (\<forall>i \<le> Suc k. \<not> bit nm i)"
      (is "?L \<longleftrightarrow> ?R")
    proof
      assume l: ?L
      show ?R
      proof (intro allI impI notI)
        fix i assume i: "i \<le> Suc k" "bit nm i"
        with False have "i < Suc k" by (cases "i = Suc k") auto
        with l i(2) have "bit nm (Suc k)" by blast
        with False show False by simp
      qed
    next
      assume ?R
      then show ?L by auto
    qed
    with False show ?thesis
      using step mask_no_ones_bits [OF Suc.prems, of nm] by simp
  qed
qed

text \<open>
  A netmask is accepted exactly if, in host order, its one bits are contiguous from the top
  bit down: below a zero bit there is no one bit.
\<close>

theorem netmask_valid_iff:
  "netmask_valid nm \<longleftrightarrow> (\<forall>i j. i < j \<and> j < 32 \<and> bit (htonl nm) i \<longrightarrow> bit (htonl nm) j)"
proof -
  have "j < 32 \<longleftrightarrow> j \<le> (31 :: nat)" for j by auto
  then show ?thesis
    using mask_valid_bits [of 31 "htonl nm"]
    unfolding netmask_valid_def Let_def mask_at_def by (simp del: push_bit_numeral)
qed

theorem netmask_valid_iff_witness: "netmask_valid 0 \<and> \<not> netmask_valid 1"
proof
  show "netmask_valid 0" by (simp add: netmask_valid_iff htonl_0_max)
  have "bit (htonl 1) 24 \<and> \<not> bit (htonl 1) 25" by (simp add: htonl_def le32_def bit_simps)
  then show "\<not> netmask_valid 1"
    unfolding netmask_valid_iff not_all by (intro exI [of _ 24] exI [of _ 25]) simp
qed

section \<open>The next address of the range\<close>

text \<open>
  The test of the loop body for an address that must be skipped; \<open>ipval\<close> is in host order,
  \<open>ip\<close> in network order.
\<close>

definition skip_address :: "('w, 'z) dhcpd_scheme \<Rightarrow> u32 \<Rightarrow> in_addr \<Rightarrow> bool" where
  "skip_address s ipval ip =
     (let octet4 = ipval AND 0xFF
      in octet4 = 0 \<or> octet4 = 0xFF \<or> ip = server_ip s \<or> ip = gateway s \<or> ip = dns0 s \<or> ip = dns1 s)"

text \<open>
  The loop over \<open>ipval\<close>, with its results: the final \<open>ipval\<close>, \<open>ip\<close> and the advanced
  \<open>*pool\<close>. Where the range ends at 255.255.255.255 it may run for ever.
\<close>

partial_function (option) next_valid_loop ::
  "('w, 'z) dhcpd_scheme \<Rightarrow> u32 \<Rightarrow> in_addr \<Rightarrow> in_addr \<Rightarrow> (u32 \<times> in_addr \<times> in_addr) option" where
  "next_valid_loop s ipval ip pl =
     (if ipval \<le> ntohl (pool_end s) then
        let ip = htonl ipval
        in if ipval < ntohl (pool_start s) then
             let ipval = ntohl (pool_start s) - 1 in next_valid_loop s (ipval + 1) ip pl
           else if skip_address s ipval ip then next_valid_loop s (ipval + 1) ip pl
           else Some (ipval, ip, htonl (ipval + 1))
      else Some (ipval, ip, pl))"

definition dhcpd_ip_address_pool_next_valid ::
  "('w, 'z) dhcpd_scheme \<Rightarrow> in_addr \<Rightarrow> (in_addr \<times> in_addr) option" where
  "dhcpd_ip_address_pool_next_valid s pl =
     do { (ipval, ip, pl) \<leftarrow> next_valid_loop s (ntohl pl) pl pl;
          Some (if ipval > ntohl (pool_end s) then INADDR_ANY else ip, pl) }"

text \<open>The abstract range: the usable addresses from \<open>v\<close> to the end of the pool, in order.\<close>

definition usable :: "('w, 'z) dhcpd_scheme \<Rightarrow> u32 \<Rightarrow> bool" where
  "usable s v \<longleftrightarrow> \<not> skip_address s v (htonl v)"

definition usable_from :: "('w, 'z) dhcpd_scheme \<Rightarrow> u32 \<Rightarrow> u32 list" where
  "usable_from s v = filter (usable s) (map word_of_nat [unat v ..< Suc (unat (ntohl (pool_end s)))])"

text \<open>The range ends before the last address of all, so the counter cannot wrap.\<close>

definition range_ok :: "('w, 'z) dhcpd_scheme \<Rightarrow> bool" where
  "range_ok s \<longleftrightarrow> ntohl (pool_start s) \<le> ntohl (pool_end s) \<and> ntohl (pool_end s) < 0xFFFFFFFF"

lemma unat_Suc_less: "(v :: u32) < w \<Longrightarrow> unat (v + 1) = Suc (unat v)"
  by unat_arith

lemma usable_from_rec:
  assumes "range_ok s"
  shows "v \<le> ntohl (pool_end s) \<Longrightarrow>
      usable_from s v = (if usable s v then v # usable_from s (v + 1) else usable_from s (v + 1))"
    and "\<not> v \<le> ntohl (pool_end s) \<Longrightarrow> usable_from s v = []"
proof -
  let ?e = "ntohl (pool_end s)"
  show "usable_from s v = (if usable s v then v # usable_from s (v + 1) else usable_from s (v + 1))"
    if v: "v \<le> ?e"
  proof -
    from v assms have "v < 0xFFFFFFFF" by (auto simp: range_ok_def intro: order_le_less_trans)
    then have "unat (v + 1) = Suc (unat v)" by (rule unat_Suc_less)
    moreover from v have "[unat v ..< Suc (unat ?e)] = unat v # [Suc (unat v) ..< Suc (unat ?e)]"
      by (simp add: upt_conv_Cons word_le_nat_alt del: upt_Suc)
    ultimately show ?thesis by (simp add: usable_from_def del: upt_Suc)
  qed
  show "usable_from s v = []" if "\<not> v \<le> ?e"
    using that by (simp add: usable_from_def word_le_nat_alt)
qed

lemma next_valid_loop_spec:
  assumes ok: "range_ok s"
  shows "ntohl (pool_start s) \<le> v \<Longrightarrow> v \<le> ntohl (pool_end s) + 1 \<Longrightarrow>
    (case usable_from s v of
       [] \<Rightarrow> \<exists>v' ip'. next_valid_loop s v ip pl = Some (v', ip', pl) \<and> ntohl (pool_end s) < v'
     | u # us \<Rightarrow> next_valid_loop s v ip pl = Some (u, htonl u, htonl (u + 1))
         \<and> u \<le> ntohl (pool_end s) \<and> v \<le> u \<and> us = usable_from s (u + 1))"
proof (induction "Suc (unat (ntohl (pool_end s))) - unat v" arbitrary: v ip rule: less_induct)
  case less
  let ?e = "ntohl (pool_end s)"
  show ?case
  proof (cases "v \<le> ?e")
    case False
    then show ?thesis
      by (subst next_valid_loop.simps) (simp add: usable_from_rec(2) [OF ok])
  next
    case True
    with ok have "v < 0xFFFFFFFF" by (auto simp: range_ok_def intro: order_le_less_trans)
    then have s1: "unat (v + 1) = Suc (unat v)" by (rule unat_Suc_less)
    note rec = usable_from_rec(1) [OF ok True]
    show ?thesis
    proof (cases "usable s v")
      case u: True
      have "next_valid_loop s v ip pl = Some (v, htonl v, htonl (v + 1))"
        using True less.prems u
        by (subst next_valid_loop.simps) (simp add: usable_def leD Let_def)
      then show ?thesis using rec u True by simp
    next
      case u: False
      have skip: "next_valid_loop s v ip pl = next_valid_loop s (v + 1) (htonl v) pl"
        using True less.prems u
        by (subst next_valid_loop.simps) (simp add: usable_def leD Let_def)
      have "Suc (unat ?e) - unat (v + 1) < Suc (unat ?e) - unat v"
        using True s1 by (simp add: word_le_nat_alt)
      moreover have "ntohl (pool_start s) \<le> v + 1" "v + 1 \<le> ?e + 1" "v \<le> v + 1"
        using less.prems(1) True ok s1 unat_Suc_less [of ?e "0xFFFFFFFF"]
        by (simp_all add: word_le_nat_alt range_ok_def)
      ultimately show ?thesis
        using less.hyps [of "v + 1" "htonl v"] rec u skip
        by (auto split: list.splits intro: order_trans)
    qed
  qed
qed

lemma next_valid_spec:
  assumes "range_ok s" and "ntohl (pool_start s) \<le> ntohl pl" and "ntohl pl \<le> ntohl (pool_end s) + 1"
  shows "dhcpd_ip_address_pool_next_valid s pl =
    Some (case usable_from s (ntohl pl) of [] \<Rightarrow> (INADDR_ANY, pl) | u # us \<Rightarrow> (htonl u, htonl (u + 1)))"
  using next_valid_loop_spec [OF assms, of pl pl]
  by (auto simp: dhcpd_ip_address_pool_next_valid_def not_less split: list.splits)

section \<open>Building the pool\<close>

definition zero_info :: dhcp_ip_info where
  "zero_info = \<lparr>info_ip = 0, info_state = 0, info_mac = zero_mac\<rparr>"

text \<open>The loop over \<open>i\<close>, with \<open>n\<close> turns left.\<close>

fun pool_init_loop :: "('w, 'y) kernel_scheme \<Rightarrow> in_addr \<Rightarrow> nat \<Rightarrow> nat \<Rightarrow> ('w, 'z) dhcpd_scheme
    \<Rightarrow> ('w, 'z) dhcpd_scheme option" where
  "pool_init_loop K pl i 0 s = Some s"
| "pool_init_loop K pl i (Suc n) s =
     (let (now, w) = time_seconds K (net s); s = s\<lparr>net := w\<rparr>
      in do { (ip, pl) \<leftarrow> dhcpd_ip_address_pool_next_valid s pl;
              if ip = INADDR_ANY then Some s
              else pool_init_loop K pl (Suc i) n
                (s\<lparr>infos := (infos s)[i := (infos s ! i)\<lparr>info_ip := ip\<rparr>],
                   pool := vListInsert K (now, i) (pool s)\<rparr>) })"

definition dhcpd_ip_pool_init ::
  "('w, 'y) kernel_scheme \<Rightarrow> ('w, 'z) dhcpd_scheme \<Rightarrow> ('w, 'z) dhcpd_scheme option" where
  "dhcpd_ip_pool_init K s =
     (let ip_pool_count = unat (ntohl (pool_end s) - ntohl (pool_start s))
      in pool_init_loop K (pool_start s) 0 ip_pool_count
           (s\<lparr>infos := replicate ip_pool_count zero_info, pool := []\<rparr>))"

lemma usable_frame [simp]:
  "usable (s\<lparr>net := w\<rparr>) = usable s" "usable (s\<lparr>infos := i\<rparr>) = usable s" "usable (s\<lparr>pool := p\<rparr>) = usable s"
  by (simp_all add: fun_eq_iff usable_def skip_address_def)

lemma range_frame [simp]:
  "usable_from (s\<lparr>net := w\<rparr>) = usable_from s" "usable_from (s\<lparr>infos := i\<rparr>) = usable_from s"
  "usable_from (s\<lparr>pool := p\<rparr>) = usable_from s"
  "range_ok (s\<lparr>net := w\<rparr>) = range_ok s" "range_ok (s\<lparr>infos := i\<rparr>) = range_ok s"
  "range_ok (s\<lparr>pool := p\<rparr>) = range_ok s"
  by (simp_all add: fun_eq_iff usable_from_def range_ok_def del: upt_Suc)

lemma usable_from_Cons:
  assumes "range_ok s" "ntohl (pool_start s) \<le> v" "v \<le> ntohl (pool_end s) + 1"
    and "usable_from s v = u # us"
  shows "v \<le> u" "u \<le> ntohl (pool_end s)" "us = usable_from s (u + 1)"
    "ntohl (pool_start s) \<le> u + 1" "u + 1 \<le> ntohl (pool_end s) + 1"
proof -
  show u: "v \<le> u" "u \<le> ntohl (pool_end s)" "us = usable_from s (u + 1)"
    using next_valid_loop_spec [OF assms(1-3)] assms(4) by auto
  have "u < 0xFFFFFFFF" "ntohl (pool_end s) < 0xFFFFFFFF"
    using u(2) assms(1) by (auto simp: range_ok_def intro: order_le_less_trans)
  then show "ntohl (pool_start s) \<le> u + 1" "u + 1 \<le> ntohl (pool_end s) + 1"
    using u(1,2) assms(2) by (simp_all add: word_le_nat_alt unat_Suc_less)
qed

text \<open>
  What the loop has done after \<open>i\<close> turns: the list holds the first \<open>i\<close> entries of the array,
  ordered, and the rest of the array is still zero.
\<close>

definition pool_prefix :: "nat \<Rightarrow> nat \<Rightarrow> u32 list \<Rightarrow> ('w, 'z) dhcpd_scheme \<Rightarrow> bool" where
  "pool_prefix i n us s \<longleftrightarrow> sorted (map fst (pool s)) \<and> distinct (map snd (pool s))
     \<and> owners s = {..<i} \<and> length us = i
     \<and> infos s = map (\<lambda>u. zero_info\<lparr>info_ip := htonl u\<rparr>) us @ replicate n zero_info"

lemma pool_prefix_add:
  assumes "pool_prefix i (Suc n) us s" and api: "list_api_ok K"
  shows "pool_prefix (Suc i) n (us @ [u]) (s\<lparr>net := w,
     infos := (infos s)[i := (infos s ! i)\<lparr>info_ip := htonl u\<rparr>], pool := vListInsert K (now, i) (pool s)\<rparr>)"
proof -
  have "(map f us @ replicate (Suc n) z)[length us := g] = map f us @ [g] @ replicate n z"
    for f :: "u32 \<Rightarrow> dhcp_ip_info" and g z
    by (simp add: list_update_append)
  moreover have "i \<notin> snd ` set (pool s)" using assms(1) by (simp add: pool_prefix_def owners_def)
  ultimately show ?thesis
    using assms by (auto simp: pool_prefix_def vListInsert_sorted owners_def nth_append lessThan_Suc)
qed

lemma pool_init_loop_spec:
  assumes api: "list_api_ok K"
  shows "range_ok s \<Longrightarrow> ntohl (pool_start s) \<le> ntohl pl \<Longrightarrow> ntohl pl \<le> ntohl (pool_end s) + 1 \<Longrightarrow>
    pool_prefix i n us s \<Longrightarrow>
    \<exists>t. pool_init_loop K pl i n s = Some t \<and> (let r = usable_from s (ntohl pl) in
      pool_prefix (i + min n (length r)) (n - length r) (us @ take n r) t)"
proof (induction n arbitrary: i pl us s)
  case 0
  then show ?case by simp
next
  case (Suc n)
  obtain now w where t: "time_seconds K (net s) = (now, w)" by fastforce
  let ?s = "s\<lparr>net := w\<rparr>"
  have nv: "dhcpd_ip_address_pool_next_valid ?s pl = Some (case usable_from s (ntohl pl) of
      [] \<Rightarrow> (INADDR_ANY, pl) | u # us \<Rightarrow> (htonl u, htonl (u + 1)))"
    using next_valid_spec [of ?s pl] Suc.prems by simp
  show ?case
  proof (cases "usable_from s (ntohl pl)")
    case Nil
    with Suc.prems t nv show ?thesis by (simp add: pool_prefix_def owners_def)
  next
    case (Cons u rest)
    note u = usable_from_Cons [OF Suc.prems(1-3) Cons]
    have "u \<in> set (usable_from s (ntohl pl))" using Cons by simp
    then have "usable s u" by (simp add: usable_from_def)
    then have "htonl u \<noteq> INADDR_ANY" by (auto simp: usable_def skip_address_def)
    let ?t = "?s\<lparr>infos := (infos s)[i := (infos s ! i)\<lparr>info_ip := htonl u\<rparr>],
        pool := vListInsert K (now, i) (pool s)\<rparr>"
    have "pool_prefix (Suc i) n (us @ [u]) ?t"
      using pool_prefix_add [OF Suc.prems(4) api, where u = u and w = w and now = now] by simp
    then obtain v where "pool_init_loop K (htonl (u + 1)) (Suc i) n ?t = Some v"
      "pool_prefix (Suc i + min n (length rest)) (n - length rest) ((us @ [u]) @ take n rest) v"
      using Suc.IH [of ?t "htonl (u + 1)" "Suc i" "us @ [u]"] Suc.prems u by (auto simp: Let_def)
    with t nv Cons \<open>htonl u \<noteq> INADDR_ANY\<close> show ?thesis by simp
  qed
qed

text \<open>The addresses of the range are distinct and proper.\<close>

lemma usable_from_distinct: "distinct (usable_from s v)"
proof -
  have "inj_on (word_of_nat :: nat \<Rightarrow> u32) {unat v ..< Suc (unat (ntohl (pool_end s)))}"
  proof (rule inj_on_inverseI [of _ unat])
    fix n assume "n \<in> {unat v ..< Suc (unat (ntohl (pool_end s)))}"
    then have "n \<le> unat (ntohl (pool_end s))" by simp
    also have "\<dots> < 2 ^ 32" using unsigned_less [of "ntohl (pool_end s)"] by simp
    finally show "unat (word_of_nat n :: u32) = n" by (simp add: unat_of_nat take_bit_nat_eq_self)
  qed
  then show ?thesis by (simp add: usable_from_def distinct_map del: upt_Suc)
qed

lemma usable_proper: "usable s u \<Longrightarrow> u \<noteq> 0 \<and> u \<noteq> 0xFFFFFFFF"
  by (auto simp: usable_def skip_address_def Let_def)

lemma pool_prefix_binding:
  assumes p: "pool_prefix (length us) n us t" and us: "distinct us" "\<forall>u \<in> set us. usable s u"
  shows "pool_ok t"
    and "macs_unique t"
    and "binding t a = (if ntohl a \<in> set us then Some (DHCP_IP_STATE_AVAILABLE, zero_mac) else None)"
proof -
  have o: "owners t = {..<length us}" using p by (simp add: pool_prefix_def)
  have e: "infos t ! c = zero_info\<lparr>info_ip := htonl (us ! c)\<rparr>" if "c < length us" for c
    using p that by (simp add: pool_prefix_def nth_append)
  have l: "sorted (map fst (pool t))" "distinct (map snd (pool t))" "length us \<le> length (infos t)"
    using p by (simp_all add: pool_prefix_def)
  have "us ! c \<noteq> 0 \<and> us ! c \<noteq> 0xFFFFFFFF" if "c < length us" for c
    using us(2) that usable_proper by (metis nth_mem)
  then show ok: "pool_ok t"
    using l us(1) by (auto simp: pool_ok_def inj_on_def o e nth_eq_iff_index_eq)
  show "macs_unique t" by (simp add: macs_unique_def o e zero_info_def)
  show "binding t a = (if ntohl a \<in> set us then Some (DHCP_IP_STATE_AVAILABLE, zero_mac) else None)"
  proof (cases "ntohl a \<in> set us")
    case True
    then obtain c where c: "c < length us" "us ! c = ntohl a" by (metis in_set_conv_nth)
    then have "info_ip (infos t ! c) = a" by (simp add: e)
    with c True show ?thesis
      using binding_member [OF ok, of c] by (simp add: o e zero_info_def)
  next
    case False
    then have "info_ip (infos t ! c) \<noteq> a" if "c < length us" for c
      using that by (auto simp: e dest: nth_mem)
    with False show ?thesis by (simp add: binding_None o)
  qed
qed

lemma pool_init_spec:
  assumes "list_api_ok K" and "range_ok s"
  shows "\<exists>t. dhcpd_ip_pool_init K s = Some t \<and> pool_ok t \<and> macs_unique t
    \<and> (\<forall>a. binding t a =
         (if ntohl a \<in> set (take (unat (ntohl (pool_end s) - ntohl (pool_start s)))
                             (usable_from s (ntohl (pool_start s))))
          then Some (DHCP_IP_STATE_AVAILABLE, zero_mac) else None))"
proof -
  let ?n = "unat (ntohl (pool_end s) - ntohl (pool_start s))"
  let ?r = "usable_from s (ntohl (pool_start s))"
  let ?s = "s\<lparr>infos := replicate ?n zero_info, pool := []\<rparr>"
  have "pool_prefix 0 ?n [] ?s" by (simp add: pool_prefix_def owners_def)
  moreover have "ntohl (pool_start s) \<le> ntohl (pool_end s) + 1"
    using assms(2) unat_Suc_less [of "ntohl (pool_end s)" "0xFFFFFFFF"]
    by (simp add: range_ok_def word_le_nat_alt)
  ultimately obtain t where t: "dhcpd_ip_pool_init K s = Some t"
    "pool_prefix (length (take ?n ?r)) (?n - length ?r) (take ?n ?r) t"
    using pool_init_loop_spec [OF assms(1), of ?s "pool_start s" 0 ?n "[]"] assms(2)
    by (auto simp: dhcpd_ip_pool_init_def Let_def min.commute)
  moreover have "distinct (take ?n ?r)" "\<forall>u \<in> set (take ?n ?r). usable s u"
    using usable_from_distinct [of s] by (auto simp: usable_from_def dest!: in_set_takeD)
  ultimately show ?thesis using pool_prefix_binding [OF t(2)] by blast
qed

text \<open>
  Building the pool returns a well-formed pool in which the first usable addresses of the
  configured range, at most as many as the difference of its ends, are available, bound to no
  client, and no other address is present.
\<close>

theorem pool_init_first_usable:
  assumes "list_api_ok K" and "range_ok s"
  shows "\<exists>t. dhcpd_ip_pool_init K s = Some t \<and> pool_ok t \<and> macs_unique t
    \<and> (\<forall>a. binding t a =
         (if ntohl a \<in> set (take (unat (ntohl (pool_end s) - ntohl (pool_start s)))
                             (usable_from s (ntohl (pool_start s))))
          then Some (DHCP_IP_STATE_AVAILABLE, zero_mac) else None))"
  using assms by (rule pool_init_spec)

definition range_config :: "unit dhcpd" where
  "range_config = two_pool\<lparr>pool_start := 0x0200000A, pool_end := 0x0400000A\<rparr>"

lemma range_config_ok: "range_ok range_config"
  by (simp add: range_ok_def range_config_def two_pool_def ntohl_def htonl_def le32_def)

theorem pool_init_first_usable_witness:
  "\<exists>t. dhcpd_ip_pool_init quiet_kernel range_config = Some t \<and> pool_ok t \<and> macs_unique t
    \<and> (\<forall>a. binding t a =
         (if ntohl a \<in> set (take (unat (ntohl (pool_end range_config) - ntohl (pool_start range_config)))
                             (usable_from range_config (ntohl (pool_start range_config))))
          then Some (DHCP_IP_STATE_AVAILABLE, zero_mac) else None))"
  by (rule pool_init_first_usable [OF quiet_kernel_ok(1) range_config_ok])

text \<open>
  The number of turns is the difference of the two ends, so where no address of the range
  is skipped, the last one, which the range includes, never gets into the pool.
\<close>

theorem pool_init_omits_last:
  assumes api: "list_api_ok K" and ok: "range_ok s"
    and all: "\<forall>v. ntohl (pool_start s) \<le> v \<and> v \<le> ntohl (pool_end s) \<longrightarrow> usable s v"
  shows "\<exists>t. dhcpd_ip_pool_init K s = Some t \<and> binding t (pool_end s) = None"
proof -
  let ?b = "ntohl (pool_start s)" and ?e = "ntohl (pool_end s)"
  have le: "?b \<le> ?e" using ok by (simp add: range_ok_def)
  have inv: "unat (word_of_nat k :: u32) = k" if "k \<le> unat ?e" for k
    using that unsigned_less [of ?e, where ?'a = nat] by (simp add: unat_of_nat take_bit_nat_eq_self)
  have "usable_from s ?b = map word_of_nat [unat ?b ..< Suc (unat ?e)]"
    unfolding usable_from_def using all inv
    by (intro filter_True) (auto simp: word_le_nat_alt simp del: upt_Suc)
  moreover have "unat (?e - ?b) = unat ?e - unat ?b" using le by (rule unat_sub)
  ultimately have "take (unat (?e - ?b)) (usable_from s ?b) = map word_of_nat [unat ?b ..< unat ?e]"
    using le by (simp add: take_map word_le_nat_alt del: upt_Suc)
  moreover have "?e \<notin> set (map word_of_nat [unat ?b ..< unat ?e])"
  proof
    assume "?e \<in> set (map word_of_nat [unat ?b ..< unat ?e])"
    then obtain k where "k < unat ?e" "?e = word_of_nat k" by auto
    with inv [of k] show False by simp
  qed
  ultimately show ?thesis using pool_init_spec [OF api ok] by auto
qed

theorem pool_init_omits_last_witness:
  "\<exists>t. dhcpd_ip_pool_init quiet_kernel range_config = Some t \<and> binding t 0x0400000A = None"
proof -
  have e: "pool_end range_config = 0x0400000A" "ntohl (pool_end range_config) = 0x0A000004"
    "ntohl (pool_start range_config) = 0x0A000002"
    by (simp_all add: range_config_def two_pool_def ntohl_def htonl_def le32_def)
  have three: "v = 0x0A000002 \<or> v = 0x0A000003 \<or> v = 0x0A000004"
    if "0x0A000002 \<le> v" "v \<le> 0x0A000004" for v :: u32
    using that by unat_arith
  have u: "usable range_config 0x0A000002" "usable range_config 0x0A000003" "usable range_config 0x0A000004"
    by (simp_all add: usable_def skip_address_def range_config_def two_pool_def htonl_def le32_def)
  have "\<forall>v. ntohl (pool_start range_config) \<le> v \<and> v \<le> ntohl (pool_end range_config)
      \<longrightarrow> usable range_config v"
  proof (intro allI impI)
    fix v assume "ntohl (pool_start range_config) \<le> v \<and> v \<le> ntohl (pool_end range_config)"
    then show "usable range_config v" using three [of v] u by (auto simp only: e(2,3))
  qed
  from pool_init_omits_last [OF quiet_kernel_ok(1) range_config_ok this] show ?thesis
    unfolding e(1) .
qed

end
