(* ===== verification/Dhcp_Server.thy ===== *)
theory Dhcp_Server
  imports Dhcp_Init
begin

text \<open>
  The DHCP server's message handler \<open>dhcpd_handle_op_request\<close>: reading the options of a
  request, deciding what the client wants, releasing or leasing, and building the reply
  (modules/rtos/sw_services/dhcpd/FreeRTOS/dhcpd.c). The lemmas show that the handler
  always returns without leaving the option array and without a failed assertion, keeps the
  pool invariant, and what the replies contain.
\<close>

section \<open>Reading the options of a request\<close>

record request_info =
  msg_type :: int
  ip_requested :: bool
  server_identified :: bool
  server_identifier :: in_addr
  requested_ip :: in_addr
  requested_params :: "u8 list"

definition default_params :: "u8 list" where
  "default_params = [DHCP_OPTION_SUBNET_MASK, DHCP_OPTION_ROUTER, DHCP_OPTION_DOMAIN_NAME_SERVER,
     DHCP_OPTION_INTERFACE_MTU, DHCP_OPTION_BROADCAST_ADDRESS, DHCP_OPTION_IP_ADDRESS_LEASE_TIME,
     DHCP_OPTION_RENEWAL_TIME_VALUE, DHCP_OPTION_REBINDING_TIME_VALUE]"

definition no_request :: request_info where
  "no_request = \<lparr>msg_type = 0, ip_requested = False, server_identified = False,
     server_identifier = INADDR_ANY, requested_ip = INADDR_ANY, requested_params = default_params\<rparr>"

text \<open>The switch over one option.\<close>

definition note_option :: "option_read \<Rightarrow> request_info \<Rightarrow> request_info" where
  "note_option r q =
     (if opt_code r = DHCP_OPTION_DHCP_MESSAGE_TYPE then
        (if length (opt_data r) = 1 then q\<lparr>msg_type := int (unat (hd (opt_data r)))\<rparr> else q)
      else if opt_code r = DHCP_OPTION_REQUESTED_IP_ADDRESS then
        (if length (opt_data r) = 4
         then q\<lparr>ip_requested := True, requested_ip := of_le32 (opt_data r)\<rparr> else q)
      else if opt_code r = DHCP_OPTION_SERVER_IDENTIFIER then
        (if length (opt_data r) = 4
         then q\<lparr>server_identified := True, server_identifier := of_le32 (opt_data r)\<rparr> else q)
      else if opt_code r = DHCP_OPTION_PARAMETER_REQ_LIST then
        q\<lparr>requested_params := opt_data r\<rparr>
      else q)"

text \<open>The do-while loop; it ends because every option moves the position forward.\<close>

function parse_options :: "dhcp_message \<Rightarrow> nat \<Rightarrow> nat option \<Rightarrow> request_info \<Rightarrow> request_info res" where
  "parse_options m n opt_ptr q =
     rbind (dhcp_option_get_next m opt_ptr n) (\<lambda>r.
       let q = note_option r q
       in if opt_code r \<noteq> DHCP_OPTION_END then parse_options m n (opt_next r) q else Inr q)"
  by pat_completeness auto
termination
proof (relation "measure (\<lambda>(m, n, p, q). DHCP_OPTIONS_LENGTH - ptr_index p)")
  fix m n p q r q'
  assume "dhcp_option_get_next m p n = Inr r" and "opt_code r \<noteq> DHCP_OPTION_END"
  then have "ptr_index p < ptr_index (opt_next r) \<and> ptr_index (opt_next r) < DHCP_OPTIONS_LENGTH"
    by (rule dhcp_option_get_next_progress)
  then show "((m, n, opt_next r, q'), m, n, p, q)
      \<in> measure (\<lambda>(m, n, p, q). DHCP_OPTIONS_LENGTH - ptr_index p)"
    by auto
qed simp

declare parse_options.simps [simp del]

text \<open>Reading the received options never fails: no byte outside them is touched.\<close>

lemma parse_options_total:
  assumes "msg_wf m" and "n \<le> DHCP_OPTIONS_LENGTH"
  shows "ptr_index p < n \<Longrightarrow> \<exists>q'. parse_options m n p q = Inr q'"
proof (induction "DHCP_OPTIONS_LENGTH - ptr_index p" arbitrary: p q rule: less_induct)
  case less
  obtain r where r: "dhcp_option_get_next m p n = Inr r"
    and more: "opt_code r \<noteq> DHCP_OPTION_END \<Longrightarrow>
      (\<exists>i. opt_next r = Some i \<and> ptr_index p < i \<and> i < n \<and> length (opt_data r) < i - ptr_index p)"
    using dhcp_option_get_next_step [OF assms(1) less.prems assms(2)] by blast
  show ?case
  proof (cases "opt_code r = DHCP_OPTION_END")
    case True
    with r show ?thesis by (simp add: parse_options.simps [of m n p])
  next
    case False
    with more obtain i where i: "opt_next r = Some i" "ptr_index p < i" "i < n" by blast
    then have "\<exists>q'. parse_options m n (opt_next r) (note_option r q) = Inr q'"
      using less.hyps assms(2) by simp
    with r False show ?thesis by (simp add: parse_options.simps [of m n p])
  qed
qed

section \<open>What the client wants\<close>

datatype client_state = CS_NONE | CS_DISCOVER | CS_SELECTING | CS_INIT_REBOOT | CS_RENEWING
  | CS_INFORMING | CS_RELEASING | CS_DECLINING | CS_PINGING

text \<open>
  The switch over the message type: the state, the requested address, the client to release
  or decline, and the message, whose \<open>ciaddr\<close> a decline clears.
\<close>

definition client_classify :: "('w, 'z) dhcpd_scheme \<Rightarrow> dhcp_message \<Rightarrow> request_info
    \<Rightarrow> client_state \<times> in_addr \<times> nat option \<times> dhcp_message" where
  "client_classify s m q =
     (let rip = requested_ip q; ip = ip_requested q; sid = server_identified q in
      if msg_type q = DHCP_DISCOVER then (CS_DISCOVER, rip, None, m)
      else if msg_type q = DHCP_REQUEST then
        (if ip \<and> sid \<and> ciaddr m = 0 then
           if server_identifier q = server_ip s then (CS_SELECTING, rip, None, m)
           else (CS_RELEASING, rip, dhcp_client_lookup_by_mac (chaddr m) s, m)
         else if ip \<and> \<not> sid \<and> ciaddr m = 0 then (CS_INIT_REBOOT, rip, None, m)
         else if \<not> ip \<and> \<not> sid \<and> ciaddr m \<noteq> 0 then (CS_RENEWING, ciaddr m, None, m)
         else if ip \<and> \<not> sid \<and> ciaddr m \<noteq> 0 then (CS_PINGING, rip, None, m)
         else (CS_NONE, rip, None, m))
      else if msg_type q = DHCP_INFORM then
        (if \<not> ip \<and> \<not> sid \<and> ciaddr m \<noteq> 0 then (CS_INFORMING, ciaddr m, None, m)
         else (CS_NONE, rip, None, m))
      else if msg_type q = DHCP_DECLINE then
        (if ip \<and> sid then
           (CS_DECLINING, rip, dhcp_client_lookup_by_ip rip s, m\<lparr>ciaddr := 0\<rparr>)
         else (CS_NONE, rip, None, m))
      else if msg_type q = DHCP_RELEASE then
        (if \<not> ip \<and> sid \<and> ciaddr m \<noteq> 0 then
           (CS_RELEASING, rip, dhcp_client_lookup_by_ip (ciaddr m) s, m)
         else (CS_NONE, rip, None, m))
      else (CS_NONE, rip, None, m))"

definition client_release :: "('w, 'y) kernel_scheme \<Rightarrow> client_state \<Rightarrow> nat option \<Rightarrow> dhcp_message
    \<Rightarrow> ('w, 'z) dhcpd_scheme \<Rightarrow> ('w, 'z) dhcpd_scheme" where
  "client_release K st client m s =
     (case client of
        None \<Rightarrow> s
      | Some c \<Rightarrow>
          let s = (if ciaddr m = 0 then client_set_mac c zero_mac s else s)
          in if st = CS_DECLINING
             then dhcp_client_update K c DHCP_IP_STATE_UNAVAILABLE DHCPD_UNAVAILABLE_IP_PROBE_INTERVAL s
             else dhcp_client_update K c DHCP_IP_STATE_AVAILABLE 0 s)"

section \<open>Replies\<close>

text \<open>
  \<open>dhcpd_send_response\<close>: the destination is \<open>ciaddr\<close>, or the broadcast address. The
  datagram is the header and the first \<open>options_length\<close> option bytes.
\<close>

definition dhcpd_send_response :: "dhcp_message \<Rightarrow> nat \<Rightarrow> ('w, 'z) dhcpd_scheme \<Rightarrow> ('w, 'z) dhcpd_scheme" where
  "dhcpd_send_response m options_length s =
     s\<lparr>events := events s @
       [SendTo (if ciaddr m \<noteq> 0 then ciaddr m else INADDR_BROADCAST) m options_length]\<rparr>"

text \<open>A sequence of calls of \<open>dhcp_option_add\<close>.\<close>

fun add_options :: "dhcp_message \<Rightarrow> nat option \<Rightarrow> (u8 \<times> u8 list) list
    \<Rightarrow> (dhcp_message \<times> nat option) res" where
  "add_options m p [] = Inr (m, p)"
| "add_options m p ((code, data) # os) =
     rbind (dhcp_option_add m p code data) (\<lambda>(m, p). add_options m p os)"

text \<open>
  The options of an OFFER or ACK, in the order of the calls. The flag of an optional
  parameter is set by the loop over \<open>requested_params\<close> exactly if its code is in the list.
\<close>

definition reply_options :: "client_state \<Rightarrow> u8 list \<Rightarrow> ('w, 'z) dhcpd_scheme \<Rightarrow> (u8 \<times> u8 list) list" where
  "reply_options st params s =
     (let opt = (\<lambda>code data. if code \<in> set params then [(code, data)] else []);
          dhcp_msg_type = (if st = CS_DISCOVER then 2 else 5) :: u8
      in [(DHCP_OPTION_DHCP_MESSAGE_TYPE, [dhcp_msg_type]),
          (DHCP_OPTION_SERVER_IDENTIFIER, le32 (server_ip s))]
       @ (if st \<noteq> CS_INFORMING
          then [(DHCP_OPTION_IP_ADDRESS_LEASE_TIME, le32 (htonl DHCPD_LEASE_TIME))] else [])
       @ opt DHCP_OPTION_SUBNET_MASK (le32 (netmask s))
       @ opt DHCP_OPTION_ROUTER (le32 (gateway s))
       @ opt DHCP_OPTION_DOMAIN_NAME_SERVER (le32 (dns0 s) @ le32 (dns1 s))
       @ opt DHCP_OPTION_INTERFACE_MTU (le16 (htons (network_mtu s)))
       @ opt DHCP_OPTION_BROADCAST_ADDRESS (le32 INADDR_BROADCAST)
       @ opt DHCP_OPTION_RENEWAL_TIME_VALUE (le32 (htonl 300))
       @ opt DHCP_OPTION_REBINDING_TIME_VALUE (le32 (htonl 525))
       @ [(DHCP_OPTION_END, [])])"

text \<open>The header fields set for every reply, according to RFC 2131.\<close>

definition reply_header :: "dhcp_message \<Rightarrow> dhcp_message" where
  "reply_header m = m\<lparr>op := BOOTREPLY, htype := 1, hlen := 6, hops := 0, secs := 0, siaddr := 0,
     sname := replicate 64 0, boot_file := replicate 128 0, magic_cookie := DHCP_MAGIC_COOKIE\<rparr>"

definition reply_lease :: "client_state \<Rightarrow> u8 list \<Rightarrow> dhcp_message \<Rightarrow> ('w, 'z) dhcpd_scheme
    \<Rightarrow> ('w, 'z) dhcpd_scheme res" where
  "reply_lease st params m s =
     (let m = reply_header m;
          m = (if st = CS_DISCOVER then m\<lparr>ciaddr := 0\<rparr>
               else if st = CS_INFORMING then m\<lparr>yiaddr := 0\<rparr> else m)
      in rbind (add_options m None (reply_options st params s)) (\<lambda>(m, p).
           Inr (dhcpd_send_response m (ptr_index p) s)))"

definition nak_options :: "('w, 'z) dhcpd_scheme \<Rightarrow> (u8 \<times> u8 list) list" where
  "nak_options s = [(DHCP_OPTION_DHCP_MESSAGE_TYPE, [6]),
     (DHCP_OPTION_SERVER_IDENTIFIER, le32 (server_ip s)), (DHCP_OPTION_END, [])]"

definition reply_nak :: "('w, 'y) kernel_scheme \<Rightarrow> dhcp_message \<Rightarrow> ('w, 'z) dhcpd_scheme
    \<Rightarrow> ('w, 'z) dhcpd_scheme res" where
  "reply_nak K m s =
     (let s = (case dhcp_client_lookup_by_mac (chaddr m) s of
                 None \<Rightarrow> s | Some c \<Rightarrow> dhcp_client_update K c DHCP_IP_STATE_AVAILABLE 0 s);
          m = (reply_header m)\<lparr>ciaddr := 0, yiaddr := 0\<rparr>
      in rbind (add_options m None (nak_options s)) (\<lambda>(m, p).
           Inr (dhcpd_send_response m (ptr_index p) s)))"

definition dhcpd_reply :: "('w, 'y) kernel_scheme \<Rightarrow> client_state \<Rightarrow> u8 list \<Rightarrow> dhcp_message
    \<Rightarrow> ('w, 'z) dhcpd_scheme \<Rightarrow> ('w, 'z) dhcpd_scheme res" where
  "dhcpd_reply K st params m s =
     (if yiaddr m \<noteq> INADDR_ANY \<and> yiaddr m \<noteq> INADDR_BROADCAST then reply_lease st params m s
      else if yiaddr m = INADDR_BROADCAST then reply_nak K m s
      else Inr s)"

section \<open>The handler\<close>

text \<open>\<open>None\<close>: does not return; \<open>Some (Inl e)\<close>: stopped by the error \<open>e\<close>.\<close>

definition dhcpd_handle_op_request :: "('w, 'y) kernel_scheme \<Rightarrow> dhcp_message \<Rightarrow> nat
    \<Rightarrow> ('w, 'z) dhcpd_scheme \<Rightarrow> ('w, 'z) dhcpd_scheme res option" where
  "dhcpd_handle_op_request K m options_length s =
     (case parse_options m options_length None no_request of
        Inl e \<Rightarrow> Some (Inl e)
      | Inr q \<Rightarrow>
          let (st, rip, client, m) = client_classify s m q
          in if st = CS_DECLINING \<or> st = CS_RELEASING then Some (Inr (client_release K st client m s))
             else if st = CS_NONE then Some (Inr s)
             else if st = CS_PINGING then
               Some (dhcpd_reply K st (requested_params q) (m\<lparr>yiaddr := rip\<rparr>) s)
             else do { (a, s) \<leftarrow> dhcpd_client_ip_address_lease K (chaddr m) rip (msg_type q) s;
                       Some (dhcpd_reply K st (requested_params q) (m\<lparr>yiaddr := a\<rparr>) s) })"

section \<open>Reassigning an entry\<close>

text \<open>Storing the zero address or the client's own in an entry keeps clients unique.\<close>

lemma assigned_frame:
  assumes "list_api_ok K" "pool_ok s" "c \<in> owners s"
  shows "pool_ok (client_assign K c m st e s)"
    "dom (binding (client_assign K c m st e s)) = dom (binding s)"
    "m \<in> {zero_mac, info_mac (infos s ! c)} \<Longrightarrow> macs_unique s \<Longrightarrow> macs_unique (client_assign K c m st e s)"
proof -
  note f = assign_found [OF assms]
  show "pool_ok (client_assign K c m st e s)" by (rule f(1))
  show "dom (binding (client_assign K c m st e s)) = dom (binding s)"
    using assms by (intro tbl.dom_assign) simp_all
  assume m: "m \<in> {zero_mac, info_mac (infos s ! c)}" and u: "macs_unique s"
  have "binding s (info_ip (infos s ! c)) = Some (info_state (infos s ! c), info_mac (infos s ! c))"
    using assms(2,3) by (rule binding_member)
  with m u assms(2) have "m = zero_mac \<or> (\<forall>x st'. binding s x = Some (st', m) \<longrightarrow> x = info_ip (infos s ! c))"
    unfolding macs_unique_clients_unique [OF assms(2)] clients_unique_def by blast
  with u assms(2) show "macs_unique (client_assign K c m st e s)"
    by (simp add: macs_unique_clients_unique f(1,2) clients_unique_upd)
qed

section \<open>Writing several options, and reading them back\<close>

definition options_bytes :: "(u8 \<times> u8 list) list \<Rightarrow> u8 list" where
  "options_bytes os = concat (map (\<lambda>(code, data). option_bytes code data) os)"

lemma options_bytes_simps [simp]:
  "options_bytes [] = []"
  "options_bytes ((code, data) # os) = option_bytes code data @ options_bytes os"
  "options_bytes (os @ os') = options_bytes os @ options_bytes os'"
  by (simp_all add: options_bytes_def)

text \<open>
  A sequence of calls that fits into the array succeeds and appends the bytes of its options;
  no other field of the message changes.
\<close>

lemma add_options_ok:
  assumes "msg_wf m" and "\<forall>(code, data) \<in> set os. length data \<le> 255"
    and "ptr_index p + length (options_bytes os) \<le> DHCP_OPTIONS_LENGTH"
  shows "\<exists>opts p'. add_options m p os = Inr (m\<lparr>options := opts\<rparr>, p')
    \<and> ptr_index p' = ptr_index p + length (options_bytes os) \<and> length opts = DHCP_OPTIONS_LENGTH
    \<and> take (ptr_index p') opts = take (ptr_index p) (options m) @ options_bytes os"
  using assms
proof (induction os arbitrary: m p)
  case Nil
  then show ?case by (intro exI [of _ "options m"] exI [of _ p]) (simp add: msg_wf_def)
next
  case (Cons cd os)
  obtain code data where cd: "cd = (code, data)" by fastforce
  let ?k = "ptr_index p + length (option_bytes code data)"
  have "length data \<le> 255" and "?k < DHCP_OPTIONS_LENGTH + 1"
    using Cons.prems(2,3) cd by auto
  then obtain o1 where o1: "dhcp_option_add m p code data = Inr (m\<lparr>options := o1\<rparr>, Some ?k)"
    "length o1 = DHCP_OPTIONS_LENGTH" "take ?k o1 = take (ptr_index p) (options m) @ option_bytes code data"
    using dhcp_option_add_ok [OF Cons.prems(1)] by blast
  let ?m = "m\<lparr>options := o1\<rparr>"
  have wf: "msg_wf ?m" using o1(2) by (simp add: msg_wf_def)
  have data: "\<forall>(code, data) \<in> set os. length data \<le> 255" using Cons.prems(2) by simp
  have fits: "ptr_index (Some ?k) + length (options_bytes os) \<le> DHCP_OPTIONS_LENGTH"
    using Cons.prems(3) cd by simp
  obtain o2 p' where o2: "add_options ?m (Some ?k) os = Inr (?m\<lparr>options := o2\<rparr>, p')"
    "ptr_index p' = ptr_index (Some ?k) + length (options_bytes os)" "length o2 = DHCP_OPTIONS_LENGTH"
    "take (ptr_index p') o2 = take (ptr_index (Some ?k)) (options ?m) @ options_bytes os"
    using Cons.IH [OF wf data fits] by blast
  have "add_options m p (cd # os) = Inr (m\<lparr>options := o2\<rparr>, p')"
    by (simp add: cd o1(1) o2(1))
  moreover have "ptr_index p' = ptr_index p + length (options_bytes (cd # os))"
    by (simp add: cd o2(2))
  moreover have "take (ptr_index p') o2 = take (ptr_index p) (options m) @ options_bytes (cd # os)"
    unfolding o2(4) by (simp add: cd o1(3))
  ultimately show ?case using o2(3) by blast
qed

text \<open>The effect of one option on what the parser knows, without the position.\<close>

definition note_pair :: "u8 \<times> u8 list \<Rightarrow> request_info \<Rightarrow> request_info" where
  "note_pair cd q = note_option \<lparr>opt_code = fst cd, opt_next = None, opt_data = snd cd\<rparr> q"

lemma note_option_pair:
  "note_option \<lparr>opt_code = c, opt_next = p, opt_data = d\<rparr> q = note_pair (c, d) q"
  by (simp add: note_pair_def note_option_def)

definition plain_option :: "u8 \<times> u8 list \<Rightarrow> bool" where
  "plain_option cd \<longleftrightarrow> fst cd \<noteq> DHCP_OPTION_END \<and> fst cd \<noteq> DHCP_OPTION_PAD
     \<and> snd cd \<noteq> [] \<and> length (snd cd) \<le> 255"

lemma parse_end:
  assumes "msg_wf m" "options m ! ptr_index p = DHCP_OPTION_END" "ptr_index p < DHCP_OPTIONS_LENGTH"
  shows "parse_options m n p q = Inr q"
proof -
  have r: "dhcp_option_get_next m p n = Inr (option_at_end p)"
    using assms by (simp add: dhcp_option_get_next_def read_option_byte_def msg_wf_def Let_def)
  show ?thesis
    by (subst parse_options.simps, simp only: r) (simp add: option_at_end_def note_option_def)
qed

text \<open>
  Parsing an option field that holds the bytes of some options and then END gives what
  the switch makes of these options, in their order.
\<close>

lemma parse_options_bytes:
  assumes "msg_wf m" and "n \<le> DHCP_OPTIONS_LENGTH" and "\<forall>cd \<in> set os. plain_option cd"
    and "take (length (options_bytes os) + 1) (drop (ptr_index p) (options m))
      = options_bytes os @ [DHCP_OPTION_END]"
    and "ptr_index p + length (options_bytes os) < n"
  shows "parse_options m n p q = Inr (fold note_pair os q)"
  using assms
proof (induction os arbitrary: p q)
  case Nil
  then have "options m ! ptr_index p = DHCP_OPTION_END"
    by (cases "drop (ptr_index p) (options m)") (simp_all add: hd_drop_conv_nth [symmetric] msg_wf_def)
  with Nil show ?case by (simp add: parse_end)
next
  case (Cons cd os)
  obtain code data where cd: "cd = (code, data)" by fastforce
  let ?l = "length (option_bytes code data)" and ?d = "drop (ptr_index p) (options m)"
  have pl: "plain_option (code, data)" using Cons.prems(3) cd by simp
  have all: "take (?l + (length (options_bytes os) + 1)) ?d
      = option_bytes code data @ (options_bytes os @ [DHCP_OPTION_END])"
    using Cons.prems(4) cd by (simp add: add.assoc)
  have "take ?l (take (?l + (length (options_bytes os) + 1)) ?d) = option_bytes code data"
    by (simp only: all) simp
  then have hd: "take ?l ?d = option_bytes code data" by simp
  have "drop ?l (take (?l + (length (options_bytes os) + 1)) ?d) = options_bytes os @ [DHCP_OPTION_END]"
    by (simp only: all) simp
  then have tl: "take (length (options_bytes os) + 1) (drop (ptr_index p + ?l) (options m))
      = options_bytes os @ [DHCP_OPTION_END]"
    by (simp add: drop_take add.commute)
  have r: "dhcp_option_get_next m p n = Inr \<lparr>opt_code = code, opt_next = Some (ptr_index p + ?l), opt_data = data\<rparr>"
    using hd Cons.prems(1,2,5) pl cd
    by (intro dhcp_option_get_next_written) (simp_all add: plain_option_def)
  have "parse_options m n p q = parse_options m n (Some (ptr_index p + ?l)) (note_pair (code, data) q)"
    using pl by (simp add: parse_options.simps [of m n p] r note_option_pair plain_option_def)
  also have "\<dots> = Inr (fold note_pair os (note_pair (code, data) q))"
    using Cons.prems(1,2,3,5) tl cd by (intro Cons.IH) simp_all
  finally show ?case by (simp add: cd)
qed

section \<open>What leasing leaves alone\<close>

definition net_config :: "('w, 'z) dhcpd_scheme \<Rightarrow> in_addr \<times> in_addr \<times> in_addr \<times> in_addr \<times> in_addr \<times> u16" where
  "net_config s = (server_ip s, netmask s, gateway s, dns0 s, dns1 s, network_mtu s)"

definition is_arp :: "dhcpd_event \<Rightarrow> bool" where
  "is_arp e \<longleftrightarrow> (case e of ArpRefresh k x \<Rightarrow> True | SendTo d m k \<Rightarrow> False)"

text \<open>From \<open>s\<close> to \<open>t\<close> only the pool changed, and at most ARP entries were refreshed.\<close>

definition no_reply :: "('w, 'z) dhcpd_scheme \<Rightarrow> ('w, 'z) dhcpd_scheme \<Rightarrow> bool" where
  "no_reply s t \<longleftrightarrow> net_config t = net_config s
     \<and> (\<exists>evs. events t = events s @ evs \<and> (\<forall>e \<in> set evs. is_arp e))"

lemma no_replyI: "net_config t = net_config s \<Longrightarrow> events t = events s \<Longrightarrow> no_reply s t"
  by (simp add: no_reply_def)

lemma no_reply_refl [simp]: "no_reply s s"
  by (simp add: no_replyI)

lemma no_reply_trans: "no_reply s t \<Longrightarrow> no_reply t u \<Longrightarrow> no_reply s u"
  unfolding no_reply_def by fastforce

lemma no_reply_update [simp]:
  "no_reply s (dhcp_client_update K c st e s)" "no_reply s (client_set_mac c m s)"
  "no_reply s (dhcp_client_update K c st e (client_set_mac c m s))" "no_reply s (s\<lparr>net := w\<rparr>)"
  "no_reply s (mark_unavailable K c s)"
  by (simp_all add: no_replyI net_config_def mark_unavailable_def)

lemma no_reply_arp [simp]: "no_reply s (s\<lparr>events := events s @ [ArpRefresh k x]\<rparr>)"
  by (simp add: no_reply_def net_config_def is_arp_def)

lemma probe_no_reply: "probe K c s = Some (used, t) \<Longrightarrow> no_reply s t"
  by (auto simp: probe_def bind_eq_Some_conv)

lemma lease_search_no_reply: "lease_search K m s = Some r \<Longrightarrow> no_reply s (snd r)"
proof (rule lease_search.raw_induct [where P = "\<lambda>K m s r. no_reply s (snd r)"])
  fix search :: "('w, 'y) kernel_scheme \<Rightarrow> mac_addr \<Rightarrow> ('w, 'z) dhcpd_scheme
      \<Rightarrow> (in_addr \<times> ('w, 'z) dhcpd_scheme) option" and K m s r
  assume IH: "\<And>K m s r. search K m s = Some r \<Longrightarrow> no_reply s (snd r)"
    and body: "(case dhcp_client_get_oldest_disconnected s of None \<Rightarrow> Some (INADDR_ANY, s)
      | Some c \<Rightarrow> do { (used, s) \<leftarrow> probe K c s;
           if used then search K m (mark_unavailable K c s)
           else let s = dhcp_client_update K c DHCP_IP_STATE_OFFERED
                      DHCPD_OFFER_EXPIRATION_TIME (client_set_mac c m s)
                in Some (info_ip (infos s ! c), s) }) = Some r"
  show "no_reply s (snd r)"
  proof (cases "dhcp_client_get_oldest_disconnected s")
    case None
    with body show ?thesis by auto
  next
    case (Some c)
    with body obtain used u where p: "probe K c s = Some (used, u)"
      by (auto simp: bind_eq_Some_conv)
    note su = probe_no_reply [OF p]
    show ?thesis
    proof (cases used)
      case True
      with body Some p have "no_reply (mark_unavailable K c u) (snd r)" by (simp add: IH)
      then show ?thesis by (rule no_reply_trans [OF no_reply_trans [OF su no_reply_update(5)]])
    next
      case False
      with body Some p have "no_reply u (snd r)" by (auto simp: Let_def)
      then show ?thesis by (rule no_reply_trans [OF su])
    qed
  qed
qed

lemma no_reply_via:
  "no_reply s u \<Longrightarrow> lease_search K m u = Some (a, t) \<Longrightarrow> no_reply s t"
  "probe K c s = Some (used, u) \<Longrightarrow> no_reply u t \<Longrightarrow> no_reply s t"
  using lease_search_no_reply [of K m u "(a, t)"] probe_no_reply [of K c s used u]
  by (auto intro: no_reply_trans)

lemma lease_new_no_reply:
  assumes "lease_new K m req rt s = Some (a, t)"
  shows "no_reply s t"
proof -
  have rest: "no_reply s t"
    if "(if rt = DHCP_DISCOVER then lease_search K m s else Some (INADDR_ANY, s)) = Some (a, t)" for s
    using that by (auto split: if_splits intro: no_reply_via(1) [OF no_reply_refl])
  have probed: "no_reply s t" if "probe K c s = Some (used, u)"
    "(if used then lease_search K m (mark_unavailable K c u)
      else Some (x, dhcp_client_update K c st e (client_set_mac c m u))) = Some (a, t)" for c used u x st e
    using that(2) by (intro no_reply_via(2) [OF that(1)])
      (auto split: if_splits intro: no_reply_via(1) [OF no_reply_update(5)])
  show ?thesis
    using assms rest probed unfolding lease_new_def Let_def
    by (auto simp: bind_eq_Some_conv split: if_splits option.splits)
qed

lemma lease_no_reply:
  assumes "dhcpd_client_ip_address_lease K m req rt s = Some (a, t)"
  shows "no_reply s t"
proof (cases "dhcp_client_lookup_by_mac m s")
  case None
  with assms show ?thesis by (simp add: dhcpd_client_ip_address_lease_def lease_new_no_reply)
next
  case (Some c)
  have renew: "no_reply s (dhcp_client_update K c st e u
      \<lparr>events := events u @ [ArpRefresh k x]\<rparr>)" if "no_reply s u" for st e u k x
    using no_reply_trans [OF no_reply_trans [OF that no_reply_update(1)] no_reply_arp] by simp
  note via = no_reply_trans [OF no_reply_update(3) lease_new_no_reply] no_reply_trans [OF probe_no_reply no_reply_update(1)]
    no_reply_trans [OF no_reply_trans [OF probe_no_reply no_reply_update(5)] lease_new_no_reply]
  show ?thesis
    using assms Some
    by (auto simp: dhcpd_client_ip_address_lease_def Let_def bind_eq_Some_conv renew
        intro: via split: if_splits)
qed

section \<open>What a reply says\<close>

text \<open>
  A reply \<open>r\<close> to the message \<open>m\<close>, sent with \<open>k\<close> option bytes: a BOOTREPLY that keeps the
  client's transaction, flags, relay and hardware address, whose options the parser of this
  very program reads back as the given ones.
\<close>

definition reply_to :: "dhcp_message \<Rightarrow> (u8 \<times> u8 list) list \<Rightarrow> dhcp_message \<Rightarrow> nat \<Rightarrow> bool" where
  "reply_to m os r k \<longleftrightarrow> op r = BOOTREPLY \<and> xid r = xid m \<and> flags r = flags m
     \<and> giaddr r = giaddr m \<and> chaddr r = chaddr m \<and> magic_cookie r = DHCP_MAGIC_COOKIE
     \<and> k \<le> DHCP_OPTIONS_LENGTH \<and> take k (options r) = options_bytes os @ [DHCP_OPTION_END]
     \<and> (\<forall>q. parse_options r k None q = Inr (fold note_pair os q))"

lemma add_options_end:
  assumes wf: "msg_wf x" and os: "\<forall>cd \<in> set os. plain_option cd"
    and len: "length (options_bytes os) < DHCP_OPTIONS_LENGTH"
  shows "\<exists>opts p. add_options x None (os @ [(DHCP_OPTION_END, [])]) = Inr (x\<lparr>options := opts\<rparr>, p)
    \<and> ptr_index p = length (options_bytes os) + 1
    \<and> take (ptr_index p) opts = options_bytes os @ [DHCP_OPTION_END]
    \<and> (\<forall>q. parse_options (x\<lparr>options := opts\<rparr>) (ptr_index p) None q = Inr (fold note_pair os q))"
proof -
  let ?os = "os @ [(DHCP_OPTION_END, [])]"
  have e: "options_bytes ?os = options_bytes os @ [DHCP_OPTION_END]" by (simp add: option_bytes_def)
  have d: "\<forall>(code, data) \<in> set ?os. length data \<le> 255" using os by (auto simp: plain_option_def)
  have f: "ptr_index None + length (options_bytes ?os) \<le> DHCP_OPTIONS_LENGTH"
    using len by (simp add: option_bytes_def)
  obtain opts p where p: "add_options x None ?os = Inr (x\<lparr>options := opts\<rparr>, p)"
    "ptr_index p = ptr_index None + length (options_bytes ?os)" "length opts = DHCP_OPTIONS_LENGTH"
    "take (ptr_index p) opts = take (ptr_index None) (options x) @ options_bytes ?os"
    using add_options_ok [OF wf d f] by blast
  let ?r = "x\<lparr>options := opts\<rparr>"
  have k: "ptr_index p = length (options_bytes os) + 1" and t: "take (ptr_index p) opts = options_bytes os @ [DHCP_OPTION_END]"
    using p(2,4) e by simp_all
  have "parse_options ?r (ptr_index p) None q = Inr (fold note_pair os q)" for q
    using p(3) k t len os by (intro parse_options_bytes) (simp_all add: msg_wf_def)
  with p(1) k t show ?thesis by blast
qed

lemma reply_to_add:
  assumes wf: "msg_wf m" and os: "\<forall>cd \<in> set os. plain_option cd"
    and len: "length (options_bytes os) < DHCP_OPTIONS_LENGTH"
    and r: "options x = options m" "op x = BOOTREPLY" "xid x = xid m" "flags x = flags m"
      "giaddr x = giaddr m" "chaddr x = chaddr m" "magic_cookie x = DHCP_MAGIC_COOKIE"
  shows "\<exists>opts p. add_options x None (os @ [(DHCP_OPTION_END, [])]) = Inr (x\<lparr>options := opts\<rparr>, p)
    \<and> reply_to m os (x\<lparr>options := opts\<rparr>) (ptr_index p)"
proof -
  have wfx: "msg_wf x" using wf r(1) by (simp add: msg_wf_def)
  obtain opts p where p: "add_options x None (os @ [(DHCP_OPTION_END, [])]) = Inr (x\<lparr>options := opts\<rparr>, p)"
    "ptr_index p = length (options_bytes os) + 1"
    "take (ptr_index p) opts = options_bytes os @ [DHCP_OPTION_END]"
    "\<forall>q. parse_options (x\<lparr>options := opts\<rparr>) (ptr_index p) None q = Inr (fold note_pair os q)"
    using add_options_end [OF wfx os len] by blast
  then have "reply_to m os (x\<lparr>options := opts\<rparr>) (ptr_index p)"
    unfolding reply_to_def using r len by simp
  with p(1) show ?thesis by blast
qed

text \<open>The options of a lease reply, without the END that closes them.\<close>

definition lease_options :: "client_state \<Rightarrow> u8 list \<Rightarrow> ('w, 'z) dhcpd_scheme \<Rightarrow> (u8 \<times> u8 list) list" where
  "lease_options st params s = butlast (reply_options st params s)"

lemma reply_options_end: "reply_options st params s = lease_options st params s @ [(DHCP_OPTION_END, [])]"
  by (simp add: lease_options_def reply_options_def Let_def butlast_append)

lemma lease_options_plain: "\<forall>cd \<in> set (lease_options st params s). plain_option cd"
  by (auto simp: lease_options_def reply_options_def Let_def butlast_append plain_option_def le32_def le16_def)

lemma lease_options_length: "length (options_bytes (lease_options st params s)) \<le> 60"
  by (auto simp: lease_options_def reply_options_def Let_def butlast_append option_bytes_def le32_def le16_def)

lemma parse_options_server:
  "msg_type (fold note_pair (lease_options st params s) q) = (if st = CS_DISCOVER then DHCP_OFFER else DHCP_ACK)"
  "server_identifier (fold note_pair (lease_options st params s) q) = server_ip s"
  by (auto simp: lease_options_def reply_options_def Let_def butlast_append note_pair_def note_option_def)

text \<open>
  Both kinds of reply go out: the assertions of \<open>dhcp_option_add\<close> hold, whatever the client
  asked for.
\<close>

definition destination :: "dhcp_message \<Rightarrow> in_addr" where
  "destination r = (if ciaddr r \<noteq> 0 then ciaddr r else INADDR_BROADCAST)"

lemma reply_lease_sends:
  assumes "msg_wf m"
  shows "\<exists>r k. reply_lease st params m s = Inr (s\<lparr>events := events s @ [SendTo (destination r) r k]\<rparr>)
    \<and> reply_to m (lease_options st params s) r k
    \<and> yiaddr r = (if st = CS_INFORMING then 0 else yiaddr m)"
proof -
  let ?r = "if st = CS_DISCOVER then (reply_header m)\<lparr>ciaddr := 0\<rparr>
      else if st = CS_INFORMING then (reply_header m)\<lparr>yiaddr := 0\<rparr> else reply_header m"
  have len: "length (options_bytes (lease_options st params s)) < DHCP_OPTIONS_LENGTH"
    using lease_options_length [of st params s] by simp
  have r: "options ?r = options m" "op ?r = BOOTREPLY" "xid ?r = xid m" "flags ?r = flags m"
    "giaddr ?r = giaddr m" "chaddr ?r = chaddr m" "magic_cookie ?r = DHCP_MAGIC_COOKIE"
    by (simp_all add: reply_header_def)
  obtain opts p where p: "add_options ?r None (reply_options st params s) = Inr (?r\<lparr>options := opts\<rparr>, p)"
    "reply_to m (lease_options st params s) (?r\<lparr>options := opts\<rparr>) (ptr_index p)"
    unfolding reply_options_end using reply_to_add [OF assms lease_options_plain len r] by blast
  have "reply_lease st params m s
      = Inr (s\<lparr>events := events s @ [SendTo (destination (?r\<lparr>options := opts\<rparr>)) (?r\<lparr>options := opts\<rparr>) (ptr_index p)]\<rparr>)"
    unfolding reply_lease_def Let_def p(1)
    by (simp add: dhcpd_send_response_def destination_def)
  with p(2) show ?thesis by (intro exI conjI) (auto simp: reply_header_def)
qed

lemma nak_options_end: "nak_options s = [(DHCP_OPTION_DHCP_MESSAGE_TYPE, [6]),
    (DHCP_OPTION_SERVER_IDENTIFIER, le32 (server_ip s))] @ [(DHCP_OPTION_END, [])]"
  by (simp add: nak_options_def)

definition forget_lease :: "('w, 'y) kernel_scheme \<Rightarrow> mac_addr \<Rightarrow> ('w, 'z) dhcpd_scheme \<Rightarrow> ('w, 'z) dhcpd_scheme" where
  "forget_lease K a s = (case dhcp_client_lookup_by_mac a s of
     None \<Rightarrow> s | Some c \<Rightarrow> dhcp_client_update K c DHCP_IP_STATE_AVAILABLE 0 s)"

lemma forget_lease_no_reply: "no_reply s (forget_lease K a s)"
  by (simp add: forget_lease_def split: option.splits)

lemma reply_nak_sends:
  assumes "msg_wf m"
  shows "\<exists>r k. reply_nak K m s = Inr ((forget_lease K (chaddr m) s)
        \<lparr>events := events s @ [SendTo INADDR_BROADCAST r k]\<rparr>)
    \<and> reply_to m (butlast (nak_options s)) r k \<and> yiaddr r = 0 \<and> ciaddr r = 0"
proof -
  let ?r = "(reply_header m)\<lparr>ciaddr := 0, yiaddr := 0\<rparr>" and ?u = "forget_lease K (chaddr m) s"
  have u: "nak_options ?u = nak_options s" "events ?u = events s"
    using forget_lease_no_reply [of s K "chaddr m"]
    by (simp_all add: no_reply_def net_config_def nak_options_def forget_lease_def split: option.splits)
  obtain opts p where p: "add_options ?r None (nak_options s) = Inr (?r\<lparr>options := opts\<rparr>, p)"
    "reply_to m (butlast (nak_options s)) (?r\<lparr>options := opts\<rparr>) (ptr_index p)"
    using reply_to_add [where x = ?r and os = "butlast (nak_options s)", OF assms]
    by (auto simp: reply_header_def nak_options_def plain_option_def le32_def option_bytes_def)
  have "reply_nak K m s = Inr (?u\<lparr>events := events s @ [SendTo INADDR_BROADCAST (?r\<lparr>options := opts\<rparr>) (ptr_index p)]\<rparr>)"
    unfolding reply_nak_def Let_def forget_lease_def [symmetric] u(1) p(1)
    by (simp add: dhcpd_send_response_def u(2))
  with p(2) show ?thesis by (intro exI conjI) auto
qed

lemma pool_ok_forget:
  assumes "pool_ok s" "list_api_ok K"
  shows "pool_ok (forget_lease K a s)" "dom (binding (forget_lease K a s)) = dom (binding s)"
    "macs_unique s \<Longrightarrow> macs_unique (forget_lease K a s)"
proof -
  have *: "pool_ok (forget_lease K a s) \<and> dom (binding (forget_lease K a s)) = dom (binding s)
      \<and> (macs_unique s \<longrightarrow> macs_unique (forget_lease K a s))"
  proof (cases "dhcp_client_lookup_by_mac a s")
    case None
    then show ?thesis using assms by (simp add: forget_lease_def)
  next
    case (Some c)
    then have c: "c \<in> owners s" by (simp add: lookup_by_mac_Some)
    show ?thesis
      using assigned_frame [OF assms(2,1) c] Some by (simp add: forget_lease_def update_as_assign)
  qed
  then show "pool_ok (forget_lease K a s)" "dom (binding (forget_lease K a s)) = dom (binding s)"
    "macs_unique s \<Longrightarrow> macs_unique (forget_lease K a s)" by blast+
qed

section \<open>The handler as a whole\<close>

lemma parse_options_clamp: "parse_options m n p q = parse_options m (min n DHCP_OPTIONS_LENGTH) p q"
proof (induction m n p q rule: parse_options.induct)
  case (1 m n p q)
  have g: "dhcp_option_get_next m p (min n DHCP_OPTIONS_LENGTH) = dhcp_option_get_next m p n"
    by (simp add: dhcp_option_get_next_def)
  show ?case
  proof (cases "dhcp_option_get_next m p n")
    case (Inl e)
    then show ?thesis by (simp add: parse_options.simps [of m _ p] g)
  next
    case (Inr r)
    then show ?thesis
      using "1.IH" [OF Inr refl] by (simp add: parse_options.simps [of m _ p] g Let_def)
  qed
qed

lemma parse_received:
  assumes "msg_wf m" and "0 < n"
  obtains q where "parse_options m n None no_request = Inr q"
proof -
  have "\<exists>q. parse_options m (min n DHCP_OPTIONS_LENGTH) None no_request = Inr q"
    using assms by (intro parse_options_total) simp_all
  then show ?thesis using that parse_options_clamp [of m n None no_request] by auto
qed

lemma client_classify_facts:
  assumes "client_classify s m q = (st, rip, client, m')"
  shows "client = Some c \<Longrightarrow> c \<in> owners s"
    and "st \<noteq> CS_DECLINING \<Longrightarrow> m' = m"
  using assms
  by (auto simp: client_classify_def Let_def lookup_SomeD split: if_splits)

lemma client_release_frame:
  assumes api: "list_api_ok K" and ok: "pool_ok s" and owner: "\<And>c. client = Some c \<Longrightarrow> c \<in> owners s"
  shows "pool_ok (client_release K st client m s)"
    "dom (binding (client_release K st client m s)) = dom (binding s)"
    "macs_unique s \<Longrightarrow> macs_unique (client_release K st client m s)"
    "no_reply s (client_release K st client m s)"
proof -
  have *: "pool_ok (client_release K st client m s)
    \<and> dom (binding (client_release K st client m s)) = dom (binding s)
    \<and> (macs_unique s \<longrightarrow> macs_unique (client_release K st client m s))
    \<and> no_reply s (client_release K st client m s)"
  proof (cases client)
    case None
    then show ?thesis using ok by (simp add: client_release_def)
  next
    case (Some c)
    with owner have c: "c \<in> owners s" by simp
    note f = assigned_frame [OF api ok c]
    have "client_release K st client m s = client_assign K c
        (if ciaddr m = 0 then zero_mac else info_mac (infos s ! c))
        (if st = CS_DECLINING then DHCP_IP_STATE_UNAVAILABLE else DHCP_IP_STATE_AVAILABLE)
        (if st = CS_DECLINING then DHCPD_UNAVAILABLE_IP_PROBE_INTERVAL else 0) s"
      by (auto simp: Some client_release_def client_assign_def Let_def
          update_as_assign [unfolded client_assign_def, symmetric])
    then show ?thesis using f by (simp add: client_assign_def)
  qed
  then show "pool_ok (client_release K st client m s)"
    "dom (binding (client_release K st client m s)) = dom (binding s)"
    "macs_unique s \<Longrightarrow> macs_unique (client_release K st client m s)"
    "no_reply s (client_release K st client m s)" by blast+
qed

text \<open>
  A reply of the server \<open>sid\<close> to \<open>m\<close>, as it leaves: its options are a message type, OFFER,
  ACK or NAK, the server's address, and then what depends on the request.
\<close>

definition server_reply :: "in_addr \<Rightarrow> dhcp_message \<Rightarrow> dhcpd_event \<Rightarrow> bool" where
  "server_reply sid m e \<longleftrightarrow> (\<exists>r k ty os. e = SendTo (destination r) r k
     \<and> reply_to m ((DHCP_OPTION_DHCP_MESSAGE_TYPE, [ty]) # (DHCP_OPTION_SERVER_IDENTIFIER, le32 sid) # os) r k
     \<and> ty \<in> {2, 5, 6})"

lemma reply_to_yiaddr [simp]: "reply_to (m\<lparr>yiaddr := a\<rparr>) os r k = reply_to m os r k"
  by (simp add: reply_to_def)

lemma lease_options_head: "\<exists>os. lease_options st params s =
    (DHCP_OPTION_DHCP_MESSAGE_TYPE, [if st = CS_DISCOVER then 2 else 5])
    # (DHCP_OPTION_SERVER_IDENTIFIER, le32 (server_ip s)) # os"
  by (simp add: lease_options_def reply_options_def Let_def butlast_append)

lemma server_reply_lease:
  "reply_to m (lease_options st params s) r k \<Longrightarrow> server_reply (server_ip s) m (SendTo (destination r) r k)"
  using lease_options_head [of st params s] unfolding server_reply_def by fastforce

lemma server_reply_nak:
  assumes "reply_to m (butlast (nak_options s)) r k" and "ciaddr r = 0"
  shows "server_reply (server_ip s) m (SendTo INADDR_BROADCAST r k)"
proof -
  have "reply_to m ((DHCP_OPTION_DHCP_MESSAGE_TYPE, [6])
      # (DHCP_OPTION_SERVER_IDENTIFIER, le32 (server_ip s)) # []) r k"
    using assms(1) by (simp add: nak_options_def)
  moreover have "destination r = INADDR_BROADCAST" using assms(2) by (simp add: destination_def)
  ultimately show ?thesis unfolding server_reply_def
    by (intro exI [of _ r] exI [of _ k] exI [of _ "6 :: u8"] exI [of _ "[] :: (u8 \<times> u8 list) list"]) simp
qed

text \<open>\<open>s\<close> may become \<open>t\<close> by handling \<open>m\<close>: the account of one message.\<close>

definition handled :: "dhcp_message \<Rightarrow> ('w, 'z) dhcpd_scheme \<Rightarrow> ('w, 'z) dhcpd_scheme \<Rightarrow> bool" where
  "handled m s t \<longleftrightarrow> pool_ok t \<and> dom (binding t) = dom (binding s) \<and> (macs_unique s \<longrightarrow> macs_unique t)
     \<and> net_config t = net_config s
     \<and> (\<exists>arps rs. events t = events s @ arps @ rs \<and> (\<forall>e \<in> set arps. is_arp e) \<and> length rs \<le> 1
          \<and> (\<forall>e \<in> set rs. server_reply (server_ip s) m e))"

lemma handled_no_reply:
  assumes "no_reply s t" "pool_ok t" "dom (binding t) = dom (binding s)" "macs_unique s \<longrightarrow> macs_unique t"
  shows "handled m s t"
  using assms unfolding handled_def no_reply_def by force

lemma macs_unique_events [simp]: "macs_unique (s\<lparr>events := x\<rparr>) = macs_unique s"
  by (simp add: macs_unique_def owners_def)

lemma handled_then_sends:
  assumes "handled m s t" and n: "no_reply s t" and u: "no_reply t u" "pool_ok u"
    "dom (binding u) = dom (binding t)" "macs_unique t \<longrightarrow> macs_unique u"
    and e: "server_reply (server_ip s) m e"
  shows "handled m s (u\<lparr>events := events u @ [e]\<rparr>)"
proof -
  obtain evs where evs: "events u = events s @ evs" "\<forall>e \<in> set evs. is_arp e" "net_config u = net_config s"
    using no_reply_trans [OF n u(1)] unfolding no_reply_def by blast
  have "events (u\<lparr>events := events u @ [e]\<rparr>) = events s @ evs @ [e]" by (simp add: evs(1))
  moreover have "net_config (u\<lparr>events := events u @ [e]\<rparr>) = net_config s"
    using evs(3) by (simp add: net_config_def)
  moreover have "dom (binding t) = dom (binding s)" "macs_unique s \<longrightarrow> macs_unique t"
    using assms(1) by (simp_all add: handled_def)
  ultimately show ?thesis
    unfolding handled_def using u e evs(2)
    by (intro conjI exI [of _ evs] exI [of _ "[e]"]) simp_all
qed

lemma dhcpd_reply_handled:
  assumes api: "list_api_ok K" and wf: "msg_wf m" and h: "handled m s t" "no_reply s t"
  shows "\<exists>u. dhcpd_reply K st params (m\<lparr>yiaddr := a\<rparr>) t = Inr u \<and> handled m s u"
proof -
  let ?m = "m\<lparr>yiaddr := a\<rparr>"
  have wf': "msg_wf ?m" using wf by (simp add: msg_wf_def)
  have t: "pool_ok t" "server_ip t = server_ip s"
    using h by (simp_all add: handled_def net_config_def)
  consider (lease) "a \<noteq> INADDR_ANY" "a \<noteq> INADDR_BROADCAST" | (nak) "a = INADDR_BROADCAST" | (none) "a = INADDR_ANY"
    by blast
  then show ?thesis
  proof cases
    case lease
    obtain r k where r: "reply_lease st params ?m t = Inr (t\<lparr>events := events t @ [SendTo (destination r) r k]\<rparr>)"
      "reply_to ?m (lease_options st params t) r k"
      using reply_lease_sends [OF wf'] by blast
    have "server_reply (server_ip s) m (SendTo (destination r) r k)"
      using server_reply_lease [of m st params t] r(2) t(2) by simp
    then have "handled m s (t\<lparr>events := events t @ [SendTo (destination r) r k]\<rparr>)"
      by (rule handled_then_sends [OF h no_reply_refl t(1) refl imp_refl])
    with lease r(1) show ?thesis by (simp add: dhcpd_reply_def)
  next
    case nak
    let ?u = "forget_lease K (chaddr m) t"
    obtain r k where r: "reply_nak K ?m t = Inr (?u\<lparr>events := events t @ [SendTo INADDR_BROADCAST r k]\<rparr>)"
      "reply_to ?m (butlast (nak_options t)) r k" "ciaddr r = 0"
      using reply_nak_sends [OF wf', of K t] by auto
    have "server_reply (server_ip s) m (SendTo INADDR_BROADCAST r k)"
      using server_reply_nak [of m t] r(2,3) t(2) by simp
    moreover have "events ?u = events t" by (simp add: forget_lease_def split: option.split)
    ultimately have "handled m s (?u\<lparr>events := events t @ [SendTo INADDR_BROADCAST r k]\<rparr>)"
      using handled_then_sends [OF h forget_lease_no_reply pool_ok_forget(1,2), of K "chaddr m"]
        pool_ok_forget(3) t(1) api by metis
    with nak r(1) show ?thesis by (simp add: dhcpd_reply_def)
  next
    case none
    with h show ?thesis by (simp add: dhcpd_reply_def)
  qed
qed

lemma handler_runs:
  assumes api: "list_api_ok K" and pings: "pings_drain K" and ok: "pool_ok s"
    and wf: "msg_wf m" and n: "0 < n"
  shows "\<exists>t. dhcpd_handle_op_request K m n s = Some (Inr t) \<and> handled m s t"
proof -
  obtain q where q: "parse_options m n None no_request = Inr q"
    using wf n by (rule parse_received)
  obtain st rip client m' where c: "client_classify s m q = (st, rip, client, m')"
    using prod_cases4 by blast
  have run: "dhcpd_handle_op_request K m n s =
      (if st = CS_DECLINING \<or> st = CS_RELEASING then Some (Inr (client_release K st client m' s))
       else if st = CS_NONE then Some (Inr s)
       else if st = CS_PINGING then
         Some (dhcpd_reply K st (requested_params q) (m'\<lparr>yiaddr := rip\<rparr>) s)
       else do { (a, s) \<leftarrow> dhcpd_client_ip_address_lease K (chaddr m') rip (msg_type q) s;
                 Some (dhcpd_reply K st (requested_params q) (m'\<lparr>yiaddr := a\<rparr>) s) })"
    by (simp add: dhcpd_handle_op_request_def q c)
  have same: "handled m s s" using ok by (simp add: handled_no_reply)
  consider (release) "st = CS_DECLINING \<or> st = CS_RELEASING"
    | (none) "st = CS_NONE" | (ping) "st = CS_PINGING"
    | (lease) "st \<notin> {CS_DECLINING, CS_RELEASING, CS_NONE, CS_PINGING}" by blast
  then show ?thesis
  proof cases
    case release
    have "handled m s (client_release K st client m' s)"
      using client_release_frame [OF api ok client_classify_facts(1) [OF c]]
      by (intro handled_no_reply) simp_all
    with run release show ?thesis by simp
  next
    case none
    with run same show ?thesis by simp
  next
    case ping
    then have "m' = m" using client_classify_facts(2) [OF c] by simp
    then obtain u where "dhcpd_reply K st (requested_params q) (m'\<lparr>yiaddr := rip\<rparr>) s = Inr u" "handled m s u"
      using dhcpd_reply_handled [OF api wf same no_reply_refl] by blast
    with run ping show ?thesis by simp
  next
    case lease
    then have m': "m' = m" using client_classify_facts(2) [OF c] by simp
    obtain a t where t: "dhcpd_client_ip_address_lease K (chaddr m') rip (msg_type q) s = Some (a, t)"
      "pool_ok t" "lease_post (chaddr m') rip (msg_type q) (binding s) a (binding t)"
      using lease_total [OF api pings ok] by blast
    have st: "no_reply s t" using t(1) by (rule lease_no_reply)
    have "macs_unique s \<longrightarrow> macs_unique t"
      using lease_post_unique [OF t(3)] ok t(2) by (simp add: macs_unique_clients_unique)
    then have h: "handled m s t"
      using st t(2) lease_post_dom [OF t(3)] by (intro handled_no_reply) simp_all
    then obtain u where "dhcpd_reply K st (requested_params q) (m'\<lparr>yiaddr := a\<rparr>) t = Inr u" "handled m s u"
      using dhcpd_reply_handled [OF api wf h st] m' by blast
    with run lease t(1) show ?thesis by simp
  qed
qed

section \<open>Properties\<close>

text \<open>
  C1: Whatever message is received, the handler returns without a failed assertion and without
  an access outside the option array (also for a malformed option field), keeps the pool
  well-formed with the same addresses and every client on at most one address, and leaves the
  network configuration alone.
\<close>

theorem handler_safe:
  assumes "list_api_ok K" and "pings_drain K" and "pool_ok s" and "macs_unique s"
    and "msg_wf m" and "0 < n"
  shows "\<exists>t. dhcpd_handle_op_request K m n s = Some (Inr t) \<and> pool_ok t \<and> macs_unique t
    \<and> dom (binding t) = dom (binding s) \<and> net_config t = net_config s"
  using handler_runs [OF assms(1-3,5,6)] assms(4) unfolding handled_def by blast

text \<open>A DISCOVER of client b, and one whose option field consists of 0x35 only.\<close>

definition discover_msg :: dhcp_message where
  "discover_msg = \<lparr>op = BOOTREQUEST, htype = 1, hlen = 6, hops = 0, xid = 0x12345678, secs = 0,
     flags = 0, ciaddr = 0, yiaddr = 0, siaddr = 0, giaddr = 0, chaddr = client_b,
     padding = replicate 10 0, sname = replicate 64 0, boot_file = replicate 128 0,
     magic_cookie = DHCP_MAGIC_COOKIE, options = [53, 1, 1, 255] @ replicate 304 0\<rparr>"

definition malformed_msg :: dhcp_message where
  "malformed_msg = discover_msg\<lparr>options := replicate 308 0x35\<rparr>"

lemma discover_msg_wf: "msg_wf discover_msg" "msg_wf malformed_msg"
  by (simp_all add: msg_wf_def discover_msg_def malformed_msg_def)

theorem handler_safe_witness:
  "\<exists>t. dhcpd_handle_op_request quiet_kernel malformed_msg 308 two_pool = Some (Inr t)
    \<and> pool_ok t \<and> macs_unique t \<and> dom (binding t) = dom (binding two_pool)
    \<and> net_config t = net_config two_pool"
  by (rule handler_safe [OF quiet_kernel_ok two_pool_ok discover_msg_wf(2)]) simp

text \<open>
  C2: Every message is answered at most once, and an answer is a BOOTREPLY with the client's
  transaction, flags, relay and hardware address, sent to the address in its \<open>ciaddr\<close> or
  broadcast; its options end with END, fit the message, and the server's own option parser
  reads them back as OFFER, ACK or NAK of this server.
\<close>

theorem handler_replies:
  assumes "list_api_ok K" and "pings_drain K" and "pool_ok s" and "msg_wf m" and "0 < n"
  shows "\<exists>t arps rs. dhcpd_handle_op_request K m n s = Some (Inr t)
    \<and> events t = events s @ arps @ rs \<and> (\<forall>e \<in> set arps. is_arp e) \<and> length rs \<le> 1
    \<and> (\<forall>e \<in> set rs. server_reply (server_ip s) m e)"
  using handler_runs [OF assms] unfolding handled_def by blast

theorem handler_replies_witness:
  "\<exists>t arps rs. dhcpd_handle_op_request quiet_kernel discover_msg 4 two_pool = Some (Inr t)
    \<and> events t = events two_pool @ arps @ rs \<and> (\<forall>e \<in> set arps. is_arp e) \<and> length rs \<le> 1
    \<and> (\<forall>e \<in> set rs. server_reply (server_ip two_pool) discover_msg e)"
  by (rule handler_replies [OF quiet_kernel_ok two_pool_ok(1) discover_msg_wf(1)]) simp

text \<open>
  C32: Options written by \<open>dhcp_option_add\<close>, one call after the other and closed by END,
  are read back by the option parser exactly as written, in order, whatever fits the array.
\<close>

theorem options_round_trip:
  assumes "msg_wf m" and "\<forall>cd \<in> set os. plain_option cd"
    and "length (options_bytes os) < DHCP_OPTIONS_LENGTH"
  shows "\<exists>r p. add_options m None (os @ [(DHCP_OPTION_END, [])]) = Inr (r, p)
    \<and> parse_options r (ptr_index p) None q = Inr (fold note_pair os q)"
  using add_options_end [OF assms] by blast

theorem options_round_trip_witness:
  "\<exists>r p. add_options discover_msg None ([(53, [3]), (50, [10, 0, 0, 2])] @ [(DHCP_OPTION_END, [])]) = Inr (r, p)
    \<and> parse_options r (ptr_index p) None no_request
      = Inr (fold note_pair [(53, [3]), (50, [10, 0, 0, 2])] no_request)"
  by (rule options_round_trip [OF discover_msg_wf(1)]) (simp_all add: plain_option_def option_bytes_def)

end
