(* ===== verification/Dhcp_Daemon.thy ===== *)
theory Dhcp_Daemon
  imports Dhcp_Server
begin

text \<open>
  The server task around the handler: the traversal that releases expired leases, one turn of
  the receive loop \<open>dhcpd_listen\<close>, and \<open>dhcpd_start\<close>
  (modules/rtos/sw_services/dhcpd/FreeRTOS/dhcpd.c). The lemmas show which entries a traversal
  releases, where it runs off the list, and what the receive loop does with an error code.
\<close>

section \<open>Walking a list while it changes\<close>

text \<open>
  A \<open>ListItem_t *\<close> during a walk: the item of an entry, or the end marker of the circular
  list, which has no owner. \<open>listGET_NEXT\<close> looks at the list as it is at the time of the call.
\<close>

datatype cursor = At nat | AtEnd

fun head_cursor :: "list_item list \<Rightarrow> cursor" where
  "head_cursor [] = AtEnd"
| "head_cursor ((v, c) # its) = At c"

fun next_cursor :: "nat \<Rightarrow> list_item list \<Rightarrow> cursor" where
  "next_cursor c [] = AtEnd"
| "next_cursor c ((v, d) # its) = (if d = c then head_cursor its else next_cursor c its)"

fun item_value :: "nat \<Rightarrow> list_item list \<Rightarrow> u32" where
  "item_value c [] = 0"
| "item_value c ((v, d) # its) = (if d = c then v else item_value c its)"

section \<open>Releasing expired leases\<close>

definition set_state :: "nat \<Rightarrow> int \<Rightarrow> ('w, 'z) dhcpd_scheme \<Rightarrow> ('w, 'z) dhcpd_scheme" where
  "set_state c st s = s\<lparr>infos := (infos s)[c := (infos s ! c)\<lparr>info_state := st\<rparr>]\<rparr>"

text \<open>The body of the loop for the entry \<open>c\<close>.\<close>

definition expire_entry :: "('w, 'y) kernel_scheme \<Rightarrow> u32 \<Rightarrow> nat \<Rightarrow> ('w, 'z) dhcpd_scheme
    \<Rightarrow> ('w, 'z) dhcpd_scheme option" where
  "expire_entry K now c s =
     (let st = info_state (infos s ! c)
      in if item_value c (pool s) \<le> now then
           if st = DHCP_IP_STATE_LEASED \<or> st = DHCP_IP_STATE_OFFERED
           then Some (set_state c DHCP_IP_STATE_AVAILABLE s)
           else if st = DHCP_IP_STATE_UNAVAILABLE then
             do { (used, s) \<leftarrow> probe K c s;
                  Some (if used
                        then dhcp_client_update K c DHCP_IP_STATE_UNAVAILABLE
                               DHCPD_UNAVAILABLE_IP_PROBE_INTERVAL s
                        else set_state c DHCP_IP_STATE_AVAILABLE s) }
           else Some s
         else Some s)"

text \<open>
  The loop reads the list length at every turn. An entry must lie in the array, and the end
  marker has no owner to read.
\<close>

partial_function (option) expire_loop :: "('w, 'y) kernel_scheme \<Rightarrow> u32 \<Rightarrow> nat \<Rightarrow> cursor
    \<Rightarrow> ('w, 'z) dhcpd_scheme \<Rightarrow> ('w, 'z) dhcpd_scheme res option" where
  "expire_loop K now i item s =
     (if i < length (pool s) then
        (case item of
           AtEnd \<Rightarrow> Some (Inl OutOfBounds)
         | At c \<Rightarrow>
             if c < length (infos s) then
               do { s \<leftarrow> expire_entry K now c s;
                    expire_loop K now (Suc i) (next_cursor c (pool s)) s }
             else Some (Inl OutOfBounds))
      else Some (Inr s))"

definition dhcp_client_release_expired_leases :: "('w, 'y) kernel_scheme
    \<Rightarrow> ('w, 'z) dhcpd_scheme \<Rightarrow> ('w, 'z) dhcpd_scheme res option" where
  "dhcp_client_release_expired_leases K s =
     (let (now, w) = time_seconds K (net s)
      in expire_loop K now 0 (head_cursor (pool s)) (s\<lparr>net := w\<rparr>))"

subsection \<open>What is released\<close>

lemma next_cursor_nth:
  "distinct (map snd xs) \<Longrightarrow> i < length xs \<Longrightarrow>
    next_cursor (snd (xs ! i)) xs = (if Suc i < length xs then At (snd (xs ! Suc i)) else AtEnd)"
proof (induction xs arbitrary: i)
  case (Cons x xs)
  show ?case
  proof (cases i)
    case 0
    then show ?thesis by (cases x; cases xs; auto)
  next
    case (Suc j)
    then have "snd (xs ! j) \<in> snd ` set xs" using Cons.prems(2) by simp
    with Suc Cons show ?thesis by (cases x) (auto split: if_splits)
  qed
qed simp

lemma next_cursor_last: "c \<notin> snd ` set its \<Longrightarrow> next_cursor c (its @ [(v, c)]) = AtEnd"
  by (induction its) auto

lemma item_value_nth:
  "distinct (map snd xs) \<Longrightarrow> i < length xs \<Longrightarrow> item_value (snd (xs ! i)) xs = fst (xs ! i)"
proof (induction xs arbitrary: i)
  case (Cons x xs)
  show ?case
  proof (cases i)
    case 0
    then show ?thesis by (cases x) auto
  next
    case (Suc j)
    then have "snd (xs ! j) \<in> snd ` set xs" using Cons.prems(2) by simp
    with Suc Cons show ?thesis by (cases x) (auto split: if_splits)
  qed
qed simp

lemma head_cursor_nth: "head_cursor xs = (if xs = [] then AtEnd else At (snd (xs ! 0)))"
  by (cases xs rule: head_cursor.cases) auto

text \<open>The entry after the time \<open>now\<close>: an expired lease or offer is available again.\<close>

definition expired_info :: "u32 \<Rightarrow> u32 \<Rightarrow> dhcp_ip_info \<Rightarrow> dhcp_ip_info" where
  "expired_info now v e =
     (if v \<le> now \<and> info_state e \<in> {DHCP_IP_STATE_LEASED, DHCP_IP_STATE_OFFERED}
      then e\<lparr>info_state := DHCP_IP_STATE_AVAILABLE\<rparr> else e)"

fun expire_infos :: "u32 \<Rightarrow> list_item list \<Rightarrow> dhcp_ip_info list \<Rightarrow> dhcp_ip_info list" where
  "expire_infos now [] is = is"
| "expire_infos now ((v, c) # its) is = expire_infos now its (is[c := expired_info now v (is ! c)])"

lemma expire_infos_frame [simp]:
  "length (expire_infos now its is) = length is"
  "d \<notin> snd ` set its \<Longrightarrow> expire_infos now its is ! d = is ! d"
  by (induction now its "is" rule: expire_infos.induct) auto

lemma expire_infos_nth:
  "distinct (map snd its) \<Longrightarrow> (v, c) \<in> set its \<Longrightarrow> c < length is \<Longrightarrow>
    expire_infos now its is ! c = expired_info now v (is ! c)"
proof (induction now its "is" rule: expire_infos.induct)
  case (2 now w d its "is")
  then show ?case by (cases "c = d") (auto simp: image_iff intro: rev_image_eqI)
qed simp

text \<open>No address set aside is due for another probe.\<close>

definition no_probe_due :: "u32 \<Rightarrow> ('w, 'z) dhcpd_scheme \<Rightarrow> bool" where
  "no_probe_due now s \<longleftrightarrow>
     (\<forall>(v, c) \<in> set (pool s). v \<le> now \<longrightarrow> info_state (infos s ! c) \<noteq> DHCP_IP_STATE_UNAVAILABLE)"

lemma expire_entry_plain:
  assumes "item_value c (pool s) \<le> now \<longrightarrow> info_state (infos s ! c) \<noteq> DHCP_IP_STATE_UNAVAILABLE"
  shows "expire_entry K now c s =
    Some (s\<lparr>infos := (infos s)[c := expired_info now (item_value c (pool s)) (infos s ! c)]\<rparr>)"
  using assms by (simp add: expire_entry_def expired_info_def set_state_def Let_def)

lemma expire_loop_spec:
  assumes d: "distinct (map snd (pool s))" and arr: "\<forall>c \<in> owners s. c < length (infos s)"
    and probe: "no_probe_due now s" and i: "i \<le> length (pool s)"
  shows "expire_loop K now i (if i < length (pool s) then At (snd (pool s ! i)) else AtEnd)
      (s\<lparr>infos := expire_infos now (take i (pool s)) (infos s)\<rparr>)
    = Some (Inr (s\<lparr>infos := expire_infos now (pool s) (infos s)\<rparr>))"
  using i
proof (induction "length (pool s) - i" arbitrary: i)
  case 0
  then show ?case by (subst expire_loop.simps) simp
next
  case (Suc k)
  then have i: "i < length (pool s)" by simp
  let ?c = "snd (pool s ! i)" and ?v = "fst (pool s ! i)"
  let ?t = "s\<lparr>infos := expire_infos now (take i (pool s)) (infos s)\<rparr>"
  let ?u = "s\<lparr>infos := expire_infos now (take (Suc i) (pool s)) (infos s)\<rparr>"
  have c: "?c < length (infos s)" using arr i by (auto simp: owners_def)
  have "distinct (take (Suc i) (map snd (pool s)))" using d by simp
  then have fresh: "?c \<notin> snd ` set (take i (pool s))"
    using i by (simp add: take_Suc_conv_app_nth take_map)
  have val: "item_value ?c (pool s) = ?v" using d i by (rule item_value_nth)
  have app: "expire_infos now (xs @ [(v, d)]) is = (expire_infos now xs is)
      [d := expired_info now v (expire_infos now xs is ! d)]" for xs v d "is"
    by (induction now xs "is" rule: expire_infos.induct) simp_all
  have "pool s ! i = (?v, ?c)" by simp
  then have u: "expire_infos now (take (Suc i) (pool s)) (infos s) =
      (expire_infos now (take i (pool s)) (infos s))[?c := expired_info now ?v (infos s ! ?c)]"
    using app [of "take i (pool s)" ?v ?c "infos s"] fresh i
    by (simp add: take_Suc_conv_app_nth)
  have "pool s ! i \<in> set (pool s)" using i by simp
  then have "?v \<le> now \<longrightarrow> info_state (infos s ! ?c) \<noteq> DHCP_IP_STATE_UNAVAILABLE"
    using bspec [OF probe [unfolded no_probe_due_def]] by (simp add: case_prod_unfold)
  then have "expire_entry K now ?c ?t = Some ?u"
    by (subst expire_entry_plain) (simp_all add: val fresh u)
  then have "expire_loop K now i (At ?c) ?t
      = expire_loop K now (Suc i) (next_cursor ?c (pool s)) ?u"
    using i c by (subst expire_loop.simps) simp
  also have "next_cursor ?c (pool s) = (if Suc i < length (pool s) then At (snd (pool s ! Suc i)) else AtEnd)"
    using d i by (rule next_cursor_nth)
  also have "expire_loop K now (Suc i) \<dots> ?u = Some (Inr (s\<lparr>infos := expire_infos now (pool s) (infos s)\<rparr>))"
    using Suc.hyps(2) i by (intro Suc.hyps(1)) simp_all
  finally show ?case using i by simp
qed

lemma release_expired_spec:
  assumes ok: "pool_ok s" and t: "time_seconds K (net s) = (now, w)" and "no_probe_due now s"
  shows "dhcp_client_release_expired_leases K s =
    Some (Inr (s\<lparr>net := w, infos := expire_infos now (pool s) (infos s)\<rparr>))"
proof -
  have "expire_loop K now 0 (if 0 < length (pool s) then At (snd (pool s ! 0)) else AtEnd)
      ((s\<lparr>net := w\<rparr>)\<lparr>infos := expire_infos now (take 0 (pool s)) (infos s)\<rparr>)
    = Some (Inr (s\<lparr>net := w, infos := expire_infos now (pool s) (infos s)\<rparr>))"
    using expire_loop_spec [of "s\<lparr>net := w\<rparr>" now 0 K] pool_okD(2,3) [OF ok] assms(3)
    by (simp add: no_probe_due_def owners_def cong: if_cong)
  then show ?thesis
    by (simp add: dhcp_client_release_expired_leases_def t head_cursor_nth split: if_splits)
qed

lemma expired_binding:
  assumes ok: "pool_ok s" and c: "(v, c) \<in> set (pool s)"
  shows "expire_infos now (pool s) (infos s) ! c = expired_info now v (infos s ! c)"
  using assms pool_okD(2,3) [OF ok] by (intro expire_infos_nth) (force simp: owners_def)+

section \<open>Properties of the traversal\<close>

text \<open>
  As long as no address that was set aside is due for another probe, the traversal releases
  exactly the leases and offers whose time has passed: their entries become AVAILABLE and keep
  their client, every other entry and the order of the list stay as they are, and the pool
  invariant is kept.
\<close>

theorem expired_leases_released:
  assumes "pool_ok s" and "time_seconds K (net s) = (now, w)" and "no_probe_due now s"
  shows "\<exists>t. dhcp_client_release_expired_leases K s = Some (Inr t) \<and> pool_ok t \<and> pool t = pool s
    \<and> (\<forall>(v, c) \<in> set (pool s). infos t ! c =
         (if v \<le> now \<and> info_state (infos s ! c) \<in> {DHCP_IP_STATE_LEASED, DHCP_IP_STATE_OFFERED}
          then (infos s ! c)\<lparr>info_state := DHCP_IP_STATE_AVAILABLE\<rparr> else infos s ! c))"
proof -
  let ?t = "s\<lparr>net := w, infos := expire_infos now (pool s) (infos s)\<rparr>"
  have e: "infos ?t ! c = expired_info now v (infos s ! c)" if "(v, c) \<in> set (pool s)" for v c
    using expired_binding [OF assms(1) that] by simp
  then have "info_ip (infos ?t ! c) = info_ip (infos s ! c)" if "c \<in> owners s" for c
    using that by (auto simp: owners_def expired_info_def)
  moreover have "owners ?t = owners s" by (simp add: owners_def)
  ultimately have "pool_ok ?t"
    using assms(1) by (simp add: pool_ok_def inj_on_def)
  then show ?thesis
    using release_expired_spec [OF assms] e by (auto simp: expired_info_def)
qed

theorem expired_leases_released_witness:
  "\<exists>t. dhcp_client_release_expired_leases quiet_kernel two_pool = Some (Inr t) \<and> pool_ok t
    \<and> pool t = pool two_pool
    \<and> (\<forall>(v, c) \<in> set (pool two_pool). infos t ! c =
         (if v \<le> 1000 \<and> info_state (infos two_pool ! c) \<in> {DHCP_IP_STATE_LEASED, DHCP_IP_STATE_OFFERED}
          then (infos two_pool ! c)\<lparr>info_state := DHCP_IP_STATE_AVAILABLE\<rparr> else infos two_pool ! c))"
proof -
  have "time_seconds quiet_kernel (net two_pool) = (1000, ())" by (simp add: quiet_kernel_def)
  moreover have "no_probe_due 1000 two_pool" by (simp add: no_probe_due_def two_pool_def)
  ultimately show ?thesis by (rule expired_leases_released [OF two_pool_ok(1)])
qed

text \<open>
  If the first entry was set aside, its probe is due and its address still answers, the
  traversal runs off the list: reinserting the entry behind all others makes the next item the
  end marker while the loop expects more entries, and the owner of the end marker is read.
\<close>

theorem reprobe_runs_off_list:
  assumes api: "list_api_ok K" and ok: "pool_ok s"
    and p: "pool s = (v, c) # its" "its \<noteq> []"
    and st: "info_state (infos s ! c) = DHCP_IP_STATE_UNAVAILABLE" "v \<le> now"
    and t: "time_seconds K (net s) = (now, w)"
    and pr: "probe K c (s\<lparr>net := w\<rparr>) = Some (True, s\<lparr>net := w'\<rparr>)"
    and last: "\<forall>it \<in> set its. fst it \<le> fst (time_seconds K w') + DHCPD_UNAVAILABLE_IP_PROBE_INTERVAL"
  shows "dhcp_client_release_expired_leases K s = Some (Inl OutOfBounds)"
proof -
  let ?e = "fst (time_seconds K w') + DHCPD_UNAVAILABLE_IP_PROBE_INTERVAL"
  let ?u = "dhcp_client_update K c DHCP_IP_STATE_UNAVAILABLE DHCPD_UNAVAILABLE_IP_PROBE_INTERVAL (s\<lparr>net := w'\<rparr>)"
  have c: "c \<notin> snd ` set its" "c < length (infos s)"
    using pool_okD(2,3) [OF ok] p(1) by (auto simp: owners_def)
  then have rm: "uxListRemove K c (pool s) = its"
    using p(1) by (simp add: uxListRemove_filter [OF api]) (force intro: filter_True)
  have "sorted (map fst its)" using pool_okD(1) [OF ok] p(1) by simp
  then obtain ys zs where yz: "its = ys @ zs" "vListInsert K (?e, c) its = ys @ (?e, c) # zs"
    "\<forall>it \<in> set zs. ?e < fst it"
    using api unfolding list_api_ok_def by blast
  have "zs = []"
  proof (rule ccontr)
    assume "zs \<noteq> []"
    then have hd: "hd zs \<in> set zs" by simp
    with yz(3) have "?e < fst (hd zs)" by blast
    moreover have "fst (hd zs) \<le> ?e" using last yz(1) hd by simp
    ultimately show False by (simp add: leD)
  qed
  then have u: "pool ?u = its @ [(?e, c)]" using yz by (simp add: update_pool rm)
  have "next_cursor c (its @ [(?e, c)]) = AtEnd"
    using c(1) by (rule next_cursor_last)
  moreover have "expire_entry K now c (s\<lparr>net := w\<rparr>) = Some ?u"
    using p(1) st pr by (simp add: expire_entry_def)
  moreover have "1 < length (pool ?u)" using p(2) u by (cases its) simp_all
  ultimately show ?thesis
    using p(1) c(2) u
    by (simp add: dhcp_client_release_expired_leases_def t, subst expire_loop.simps)
       (simp, subst expire_loop.simps, simp)
qed

text \<open>A network on which every address has an ARP entry and answers every ping.\<close>

definition busy_kernel :: "unit kernel" where
  "busy_kernel = quiet_kernel\<lparr>eARPGetCacheEntry := (\<lambda>a w. (True, w)),
     ping_queue_receive := (\<lambda>w. (Some 1, w))\<rparr>"

lemma busy_kernel_ok: "list_api_ok busy_kernel"
  using quiet_kernel_ok(1) by (simp add: list_api_ok_def busy_kernel_def)

definition aside_pool :: "unit dhcpd" where
  "aside_pool = two_pool\<lparr>infos := (infos two_pool)[1 := (infos two_pool ! 1)
     \<lparr>info_state := DHCP_IP_STATE_UNAVAILABLE\<rparr>], pool := [(900, 1), (1200, 0)]\<rparr>"

lemma aside_pool_ok: "pool_ok aside_pool"
  by (simp add: pool_ok_def owners_def aside_pool_def two_pool_def inj_on_def)

theorem reprobe_runs_off_list_witness:
  "dhcp_client_release_expired_leases busy_kernel aside_pool = Some (Inl OutOfBounds)"
proof (rule reprobe_runs_off_list [OF busy_kernel_ok aside_pool_ok, where v = 900 and c = 1
      and its = "[(1200, 0)]" and now = 1000 and w = "()" and w' = "()"])
  show "probe busy_kernel 1 (aside_pool\<lparr>net := ()\<rparr>) = Some (True, aside_pool\<lparr>net := ()\<rparr>)"
    by (simp add: probe_def dhcpd_ip_address_in_use_def busy_kernel_def quiet_kernel_def
        numeral_2_eq_2 ping_wait.simps)
qed (simp_all add: aside_pool_def two_pool_def busy_kernel_def quiet_kernel_def)

section \<open>Starting the server\<close>

text \<open>The default configuration of api/dhcpd.h, as it lies in memory.\<close>

record dhcpd_config =
  cfg_server_ip :: in_addr
  cfg_pool_start :: in_addr
  cfg_pool_end :: in_addr
  cfg_netmask :: in_addr
  cfg_gateway :: in_addr
  cfg_dns0 :: in_addr
  cfg_dns1 :: in_addr

definition octets_to_ip :: "u8 \<Rightarrow> u8 \<Rightarrow> u8 \<Rightarrow> u8 \<Rightarrow> in_addr" where
  "octets_to_ip o0 o1 o2 o3 =
     push_bit 24 (ucast o3) OR push_bit 16 (ucast o2) OR push_bit 8 (ucast o1) OR ucast o0"

definition default_config :: dhcpd_config where
  "default_config = \<lparr>cfg_server_ip = octets_to_ip 10 0 0 1, cfg_pool_start = octets_to_ip 10 0 0 0,
     cfg_pool_end = octets_to_ip 10 0 0 10, cfg_netmask = octets_to_ip 255 0 0 0,
     cfg_gateway = octets_to_ip 10 0 0 1, cfg_dns0 = octets_to_ip 10 0 0 5, cfg_dns1 = octets_to_ip 10 0 0 6\<rparr>"

text \<open>
  \<open>dhcpd_start\<close> while no socket is open, up to the creation of the pool; the caller creates
  the lock, the queue, the socket and the task, which are kernel calls that are asserted to
  succeed.
\<close>

definition dhcpd_start :: "('w, 'y) kernel_scheme \<Rightarrow> dhcpd_config \<Rightarrow> ('w, 'z) dhcpd_scheme
    \<Rightarrow> ('w, 'z) dhcpd_scheme res option" where
  "dhcpd_start K cfg s =
     (let s = s\<lparr>server_ip := cfg_server_ip cfg, pool_start := cfg_pool_start cfg,
                pool_end := cfg_pool_end cfg, netmask := cfg_netmask cfg,
                gateway := cfg_gateway cfg, dns0 := cfg_dns0 cfg, dns1 := cfg_dns1 cfg\<rparr>
      in case rbind (c_assert (netmask_valid (netmask s))) (\<lambda>_.
              rbind (c_assert (ip_netmask_compare (gateway s) (pool_start s) (netmask s))) (\<lambda>_.
              rbind (c_assert (ip_netmask_compare (pool_start s) (pool_end s) (netmask s))) (\<lambda>_.
              c_assert (ntohl (pool_start s) \<le> ntohl (pool_end s))))) of
           Inl e \<Rightarrow> Some (Inl e)
         | Inr _ \<Rightarrow> map_option Inr (dhcpd_ip_pool_init K s))"

lemma usable_from_range:
  assumes "v \<in> set (usable_from s u)"
  shows "u \<le> v" "v \<le> ntohl (pool_end s)" "usable s v"
proof -
  from assms obtain n where n: "v = word_of_nat n" "unat u \<le> n" "n \<le> unat (ntohl (pool_end s))"
    and "usable s v" by (auto simp: usable_from_def simp del: upt_Suc)
  then show "usable s v" by simp
  have "n < 2 ^ 32" using n(3) unsigned_less [of "ntohl (pool_end s)", where ?'a = nat] by simp
  then have "unat v = n" by (simp add: n(1) unat_of_nat take_bit_nat_eq_self)
  with n(2,3) show "u \<le> v" "v \<le> ntohl (pool_end s)" by (simp_all add: word_le_nat_alt)
qed

lemma start_run:
  fixes K :: "('w, 'y) kernel_scheme"
  assumes "list_api_ok K" and "cfg_server_ip cfg = sip" and "ntohl (cfg_pool_end cfg) < 0xFFFFFFFF"
    and "netmask_valid (cfg_netmask cfg)"
    and "ip_netmask_compare (cfg_gateway cfg) (cfg_pool_start cfg) (cfg_netmask cfg)"
    and "ip_netmask_compare (cfg_pool_start cfg) (cfg_pool_end cfg) (cfg_netmask cfg)"
    and "ntohl (cfg_pool_start cfg) \<le> ntohl (cfg_pool_end cfg)"
  shows "\<exists>t. dhcpd_start K cfg (s :: ('w, 'z) dhcpd_scheme) = Some (Inr t) \<and> pool_ok t \<and> macs_unique t
    \<and> (\<forall>a st k. binding t a = Some (st, k) \<longrightarrow> st = DHCP_IP_STATE_AVAILABLE \<and> k = zero_mac
         \<and> ntohl (cfg_pool_start cfg) \<le> ntohl a \<and> ntohl a \<le> ntohl (cfg_pool_end cfg)
         \<and> a \<notin> {sip, cfg_gateway cfg, cfg_dns0 cfg, cfg_dns1 cfg})"
proof -
  let ?s = "s\<lparr>server_ip := cfg_server_ip cfg, pool_start := cfg_pool_start cfg,
    pool_end := cfg_pool_end cfg, netmask := cfg_netmask cfg, gateway := cfg_gateway cfg,
    dns0 := cfg_dns0 cfg, dns1 := cfg_dns1 cfg\<rparr>"
  have r: "range_ok ?s" using assms by (simp add: range_ok_def)
  obtain t where t: "dhcpd_ip_pool_init K ?s = Some t" "pool_ok t" "macs_unique t"
    and b: "\<And>a. binding t a = (if ntohl a \<in> set (take (unat (ntohl (pool_end ?s) - ntohl (pool_start ?s)))
        (usable_from ?s (ntohl (pool_start ?s)))) then Some (DHCP_IP_STATE_AVAILABLE, zero_mac) else None)"
    using pool_init_spec [OF assms(1) r] by blast
  have u: "ntohl (cfg_pool_start cfg) \<le> v \<and> v \<le> ntohl (cfg_pool_end cfg) \<and> usable ?s v"
    if "v \<in> set (usable_from ?s (ntohl (cfg_pool_start cfg)))" for v
    using that usable_from_range [of v ?s "ntohl (cfg_pool_start cfg)"] by simp
  have "st = DHCP_IP_STATE_AVAILABLE \<and> k = zero_mac
      \<and> ntohl (cfg_pool_start cfg) \<le> ntohl a \<and> ntohl a \<le> ntohl (cfg_pool_end cfg)
      \<and> a \<notin> {sip, cfg_gateway cfg, cfg_dns0 cfg, cfg_dns1 cfg}"
    if "binding t a = Some (st, k)" for a st k
  proof -
    have "ntohl a \<in> set (usable_from ?s (ntohl (cfg_pool_start cfg)))" "st = DHCP_IP_STATE_AVAILABLE" "k = zero_mac"
      using that b [of a] by (auto split: if_splits dest: in_set_takeD)
    with u [of "ntohl a"] assms(2) show ?thesis
      by (auto simp: usable_def skip_address_def)
  qed
  moreover have "dhcpd_start K cfg s = Some (Inr t)"
    using assms(4-7) t(1) by (simp add: dhcpd_start_def Let_def)
  ultimately show ?thesis using t by blast
qed

text \<open>
  With a configuration that passes its assertions, the server starts with a well-formed pool
  in which every address is available, inside the configured range, and none is the address
  of the server, the gateway or a name server.
\<close>

theorem start_builds_pool:
  assumes "list_api_ok K" and "ntohl (cfg_pool_end cfg) < 0xFFFFFFFF"
    and "netmask_valid (cfg_netmask cfg)"
    and "ip_netmask_compare (cfg_gateway cfg) (cfg_pool_start cfg) (cfg_netmask cfg)"
    and "ip_netmask_compare (cfg_pool_start cfg) (cfg_pool_end cfg) (cfg_netmask cfg)"
    and "ntohl (cfg_pool_start cfg) \<le> ntohl (cfg_pool_end cfg)"
  shows "\<exists>t. dhcpd_start K cfg s = Some (Inr t) \<and> pool_ok t \<and> macs_unique t
    \<and> (\<forall>a st k. binding t a = Some (st, k) \<longrightarrow> st = DHCP_IP_STATE_AVAILABLE \<and> k = zero_mac
         \<and> ntohl (cfg_pool_start cfg) \<le> ntohl a \<and> ntohl a \<le> ntohl (cfg_pool_end cfg)
         \<and> a \<notin> {cfg_server_ip cfg, cfg_gateway cfg, cfg_dns0 cfg, cfg_dns1 cfg})"
  by (rule start_run [OF assms(1) refl assms(2-6)])

lemma default_config_ok:
  "ntohl (cfg_pool_end default_config) < 0xFFFFFFFF"
  "netmask_valid (cfg_netmask default_config)"
  "ip_netmask_compare (cfg_gateway default_config) (cfg_pool_start default_config) (cfg_netmask default_config)"
  "ip_netmask_compare (cfg_pool_start default_config) (cfg_pool_end default_config) (cfg_netmask default_config)"
  "ntohl (cfg_pool_start default_config) \<le> ntohl (cfg_pool_end default_config)"
  by code_simp+

theorem start_builds_pool_witness:
  "\<exists>t. dhcpd_start quiet_kernel default_config two_pool = Some (Inr t) \<and> pool_ok t \<and> macs_unique t
    \<and> (\<forall>a st k. binding t a = Some (st, k) \<longrightarrow> st = DHCP_IP_STATE_AVAILABLE \<and> k = zero_mac
         \<and> ntohl (cfg_pool_start default_config) \<le> ntohl a \<and> ntohl a \<le> ntohl (cfg_pool_end default_config)
         \<and> a \<notin> {cfg_server_ip default_config, cfg_gateway default_config,
                  cfg_dns0 default_config, cfg_dns1 default_config})"
  by (rule start_builds_pool [OF quiet_kernel_ok(1) default_config_ok])

section \<open>The receive loop\<close>

text \<open>
  \<open>recvfrom\<close> gets the present content of the buffer and returns a byte count or a negative
  error code, and the buffer. \<open>errno_EINTR\<close> is \<open>pdFREERTOS_ERRNO_EINTR\<close>, \<open>recv_timeout\<close>
  the refresh interval in ticks.
\<close>

record 'w socket_api =
  recvfrom :: "dhcp_message \<Rightarrow> 'w \<Rightarrow> int \<times> dhcp_message \<times> 'w"
  xTaskGetTickCount :: "'w \<Rightarrow> u32 \<times> 'w"
  errno_EINTR :: int
  recv_timeout :: u32

record 'w daemon = "'w dhcpd" +
  dhcpd_socket :: int
  last_timeout :: u32

text \<open>\<open>sizeof\<close> the fixed header is 240; the smallest message has four option bytes.\<close>

abbreviation (input) "DHCP_HEADER_LENGTH \<equiv> (240 :: u32)"
abbreviation (input) "DHCP_REQUEST_MIN_LENGTH \<equiv> (244 :: u32)"

text \<open>
  What is done with the result of \<open>recvfrom\<close>. The comparison with the minimum length is
  unsigned, because \<open>sizeof\<close> is. The array that \<open>vPortFree\<close> releases is empty afterwards:
  its entries, and with them the list items, can not be accessed any more.
\<close>

definition dhcpd_dispatch :: "('w, 'y) kernel_scheme \<Rightarrow> ('w, 'x) socket_api_scheme \<Rightarrow> int \<Rightarrow> dhcp_message
    \<Rightarrow> ('w, 'z) daemon_scheme \<Rightarrow> ('w, 'z) daemon_scheme res option" where
  "dhcpd_dispatch K S ret m s =
     (if ret = - errno_EINTR S then Some (Inr (s\<lparr>infos := [], dhcpd_socket := -1\<rparr>))
      else if DHCP_REQUEST_MIN_LENGTH \<le> word_of_int ret \<and> op m = BOOTREQUEST
      then dhcpd_handle_op_request K m (unat (word_of_int ret - DHCP_HEADER_LENGTH)) s
      else Some (Inr s))"

definition listen_turn :: "('w, 'y) kernel_scheme \<Rightarrow> ('w, 'x) socket_api_scheme \<Rightarrow> dhcp_message
    \<Rightarrow> ('w, 'z) daemon_scheme \<Rightarrow> (dhcp_message \<times> ('w, 'z) daemon_scheme) res option" where
  "listen_turn K S buf s =
     (let (ret, m, w) = recvfrom S buf (net s)
      in do { r \<leftarrow> dhcpd_dispatch K S ret m (s\<lparr>net := w\<rparr>);
              case r of
                Inl e \<Rightarrow> Some (Inl e)
              | Inr s \<Rightarrow>
                  let (now, w) = xTaskGetTickCount S (net s); s = s\<lparr>net := w\<rparr>
                  in if last_timeout s + recv_timeout S \<le> now
                     then map_option (\<lambda>r. rbind r (\<lambda>s. Inr (m, s)))
                            (dhcp_client_release_expired_leases K (s\<lparr>last_timeout := now\<rparr>))
                     else Some (Inr (m, s)) })"

partial_function (option) dhcpd_listen :: "('w, 'y) kernel_scheme \<Rightarrow> ('w, 'x) socket_api_scheme
    \<Rightarrow> dhcp_message \<Rightarrow> ('w, 'z) daemon_scheme \<Rightarrow> ('w, 'z) daemon_scheme res option" where
  "dhcpd_listen K S buf s =
     (if dhcpd_socket s \<noteq> -1 then
        do { r \<leftarrow> listen_turn K S buf s;
             case r of Inl e \<Rightarrow> Some (Inl e) | Inr (buf, s) \<Rightarrow> dhcpd_listen K S buf s }
      else Some (Inr s))"

lemma dispatch_negative:
  assumes "ret < 0" "- (2 ^ 31) \<le> ret"
  shows "DHCP_REQUEST_MIN_LENGTH \<le> word_of_int ret"
    and "DHCP_OPTIONS_LENGTH < unat (word_of_int ret - DHCP_HEADER_LENGTH)"
proof -
  have "ret mod 2 ^ 32 = (ret + 2 ^ 32) mod 2 ^ 32" by (simp only: mod_add_self2)
  also have "\<dots> = ret + 2 ^ 32" using assms by (intro mod_pos_pos_trivial) simp_all
  finally have "uint (word_of_int ret :: u32) = ret + 2 ^ 32" by (simp add: uint_word_of_int)
  then have u: "2 ^ 31 \<le> unat (word_of_int ret :: u32)" using assms
    by (simp add: nat_uint_eq [symmetric] nat_le_eq_zle del: nat_uint_eq)
  then show "DHCP_REQUEST_MIN_LENGTH \<le> word_of_int ret" by (simp add: word_le_nat_alt)
  from u show "DHCP_OPTIONS_LENGTH < unat (word_of_int ret - DHCP_HEADER_LENGTH)"
    by (simp add: unat_sub_if' word_le_nat_alt)
qed

text \<open>
  An error code of \<open>recvfrom\<close>, a time-out for instance, passes the unsigned test of the
  minimum length: if the buffer still holds a request, it is handled once more, with all bytes
  of its option array.
\<close>

theorem error_code_is_handled:
  assumes "ret < 0" and "- (2 ^ 31) \<le> ret" and "ret \<noteq> - errno_EINTR S" and "op m = BOOTREQUEST"
  shows "\<exists>n > DHCP_OPTIONS_LENGTH. dhcpd_dispatch K S ret m s = dhcpd_handle_op_request K m n s"
  using assms dispatch_negative [OF assms(1,2)]
  by (intro exI [of _ "unat (word_of_int ret - DHCP_HEADER_LENGTH)"]) (simp add: dhcpd_dispatch_def)

definition daemon_of :: "unit dhcpd \<Rightarrow> unit daemon" where
  "daemon_of s = dhcpd.extend s \<lparr>dhcpd_socket = 1, last_timeout = 0\<rparr>"

text \<open>A socket that is interrupted at once (4), when the refresh interval has passed.\<close>

definition interrupted :: "unit socket_api" where
  "interrupted = \<lparr>recvfrom = (\<lambda>m w. (-4, m, w)), xTaskGetTickCount = (\<lambda>w. (70000, w)),
     errno_EINTR = 4, recv_timeout = 60000\<rparr>"

theorem error_code_is_handled_witness:
  "\<exists>n > 308. dhcpd_dispatch quiet_kernel interrupted (-11) discover_msg (daemon_of two_pool)
    = dhcpd_handle_op_request quiet_kernel discover_msg n (daemon_of two_pool)"
  by (rule error_code_is_handled) (simp_all add: interrupted_def discover_msg_def)

lemma freed_pool_access:
  assumes "pool s \<noteq> []" and "infos s = []"
  shows "dhcp_client_release_expired_leases K s = Some (Inl OutOfBounds)"
proof -
  obtain v c its where "pool s = (v, c) # its" using assms(1) by (cases "pool s") auto
  with assms(2) show ?thesis
    by (simp add: dhcp_client_release_expired_leases_def expire_loop.simps split: prod.split)
qed

text \<open>
  If the server is stopped when the refresh interval has passed, the turn of the loop that
  frees the entries goes on to traverse the pool: a freed entry is accessed.
\<close>

theorem stop_traverses_freed_pool:
  assumes "recvfrom S buf (net s) = (- errno_EINTR S, m, w)"
    and "xTaskGetTickCount S w = (now, w')" and "last_timeout s + recv_timeout S \<le> now"
    and "pool s \<noteq> []"
  shows "listen_turn K S buf s = Some (Inl OutOfBounds)"
proof -
  let ?u = "s\<lparr>infos := [], dhcpd_socket := -1, net := w', last_timeout := now\<rparr>"
  have "dhcp_client_release_expired_leases K ?u = Some (Inl OutOfBounds)"
    using assms(4) by (intro freed_pool_access) simp_all
  with assms(1-3) show ?thesis
    by (simp add: listen_turn_def dhcpd_dispatch_def Let_def)
qed

theorem stop_traverses_freed_pool_witness:
  "listen_turn quiet_kernel interrupted discover_msg (daemon_of two_pool) = Some (Inl OutOfBounds)"
  by (rule stop_traverses_freed_pool [where w = "()" and w' = "()" and now = 70000])
     (simp_all add: interrupted_def daemon_of_def two_pool_def dhcpd.defs)

end
