(* ===== verification/Rtos_Printf.thy ===== *)
theory Rtos_Printf
  imports Prelude
begin

text \<open>
  The formatted output of rtos_support (modules/rtos/rtos_support/src/rtos_printf.c), as it is
  compiled for the 32-bit xcore (no \<open>LONG64\<close>, no \<open>POINTER64\<close>). A C string is the list of
  its characters before the NUL; \<open>ctrl\<close> is the rest of the format, and reading behind its NUL
  is \<open>Inl OutOfBounds\<close>. \<open>params_t\<close> is split into the output (\<open>sink\<close>) and the fields
  of the current conversion (\<open>field\<close>). The lemmas relate the three ways to output, buffer,
  bounded buffer and stdout, to one text of the format, and say what the text of a number is.
\<close>

section \<open>The output\<close>

record sink =
  sk_size :: nat
  sk_pos :: nat
  sk_str :: string
  sk_writeout :: bool
  sk_stdout :: string  \<comment> \<open>what \<open>_write\<close> was given so far\<close>

text \<open>A store to \<open>str[pos]\<close>.\<close>

definition put_char :: "char \<Rightarrow> sink \<Rightarrow> sink res" where
  "put_char b k = (if sk_pos k < length (sk_str k)
     then Inr (k\<lparr>sk_str := (sk_str k)[sk_pos k := b]\<rparr>) else Inl OutOfBounds)"

definition outbyte :: "char \<Rightarrow> sink \<Rightarrow> sink res" where
  "outbyte b k =
     rbind (if sk_pos k < sk_size k then put_char b k else Inr k) (\<lambda>k.
     let k = k\<lparr>sk_pos := sk_pos k + 1\<rparr>
     in Inr (if sk_writeout k \<and> sk_pos k \<ge> sk_size k
             then k\<lparr>sk_stdout := sk_stdout k @ take (sk_size k) (sk_str k), sk_pos := 0\<rparr>
             else k))"

fun outbytes :: "string \<Rightarrow> sink \<Rightarrow> sink res" where
  "outbytes [] k = Inr k"
| "outbytes (c # cs) k = rbind (outbyte c k) (outbytes cs)"

section \<open>One conversion\<close>

record field =
  len :: "32 word"
  num1 :: "32 word"
  num2 :: "32 word"
  do_padding :: bool
  left_flag :: bool
  unsigned_flag :: bool
  pad_character :: char

definition init_field :: field where
  "init_field = \<lparr>len = 0, num1 = 0, num2 = 32767, do_padding = False, left_flag = False,
     unsigned_flag = False, pad_character = CHR '' ''\<rparr>"

text \<open>The number of turns of the loop in \<open>padding\<close>, and its output.\<close>

definition pad_count :: "field \<Rightarrow> nat" where
  "pad_count f = nat (sint (num1 f) - sint (len f))"

definition padding :: "bool \<Rightarrow> field \<Rightarrow> sink \<Rightarrow> sink res" where
  "padding l_flag f k =
     (if do_padding f \<and> l_flag \<and> sint (len f) < sint (num1 f)
      then outbytes (replicate (pad_count f) (pad_character f)) k else Inr k)"

text \<open>\<open>outs\<close>: the precision \<open>num2\<close> bounds the characters that are moved.\<close>

fun outs_move :: "string \<Rightarrow> 32 word \<Rightarrow> sink \<Rightarrow> sink res" where
  "outs_move [] n k = Inr k"
| "outs_move (c # lp) n k =
     (if n \<noteq> 0 then rbind (outbyte c k) (outs_move lp (n - 1)) else Inr k)"

definition outs :: "string option \<Rightarrow> field \<Rightarrow> sink \<Rightarrow> sink res" where
  "outs lp f k =
     (let f = (case lp of None \<Rightarrow> f | Some s \<Rightarrow> f\<lparr>len := of_nat (length s)\<rparr>)
      in rbind (padding (\<not> left_flag f) f k) (\<lambda>k.
         rbind (case lp of None \<Rightarrow> Inl NullDeref | Some s \<Rightarrow> outs_move s (num2 f) k) (\<lambda>k.
         padding (left_flag f) f k)))"

definition digit_chars :: string where
  "digit_chars = ''0123456789ABCDEF''"

text \<open>
  The do-while loop fills \<open>outbuf\<close> backwards; its first argument is the space left of the 32
  characters.
\<close>

fun num_digits :: "nat \<Rightarrow> u32 \<Rightarrow> u32 \<Rightarrow> string res" where
  "num_digits 0 n base = Inl OutOfBounds"
| "num_digits (Suc room) n base =
     (let d = digit_chars ! unat (n mod base); n = n div base
      in if n > 0 then rbind (num_digits room n base) (\<lambda>ds. Inr (d # ds)) else Inr [d])"

text \<open>The content of \<open>outbuf\<close> before its NUL, which needs a place of its own.\<close>

definition num_outbuf :: "32 word \<Rightarrow> u32 \<Rightarrow> field \<Rightarrow> string res" where
  "num_outbuf n base f =
     (let negative = (\<not> unsigned_flag f \<and> base = 10 \<and> sint n < 0);
          num = (if negative then - n else n)
      in rbind (num_digits 32 num base) (\<lambda>ds.
         let outbuf = (if negative then ds @ ''-'' else ds)
         in if length outbuf < 32 then Inr outbuf else Inl OutOfBounds))"

definition outnum :: "32 word \<Rightarrow> u32 \<Rightarrow> field \<Rightarrow> sink \<Rightarrow> sink res" where
  "outnum n base f k =
     rbind (num_outbuf n base f) (\<lambda>outbuf.
     let f = f\<lparr>len := of_nat (length outbuf)\<rparr>
     in rbind (padding (\<not> left_flag f) f k) (\<lambda>k.
        rbind (outbytes (rev outbuf) k) (\<lambda>k.
        padding (left_flag f) f k)))"

section \<open>The format\<close>

definition isdigit :: "char \<Rightarrow> bool" where
  "isdigit c = (48 \<le> (of_char c :: nat) \<and> (of_char c :: nat) \<le> 57)"

definition tolower :: "char \<Rightarrow> char" where
  "tolower c = (let n = (of_char c :: nat) in if 65 \<le> n \<and> n \<le> 90 then char_of (n + 32) else c)"

text \<open>\<open>getnum\<close>: the number, and the first character that is not a digit.\<close>

fun getnum :: "string \<Rightarrow> 32 word \<Rightarrow> 32 word \<times> string" where
  "getnum [] n = (n, [])"
| "getnum (c # cs) n = (if isdigit c then getnum cs (n * 10 + (of_nat (of_char c) - 48)) else (n, c # cs))"

text \<open>The variable arguments.\<close>

datatype va = ArgInt "32 word" | ArgStr "string option"

fun va_int :: "va list \<Rightarrow> (32 word \<times> va list) res" where
  "va_int (ArgInt n # ap) = Inr (n, ap)"
| "va_int ap = Inl BadVarArg"

fun va_str :: "va list \<Rightarrow> (string option \<times> va list) res" where
  "va_str (ArgStr s # ap) = Inr (s, ap)"
| "va_str ap = Inl BadVarArg"

text \<open>The inner switch of the backslash case, on \<open>*ctrl\<close>.\<close>

definition escape_bytes :: "char \<Rightarrow> string" where
  "escape_bytes c =
     (if c = CHR ''a'' then [CHR 0x07] else if c = CHR ''h'' then [CHR 0x08]
      else if c = CHR ''r'' then [CHR 0x0D] else if c = CHR ''n'' then [CHR 0x0D, CHR 0x0A]
      else [c])"

lemma getnum_shorter: "length (snd (getnum cs n)) \<le> length cs"
  by (induction cs n rule: getnum.induct) (auto simp: le_SucI)

lemma getnum_rest: "(m, rest) = getnum cs n \<Longrightarrow> length rest \<le> length cs"
  by (metis getnum_shorter snd_conv)

text \<open>
  From \<open>try_next\<close> on, \<open>ch\<close> being the character read there: the result is \<open>ctrl\<close> where
  the outer loop goes on, the arguments left and the output. At the NUL of the format the
  default case moves \<open>ctrl\<close> behind it, where the outer loop then reads.
\<close>

function try_next :: "string \<Rightarrow> va list \<Rightarrow> bool \<Rightarrow> field \<Rightarrow> sink \<Rightarrow> (string \<times> va list \<times> sink) res" where
  "try_next [] ap dot_flag f k = Inl OutOfBounds"
| "try_next (ch # ctrl) ap dot_flag f k =
     (if isdigit ch then
        (if dot_flag then
           let (n, rest) = getnum (ch # ctrl) 0 in try_next rest ap dot_flag (f\<lparr>num2 := n\<rparr>) k
         else
           let f = (if ch = CHR ''0'' then f\<lparr>pad_character := CHR ''0''\<rparr> else f);
               (n, rest) = getnum (ch # ctrl) 0
           in try_next rest ap dot_flag (f\<lparr>num1 := n, do_padding := True\<rparr>) k)
      else if dot_flag \<and> ch = CHR ''*'' then
        rbind (va_int ap) (\<lambda>(n, ap). try_next ctrl ap dot_flag (f\<lparr>num2 := n\<rparr>) k)
      else let c = tolower ch in
        if c = CHR ''%'' then rbind (outbyte (CHR ''%'') k) (\<lambda>k. Inr (ctrl, ap, k))
        else if c = CHR ''-'' then try_next ctrl ap dot_flag (f\<lparr>left_flag := True\<rparr>) k
        else if c = CHR ''.'' then try_next ctrl ap True f k
        else if c = CHR ''l'' then try_next ctrl ap dot_flag f k
        else if c = CHR ''u'' then
          rbind (va_int ap) (\<lambda>(n, ap).
          rbind (outnum n 10 (f\<lparr>unsigned_flag := True\<rparr>) k) (\<lambda>k. Inr (ctrl, ap, k)))
        else if c = CHR ''i'' \<or> c = CHR ''d'' then
          rbind (va_int ap) (\<lambda>(n, ap). rbind (outnum n 10 f k) (\<lambda>k. Inr (ctrl, ap, k)))
        else if c = CHR ''p'' \<or> c = CHR ''x'' then
          rbind (va_int ap) (\<lambda>(n, ap).
          rbind (outnum n 16 (f\<lparr>unsigned_flag := True\<rparr>) k) (\<lambda>k. Inr (ctrl, ap, k)))
        else if c = CHR ''s'' then
          rbind (va_str ap) (\<lambda>(s, ap). rbind (outs s f k) (\<lambda>k. Inr (ctrl, ap, k)))
        else if c = CHR ''c'' then
          rbind (va_int ap) (\<lambda>(n, ap).
          rbind (outbyte (char_of (unat n)) k) (\<lambda>k. Inr (ctrl, ap, k)))
        else if c = CHR 0x5C then
          rbind (outbytes (escape_bytes ch) k) (\<lambda>k.
          case ctrl of [] \<Rightarrow> Inl OutOfBounds | x # rest \<Rightarrow> try_next rest ap dot_flag f k)
        else Inr (ctrl, ap, k))"
  by pat_completeness auto
termination
  by (relation "measure (\<lambda>(ctrl, ap, d, f, k). length ctrl)")
     (auto simp: less_Suc_eq_le dest: getnum_rest split: if_splits)

declare try_next.simps [simp del]

lemma getnum_digit:
  assumes "isdigit ch" and "getnum (ch # ctrl) 0 = (n, rest)"
  shows "length rest \<le> length ctrl"
proof -
  have "(n, rest) = getnum ctrl (of_nat (of_char ch) - 48)" using assms by simp
  then show ?thesis by (rule getnum_rest)
qed

lemma try_next_shorter:
  "try_next ctrl ap d f k = Inr (ctrl', ap', k') \<Longrightarrow> length ctrl' < length ctrl"
proof (induction "length ctrl" arbitrary: ctrl ap d f k rule: less_induct)
  case less
  show ?case
  proof (cases ctrl)
    case Nil
    with less.prems show ?thesis by (simp add: try_next.simps)
  next
    case (Cons ch cs)
    have IH: "length ctrl' \<le> length cs"
      if "try_next rest ap d f k = Inr (ctrl', ap', k')" "length rest \<le> length cs" for rest ap d f k
      using less.hyps [OF _ that(1)] that(2) Cons by simp
    have num: "length ctrl' \<le> length cs"
      if "isdigit ch" "(case getnum (ch # cs) 0 of (n, rest) \<Rightarrow> try_next rest ap d (g n) k) = Inr (ctrl', ap', k')"
      for ap d g k
      using that getnum_digit IH by (auto split: prod.splits)
    have esc: "length ctrl' \<le> length cs"
      if "(case cs of [] \<Rightarrow> Inl OutOfBounds | x # rest \<Rightarrow> try_next rest ap d f k) = Inr (ctrl', ap', k')"
      for ap d f k
      using that IH by (cases cs) auto
    show ?thesis
      using less.prems num IH esc unfolding Cons
      by (auto simp: try_next.simps(2) Let_def res_simps less_Suc_eq_le simp del: getnum.simps
          split: if_splits)
  qed
qed

text \<open>The outer loop of \<open>rtos_vsnwprintf\<close>.\<close>

function vsnw_loop :: "string \<Rightarrow> va list \<Rightarrow> sink \<Rightarrow> sink res" where
  "vsnw_loop [] ap k = Inr k"
| "vsnw_loop (c # ctrl) ap k =
     (if c \<noteq> CHR ''%'' then rbind (outbyte c k) (\<lambda>k. vsnw_loop ctrl ap k)
      else rbind (try_next ctrl ap False init_field k) (\<lambda>(ctrl, ap, k). vsnw_loop ctrl ap k))"
  by pat_completeness auto
termination
  by (relation "measure (\<lambda>(ctrl, ap, k). length ctrl)") (auto dest: try_next_shorter)

declare vsnw_loop.simps [simp del]

text \<open>The result is \<open>par.pos\<close>, and the output with \<open>str\<close> closed by a NUL if it has room.\<close>

definition rtos_vsnwprintf :: "string \<Rightarrow> nat \<Rightarrow> bool \<Rightarrow> string \<Rightarrow> string \<Rightarrow> va list \<Rightarrow> (nat \<times> sink) res" where
  "rtos_vsnwprintf str sz writeout stdout fmt ap =
     rbind (vsnw_loop fmt ap \<lparr>sk_size = sz, sk_pos = 0, sk_str = str, sk_writeout = writeout,
              sk_stdout = stdout\<rparr>) (\<lambda>k.
     rbind (if sk_pos k < sk_size k then put_char (CHR 0x00) k else Inr k) (\<lambda>k.
     Inr (sk_pos k, k)))"

text \<open>\<open>rtos_snprintf\<close> and \<open>rtos_sprintf\<close>: the returned length and the buffer.\<close>

definition rtos_snprintf :: "string \<Rightarrow> nat \<Rightarrow> string \<Rightarrow> va list \<Rightarrow> (nat \<times> string) res" where
  "rtos_snprintf str sz fmt ap =
     rbind (rtos_vsnwprintf str sz False [] fmt ap) (\<lambda>(n, k). Inr (n, sk_str k))"

abbreviation (input) "SIZE_MAX \<equiv> (4294967295 :: nat)"

definition rtos_sprintf :: "string \<Rightarrow> string \<Rightarrow> va list \<Rightarrow> (nat \<times> string) res" where
  "rtos_sprintf str fmt ap =
     rbind (rtos_vsnwprintf str SIZE_MAX False [] fmt ap) (\<lambda>(n, k). Inr (n, sk_str k))"

text \<open>
  \<open>rtos_vprintf\<close> and \<open>rtos_printf\<close>: \<open>buf\<close> is the uninitialised local buffer of
  \<open>RTOS_PRINTF_BUFSIZE\<close> characters, \<open>stdout\<close> what was written before.
\<close>

definition rtos_vprintf :: "string \<Rightarrow> string \<Rightarrow> string \<Rightarrow> va list \<Rightarrow> (nat \<times> string) res" where
  "rtos_vprintf buf stdout fmt ap =
     rbind (rtos_vsnwprintf buf (length buf) True stdout fmt ap) (\<lambda>(n, k).
     Inr (n, sk_stdout k @ take n (sk_str k)))"

section \<open>The text of a format\<close>

text \<open>
  The abstract account: the characters a conversion stands for, without any buffer.
\<close>

definition pad_text :: "field \<Rightarrow> nat \<Rightarrow> string" where
  "pad_text f n = (if do_padding f then replicate (nat (sint (num1 f) - sint (of_nat n :: 32 word)))
     (pad_character f) else [])"

definition justify :: "field \<Rightarrow> nat \<Rightarrow> string \<Rightarrow> string" where
  "justify f n body = (if left_flag f then body @ pad_text f n else pad_text f n @ body)"

definition str_text :: "field \<Rightarrow> string option \<Rightarrow> string res" where
  "str_text f s = (case s of None \<Rightarrow> Inl NullDeref
     | Some s \<Rightarrow> Inr (justify f (length s) (take (unat (num2 f)) s)))"

definition num_text :: "field \<Rightarrow> 32 word \<Rightarrow> u32 \<Rightarrow> string res" where
  "num_text f n base = rbind (num_outbuf n base f) (\<lambda>b. Inr (justify f (length b) (rev b)))"

function conv_text :: "string \<Rightarrow> va list \<Rightarrow> bool \<Rightarrow> field \<Rightarrow> (string \<times> va list \<times> string) res" where
  "conv_text [] ap dot_flag f = Inl OutOfBounds"
| "conv_text (ch # ctrl) ap dot_flag f =
     (if isdigit ch then
        let (n, rest) = getnum (ch # ctrl) 0
        in conv_text rest ap dot_flag
             (if dot_flag then f\<lparr>num2 := n\<rparr>
              else f\<lparr>num1 := n, do_padding := True,
                     pad_character := (if ch = CHR ''0'' then CHR ''0'' else pad_character f)\<rparr>)
      else if dot_flag \<and> ch = CHR ''*'' then
        rbind (va_int ap) (\<lambda>(n, ap). conv_text ctrl ap dot_flag (f\<lparr>num2 := n\<rparr>))
      else let c = tolower ch in
        if c = CHR ''%'' then Inr (ctrl, ap, ''%'')
        else if c = CHR ''-'' then conv_text ctrl ap dot_flag (f\<lparr>left_flag := True\<rparr>)
        else if c = CHR ''.'' then conv_text ctrl ap True f
        else if c = CHR ''l'' then conv_text ctrl ap dot_flag f
        else if c \<in> set ''uidpx'' then
          rbind (va_int ap) (\<lambda>(n, ap).
          rbind (num_text (if c \<in> set ''id'' then f else f\<lparr>unsigned_flag := True\<rparr>) n
                   (if c \<in> set ''px'' then 16 else 10)) (\<lambda>t. Inr (ctrl, ap, t)))
        else if c = CHR ''s'' then
          rbind (va_str ap) (\<lambda>(s, ap). rbind (str_text f s) (\<lambda>t. Inr (ctrl, ap, t)))
        else if c = CHR ''c'' then
          rbind (va_int ap) (\<lambda>(n, ap). Inr (ctrl, ap, [char_of (unat n)]))
        else if c = CHR 0x5C then
          (case ctrl of [] \<Rightarrow> Inl OutOfBounds
           | x # rest \<Rightarrow> rbind (conv_text rest ap dot_flag f) (\<lambda>(ctrl, ap, t).
               Inr (ctrl, ap, escape_bytes ch @ t)))
        else Inr (ctrl, ap, []))"
  by pat_completeness auto
termination
  by (relation "measure (\<lambda>(ctrl, ap, d, f). length ctrl)")
     (auto simp: less_Suc_eq_le dest: getnum_rest split: if_splits)

declare conv_text.simps [simp del]

lemma conv_text_shorter:
  "conv_text ctrl ap d f = Inr (ctrl', ap', t) \<Longrightarrow> length ctrl' < length ctrl"
proof (induction "length ctrl" arbitrary: ctrl ap d f t rule: less_induct)
  case less
  show ?case
  proof (cases ctrl)
    case Nil
    with less.prems show ?thesis by (simp add: conv_text.simps)
  next
    case (Cons ch cs)
    have IH: "length ctrl' \<le> length cs"
      if "conv_text rest ap d f = Inr (ctrl', ap', t)" "length rest \<le> length cs" for rest ap d f t
      using less.hyps [OF _ that(1)] that(2) Cons by simp
    have num: "length ctrl' \<le> length cs"
      if "isdigit ch" "(case getnum (ch # cs) 0 of (n, rest) \<Rightarrow> conv_text rest ap d (g n)) = Inr (ctrl', ap', t)"
      for ap d g t
      using that getnum_digit IH by (auto split: prod.splits)
    have esc: "length ctrl' \<le> length cs"
      if "(case cs of [] \<Rightarrow> Inl OutOfBounds | x # rest \<Rightarrow> rbind (conv_text rest ap d f) (\<lambda>(ctrl, ap, t).
            Inr (ctrl, ap, u @ t))) = Inr (ctrl', ap', t)"
      for ap d f t u
      using that IH by (cases cs) (auto simp: res_simps)
    show ?thesis
      using less.prems num IH esc unfolding Cons
      by (auto simp: conv_text.simps(2) Let_def res_simps less_Suc_eq_le simp del: getnum.simps
          split: if_splits)
  qed
qed

function fmt_text :: "string \<Rightarrow> va list \<Rightarrow> string res" where
  "fmt_text [] ap = Inr []"
| "fmt_text (c # ctrl) ap =
     (if c \<noteq> CHR ''%'' then rbind (fmt_text ctrl ap) (\<lambda>t. Inr (c # t))
      else rbind (conv_text ctrl ap False init_field) (\<lambda>(ctrl, ap, t).
           rbind (fmt_text ctrl ap) (\<lambda>u. Inr (t @ u))))"
  by pat_completeness auto
termination
  by (relation "measure (\<lambda>(ctrl, ap). length ctrl)") (auto dest: conv_text_shorter)

declare fmt_text.simps [simp del]

subsection \<open>The code emits the text\<close>

lemma outbytes_append [simp]: "outbytes (xs @ ys) k = rbind (outbytes xs k) (outbytes ys)"
proof (induction xs arbitrary: k)
  case (Cons c xs)
  then show ?case by (cases "outbyte c k") simp_all
qed simp

lemma outbytes_Nil [simp]: "outbytes [] = Inr"
  by (rule ext) simp

lemma outbytes_single: "outbytes [c] k = outbyte c k"
  by (cases "outbyte c k") simp_all

lemma padding_text:
  "padding l f k = outbytes (if l \<and> do_padding f then replicate (pad_count f) (pad_character f) else []) k"
  by (auto simp: padding_def pad_count_def)

lemma outs_move_text: "outs_move s n k = outbytes (take (unat n) s) k"
proof (induction s arbitrary: n k)
  case (Cons c s)
  show ?case
  proof (cases "n = 0")
    case False
    then have "unat n = Suc (unat (n - 1))" by (simp add: unat_minus_one unat_gt_0)
    with False show ?thesis by (cases "outbyte c k") (simp_all add: Cons.IH)
  qed simp
qed simp

lemma outs_text: "str_text f s = Inr t \<Longrightarrow> outs s f k = outbytes t k"
  by (cases s)
     (auto simp: str_text_def outs_def padding_text outs_move_text justify_def pad_text_def pad_count_def
       rbind_assoc Let_def)

lemma outnum_text: "outnum n base f k = rbind (num_text f n base) (\<lambda>t. outbytes t k)"
  by (cases "num_outbuf n base f"; cases "left_flag f")
     (simp_all add: num_text_def outnum_def padding_text justify_def pad_text_def pad_count_def)

lemma try_next_text:
  "conv_text ctrl ap d f = Inr (ctrl', ap', t) \<Longrightarrow>
    try_next ctrl ap d f k = rbind (outbytes t k) (\<lambda>k. Inr (ctrl', ap', k))"
proof (induction "length ctrl" arbitrary: ctrl ap d f t k rule: less_induct)
  case less
  show ?case
  proof (cases ctrl)
    case Nil
    with less.prems show ?thesis by (simp add: conv_text.simps)
  next
    case (Cons ch cs)
    have IH: "try_next rest ap d f k = rbind (outbytes t k) (\<lambda>k. Inr (ctrl', ap', k))"
      if "conv_text rest ap d f = Inr (ctrl', ap', t)" "length rest \<le> length cs" for rest ap d f t k
      using less.hyps [OF _ that(1)] that(2) Cons by simp
    show ?thesis
    proof (cases "isdigit ch")
      case True
      obtain n rest where g: "getnum (ch # cs) 0 = (n, rest)" by fastforce
      have l: "length rest \<le> length cs" using True g by (rule getnum_digit)
      have f: "(if ch = CHR ''0'' then f\<lparr>pad_character := CHR ''0''\<rparr> else f)\<lparr>num1 := n, do_padding := True\<rparr>
          = f\<lparr>num1 := n, do_padding := True,
              pad_character := (if ch = CHR ''0'' then CHR ''0'' else pad_character f)\<rparr>"
        by simp
      show ?thesis
        using less.prems True g IH [OF _ l] unfolding Cons
        by (cases d) (simp_all add: conv_text.simps(2) try_next.simps(2) f del: getnum.simps)
    next
      case False
      show ?thesis
        using less.prems False IH unfolding Cons
        by (auto simp: conv_text.simps(2) try_next.simps(2) Let_def res_simps outnum_text outs_text
            rbind_assoc split: if_splits list.splits)
    qed
  qed
qed

lemma vsnw_loop_text: "fmt_text fmt ap = Inr t \<Longrightarrow> vsnw_loop fmt ap k = outbytes t k"
proof (induction fmt ap arbitrary: t k rule: fmt_text.induct)
  case (1 ap)
  then show ?case by (simp add: fmt_text.simps vsnw_loop.simps)
next
  case (2 c ctrl ap)
  show ?case
  proof (cases "c = CHR ''%''")
    case False
    with "2.prems" obtain u where u: "fmt_text ctrl ap = Inr u" "t = c # u"
      by (auto simp: fmt_text.simps(2) res_simps)
    then show ?thesis
      using "2.IH"(1) [OF False u(1)] False by (cases "outbyte c k") (simp_all add: vsnw_loop.simps(2))
  next
    case True
    with "2.prems" obtain ctrl' ap' v u where c: "conv_text ctrl ap False init_field = Inr (ctrl', ap', v)"
      and u: "fmt_text ctrl' ap' = Inr u" "t = v @ u"
      by (auto simp: fmt_text.simps(2) res_simps)
    have "vsnw_loop ctrl' ap' k = outbytes u k" for k
      using "2.IH"(2) [of "(ctrl', ap', v)" ctrl' "(ap', v)" ap' v] True c u(1) by simp
    then show ?thesis
      using True u(2) by (simp add: vsnw_loop.simps(2) try_next_text [OF c] rbind_assoc)
  qed
qed

section \<open>Where the text goes\<close>

text \<open>A bounded buffer keeps what fits; the position counts all characters.\<close>

lemma outbytes_buffer:
  assumes "\<not> sk_writeout k" and "min (sk_size k) (sk_pos k + length t) \<le> length (sk_str k)"
  shows "outbytes t k = Inr (k\<lparr>sk_pos := sk_pos k + length t,
    sk_str := splice (sk_pos k) (take (sk_size k - sk_pos k) t) (sk_str k)\<rparr>)"
  using assms
proof (induction t arbitrary: k)
  case Nil
  then show ?case by (simp add: splice_def)
next
  case (Cons c t)
  show ?case
  proof (cases "sk_pos k < sk_size k")
    case True
    let ?k = "k\<lparr>sk_str := (sk_str k)[sk_pos k := c], sk_pos := sk_pos k + 1\<rparr>"
    have "outbyte c k = Inr ?k" using True Cons.prems by (simp add: outbyte_def put_char_def)
    moreover have "take (sk_size k - sk_pos k) (c # t) = c # take (sk_size k - Suc (sk_pos k)) t"
      using True by (simp add: take_Cons')
    ultimately show ?thesis
      using Cons True by (simp add: splice_Cons)
  next
    case False
    with Cons show ?thesis by (simp add: outbyte_def splice_def)
  qed
qed

text \<open>
  When writing out, what was written and what still lies in the buffer are together everything
  that was emitted, whatever the size of the buffer.
\<close>

definition emitted :: "sink \<Rightarrow> string" where
  "emitted k = sk_stdout k @ take (sk_pos k) (sk_str k)"

definition flushing :: "nat \<Rightarrow> sink \<Rightarrow> bool" where
  "flushing n k \<longleftrightarrow> sk_writeout k \<and> sk_size k = n \<and> length (sk_str k) = n \<and> sk_pos k < n"

lemma outbyte_flushing:
  assumes "flushing n k"
  shows "\<exists>k'. outbyte c k = Inr k' \<and> flushing n k' \<and> emitted k' = emitted k @ [c]
    \<and> sk_pos k' = Suc (sk_pos k) mod n"
proof -
  have e: "take (Suc (sk_pos k)) ((sk_str k)[sk_pos k := c]) = take (sk_pos k) (sk_str k) @ [c]"
    using assms by (simp add: flushing_def take_Suc_conv_app_nth)
  show ?thesis
  proof (cases "Suc (sk_pos k) < n")
    case True
    with assms e show ?thesis by (simp add: flushing_def emitted_def outbyte_def put_char_def)
  next
    case False
    with assms have "Suc (sk_pos k) = n" by (simp add: flushing_def)
    with assms e show ?thesis by (auto simp: flushing_def emitted_def outbyte_def put_char_def)
  qed
qed

lemma outbytes_flushing:
  "flushing n k \<Longrightarrow> \<exists>k'. outbytes t k = Inr k' \<and> flushing n k' \<and> emitted k' = emitted k @ t
    \<and> sk_pos k' = (sk_pos k + length t) mod n"
proof (induction t arbitrary: k)
  case Nil
  then show ?case by (simp add: flushing_def)
next
  case (Cons c t)
  obtain k1 where k1: "outbyte c k = Inr k1" "flushing n k1" "emitted k1 = emitted k @ [c]"
    "sk_pos k1 = Suc (sk_pos k) mod n"
    using outbyte_flushing [OF Cons.prems] by blast
  obtain k2 where "outbytes t k1 = Inr k2" "flushing n k2" "emitted k2 = emitted k1 @ t"
    "sk_pos k2 = (sk_pos k1 + length t) mod n"
    using Cons.IH [OF k1(2)] by blast
  with k1 show ?case by (simp add: mod_simps)
qed

text \<open>A write behind a buffer that is too short for the text is an error.\<close>

lemma outbytes_overflow:
  assumes "\<not> sk_writeout k" and "length (sk_str k) < sk_size k"
    and "sk_pos k \<le> length (sk_str k)" and "length (sk_str k) < sk_pos k + length t"
  shows "outbytes t k = Inl OutOfBounds"
  using assms
proof (induction t arbitrary: k)
  case (Cons c t)
  show ?case
  proof (cases "sk_pos k < length (sk_str k)")
    case True
    with Cons show ?thesis by (simp add: outbyte_def put_char_def)
  next
    case False
    with Cons.prems show ?thesis by (simp add: outbyte_def put_char_def)
  qed
qed simp

section \<open>The text of a number\<close>

definition digit_value :: "char \<Rightarrow> nat" where
  "digit_value c = (if (of_char c :: nat) \<le> 57 then of_char c - 48 else of_char c - 55)"

definition text_value :: "nat \<Rightarrow> string \<Rightarrow> nat" where
  "text_value base ds = foldl (\<lambda>v c. base * v + digit_value c) 0 ds"

lemma digit_value_chars: "d < 16 \<Longrightarrow> digit_value (digit_chars ! d) = d"
  by (auto simp: digit_chars_def digit_value_def less_Suc_eq numeral_eq_Suc)

lemma digit_zero: "d < 16 \<Longrightarrow> digit_chars ! d = CHR ''0'' \<longleftrightarrow> d = 0"
  by (auto simp: digit_chars_def less_Suc_eq numeral_eq_Suc)

lemma num_digits_spec:
  assumes "1 < unat base" "unat base \<le> 16"
  shows "unat n < unat base ^ m \<Longrightarrow> 0 < m \<Longrightarrow> m \<le> room \<Longrightarrow>
    \<exists>ds. num_digits room n base = Inr ds \<and> text_value (unat base) (rev ds) = unat n \<and> ds \<noteq> []
      \<and> length ds \<le> m \<and> set ds \<subseteq> set (take (unat base) digit_chars)
      \<and> (n \<noteq> 0 \<longrightarrow> last ds \<noteq> CHR ''0'')"
proof (induction room arbitrary: n m)
  case (Suc room)
  let ?d = "unat (n mod base)" and ?q = "n div base"
  have d: "?d < unat base" using assms(1) by (simp add: unat_mod)
  then have d16: "?d < 16" using assms(2) by simp
  have dig: "digit_chars ! ?d \<in> set (take (unat base) digit_chars)"
    using d assms(2) by (simp add: in_set_conv_nth digit_chars_def) (intro exI [of _ ?d], simp)
  have split: "unat base * unat ?q + ?d = unat n" by (simp add: unat_div unat_mod)
  show ?case
  proof (cases "?q = 0")
    case True
    with split have "unat n = ?d" by simp
    moreover from this have "n \<noteq> 0 \<Longrightarrow> ?d \<noteq> 0" by (metis unat_eq_zero)
    ultimately show ?thesis
      using True dig d16 Suc.prems(2)
      by (simp add: text_value_def digit_value_chars digit_zero)
  next
    case False
    obtain m' where m: "m = Suc m'" using Suc.prems(2) by (cases m) auto
    have q: "unat ?q < unat base ^ m'"
      using Suc.prems(1) assms(1) by (simp add: m unat_div less_mult_imp_div_less mult.commute)
    moreover have "0 < m'" using q False by (cases m') (auto simp: unat_eq_zero)
    ultimately obtain ds where ds: "num_digits room ?q base = Inr ds"
      "text_value (unat base) (rev ds) = unat ?q" "ds \<noteq> []" "length ds \<le> m'"
      "set ds \<subseteq> set (take (unat base) digit_chars)" "last ds \<noteq> CHR ''0''"
      using Suc.IH [of ?q m'] Suc.prems(3) m False by auto
    have "text_value (unat base) (rev (digit_chars ! ?d # ds)) = unat n"
      using ds(2) d16 split by (simp add: text_value_def digit_value_chars)
    with ds dig False show ?thesis by (simp add: m word_gt_0)
  qed
qed simp

text \<open>
  What a \<open>%d\<close>, \<open>%u\<close>, \<open>%p\<close> or \<open>%x\<close> prints: the sign, if there is one, and digits that
  denote the number, without superfluous zeros; the padding stands before or behind them.
\<close>

definition shown_value :: "field \<Rightarrow> 32 word \<Rightarrow> u32 \<Rightarrow> int" where
  "shown_value f n base = (if unsigned_flag f \<or> base \<noteq> 10 then uint n else sint n)"

lemma unat_neg_sint:
  assumes "sint (n :: 32 word) < 0"
  shows "int (unat (- n)) = - sint n"
proof -
  have "- (2 ^ 31) \<le> sint n" using sint_ge [of n] by simp
  have "- n = word_of_int (- sint n)" by simp
  then have "uint (- n) = (- sint n) mod 2 ^ 32" by (simp only: uint_word_of_int) simp
  also have "\<dots> = - sint n"
    using assms \<open>- (2 ^ 31) \<le> sint n\<close> by (intro mod_pos_pos_trivial) simp_all
  finally show ?thesis by simp
qed

lemma uint_sint_nonneg:
  assumes "0 \<le> sint (n :: 32 word)"
  shows "uint n = sint n"
proof -
  have "sint n < 2 ^ 31" using sint_lt [of n] by simp
  have "uint (word_of_int (sint n) :: 32 word) = sint n mod 2 ^ 32" by (simp only: uint_word_of_int) simp
  then have "uint n = sint n mod 2 ^ 32" by simp
  also have "\<dots> = sint n" using assms \<open>sint n < 2 ^ 31\<close> by (intro mod_pos_pos_trivial) simp_all
  finally show ?thesis .
qed

lemma num_outbuf_spec:
  assumes "base = 10 \<or> base = 16"
  shows "\<exists>ds. num_outbuf n base f = Inr (rev ((if shown_value f n base < 0 then ''-'' else []) @ ds))
    \<and> int (text_value (unat base) ds) = \<bar>shown_value f n base\<bar> \<and> ds \<noteq> [] \<and> length ds \<le> 10
    \<and> set ds \<subseteq> set (take (unat base) digit_chars) \<and> (shown_value f n base \<noteq> 0 \<longrightarrow> hd ds \<noteq> CHR ''0'')"
proof -
  let ?neg = "\<not> unsigned_flag f \<and> base = 10 \<and> sint n < 0"
  let ?num = "if ?neg then - n else n"
  have b: "1 < unat base" "unat base \<le> 16" using assms by auto
  have "unat ?num < 2 ^ 32" using unsigned_less [of ?num, where ?'a = nat] by simp
  moreover have "(2 :: nat) ^ 32 \<le> 10 ^ 10" by simp
  moreover have "(10 :: nat) ^ 10 \<le> unat base ^ 10" using assms by auto
  ultimately have "unat ?num < unat base ^ 10" by linarith
  then obtain ds where ds: "num_digits 32 ?num base = Inr ds" "text_value (unat base) (rev ds) = unat ?num"
    "ds \<noteq> []" "length ds \<le> 10" "set ds \<subseteq> set (take (unat base) digit_chars)"
    "?num \<noteq> 0 \<longrightarrow> last ds \<noteq> CHR ''0''"
    using num_digits_spec [OF b, of ?num 10 32] by auto
  have neg: "shown_value f n base < 0 \<longleftrightarrow> ?neg"
    using assms by (auto simp: shown_value_def)
  have val: "int (unat ?num) = \<bar>shown_value f n base\<bar>"
  proof (cases ?neg)
    case True
    then show ?thesis using unat_neg_sint [of n] by (simp add: shown_value_def)
  next
    case False
    then have "shown_value f n base = uint n"
      using uint_sint_nonneg [of n] by (auto simp: shown_value_def)
    with False show ?thesis by auto
  qed
  have out: "num_outbuf n base f = Inr (if ?neg then ds @ ''-'' else ds)"
    using ds(1,4) by (simp add: num_outbuf_def Let_def)
  have nz: "shown_value f n base \<noteq> 0 \<longrightarrow> ?num \<noteq> 0" using val by auto
  show ?thesis
    using ds nz val neg out
    by (intro exI [of _ "rev ds"]) (simp add: hd_rev)
qed

section \<open>Properties\<close>

lemma sink_run:
  assumes "fmt_text fmt ap = Inr t" and "min sz (length t) \<le> length str"
  shows "rtos_vsnwprintf str sz False out fmt ap =
    rbind (if length t < sz
           then put_char (CHR 0x00) \<lparr>sk_size = sz, sk_pos = length t, sk_str = splice 0 (take sz t) str,
                  sk_writeout = False, sk_stdout = out\<rparr>
           else Inr \<lparr>sk_size = sz, sk_pos = length t, sk_str = splice 0 (take sz t) str,
                  sk_writeout = False, sk_stdout = out\<rparr>) (\<lambda>k. Inr (sk_pos k, k))"
proof -
  let ?k = "\<lparr>sk_size = sz, sk_pos = 0, sk_str = str, sk_writeout = False, sk_stdout = out\<rparr>"
  have "vsnw_loop fmt ap ?k = Inr (?k\<lparr>sk_pos := length t, sk_str := splice 0 (take sz t) str\<rparr>)"
    using assms outbytes_buffer [of ?k t] by (simp add: vsnw_loop_text)
  then show ?thesis by (simp add: rtos_vsnwprintf_def)
qed

lemma splice_NUL:
  "length t < length str \<Longrightarrow> (splice 0 t str)[length t := c] = t @ [c] @ drop (Suc (length t)) str"
  by (simp add: splice_def list_update_append Cons_nth_drop_Suc [symmetric])

lemma snprintf_result:
  assumes "fmt_text fmt ap = Inr t" and "sz \<le> length str"
  shows "rtos_snprintf str sz fmt ap = Inr (length t,
    if length t < sz then t @ [CHR 0x00] @ drop (Suc (length t)) str else take sz t @ drop sz str)"
  using assms sink_run [OF assms(1), of sz str "[]"]
  by (auto simp: rtos_snprintf_def put_char_def splice_NUL) (auto simp: splice_def)

text \<open>A text that does not fit fills the buffer with characters, and is not terminated as \<open>snprintf\<close> terminates it.\<close>

lemma snprintf_truncated:
  "fmt_text fmt ap = Inr t \<Longrightarrow> sz \<le> length str \<Longrightarrow> sz \<le> length t \<Longrightarrow>
    rtos_snprintf str sz fmt ap = Inr (length t, take sz t @ drop sz str)"
  by (simp add: snprintf_result)


lemma answer_text: "fmt_text ''x=%d'' [ArgInt 42] = Inr ''x=42''"
  by code_simp


text \<open>
  \<open>rtos_sprintf\<close> is safe exactly if the buffer holds the text and its NUL; otherwise it
  writes behind the buffer.
\<close>

theorem sprintf_safe_iff_fits:
  assumes "fmt_text fmt ap = Inr t" and "length str < SIZE_MAX"
  shows "rtos_sprintf str fmt ap =
    (if length t < length str then Inr (length t, t @ [CHR 0x00] @ drop (Suc (length t)) str)
     else Inl OutOfBounds)"
proof (cases "length t \<le> length str")
  case True
  with assms sink_run [OF assms(1), of SIZE_MAX str "[]"] show ?thesis
    by (auto simp: rtos_sprintf_def put_char_def splice_NUL)
next
  case False
  let ?k = "\<lparr>sk_size = SIZE_MAX, sk_pos = 0, sk_str = str, sk_writeout = False, sk_stdout = []\<rparr>"
  have "vsnw_loop fmt ap ?k = Inl OutOfBounds"
    using assms False outbytes_overflow [of ?k t] by (simp add: vsnw_loop_text)
  with False show ?thesis by (simp add: rtos_sprintf_def rtos_vsnwprintf_def)
qed

theorem sprintf_safe_iff_fits_witness:
  "rtos_sprintf ''....'' ''x=%d'' [ArgInt 42] = Inl OutOfBounds
    \<and> rtos_sprintf ''.....'' ''x=%d'' [ArgInt 42] = Inr (4, ''x=42'' @ [CHR 0x00])"
  by (simp add: sprintf_safe_iff_fits [OF answer_text])

lemma printf_result:
  assumes "fmt_text fmt ap = Inr t" and "buf \<noteq> []"
  shows "rtos_vprintf buf out fmt ap = Inr (length t mod length buf, out @ t)"
proof -
  let ?k = "\<lparr>sk_size = length buf, sk_pos = 0, sk_str = buf, sk_writeout = True, sk_stdout = out\<rparr>"
  have "flushing (length buf) ?k" using assms(2) by (simp add: flushing_def)
  then obtain k where k: "outbytes t ?k = Inr k" "flushing (length buf) k" "emitted k = emitted ?k @ t"
    "sk_pos k = length t mod length buf"
    using outbytes_flushing [of "length buf" ?k t] by auto
  have "vsnw_loop fmt ap ?k = Inr k" using k(1) assms(1) by (simp add: vsnw_loop_text)
  with k show ?thesis
    by (simp add: rtos_vprintf_def rtos_vsnwprintf_def put_char_def flushing_def emitted_def)
qed

text \<open>
  The result is not the number of characters, as that of \<open>printf\<close>, but the number of those written since the buffer was full last.
\<close>

lemma printf_counts_last_part:
  "fmt_text fmt ap = Inr t \<Longrightarrow> buf \<noteq> [] \<Longrightarrow> length buf \<le> length t \<Longrightarrow>
    \<exists>n < length t. rtos_vprintf buf out fmt ap = Inr (n, out @ t)"
proof -
  assume a: "fmt_text fmt ap = Inr t" "buf \<noteq> []" "length buf \<le> length t"
  then have "length t mod length buf < length buf" by simp
  then show ?thesis using printf_result [OF a(1,2), of out] a(3) by (meson less_le_trans)
qed



text \<open>
  A number is converted without overflowing the 32 characters of \<open>outbuf\<close>: the text is
  the sign and digits that denote the value, signed for \<open>%d\<close> and \<open>%i\<close> and unsigned for the
  others, with no superfluous zero. Padding goes in front of the sign, zeros too.
\<close>

theorem number_text:
  assumes "base = 10 \<or> base = 16"
  shows "\<exists>ds b. num_text f n base = Inr (justify f (length b) b)
    \<and> b = (if shown_value f n base < 0 then ''-'' else []) @ ds
    \<and> int (text_value (unat base) ds) = \<bar>shown_value f n base\<bar>
    \<and> set ds \<subseteq> set (take (unat base) digit_chars)
    \<and> ds \<noteq> [] \<and> (shown_value f n base \<noteq> 0 \<longrightarrow> hd ds \<noteq> CHR ''0'')"
proof -
  obtain ds where ds: "num_outbuf n base f = Inr (rev ((if shown_value f n base < 0 then ''-'' else []) @ ds))"
    "int (text_value (unat base) ds) = \<bar>shown_value f n base\<bar>" "ds \<noteq> []"
    "set ds \<subseteq> set (take (unat base) digit_chars)" "shown_value f n base \<noteq> 0 \<longrightarrow> hd ds \<noteq> CHR ''0''"
    using num_outbuf_spec [OF assms, of n f] by blast
  let ?b = "(if shown_value f n base < 0 then ''-'' else []) @ ds"
  have "num_text f n base = Inr (justify f (length ?b) ?b)"
    unfolding num_text_def ds(1) by simp
  with ds(2-5) show ?thesis by blast
qed

theorem number_text_witness:
  "\<exists>ds b. num_text (init_field\<lparr>num1 := 5, do_padding := True, pad_character := CHR ''0''\<rparr>) (-5) 10
      = Inr (justify (init_field\<lparr>num1 := 5, do_padding := True, pad_character := CHR ''0''\<rparr>) (length b) b)
    \<and> b = ''-'' @ ds \<and> text_value 10 ds = 5"
  using number_text [of 10 "init_field\<lparr>num1 := 5, do_padding := True, pad_character := CHR ''0''\<rparr>" "-5"]
  by (auto simp: shown_value_def init_field_def)

text \<open>
  A format that ends with a lone percent sign is read behind its end: the default case steps
  over the NUL that terminates it.
\<close>

theorem trailing_percent_overruns:
  assumes "CHR ''%'' \<notin> set fmt" and "sz \<le> length str"
  shows "rtos_snprintf str sz (fmt @ ''%'') ap = Inl OutOfBounds"
proof -
  have "vsnw_loop (fmt @ ''%'') ap k = Inl OutOfBounds"
    if "\<not> sk_writeout k" "sk_size k \<le> length (sk_str k)" for k
    using assms(1) that
  proof (induction fmt arbitrary: k)
    case Nil
    then show ?case by (simp add: vsnw_loop.simps try_next.simps)
  next
    case (Cons c fmt)
    obtain k' where k': "outbytes [c] k = Inr k'" "\<not> sk_writeout k'" "sk_size k' \<le> length (sk_str k')"
      using outbytes_buffer [of k "[c]"] Cons.prems by (auto simp: splice_def)
    then have "outbyte c k = Inr k'" by (simp only: outbytes_single)
    with Cons k' show ?case by (auto simp: vsnw_loop.simps)
  qed
  with assms(2) show ?thesis by (simp add: rtos_snprintf_def rtos_vsnwprintf_def)
qed

theorem trailing_percent_overruns_witness:
  "rtos_snprintf ''........'' 8 (''50'' @ ''%'') [] = Inl OutOfBounds"
  by (rule trailing_percent_overruns) simp_all

end
