(* ===== verification/Resource_Table.thy ===== *)
theory Resource_Table
  imports Prelude
begin

text \<open>
  The resource table of the device control service
  (modules/rtos/sw_services/device_control/src/resource_table.c): which servicer owns which of
  the 256 resource numbers. The locale \<open>registry\<close> states what the service relies on, and
  what follows when several servicers register one after the other.
\<close>

section \<open>A registry\<close>

text \<open>
  Owners register sets of keys. \<open>add\<close> either fails or takes over exactly the given keys,
  which nobody owned before.
\<close>

locale registry =
  fixes ok :: "'s \<Rightarrow> bool"
    and owner :: "'s \<Rightarrow> 'k \<Rightarrow> 'o option"
    and add :: "'k list \<Rightarrow> 'o \<Rightarrow> 's \<Rightarrow> bool \<times> 's"
  assumes add_ok: "ok s \<Longrightarrow> ok (snd (add ks v s))"
    and add_owner: "ok s \<Longrightarrow> add ks v s = (True, t) \<Longrightarrow>
          owner t k = (if k \<in> set ks then Some v else owner s k)"
    and add_fresh: "ok s \<Longrightarrow> add ks v s = (True, t) \<Longrightarrow> distinct ks \<and> (\<forall>k \<in> set ks. owner s k = None)"
    and add_keeps: "ok s \<Longrightarrow> add ks v s = (b, t) \<Longrightarrow> owner s k = Some w \<Longrightarrow> owner t k = Some w"
begin

text \<open>Registrations in sequence, up to the first that fails.\<close>

fun add_all :: "('k list \<times> 'o) list \<Rightarrow> 's \<Rightarrow> bool \<times> 's" where
  "add_all [] s = (True, s)"
| "add_all ((ks, v) # regs) s = (case add ks v s of (b, t) \<Rightarrow> if b then add_all regs t else (False, t))"

lemma add_all_snoc: "add_all (regs @ [(ks, v)]) s =
    (case add_all regs s of (b, t) \<Rightarrow> if b then add ks v t else (False, t))"
  by (induction regs s rule: add_all.induct) (auto split: prod.splits)

lemma add_all_ok: "ok s \<Longrightarrow> ok (snd (add_all regs s))"
proof (induction regs arbitrary: s)
  case (Cons r regs)
  then show ?case using add_ok [of s "fst r" "snd r"] by (cases r) (auto split: prod.splits)
qed simp

lemma add_all_keeps: "ok s \<Longrightarrow> add_all regs s = (b, t) \<Longrightarrow> owner s k = Some w \<Longrightarrow> owner t k = Some w"
proof (induction regs arbitrary: s)
  case (Cons r regs)
  obtain ks v where r: "r = (ks, v)" by fastforce
  obtain c u where u: "add ks v s = (c, u)" by fastforce
  have "ok u" using add_ok [OF Cons.prems(1), of ks v] u by simp
  moreover have "owner u k = Some w" using Cons.prems(1) u Cons.prems(3) by (rule add_keeps)
  ultimately show ?case using Cons.IH Cons.prems(2) r u by (cases c) auto
qed simp

text \<open>If all succeed, every key is owned by the one servicer that registered it.\<close>

lemma add_all_owner:
  assumes "ok s" and "add_all regs s = (True, t)" and "(ks, v) \<in> set regs" and "k \<in> set ks"
  shows "owner t k = Some v"
  using assms
proof (induction regs arbitrary: s)
  case (Cons r regs)
  obtain ks' v' where r: "r = (ks', v')" by fastforce
  with Cons.prems(2) obtain u where u: "add ks' v' s = (True, u)" "add_all regs u = (True, t)"
    by (auto split: prod.splits if_splits)
  have ok: "ok u" using add_ok [OF Cons.prems(1), of ks' v'] u by simp
  show ?case
  proof (cases "(ks, v) = r")
    case True
    then have "owner u k = Some v" using add_owner [OF Cons.prems(1) u(1)] r Cons.prems(4) by simp
    with ok u(2) show ?thesis by (rule add_all_keeps)
  next
    case False
    with Cons.prems(3) have "(ks, v) \<in> set regs" by auto
    with ok u(2) Cons.prems(4) show ?thesis using Cons.IH by blast
  qed
qed simp

lemma add_all_disjoint:
  assumes "ok s" and "add_all regs s = (True, t)"
    and "(ks, v) \<in> set regs" "(ks', v') \<in> set regs" "k \<in> set ks" "k \<in> set ks'"
  shows "v = v'"
  using add_all_owner [OF assms(1,2,3,5)] add_all_owner [OF assms(1,2,4,6)] by simp

end

section \<open>The table\<close>

abbreviation (input) "RESOURCE_TABLE_SIZE \<equiv> (256 :: nat)"
abbreviation (input) "NO_SERVICER \<equiv> (255 :: u8)"
abbreviation (input) "CONTROL_SPECIAL_RESID \<equiv> (0 :: u8)"

type_synonym control_resid = u8

text \<open>
  The loop of \<open>resource_table_add\<close>. The result is the returned code and the table, in which
  the resources before the one that failed stay registered.
\<close>

fun resource_table_add_loop :: "u8 list \<Rightarrow> control_resid list \<Rightarrow> u8 \<Rightarrow> int \<times> u8 list" where
  "resource_table_add_loop tab [] servicer = (0, tab)"
| "resource_table_add_loop tab (resid # resources) servicer =
     (if resid = CONTROL_SPECIAL_RESID then (2, tab)
      else if tab ! unat resid \<noteq> NO_SERVICER then (3, tab)
      else resource_table_add_loop (tab[unat resid := servicer]) resources servicer)"

definition resource_table_add :: "u8 list \<Rightarrow> control_resid list \<Rightarrow> u8 \<Rightarrow> int \<times> u8 list" where
  "resource_table_add tab resources servicer =
     (if servicer = NO_SERVICER then (1, tab) else resource_table_add_loop tab resources servicer)"

text \<open>\<open>*servicer\<close>, and 0 if the resource can be used.\<close>

definition resource_table_search :: "u8 list \<Rightarrow> control_resid \<Rightarrow> u8 \<times> int" where
  "resource_table_search tab resid =
     (tab ! unat resid,
      if resid = CONTROL_SPECIAL_RESID \<or> tab ! unat resid \<noteq> NO_SERVICER then 0 else 1)"

definition resource_table_init :: "u8 list" where
  "resource_table_init = replicate RESOURCE_TABLE_SIZE NO_SERVICER"

definition table_ok :: "u8 list \<Rightarrow> bool" where
  "table_ok tab \<longleftrightarrow> length tab = RESOURCE_TABLE_SIZE \<and> tab ! 0 = NO_SERVICER"

definition table_owner :: "u8 list \<Rightarrow> control_resid \<Rightarrow> u8 option" where
  "table_owner tab resid =
     (if tab ! unat resid = NO_SERVICER then None else Some (tab ! unat resid))"

lemma u8_index: "table_ok tab \<Longrightarrow> unat (r :: u8) < length tab"
  using unsigned_less [of r, where ?'a = nat] by (simp add: table_ok_def)

lemma table_init_ok: "table_ok resource_table_init"
  by (simp add: table_ok_def resource_table_init_def)

lemma table_update:
  assumes "table_ok tab" and "r \<noteq> CONTROL_SPECIAL_RESID" and "v \<noteq> NO_SERVICER"
  shows "table_ok (tab[unat r := v])"
    and "table_owner (tab[unat r := v]) k = (if k = r then Some v else table_owner tab k)"
proof -
  have "unat r \<noteq> 0" using assms(2) by (simp add: unat_eq_zero)
  then show "table_ok (tab[unat r := v])" using assms(1) by (simp add: table_ok_def)
  show "table_owner (tab[unat r := v]) k = (if k = r then Some v else table_owner tab k)"
    using u8_index [OF assms(1), of r] assms(3)
    by (cases "k = r") (simp_all add: table_owner_def nth_list_update word_unat_eq_iff)
qed

lemma add_loop_spec:
  assumes "v \<noteq> NO_SERVICER"
  shows "table_ok tab \<Longrightarrow> resource_table_add_loop tab rs v = (e, tab') \<Longrightarrow>
    table_ok tab' \<and> (\<forall>k w. table_owner tab k = Some w \<longrightarrow> table_owner tab' k = Some w)
    \<and> (e = 0 \<longrightarrow> (\<forall>k. table_owner tab' k = (if k \<in> set rs then Some v else table_owner tab k))
         \<and> distinct rs \<and> (\<forall>k \<in> set rs. k \<noteq> CONTROL_SPECIAL_RESID \<and> table_owner tab k = None))"
proof (induction rs arbitrary: tab)
  case (Cons r rs)
  show ?case
  proof (cases "r = CONTROL_SPECIAL_RESID \<or> tab ! unat r \<noteq> NO_SERVICER")
    case True
    with Cons.prems show ?thesis by (auto split: if_splits)
  next
    case False
    then have r: "r \<noteq> CONTROL_SPECIAL_RESID" "table_owner tab r = None" by (auto simp: table_owner_def)
    note u = table_update [OF Cons.prems(1) r(1) assms]
    have "resource_table_add_loop (tab[unat r := v]) rs v = (e, tab')" using Cons.prems(2) False by simp
    note IH = Cons.IH [OF u(1) this]
    have "table_owner tab' k = Some w" if "table_owner tab k = Some w" for k w
      using that r(2) IH u(2) [of k] by (cases "k = r") auto
    moreover have "e = 0 \<longrightarrow> r \<notin> set rs" using IH u(2) [of r] by auto
    moreover have "e = 0 \<longrightarrow> (\<forall>k. table_owner tab' k = (if k \<in> set (r # rs) then Some v else table_owner tab k))"
      using IH u(2) by simp
    moreover have "e = 0 \<longrightarrow> (\<forall>k \<in> set rs. k \<noteq> CONTROL_SPECIAL_RESID \<and> table_owner tab k = None)"
    proof (intro impI ballI)
      fix k assume "e = 0" "k \<in> set rs"
      with IH have "k \<noteq> CONTROL_SPECIAL_RESID" "table_owner (tab[unat r := v]) k = None" by blast+
      then show "k \<noteq> CONTROL_SPECIAL_RESID \<and> table_owner tab k = None"
        using u(2) [of k] by (auto split: if_splits)
    qed
    ultimately show ?thesis using IH r by simp
  qed
qed simp

interpretation res: registry table_ok table_owner
    "\<lambda>rs v tab. (case resource_table_add tab rs v of (e, tab') \<Rightarrow> (e = 0, tab'))"
proof unfold_locales
  fix s t :: "u8 list" and ks v k w b
  assume ok: "table_ok s"
  show "table_ok (snd (case resource_table_add s ks v of (e, tab') \<Rightarrow> (e = 0, tab')))"
    using add_loop_spec [OF _ ok, of v ks] ok by (auto simp: resource_table_add_def split: prod.splits)
  show "(case resource_table_add s ks v of (e, tab') \<Rightarrow> (e = 0, tab')) = (True, t) \<Longrightarrow>
      table_owner t k = (if k \<in> set ks then Some v else table_owner s k)"
    using add_loop_spec [OF _ ok, of v ks]
    by (auto simp: resource_table_add_def split: prod.splits if_splits)
  show "(case resource_table_add s ks v of (e, tab') \<Rightarrow> (e = 0, tab')) = (True, t) \<Longrightarrow>
      distinct ks \<and> (\<forall>k \<in> set ks. table_owner s k = None)"
    using add_loop_spec [OF _ ok, of v ks]
    by (auto simp: resource_table_add_def split: prod.splits if_splits)
  show "(case resource_table_add s ks v of (e, tab') \<Rightarrow> (e = 0, tab')) = (b, t) \<Longrightarrow>
      table_owner s k = Some w \<Longrightarrow> table_owner t k = Some w"
    using add_loop_spec [OF _ ok, of v ks]
    by (auto simp: resource_table_add_def split: prod.splits if_splits)
qed

lemma search_spec:
  "snd (resource_table_search tab r) = 0 \<longleftrightarrow> r = CONTROL_SPECIAL_RESID \<or> table_owner tab r \<noteq> None"
  "table_owner tab r = Some v \<Longrightarrow> fst (resource_table_search tab r) = v"
  by (auto simp: resource_table_search_def table_owner_def split: if_splits)

end
