(* ===== verification/Device_Control.thy ===== *)
theory Device_Control
  imports Resource_Table
begin

text \<open>
  The device control service (modules/rtos/sw_services/device_control/src/device_control.c):
  a host on a transport (I2C, USB) reads and writes resources that servicers own, on the same
  tile or behind an intertile link. A servicer's queue and the callbacks behind it are the
  record \<open>servicers\<close>, over the state \<open>'w\<close> of the application; an intertile message is the
  list of its bytes. The exchange of a command between the threads is the sequential
  composition of what each does, since each waits for the other.
\<close>

section \<open>Data\<close>

abbreviation (input) "CONTROL_VERSION \<equiv> (0x10 :: u8)"
abbreviation (input) "CONTROL_GET_VERSION \<equiv> (0x80 :: u8)"
abbreviation (input) "CONTROL_GET_LAST_COMMAND_STATUS \<equiv> (0x81 :: u8)"

datatype control_ret = CONTROL_SUCCESS | CONTROL_REGISTRATION_FAILED | CONTROL_BAD_COMMAND
  | CONTROL_DATA_LENGTH_ERROR | CONTROL_OTHER_TRANSPORT_ERROR | CONTROL_ERROR

datatype control_direction = CONTROL_HOST_TO_DEVICE | CONTROL_DEVICE_TO_HOST

fun ret_code :: "control_ret \<Rightarrow> u32" where
  "ret_code CONTROL_SUCCESS = 0"
| "ret_code CONTROL_REGISTRATION_FAILED = 1"
| "ret_code CONTROL_BAD_COMMAND = 2"
| "ret_code CONTROL_DATA_LENGTH_ERROR = 3"
| "ret_code CONTROL_OTHER_TRANSPORT_ERROR = 4"
| "ret_code CONTROL_ERROR = 5"

definition of_ret_code :: "u32 \<Rightarrow> control_ret" where
  "of_ret_code n = (if n = 0 then CONTROL_SUCCESS else if n = 1 then CONTROL_REGISTRATION_FAILED
     else if n = 2 then CONTROL_BAD_COMMAND else if n = 3 then CONTROL_DATA_LENGTH_ERROR
     else if n = 4 then CONTROL_OTHER_TRANSPORT_ERROR else CONTROL_ERROR)"

definition control_status :: "control_ret \<Rightarrow> u8" where
  "control_status r = ucast (ret_code r)"

lemma of_ret_code_code [simp]: "of_ret_code (ret_code r) = r"
  by (cases r) (simp_all add: of_ret_code_def)

definition is_read :: "u8 \<Rightarrow> bool" where
  "is_read cmd \<longleftrightarrow> cmd AND 0x80 \<noteq> 0"

text \<open>A servicer table entry; its tile is \<open>None\<close> on the host's own tile.\<close>

record servicer_entry =
  intertile_ctx :: "nat option"
  queue :: u32

text \<open>The context of the host tile. An entry that is not filled yet is \<open>None\<close>.\<close>

record device_control =
  resource_table :: "u8 list"
  intertile_port :: u8
  client_intertile :: "nat list"
  servicer_count :: nat
  servicer_table :: "servicer_entry option list"
  requested_payload_len :: u32
  requested_resid :: u8
  requested_cmd :: u8
  last_status :: u8

text \<open>
  The callbacks behind a queue: a read gets the buffer to fill, a write the payload. The heap
  hands out uninitialised memory, \<open>malloc n\<close>.
\<close>

record 'w servicers =
  read_cmd_cb :: "u32 \<Rightarrow> u8 \<Rightarrow> u8 \<Rightarrow> u8 list \<Rightarrow> 'w \<Rightarrow> control_ret \<times> u8 list \<times> 'w"
  write_cmd_cb :: "u32 \<Rightarrow> u8 \<Rightarrow> u8 \<Rightarrow> u8 list \<Rightarrow> 'w \<Rightarrow> control_ret \<times> 'w"
  malloc :: "nat \<Rightarrow> u8 list"

text \<open>
  The documented contract of a read callback: it fills the buffer it is given, whatever it
  holds, and no more than the buffer.
\<close>

definition servicers_ok :: "('w, 'z) servicers_scheme \<Rightarrow> bool" where
  "servicers_ok S \<longleftrightarrow> (\<forall>n. length (malloc S n) = n)
     \<and> (\<forall>q r c b b' w. length b = length b' \<longrightarrow> read_cmd_cb S q r c b w = read_cmd_cb S q r c b' w)
     \<and> (\<forall>q r c b w. length (fst (snd (read_cmd_cb S q r c b w))) = length b)"

section \<open>Messages between tiles\<close>

text \<open>The structure \<open>cmd_to_servicer_t\<close> and its 20 bytes; two of them are padding.\<close>

record cmd_to_servicer =
  cs_dev_ctrl_ctx :: u32
  cs_queue :: u32
  cs_payload_len :: u32
  cs_resid :: u8
  cs_cmd :: u8
  cs_payload :: u32

abbreviation (input) "CMD_TO_SERVICER_SIZE \<equiv> (20 :: nat)"

definition cmd_bytes :: "cmd_to_servicer \<Rightarrow> u8 list" where
  "cmd_bytes c = le32 (cs_dev_ctrl_ctx c) @ le32 (cs_queue c) @ le32 (cs_payload_len c)
     @ [cs_resid c, cs_cmd c, 0, 0] @ le32 (cs_payload c)"

definition of_cmd_bytes :: "u8 list \<Rightarrow> cmd_to_servicer" where
  "of_cmd_bytes bs = \<lparr>cs_dev_ctrl_ctx = of_le32 bs, cs_queue = of_le32 (drop 4 bs),
     cs_payload_len = of_le32 (drop 8 bs), cs_resid = bs ! 12, cs_cmd = bs ! 13,
     cs_payload = of_le32 (drop 16 bs)\<rparr>"

lemma length_cmd_bytes [simp]: "length (cmd_bytes c) = CMD_TO_SERVICER_SIZE"
  by (simp add: cmd_bytes_def)

lemma cmd_bytes_parts:
  "drop 4 (cmd_bytes c @ bs) = le32 (cs_queue c) @ le32 (cs_payload_len c)
     @ [cs_resid c, cs_cmd c, 0, 0] @ le32 (cs_payload c) @ bs"
  "drop 8 (cmd_bytes c @ bs) = le32 (cs_payload_len c)
     @ [cs_resid c, cs_cmd c, 0, 0] @ le32 (cs_payload c) @ bs"
  "drop 16 (cmd_bytes c @ bs) = le32 (cs_payload c) @ bs"
  "(cmd_bytes c @ bs) ! 12 = cs_resid c" "(cmd_bytes c @ bs) ! 13 = cs_cmd c"
  by (simp_all add: cmd_bytes_def nth_append)

interpretation cmdc: byte_codec CMD_TO_SERVICER_SIZE cmd_bytes of_cmd_bytes "\<lambda>_. True"
proof unfold_locales
  fix c :: cmd_to_servicer and bs
  show "length (cmd_bytes c) = CMD_TO_SERVICER_SIZE" by simp
  have "of_le32 (cmd_bytes c @ bs) = cs_dev_ctrl_ctx c" by (simp add: cmd_bytes_def)
  then show "of_cmd_bytes (cmd_bytes c @ bs) = c"
    unfolding of_cmd_bytes_def cmd_bytes_parts by simp
qed

section \<open>Servicers\<close>

text \<open>
  The body of \<open>device_control_servicer_cmd_recv\<close> for a received command with its payload
  buffer: the result, the buffer afterwards and the application state.
\<close>

definition servicer_exec :: "('w, 'z) servicers_scheme \<Rightarrow> u32 \<Rightarrow> u8 \<Rightarrow> u8 \<Rightarrow> u8 list \<Rightarrow> 'w
    \<Rightarrow> control_ret \<times> u8 list \<times> 'w" where
  "servicer_exec S q resid cmd payload w =
     (if is_read cmd then read_cmd_cb S q resid cmd payload w
      else let (ret, w) = write_cmd_cb S q resid cmd payload w in (ret, payload, w))"

text \<open>
  One turn of \<open>device_control_client_thread\<close> for a message of the host: the command and the
  buffer that is put into the servicer's queue. An empty message is skipped.
\<close>

definition client_thread_turn :: "('w, 'z) servicers_scheme \<Rightarrow> u32 \<Rightarrow> u8 list
    \<Rightarrow> (cmd_to_servicer \<times> u8 list) option res" where
  "client_thread_turn S ctx msg =
     (if length msg \<noteq> 0 then
        let c = (of_cmd_bytes msg)\<lparr>cs_dev_ctrl_ctx := ctx\<rparr>
        in if is_read (cs_cmd c) then
             rbind (c_assert (length msg = CMD_TO_SERVICER_SIZE)) (\<lambda>_.
             rbind (c_assert (0 < cs_payload_len c)) (\<lambda>_.
             Inr (Some (c, malloc S (unat (cs_payload_len c))))))
           else
             rbind (c_assert (CMD_TO_SERVICER_SIZE \<le> length msg)) (\<lambda>_.
             rbind (c_assert (unat (cs_payload_len c) = length msg - CMD_TO_SERVICER_SIZE)) (\<lambda>_.
             Inr (Some (c, drop CMD_TO_SERVICER_SIZE msg))))
      else Inr None)"

text \<open>The reply of a servicer whose gateway is on another tile.\<close>

definition servicer_reply :: "u8 \<Rightarrow> control_ret \<Rightarrow> u8 list \<Rightarrow> u8 list" where
  "servicer_reply cmd ret payload = le32 (ret_code ret) @ (if is_read cmd then payload else [])"

section \<open>Commands\<close>

text \<open>A store to the first byte of the payload.\<close>

fun put_byte :: "u8 \<Rightarrow> u8 list \<Rightarrow> u8 list res" where
  "put_byte b [] = Inl OutOfBounds"
| "put_byte b (x # xs) = Inr (b # xs)"

definition special_read_command :: "device_control \<Rightarrow> u8 \<Rightarrow> u8 list \<Rightarrow> u32 \<Rightarrow> (control_ret \<times> u8 list) res" where
  "special_read_command ctx cmd payload payload_len =
     (if cmd = CONTROL_GET_VERSION then
        (if payload_len \<noteq> 1 then Inr (CONTROL_BAD_COMMAND, payload)
         else rbind (put_byte CONTROL_VERSION payload) (\<lambda>p. Inr (CONTROL_SUCCESS, p)))
      else if cmd = CONTROL_GET_LAST_COMMAND_STATUS then
        (if payload_len \<noteq> 1 then Inr (CONTROL_BAD_COMMAND, payload)
         else rbind (put_byte (last_status ctx) payload) (\<lambda>p. Inr (CONTROL_SUCCESS, p)))
      else Inr (CONTROL_BAD_COMMAND, payload))"

text \<open>The on tile case: the servicer works on the caller's buffer.\<close>

definition on_tile_command :: "('w, 'z) servicers_scheme \<Rightarrow> u32 \<Rightarrow> u8 \<Rightarrow> u8 \<Rightarrow> u8 list \<Rightarrow> nat \<Rightarrow> 'w
    \<Rightarrow> (control_ret \<times> u8 list \<times> 'w) res" where
  "on_tile_command S q resid cmd payload payload_len w =
     (if payload_len \<le> length payload then
        let (ret, data, w) = servicer_exec S q resid cmd (take payload_len payload) w
        in Inr (ret, data @ drop payload_len payload, w)
      else Inl OutOfBounds)"

text \<open>
  The off tile case: the command goes to the client thread of the other tile, from there to the
  servicer, whose reply comes back. \<open>ctxs\<close> are the addresses of the two contexts, and
  \<open>ptr\<close> the one of the payload, which travel with the message.
\<close>

definition off_tile_command :: "('w, 'z) servicers_scheme \<Rightarrow> u32 \<times> u32 \<Rightarrow> u32 \<Rightarrow> u32 \<Rightarrow> u8 \<Rightarrow> u8
    \<Rightarrow> u8 list \<Rightarrow> nat \<Rightarrow> 'w \<Rightarrow> (control_ret \<times> u8 list \<times> 'w) res" where
  "off_tile_command S ctxs ptr q resid cmd payload payload_len w =
     (if payload_len \<le> length payload then
        let c = \<lparr>cs_dev_ctrl_ctx = fst ctxs, cs_queue = q, cs_payload_len = of_nat payload_len,
                 cs_resid = resid, cs_cmd = cmd, cs_payload = ptr\<rparr>;
            msg = cmd_bytes c @ (if is_read cmd then [] else take payload_len payload)
        in rbind (client_thread_turn S (snd ctxs) msg) (\<lambda>m.
           case m of
             None \<Rightarrow> Inl NullDeref
           | Some (c, buf) \<Rightarrow>
               let (ret, buf, w) = servicer_exec S (cs_queue c) (cs_resid c) (cs_cmd c) buf w;
                   reply = servicer_reply (cs_cmd c) ret buf;
                   xfer_len = length reply
               in if 4 \<le> xfer_len then
                    let ret = of_ret_code (of_le32 reply)
                    in if is_read cmd then
                         rbind (c_assert (payload_len = xfer_len - 4)) (\<lambda>_.
                         Inr (ret, take payload_len (drop 4 reply) @ drop payload_len payload, w))
                       else rbind (c_assert (xfer_len = 4)) (\<lambda>_. Inr (ret, payload, w))
                  else Inr (CONTROL_ERROR, payload, w))
      else Inl OutOfBounds)"

definition do_command :: "('w, 'z) servicers_scheme \<Rightarrow> u32 \<times> u32 \<Rightarrow> u32 \<Rightarrow> device_control \<Rightarrow> u8 \<Rightarrow> u8
    \<Rightarrow> u8 \<Rightarrow> u8 list \<Rightarrow> u32 \<Rightarrow> 'w \<Rightarrow> (control_ret \<times> u8 list \<times> 'w) res" where
  "do_command S ctxs ptr ctx servicer resid cmd payload payload_len w =
     (if resid = CONTROL_SPECIAL_RESID then
        if is_read cmd
        then rbind (special_read_command ctx cmd payload payload_len) (\<lambda>(ret, p). Inr (ret, p, w))
        else Inr (CONTROL_BAD_COMMAND, payload, w)
      else if unat servicer < length (servicer_table ctx) then
        (case servicer_table ctx ! unat servicer of
           None \<Rightarrow> Inl NullDeref
         | Some e \<Rightarrow>
             if intertile_ctx e = None
             then on_tile_command S (queue e) resid cmd payload (unat payload_len) w
             else off_tile_command S ctxs ptr (queue e) resid cmd payload (unat payload_len) w)
      else Inl OutOfBounds)"

text \<open>The result, the buffer, \<open>*buf_size\<close>, the context and the application state.\<close>

definition device_control_payload_transfer :: "('w, 'z) servicers_scheme \<Rightarrow> u32 \<times> u32 \<Rightarrow> u32
    \<Rightarrow> device_control \<Rightarrow> u8 list \<Rightarrow> u32 \<Rightarrow> control_direction \<Rightarrow> 'w
    \<Rightarrow> (control_ret \<times> u8 list \<times> u32 \<times> device_control \<times> 'w) res" where
  "device_control_payload_transfer S ctxs ptr ctx payload_buf buf_size direction w =
     (let len = requested_payload_len ctx; resid = requested_resid ctx; cmd = requested_cmd ctx;
          (servicer, e) = resource_table_search (resource_table ctx) resid;
          finish = (\<lambda>(ret, buf, n, w). Inr (ret, buf, n, ctx\<lparr>last_status := control_status ret\<rparr>, w))
      in if e = 0 then
           if direction = CONTROL_DEVICE_TO_HOST \<and> is_read cmd
              \<or> direction = CONTROL_HOST_TO_DEVICE \<and> \<not> is_read cmd then
             if len \<le> buf_size then
               rbind (do_command S ctxs ptr ctx servicer resid cmd payload_buf len w) (\<lambda>(ret, buf, w).
               finish (ret, buf, if direction = CONTROL_DEVICE_TO_HOST then len else buf_size, w))
             else finish (CONTROL_DATA_LENGTH_ERROR, payload_buf, buf_size, w)
           else if buf_size > 0 then finish (CONTROL_BAD_COMMAND, payload_buf, buf_size, w)
           else Inr (CONTROL_SUCCESS, payload_buf, buf_size, ctx, w)
         else finish (CONTROL_BAD_COMMAND, payload_buf, buf_size, w))"

definition device_control_request :: "device_control \<Rightarrow> u8 \<Rightarrow> u8 \<Rightarrow> u32 \<Rightarrow> control_ret \<times> device_control" where
  "device_control_request ctx resid cmd payload_len =
     (let ctx = ctx\<lparr>requested_resid := resid\<rparr>
      in if snd (resource_table_search (resource_table ctx) resid) = 0
         then (CONTROL_SUCCESS, ctx\<lparr>requested_cmd := cmd, requested_payload_len := payload_len\<rparr>)
         else (CONTROL_BAD_COMMAND, ctx))"

section \<open>Registration\<close>

record servicer_init_data =
  init_queue :: u32
  init_resources :: "u8 list"

text \<open>\<open>servicer_register\<close>: the code of \<open>resource_table_add\<close>, and the context.\<close>

definition servicer_register :: "device_control \<Rightarrow> servicer_init_data \<Rightarrow> nat option \<Rightarrow> nat
    \<Rightarrow> int \<times> device_control" where
  "servicer_register ctx d tile i =
     (let ctx = ctx\<lparr>servicer_table := (servicer_table ctx)
                [i := Some \<lparr>intertile_ctx = tile, queue = init_queue d\<rparr>]\<rparr>;
          (ret, tab) = resource_table_add (resource_table ctx) (init_resources d) (of_nat i)
      in (ret, ctx\<lparr>resource_table := tab\<rparr>))"

text \<open>
  One round of the loop of \<open>device_control_resources_register\<close>: what the gateway queue and
  the intertile links deliver in it, in the order of the links. The state is the context, the
  number of registered servicers and the last code.
\<close>

fun register_step :: "servicer_init_data option \<times> nat option \<Rightarrow> device_control \<times> nat \<times> int
    \<Rightarrow> device_control \<times> nat \<times> int" where
  "register_step (None, tile) st = st"
| "register_step (Some d, tile) (ctx, n, ret) =
     (if n < servicer_count ctx \<and> ret = 0 then
        let (ret, ctx) = servicer_register ctx d tile n
        in (ctx, if ret = 0 then n + 1 else n, ret)
      else (ctx, n, ret))"

text \<open>
  A round starts while servicers are missing, nothing failed and the time has not passed; the
  rounds are what the environment delivers until the time-out.
\<close>

definition register_round :: "(servicer_init_data option \<times> nat option) list
    \<Rightarrow> device_control \<times> nat \<times> int \<Rightarrow> device_control \<times> nat \<times> int" where
  "register_round deliveries st = fold register_step deliveries st"

fun register_loop :: "(servicer_init_data option \<times> nat option) list list
    \<Rightarrow> device_control \<times> nat \<times> int \<Rightarrow> device_control \<times> nat \<times> int" where
  "register_loop [] st = st"
| "register_loop (r # rs) (ctx, n, ret) =
     (if n < servicer_count ctx \<and> ret = 0 then register_loop rs (register_round r (ctx, n, ret))
      else (ctx, n, ret))"

definition device_control_resources_register :: "(servicer_init_data option \<times> nat option) list list
    \<Rightarrow> device_control \<Rightarrow> control_ret \<times> device_control" where
  "device_control_resources_register rounds ctx =
     (let (ctx, n, ret) = register_loop rounds
            (ctx\<lparr>servicer_table := replicate (servicer_count ctx) None\<rparr>, 0, 0)
      in (if n = servicer_count ctx then CONTROL_SUCCESS else CONTROL_REGISTRATION_FAILED, ctx))"

text \<open>\<open>device_control_init\<close> in host mode; \<open>ctx\<close> is cleared first.\<close>

definition device_control_init :: "nat \<Rightarrow> nat list \<Rightarrow> device_control res" where
  "device_control_init count links =
     rbind (c_assert (length links \<le> 3)) (\<lambda>_.
     Inr \<lparr>resource_table = resource_table_init, intertile_port = 0, client_intertile = links,
          servicer_count = count, servicer_table = [], requested_payload_len = 0,
          requested_resid = 0, requested_cmd = 0, last_status = 0\<rparr>)"

section \<open>Transports\<close>

text \<open>
  transport/i2c/device_control_i2c.c: a write of at least three bytes is a request, followed by
  the payload; a read fetches the answer. \<open>data\<close> is the transport's buffer, of
  \<open>RTOS_I2C_SLAVE_BUF_LEN\<close> bytes.
\<close>

definition device_control_i2c_rx_cb :: "('w, 'z) servicers_scheme \<Rightarrow> u32 \<times> u32 \<Rightarrow> u32 \<Rightarrow> device_control
    \<Rightarrow> u8 list \<Rightarrow> u32 \<Rightarrow> 'w \<Rightarrow> (u8 list \<times> device_control \<times> 'w) res" where
  "device_control_i2c_rx_cb S ctxs ptr ctx data len w =
     (if 3 \<le> len then
        let (_, ctx) = device_control_request ctx (data ! 0) (data ! 1) (ucast (data ! 2))
        in rbind (device_control_payload_transfer S ctxs ptr ctx (drop 3 data) (len - 3)
                   CONTROL_HOST_TO_DEVICE w) (\<lambda>(_, buf, _, ctx, w).
           Inr (take 3 data @ buf, ctx, w))
      else Inr (data, ctx, w))"

definition device_control_i2c_tx_start_cb :: "('w, 'z) servicers_scheme \<Rightarrow> u32 \<times> u32 \<Rightarrow> u32
    \<Rightarrow> device_control \<Rightarrow> u8 list \<Rightarrow> u32 \<Rightarrow> 'w \<Rightarrow> (u8 list \<times> u32 \<times> device_control \<times> 'w) res" where
  "device_control_i2c_tx_start_cb S ctxs ptr ctx data buf_len w =
     rbind (device_control_payload_transfer S ctxs ptr ctx data buf_len CONTROL_DEVICE_TO_HOST w)
       (\<lambda>(ret, data, len, ctx, w).
        if ret \<noteq> CONTROL_SUCCESS
        then rbind (put_byte (control_status ret) data) (\<lambda>data. Inr (data, 1, ctx, w))
        else Inr (data, len, ctx, w))"

text \<open>
  transport/usb/device_control_usb.c: \<open>device_control_usb_xfer\<close>. \<open>request_data\<close> is the
  static buffer of \<open>CFG_TUD_ENDPOINT0_SIZE\<close> bytes. \<open>UsbXfer n\<close> is a call of
  \<open>tud_control_xfer\<close>, which moves \<open>n\<close> bytes into or out of the buffer.
\<close>

datatype usb_stage = CONTROL_STAGE_SETUP | CONTROL_STAGE_DATA | CONTROL_STAGE_ACK

datatype usb_result = UsbFalse | UsbTrue | UsbXfer nat

record usb_request =
  bmRequestType :: u8
  wValue :: u16
  wIndex :: u16
  wLength :: u16

definition usb_out :: "('w, 'z) servicers_scheme \<Rightarrow> u32 \<times> u32 \<Rightarrow> u32 \<Rightarrow> device_control \<Rightarrow> u8 list
    \<Rightarrow> usb_stage \<Rightarrow> usb_request \<Rightarrow> 'w \<Rightarrow> (usb_result \<times> u8 list \<times> device_control \<times> 'w) res" where
  "usb_out S ctxs ptr ctx request_data stage r w =
     (if stage = CONTROL_STAGE_SETUP then Inr (UsbXfer (unat (wLength r)), request_data, ctx, w)
      else if stage = CONTROL_STAGE_DATA then
        rbind (device_control_payload_transfer S ctxs ptr ctx request_data (ucast (wLength r))
                 CONTROL_HOST_TO_DEVICE w) (\<lambda>(ret, buf, _, ctx, w).
        Inr (if ret = CONTROL_SUCCESS then UsbTrue else UsbFalse, buf, ctx, w))
      else Inr (UsbTrue, request_data, ctx, w))"

definition usb_in :: "('w, 'z) servicers_scheme \<Rightarrow> u32 \<times> u32 \<Rightarrow> u32 \<Rightarrow> device_control \<Rightarrow> u8 list
    \<Rightarrow> usb_stage \<Rightarrow> usb_request \<Rightarrow> 'w \<Rightarrow> (usb_result \<times> u8 list \<times> device_control \<times> 'w) res" where
  "usb_in S ctxs ptr ctx request_data stage r w =
     (if stage = CONTROL_STAGE_SETUP then
        rbind (device_control_payload_transfer S ctxs ptr ctx request_data (of_nat (length request_data))
                 CONTROL_DEVICE_TO_HOST w) (\<lambda>(ret, buf, len, ctx, w).
        Inr (if ret = CONTROL_SUCCESS then UsbXfer (unat len) else UsbFalse, buf, ctx, w))
      else Inr (UsbTrue, request_data, ctx, w))"

definition device_control_usb_xfer :: "('w, 'z) servicers_scheme \<Rightarrow> u32 \<times> u32 \<Rightarrow> u32 \<Rightarrow> device_control
    \<Rightarrow> u8 list \<Rightarrow> usb_stage \<Rightarrow> usb_request \<Rightarrow> 'w
    \<Rightarrow> (usb_result \<times> u8 list \<times> device_control \<times> 'w) res" where
  "device_control_usb_xfer S ctxs ptr ctx request_data stage r w =
     (let (ret, ctx) = (if stage = CONTROL_STAGE_SETUP
                        then device_control_request ctx (ucast (wIndex r)) (ucast (wValue r)) (ucast (wLength r))
                        else (CONTROL_SUCCESS, ctx))
      in if ret \<noteq> CONTROL_SUCCESS then Inr (UsbFalse, request_data, ctx, w)
         else if bmRequestType r = 0x40 then usb_out S ctxs ptr ctx request_data stage r w
         else if bmRequestType r = 0xC0 then usb_in S ctxs ptr ctx request_data stage r w
         else Inr (UsbFalse, request_data, ctx, w))"

section \<open>Where a servicer runs does not matter\<close>

lemma ret_reply [simp]: "of_ret_code (of_le32 (le32 (ret_code r) @ bs)) = r"
  by simp

lemma client_thread_read:
  assumes "is_read (cs_cmd c)"
  shows "client_thread_turn S ctx (cmd_bytes c) =
    (if 0 < cs_payload_len c
     then Inr (Some (c\<lparr>cs_dev_ctrl_ctx := ctx\<rparr>, malloc S (unat (cs_payload_len c)))) else Inl AssertFail)"
  using assms by (simp add: client_thread_turn_def cmdc.dec_enc_exact)

lemma client_thread_write:
  assumes "\<not> is_read (cs_cmd c)" and "unat (cs_payload_len c) = length bs"
  shows "client_thread_turn S ctx (cmd_bytes c @ bs) = Inr (Some (c\<lparr>cs_dev_ctrl_ctx := ctx\<rparr>, bs))"
  using assms cmdc.drop_enc [of c bs] by (simp add: client_thread_turn_def cmdc.dec_enc)

lemma off_tile_read:
  assumes S: "servicers_ok S" and n: "0 < n" "n \<le> length payload" "n < 2 ^ 32" and "is_read cmd"
  shows "off_tile_command S ctxs ptr q resid cmd payload n w = on_tile_command S q resid cmd payload n w"
proof -
  have u: "unat (of_nat n :: u32) = n" using n(3) by (simp add: unat_of_nat take_bit_nat_eq_self)
  then have pos: "0 < (of_nat n :: u32)" using n(1) by (metis unat_0 word_gt_0 less_numeral_extra(3))
  obtain ret data w' where e: "read_cmd_cb S q resid cmd (malloc S n) w = (ret, data, w')"
    using prod_cases3 by blast
  have "length (malloc S n) = length (take n payload)"
    using S n(2) by (simp add: servicers_ok_def)
  then have e': "read_cmd_cb S q resid cmd (take n payload) w = (ret, data, w')" and l: "length data = n"
    using S e n(2) unfolding servicers_ok_def by (metis, metis fst_conv snd_conv)
  show ?thesis
    using assms u pos e e' l
    by (simp add: off_tile_command_def on_tile_command_def client_thread_read servicer_exec_def
        servicer_reply_def)
qed

lemma off_tile_write:
  assumes n: "n \<le> length payload" "n < 2 ^ 32" and "\<not> is_read cmd"
  shows "off_tile_command S ctxs ptr q resid cmd payload n w = on_tile_command S q resid cmd payload n w"
proof -
  have u: "unat (of_nat n :: u32) = n" using n(2) by (simp add: unat_of_nat take_bit_nat_eq_self)
  obtain ret w' where e: "write_cmd_cb S q resid cmd (take n payload) w = (ret, w')" by fastforce
  show ?thesis
    using assms u e
    by (simp add: off_tile_command_def on_tile_command_def client_thread_write servicer_exec_def
        servicer_reply_def)
qed

section \<open>Registrations\<close>

text \<open>
  The servicers \<open>regs\<close> are registered so far, with their tiles, the first under number 0.
\<close>

definition reg_pairs :: "(servicer_init_data \<times> nat option) list \<Rightarrow> (u8 list \<times> u8) list" where
  "reg_pairs regs = map (\<lambda>i. (init_resources (fst (regs ! i)), of_nat i)) [0 ..< length regs]"

definition registered :: "u8 list \<Rightarrow> nat \<Rightarrow> (servicer_init_data \<times> nat option) list
    \<Rightarrow> device_control \<times> nat \<times> int \<Rightarrow> bool" where
  "registered tab0 count regs st \<longleftrightarrow> (case st of (ctx, n, ret) \<Rightarrow>
     n = length regs \<and> n \<le> count \<and> servicer_count ctx = count \<and> length (servicer_table ctx) = count
     \<and> (ret = 0 \<or> n < count)
     \<and> (ret = 0 \<longrightarrow> res.add_all (reg_pairs regs) tab0 = (True, resource_table ctx))
     \<and> n \<le> 255
     \<and> (\<forall>i < n. servicer_table ctx ! i = Some \<lparr>intertile_ctx = snd (regs ! i), queue = init_queue (fst (regs ! i))\<rparr>))"

lemma reg_pairs_snoc: "reg_pairs (regs @ [r]) = reg_pairs regs @ [(init_resources (fst r), of_nat (length regs))]"
  by (simp add: reg_pairs_def nth_append)

lemma register_step_registered:
  assumes "registered tab0 count regs st"
  shows "\<exists>more. registered tab0 count (regs @ more) (register_step (d, tile) st)
    \<and> (\<forall>(x, y) \<in> set more. d = Some x \<and> y = tile)"
proof -
  obtain ctx n ret where st: "st = (ctx, n, ret)" using prod_cases3 by blast
  show ?thesis
  proof (cases "d \<noteq> None \<and> n < count \<and> ret = 0")
    case False
    then have "register_step (d, tile) st = st"
      using assms st by (cases d) (auto simp: registered_def)
    with assms show ?thesis by (intro exI [of _ "[]"]) simp
  next
    case True
    then obtain x where d: "d = Some x" and n: "n < count" "ret = 0" by blast
    obtain ret' ctx' where s: "servicer_register ctx x tile n = (ret', ctx')" by fastforce
    obtain tab where tab: "resource_table_add (resource_table ctx) (init_resources x) (of_nat n) = (ret', tab)"
      and ctx': "ctx' = ctx\<lparr>servicer_table := (servicer_table ctx)[n := Some \<lparr>intertile_ctx = tile, queue = init_queue x\<rparr>],
        resource_table := tab\<rparr>"
      using s by (auto simp: servicer_register_def split: prod.splits)
    have step: "register_step (d, tile) st = (ctx', if ret' = 0 then n + 1 else n, ret')"
      using assms n st s d by (simp add: registered_def)
    have r: "n = length regs" "servicer_count ctx = count" "length (servicer_table ctx) = count" "n \<le> 255"
      "res.add_all (reg_pairs regs) tab0 = (True, resource_table ctx)"
      "\<forall>i < n. servicer_table ctx ! i = Some \<lparr>intertile_ctx = snd (regs ! i), queue = init_queue (fst (regs ! i))\<rparr>"
      using assms st n by (simp_all add: registered_def)
    show ?thesis
    proof (cases "ret' = 0")
      case False
      with n r step have "registered tab0 count regs (register_step (d, tile) st)"
        by (simp add: registered_def ctx')
      then show ?thesis by (intro exI [of _ "[]"]) simp
    next
      case True
      with tab have "n \<noteq> 255" by (auto simp: resource_table_add_def)
      moreover have "res.add_all (reg_pairs (regs @ [(x, tile)])) tab0 = (True, tab)"
        using r(5) tab True by (simp add: reg_pairs_snoc res.add_all_snoc r(1))
      ultimately have "registered tab0 count (regs @ [(x, tile)]) (register_step (d, tile) st)"
        using True n r step by (simp add: registered_def ctx' nth_append less_Suc_eq)
      then show ?thesis using d by (intro exI [of _ "[(x, tile)]"]) simp
    qed
  qed
qed

definition delivered :: "(servicer_init_data option \<times> nat option) set \<Rightarrow> (servicer_init_data \<times> nat option) list \<Rightarrow> bool" where
  "delivered D regs \<longleftrightarrow> (\<forall>(x, tile) \<in> set regs. (Some x, tile) \<in> D)"

lemma register_round_registered:
  assumes "registered tab0 count regs st"
  shows "\<exists>more. registered tab0 count (regs @ more) (register_round r st) \<and> delivered (set r) more"
  using assms
proof (induction r arbitrary: regs st)
  case Nil
  then show ?case by (intro exI [of _ "[]"]) (simp add: register_round_def delivered_def)
next
  case (Cons dt r)
  obtain d tile where dt: "dt = (d, tile)" by fastforce
  obtain m1 where m1: "registered tab0 count (regs @ m1) (register_step (d, tile) st)"
    "\<forall>(x, y) \<in> set m1. d = Some x \<and> y = tile"
    using register_step_registered [OF Cons.prems] by blast
  obtain m2 where m2: "registered tab0 count ((regs @ m1) @ m2) (register_round r (register_step (d, tile) st))"
    "delivered (set r) m2"
    using Cons.IH [OF m1(1)] by blast
  have "delivered (set (dt # r)) (m1 @ m2)"
    using m1(2) m2(2) by (auto simp: delivered_def dt)
  with m2(1) show ?case
    by (intro exI [of _ "m1 @ m2"]) (simp add: register_round_def dt)
qed

lemma register_loop_registered:
  assumes "registered tab0 count regs st"
  shows "\<exists>more. registered tab0 count (regs @ more) (register_loop rounds st)
    \<and> delivered (\<Union> (set ` set rounds)) more"
  using assms
proof (induction rounds st arbitrary: regs rule: register_loop.induct)
  case (1 st)
  then show ?case by (intro exI [of _ "[]"]) (simp add: delivered_def)
next
  case (2 r rs ctx n ret)
  show ?case
  proof (cases "n < servicer_count ctx \<and> ret = 0")
    case False
    with "2.prems" show ?thesis
      by (intro exI [of _ "[]"]) (simp only: register_loop.simps if_False append_Nil2, simp add: delivered_def)
  next
    case True
    obtain m1 where m1: "registered tab0 count (regs @ m1) (register_round r (ctx, n, ret))" "delivered (set r) m1"
      using register_round_registered [OF "2.prems"] by blast
    obtain m2 where m2: "registered tab0 count ((regs @ m1) @ m2) (register_loop rs (register_round r (ctx, n, ret)))"
      "delivered (\<Union> (set ` set rs)) m2"
      using "2.IH" [OF True m1(1)] by blast
    have "delivered (\<Union> (set ` set (r # rs))) (m1 @ m2)"
      using m1(2) m2(2) by (auto simp: delivered_def)
    with m2(1) True show ?thesis by (intro exI [of _ "m1 @ m2"]) simp
  qed
qed

section \<open>Properties\<close>

text \<open>
  C40: A command has the same result, returns the same data and leaves the application in the same
  state whether the servicer runs on the host's tile or behind an intertile link, as long as
  something is to be read; the serialised command, its client thread and the reply lose nothing.
\<close>

theorem off_tile_equals_on_tile:
  assumes "servicers_ok S" and "n \<le> length payload" and "n < 2 ^ 32" and "is_read cmd \<longrightarrow> 0 < n"
  shows "off_tile_command S ctxs ptr q resid cmd payload n w = on_tile_command S q resid cmd payload n w"
  using assms by (cases "is_read cmd") (simp_all add: off_tile_read off_tile_write)

text \<open>A servicer with one register: a read repeats its value, a write stores the first byte.\<close>

definition register_servicer :: "u8 servicers" where
  "register_servicer = \<lparr>read_cmd_cb = (\<lambda>q r c b w. (CONTROL_SUCCESS, replicate (length b) w, w)),
     write_cmd_cb = (\<lambda>q r c b w. (if b = [] then CONTROL_ERROR else CONTROL_SUCCESS, if b = [] then w else hd b)),
     malloc = (\<lambda>n. replicate n 0xAA)\<rparr>"

lemma register_servicer_ok: "servicers_ok register_servicer"
  by (simp add: servicers_ok_def register_servicer_def)

theorem off_tile_equals_on_tile_witness:
  "off_tile_command register_servicer (1, 2) 3 4 7 0x80 [0, 0, 9] 2 0x55
    = on_tile_command register_servicer 4 7 0x80 [0, 0, 9] 2 0x55"
  by (rule off_tile_equals_on_tile [OF register_servicer_ok]) simp_all

text \<open>
  A read of no bytes, which succeeds on the host's tile, fails an assertion of the client thread
  on another tile; the length comes from the transport, unchecked.
\<close>

theorem off_tile_empty_read_fails:
  assumes "is_read cmd"
  shows "off_tile_command S ctxs ptr q resid cmd payload 0 w = Inl AssertFail"
  using assms by (simp add: off_tile_command_def client_thread_read)

theorem off_tile_empty_read_fails_witness:
  "off_tile_command register_servicer (1, 2) 3 4 7 0x80 [0, 0] 0 0x55 = Inl AssertFail
    \<and> on_tile_command register_servicer 4 7 0x80 [0, 0] 0 0x55 = Inr (CONTROL_SUCCESS, [0, 0], 0x55)"
  using off_tile_empty_read_fails [of "0x80" register_servicer "(1, 2)" 3 4 7 "[0, 0]" "0x55"]
  by (simp add: is_read_def on_tile_command_def servicer_exec_def register_servicer_def)

text \<open>
  When registration succeeds, as many servicers as announced were delivered, every resource of the
  i-th is found under number i, whose table entry leads to its queue and tile, and no resource
  belongs to two servicers.
\<close>

theorem registration_routes:
  assumes "device_control_resources_register rounds ctx = (CONTROL_SUCCESS, ctx')"
    and "table_ok (resource_table ctx)"
  shows "\<exists>regs. length regs = servicer_count ctx \<and> delivered (\<Union> (set ` set rounds)) regs
    \<and> (\<forall>i < length regs. servicer_table ctx' ! i
          = Some \<lparr>intertile_ctx = snd (regs ! i), queue = init_queue (fst (regs ! i))\<rparr>
        \<and> (\<forall>r \<in> set (init_resources (fst (regs ! i))).
             resource_table_search (resource_table ctx') r = (of_nat i, 0)))
    \<and> (\<forall>i < length regs. \<forall>j < length regs. i \<noteq> j \<longrightarrow>
         set (init_resources (fst (regs ! i))) \<inter> set (init_resources (fst (regs ! j))) = {})"
proof -
  let ?st = "(ctx\<lparr>servicer_table := replicate (servicer_count ctx) None\<rparr>, 0, 0)"
  let ?tab = "resource_table ctx" and ?count = "servicer_count ctx"
  have "registered ?tab ?count [] ?st" by (simp add: registered_def reg_pairs_def)
  then obtain regs where r: "registered ?tab ?count regs (register_loop rounds ?st)"
    "delivered (\<Union> (set ` set rounds)) regs"
    using register_loop_registered [of ?tab ?count "[]" ?st rounds] by auto
  obtain n ret where l: "register_loop rounds ?st = (ctx', n, ret)" "n = servicer_count ctx'"
    using assms(1) unfolding device_control_resources_register_def
    by (auto simp: Let_def split: prod.splits if_splits)
  have n: "length regs = ?count" "?count \<le> 255"
    and all: "res.add_all (reg_pairs regs) ?tab = (True, resource_table ctx')"
    and entry: "\<forall>i < length regs. servicer_table ctx' ! i
      = Some \<lparr>intertile_ctx = snd (regs ! i), queue = init_queue (fst (regs ! i))\<rparr>"
    using r(1) l by (auto simp: registered_def)
  have pair: "(init_resources (fst (regs ! i)), of_nat i) \<in> set (reg_pairs regs)" if "i < length regs" for i
    using that by (auto simp: reg_pairs_def)
  have "resource_table_search (resource_table ctx') r = (of_nat i, 0)"
    if "i < length regs" "r \<in> set (init_resources (fst (regs ! i)))" for i r
  proof -
    have "table_owner (resource_table ctx') r = Some (of_nat i)"
      using res.add_all_owner [OF assms(2) all pair [OF that(1)] that(2)] .
    then show ?thesis
      using search_spec [of "resource_table ctx'" r] by (simp add: prod_eq_iff)
  qed
  moreover have "set (init_resources (fst (regs ! i))) \<inter> set (init_resources (fst (regs ! j))) = {}"
    if "i < length regs" "j < length regs" "i \<noteq> j" for i j
  proof (rule ccontr)
    assume "\<not> ?thesis"
    then obtain k where "k \<in> set (init_resources (fst (regs ! i)))" "k \<in> set (init_resources (fst (regs ! j)))"
      by blast
    then have "(of_nat i :: u8) = of_nat j"
      using res.add_all_disjoint [OF assms(2) all pair [OF that(1)] pair [OF that(2)]] by blast
    then have "unat (of_nat i :: u8) = unat (of_nat j :: u8)" by simp
    moreover have "i < 2 ^ 8" "j < 2 ^ 8" using that n by simp_all
    ultimately show False using that(3) by (simp add: unat_of_nat take_bit_nat_eq_self)
  qed
  ultimately show ?thesis using n(1) r(2) entry by blast
qed

text \<open>The context after a successful registration: every owner has an entry.\<close>

definition routes_ok :: "device_control \<Rightarrow> bool" where
  "routes_ok ctx \<longleftrightarrow> table_ok (resource_table ctx)
     \<and> (\<forall>r v. table_owner (resource_table ctx) r = Some v \<longrightarrow>
          unat v < length (servicer_table ctx) \<and> servicer_table ctx ! unat v \<noteq> None)"

lemma on_tile_command_total:
  assumes "servicers_ok S" and "n \<le> length payload"
  shows "\<exists>ret buf w'. on_tile_command S q resid cmd payload n w = Inr (ret, buf, w') \<and> length buf = length payload"
proof -
  obtain ret data w' where e: "servicer_exec S q resid cmd (take n payload) w = (ret, data, w')"
    using prod_cases3 by blast
  have l: "length (fst (snd (read_cmd_cb S q resid cmd (take n payload) w))) = n"
    using assms by (simp add: servicers_ok_def)
  have "length data = n"
  proof (cases "is_read cmd")
    case True
    with e l show ?thesis by (simp add: servicer_exec_def)
  next
    case False
    with e have "data = take n payload" by (auto simp: servicer_exec_def split: prod.splits)
    with assms(2) show ?thesis by simp
  qed
  with e assms(2) show ?thesis by (simp add: on_tile_command_def)
qed

lemma put_byte_total: "0 < length p \<Longrightarrow> \<exists>p'. put_byte b p = Inr p' \<and> length p' = length p"
  by (cases p) simp_all

lemma special_read_total:
  assumes "unat n \<le> length payload"
  shows "\<exists>ret buf. special_read_command ctx cmd payload n = Inr (ret, buf) \<and> length buf = length payload"
proof (cases "n = 1")
  case True
  with assms have "0 < length payload" by (simp add: Suc_le_eq)
  then show ?thesis
    using put_byte_total [of payload CONTROL_VERSION] put_byte_total [of payload "last_status ctx"]
    by (auto simp: special_read_command_def True)
next
  case False
  then show ?thesis by (simp add: special_read_command_def)
qed

lemma do_command_total:
  assumes S: "servicers_ok S" and n: "unat n \<le> length payload" "is_read cmd \<longrightarrow> 0 < n"
    and r: "resid \<noteq> CONTROL_SPECIAL_RESID \<longrightarrow>
      unat servicer < length (servicer_table ctx) \<and> servicer_table ctx ! unat servicer \<noteq> None"
  shows "\<exists>ret buf w'. do_command S ctxs ptr ctx servicer resid cmd payload n w = Inr (ret, buf, w')
    \<and> length buf = length payload"
proof (cases "resid = CONTROL_SPECIAL_RESID")
  case True
  then show ?thesis
    using special_read_total [OF n(1), of ctx cmd] by (auto simp: do_command_def)
next
  case False
  with r obtain e where e: "unat servicer < length (servicer_table ctx)" "servicer_table ctx ! unat servicer = Some e"
    by blast
  have n32: "unat n < 2 ^ 32" using unsigned_less [of n, where ?'a = nat] by simp
  have pos: "is_read cmd \<longrightarrow> 0 < unat n" using n(2) by (simp add: word_gt_0 unat_gt_0)
  have "off_tile_command S ctxs ptr (queue e) resid cmd payload (unat n) w
      = on_tile_command S (queue e) resid cmd payload (unat n) w"
    using off_tile_read [OF S _ n(1) n32] off_tile_write [OF n(1) n32] pos by (cases "is_read cmd") blast+
  with e False on_tile_command_total [OF S n(1), of "queue e" resid cmd w]
  show ?thesis by (simp add: do_command_def)
qed

lemma transfer_do:
  assumes "resource_table_search (resource_table ctx) (requested_resid ctx) = (servicer, e)" "e = 0"
    and dir: "dir = CONTROL_DEVICE_TO_HOST \<and> is_read (requested_cmd ctx)
      \<or> dir = CONTROL_HOST_TO_DEVICE \<and> \<not> is_read (requested_cmd ctx)"
    and "requested_payload_len ctx \<le> buf_size"
    and "do_command S ctxs ptr ctx servicer (requested_resid ctx) (requested_cmd ctx) buf
      (requested_payload_len ctx) w = Inr (ret, buf', w')"
  shows "device_control_payload_transfer S ctxs ptr ctx buf buf_size dir w
      = Inr (ret, buf', if dir = CONTROL_DEVICE_TO_HOST then requested_payload_len ctx else buf_size,
          ctx\<lparr>last_status := control_status ret\<rparr>, w')"
  using assms by (auto simp: device_control_payload_transfer_def Let_def)

text \<open>
  With registered servicers, a transfer into a buffer of at least \<open>buf_size\<close> bytes returns without
  an access outside the buffer and without a failed assertion (a read asks for at least one byte);
  it never reports more bytes than the buffer holds, and it remembers its result as last status,
  except for the empty write that opens a read.
\<close>

theorem payload_transfer_safe:
  assumes "servicers_ok S" and "routes_ok ctx" and "unat buf_size \<le> length buf"
    and "is_read (requested_cmd ctx) \<longrightarrow> 0 < requested_payload_len ctx"
  shows "\<exists>ret buf' n' ctx' w'. device_control_payload_transfer S ctxs ptr ctx buf buf_size dir w
      = Inr (ret, buf', n', ctx', w')
    \<and> length buf' = length buf \<and> n' \<le> buf_size
    \<and> (ctx' = ctx\<lparr>last_status := control_status ret\<rparr>
       \<or> ctx' = ctx \<and> ret = CONTROL_SUCCESS \<and> buf_size = 0)"
proof -
  let ?len = "requested_payload_len ctx" and ?resid = "requested_resid ctx" and ?cmd = "requested_cmd ctx"
  obtain servicer e where se: "resource_table_search (resource_table ctx) ?resid = (servicer, e)" by fastforce
  show ?thesis
  proof (cases "e = 0 \<and> (dir = CONTROL_DEVICE_TO_HOST \<and> is_read ?cmd
      \<or> dir = CONTROL_HOST_TO_DEVICE \<and> \<not> is_read ?cmd) \<and> ?len \<le> buf_size")
    case False
    let ?m = "dir = CONTROL_DEVICE_TO_HOST \<and> is_read ?cmd \<or> dir = CONTROL_HOST_TO_DEVICE \<and> \<not> is_read ?cmd"
    from False consider "e \<noteq> 0" | "e = 0" "\<not> ?m" | "e = 0" "?m" "\<not> ?len \<le> buf_size" by blast
    then show ?thesis
    proof cases
      case 1
      then show ?thesis by (simp add: device_control_payload_transfer_def Let_def se)
    next
      case 2
      then show ?thesis
        by (cases "0 < buf_size")
           (simp_all only: device_control_payload_transfer_def Let_def se prod.case simp_thms if_True if_False,
            simp_all add: word_gt_0)
    next
      case 3
      then show ?thesis
        by (simp_all only: device_control_payload_transfer_def Let_def se prod.case simp_thms if_True if_False) simp
    qed
  next
    case True
    have r: "?resid \<noteq> CONTROL_SPECIAL_RESID \<longrightarrow>
        unat servicer < length (servicer_table ctx) \<and> servicer_table ctx ! unat servicer \<noteq> None"
      using se True assms(2) search_spec [of "resource_table ctx" ?resid]
      by (auto simp: routes_ok_def)
    have l: "unat ?len \<le> length buf" using True assms(3) by (simp add: word_le_nat_alt)
    obtain ret buf' w' where d: "do_command S ctxs ptr ctx servicer ?resid ?cmd buf ?len w = Inr (ret, buf', w')"
      "length buf' = length buf"
      using do_command_total [OF assms(1) l assms(4) r] by blast
    from True have T: "e = 0" "dir = CONTROL_DEVICE_TO_HOST \<and> is_read ?cmd
      \<or> dir = CONTROL_HOST_TO_DEVICE \<and> \<not> is_read ?cmd" "?len \<le> buf_size" by simp_all
    show ?thesis
      using d(2) T(3) by (simp add: transfer_do [OF se T d(1)])
  qed
qed

text \<open>A context with the register servicer on the host's tile, owning resource 7.\<close>

definition one_servicer :: device_control where
  "one_servicer = \<lparr>resource_table = resource_table_init[7 := 0], intertile_port = 0, client_intertile = [],
     servicer_count = 1, servicer_table = [Some \<lparr>intertile_ctx = None, queue = 4\<rparr>],
     requested_payload_len = 1, requested_resid = 7, requested_cmd = 0x80, last_status = 2\<rparr>"

lemma one_servicer_ok: "routes_ok one_servicer"
proof -
  have "table_owner (resource_table_init[unat (7 :: u8) := 0]) r = (if r = 7 then Some 0 else None)" for r
    using table_update(2) [OF table_init_ok, of 7 0 r]
    by (simp add: table_owner_def resource_table_init_def nth_list_update split: if_splits)
       (metis length_replicate nth_replicate table_init_ok u8_index resource_table_init_def)
  moreover have "table_ok (resource_table_init[unat (7 :: u8) := 0])"
    by (rule table_update(1) [OF table_init_ok]) simp_all
  ultimately show ?thesis by (auto simp: routes_ok_def one_servicer_def split: if_splits)
qed

theorem payload_transfer_safe_witness:
  "\<exists>ret buf' n' ctx' w'. device_control_payload_transfer register_servicer (1, 2) 3 one_servicer [0, 0] 2
      CONTROL_DEVICE_TO_HOST 0x55 = Inr (ret, buf', n', ctx', w')
    \<and> length buf' = length [0 :: u8, 0 :: u8] \<and> n' \<le> 2
    \<and> (ctx' = one_servicer\<lparr>last_status := control_status ret\<rparr>
       \<or> ctx' = one_servicer \<and> ret = CONTROL_SUCCESS \<and> (2 :: u32) = 0)"
  by (rule payload_transfer_safe [OF register_servicer_ok one_servicer_ok])
     (simp_all add: one_servicer_def)

text \<open>
  Over I2C, the two halves of a read, the write that names resource, command and length and the
  read that follows, deliver what the servicer's command returns with that length; the first half
  changes neither the servicer nor the last status.
\<close>

theorem i2c_read_two_halves:
  assumes "resource_table_search (resource_table ctx) r = (v, 0)" and "is_read c" and "ucast n \<le> buf_len"
    and "ctx1 = ctx\<lparr>requested_resid := r, requested_cmd := c, requested_payload_len := ucast n\<rparr>"
    and "do_command S ctxs ptr ctx1 v r c data (ucast n) w = Inr (CONTROL_SUCCESS, data', w')"
  shows "device_control_i2c_rx_cb S ctxs ptr ctx [r, c, n] 3 w = Inr ([r, c, n], ctx1, w)
    \<and> device_control_i2c_tx_start_cb S ctxs ptr ctx1 data buf_len w
        = Inr (data', ucast n, ctx1\<lparr>last_status := 0\<rparr>, w')"
proof
  show "device_control_i2c_rx_cb S ctxs ptr ctx [r, c, n] 3 w = Inr ([r, c, n], ctx1, w)"
    using assms(1,2,4)
    by (simp add: device_control_i2c_rx_cb_def device_control_request_def
        device_control_payload_transfer_def Let_def)
  have "device_control_payload_transfer S ctxs ptr ctx1 data buf_len CONTROL_DEVICE_TO_HOST w
      = Inr (CONTROL_SUCCESS, data', ucast n, ctx1\<lparr>last_status := 0\<rparr>, w')"
    using transfer_do [of ctx1 v 0 CONTROL_DEVICE_TO_HOST buf_len S ctxs ptr data w CONTROL_SUCCESS data' w'] assms
    by (simp add: control_status_def)
  then show "device_control_i2c_tx_start_cb S ctxs ptr ctx1 data buf_len w
      = Inr (data', ucast n, ctx1\<lparr>last_status := 0\<rparr>, w')"
    by (simp add: device_control_i2c_tx_start_cb_def)
qed

theorem i2c_read_two_halves_witness:
  "device_control_i2c_rx_cb register_servicer (1, 2) 3 one_servicer [0, 0x81, 1] 3 0x55
      = Inr ([0, 0x81, 1], one_servicer\<lparr>requested_resid := 0, requested_cmd := 0x81, requested_payload_len := 1\<rparr>, 0x55)
    \<and> device_control_i2c_tx_start_cb register_servicer (1, 2) 3
        (one_servicer\<lparr>requested_resid := 0, requested_cmd := 0x81, requested_payload_len := 1\<rparr>) [9, 9] 2 0x55
      = Inr ([2, 9], 1, one_servicer\<lparr>requested_resid := 0, requested_cmd := 0x81, requested_payload_len := 1,
          last_status := 0\<rparr>, 0x55)"
  using i2c_read_two_halves [where ctx = one_servicer and r = 0 and v = 255 and c = "0x81" and n = 1
      and buf_len = 2 and data = "[9, 9]" and data' = "[2, 9]" and w = "0x55" and w' = "0x55" and S = register_servicer
      and ctxs = "(1, 2)" and ptr = 3, OF _ _ _ refl]
  by (simp add: is_read_def one_servicer_def resource_table_search_def resource_table_init_def
      do_command_def special_read_command_def)

text \<open>
  The set-up stage of a USB write accepts whatever length the host announces: for a registered
  resource, \<open>tud_control_xfer\<close> is asked to move \<open>wLength\<close> bytes into the endpoint buffer even
  if they do not fit into it.
\<close>

theorem usb_write_length_unchecked:
  assumes "resource_table_search (resource_table ctx) (ucast (wIndex r)) = (v, 0)"
    and "bmRequestType r = 0x40" and "length request_data < unat (wLength r)"
  shows "\<exists>n ctx'. device_control_usb_xfer S ctxs ptr ctx request_data CONTROL_STAGE_SETUP r w
      = Inr (UsbXfer n, request_data, ctx', w) \<and> length request_data < n"
  using assms by (simp add: device_control_usb_xfer_def device_control_request_def usb_out_def Let_def)

theorem usb_write_length_unchecked_witness:
  "\<exists>n ctx'. device_control_usb_xfer register_servicer (1, 2) 3 one_servicer (replicate 64 0) CONTROL_STAGE_SETUP
      \<lparr>bmRequestType = 0x40, wValue = 1, wIndex = 7, wLength = 1000\<rparr> 0x55
      = Inr (UsbXfer n, replicate 64 0, ctx', 0x55) \<and> length (replicate 64 (0 :: u8)) < n"
  by (rule usb_write_length_unchecked [where v = 0])
     (simp_all add: one_servicer_def resource_table_search_def resource_table_init_def)

text \<open>The context of the I2C transport with two servicers, delivered in two rounds.\<close>

theorem registration_routes_witness:
  "\<exists>ctx'. device_control_resources_register
      [[(None, None)], [(Some \<lparr>init_queue = 4, init_resources = [7, 9]\<rparr>, None), (Some \<lparr>init_queue = 5, init_resources = [8]\<rparr>, Some 1)]]
      (one_servicer\<lparr>resource_table := resource_table_init, servicer_count := 2\<rparr>) = (CONTROL_SUCCESS, ctx')
    \<and> (\<exists>regs :: (servicer_init_data \<times> nat option) list. length regs = 2
      \<and> (\<forall>i < length regs. \<forall>j < length regs. i \<noteq> j \<longrightarrow>
           set (init_resources (fst (regs ! i))) \<inter> set (init_resources (fst (regs ! j))) = {}))"
proof -
  let ?rounds = "[[(None, None)], [(Some \<lparr>init_queue = 4, init_resources = [7, 9]\<rparr>, None),
    (Some \<lparr>init_queue = 5, init_resources = [8]\<rparr>, Some 1)]]"
  let ?ctx = "one_servicer\<lparr>resource_table := resource_table_init, servicer_count := 2\<rparr>"
  obtain ctx' where r: "device_control_resources_register ?rounds ?ctx = (CONTROL_SUCCESS, ctx')"
    by (simp add: device_control_resources_register_def register_round_def servicer_register_def
        resource_table_add_def resource_table_init_def one_servicer_def Let_def)
  have t: "table_ok (resource_table ?ctx)" by (simp add: table_init_ok)
  obtain regs :: "(servicer_init_data \<times> nat option) list" where "length regs = servicer_count ?ctx"
    "\<forall>i < length regs. \<forall>j < length regs. i \<noteq> j \<longrightarrow>
       set (init_resources (fst (regs ! i))) \<inter> set (init_resources (fst (regs ! j))) = {}"
    using registration_routes [OF r t] by blast
  moreover from this have "length regs = 2" by simp
  ultimately show ?thesis using r by blast
qed

end
