(* ===== verification/Ring_Buffer.thy ===== *)
theory Ring_Buffer
  imports Prelude
begin

text \<open>
  The sample buffers of the audio drivers: the loops that copy words into and out of a
  circular buffer, and the queue they implement. The code is the same in
  modules/rtos/drivers/mic_array/rtos_mic_array.c and modules/rtos/drivers/i2s/rtos_i2s.c. The
  locale \<open>fifo\<close> states what the drivers rely on; its interpretation discharges it for the
  circular buffer with its wrapping 32-bit counters.
\<close>

section \<open>First in, first out\<close>

datatype 'a fifo_op = Put "'a list" | Get nat

locale fifo =
  fixes inv :: "'s \<Rightarrow> bool"
    and items :: "'s \<Rightarrow> 'a list"
    and cap :: "'s \<Rightarrow> nat"
    and psized :: "'s \<Rightarrow> nat \<Rightarrow> bool"
    and gsized :: "'s \<Rightarrow> nat \<Rightarrow> bool"
    and put :: "'a list \<Rightarrow> 's \<Rightarrow> 's option"
    and get :: "nat \<Rightarrow> 's \<Rightarrow> ('a list \<times> 's) option"
  assumes bound: "inv s \<Longrightarrow> length (items s) \<le> cap s"
    and put_ok: "inv s \<Longrightarrow> psized s (length xs) \<Longrightarrow> length (items s) + length xs \<le> cap s \<Longrightarrow>
          \<exists>t. put xs s = Some t \<and> inv t \<and> items t = items s @ xs \<and> cap t = cap s
            \<and> psized t = psized s \<and> gsized t = gsized s"
    and get_ok: "inv s \<Longrightarrow> gsized s n \<Longrightarrow> n \<le> length (items s) \<Longrightarrow>
          \<exists>t. get n s = Some (take n (items s), t) \<and> inv t \<and> items t = drop n (items s) \<and> cap t = cap s
            \<and> psized t = psized s \<and> gsized t = gsized s"
begin

text \<open>A run of operations, with everything that came out.\<close>

fun run :: "'a fifo_op list \<Rightarrow> 's \<Rightarrow> ('a list \<times> 's) option" where
  "run [] s = Some ([], s)"
| "run (Put xs # ops) s = (case put xs s of None \<Rightarrow> None | Some t \<Rightarrow> run ops t)"
| "run (Get n # ops) s = (case get n s of None \<Rightarrow> None
     | Some (ys, t) \<Rightarrow> map_option (\<lambda>(out, u). (ys @ out, u)) (run ops t))"

fun fits :: "'a fifo_op list \<Rightarrow> nat \<Rightarrow> 's \<Rightarrow> bool" where
  "fits [] n s = True"
| "fits (Put xs # ops) n s = (psized s (length xs) \<and> n + length xs \<le> cap s \<and> fits ops (n + length xs) s)"
| "fits (Get k # ops) n s = (gsized s k \<and> k \<le> n \<and> fits ops (n - k) s)"

lemma fits_cong: "cap t = cap s \<Longrightarrow> psized t = psized s \<Longrightarrow> gsized t = gsized s \<Longrightarrow> fits ops n t = fits ops n s"
  by (induction ops n s rule: fits.induct) simp_all

definition puts :: "'a fifo_op list \<Rightarrow> 'a list" where
  "puts ops = concat (map (\<lambda>x. case x of Put xs \<Rightarrow> xs | Get n \<Rightarrow> []) ops)"

lemma run_fits:
  "inv s \<Longrightarrow> fits ops (length (items s)) s \<Longrightarrow>
    \<exists>out t. run ops s = Some (out, t) \<and> inv t \<and> cap t = cap s \<and> items s @ puts ops = out @ items t"
proof (induction ops arbitrary: s)
  case Nil
  then show ?case by (simp add: puts_def)
next
  case (Cons x ops)
  show ?case
  proof (cases x)
    case (Put xs)
    then obtain t where t: "put xs s = Some t" "inv t" "items t = items s @ xs" "cap t = cap s"
      "psized t = psized s" "gsized t = gsized s"
      using put_ok [OF Cons.prems(1)] Cons.prems(2) by auto
    with Cons.IH [OF t(2)] Cons.prems(2) Put fits_cong [OF t(4-6)] show ?thesis by (auto simp: puts_def)
  next
    case (Get n)
    then have n: "gsized s n" "n \<le> length (items s)" using Cons.prems(2) by simp_all
    obtain t where t: "get n s = Some (take n (items s), t)" "inv t" "items t = drop n (items s)" "cap t = cap s"
      "psized t = psized s" "gsized t = gsized s"
      using get_ok [OF Cons.prems(1) n] by blast
    with Cons.IH [OF t(2)] Cons.prems(2) Get fits_cong [OF t(4-6)]
    obtain out u where u: "run ops t = Some (out, u)" "inv u" "cap u = cap s" "items t @ puts ops = out @ items u"
      by auto
    have "items s @ puts ops = take n (items s) @ items t @ puts ops" by (simp add: t(3))
    also have "\<dots> = (take n (items s) @ out) @ items u" by (simp add: u(4))
    finally have "items s @ puts (x # ops) = (take n (items s) @ out) @ items u"
      by (simp add: puts_def Get)
    with u t Get show ?thesis
      by (intro exI [of _ "take n (items s) @ out"] exI [of _ u]) simp
  qed
qed

end

section \<open>The circular buffer\<close>

type_synonym sample = "32 word"

record ring =
  buf_size :: nat
  buf :: "sample list"
  total_written :: "32 word"
  write_index :: nat
  total_read :: "32 word"
  read_index :: nat

text \<open>\<open>total_written - total_read\<close>, in 32 bits.\<close>

definition words_available :: "'z ring_scheme \<Rightarrow> nat" where
  "words_available r = unat (total_written r - total_read r)"

text \<open>\<open>buf_size - words_available\<close>, in 32 bits.\<close>

definition words_free :: "'z ring_scheme \<Rightarrow> nat" where
  "words_free r = unat (of_nat (buf_size r) - (total_written r - total_read r))"

text \<open>
  The two loops \<open>while (words_remaining)\<close>. They have no bound of their own (an empty buffer
  would make them run for ever), and they copy whatever the indices are: \<open>None\<close> is a loop that does not return
  or that accesses a word outside the buffer.
\<close>

definition copy_inside :: "nat \<Rightarrow> nat \<Rightarrow> 'z ring_scheme \<Rightarrow> bool" where
  "copy_inside i n r \<longleftrightarrow> i + n \<le> length (buf r)"

definition ring_in_turn :: "sample list \<Rightarrow> 'z ring_scheme \<Rightarrow> sample list \<times> 'z ring_scheme" where
  "ring_in_turn xs r =
     (let n = min (length xs) (buf_size r - write_index r);
          r = r\<lparr>buf := splice (write_index r) (take n xs) (buf r), write_index := write_index r + n\<rparr>;
          r = (if buf_size r \<le> write_index r then r\<lparr>write_index := 0\<rparr> else r)
      in (drop n xs, r))"

partial_function (option) ring_copy_in :: "sample list \<Rightarrow> 'z ring_scheme \<Rightarrow> 'z ring_scheme option" where
  "ring_copy_in xs r =
     (if xs = [] then Some r
      else if \<not> copy_inside (write_index r) (min (length xs) (buf_size r - write_index r)) r then None
      else ring_copy_in (fst (ring_in_turn xs r)) (snd (ring_in_turn xs r)))"

partial_function (option) ring_copy_out :: "nat \<Rightarrow> 'z ring_scheme \<Rightarrow> (sample list \<times> 'z ring_scheme) option" where
  "ring_copy_out words r =
     (if words = 0 then Some ([], r)
      else if \<not> copy_inside (read_index r) (min words (buf_size r - read_index r)) r then None
      else let n = min words (buf_size r - read_index r);
               xs = take n (drop (read_index r) (buf r));
               r = r\<lparr>read_index := read_index r + n\<rparr>;
               r = (if buf_size r \<le> read_index r then r\<lparr>read_index := 0\<rparr> else r)
           in do { (ys, r) \<leftarrow> ring_copy_out (words - n) r; Some (xs @ ys, r) })"

declare ring_copy_in.simps [code] ring_copy_out.simps [code]

lemma ring_copy_in_Nil [simp]: "ring_copy_in [] r = Some r"
  by (subst ring_copy_in.simps) simp

lemma ring_copy_out_0 [simp]: "ring_copy_out 0 r = Some ([], r)"
  by (subst ring_copy_out.simps) simp

text \<open>The copy, and the count that makes it visible to the other side.\<close>

definition ring_write :: "sample list \<Rightarrow> 'z ring_scheme \<Rightarrow> 'z ring_scheme option" where
  "ring_write xs r = map_option (\<lambda>r. r\<lparr>total_written := total_written r + of_nat (length xs)\<rparr>) (ring_copy_in xs r)"

definition ring_read :: "nat \<Rightarrow> 'z ring_scheme \<Rightarrow> (sample list \<times> 'z ring_scheme) option" where
  "ring_read words r = map_option (\<lambda>(xs, r). (xs, r\<lparr>total_read := total_read r + of_nat words\<rparr>)) (ring_copy_out words r)"

subsection \<open>Its invariant and its content\<close>

definition ring_ok :: "'z ring_scheme \<Rightarrow> bool" where
  "ring_ok r \<longleftrightarrow> 0 < buf_size r \<and> buf_size r < 2 ^ 32 \<and> length (buf r) = buf_size r
     \<and> read_index r < buf_size r \<and> words_available r \<le> buf_size r
     \<and> write_index r = (read_index r + words_available r) mod buf_size r"

definition ring_items :: "'z ring_scheme \<Rightarrow> sample list" where
  "ring_items r = map (\<lambda>k. buf r ! ((read_index r + k) mod buf_size r)) [0 ..< words_available r]"

lemma length_ring_items [simp]: "length (ring_items r) = words_available r"
  by (simp add: ring_items_def)

lemma mod_once: "(x :: nat) < 2 * n \<Longrightarrow> x mod n = (if x < n then x else x - n)"
  by (auto simp: mod_if)

text \<open>What the copy loop stores: \<open>xs\<close> from the write index on, around the end.\<close>

lemma ring_copy_in_spec:
  assumes "0 < buf_size r" and "length (buf r) = buf_size r" and "write_index r < buf_size r"
    and "length xs \<le> buf_size r"
  shows "\<exists>b. ring_copy_in xs r = Some (r\<lparr>buf := b, write_index := (write_index r + length xs) mod buf_size r\<rparr>)
    \<and> length b = buf_size r
    \<and> (\<forall>i < buf_size r. b ! i =
         (if write_index r \<le> i \<and> i < write_index r + length xs then xs ! (i - write_index r)
          else if i + buf_size r < write_index r + length xs then xs ! (i + buf_size r - write_index r)
          else buf r ! i))"
proof -
  let ?N = "buf_size r" and ?w = "write_index r"
  show ?thesis
  proof (cases "?w + length xs \<le> ?N")
    case True
    have idx: "(?w + length xs) mod ?N = (if ?N \<le> ?w + length xs then 0 else ?w + length xs)"
      using True by (cases "?w + length xs = ?N") simp_all
    have run: "ring_copy_in xs r = Some (r\<lparr>buf := splice ?w xs (buf r), write_index := (?w + length xs) mod ?N\<rparr>)"
    proof (cases "xs = []")
      case True
      with assms(3) show ?thesis by simp
    next
      case False
      have "min (length xs) (?N - ?w) = length xs" using True by simp
      with False True show ?thesis
        unfolding idx by (subst ring_copy_in.simps) (simp add: Let_def ring_in_turn_def copy_inside_def assms(2))
    qed
    have "splice ?w xs (buf r) ! i = (if ?w \<le> i \<and> i < ?w + length xs then xs ! (i - ?w) else buf r ! i)"
      if "i < ?N" for i
      using that True assms(2) by (simp add: nth_splice)
    moreover have "length (splice ?w xs (buf r)) = ?N" using True assms(2) by simp
    ultimately show ?thesis using run True by (intro exI [of _ "splice ?w xs (buf r)"]) auto
  next
    case False
    let ?n = "?N - ?w"
    let ?b1 = "splice ?w (take ?n xs) (buf r)" and ?ys = "drop ?n xs"
    let ?b2 = "splice 0 ?ys ?b1"
    have n: "length (take ?n xs) = ?n" "?w + ?n = ?N" using False assms(3) by simp_all
    have l1: "length ?b1 = ?N" using n assms(2) by simp
    have ly: "length ?ys \<le> ?w" using assms(4) by simp
    have l2: "length ?b2 = ?N" using l1 ly assms(3) by simp
    have ys: "?ys \<noteq> []" "length ?ys < ?N" using False ly assms(3) by simp_all
    let ?r1 = "r\<lparr>buf := ?b1, write_index := 0\<rparr>"
    have "min (length xs) (?N - ?w) = ?n" using False by simp
    then have "ring_copy_in xs r = ring_copy_in ?ys ?r1"
      using False n(2) by (subst ring_copy_in.simps) (auto simp: Let_def ring_in_turn_def copy_inside_def assms(2))
    also have "\<dots> = Some (r\<lparr>buf := ?b2, write_index := length ?ys\<rparr>)"
      using ys l1 by (subst ring_copy_in.simps) (simp add: Let_def ring_in_turn_def copy_inside_def)
    also have "length ?ys = (?w + length xs) mod ?N"
      using False assms(3,4) by (subst mod_once) auto
    finally have run: "ring_copy_in xs r = Some (r\<lparr>buf := ?b2, write_index := (?w + length xs) mod ?N\<rparr>)" .
    have "?b2 ! i = (if ?w \<le> i \<and> i < ?w + length xs then xs ! (i - ?w)
        else if i + ?N < ?w + length xs then xs ! (i + ?N - ?w) else buf r ! i)" if "i < ?N" for i
    proof -
      have "?b2 ! i = (if i < length ?ys then ?ys ! i else ?b1 ! i)"
        using that l1 ly assms(3) by (simp add: nth_splice)
      moreover have "?b1 ! i = (if ?w \<le> i then xs ! (i - ?w) else buf r ! i)"
        using that n assms(2) by (simp add: nth_splice)
      moreover have "?ys ! i = xs ! (i + ?N - ?w)" if "i < length ?ys"
        using that n by (simp add: add.commute)
      moreover have "i < length ?ys \<longleftrightarrow> i + ?N < ?w + length xs" using n by auto
      moreover have "\<not> (?w \<le> i \<and> i + ?N < ?w + length xs)" using assms(4) that by simp
      ultimately show ?thesis using that False assms(3) by auto
    qed
    with run l2 show ?thesis by blast
  qed
qed

lemma ring_copy_out_spec:
  assumes "length (buf r) = buf_size r" and "read_index r < buf_size r" and "n \<le> buf_size r"
  shows "ring_copy_out n r = Some (map (\<lambda>k. buf r ! ((read_index r + k) mod buf_size r)) [0 ..< n],
    r\<lparr>read_index := (read_index r + n) mod buf_size r\<rparr>)"
proof -
  let ?N = "buf_size r" and ?d = "read_index r"
  have direct: "take k (drop i (buf r)) = map (\<lambda>j. buf r ! (i + j)) [0 ..< k]" if "i + k \<le> ?N" for i k
    using that assms(1) by (intro nth_equalityI) simp_all
  show ?thesis
  proof (cases "?d + n \<le> ?N")
    case True
    have idx: "(?d + n) mod ?N = (if ?N \<le> ?d + n then 0 else ?d + n)"
      using True assms(2) by (cases "?d + n = ?N") simp_all
    have xs: "take n (drop ?d (buf r)) = map (\<lambda>k. buf r ! ((?d + k) mod ?N)) [0 ..< n]"
      using True by (subst direct) auto
    show ?thesis
    proof (cases "n = 0")
      case True
      with assms(2) show ?thesis by simp
    next
      case False
      have "min n (?N - ?d) = n" using True by simp
      with False show ?thesis
        unfolding idx xs [symmetric]
        by (subst ring_copy_out.simps) (simp add: Let_def copy_inside_def assms(1))
    qed
  next
    case False
    let ?k = "?N - ?d" and ?r1 = "r\<lparr>read_index := 0\<rparr>"
    have m: "min n ?k = ?k" "0 < n" "?d + ?k = ?N" "n - ?k < ?N" "0 < n - ?k" using False assms(2,3) by simp_all
    have ys: "take ?k (drop ?d (buf r)) = map (\<lambda>k. buf r ! ((?d + k) mod ?N)) [0 ..< ?k]"
      using m by (subst direct) auto
    have zs: "take (n - ?k) (buf r) = map (\<lambda>k. buf r ! ((?d + k) mod ?N)) [?k ..< n]"
    proof (rule nth_equalityI)
      show "length (take (n - ?k) (buf r)) = length (map (\<lambda>k. buf r ! ((?d + k) mod ?N)) [?k ..< n])"
        using m assms(1) by simp
    next
      fix i assume "i < length (take (n - ?k) (buf r))"
      then have i: "i < n - ?k" "i < ?N" using assms(1) by simp_all
      have "?d + (?k + i) = ?N + i" using m(3) by simp
      then have "(?d + (?k + i)) mod ?N = i" using i(2) by (simp only: mod_add_self1 mod_less)
      with i show "take (n - ?k) (buf r) ! i = map (\<lambda>k. buf r ! ((?d + k) mod ?N)) [?k ..< n] ! i"
        by (simp add: add.assoc)
    qed
    have split: "[0 ..< n] = [0 ..< ?k] @ [?k ..< n]"
      using m(5) by (metis le_add_diff_inverse less_imp_le upt_add_eq_append zero_le zero_less_diff)
    have "ring_copy_out (n - ?k) ?r1 = Some (take (n - ?k) (buf r), r\<lparr>read_index := n - ?k\<rparr>)"
      using m by (subst ring_copy_out.simps) (simp add: Let_def copy_inside_def assms(1))
    then have "ring_copy_out n r = Some (take ?k (drop ?d (buf r)) @ take (n - ?k) (buf r), r\<lparr>read_index := n - ?k\<rparr>)"
      using m by (subst ring_copy_out.simps) (simp add: Let_def copy_inside_def assms(1))
    moreover have "n - ?k = (?d + n) mod ?N"
      using False assms(2,3) by (subst mod_once) auto
    ultimately show ?thesis unfolding ys zs split by simp
  qed
qed

subsection \<open>The buffer is a queue\<close>

lemma words_available_add:
  "words_available r + k < 2 ^ 32 \<Longrightarrow>
    unat (total_written r + of_nat k - total_read r) = words_available r + k"
  by (simp add: words_available_def diff_add_eq [symmetric] unat_word_ariths(1) unat_of_nat)

lemma words_available_sub:
  assumes "k \<le> words_available r"
  shows "unat (total_written r - (total_read r + of_nat k)) = words_available r - k"
proof -
  have "k < 2 ^ 32"
    using assms unsigned_less [of "total_written r - total_read r", where ?'a = nat] by (simp add: words_available_def)
  then have k: "unat (of_nat k :: 32 word) = k" by (simp add: unat_of_nat)
  then have le: "(of_nat k :: 32 word) \<le> total_written r - total_read r"
    using assms by (simp add: word_le_nat_alt words_available_def)
  show ?thesis
    using unat_sub [OF le] k by (simp add: words_available_def diff_diff_eq)
qed

text \<open>Where the k-th word after the read index lies, relative to the write index.\<close>

lemma mod_cases:
  fixes x N :: nat
  assumes "x < 2 * N"
  obtains "x < N" "x mod N = x" | p where "x = N + p" "x mod N = p" "p < N"
  using assms mod_once [of x N] by (metis add_less_cancel_left le_add_diff_inverse mult_2 not_le)

lemma ring_index_old:
  fixes d a k l N :: nat
  assumes "d < N" and "k < a" and "a + l \<le> N"
  shows "\<not> ((d + a) mod N \<le> (d + k) mod N \<and> (d + k) mod N < (d + a) mod N + l)
    \<and> \<not> (d + k) mod N + N < (d + a) mod N + l"
proof -
  have "d + a < 2 * N" "d + k < 2 * N" using assms by simp_all
  then show ?thesis
    using assms by (elim mod_cases) linarith+
qed

lemma ring_index_new:
  fixes d a k l N :: nat
  assumes "d < N" and "\<not> k < a" and "k < a + l" and "a + l \<le> N"
  shows "(d + a) mod N \<le> (d + k) mod N \<and> (d + k) mod N < (d + a) mod N + l
      \<and> (d + k) mod N - (d + a) mod N = k - a
    \<or> \<not> (d + a) mod N \<le> (d + k) mod N
      \<and> (d + k) mod N + N < (d + a) mod N + l \<and> (d + k) mod N + N - (d + a) mod N = k - a"
proof -
  have "d + a < 2 * N" "d + k < 2 * N" using assms by simp_all
  then show ?thesis
    using assms by (elim mod_cases) linarith+
qed

lemma ring_write_ok:
  assumes ok: "ring_ok r" and room: "words_available r + length xs \<le> buf_size r"
  shows "\<exists>t. ring_write xs r = Some t \<and> ring_ok t \<and> ring_items t = ring_items r @ xs \<and> buf_size t = buf_size r"
proof -
  let ?N = "buf_size r" and ?d = "read_index r" and ?a = "words_available r"
  from ok have N: "0 < ?N" "?N < 2 ^ 32" "length (buf r) = ?N" "?d < ?N" "?a \<le> ?N"
    and w: "write_index r = (?d + ?a) mod ?N" by (simp_all add: ring_ok_def)
  have lx: "length xs \<le> ?N" using room by simp
  have w_less: "write_index r < ?N" using N(1) w by simp
  obtain b where run: "ring_copy_in xs r = Some (r\<lparr>buf := b, write_index := (write_index r + length xs) mod ?N\<rparr>)"
    and lb: "length b = ?N"
    and b: "\<And>i. i < ?N \<Longrightarrow> b ! i =
         (if write_index r \<le> i \<and> i < write_index r + length xs then xs ! (i - write_index r)
          else if i + ?N < write_index r + length xs then xs ! (i + ?N - write_index r)
          else buf r ! i)"
    using ring_copy_in_spec [OF N(1) N(3) w_less lx] by blast
  let ?t = "r\<lparr>buf := b, write_index := (write_index r + length xs) mod ?N,
    total_written := total_written r + of_nat (length xs)\<rparr>"
  have a: "words_available ?t = ?a + length xs"
    using words_available_add [of r "length xs"] room N(2) by (simp add: words_available_def)
  have t: "ring_write xs r = Some ?t" by (simp add: ring_write_def run)
  have wi: "(write_index r + length xs) mod ?N = (?d + (?a + length xs)) mod ?N"
    by (simp add: w mod_add_left_eq add.assoc)
  have ok': "ring_ok ?t" using N lb a room wi by (simp add: ring_ok_def)
  have "ring_items ?t ! k = (ring_items r @ xs) ! k" if k: "k < ?a + length xs" for k
  proof -
    let ?i = "(?d + k) mod ?N"
    have i: "?i < ?N" using N(1) by simp
    have "ring_items ?t ! k = b ! ?i"
      using k a by (simp add: ring_items_def)
    also have "\<dots> = (if k < ?a then buf r ! ?i else xs ! (k - ?a))"
    proof (cases "k < ?a")
      case True
      have "b ! ?i = buf r ! ?i"
        using b [OF i, unfolded w] ring_index_old [OF N(4) True room] by (simp only: if_False simp_thms)
      with True show ?thesis by (simp only: if_True)
    next
      case False
      have "b ! ?i = xs ! (k - ?a)"
        using ring_index_new [OF N(4) False k room]
        by (elim disjE conjE) (simp_all only: b [OF i, unfolded w] simp_thms if_True if_False)
      with False show ?thesis by (simp only: if_False)
    qed
    also have "\<dots> = (ring_items r @ xs) ! k"
      using k by (simp add: nth_append) (simp add: ring_items_def)
    finally show ?thesis .
  qed
  then have "ring_items ?t = ring_items r @ xs"
    by (intro nth_equalityI) (simp_all add: a)
  with t ok' show ?thesis by (intro exI [of _ ?t]) simp
qed

lemma ring_read_ok:
  assumes ok: "ring_ok r" and n: "n \<le> words_available r"
  shows "\<exists>t. ring_read n r = Some (take n (ring_items r), t) \<and> ring_ok t
    \<and> ring_items t = drop n (ring_items r) \<and> buf_size t = buf_size r"
proof -
  let ?N = "buf_size r" and ?d = "read_index r" and ?a = "words_available r"
  from ok have N: "0 < ?N" "?N < 2 ^ 32" "length (buf r) = ?N" "?d < ?N" "?a \<le> ?N"
    and w: "write_index r = (?d + ?a) mod ?N" by (simp_all add: ring_ok_def)
  let ?t = "r\<lparr>read_index := (?d + n) mod ?N, total_read := total_read r + of_nat n\<rparr>"
  have out: "map (\<lambda>k. buf r ! ((?d + k) mod ?N)) [0 ..< n] = take n (ring_items r)"
    using n by (simp add: ring_items_def take_map)
  have t: "ring_read n r = Some (take n (ring_items r), ?t)"
    using ring_copy_out_spec [OF N(3,4), of n] n N(5) by (simp add: ring_read_def out)
  have a: "words_available ?t = ?a - n"
    using words_available_sub [OF n] by (simp add: words_available_def)
  have "((?d + n) mod ?N + (?a - n)) mod ?N = (?d + n + (?a - n)) mod ?N"
    by (rule mod_add_left_eq)
  then have wi: "((?d + n) mod ?N + (?a - n)) mod ?N = write_index r"
    using n w by simp
  have ok': "ring_ok ?t" using N a wi by (simp add: ring_ok_def)
  have "ring_items ?t ! k = drop n (ring_items r) ! k" if "k < ?a - n" for k
  proof -
    have "ring_items ?t ! k = buf r ! (((?d + n) mod ?N + k) mod ?N)"
      using that a by (simp add: ring_items_def)
    also have "((?d + n) mod ?N + k) mod ?N = (?d + (n + k)) mod ?N"
      by (simp add: mod_add_left_eq add.assoc)
    also have "buf r ! ((?d + (n + k)) mod ?N) = drop n (ring_items r) ! k"
    proof -
      have "n + k < ?a" using that by simp
      then show ?thesis by (simp add: ring_items_def)
    qed
    finally show ?thesis .
  qed
  then have "ring_items ?t = drop n (ring_items r)"
    by (intro nth_equalityI) (simp_all add: a)
  with t ok' show ?thesis by (intro exI [of _ ?t]) simp
qed

lemma words_free_eq:
  assumes "words_available r \<le> buf_size r" and "buf_size r < 2 ^ 32"
  shows "words_free r = buf_size r - words_available r"
proof -
  have n: "unat (of_nat (buf_size r) :: 32 word) = buf_size r" using assms(2) by (simp add: unat_of_nat)
  then have le: "total_written r - total_read r \<le> (of_nat (buf_size r) :: 32 word)"
    using assms(1) by (simp add: word_le_nat_alt words_available_def)
  show ?thesis using unat_sub [OF le] n by (simp add: words_free_def words_available_def)
qed

interpretation rb: fifo ring_ok ring_items buf_size "\<lambda>r n. True" "\<lambda>r n. True" ring_write ring_read
proof unfold_locales
  show "length (ring_items s) \<le> buf_size s" if "ring_ok s" for s :: "'a ring_scheme"
    using that by (simp add: ring_ok_def)
qed (simp_all add: ring_write_ok ring_read_ok)

text \<open>A copy that does not reach the end of the buffer is a single \<open>memcpy\<close>.\<close>

lemma ring_write_straight:
  assumes "xs \<noteq> []" and "write_index r + length xs \<le> buf_size r" and "length (buf r) = buf_size r"
  shows "ring_write xs r = Some (r\<lparr>buf := splice (write_index r) xs (buf r),
    write_index := (if buf_size r \<le> write_index r + length xs then 0 else write_index r + length xs),
    total_written := total_written r + of_nat (length xs)\<rparr>)"
proof -
  have "min (length xs) (buf_size r - write_index r) = length xs" using assms(2) by simp
  then show ?thesis
    using assms by (subst ring_write_def, subst ring_copy_in.simps) (simp add: Let_def ring_in_turn_def copy_inside_def)
qed

lemma ring_read_straight:
  assumes "n \<noteq> 0" and "read_index r + n \<le> buf_size r" and "length (buf r) = buf_size r"
  shows "ring_read n r = Some (take n (drop (read_index r) (buf r)), r\<lparr>
    read_index := (if buf_size r \<le> read_index r + n then 0 else read_index r + n),
    total_read := total_read r + of_nat n\<rparr>)"
proof -
  have "min n (buf_size r - read_index r) = n" using assms(2) by simp
  then show ?thesis
    using assms by (subst ring_read_def, subst ring_copy_out.simps) (simp add: Let_def copy_inside_def)
qed

lemma dvd_step_bound:
  fixes n i N :: nat
  assumes "n dvd i" and "n dvd N" and "i < N"
  shows "i + n \<le> N"
proof -
  from assms(1,2) obtain a b where "i = n * a" "N = n * b" by (auto elim!: dvdE)
  with assms(3) show ?thesis by (metis Suc_leI add.commute mult_Suc_right mult_le_mono2 mult_less_cancel1)
qed

end
