(* ===== verification/Sample_Rx.thy ===== *)
theory Sample_Rx
  imports Ring_Buffer
begin

text \<open>
  The receiving side of the audio drivers. The producer (an interrupt handler or the I/O
  thread) appends blocks of samples to the circular buffer and wakes a waiting reader; the
  reader takes whole requests out of it, and waits on a semaphore when there is too little.
  The code is that of rtos_mic_array_isr, mic_array_local_rx and rtos_mic_array_start in
  modules/rtos/drivers/mic_array/rtos_mic_array.c. The step relation interleaves
  the producer with every point of the reader at which shared state is read or written.
\<close>

section \<open>State\<close>

text \<open>
  \<open>recv_sem\<close> is the count of the semaphore, which is created with the maximum one and
  the initial value zero.
\<close>

record recv_buf = ring +
  required_available_count :: u32

record rx_side =
  recv_buffer :: recv_buf
  recv_sem :: bool
  recv_blocked :: bool

section \<open>The producer\<close>

text \<open>The last part of the handler: a waiting reader is woken once its request can be met.\<close>

definition rx_wake :: "'z rx_side_scheme \<Rightarrow> 'z rx_side_scheme" where
  "rx_wake c =
     (if 0 < required_available_count (recv_buffer c)
         \<and> unat (required_available_count (recv_buffer c)) \<le> words_available (recv_buffer c)
      then c\<lparr>recv_buffer := (recv_buffer c)\<lparr>required_available_count := 0\<rparr>, recv_sem := True\<rparr>
      else c)"

text \<open>A block that does not fit is dropped as a whole (\<open>mic rx overrun\<close>).\<close>

definition rtos_mic_array_isr :: "sample list \<Rightarrow> 'z rx_side_scheme \<Rightarrow> 'z rx_side_scheme option" where
  "rtos_mic_array_isr mic_sample_block c =
     (if length mic_sample_block \<le> words_free (recv_buffer c)
      then map_option (\<lambda>r. rx_wake (c\<lparr>recv_buffer := r\<rparr>)) (ring_write mic_sample_block (recv_buffer c))
      else Some (rx_wake c))"

section \<open>The reader\<close>

text \<open>
  The points of \<open>mic_array_local_rx\<close>: the test whether to wait, the request left for the
  producer, the return from the semaphore, the copy, and the update of \<open>total_read\<close>.
\<close>

definition rx_must_wait :: "u32 \<Rightarrow> 'z rx_side_scheme \<Rightarrow> bool" where
  "rx_must_wait words c \<longleftrightarrow> \<not> recv_blocked c \<and> words_available (recv_buffer c) < unat words"

definition rx_arm :: "u32 \<Rightarrow> 'z rx_side_scheme \<Rightarrow> 'z rx_side_scheme" where
  "rx_arm words c =
     c\<lparr>recv_buffer := (recv_buffer c)\<lparr>required_available_count := words\<rparr>, recv_blocked := True\<rparr>"

definition rx_copy :: "u32 \<Rightarrow> 'z rx_side_scheme \<Rightarrow> (sample list \<times> 'z rx_side_scheme) option" where
  "rx_copy words c = map_option (\<lambda>(xs, r). (xs, c\<lparr>recv_buffer := r\<rparr>)) (ring_copy_out (unat words) (recv_buffer c))"

definition rx_commit :: "u32 \<Rightarrow> 'z rx_side_scheme \<Rightarrow> 'z rx_side_scheme" where
  "rx_commit words c = c\<lparr>recv_buffer := (recv_buffer c)\<lparr>total_read := total_read (recv_buffer c) + words\<rparr>\<rparr>"

text \<open>
  The whole call. \<open>sem_get\<close> stands for the wait on the semaphore: whether it succeeded
  within the time-out, and what the producer has made of the state meanwhile. The copy
  loop may not return, hence the option; \<open>frames\<close> is the value returned for success.
\<close>

definition local_rx ::
  "(u32 \<Rightarrow> 'z rx_side_scheme \<Rightarrow> bool \<times> 'z rx_side_scheme) \<Rightarrow> u32 \<Rightarrow> u32 \<Rightarrow> u32 \<Rightarrow> 'z rx_side_scheme
    \<Rightarrow> (u32 \<times> sample list \<times> 'z rx_side_scheme) res option" where
  "local_rx sem_get words frames timeout c =
     (if buf_size (recv_buffer c) < unat words then Some (Inl AssertFail)
      else let c = (if rx_must_wait words c then rx_arm words c else c);
               c = (if recv_blocked c
                    then let (ok, c) = sem_get timeout c in if ok then c\<lparr>recv_blocked := False\<rparr> else c
                    else c)
           in if recv_blocked c then Some (Inr (0, [], c))
              else do { (xs, c) \<leftarrow> rx_copy words c; Some (Inr (frames, xs, rx_commit words c)) })"

definition mic_array_local_rx ::
  "u32 \<Rightarrow> (u32 \<Rightarrow> rx_side \<Rightarrow> bool \<times> rx_side) \<Rightarrow> u32 \<Rightarrow> u32 \<Rightarrow> rx_side
    \<Rightarrow> (u32 \<times> sample list \<times> rx_side) res option" where
  "mic_array_local_rx channels sem_get frame_count timeout c =
     local_rx sem_get (frame_count * channels) frame_count timeout c"

text \<open>
  \<open>rtos_mic_array_start\<close>: the buffer holds \<open>buffer_size\<close> frames; \<open>mem\<close> is what
  \<open>rtos_osal_malloc\<close> returned. The semaphore is created empty.
\<close>

definition rtos_mic_array_start :: "nat \<Rightarrow> u32 \<Rightarrow> u32 \<Rightarrow> sample list \<Rightarrow> bool \<Rightarrow> rx_side res" where
  "rtos_mic_array_start mic_frame_size channels buffer_size mem blocked =
     (if unat buffer_size < mic_frame_size then Inl AssertFail
      else Inr \<lparr>recv_buffer = \<lparr>buf_size = unat (buffer_size * channels), buf = mem, total_written = 0,
             write_index = 0, total_read = 0, read_index = 0, required_available_count = 0\<rparr>,
           recv_sem = False, recv_blocked = blocked\<rparr>)"

section \<open>Producer and reader together\<close>

datatype rx_phase =
    Rx_Idle
  | Rx_Arm u32
  | Rx_Wait u32
  | Rx_Ready u32
  | Rx_Copied u32 "sample list"

text \<open>
  \<open>accepted\<close> lists the samples of the blocks that were not dropped, \<open>delivered\<close> the
  samples the calls have returned so far.
\<close>

record rx_sys =
  side :: rx_side
  phase :: rx_phase
  accepted :: "sample list"
  delivered :: "sample list"

text \<open>
  \<open>fw\<close> is the size of a block, \<open>MIC_DUAL_FRAME_SIZE * (MIC_DUAL_NUM_CHANNELS +
  MIC_DUAL_NUM_REF_CHANNELS)\<close>; \<open>sizes\<close> the sizes of the requests that are made.
\<close>

inductive rx_step :: "nat \<Rightarrow> u32 set \<Rightarrow> rx_sys \<Rightarrow> rx_sys \<Rightarrow> bool" for fw sizes where
  rx_isr: "length b = fw \<Longrightarrow> rtos_mic_array_isr b (side s) = Some c \<Longrightarrow>
     rx_step fw sizes s (s\<lparr>side := c,
       accepted := (if fw \<le> words_free (recv_buffer (side s)) then accepted s @ b else accepted s)\<rparr>)"
| rx_call_waits: "phase s = Rx_Idle \<Longrightarrow> n \<in> sizes \<Longrightarrow> unat n \<le> buf_size (recv_buffer (side s)) \<Longrightarrow>
     rx_must_wait n (side s) \<Longrightarrow> rx_step fw sizes s (s\<lparr>phase := Rx_Arm n\<rparr>)"
| rx_call_blocked: "phase s = Rx_Idle \<Longrightarrow> n \<in> sizes \<Longrightarrow> unat n \<le> buf_size (recv_buffer (side s)) \<Longrightarrow>
     recv_blocked (side s) \<Longrightarrow> rx_step fw sizes s (s\<lparr>phase := Rx_Wait n\<rparr>)"
| rx_call_ready: "phase s = Rx_Idle \<Longrightarrow> n \<in> sizes \<Longrightarrow> unat n \<le> buf_size (recv_buffer (side s)) \<Longrightarrow>
     \<not> recv_blocked (side s) \<Longrightarrow> \<not> rx_must_wait n (side s) \<Longrightarrow>
     rx_step fw sizes s (s\<lparr>phase := Rx_Ready n\<rparr>)"
| rx_arms: "phase s = Rx_Arm n \<Longrightarrow> rx_step fw sizes s (s\<lparr>side := rx_arm n (side s), phase := Rx_Wait n\<rparr>)"
| rx_woken: "phase s = Rx_Wait n \<Longrightarrow> recv_sem (side s) \<Longrightarrow>
     rx_step fw sizes s (s\<lparr>side := (side s)\<lparr>recv_sem := False, recv_blocked := False\<rparr>, phase := Rx_Ready n\<rparr>)"
| rx_timeout: "phase s = Rx_Wait n \<Longrightarrow> rx_step fw sizes s (s\<lparr>phase := Rx_Idle\<rparr>)"
| rx_copies: "phase s = Rx_Ready n \<Longrightarrow> rx_copy n (side s) = Some (xs, c) \<Longrightarrow>
     rx_step fw sizes s (s\<lparr>side := c, phase := Rx_Copied n xs\<rparr>)"
| rx_commits: "phase s = Rx_Copied n xs \<Longrightarrow>
     rx_step fw sizes s (s\<lparr>side := rx_commit n (side s), phase := Rx_Idle, delivered := delivered s @ xs\<rparr>)"

inductive rx_reachable :: "nat \<Rightarrow> u32 set \<Rightarrow> rx_sys \<Rightarrow> rx_sys \<Rightarrow> bool" for fw sizes init where
  rx_reachable_init: "rx_reachable fw sizes init init"
| rx_reachable_step: "rx_reachable fw sizes init s \<Longrightarrow> rx_step fw sizes s t \<Longrightarrow> rx_reachable fw sizes init t"

definition rx_initial :: "rx_side \<Rightarrow> rx_sys" where
  "rx_initial c = \<lparr>side = c, phase = Rx_Idle, accepted = [], delivered = []\<rparr>"

section \<open>Nothing is lost, repeated or reordered\<close>

text \<open>The copy loop leaves the counters alone, and does not look at \<open>total_read\<close>.\<close>

definition in_frame :: "sample list \<Rightarrow> 'z ring_scheme \<Rightarrow> 'z ring_scheme \<Rightarrow> bool" where
  "in_frame xs r t \<longleftrightarrow> (\<exists>b w. t = r\<lparr>buf := b, write_index := w\<rparr>)
    \<and> (\<forall>x. ring_copy_in xs (r\<lparr>total_read := x\<rparr>) = Some (t\<lparr>total_read := x\<rparr>))"

lemma ring_in_turn_frame:
  "\<exists>b w. snd (ring_in_turn xs r) = r\<lparr>buf := b, write_index := w\<rparr>"
  "ring_in_turn xs (r\<lparr>total_read := x\<rparr>) = (fst (ring_in_turn xs r), (snd (ring_in_turn xs r))\<lparr>total_read := x\<rparr>)"
proof -
  show "\<exists>b w. snd (ring_in_turn xs r) = r\<lparr>buf := b, write_index := w\<rparr>"
    by (cases "buf_size r - write_index r < length xs"; simp add: ring_in_turn_def Let_def) blast+
  show "ring_in_turn xs (r\<lparr>total_read := x\<rparr>) = (fst (ring_in_turn xs r), (snd (ring_in_turn xs r))\<lparr>total_read := x\<rparr>)"
    by (simp add: ring_in_turn_def Let_def)
qed

lemma ring_copy_in_frame: "ring_copy_in xs r = Some t \<Longrightarrow> in_frame xs r t"
proof (rule ring_copy_in.raw_induct [where P = in_frame])
  fix f :: "sample list \<Rightarrow> 'z ring_scheme \<Rightarrow> 'z ring_scheme option" and xs and r t :: "'z ring_scheme"
  assume IH: "\<And>xs r t. f xs r = Some t \<Longrightarrow> in_frame xs r t"
    and body: "(if xs = [] then Some r
      else if \<not> copy_inside (write_index r) (min (length xs) (buf_size r - write_index r)) r then None
      else f (fst (ring_in_turn xs r)) (snd (ring_in_turn xs r))) = Some t"
  show "in_frame xs r t"
  proof (cases "xs = []")
    case True
    have "r = r\<lparr>buf := buf r, write_index := write_index r\<rparr>" by simp
    then have "\<exists>b w. r = r\<lparr>buf := b, write_index := w\<rparr>" by blast
    with True body show ?thesis by (simp add: in_frame_def)
  next
    case False
    let ?u = "snd (ring_in_turn xs r)"
    have inside: "copy_inside (write_index r) (min (length xs) (buf_size r - write_index r)) r" using body False by (simp split: if_splits)
    have frame: "in_frame (fst (ring_in_turn xs r)) ?u t" using body False inside by (intro IH) simp
    obtain b w where u: "?u = r\<lparr>buf := b, write_index := w\<rparr>" using ring_in_turn_frame(1) by blast
    from frame obtain b' w' where "t = ?u\<lparr>buf := b', write_index := w'\<rparr>" by (auto simp: in_frame_def)
    then have "t = r\<lparr>buf := b', write_index := w'\<rparr>" by (simp add: u)
    moreover have "ring_copy_in xs (r\<lparr>total_read := x\<rparr>) = Some (t\<lparr>total_read := x\<rparr>)" for x
      using frame False inside by (subst ring_copy_in.simps) (simp add: ring_in_turn_frame(2) in_frame_def copy_inside_def)
    ultimately show ?thesis unfolding in_frame_def by blast
  qed
qed

definition rx_credit :: "rx_phase \<Rightarrow> u32" where
  "rx_credit p = (case p of Rx_Copied n xs \<Rightarrow> n | _ \<Rightarrow> 0)"

definition rx_flight :: "rx_phase \<Rightarrow> sample list" where
  "rx_flight p = (case p of Rx_Copied n xs \<Rightarrow> xs | _ \<Rightarrow> [])"

text \<open>The buffer as the reader has left it: the words it has copied are counted as read.\<close>

definition rx_view :: "u32 \<Rightarrow> 'z ring_scheme \<Rightarrow> 'z ring_scheme" where
  "rx_view k r = r\<lparr>total_read := total_read r + k\<rparr>"

definition rx_sound :: "u32 \<Rightarrow> 'z ring_scheme \<Rightarrow> bool" where
  "rx_sound k r \<longleftrightarrow> ring_ok (rx_view k r) \<and> words_available r = words_available (rx_view k r) + unat k
     \<and> words_available r \<le> buf_size r"

lemma rx_sound_0 [simp]: "rx_sound 0 r \<longleftrightarrow> ring_ok r" "rx_view 0 r = r"
  by (auto simp: rx_sound_def rx_view_def ring_ok_def)

lemma rx_sound_size: "rx_sound k r \<Longrightarrow> buf_size r < 2 ^ 32"
  by (simp add: rx_sound_def ring_ok_def rx_view_def)

text \<open>The producer writes behind the reader's back: it sees fewer free words, never more.\<close>

lemma ring_write_sound:
  assumes ok: "rx_sound k r" and room: "length b \<le> words_free r"
  shows "\<exists>t. ring_write b r = Some t \<and> rx_sound k t
    \<and> ring_items (rx_view k t) = ring_items (rx_view k r) @ b
    \<and> words_available t = words_available r + length b
    \<and> (\<exists>c w n. t = r\<lparr>buf := c, write_index := w, total_written := n\<rparr>)"
proof -
  let ?v = "rx_view k r"
  have v: "ring_ok ?v" "words_available r = words_available ?v + unat k" "words_available r \<le> buf_size r"
    using ok by (simp_all add: rx_sound_def)
  have sz: "buf_size ?v = buf_size r" by (simp add: rx_view_def)
  have free: "words_available r + length b \<le> buf_size r"
    using room words_free_eq [OF v(3) rx_sound_size [OF ok]] v(3) by simp
  then have "length (ring_items ?v) + length b \<le> buf_size ?v" using v(2) sz by simp
  then obtain t where t: "ring_write b ?v = Some t" "ring_ok t" "ring_items t = ring_items ?v @ b" "buf_size t = buf_size ?v"
    using rb.put_ok [OF v(1) TrueI, of b] by blast
  then obtain u where u: "ring_copy_in b ?v = Some u" "t = u\<lparr>total_written := total_written u + of_nat (length b)\<rparr>"
    by (auto simp: ring_write_def)
  obtain c w where cw: "u = ?v\<lparr>buf := c, write_index := w\<rparr>"
    and com: "\<And>x. ring_copy_in b (?v\<lparr>total_read := x\<rparr>) = Some (u\<lparr>total_read := x\<rparr>)"
    using ring_copy_in_frame [OF u(1)] by (auto simp: in_frame_def)
  let ?t = "r\<lparr>buf := c, write_index := w, total_written := total_written r + of_nat (length b)\<rparr>"
  have run: "ring_write b r = Some ?t"
    using com [of "total_read r"] by (simp add: ring_write_def rx_view_def cw)
  have view: "rx_view k ?t = t" by (simp add: u(2) cw rx_view_def)
  have "words_available ?t = words_available r + length b"
    using words_available_add [of r "length b"] free rx_sound_size [OF ok] by (simp add: words_available_def)
  moreover have "words_available t = words_available ?v + length b"
    using arg_cong [OF t(3), of length] by simp
  ultimately show ?thesis
    using run view t v free by (intro exI [of _ ?t]) (auto simp: rx_sound_def)
qed

subsection \<open>The invariant\<close>

definition rx_waiting_ok :: "u32 \<Rightarrow> rx_side \<Rightarrow> bool" where
  "rx_waiting_ok n c \<longleftrightarrow> (if recv_sem c
     then unat n \<le> words_available (recv_buffer c) \<and> required_available_count (recv_buffer c) = 0
     else required_available_count (recv_buffer c) = n)"

definition rx_quiet :: "rx_side \<Rightarrow> bool" where
  "rx_quiet c \<longleftrightarrow> \<not> recv_blocked c \<and> \<not> recv_sem c \<and> required_available_count (recv_buffer c) = 0"

definition rx_control :: "u32 \<Rightarrow> rx_phase \<Rightarrow> rx_side \<Rightarrow> bool" where
  "rx_control n p c \<longleftrightarrow> (case p of
       Rx_Idle \<Rightarrow> (if recv_blocked c then rx_waiting_ok n c else rx_quiet c)
     | Rx_Arm m \<Rightarrow> m = n \<and> rx_quiet c
     | Rx_Wait m \<Rightarrow> m = n \<and> recv_blocked c \<and> rx_waiting_ok n c
     | Rx_Ready m \<Rightarrow> m = n \<and> rx_quiet c \<and> unat n \<le> words_available (recv_buffer c)
     | Rx_Copied m xs \<Rightarrow> m = n \<and> rx_quiet c)"

definition rx_inv :: "u32 \<Rightarrow> rx_sys \<Rightarrow> bool" where
  "rx_inv n s \<longleftrightarrow> rx_sound (rx_credit (phase s)) (recv_buffer (side s))
     \<and> accepted s = delivered s @ rx_flight (phase s) @ ring_items (rx_view (rx_credit (phase s)) (recv_buffer (side s)))
     \<and> rx_control n (phase s) (side s)"

lemmas rx_inv_defs = rx_inv_def rx_control_def rx_waiting_ok_def rx_quiet_def rx_credit_def rx_flight_def

text \<open>Waking the reader does not touch the samples, and keeps the protocol.\<close>

lemma rx_wake_items [simp]:
  "ring_ok (recv_buffer (rx_wake c)) = ring_ok (recv_buffer (c :: rx_side))"
  "rx_sound k (recv_buffer (rx_wake c)) = rx_sound k (recv_buffer (c :: rx_side))"
  "ring_items (rx_view k (recv_buffer (rx_wake c))) = ring_items (rx_view k (recv_buffer c))"
  "recv_blocked (rx_wake c) = recv_blocked c"
  "words_available (recv_buffer (rx_wake c)) = words_available (recv_buffer c)"
  by (simp_all add: rx_wake_def rx_sound_def rx_view_def ring_ok_def ring_items_def words_available_def)

lemma rx_waiting_wake: "rx_waiting_ok n c \<Longrightarrow> rx_waiting_ok n (rx_wake c)"
  by (auto simp: rx_waiting_ok_def rx_wake_def words_available_def split: if_splits)

lemma rx_quiet_wake: "rx_quiet c \<Longrightarrow> rx_wake c = c"
  by (simp add: rx_quiet_def rx_wake_def)

lemma rx_wake_control: "rx_control n p c \<Longrightarrow> rx_control n p (rx_wake c)"
  by (cases p) (auto simp: rx_control_def rx_quiet_wake rx_waiting_wake split: if_splits)

lemma rx_control_more:
  assumes "rx_control n p c" and "words_available (recv_buffer c) \<le> words_available r"
    and "required_available_count r = required_available_count (recv_buffer c)"
  shows "rx_control n p (c\<lparr>recv_buffer := r\<rparr>)"
  using assms by (cases p) (auto simp: rx_control_def rx_waiting_ok_def rx_quiet_def split: if_splits)

lemma rx_isr_inv:
  assumes inv: "rx_inv n s" and run: "rtos_mic_array_isr b (side s) = Some c"
  shows "rx_inv n (s\<lparr>side := c,
    accepted := (if length b \<le> words_free (recv_buffer (side s)) then accepted s @ b else accepted s)\<rparr>)"
proof (cases "length b \<le> words_free (recv_buffer (side s))")
  case True
  let ?r = "recv_buffer (side s)" and ?k = "rx_credit (phase s)"
  have "rx_sound ?k ?r" using inv by (simp add: rx_inv_def)
  from ring_write_sound [OF this True] obtain t d w x where t: "ring_write b ?r = Some t" "rx_sound ?k t"
    "ring_items (rx_view ?k t) = ring_items (rx_view ?k ?r) @ b"
    "words_available t = words_available ?r + length b"
    "t = ?r\<lparr>buf := d, write_index := w, total_written := x\<rparr>" by blast
  then have "rx_control n (phase s) ((side s)\<lparr>recv_buffer := t\<rparr>)"
    using inv by (intro rx_control_more) (simp_all add: rx_inv_def)
  from rx_wake_control [OF this] show ?thesis
    using run True t inv by (auto simp: rtos_mic_array_isr_def rx_inv_def)
next
  case False
  with run inv rx_wake_control [of n "phase s" "side s"] show ?thesis
    by (auto simp: rtos_mic_array_isr_def rx_inv_def)
qed

lemma rx_copy_ok:
  assumes ok: "ring_ok (recv_buffer c)" and n: "unat n \<le> words_available (recv_buffer (c :: rx_side))"
  shows "\<exists>r. rx_copy n c = Some (take (unat n) (ring_items (recv_buffer c)), c\<lparr>recv_buffer := r\<rparr>)
    \<and> rx_sound n r \<and> ring_items (rx_view n r) = drop (unat n) (ring_items (recv_buffer c))
    \<and> required_available_count r = required_available_count (recv_buffer c)"
proof -
  let ?r = "recv_buffer c"
  obtain t where t: "ring_read (unat n) ?r = Some (take (unat n) (ring_items ?r), t)" "ring_ok t"
    "ring_items t = drop (unat n) (ring_items ?r)"
    using rb.get_ok [OF ok TrueI, of "unat n"] n by auto
  have "unat n \<le> buf_size ?r" using rb.bound [OF ok] n by simp
  with ok obtain ys x where r: "ring_copy_out (unat n) ?r = Some (ys, ?r\<lparr>read_index := x\<rparr>)"
    using ring_copy_out_spec [of ?r "unat n"] by (auto simp: ring_ok_def)
  let ?u = "?r\<lparr>read_index := x\<rparr>"
  have view: "rx_view n ?u = t" and ys: "ys = take (unat n) (ring_items ?r)"
    using t(1) r by (simp_all add: ring_read_def rx_view_def)
  have "words_available ?u = words_available ?r" by (simp add: words_available_def)
  moreover have "words_available t = words_available ?r - unat n"
    using arg_cong [OF t(3), of length] by simp
  ultimately have "rx_sound n ?u"
    using view t(2) n rb.bound [OF ok] by (simp add: rx_sound_def)
  with view ys r t(3) show ?thesis by (intro exI [of _ ?u]) (simp add: rx_copy_def)
qed

lemma rx_step_inv: "rx_step fw sizes s t \<Longrightarrow> sizes = {n} \<Longrightarrow> rx_inv n s \<Longrightarrow> rx_inv n t"
proof (induction rule: rx_step.induct)
  case (rx_isr b s c)
  then show ?case using rx_isr_inv [of n s b c] by simp
next
  case (rx_copies s m xs c)
  then have ok: "ring_ok (recv_buffer (side s))" and m: "m = n" "unat n \<le> words_available (recv_buffer (side s))"
    by (simp_all add: rx_inv_defs)
  obtain r where "rx_copy n (side s) = Some (take (unat n) (ring_items (recv_buffer (side s))), (side s)\<lparr>recv_buffer := r\<rparr>)"
    "rx_sound n r" "ring_items (rx_view n r) = drop (unat n) (ring_items (recv_buffer (side s)))"
    "required_available_count r = required_available_count (recv_buffer (side s))"
    using rx_copy_ok [OF ok m(2)] by blast
  with rx_copies m show ?case by (auto simp: rx_inv_defs)
next
  case (rx_commits s m xs)
  then have m: "m = n" and snd: "rx_sound m (recv_buffer (side s))" by (auto simp: rx_inv_defs)
  have "rx_sound n (recv_buffer (side s))" using snd m by (simp only:)
  then have "ring_ok (rx_view n (recv_buffer (side s)))" by (simp add: rx_sound_def)
  with rx_commits show ?case
    by (auto simp: rx_inv_defs rx_commit_def rx_view_def m)
next
  case (rx_arms s m)
  then show ?case
    by (auto simp: rx_inv_defs rx_arm_def ring_ok_def ring_items_def words_available_def)
qed (auto simp: rx_inv_defs rx_must_wait_def not_less)

lemma rx_reachable_inv:
  "rx_reachable fw {n} init s \<Longrightarrow> rx_inv n init \<Longrightarrow> rx_inv n s"
  by (induction rule: rx_reachable.induct) (blast intro: rx_step_inv)+

lemma rx_start_inv:
  assumes start: "rtos_mic_array_start fs channels buffer_size mem False = Inr c"
    and mem: "length mem = unat (buffer_size * channels)" and pos: "0 < unat (buffer_size * channels)"
  shows "rx_inv n (rx_initial c)"
proof -
  have "c = \<lparr>recv_buffer = \<lparr>buf_size = unat (buffer_size * channels), buf = mem, total_written = 0,
             write_index = 0, total_read = 0, read_index = 0, required_available_count = 0\<rparr>,
           recv_sem = False, recv_blocked = False\<rparr>"
    using start by (simp add: rtos_mic_array_start_def split: if_splits)
  then show ?thesis
    using mem pos unsigned_less [of "buffer_size * channels", where ?'a = nat]
    by (simp add: rx_initial_def rx_inv_defs ring_ok_def ring_items_def words_available_def)
qed

section \<open>Properties\<close>

text \<open>
  C3: The microphone driver, started with room for at least one word and read by calls
  that all ask for the same number of words: whatever the interleaving of the interrupt with
  the reader, and whichever calls time out, what the calls have returned, followed by what a
  call has copied but not yet counted and what is still in the buffer, is exactly what the
  interrupt accepted, in order. Nothing is lost, repeated or reordered, although the two 32-bit
  counters wrap.
\<close>

theorem mic_rx_lossless:
  assumes start: "rtos_mic_array_start fs channels buffer_size mem False = Inr c"
    and mem: "length mem = unat (buffer_size * channels)" and pos: "0 < unat (buffer_size * channels)"
    and run: "rx_reachable fw {n} (rx_initial c) s"
  shows "accepted s = delivered s @ rx_flight (phase s)
    @ ring_items (rx_view (rx_credit (phase s)) (recv_buffer (side s)))"
  using rx_reachable_inv [OF run rx_start_inv [OF start mem pos]] by (simp add: rx_inv_def)

definition mic_example :: rx_side where
  "mic_example = (case rtos_mic_array_start 2 1 3 [0, 0, 0] False of Inr c \<Rightarrow> c)"

lemma mic_example_start: "rtos_mic_array_start 2 1 3 [0, 0, 0] False = Inr mic_example"
  by (simp add: mic_example_def rtos_mic_array_start_def)

lemma mic_example_reach:
  "rx_reachable 2 {2} (rx_initial mic_example) ((rx_initial mic_example)\<lparr>
     side := the (rtos_mic_array_isr [5, 6] mic_example), accepted := [5, 6]\<rparr>)"
proof (rule rx_reachable.intros(2) [OF rx_reachable.intros(1)])
  have "rtos_mic_array_isr [5, 6] mic_example = Some (the (rtos_mic_array_isr [5, 6] mic_example))"
    by code_simp
  then have run: "rtos_mic_array_isr [5, 6] (side (rx_initial mic_example)) = Some (the (rtos_mic_array_isr [5, 6] mic_example))"
    by (simp add: rx_initial_def)
  have "2 \<le> words_free (recv_buffer (side (rx_initial mic_example)))" by code_simp
  with rx_step.rx_isr [OF _ run, where fw = 2 and sizes = "{2}"]
  show "rx_step 2 {2} (rx_initial mic_example) ((rx_initial mic_example)\<lparr>
     side := the (rtos_mic_array_isr [5, 6] mic_example), accepted := [5, 6]\<rparr>)"
    by (simp add: rx_initial_def)
qed

theorem mic_rx_lossless_witness:
  "[5, 6] = [] @ rx_flight Rx_Idle
     @ ring_items (rx_view (rx_credit Rx_Idle) (recv_buffer (the (rtos_mic_array_isr [5, 6] mic_example))))"
  using mic_rx_lossless [OF mic_example_start _ _ mic_example_reach] by (simp add: rx_initial_def)

text \<open>How long a blocked reader waits.\<close>

fun isr_blocks :: "sample list list \<Rightarrow> 'z rx_side_scheme \<Rightarrow> 'z rx_side_scheme option" where
  "isr_blocks [] c = Some c"
| "isr_blocks (b # bs) c = do { c \<leftarrow> rtos_mic_array_isr b c; isr_blocks bs c }"

lemma isr_block_progress:
  assumes ok: "ring_ok (recv_buffer c)" and waiting: "rx_waiting_ok n (c :: rx_side)"
    and room: "unat n + length b \<le> buf_size (recv_buffer c) + 1" and pos: "n \<noteq> 0"
  shows "\<exists>d. rtos_mic_array_isr b c = Some d \<and> ring_ok (recv_buffer d) \<and> rx_waiting_ok n d
    \<and> buf_size (recv_buffer d) = buf_size (recv_buffer c) \<and> recv_blocked d = recv_blocked c
    \<and> (recv_sem c \<longrightarrow> recv_sem d)
    \<and> (\<not> recv_sem d \<longrightarrow> words_available (recv_buffer d) = words_available (recv_buffer c) + length b)
    \<and> (unat n \<le> words_available (recv_buffer d) \<longrightarrow> recv_sem d)"
proof (cases "length b \<le> words_free (recv_buffer c)")
  case True
  let ?r = "recv_buffer c"
  obtain t d w x where t: "ring_write b ?r = Some t" "rx_sound 0 t"
    "words_available t = words_available ?r + length b"
    "t = ?r\<lparr>buf := d, write_index := w, total_written := x\<rparr>"
    using ring_write_sound [of 0 ?r b] ok True by (simp only: rx_sound_0) blast
  let ?d = "rx_wake (c\<lparr>recv_buffer := t\<rparr>)"
  have "rx_waiting_ok n (c\<lparr>recv_buffer := t\<rparr>)" using waiting t(3,4) by (auto simp: rx_waiting_ok_def)
  then have "rx_waiting_ok n ?d" by (rule rx_waiting_wake)
  moreover have "rtos_mic_array_isr b c = Some ?d" using True t(1) by (simp add: rtos_mic_array_isr_def)
  moreover have "ring_ok (recv_buffer ?d)" using t(2) by simp
  moreover have "buf_size (recv_buffer ?d) = buf_size ?r" "recv_sem c \<longrightarrow> recv_sem ?d"
    using t(4) by (simp_all add: rx_wake_def)
  moreover have "unat n \<le> words_available (recv_buffer ?d) \<longrightarrow> recv_sem ?d"
    using waiting t(4) pos by (auto simp: rx_wake_def rx_waiting_ok_def words_available_def word_gt_0 split: if_splits)
  ultimately show ?thesis using t(3) by (intro exI [of _ ?d]) simp
next
  case False
  let ?r = "recv_buffer c"
  have av: "words_available ?r \<le> buf_size ?r" using ok by (simp add: ring_ok_def)
  have "buf_size ?r < words_available ?r + length b"
    using False words_free_eq [OF av] ok by (simp add: ring_ok_def)
  then have enough: "unat n \<le> words_available ?r" using room by simp
  have run: "rtos_mic_array_isr b c = Some (rx_wake c)" using False by (simp add: rtos_mic_array_isr_def)
  have sem: "recv_sem (rx_wake c)"
    using waiting enough pos by (auto simp: rx_wake_def rx_waiting_ok_def word_gt_0 split: if_splits)
  moreover have "buf_size (recv_buffer (rx_wake c)) = buf_size ?r" by (simp add: rx_wake_def)
  moreover have "ring_ok (recv_buffer (rx_wake c))" using ok by simp
  ultimately show ?thesis
    using run rx_waiting_wake [OF waiting] by (intro exI [of _ "rx_wake c"]) simp
qed

lemma isr_blocks_wake:
  "ring_ok (recv_buffer c) \<Longrightarrow> rx_waiting_ok n (c :: rx_side) \<Longrightarrow> n \<noteq> 0 \<Longrightarrow>
    unat n + fw \<le> buf_size (recv_buffer c) + 1 \<Longrightarrow> (\<And>b. b \<in> set bs \<Longrightarrow> length b = fw) \<Longrightarrow>
    unat n \<le> words_available (recv_buffer c) + fw * length bs \<Longrightarrow> bs \<noteq> [] \<or> recv_sem c \<Longrightarrow>
    \<exists>d. isr_blocks bs c = Some d \<and> recv_sem d \<and> unat n \<le> words_available (recv_buffer d)"
proof (induction bs arbitrary: c)
  case Nil
  then show ?case by (simp add: rx_waiting_ok_def)
next
  case (Cons b bs)
  have b: "length b = fw" using Cons.prems(5) by simp
  obtain d where d: "rtos_mic_array_isr b c = Some d" "ring_ok (recv_buffer d)" "rx_waiting_ok n d"
    "buf_size (recv_buffer d) = buf_size (recv_buffer c)"
    "\<not> recv_sem d \<longrightarrow> words_available (recv_buffer d) = words_available (recv_buffer c) + length b"
    "unat n \<le> words_available (recv_buffer d) \<longrightarrow> recv_sem d"
    using isr_block_progress [OF Cons.prems(1,2), of b] Cons.prems(3,4) b by auto
  have "unat n \<le> words_available (recv_buffer d) + fw * length bs"
    using d(3,5) b Cons.prems(6) by (cases "recv_sem d") (simp_all add: rx_waiting_ok_def)
  moreover have "bs \<noteq> [] \<or> recv_sem d" using calculation d(6) by (cases bs) simp_all
  ultimately obtain e where "isr_blocks bs d = Some e" "recv_sem e" "unat n \<le> words_available (recv_buffer e)"
    using Cons.IH [OF d(2,3) Cons.prems(3)] Cons.prems(4,5) d(4) by auto
  with d(1) show ?case by (intro exI [of _ e]) simp
qed

text \<open>
  A reader that waits is woken: once the interrupt has run often enough to produce
  the requested words, the semaphore has been given and the request can be met, provided that
  the request leaves room for one more block in the buffer
  (\<open>n + fw \<le> buf_size + 1\<close>).
\<close>

theorem mic_rx_wakes:
  assumes start: "rtos_mic_array_start fs channels buffer_size mem False = Inr c"
    and mem: "length mem = unat (buffer_size * channels)" and pos: "0 < unat (buffer_size * channels)"
    and run: "rx_reachable fw {n} (rx_initial c) s" and waits: "phase s = Rx_Wait n"
    and n: "n \<noteq> 0" "unat n + fw \<le> buf_size (recv_buffer (side s)) + 1"
    and blocks: "\<And>b. b \<in> set bs \<Longrightarrow> length b = fw" "unat n \<le> fw * length bs"
  shows "\<exists>d. isr_blocks bs (side s) = Some d \<and> recv_sem d \<and> unat n \<le> words_available (recv_buffer d)"
proof -
  have inv: "ring_ok (recv_buffer (side s))" "rx_waiting_ok n (side s)"
    using rx_reachable_inv [OF run rx_start_inv [OF start mem pos]] waits
    by (simp_all add: rx_inv_def rx_control_def rx_credit_def)
  have "bs \<noteq> []" using blocks(2) n(1) by (auto simp: unat_eq_zero)
  then show ?thesis
    using isr_blocks_wake [OF inv n blocks(1)] blocks(2) by simp
qed

definition mic_waiting :: rx_sys where
  "mic_waiting = (rx_initial mic_example)\<lparr>side := rx_arm 2 mic_example, phase := Rx_Wait 2\<rparr>"

lemma mic_waiting_reach: "rx_reachable 2 {2} (rx_initial mic_example) mic_waiting"
proof -
  have must: "rx_must_wait 2 (side (rx_initial mic_example))" "unat (2 :: u32) \<le> buf_size (recv_buffer (side (rx_initial mic_example)))"
    by code_simp+
  have "rx_step 2 {2} (rx_initial mic_example) ((rx_initial mic_example)\<lparr>phase := Rx_Arm 2\<rparr>)"
    by (rule rx_call_waits) (use must in \<open>simp_all add: rx_initial_def\<close>)
  moreover have "rx_step 2 {2} ((rx_initial mic_example)\<lparr>phase := Rx_Arm 2\<rparr>) mic_waiting"
    using rx_arms [of "(rx_initial mic_example)\<lparr>phase := Rx_Arm 2\<rparr>" 2] by (simp add: mic_waiting_def rx_initial_def)
  ultimately show ?thesis by (blast intro: rx_reachable.intros)
qed

theorem mic_rx_wakes_witness:
  "\<exists>d. isr_blocks [[8, 9]] (side mic_waiting) = Some d \<and> recv_sem d \<and> unat (2 :: u32) \<le> words_available (recv_buffer d)"
proof (rule mic_rx_wakes [OF mic_example_start _ _ mic_waiting_reach])
  show "unat (2 :: u32) + 2 \<le> buf_size (recv_buffer (side mic_waiting)) + 1" by code_simp
qed (simp_all add: mic_waiting_def)

text \<open>
  Without that room the reader waits for ever: when the free words do not hold a
  block and the available ones do not meet the request, every interrupt drops its block and
  leaves the state as it is. A request within the size of the buffer, which is all that the
  driver checks and its documentation asks for, can be of this kind.
\<close>

theorem mic_rx_stalls:
  assumes "words_free (recv_buffer c) < fw"
    and "words_available (recv_buffer c) < unat (required_available_count (recv_buffer c))"
    and "\<And>b. b \<in> set bs \<Longrightarrow> length b = fw"
  shows "isr_blocks bs c = Some c"
  using assms(3)
proof (induction bs)
  case Nil
  then show ?case by simp
next
  case (Cons b bs)
  then have "length b = fw" by simp
  then have "rtos_mic_array_isr b c = Some c"
    using assms(1,2) by (simp add: rtos_mic_array_isr_def rx_wake_def)
  with Cons show ?case by simp
qed

definition mic_stalled :: rx_side where
  "mic_stalled = rx_arm 3 (the (rtos_mic_array_isr [5, 6] mic_example))"

theorem mic_rx_stalls_witness:
  "isr_blocks [[7, 8], [9, 10]] mic_stalled = Some mic_stalled \<and> unat (3 :: u32) \<le> buf_size (recv_buffer mic_stalled)"
proof
  have "words_free (recv_buffer mic_stalled) < 2"
    "words_available (recv_buffer mic_stalled) < unat (required_available_count (recv_buffer mic_stalled))"
    by code_simp+
  then show "isr_blocks [[7, 8], [9, 10]] mic_stalled = Some mic_stalled"
    by (rule mic_rx_stalls) auto
  show "unat (3 :: u32) \<le> buf_size (recv_buffer mic_stalled)" by code_simp
qed

text \<open>
  After a call that timed out, the next call takes the semaphore whatever it asks
  for: if the producer has meanwhile met the old request, a larger one returns success
  at once, its first words the available ones and the rest whatever the buffer holds.
\<close>

theorem mic_rx_after_timeout_overreads:
  assumes ok: "ring_ok (recv_buffer c)" and blocked: "recv_blocked c"
    and sem: "sem_get timeout c = (True, d)" and d: "recv_buffer d = recv_buffer c"
    and short: "words_available (recv_buffer c) < unat (frame_count * channels)"
    and fits: "unat (frame_count * channels) \<le> buf_size (recv_buffer c)"
  shows "\<exists>xs e. mic_array_local_rx channels sem_get frame_count timeout c = Some (Inr (frame_count, xs, e))
    \<and> length xs = unat (frame_count * channels)
    \<and> take (words_available (recv_buffer c)) xs = ring_items (recv_buffer c)"
proof -
  let ?r = "recv_buffer c" and ?n = "unat (frame_count * channels)"
  let ?xs = "map (\<lambda>k. buf ?r ! ((read_index ?r + k) mod buf_size ?r)) [0 ..< ?n]"
  have "ring_copy_out ?n ?r = Some (?xs, ?r\<lparr>read_index := (read_index ?r + ?n) mod buf_size ?r\<rparr>)"
    using ok fits by (intro ring_copy_out_spec) (simp_all add: ring_ok_def)
  then have "\<exists>e. mic_array_local_rx channels sem_get frame_count timeout c = Some (Inr (frame_count, ?xs, e))"
    using blocked sem d fits
    by (simp add: mic_array_local_rx_def local_rx_def rx_must_wait_def rx_copy_def Let_def)
  moreover have "take (words_available ?r) ?xs = ring_items ?r"
    using short by (simp add: take_map ring_items_def)
  ultimately show ?thesis by (elim exE) (intro exI conjI, assumption, simp_all)
qed

text \<open>A call for two words has timed out on an empty buffer; then a block of two arrived.\<close>

definition mic_late :: rx_side where
  "mic_late = \<lparr>recv_buffer = \<lparr>buf_size = 3, buf = [5, 6, 0], total_written = 2, write_index = 2, total_read = 0,
       read_index = 0, required_available_count = 0\<rparr>, recv_sem = True, recv_blocked = True\<rparr>"

lemma mic_late_reached:
  "mic_array_local_rx 1 (\<lambda>t c. (False, c)) 2 0 mic_example = Some (Inr (0, [], rx_arm 2 mic_example))"
  "rtos_mic_array_isr [5, 6] (rx_arm 2 mic_example) = Some mic_late"
  by code_simp+

theorem mic_rx_after_timeout_overreads_witness:
  "\<exists>xs e. mic_array_local_rx 1 (\<lambda>t c. (recv_sem c, c\<lparr>recv_sem := False\<rparr>)) 3 0 mic_late = Some (Inr (3, xs, e))
    \<and> length xs = unat (3 * 1 :: u32) \<and> take (words_available (recv_buffer mic_late)) xs = ring_items (recv_buffer mic_late)"
  by (rule mic_rx_after_timeout_overreads [where d = "mic_late\<lparr>recv_sem := False\<rparr>"])
    (simp_all add: mic_late_def ring_ok_def words_available_def)

end
