(* ===== verification/I2s_Driver.thy ===== *)
theory I2s_Driver
  imports Sample_Rx
begin

text \<open>
  The I2S driver, modules/rtos/drivers/i2s/rtos_i2s.c and api/rtos_i2s.h: the callbacks the
  I/O thread runs for every frame (i2s_receive, i2s_send), the interrupt that passes the
  wake-ups on (rtos_i2s_isr), the calls of the application (i2s_local_rx, i2s_local_tx) and
  the set-up (rtos_i2s_init, rtos_i2s_start). The two filter callbacks are parameters.
\<close>

section \<open>State\<close>

record send_buf = ring +
  required_free_count :: u32

record 'a i2s = rx_side +
  send_buffer :: send_buf
  send_sem :: bool
  send_blocked :: bool
  isr_cmd :: u8
  num_in :: u32
  num_out :: u32
  i2s_mode :: nat
  mclk_bclk_ratio :: u32
  send_filter_app_data :: 'a
  receive_filter_app_data :: 'a

text \<open>
  A receive filter gets the application data, the received frame and the free spaces
  behind the write index, and returns the words it stores there; their number is the value
  the C callback returns. A send filter gets the application data, the size of the frame
  and the words that follow the read index, and returns the frame and the number of words
  it consumed.
\<close>

type_synonym 'a receive_filter = "'a \<Rightarrow> sample list \<Rightarrow> nat \<Rightarrow> sample list"
type_synonym 'a send_filter = "'a \<Rightarrow> nat \<Rightarrow> sample list \<Rightarrow> sample list \<times> nat"

definition ISR_RESUME_SEND_BM :: u8 where "ISR_RESUME_SEND_BM = 1"
definition ISR_RESUME_RECV_BM :: u8 where "ISR_RESUME_RECV_BM = 2"
definition I2S_MAX_DATALINES :: nat where "I2S_MAX_DATALINES = 8"

text \<open>\<open>rtos_i2s_mclk_bclk_ratio\<close>: eight bits a byte, four bytes a sample, two channels a frame.\<close>

definition rtos_i2s_mclk_bclk_ratio :: "u32 \<Rightarrow> u32 \<Rightarrow> u32" where
  "rtos_i2s_mclk_bclk_ratio audio_clock_frequency sample_rate =
     audio_clock_frequency div (sample_rate * (8 * 4) * 2)"

section \<open>The interrupt\<close>

definition rtos_i2s_isr :: "u8 \<Rightarrow> 'a i2s \<Rightarrow> 'a i2s" where
  "rtos_i2s_isr isr_action c =
     (let c = (if isr_action AND ISR_RESUME_SEND_BM \<noteq> 0 then c\<lparr>send_sem := True\<rparr> else c)
      in if isr_action AND ISR_RESUME_RECV_BM \<noteq> 0 then c\<lparr>recv_sem := True\<rparr> else c)"

text \<open>\<open>s_chan_out_byte\<close> of a pending command: the byte that is sent, and the command cleared.\<close>

definition i2s_flush :: "'a i2s \<Rightarrow> u8 option \<times> 'a i2s" where
  "i2s_flush c = (if isr_cmd c \<noteq> 0 then (Some (isr_cmd c), c\<lparr>isr_cmd := 0\<rparr>) else (None, c))"

section \<open>The callbacks of the I/O thread\<close>

text \<open>\<open>memcpy\<close> to and from the buffer, in one piece.\<close>

definition ring_memcpy_in :: "sample list \<Rightarrow> 'z ring_scheme \<Rightarrow> 'z ring_scheme res" where
  "ring_memcpy_in xs r =
     (if write_index r + length xs \<le> length (buf r) then Inr (r\<lparr>buf := splice (write_index r) xs (buf r)\<rparr>)
      else Inl OutOfBounds)"

definition ring_memcpy_out :: "nat \<Rightarrow> 'z ring_scheme \<Rightarrow> sample list res" where
  "ring_memcpy_out n r =
     (if read_index r + n \<le> length (buf r) then Inr (take n (drop (read_index r) (buf r)))
      else Inl OutOfBounds)"

definition i2s_receive_store ::
  "'a receive_filter option \<Rightarrow> sample list \<Rightarrow> 'a i2s \<Rightarrow> (nat \<times> recv_buf) res" where
  "i2s_receive_store receive_filter_cb i2s_sample_buf c =
     (let r = recv_buffer c
      in case receive_filter_cb of
           None \<Rightarrow>
             if length i2s_sample_buf \<le> words_free r
             then rbind (ring_memcpy_in i2s_sample_buf r) (\<lambda>r. Inr (length i2s_sample_buf, r))
             else Inr (0, r)
         | Some cb \<Rightarrow>
             let sample_spaces_free = min (words_free r) (buf_size r - write_index r);
                 out = cb (send_filter_app_data c) i2s_sample_buf sample_spaces_free
             in rbind (ring_memcpy_in out r) (\<lambda>r. Inr (length out, r)))"

definition recv_advance :: "nat \<Rightarrow> recv_buf \<Rightarrow> recv_buf" where
  "recv_advance n r =
     (let r = r\<lparr>write_index := write_index r + n\<rparr>;
          r = (if buf_size r \<le> write_index r then r\<lparr>write_index := 0\<rparr> else r)
      in r\<lparr>total_written := total_written r + of_nat n\<rparr>)"

definition i2s_receive_wake :: "'a i2s \<Rightarrow> 'a i2s" where
  "i2s_receive_wake c =
     (let r = recv_buffer c
      in if 0 < required_available_count r \<and> unat (required_available_count r) \<le> words_available r
         then c\<lparr>recv_buffer := r\<lparr>required_available_count := 0\<rparr>, isr_cmd := isr_cmd c OR ISR_RESUME_RECV_BM\<rparr>
         else c)"

definition i2s_receive ::
  "'a receive_filter option \<Rightarrow> sample list \<Rightarrow> 'a i2s \<Rightarrow> (u8 option \<times> 'a i2s) res" where
  "i2s_receive receive_filter_cb i2s_sample_buf c =
     rbind (i2s_receive_store receive_filter_cb i2s_sample_buf c) (\<lambda>(buffer_words_written, r).
       let c = c\<lparr>recv_buffer := (if 0 < buffer_words_written then recv_advance (length i2s_sample_buf) r else r)\<rparr>;
           c = i2s_receive_wake c
       in Inr (if num_out c = 0 then i2s_flush c else (None, c)))"

definition i2s_send_load ::
  "'a send_filter option \<Rightarrow> nat \<Rightarrow> sample list \<Rightarrow> 'a i2s \<Rightarrow> (sample list \<times> nat) res" where
  "i2s_send_load send_filter_cb num i2s_sample_buf c =
     (let r = send_buffer c
      in case send_filter_cb of
           None \<Rightarrow>
             if num \<le> words_available r then rbind (ring_memcpy_out num r) (\<lambda>xs. Inr (xs, num))
             else Inr (i2s_sample_buf, 0)
         | Some cb \<Rightarrow>
             let samples_available = min (words_available r) (buf_size r - read_index r)
             in Inr (cb (send_filter_app_data c) num (take samples_available (drop (read_index r) (buf r)))))"

definition send_advance :: "nat \<Rightarrow> send_buf \<Rightarrow> send_buf" where
  "send_advance n r =
     (let r = r\<lparr>read_index := read_index r + n\<rparr>;
          r = (if buf_size r \<le> read_index r then r\<lparr>read_index := 0\<rparr> else r)
      in r\<lparr>total_read := total_read r + of_nat n\<rparr>)"

definition i2s_send_wake :: "'a i2s \<Rightarrow> 'a i2s" where
  "i2s_send_wake c =
     (let r = send_buffer c
      in if 0 < required_free_count r \<and> unat (required_free_count r) \<le> words_free r
         then c\<lparr>send_buffer := r\<lparr>required_free_count := 0\<rparr>, isr_cmd := isr_cmd c OR ISR_RESUME_SEND_BM\<rparr>
         else c)"

text \<open>
  \<open>i2s_sample_buf\<close> is what the frame held before; on an underrun it goes out unchanged.
\<close>

definition i2s_send ::
  "'a send_filter option \<Rightarrow> nat \<Rightarrow> sample list \<Rightarrow> 'a i2s \<Rightarrow> (sample list \<times> u8 option \<times> 'a i2s) res" where
  "i2s_send send_filter_cb num i2s_sample_buf c =
     rbind (i2s_send_load send_filter_cb num i2s_sample_buf c) (\<lambda>(frame, buffer_words_read).
       let c = (if 0 < buffer_words_read then c\<lparr>send_buffer := send_advance buffer_words_read (send_buffer c)\<rparr> else c)
       in Inr (frame, i2s_flush (i2s_send_wake c)))"

section \<open>The calls of the application\<close>

definition i2s_local_rx ::
  "(u32 \<Rightarrow> 'a i2s \<Rightarrow> bool \<times> 'a i2s) \<Rightarrow> u32 \<Rightarrow> u32 \<Rightarrow> 'a i2s \<Rightarrow> (u32 \<times> sample list \<times> 'a i2s) res option" where
  "i2s_local_rx sem_get frame_count timeout c = local_rx sem_get (frame_count * (2 * num_in c)) frame_count timeout c"

definition tx_must_wait :: "u32 \<Rightarrow> 'a i2s \<Rightarrow> bool" where
  "tx_must_wait words c \<longleftrightarrow> \<not> send_blocked c \<and> words_free (send_buffer c) < unat words"

definition tx_arm :: "u32 \<Rightarrow> 'a i2s \<Rightarrow> 'a i2s" where
  "tx_arm words c = c\<lparr>send_buffer := (send_buffer c)\<lparr>required_free_count := words\<rparr>, send_blocked := True\<rparr>"

definition tx_copy :: "u32 \<Rightarrow> sample list \<Rightarrow> 'a i2s \<Rightarrow> 'a i2s res option" where
  "tx_copy words i2s_sample_buf c =
     (if length i2s_sample_buf < unat words then Some (Inl OutOfBounds)
      else map_option (\<lambda>r. Inr (c\<lparr>send_buffer := r\<rparr>)) (ring_copy_in (take (unat words) i2s_sample_buf) (send_buffer c)))"

definition tx_commit :: "u32 \<Rightarrow> 'a i2s \<Rightarrow> 'a i2s" where
  "tx_commit words c = c\<lparr>send_buffer := (send_buffer c)\<lparr>total_written := total_written (send_buffer c) + words\<rparr>\<rparr>"

definition i2s_local_tx ::
  "(u32 \<Rightarrow> 'a i2s \<Rightarrow> bool \<times> 'a i2s) \<Rightarrow> sample list \<Rightarrow> u32 \<Rightarrow> u32 \<Rightarrow> 'a i2s \<Rightarrow> (u32 \<times> 'a i2s) res option" where
  "i2s_local_tx sem_get i2s_sample_buf frame_count timeout c =
     (let words = frame_count * (2 * num_out c)
      in if buf_size (send_buffer c) < unat words then Some (Inl AssertFail)
         else let c = (if tx_must_wait words c then tx_arm words c else c);
                  c = (if send_blocked c
                       then let (ok, c) = sem_get timeout c in if ok then c\<lparr>send_blocked := False\<rparr> else c
                       else c)
              in if send_blocked c then Some (Inr (0, c))
                 else map_option (\<lambda>d. rbind d (\<lambda>d. Inr (frame_count, tx_commit words d))) (tx_copy words i2s_sample_buf c))"

section \<open>Set-up\<close>

definition rtos_i2s_init :: "u32 \<Rightarrow> u32 \<Rightarrow> 'a i2s \<Rightarrow> 'a i2s res" where
  "rtos_i2s_init n_out n_in c =
     rbind (c_assert (unat n_out \<le> I2S_MAX_DATALINES)) (\<lambda>_.
     rbind (c_assert (unat n_in \<le> I2S_MAX_DATALINES)) (\<lambda>_.
       Inr (c\<lparr>num_out := n_out, num_in := n_in\<rparr>)))"

definition recv_buf_zero :: recv_buf where
  "recv_buf_zero = \<lparr>buf_size = 0, buf = [], total_written = 0, write_index = 0, total_read = 0, read_index = 0,
     required_available_count = 0\<rparr>"

definition send_buf_zero :: send_buf where
  "send_buf_zero = \<lparr>buf_size = 0, buf = [], total_written = 0, write_index = 0, total_read = 0, read_index = 0,
     required_free_count = 0\<rparr>"

text \<open>\<open>rmem\<close> and \<open>smem\<close> are what the two calls of \<open>rtos_osal_malloc\<close> return.\<close>

definition rtos_i2s_start ::
  "u32 \<Rightarrow> nat \<Rightarrow> u32 \<Rightarrow> u32 \<Rightarrow> sample list \<Rightarrow> sample list \<Rightarrow> 'a i2s \<Rightarrow> 'a i2s" where
  "rtos_i2s_start ratio md recv_buffer_size send_buffer_size rmem smem c =
     (let c = c\<lparr>mclk_bclk_ratio := ratio, i2s_mode := md, isr_cmd := 0, recv_buffer := recv_buf_zero\<rparr>;
          c = (if 0 < num_in c
               then c\<lparr>recv_buffer := recv_buf_zero\<lparr>buf_size := unat (recv_buffer_size * (2 * num_in c)), buf := rmem\<rparr>,
                      recv_sem := False\<rparr>
               else c);
          c = c\<lparr>send_buffer := send_buf_zero\<rparr>
      in if 0 < num_out c
         then c\<lparr>send_buffer := send_buf_zero\<lparr>buf_size := unat (send_buffer_size * (2 * num_out c)), buf := smem\<rparr>,
                send_sem := False\<rparr>
         else c)"

section \<open>The sending side is a queue of frames\<close>

text \<open>The words of a frame: a left and a right sample for every data line.\<close>

definition out_frame :: "'a i2s \<Rightarrow> nat" where
  "out_frame c = unat (2 * num_out c)"

definition in_frame_words :: "'a i2s \<Rightarrow> nat" where
  "in_frame_words c = unat (2 * num_in c)"

definition framed :: "nat \<Rightarrow> 'z ring_scheme \<Rightarrow> bool" where
  "framed n r \<longleftrightarrow> ring_ok r \<and> 0 < n \<and> n dvd buf_size r \<and> n dvd write_index r \<and> n dvd read_index r"

lemma framed_fits: "framed n r \<Longrightarrow> read_index r + n \<le> buf_size r" "framed n r \<Longrightarrow> write_index r + n \<le> buf_size r"
  by (auto simp: framed_def ring_ok_def intro!: dvd_step_bound)

text \<open>One call that does not wait, and one frame that goes out.\<close>

definition i2s_put :: "sample list \<Rightarrow> 'a i2s \<Rightarrow> 'a i2s option" where
  "i2s_put xs c = (case i2s_local_tx (\<lambda>t c. (False, c)) xs (of_nat (length xs div out_frame c)) 0 c of
     Some (Inr (n, d)) \<Rightarrow> Some d | _ \<Rightarrow> None)"

definition i2s_get :: "nat \<Rightarrow> 'a i2s \<Rightarrow> (sample list \<times> 'a i2s) option" where
  "i2s_get n c = (case i2s_send None n [] c of Inr (frame, b, d) \<Rightarrow> Some (frame, d) | Inl e \<Rightarrow> None)"

definition i2s_tx_ok :: "'a i2s \<Rightarrow> bool" where
  "i2s_tx_ok c \<longleftrightarrow> framed (out_frame c) (send_buffer c) \<and> \<not> send_blocked c"

lemma i2s_send_wake_simps [simp]:
  "ring_items (send_buffer (i2s_send_wake c)) = ring_items (send_buffer c)"
  "buf_size (send_buffer (i2s_send_wake c)) = buf_size (send_buffer c)"
  "framed n (send_buffer (i2s_send_wake c)) = framed n (send_buffer c)"
  "num_out (i2s_send_wake c) = num_out c" "send_blocked (i2s_send_wake c) = send_blocked c"
  by (simp_all add: i2s_send_wake_def Let_def framed_def ring_ok_def ring_items_def words_available_def)

lemma i2s_flush_simps [simp]:
  "send_buffer (snd (i2s_flush c)) = send_buffer c" "recv_buffer (snd (i2s_flush c)) = recv_buffer c"
  "num_out (snd (i2s_flush c)) = num_out c" "send_blocked (snd (i2s_flush c)) = send_blocked c"
  by (simp_all add: i2s_flush_def)

lemma i2s_get_ok:
  assumes ok: "i2s_tx_ok c" and n: "n = out_frame c" "n \<le> length (ring_items (send_buffer c))"
  shows "\<exists>t. i2s_get n c = Some (take n (ring_items (send_buffer c)), t) \<and> i2s_tx_ok t
    \<and> ring_items (send_buffer t) = drop n (ring_items (send_buffer c))
    \<and> buf_size (send_buffer t) = buf_size (send_buffer c) \<and> num_out t = num_out c"
proof -
  let ?r = "send_buffer c"
  have fr: "framed n ?r" and ring: "ring_ok ?r" "0 < n" using ok n(1) by (simp_all add: i2s_tx_ok_def framed_def)
  obtain t where t: "ring_read n ?r = Some (take n (ring_items ?r), t)" "ring_ok t"
    "ring_items t = drop n (ring_items ?r)" "buf_size t = buf_size ?r"
    using rb.get_ok [OF ring(1) TrueI n(2)] by blast
  have idx: "read_index ?r + n \<le> buf_size ?r" using framed_fits(1) [OF fr] .
  have len: "length (buf ?r) = buf_size ?r" using ring(1) by (simp add: ring_ok_def)
  have eq: "take n (drop (read_index ?r) (buf ?r)) = take n (ring_items ?r)" "send_advance n ?r = t"
    using ring_read_straight [OF _ idx len] ring(2) t(1) by (simp_all add: send_advance_def Let_def split: if_splits)
  let ?d = "i2s_send_wake (c\<lparr>send_buffer := t\<rparr>)"
  have run: "i2s_send None n [] c = Inr (take n (ring_items ?r), i2s_flush ?d)"
    using n(2) ring(2) idx eq len
    by (simp add: i2s_send_def i2s_send_load_def ring_memcpy_out_def Let_def)
  have "framed n t"
    using fr t(2) eq(2) by (auto simp: framed_def send_advance_def Let_def)
  then show ?thesis
    using run t n ok by (intro exI [of _ "snd (i2s_flush ?d)"])
      (simp add: i2s_get_def i2s_tx_ok_def out_frame_def split: prod.splits)
qed

lemma i2s_put_ok:
  assumes ok: "i2s_tx_ok c" and n: "out_frame c dvd length xs"
    and room: "length (ring_items (send_buffer c)) + length xs \<le> buf_size (send_buffer c)"
  shows "\<exists>t. i2s_put xs c = Some t \<and> i2s_tx_ok t
    \<and> ring_items (send_buffer t) = ring_items (send_buffer c) @ xs
    \<and> buf_size (send_buffer t) = buf_size (send_buffer c) \<and> num_out t = num_out c"
proof -
  let ?r = "send_buffer c" and ?f = "out_frame c"
  have fr: "framed ?f ?r" and ring: "ring_ok ?r" "0 < ?f" using ok by (simp_all add: i2s_tx_ok_def framed_def)
  obtain t where t: "ring_write xs ?r = Some t" "ring_ok t" "ring_items t = ring_items ?r @ xs" "buf_size t = buf_size ?r"
    using rb.put_ok [OF ring(1) TrueI room] by blast
  have small: "length xs < 2 ^ 32" using room ring(1) by (simp add: ring_ok_def)
  let ?words = "of_nat (length xs div ?f) * (2 * num_out c)"
  have "?words = (of_nat (length xs div ?f * ?f) :: u32)"
    by (simp add: out_frame_def)
  also have "length xs div ?f * ?f = length xs" using n by simp
  finally have words: "?words = of_nat (length xs)" .
  have uw: "unat (of_nat (length xs) :: u32) = length xs" using small by (simp add: unat_of_nat)
  obtain u where u: "ring_copy_in xs ?r = Some u" "t = u\<lparr>total_written := total_written u + of_nat (length xs)\<rparr>"
    using t(1) by (auto simp: ring_write_def)
  have free: "words_free ?r = buf_size ?r - words_available ?r"
    using ring(1) by (intro words_free_eq) (simp_all add: ring_ok_def)
  have "length xs \<le> words_free ?r" using room free by simp
  then have "\<not> tx_must_wait (of_nat (length xs)) c" by (simp add: tx_must_wait_def uw)
  then have "i2s_local_tx (\<lambda>t c. (False, c)) xs (of_nat (length xs div ?f)) 0 c
      = Some (Inr (of_nat (length xs div ?f), c\<lparr>send_buffer := t\<rparr>))"
    using ok room u
    by (simp add: i2s_local_tx_def Let_def words uw i2s_tx_ok_def tx_copy_def tx_commit_def)
  then have run: "i2s_put xs c = Some (c\<lparr>send_buffer := t\<rparr>)" by (simp add: i2s_put_def)
  have "length xs \<le> buf_size ?r" using room by simp
  then obtain b where cp: "ring_copy_in xs ?r = Some (?r\<lparr>buf := b, write_index := (write_index ?r + length xs) mod buf_size ?r\<rparr>)"
    using ring_copy_in_spec [of ?r xs] ring(1) by (auto simp: ring_ok_def)
  have "?f dvd (write_index ?r + length xs) mod buf_size ?r"
    using fr n by (simp add: framed_def dvd_mod)
  moreover have "write_index t = (write_index ?r + length xs) mod buf_size ?r" "read_index t = read_index ?r"
    using u cp by auto
  ultimately have "framed ?f t" using fr t(2,4) by (simp add: framed_def)
  then show ?thesis
    using run t ok by (intro exI [of _ "c\<lparr>send_buffer := t\<rparr>"]) (simp add: i2s_tx_ok_def out_frame_def)
qed

interpretation i2sq: fifo i2s_tx_ok "\<lambda>c. ring_items (send_buffer c)" "\<lambda>c. buf_size (send_buffer c)"
  "\<lambda>c n. out_frame c dvd n" "\<lambda>c n. n = out_frame c" i2s_put i2s_get
proof unfold_locales
  show "length (ring_items (send_buffer s)) \<le> buf_size (send_buffer s)" if "i2s_tx_ok s" for s :: "'a i2s"
    using that by (simp add: i2s_tx_ok_def framed_def ring_ok_def)
next
  fix s :: "'a i2s" and xs :: "sample list"
  assume "i2s_tx_ok s" "out_frame s dvd length xs" "length (ring_items (send_buffer s)) + length xs \<le> buf_size (send_buffer s)"
  from i2s_put_ok [OF this] show "\<exists>t. i2s_put xs s = Some t \<and> i2s_tx_ok t
      \<and> ring_items (send_buffer t) = ring_items (send_buffer s) @ xs
      \<and> buf_size (send_buffer t) = buf_size (send_buffer s)
      \<and> (\<lambda>n. out_frame t dvd n) = (\<lambda>n. out_frame s dvd n) \<and> (\<lambda>n. n = out_frame t) = (\<lambda>n. n = out_frame s)"
    by (auto simp: out_frame_def)
next
  fix s :: "'a i2s" and n
  assume "i2s_tx_ok s" "n = out_frame s" "n \<le> length (ring_items (send_buffer s))"
  from i2s_get_ok [OF this] show "\<exists>t. i2s_get n s = Some (take n (ring_items (send_buffer s)), t) \<and> i2s_tx_ok t
      \<and> ring_items (send_buffer t) = drop n (ring_items (send_buffer s))
      \<and> buf_size (send_buffer t) = buf_size (send_buffer s)
      \<and> (\<lambda>n. out_frame t dvd n) = (\<lambda>n. out_frame s dvd n) \<and> (\<lambda>k. k = out_frame t) = (\<lambda>n. n = out_frame s)"
    by (auto simp: out_frame_def)
qed

section \<open>Properties\<close>

text \<open>
  A sequence of transmissions and frame periods, without filter: \<open>Put xs\<close> is a call of
  \<open>i2s_local_tx\<close> that does not wait, \<open>Get n\<close> the callback \<open>i2s_send\<close>.
\<close>

fun i2s_tx_run :: "sample fifo_op list \<Rightarrow> 'a i2s \<Rightarrow> (sample list \<times> 'a i2s) option" where
  "i2s_tx_run [] c = Some ([], c)"
| "i2s_tx_run (Put xs # ops) c = do { d \<leftarrow> i2s_put xs c; i2s_tx_run ops d }"
| "i2s_tx_run (Get n # ops) c = do { (ys, d) \<leftarrow> i2s_get n c; (out, e) \<leftarrow> i2s_tx_run ops d; Some (ys @ out, e) }"

text \<open>Every transmission is of whole frames and finds room, every frame that is sent has been transmitted.\<close>

fun i2s_tx_fits :: "nat \<Rightarrow> nat \<Rightarrow> sample fifo_op list \<Rightarrow> nat \<Rightarrow> bool" where
  "i2s_tx_fits frame sz [] n = True"
| "i2s_tx_fits frame sz (Put xs # ops) n =
     (frame dvd length xs \<and> n + length xs \<le> sz \<and> i2s_tx_fits frame sz ops (n + length xs))"
| "i2s_tx_fits frame sz (Get k # ops) n = (k = frame \<and> k \<le> n \<and> i2s_tx_fits frame sz ops (n - k))"

definition transmitted :: "sample fifo_op list \<Rightarrow> sample list" where
  "transmitted ops = concat (map (\<lambda>x. case x of Put xs \<Rightarrow> xs | Get n \<Rightarrow> []) ops)"

lemma i2s_tx_run_eq: "i2s_tx_run ops c = i2sq.run ops c"
proof (induction ops arbitrary: c)
  case (Cons x ops)
  then show ?case
    by (cases x) (auto simp: map_option_case split: option.splits)
qed simp

lemma i2s_tx_fits_eq:
  "i2s_tx_fits (out_frame c) (buf_size (send_buffer c)) ops n = i2sq.fits ops n (c :: 'a i2s)"
proof (induction ops arbitrary: n)
  case (Cons x ops)
  then show ?case by (cases x) auto
qed simp

lemma i2s_start_tx_ok:
  assumes mem: "length smem = unat (send_buffer_size * (2 * num_out c))" and pos: "0 < unat (send_buffer_size * (2 * num_out c))"
    and whole: "unat (2 * num_out c) dvd unat (send_buffer_size * (2 * num_out c))"
    and start: "d = rtos_i2s_start ratio md recv_buffer_size send_buffer_size rmem smem c" and free: "\<not> send_blocked c"
  shows "i2s_tx_ok d \<and> ring_items (send_buffer d) = [] \<and> out_frame d = unat (2 * num_out c)
    \<and> buf_size (send_buffer d) = unat (send_buffer_size * (2 * num_out c))"
proof -
  have n: "num_out c \<noteq> 0" using pos by auto
  have fr: "0 < unat (2 * num_out c)" using pos whole by (metis dvd_0_left_iff neq0_conv)
  have d: "send_buffer d = send_buf_zero\<lparr>buf_size := unat (send_buffer_size * (2 * num_out c)), buf := smem\<rparr>"
    "num_out d = num_out c" "send_blocked d = send_blocked c"
    using n by (auto simp: start rtos_i2s_start_def Let_def word_gt_0)
  show ?thesis
    using d fr pos mem whole free unsigned_less [of "send_buffer_size * (2 * num_out c)", where ?'a = nat]
    by (simp add: i2s_tx_ok_def framed_def ring_ok_def ring_items_def words_available_def out_frame_def send_buf_zero_def)
qed

text \<open>
  Calls and frame periods one after the other: for any
  sequence of transmissions of whole frames that find room and of frame periods that find a
  frame, started on a fresh driver, no call fails, and the samples sent followed by those
  still buffered are the samples transmitted.
\<close>

lemma i2s_tx_queue:
  assumes mem: "length smem = unat (send_buffer_size * (2 * num_out c))" and pos: "0 < unat (send_buffer_size * (2 * num_out c))"
    and whole: "unat (2 * num_out c) dvd unat (send_buffer_size * (2 * num_out c))" and free: "\<not> send_blocked c"
    and fit: "i2s_tx_fits (unat (2 * num_out c)) (unat (send_buffer_size * (2 * num_out c))) ops 0"
  shows "\<exists>sent d. i2s_tx_run ops (rtos_i2s_start ratio md recv_buffer_size send_buffer_size rmem smem c) = Some (sent, d)
    \<and> transmitted ops = sent @ ring_items (send_buffer d)"
proof -
  let ?c = "rtos_i2s_start ratio md recv_buffer_size send_buffer_size rmem smem c"
  note st = i2s_start_tx_ok [OF mem pos whole refl free]
  have "i2sq.fits ops (length (ring_items (send_buffer ?c))) ?c"
    using i2s_tx_fits_eq [of ?c ops 0] st fit by simp
  from i2sq.run_fits [OF _ this] st show ?thesis
    by (auto simp: i2s_tx_run_eq transmitted_def i2sq.puts_def)
qed

definition i2s_example :: "unit i2s" where
  "i2s_example = \<lparr>recv_buffer = recv_buf_zero, recv_sem = False, recv_blocked = False, send_buffer = send_buf_zero,
     send_sem = False, send_blocked = False, isr_cmd = 0, num_in = 1, num_out = 1, i2s_mode = 0, mclk_bclk_ratio = 0,
     send_filter_app_data = (), receive_filter_app_data = ()\<rparr>"

lemma i2s_receive_result:
  assumes "i2s_receive_store cb xs c = Inr (n, r)"
  shows "\<exists>b d. i2s_receive cb xs c = Inr (b, d) \<and> recv_buffer d
    = recv_buffer (i2s_receive_wake (c\<lparr>recv_buffer := (if 0 < n then recv_advance (length xs) r else r)\<rparr>))"
proof -
  let ?e = "i2s_receive_wake (c\<lparr>recv_buffer := (if 0 < n then recv_advance (length xs) r else r)\<rparr>)"
  let ?p = "if num_out ?e = 0 then i2s_flush ?e else (None, ?e)"
  have "i2s_receive cb xs c = Inr ?p" using assms by (simp only: i2s_receive_def rbind.simps prod.case Let_def)
  moreover have "recv_buffer (snd ?p) = recv_buffer ?e" by simp
  ultimately show ?thesis by (intro exI [of _ "fst ?p"] exI [of _ "snd ?p"]) (simp only: prod.collapse simp_thms)
qed

lemma i2s_receive_wake_simps:
  "ring_items (recv_buffer (i2s_receive_wake c)) = ring_items (recv_buffer c)"
  "framed n (recv_buffer (i2s_receive_wake c)) = framed n (recv_buffer c)"
  "words_available (recv_buffer (i2s_receive_wake c)) = words_available (recv_buffer c)"
  by (simp_all add: i2s_receive_wake_def Let_def framed_def ring_ok_def ring_items_def words_available_def)

text \<open>
  A frame received without filter is stored as a whole or not at all: if the buffer
  holds whole frames and the indices lie at frame boundaries, as after the start, the callback
  never writes outside the buffer, appends the frame when there is room, and leaves the
  buffered samples alone when there is none.
\<close>

theorem i2s_receive_stores:
  assumes fr: "framed (length frame) (recv_buffer c)"
  shows "\<exists>b d. i2s_receive None frame c = Inr (b, d) \<and> framed (length frame) (recv_buffer d)
    \<and> ring_items (recv_buffer d) =
        (if words_available (recv_buffer c) + length frame \<le> buf_size (recv_buffer c)
         then ring_items (recv_buffer c) @ frame else ring_items (recv_buffer c))"
proof -
  let ?r = "recv_buffer c" and ?n = "length frame"
  have ring: "ring_ok ?r" "frame \<noteq> []" using fr by (auto simp: framed_def)
  have free: "words_free ?r = buf_size ?r - words_available ?r"
    using ring(1) by (intro words_free_eq) (simp_all add: ring_ok_def)
  have av: "words_available ?r \<le> buf_size ?r" "length (buf ?r) = buf_size ?r" using ring(1) by (simp_all add: ring_ok_def)
  show ?thesis
  proof (cases "words_available ?r + ?n \<le> buf_size ?r")
    case True
    obtain t where t: "ring_write frame ?r = Some t" "ring_ok t" "ring_items t = ring_items ?r @ frame"
      using rb.put_ok [OF ring(1) TrueI, of frame] True by auto
    have idx: "write_index ?r + ?n \<le> buf_size ?r" using framed_fits(2) [OF fr] .
    then have adv: "recv_advance ?n (?r\<lparr>buf := splice (write_index ?r) frame (buf ?r)\<rparr>) = t"
      using ring_write_straight [OF ring(2) idx av(2)] t(1) by (simp add: recv_advance_def Let_def split: if_splits)
    have fr': "framed ?n t" using fr t(2) unfolding adv [symmetric] by (auto simp: framed_def recv_advance_def Let_def)
    have "?n \<le> words_free ?r" using True free by simp
    then have "i2s_receive_store None frame c = Inr (?n, ?r\<lparr>buf := splice (write_index ?r) frame (buf ?r)\<rparr>)"
      using av idx by (simp add: i2s_receive_store_def ring_memcpy_in_def Let_def)
    from i2s_receive_result [OF this] obtain b d where d: "i2s_receive None frame c = Inr (b, d)"
      "recv_buffer d = recv_buffer (i2s_receive_wake (c\<lparr>recv_buffer := t\<rparr>))"
      using ring(2) adv by auto
    then show ?thesis using True t(3) fr' by (simp add: i2s_receive_wake_simps)
  next
    case False
    then have "\<not> ?n \<le> words_free ?r" using free av by simp
    then have "i2s_receive_store None frame c = Inr (0, ?r)"
      by (simp add: i2s_receive_store_def Let_def)
    from i2s_receive_result [OF this] obtain b d where d: "i2s_receive None frame c = Inr (b, d)"
      "recv_buffer d = recv_buffer (i2s_receive_wake c)"
      by auto
    then show ?thesis using False fr by (simp add: i2s_receive_wake_simps)
  qed
qed

theorem i2s_receive_stores_witness:
  "\<exists>b d. i2s_receive None [7, 8] (rtos_i2s_start 0 0 2 2 [0, 0, 0, 0] [0, 0, 0, 0] i2s_example) = Inr (b, d)
    \<and> framed (length [7, 8 :: sample]) (recv_buffer d)
    \<and> ring_items (recv_buffer d) =
      (if words_available (recv_buffer (rtos_i2s_start 0 0 2 2 [0, 0, 0, 0] [0, 0, 0, 0] i2s_example)) + length [7, 8 :: sample]
          \<le> buf_size (recv_buffer (rtos_i2s_start 0 0 2 2 [0, 0, 0, 0] [0, 0, 0, 0] i2s_example))
       then ring_items (recv_buffer (rtos_i2s_start 0 0 2 2 [0, 0, 0, 0] [0, 0, 0, 0] i2s_example)) @ [7, 8]
       else ring_items (recv_buffer (rtos_i2s_start 0 0 2 2 [0, 0, 0, 0] [0, 0, 0, 0] i2s_example)))"
  by (rule i2s_receive_stores)
    (simp add: i2s_example_def rtos_i2s_start_def Let_def framed_def ring_ok_def words_available_def recv_buf_zero_def
      flip: numeral_2_eq_2)

text \<open>
  With a receive filter the driver counts the words it received instead of the
  words the filter stored: a filter that stores \<open>k\<close> words, \<open>k > 0\<close>, makes
  \<open>num_in\<close> words available to the reader, whatever \<open>k\<close> is. And the filter is
  called with the application data of the send filter: its own is not looked at.
\<close>

theorem i2s_receive_filter_miscounts:
  assumes ok: "ring_ok (recv_buffer c)"
    and out: "cb (send_filter_app_data c) frame (min (words_free (recv_buffer c)) (buf_size (recv_buffer c) - write_index (recv_buffer c))) = out"
    and k: "out \<noteq> []" "write_index (recv_buffer c) + length out \<le> buf_size (recv_buffer c)"
    and small: "words_available (recv_buffer c) + length frame < 2 ^ 32"
  shows "\<exists>b d. i2s_receive (Some cb) frame (c\<lparr>receive_filter_app_data := x\<rparr>) = Inr (b, d)
    \<and> words_available (recv_buffer d) = words_available (recv_buffer c) + length frame"
proof -
  let ?r = "recv_buffer c" and ?c = "c\<lparr>receive_filter_app_data := x\<rparr>"
  let ?t = "recv_advance (length frame) (?r\<lparr>buf := splice (write_index ?r) out (buf ?r)\<rparr>)"
  have len: "length (buf ?r) = buf_size ?r" using ok by (simp add: ring_ok_def)
  have "i2s_receive_store (Some cb) frame ?c = Inr (length out, ?r\<lparr>buf := splice (write_index ?r) out (buf ?r)\<rparr>)"
    using out k(2) len by (simp add: i2s_receive_store_def ring_memcpy_in_def Let_def)
  from i2s_receive_result [OF this] obtain b d where "i2s_receive (Some cb) frame ?c = Inr (b, d)"
    "recv_buffer d = recv_buffer (i2s_receive_wake (?c\<lparr>recv_buffer := ?t\<rparr>))"
    using k(1) by auto
  moreover have "words_available ?t = words_available ?r + length frame"
    using words_available_add [OF small] by (simp add: recv_advance_def Let_def words_available_def)
  ultimately show ?thesis by (simp add: i2s_receive_wake_simps)
qed

theorem i2s_receive_filter_miscounts_witness:
  "\<exists>b d. i2s_receive (Some (\<lambda>app xs space. take 1 xs)) [7, 8]
      ((rtos_i2s_start 0 0 2 2 [0, 0, 0, 0] [0, 0, 0, 0] i2s_example)\<lparr>receive_filter_app_data := ()\<rparr>) = Inr (b, d)
    \<and> words_available (recv_buffer d)
      = words_available (recv_buffer (rtos_i2s_start 0 0 2 2 [0, 0, 0, 0] [0, 0, 0, 0] i2s_example)) + length [7, 8 :: sample]"
  by (rule i2s_receive_filter_miscounts [where out = "[7]"])
    (simp_all add: i2s_example_def rtos_i2s_start_def Let_def ring_ok_def words_available_def recv_buf_zero_def)

end
