(* ===== verification/I2s_Send.thy ===== *)
theory I2s_Send
  imports I2s_Driver
begin

text \<open>
  The sending side of the I2S driver, modules/rtos/drivers/i2s/rtos_i2s.c, with everything that runs at the same time: the
  callbacks i2s_send and i2s_receive of the I/O thread, the interrupt rtos_i2s_isr on its other core, a thread in
  i2s_local_tx, interrupted at every point where it has changed what the callback sees, and the receiving calls.
\<close>

section \<open>The steps\<close>

text \<open>\<open>Tx_Wait\<close> is the wait on the semaphore; at \<open>Tx_Copied\<close> the samples are in the buffer and not yet counted.\<close>

datatype tx_phase =
    Tx_Idle
  | Tx_Arm u32 "sample list"
  | Tx_Wait u32 "sample list"
  | Tx_Ready u32 "sample list"
  | Tx_Copied u32 "sample list"

text \<open>
  \<open>to_isr\<close> are the bytes in the channel to the interrupt, \<open>given\<close> the samples of the calls that have returned
  success, \<open>sent\<close> those of the frames that were taken from the buffer.
\<close>

record 'a tx_sys =
  drv :: "'a i2s"
  tx_at :: tx_phase
  to_isr :: "u8 list"
  given :: "sample list"
  sent :: "sample list"

definition chan_bytes :: "u8 option \<Rightarrow> u8 list" where
  "chan_bytes b = (case b of Some x \<Rightarrow> [x] | None \<Rightarrow> [])"

text \<open>\<open>fc\<close> is the number of frames of a call. The receiving calls change the receiving side only.\<close>

inductive tx_step :: "u32 \<Rightarrow> 'a tx_sys \<Rightarrow> 'a tx_sys \<Rightarrow> bool" for fc where
  tx_frame: "i2s_send None (out_frame (drv s)) old (drv s) = Inr (frame, b, d) \<Longrightarrow>
     tx_step fc s (s\<lparr>drv := d, to_isr := to_isr s @ chan_bytes b,
       sent := (if out_frame (drv s) \<le> words_available (send_buffer (drv s)) then sent s @ frame else sent s)\<rparr>)"
| tx_receive: "i2s_receive cb frame (drv s) = Inr (b, d) \<Longrightarrow>
     tx_step fc s (s\<lparr>drv := d, to_isr := to_isr s @ chan_bytes b\<rparr>)"
| tx_isr: "to_isr s = b # bs \<Longrightarrow> tx_step fc s (s\<lparr>drv := rtos_i2s_isr b (drv s), to_isr := bs\<rparr>)"
| tx_rx_call: "tx_step fc s (s\<lparr>drv := (drv s)\<lparr>recv_buffer := r, recv_sem := p, recv_blocked := q\<rparr>\<rparr>)"
| tx_call_waits: "tx_at s = Tx_Idle \<Longrightarrow> n = fc * (2 * num_out (drv s)) \<Longrightarrow> length xs = unat n \<Longrightarrow>
     unat n \<le> buf_size (send_buffer (drv s)) \<Longrightarrow> tx_must_wait n (drv s) \<Longrightarrow> tx_step fc s (s\<lparr>tx_at := Tx_Arm n xs\<rparr>)"
| tx_call_blocked: "tx_at s = Tx_Idle \<Longrightarrow> n = fc * (2 * num_out (drv s)) \<Longrightarrow> length xs = unat n \<Longrightarrow>
     unat n \<le> buf_size (send_buffer (drv s)) \<Longrightarrow> send_blocked (drv s) \<Longrightarrow> tx_step fc s (s\<lparr>tx_at := Tx_Wait n xs\<rparr>)"
| tx_call_ready: "tx_at s = Tx_Idle \<Longrightarrow> n = fc * (2 * num_out (drv s)) \<Longrightarrow> length xs = unat n \<Longrightarrow>
     unat n \<le> buf_size (send_buffer (drv s)) \<Longrightarrow> \<not> send_blocked (drv s) \<Longrightarrow> \<not> tx_must_wait n (drv s) \<Longrightarrow>
     tx_step fc s (s\<lparr>tx_at := Tx_Ready n xs\<rparr>)"
| tx_arms: "tx_at s = Tx_Arm n xs \<Longrightarrow> tx_step fc s (s\<lparr>drv := tx_arm n (drv s), tx_at := Tx_Wait n xs\<rparr>)"
| tx_woken: "tx_at s = Tx_Wait n xs \<Longrightarrow> send_sem (drv s) \<Longrightarrow>
     tx_step fc s (s\<lparr>drv := (drv s)\<lparr>send_sem := False, send_blocked := False\<rparr>, tx_at := Tx_Ready n xs\<rparr>)"
| tx_timeout: "tx_at s = Tx_Wait n xs \<Longrightarrow> tx_step fc s (s\<lparr>tx_at := Tx_Idle\<rparr>)"
| tx_copies: "tx_at s = Tx_Ready n xs \<Longrightarrow> tx_copy n xs (drv s) = Some (Inr d) \<Longrightarrow>
     tx_step fc s (s\<lparr>drv := d, tx_at := Tx_Copied n xs\<rparr>)"
| tx_commits: "tx_at s = Tx_Copied n xs \<Longrightarrow>
     tx_step fc s (s\<lparr>drv := tx_commit n (drv s), tx_at := Tx_Idle, given := given s @ xs\<rparr>)"

inductive tx_reachable :: "u32 \<Rightarrow> 'a tx_sys \<Rightarrow> 'a tx_sys \<Rightarrow> bool" for fc init where
  tx_reachable_init: "tx_reachable fc init init"
| tx_reachable_step: "tx_reachable fc init s \<Longrightarrow> tx_step fc s t \<Longrightarrow> tx_reachable fc init t"

definition tx_initial :: "'a i2s \<Rightarrow> 'a tx_sys" where
  "tx_initial c = \<lparr>drv = c, tx_at = Tx_Idle, to_isr = [], given = [], sent = []\<rparr>"

section \<open>The buffer\<close>

definition tx_credit :: "tx_phase \<Rightarrow> u32" where
  "tx_credit p = (case p of Tx_Copied n xs \<Rightarrow> n | _ \<Rightarrow> 0)"

definition tx_flight :: "tx_phase \<Rightarrow> sample list" where
  "tx_flight p = (case p of Tx_Copied n xs \<Rightarrow> xs | _ \<Rightarrow> [])"

text \<open>The buffer as the sender has left it: the words it has copied are counted as written.\<close>

definition tx_view :: "u32 \<Rightarrow> 'z ring_scheme \<Rightarrow> 'z ring_scheme" where
  "tx_view k r = r\<lparr>total_written := total_written r + k\<rparr>"

definition tx_sound :: "nat \<Rightarrow> u32 \<Rightarrow> 'z ring_scheme \<Rightarrow> bool" where
  "tx_sound f k r \<longleftrightarrow> framed f (tx_view k r) \<and> words_available (tx_view k r) = words_available r + unat k"

lemma tx_sound_0 [simp]: "tx_sound f 0 r \<longleftrightarrow> framed f r" "tx_view 0 r = r"
  by (auto simp: tx_sound_def tx_view_def)

lemma tx_view_fields [simp]:
  "buf_size (tx_view k r) = buf_size r" "buf (tx_view k r) = buf r" "read_index (tx_view k r) = read_index r"
  "total_read (tx_view k r) = total_read r"
  by (simp_all add: tx_view_def)

lemma tx_view_advance: "tx_view k (send_advance f r) = send_advance f (tx_view k r)"
  by (simp add: tx_view_def send_advance_def Let_def)

text \<open>The callback reads behind the sender's back: it sees fewer words, never more.\<close>

lemma send_advance_sound:
  assumes ok: "tx_sound f k r" and av: "f \<le> words_available r"
  shows "tx_sound f k (send_advance f r)" and "read_index r + f \<le> length (buf r)"
    and "take f (drop (read_index r) (buf r)) = take f (ring_items (tx_view k r))"
    and "ring_items (tx_view k (send_advance f r)) = drop f (ring_items (tx_view k r))"
    and "words_available (send_advance f r) = words_available r - f"
proof -
  let ?v = "tx_view k r"
  have fr: "framed f ?v" and avv: "words_available ?v = words_available r + unat k" using ok by (simp_all add: tx_sound_def)
  then have ring: "ring_ok ?v" "f \<noteq> 0" "length (buf ?v) = buf_size ?v" by (simp_all add: framed_def ring_ok_def)
  have "f \<le> length (ring_items ?v)" using av avv by simp
  then obtain t where t: "ring_read f ?v = Some (take f (ring_items ?v), t)" "ring_ok t" "ring_items t = drop f (ring_items ?v)"
    using rb.get_ok [OF ring(1) TrueI] by blast
  have idx: "read_index ?v + f \<le> buf_size ?v" using framed_fits(1) [OF fr] .
  have eq: "take f (drop (read_index ?v) (buf ?v)) = take f (ring_items ?v)" "send_advance f ?v = t"
    using ring_read_straight [OF ring(2) idx ring(3)] t(1) by (simp_all add: send_advance_def Let_def split: if_splits)
  show "read_index r + f \<le> length (buf r)" using idx ring(3) by simp
  show "take f (drop (read_index r) (buf r)) = take f (ring_items ?v)" using eq(1) by simp
  show items: "ring_items (tx_view k (send_advance f r)) = drop f (ring_items ?v)" using t(3) eq(2) by (simp add: tx_view_advance)
  show sub: "words_available (send_advance f r) = words_available r - f"
    using words_available_sub [OF av] by (simp add: words_available_def send_advance_def Let_def)
  have "framed f t" using fr t(2) eq(2) by (auto simp: framed_def send_advance_def Let_def)
  moreover have "words_available (tx_view k (send_advance f r)) = words_available ?v - f"
    using arg_cong [OF items, of length] by simp
  ultimately show "tx_sound f k (send_advance f r)"
    using av avv eq(2) sub by (simp add: tx_sound_def tx_view_advance)
qed

lemma tx_sound_free:
  assumes "tx_sound f k r"
  shows "words_free r = buf_size r - words_available r" "words_available r \<le> buf_size r"
  using assms words_free_eq [of r] by (auto simp: tx_sound_def framed_def ring_ok_def)

lemma tx_copy_ok:
  assumes fr: "framed f (send_buffer c)" and n: "f dvd unat n" "length xs = unat n" "unat n \<le> words_free (send_buffer c)"
  shows "\<exists>r. tx_copy n xs c = Some (Inr (c\<lparr>send_buffer := r\<rparr>)) \<and> tx_sound f n r
    \<and> ring_items (tx_view n r) = ring_items (send_buffer c) @ xs
    \<and> required_free_count r = required_free_count (send_buffer c)"
proof -
  let ?r = "send_buffer c"
  have ring: "ring_ok ?r" using fr by (simp add: framed_def)
  have free: "words_free ?r = buf_size ?r - words_available ?r" "words_available ?r \<le> buf_size ?r"
    using tx_sound_free [of f 0 ?r] fr by simp_all
  then have room: "length (ring_items ?r) + length xs \<le> buf_size ?r" using n by simp
  obtain t where t: "ring_write xs ?r = Some t" "ring_ok t" "ring_items t = ring_items ?r @ xs"
    using rb.put_ok [OF ring TrueI room] by blast
  have "length xs \<le> buf_size ?r" using room by simp
  then obtain b where cp: "ring_copy_in xs ?r = Some (?r\<lparr>buf := b, write_index := (write_index ?r + length xs) mod buf_size ?r\<rparr>)"
    using ring_copy_in_spec [of ?r xs] ring by (auto simp: ring_ok_def)
  let ?u = "?r\<lparr>buf := b, write_index := (write_index ?r + length xs) mod buf_size ?r\<rparr>"
  have view: "tx_view n ?u = t" using t(1) cp n(2) by (auto simp: ring_write_def tx_view_def)
  have "f dvd (write_index ?r + length xs) mod buf_size ?r" using fr n by (simp add: framed_def dvd_mod)
  then have "framed f t" using fr t(2) view by (auto simp: framed_def tx_view_def)
  moreover have "words_available t = words_available ?r + unat n" using arg_cong [OF t(3), of length] n(2) by simp
  moreover have "words_available ?u = words_available ?r" by (simp add: words_available_def)
  ultimately have "tx_sound f n ?u" using view by (simp add: tx_sound_def)
  then show ?thesis using cp view t(3) n(2) by (intro exI [of _ ?u]) (simp add: tx_copy_def)
qed

section \<open>The wake-up\<close>

text \<open>The bytes on their way to the interrupt that will wake the sender.\<close>

definition resumes :: "u8 list \<Rightarrow> nat" where
  "resumes bs = length (filter (\<lambda>b. b AND ISR_RESUME_SEND_BM \<noteq> 0) bs)"

definition tx_waiting_ok :: "u32 \<Rightarrow> 'a i2s \<Rightarrow> nat \<Rightarrow> bool" where
  "tx_waiting_ok n c k \<longleftrightarrow> n \<noteq> 0
     \<and> (required_free_count (send_buffer c) = n \<and> \<not> send_sem c \<and> k = 0
        \<or> required_free_count (send_buffer c) = 0 \<and> unat n \<le> words_free (send_buffer c) \<and> k = (if send_sem c then 0 else 1))"

definition tx_quiet :: "'a i2s \<Rightarrow> nat \<Rightarrow> bool" where
  "tx_quiet c k \<longleftrightarrow> \<not> send_blocked c \<and> \<not> send_sem c \<and> required_free_count (send_buffer c) = 0 \<and> k = 0"

definition tx_control :: "u32 \<Rightarrow> tx_phase \<Rightarrow> 'a i2s \<Rightarrow> nat \<Rightarrow> bool" where
  "tx_control n p c k \<longleftrightarrow> (case p of
       Tx_Idle \<Rightarrow> (if send_blocked c then tx_waiting_ok n c k else tx_quiet c k)
     | Tx_Arm m xs \<Rightarrow> m = n \<and> length xs = unat n \<and> n \<noteq> 0 \<and> tx_quiet c k
     | Tx_Wait m xs \<Rightarrow> m = n \<and> length xs = unat n \<and> send_blocked c \<and> tx_waiting_ok n c k
     | Tx_Ready m xs \<Rightarrow> m = n \<and> length xs = unat n \<and> tx_quiet c k \<and> unat n \<le> words_free (send_buffer c)
     | Tx_Copied m xs \<Rightarrow> m = n \<and> length xs = unat n \<and> tx_quiet c k)"

lemma resumes_append [simp]: "resumes (as @ bs) = resumes as + resumes bs" "resumes [] = 0"
  by (simp_all add: resumes_def)

lemma resume_bits [simp]:
  "(x OR ISR_RESUME_SEND_BM) AND ISR_RESUME_SEND_BM \<noteq> 0" "x OR ISR_RESUME_SEND_BM \<noteq> 0"
  "(x OR ISR_RESUME_RECV_BM) AND ISR_RESUME_SEND_BM = x AND ISR_RESUME_SEND_BM"
proof -
  have "bit ((x OR 1) AND 1) 0" "bit (x OR 1) 0" by (simp_all add: bit_simps)
  then show "(x OR ISR_RESUME_SEND_BM) AND ISR_RESUME_SEND_BM \<noteq> 0" "x OR ISR_RESUME_SEND_BM \<noteq> 0"
    by (auto simp: ISR_RESUME_SEND_BM_def)
  have "(2 :: u8) AND 1 = 0" by simp
  then show "(x OR ISR_RESUME_RECV_BM) AND ISR_RESUME_SEND_BM = x AND ISR_RESUME_SEND_BM"
    unfolding ISR_RESUME_SEND_BM_def ISR_RESUME_RECV_BM_def by (simp add: bit.conj_disj_distrib2)
qed

lemma resume_bit [simp]: "ISR_RESUME_SEND_BM \<noteq> 0"
  by (simp add: ISR_RESUME_SEND_BM_def)

lemma tx_control_freer:
  assumes "tx_control n p c k" and "words_free (send_buffer c) \<le> words_free (send_buffer d)"
    and "required_free_count (send_buffer d) = required_free_count (send_buffer c)" "send_sem d = send_sem c" "send_blocked d = send_blocked c"
  shows "tx_control n p d k"
  using assms by (cases p) (auto simp: tx_control_def tx_waiting_ok_def tx_quiet_def split: if_splits)

lemma tx_quiet_wake: "tx_quiet c k \<Longrightarrow> i2s_send_wake c = c"
  by (simp add: tx_quiet_def i2s_send_wake_def Let_def)

text \<open>The end of the callback i2s_send: what it sends to the interrupt is counted in the channel.\<close>

definition tx_signal :: "'a i2s \<Rightarrow> u8 option \<times> 'a i2s" where
  "tx_signal c = i2s_flush (i2s_send_wake c)"

lemma tx_signal_fields [simp]:
  "isr_cmd (snd (tx_signal c)) = 0" "num_out (snd (tx_signal c)) = num_out c" "send_blocked (snd (tx_signal c)) = send_blocked c"
  "send_sem (snd (tx_signal c)) = send_sem c" "out_frame (snd (tx_signal c)) = out_frame c"
  "words_free (send_buffer (snd (tx_signal c))) = words_free (send_buffer c)"
  "tx_sound f k (send_buffer (snd (tx_signal c))) = tx_sound f k (send_buffer c)"
  "ring_items (tx_view k (send_buffer (snd (tx_signal c)))) = ring_items (tx_view k (send_buffer c))"
  by (simp_all add: tx_signal_def i2s_flush_def i2s_send_wake_def Let_def out_frame_def words_free_def tx_sound_def tx_view_def framed_def ring_ok_def
      ring_items_def words_available_def)

lemma tx_signal_resumes:
  assumes "isr_cmd c AND ISR_RESUME_SEND_BM = 0"
  shows "resumes (chan_bytes (fst (tx_signal c)))
      = (if 0 < required_free_count (send_buffer c) \<and> unat (required_free_count (send_buffer c)) \<le> words_free (send_buffer c) then 1 else 0)"
    and "required_free_count (send_buffer (snd (tx_signal c)))
      = (if unat (required_free_count (send_buffer c)) \<le> words_free (send_buffer c) then 0 else required_free_count (send_buffer c))"
  using assms by (auto simp: tx_signal_def i2s_flush_def i2s_send_wake_def Let_def resumes_def chan_bytes_def word_gt_0)

lemma tx_signal_control:
  assumes ctl: "tx_control n p c k" and cmd: "isr_cmd c AND ISR_RESUME_SEND_BM = 0"
  shows "tx_control n p (snd (tx_signal c)) (k + resumes (chan_bytes (fst (tx_signal c))))"
proof -
  note sg = tx_signal_resumes [OF cmd]
  have quiet: "tx_quiet (snd (tx_signal c)) (k + resumes (chan_bytes (fst (tx_signal c))))" if "tx_quiet c k"
    using that sg by (simp add: tx_quiet_def)
  have waiting: "tx_waiting_ok n (snd (tx_signal c)) (k + resumes (chan_bytes (fst (tx_signal c))))" if "tx_waiting_ok n c k"
    using that sg by (auto simp: tx_waiting_ok_def word_gt_0 split: if_splits)
  show ?thesis using ctl quiet waiting by (cases p) (auto simp: tx_control_def)
qed

section \<open>The invariant\<close>

definition tx_inv :: "nat \<Rightarrow> u32 \<Rightarrow> 'a tx_sys \<Rightarrow> bool" where
  "tx_inv f fc s \<longleftrightarrow> (let c = drv s; k = tx_credit (tx_at s)
     in out_frame c = f \<and> isr_cmd c AND ISR_RESUME_SEND_BM = 0
        \<and> tx_sound f k (send_buffer c) \<and> given s @ tx_flight (tx_at s) = sent s @ ring_items (tx_view k (send_buffer c))
        \<and> tx_control (fc * (2 * num_out c)) (tx_at s) c (resumes (to_isr s)))"

lemma i2s_send_result:
  assumes ok: "tx_sound f k (send_buffer c)"
  shows "i2s_send None f old c =
      (if f \<le> words_available (send_buffer c)
       then Inr (take f (ring_items (tx_view k (send_buffer c))), tx_signal (c\<lparr>send_buffer := send_advance f (send_buffer c)\<rparr>))
       else Inr (old, tx_signal c))"
proof -
  have "0 < f" using ok by (simp add: tx_sound_def framed_def)
  then show ?thesis
    using send_advance_sound(2,3) [OF ok]
    by (auto simp: i2s_send_def i2s_send_load_def ring_memcpy_out_def Let_def tx_signal_def)
qed

lemma i2s_receive_wake_sending [simp]:
  "send_buffer (i2s_receive_wake c) = send_buffer c" "send_sem (i2s_receive_wake c) = send_sem c"
  "send_blocked (i2s_receive_wake c) = send_blocked c" "num_out (i2s_receive_wake c) = num_out c"
  "isr_cmd (i2s_receive_wake c) AND ISR_RESUME_SEND_BM = isr_cmd c AND ISR_RESUME_SEND_BM"
  by (simp_all add: i2s_receive_wake_def Let_def)

lemma i2s_receive_sending:
  assumes run: "i2s_receive cb frame c = Inr (b, d)" and out: "num_out c \<noteq> 0"
  shows "b = None \<and> send_buffer d = send_buffer c \<and> send_sem d = send_sem c \<and> send_blocked d = send_blocked c \<and> num_out d = num_out c
    \<and> isr_cmd d AND ISR_RESUME_SEND_BM = isr_cmd c AND ISR_RESUME_SEND_BM"
proof -
  obtain m r where "i2s_receive_store cb frame c = Inr (m, r)"
    using run by (cases "i2s_receive_store cb frame c") (auto simp: i2s_receive_def)
  then have "(b, d) = (None, i2s_receive_wake (c\<lparr>recv_buffer := (if 0 < m then recv_advance (length frame) r else r)\<rparr>))"
    using run out by (simp only: i2s_receive_def rbind.simps prod.case Let_def) (simp del: i2s_flush_simps)
  then show ?thesis by simp
qed

lemma whole_frames:
  assumes "unat fc * out_frame c < 2 ^ 32"
  shows "out_frame c dvd unat (fc * (2 * num_out c))"
proof -
  have "unat (fc * (2 * num_out c)) = unat fc * out_frame c"
    using assms by (subst unat_word_ariths(2)) (simp add: out_frame_def)
  then show ?thesis by simp
qed

lemmas tx_inv_defs = tx_inv_def Let_def tx_control_def tx_credit_def tx_flight_def

lemma tx_frame_inv:
  assumes inv: "tx_inv f fc s" and run: "i2s_send None (out_frame (drv s)) old (drv s) = Inr (frame, b, d)"
  shows "tx_inv f fc (s\<lparr>drv := d, to_isr := to_isr s @ chan_bytes b,
       sent := (if out_frame (drv s) \<le> words_available (send_buffer (drv s)) then sent s @ frame else sent s)\<rparr>)"
proof -
  let ?k = "tx_credit (tx_at s)" and ?r = "send_buffer (drv s)"
  define c where "c = (if f \<le> words_available ?r then (drv s)\<lparr>send_buffer := send_advance f ?r\<rparr> else drv s)"
  have f: "out_frame (drv s) = f" and snd: "tx_sound f ?k ?r" and cmd: "isr_cmd (drv s) AND ISR_RESUME_SEND_BM = 0"
    and given: "given s @ tx_flight (tx_at s) = sent s @ ring_items (tx_view ?k ?r)"
    and ctl: "tx_control (fc * (2 * num_out (drv s))) (tx_at s) (drv s) (resumes (to_isr s))"
    using inv by (simp_all add: tx_inv_def Let_def)
  note adv = send_advance_sound [OF snd]
  have free: "words_free (send_buffer (drv s)) \<le> words_free (send_buffer c)"
  proof (cases "f \<le> words_available ?r")
    case True
    then show ?thesis
      using tx_sound_free [OF snd] tx_sound_free [OF adv(1) [OF True]] adv(5) [OF True]
      by (simp add: c_def) (simp add: send_advance_def Let_def)
  qed (simp add: c_def)
  have c: "isr_cmd c = isr_cmd (drv s)" "num_out c = num_out (drv s)" "out_frame c = f"
    "required_free_count (send_buffer c) = required_free_count ?r" "send_sem c = send_sem (drv s)" "send_blocked c = send_blocked (drv s)"
    using f by (simp_all add: c_def out_frame_def) (simp_all add: send_advance_def Let_def)
  have r: "(frame, b, d) = (if f \<le> words_available ?r then take f (ring_items (tx_view ?k ?r)) else old, tx_signal c)"
    using run [unfolded f i2s_send_result [OF snd]] by (auto simp: c_def split: if_splits)
  then have bd: "b = fst (tx_signal c)" "d = snd (tx_signal c)" by (auto simp: prod_eq_iff)
  have "tx_control (fc * (2 * num_out (drv s))) (tx_at s) c (resumes (to_isr s))"
    by (rule tx_control_freer [OF ctl free c(4-6)])
  from tx_signal_control [OF this] have "tx_control (fc * (2 * num_out (drv s))) (tx_at s) d (resumes (to_isr s @ chan_bytes b))"
    using cmd c(1) by (simp add: bd)
  moreover have "tx_sound f ?k (send_buffer d)" using snd adv(1) by (simp add: bd c_def)
  moreover have "given s @ tx_flight (tx_at s)
      = (if f \<le> words_available ?r then sent s @ frame else sent s) @ ring_items (tx_view ?k (send_buffer d))"
    using given adv(4) r by (auto simp: bd c_def)
  ultimately show ?thesis using c f by (simp add: tx_inv_def Let_def bd)
qed

lemma tx_isr_inv:
  assumes inv: "tx_inv f fc s" and ch: "to_isr s = b # bs"
  shows "tx_inv f fc (s\<lparr>drv := rtos_i2s_isr b (drv s), to_isr := bs\<rparr>)"
proof -
  let ?c = "rtos_i2s_isr b (drv s)"
  have fields: "send_buffer ?c = send_buffer (drv s)" "num_out ?c = num_out (drv s)" "isr_cmd ?c = isr_cmd (drv s)"
    "send_blocked ?c = send_blocked (drv s)" "send_sem ?c = (b AND ISR_RESUME_SEND_BM \<noteq> 0 \<or> send_sem (drv s))"
    by (simp_all add: rtos_i2s_isr_def Let_def)
  have res: "resumes (to_isr s) = (if b AND ISR_RESUME_SEND_BM \<noteq> 0 then 1 else 0) + resumes bs"
    by (simp add: ch resumes_def)
  have "tx_control n p ?c (resumes bs)" if "tx_control n p (drv s) (resumes (to_isr s))" for n p
    using that fields res
    by (cases p) (auto simp: tx_control_def tx_waiting_ok_def tx_quiet_def split: if_splits)
  then show ?thesis using inv fields by (simp add: tx_inv_def Let_def out_frame_def)
qed

lemma tx_step_inv: "tx_step fc s t \<Longrightarrow> unat fc * f < 2 ^ 32 \<Longrightarrow> tx_inv f fc s \<Longrightarrow> tx_inv f fc t"
proof (induction rule: tx_step.induct)
  case (tx_frame s old frame b d)
  then show ?case using tx_frame_inv by blast
next
  case (tx_receive cb frame s b d)
  have "num_out (drv s) \<noteq> 0" using tx_receive by (auto simp: tx_inv_defs tx_sound_def framed_def out_frame_def)
  note rc = i2s_receive_sending [OF tx_receive(1) this]
  have "tx_control n p d k" if "tx_control n p (drv s) k" for n p k
    using tx_control_freer [OF that, of d] rc by simp
  then show ?case using tx_receive rc by (simp add: tx_inv_def Let_def out_frame_def chan_bytes_def)
next
  case (tx_isr s b bs)
  then show ?case using tx_isr_inv by blast
next
  case (tx_rx_call s q p r)
  have "tx_control n x ((drv s)\<lparr>recv_buffer := r, recv_sem := p, recv_blocked := q\<rparr>) k" if "tx_control n x (drv s) k" for n x k
    using tx_control_freer [OF that, of "(drv s)\<lparr>recv_buffer := r, recv_sem := p, recv_blocked := q\<rparr>"] by simp
  then show ?case using tx_rx_call by (simp add: tx_inv_def Let_def out_frame_def)
next
  case (tx_arms s n xs)
  then show ?case
    by (auto simp: tx_inv_defs tx_waiting_ok_def tx_quiet_def tx_arm_def out_frame_def framed_def ring_ok_def ring_items_def words_available_def)
next
  case (tx_copies s n xs d)
  let ?n = "fc * (2 * num_out (drv s))"
  have n: "n = ?n" "length xs = unat n" "unat n \<le> words_free (send_buffer (drv s))" "tx_quiet (drv s) (resumes (to_isr s))"
    and fr: "framed f (send_buffer (drv s))" and f: "out_frame (drv s) = f"
    using tx_copies by (simp_all add: tx_inv_defs)
  have "f dvd unat n" using whole_frames [of fc "drv s"] tx_copies(3) f n(1) by simp
  from tx_copy_ok [OF fr this n(2,3)] obtain r where r: "d = (drv s)\<lparr>send_buffer := r\<rparr>" "tx_sound f n r"
    "ring_items (tx_view n r) = ring_items (send_buffer (drv s)) @ xs" "required_free_count r = required_free_count (send_buffer (drv s))"
    using tx_copies(2) by auto
  then show ?case using tx_copies n f by (simp add: tx_inv_defs tx_quiet_def out_frame_def)
next
  case (tx_commits s n xs)
  then show ?case
    by (auto simp: tx_inv_defs tx_commit_def tx_quiet_def tx_sound_def tx_view_def out_frame_def)
qed (auto simp: tx_inv_defs tx_must_wait_def tx_waiting_ok_def tx_quiet_def out_frame_def not_less split: if_splits)

lemma tx_reachable_inv: "tx_reachable fc init s \<Longrightarrow> unat fc * f < 2 ^ 32 \<Longrightarrow> tx_inv f fc init \<Longrightarrow> tx_inv f fc s"
  by (induction rule: tx_reachable.induct) (blast intro: tx_step_inv)+

lemma tx_start_inv:
  assumes mem: "length smem = unat (send_buffer_size * (2 * num_out c))" and pos: "0 < unat (send_buffer_size * (2 * num_out c))"
    and whole: "unat (2 * num_out c) dvd unat (send_buffer_size * (2 * num_out c))" and free: "\<not> send_blocked c"
    and start: "d = rtos_i2s_start ratio md recv_buffer_size send_buffer_size rmem smem c"
  shows "tx_inv (unat (2 * num_out c)) fc (tx_initial d)"
proof -
  note ok = i2s_start_tx_ok [OF mem pos whole start free]
  have "num_out c \<noteq> 0" using pos by auto
  then have "isr_cmd d = 0" "\<not> send_sem d" "required_free_count (send_buffer d) = 0"
    by (auto simp: start rtos_i2s_start_def Let_def send_buf_zero_def word_gt_0)
  then show ?thesis using ok by (auto simp: tx_initial_def tx_inv_defs i2s_tx_ok_def tx_quiet_def)
qed

text \<open>What the invariant says of the next step.\<close>

lemma tx_callback_safe:
  assumes "tx_inv f fc s"
  shows "\<exists>b e. i2s_send None f old (drv s)
    = Inr (if f \<le> words_available (send_buffer (drv s)) then take f (ring_items (tx_view (tx_credit (tx_at s)) (send_buffer (drv s)))) else old, b, e)"
proof -
  have snd: "tx_sound f (tx_credit (tx_at s)) (send_buffer (drv s))" using assms by (simp add: tx_inv_def Let_def)
  show ?thesis unfolding i2s_send_result [OF snd] by (auto simp: prod_eq_iff)
qed

lemma tx_copy_safe:
  assumes inv: "tx_inv f fc s" and at: "tx_at s = Tx_Ready n xs" and calls: "unat fc * f < 2 ^ 32"
  shows "\<exists>e. tx_copy n xs (drv s) = Some (Inr e)"
proof -
  have f: "out_frame (drv s) = f" and fr: "framed f (send_buffer (drv s))"
    and n: "n = fc * (2 * num_out (drv s))" "length xs = unat n" "unat n \<le> words_free (send_buffer (drv s))"
    using inv at by (simp_all add: tx_inv_defs)
  have "f dvd unat n" using whole_frames [of fc "drv s"] calls f n(1) by simp
  from tx_copy_ok [OF fr this n(2,3)] show ?thesis by auto
qed

lemma tx_wait_registered:
  assumes inv: "tx_inv f fc s" and at: "tx_at s = Tx_Wait n xs"
  shows "send_sem (drv s) \<or> (\<exists>b \<in> set (to_isr s). b AND ISR_RESUME_SEND_BM \<noteq> 0)
    \<or> required_free_count (send_buffer (drv s)) = n \<and> n \<noteq> 0"
proof -
  have n: "n = fc * (2 * num_out (drv s))" and w: "tx_waiting_ok n (drv s) (resumes (to_isr s))"
    using inv at by (simp_all add: tx_inv_defs)
  have "resumes (to_isr s) = 0 \<or> (\<exists>b \<in> set (to_isr s). b AND ISR_RESUME_SEND_BM \<noteq> 0)"
    by (auto simp: resumes_def filter_empty_conv)
  then show ?thesis using w by (auto simp: tx_waiting_ok_def split: if_splits)
qed

section \<open>Properties\<close>

text \<open>
  C13: The sending side of the I2S driver, without a send filter, started with a buffer of whole frames, and called for the same
  number of frames every time: whatever the interleaving of the calls with the frame callbacks, the receive callbacks, the interrupt and the
  receiving calls, whether calls wait or time out and frame periods find no frame, the frames taken from the
  buffer, followed by what is still in it, are exactly the samples of the calls that have returned success, and of a copy that
  is not yet counted, in order. In every such state the callback accesses the buffer inside its bounds and sends the next frame, or on an
  underrun leaves the frame as it was; a copy ends and stays in the buffer; and a call that waits is still registered with the callback, or
  its wake-up is on its way.
\<close>

theorem i2s_tx_in_order:
  assumes mem: "length smem = unat (send_buffer_size * (2 * num_out c))" and pos: "0 < unat (send_buffer_size * (2 * num_out c))"
    and f: "f = unat (2 * num_out c)" and whole: "f dvd unat (send_buffer_size * (2 * num_out c))" and free: "\<not> send_blocked c"
    and start: "d = rtos_i2s_start ratio md recv_buffer_size send_buffer_size rmem smem c"
    and calls: "unat fc * f < 2 ^ 32" and run: "tx_reachable fc (tx_initial d) s"
    and r: "r = send_buffer (drv s)" "v = tx_view (tx_credit (tx_at s)) r"
  shows "given s @ tx_flight (tx_at s) = sent s @ ring_items v
    \<and> (\<forall>old. \<exists>b e. i2s_send None f old (drv s) = Inr (if f \<le> words_available r then take f (ring_items v) else old, b, e))
    \<and> (\<forall>n xs. tx_at s = Tx_Ready n xs \<longrightarrow> (\<exists>e. tx_copy n xs (drv s) = Some (Inr e)))
    \<and> (\<forall>n xs. tx_at s = Tx_Wait n xs \<longrightarrow> send_sem (drv s) \<or> (\<exists>b \<in> set (to_isr s). b AND ISR_RESUME_SEND_BM \<noteq> 0)
        \<or> required_free_count r = n \<and> n \<noteq> 0)"
proof -
  have inv: "tx_inv f fc s"
    unfolding f by (rule tx_reachable_inv [OF run calls [unfolded f] tx_start_inv [OF mem pos whole [unfolded f] free start]])
  then have "given s @ tx_flight (tx_at s) = sent s @ ring_items v" by (simp add: tx_inv_def Let_def r)
  with tx_callback_safe [OF inv] tx_copy_safe [OF inv _ calls] tx_wait_registered [OF inv]
  show ?thesis unfolding r by blast
qed

text \<open>
  Two calls for one frame on a buffer of two frames, each with a frame period between its copy and its count: the first
  finds no frame, the second takes that of the first call.
\<close>

definition tx_example :: "sample list \<Rightarrow> u32 \<Rightarrow> nat \<Rightarrow> u32 \<Rightarrow> nat \<Rightarrow> unit i2s" where
  "tx_example b tw wi tr ri = i2s_example\<lparr>send_buffer := \<lparr>buf_size = 4, buf = b, total_written = tw, write_index = wi,
     total_read = tr, read_index = ri, required_free_count = 0\<rparr>\<rparr>"

lemma tx_example_start: "tx_example [0, 0, 0, 0] 0 0 0 0 = rtos_i2s_start 0 0 0 2 [] [0, 0, 0, 0] i2s_example"
  by (simp add: tx_example_def i2s_example_def rtos_i2s_start_def Let_def recv_buf_zero_def send_buf_zero_def)

lemma tx_example_runs:
  "tx_copy 2 [1, 2] (tx_example [0, 0, 0, 0] 0 0 0 0) = Some (Inr (tx_example [1, 2, 0, 0] 0 2 0 0))"
  "i2s_send None 2 [9, 9] (tx_example [1, 2, 0, 0] 0 2 0 0) = Inr ([9, 9], None, tx_example [1, 2, 0, 0] 0 2 0 0)"
  "tx_commit 2 (tx_example [1, 2, 0, 0] 0 2 0 0) = tx_example [1, 2, 0, 0] 2 2 0 0"
  "tx_copy 2 [3, 4] (tx_example [1, 2, 0, 0] 2 2 0 0) = Some (Inr (tx_example [1, 2, 3, 4] 2 0 0 0))"
  "i2s_send None 2 [9, 9] (tx_example [1, 2, 3, 4] 2 0 0 0) = Inr ([1, 2], None, tx_example [1, 2, 3, 4] 2 0 2 2)"
  by code_simp+

lemma tx_example_fields:
  "num_out (tx_example b tw wi tr ri) = 1" "out_frame (tx_example b tw wi tr ri) = 2" "send_blocked (tx_example b tw wi tr ri) = False"
  "buf_size (send_buffer (tx_example b tw wi tr ri)) = 4" "words_available (send_buffer (tx_example b tw wi tr ri)) = unat (tw - tr)"
  "words_free (send_buffer (tx_example b tw wi tr ri)) = unat (4 - (tw - tr))"
  by (simp_all add: tx_example_def i2s_example_def out_frame_def words_available_def words_free_def)

lemma tx_example_reach:
  "tx_reachable 1 (tx_initial (tx_example [0, 0, 0, 0] 0 0 0 0))
     \<lparr>drv = tx_example [1, 2, 3, 4] 2 0 2 2, tx_at = Tx_Copied 2 [3, 4], to_isr = [], given = [1, 2], sent = [1, 2]\<rparr>"
proof -
  let ?st = "\<lambda>c p g o1. \<lparr>drv = c, tx_at = p, to_isr = [], given = g, sent = o1\<rparr>"
  have call: "tx_step 1 (?st c Tx_Idle g o1) (?st c (Tx_Ready 2 xs) g o1)"
    if "num_out c = 1" "length xs = 2" "buf_size (send_buffer c) = 4" "\<not> send_blocked c" "2 \<le> words_free (send_buffer c)" for c g o1 xs
    using tx_call_ready [of "?st c Tx_Idle g o1" 2 1 xs] that by (simp add: tx_must_wait_def)
  have copy: "tx_step 1 (?st c (Tx_Ready 2 xs) g o1) (?st d (Tx_Copied 2 xs) g o1)" if "tx_copy 2 xs c = Some (Inr d)" for c d g o1 xs
    using tx_copies [of "?st c (Tx_Ready 2 xs) g o1" 2 xs d 1] that by simp
  have commit: "tx_step 1 (?st c (Tx_Copied 2 xs) g o1) (?st (tx_commit 2 c) Tx_Idle (g @ xs) o1)" for c g o1 xs
    using tx_commits [of "?st c (Tx_Copied 2 xs) g o1" 2 xs 1] by simp
  have frame: "tx_step 1 (?st c p g o1) (?st d p g (if 2 \<le> words_available (send_buffer c) then o1 @ xs else o1))"
    if "out_frame c = 2" "i2s_send None 2 [9, 9] c = Inr (xs, None, d)" for c d p g o1 xs
    using tx_frame [of "?st c p g o1" "[9, 9]" xs None d 1] that by (simp add: chan_bytes_def cong: if_cong)
  let ?a = "tx_example [0, 0, 0, 0] 0 0 0 0" and ?b = "tx_example [1, 2, 0, 0] 0 2 0 0" and ?c = "tx_example [1, 2, 0, 0] 2 2 0 0"
    and ?d = "tx_example [1, 2, 3, 4] 2 0 0 0" and ?e = "tx_example [1, 2, 3, 4] 2 0 2 2"
  note r = tx_example_runs and v = tx_example_fields and more = tx_reachable_step
  have "tx_reachable 1 (tx_initial ?a) (?st ?a Tx_Idle [] [])" using tx_reachable_init by (simp add: tx_initial_def)
  from more [OF more [OF this call] copy [OF r(1)]] have "tx_reachable 1 (tx_initial ?a) (?st ?b (Tx_Copied 2 [1, 2]) [] [])" by (simp add: v)
  from more [OF this frame [OF _ r(2)]] have "tx_reachable 1 (tx_initial ?a) (?st ?b (Tx_Copied 2 [1, 2]) [] [])" by (simp add: v)
  from more [OF this commit] have "tx_reachable 1 (tx_initial ?a) (?st ?c Tx_Idle [1, 2] [])" by (simp add: r)
  from more [OF more [OF this call] copy [OF r(4)]] have "tx_reachable 1 (tx_initial ?a) (?st ?d (Tx_Copied 2 [3, 4]) [1, 2] [])" by (simp add: v)
  from more [OF this frame [OF _ r(5)]] show ?thesis by (simp add: v)
qed

theorem i2s_tx_in_order_witness:
  "\<exists>b e. i2s_send None 2 [9, 9] (tx_example [1, 2, 3, 4] 2 0 2 2) = Inr ([9, 9], b, e)
    \<and> [1, 2] @ [3, 4] = [1, 2] @ ring_items (tx_view 2 (send_buffer (tx_example [1, 2, 3, 4] 2 0 2 2)))"
proof -
  let ?s = "\<lparr>drv = tx_example [1, 2, 3, 4] 2 0 2 2, tx_at = Tx_Copied 2 [3, 4], to_isr = [], given = [1, 2], sent = [1, 2]\<rparr>"
  have "length [0, 0, 0, 0 :: sample] = unat ((2 :: u32) * (2 * num_out i2s_example))"
    "0 < unat ((2 :: u32) * (2 * num_out i2s_example))" "2 = unat (2 * num_out i2s_example)"
    "2 dvd unat ((2 :: u32) * (2 * num_out i2s_example))" "\<not> send_blocked i2s_example" "unat (1 :: u32) * 2 < 2 ^ 32"
    by (simp_all add: i2s_example_def)
  from i2s_tx_in_order [OF this(1-5) tx_example_start this(6) tx_example_reach refl refl]
  show ?thesis by (simp add: tx_flight_def tx_credit_def tx_example_fields)
qed

end
