(* ===== verification/Rpc.thy ===== *)
theory Rpc
  imports Prelude
begin

text \<open>
  Remote procedure calls between tiles: modules/rtos/drivers/rpc/rtos_rpc.c and api/rtos_rpc.h.
  A client marshals the parameters of a call into a request, the host unmarshals them, runs
  the function and marshals its results into a response. Memory that a pointer argument
  points to is the list of its bytes. The drivers that use it follow in the theories named after them, ending in Rpc.
\<close>

section \<open>Parameter descriptors\<close>

record rpc_param_desc =
  desc_length :: "24 word"
  desc_ptr :: bool
  desc_input :: bool
  desc_output :: bool

text \<open>The macros of rtos_rpc.h; a length that does not fit the bit field is truncated.\<close>

definition RPC_PARAM_TYPE :: "nat \<Rightarrow> rpc_param_desc" where
  "RPC_PARAM_TYPE sz = \<lparr>desc_length = of_nat sz, desc_ptr = False, desc_input = True, desc_output = False\<rparr>"

definition RPC_PARAM_RETURN :: "nat \<Rightarrow> rpc_param_desc" where
  "RPC_PARAM_RETURN sz = \<lparr>desc_length = of_nat sz, desc_ptr = False, desc_input = False, desc_output = True\<rparr>"

definition RPC_PARAM_IN_BUFFER :: "nat \<Rightarrow> u32 \<Rightarrow> rpc_param_desc" where
  "RPC_PARAM_IN_BUFFER sz n = \<lparr>desc_length = ucast (of_nat sz * n), desc_ptr = True, desc_input = True, desc_output = False\<rparr>"

definition RPC_PARAM_OUT_BUFFER :: "nat \<Rightarrow> u32 \<Rightarrow> rpc_param_desc" where
  "RPC_PARAM_OUT_BUFFER sz n = \<lparr>desc_length = ucast (of_nat sz * n), desc_ptr = True, desc_input = False, desc_output = True\<rparr>"

definition RPC_PARAM_INOUT_BUFFER :: "nat \<Rightarrow> u32 \<Rightarrow> rpc_param_desc" where
  "RPC_PARAM_INOUT_BUFFER sz n = \<lparr>desc_length = ucast (of_nat sz * n), desc_ptr = True, desc_input = True, desc_output = True\<rparr>"

definition RPC_PARAM_LIST_END :: rpc_param_desc where
  "RPC_PARAM_LIST_END = \<lparr>desc_length = 0, desc_ptr = False, desc_input = False, desc_output = False\<rparr>"

lemmas rpc_params = RPC_PARAM_TYPE_def RPC_PARAM_RETURN_def RPC_PARAM_IN_BUFFER_def RPC_PARAM_OUT_BUFFER_def
  RPC_PARAM_INOUT_BUFFER_def RPC_PARAM_LIST_END_def

text \<open>
  The bit fields as the compiler lays them out in a 32-bit unit: the length in the low 24
  bits, then the three flags.
\<close>

definition desc_enc :: "rpc_param_desc \<Rightarrow> u8 list" where
  "desc_enc d = le32 (ucast (desc_length d)
     OR push_bit 24 (of_bool (desc_ptr d))
     OR push_bit 25 (of_bool (desc_input d))
     OR push_bit 26 (of_bool (desc_output d)))"

definition desc_dec :: "u8 list \<Rightarrow> rpc_param_desc" where
  "desc_dec bs = (let w = of_le32 bs
     in \<lparr>desc_length = ucast w, desc_ptr = bit w 24, desc_input = bit w 25, desc_output = bit w 26\<rparr>)"

lemma bit_24_bound: "bit (w :: 24 word) n \<Longrightarrow> n < 24"
  by (drule bit_imp_le_length) simp

lemma desc_dec_enc [simp]: "desc_dec (desc_enc d @ bs) = d"
proof -
  let ?w = "ucast (desc_length d)
     OR push_bit 24 (of_bool (desc_ptr d))
     OR push_bit 25 (of_bool (desc_input d))
     OR push_bit 26 (of_bool (desc_output d)) :: u32"
  have "ucast ?w = desc_length d"
    by (rule bit_word_eqI) (auto simp: bit_simps)
  moreover have "bit ?w 24 = desc_ptr d" "bit ?w 25 = desc_input d" "bit ?w 26 = desc_output d"
    by (auto simp: bit_simps dest: bit_24_bound)
  ultimately show ?thesis
    by (simp only: desc_dec_def desc_enc_def of_le32_le32_append Let_def) (simp add: rpc_param_desc.equality)
qed

interpretation descc: byte_codec 4 desc_enc desc_dec "\<lambda>_. True"
  by unfold_locales (simp_all add: desc_enc_def [symmetric], simp add: desc_enc_def)

section \<open>The request\<close>

text \<open>The first descriptor that is neither input nor output ends the list.\<close>

fun count_params :: "rpc_param_desc list \<Rightarrow> nat res" where
  "count_params [] = Inl OutOfBounds"
| "count_params (d # ds) =
     (if desc_input d \<or> desc_output d then rbind (count_params ds) (\<lambda>n. Inr (Suc n)) else Inr 0)"

text \<open>Every parameter takes an argument, a pointer; the inputs are copied into the message.\<close>

fun marshall_inputs :: "rpc_param_desc list \<Rightarrow> u8 list list \<Rightarrow> u8 list res" where
  "marshall_inputs [] args = Inr []"
| "marshall_inputs (d # ds) [] = Inl BadVarArg"
| "marshall_inputs (d # ds) (a # args) =
     (if desc_input d
      then if length a < unat (desc_length d) then Inl OutOfBounds
           else rbind (marshall_inputs ds args) (\<lambda>ps. Inr (take (unat (desc_length d)) a @ ps))
      else marshall_inputs ds args)"

definition rpc_request_marshall_va :: "u32 \<Rightarrow> rpc_param_desc list \<Rightarrow> u8 list list \<Rightarrow> u8 list res" where
  "rpc_request_marshall_va fcode descs ap =
     rbind (count_params descs) (\<lambda>n.
     rbind (marshall_inputs (take n descs) ap) (\<lambda>ps.
       Inr (le32 fcode @ le32 (of_nat n) @ concat (map desc_enc (take n descs)) @ ps)))"

record rpc_msg =
  rpc_fcode :: u32
  param_count :: nat
  param_desc :: "rpc_param_desc list"
  params :: "u8 list"

fun desc_dec_list :: "nat \<Rightarrow> u8 list \<Rightarrow> rpc_param_desc list" where
  "desc_dec_list 0 bs = []"
| "desc_dec_list (Suc n) bs = desc_dec bs # desc_dec_list n (drop 4 bs)"

definition rpc_request_parse :: "u8 list \<Rightarrow> rpc_msg res" where
  "rpc_request_parse msg_buf =
     (let n = unat (of_le32 (drop 4 msg_buf))
      in if length msg_buf < 8 + 4 * n then Inl OutOfBounds
         else Inr \<lparr>rpc_fcode = of_le32 msg_buf, param_count = n,
                param_desc = desc_dec_list n (drop 8 msg_buf), params = drop (8 + 4 * n) msg_buf\<rparr>)"

text \<open>
  What unmarshalling leaves in the variable of a parameter: the bytes copied into a scalar, a
  pointer to the bytes of a buffer in the message, NULL, the invalid pointer that marks an
  output buffer, or nothing.
\<close>

datatype rpc_val = Scalar "u8 list" | InPtr "u8 list" | NullPtr | NotNull | Untouched

fun unmarshall_inputs :: "rpc_param_desc list \<Rightarrow> u8 list \<Rightarrow> rpc_val list res" where
  "unmarshall_inputs [] ps = Inr []"
| "unmarshall_inputs (d # ds) ps =
     (let n = unat (desc_length d)
      in if desc_input d \<and> length ps < n then Inl OutOfBounds
         else rbind (unmarshall_inputs ds (if desc_input d then drop n ps else ps)) (\<lambda>vs.
           Inr ((if desc_ptr d
                 then if desc_input d then if 0 < n then InPtr (take n ps) else NullPtr
                      else if desc_output d then if n = 0 then NullPtr else NotNull
                      else Untouched
                 else if desc_input d then Scalar (take n ps) else Untouched) # vs)))"

definition rpc_request_unmarshall_va :: "rpc_msg \<Rightarrow> rpc_val list res" where
  "rpc_request_unmarshall_va rpc_msg = unmarshall_inputs (take (param_count rpc_msg) (param_desc rpc_msg)) (params rpc_msg)"

section \<open>The response\<close>

text \<open>The arguments on the host: promoted integers, or pointers.\<close>

datatype host_arg = Arg32 u32 | Arg64 "64 word" | ArgPtr "u8 list"

definition le64 :: "64 word \<Rightarrow> u8 list" where
  "le64 w = le32 (ucast w) @ le32 (ucast (drop_bit 32 w))"

fun arg_bytes :: "rpc_param_desc \<Rightarrow> host_arg \<Rightarrow> u8 list res" where
  "arg_bytes d (ArgPtr bs) = (if desc_ptr d then Inr bs else Inl BadVarArg)"
| "arg_bytes d (Arg32 w) =
     (if desc_ptr d then Inl BadVarArg
      else if desc_length d = 1 then Inr (take 1 (le32 w))
      else if desc_length d = 2 then Inr (take 2 (le32 w))
      else if desc_length d = 4 then Inr (le32 w)
      else if desc_length d = 8 then Inl BadVarArg
      else Inl AssertFail)"
| "arg_bytes d (Arg64 w) =
     (if desc_ptr d then Inl BadVarArg
      else if desc_length d = 8 then Inr (le64 w)
      else if desc_length d \<in> {1, 2, 4} then Inl BadVarArg
      else Inl AssertFail)"

fun marshall_outputs :: "rpc_param_desc list \<Rightarrow> host_arg list \<Rightarrow> u8 list res" where
  "marshall_outputs [] args = Inr []"
| "marshall_outputs (d # ds) [] = Inl BadVarArg"
| "marshall_outputs (d # ds) (a # args) =
     rbind (arg_bytes d a) (\<lambda>bs.
       if desc_output d
       then if length bs < unat (desc_length d) then Inl OutOfBounds
            else rbind (marshall_outputs ds args) (\<lambda>ps. Inr (take (unat (desc_length d)) bs @ ps))
       else marshall_outputs ds args)"

definition rpc_response_marshall_va :: "rpc_msg \<Rightarrow> host_arg list \<Rightarrow> u8 list res" where
  "rpc_response_marshall_va rpc_msg ap =
     rbind (marshall_outputs (take (param_count rpc_msg) (param_desc rpc_msg)) ap) (\<lambda>ps.
       Inr (le32 (rpc_fcode rpc_msg) @ ps))"

definition rpc_response_parse :: "u8 list \<Rightarrow> (u32 \<times> u8 list) res" where
  "rpc_response_parse msg_buf =
     (if length msg_buf < 4 then Inl OutOfBounds else Inr (of_le32 msg_buf, drop 4 msg_buf))"

text \<open>The outputs are copied into the memory the client's arguments point to.\<close>

fun unmarshall_outputs :: "rpc_param_desc list \<Rightarrow> u8 list \<Rightarrow> u8 list list \<Rightarrow> u8 list list res" where
  "unmarshall_outputs [] ps args = Inl OutOfBounds"
| "unmarshall_outputs (d # ds) ps args =
     (if desc_input d \<or> desc_output d
      then case args of [] \<Rightarrow> Inl BadVarArg
           | a # args \<Rightarrow>
               if desc_output d
               then let n = unat (desc_length d)
                    in if length ps < n \<or> length a < n then Inl OutOfBounds
                       else rbind (unmarshall_outputs ds (drop n ps) args) (\<lambda>as. Inr (splice 0 (take n ps) a # as))
               else rbind (unmarshall_outputs ds ps args) (\<lambda>as. Inr (a # as))
      else Inr args)"

section \<open>A call\<close>

text \<open>
  \<open>host\<close> stands for the other tile: it takes the request and its own state and sends
  a response. The arguments are returned as the call leaves them.
\<close>

definition rpc_client_call_generic ::
  "(u8 list \<Rightarrow> 's \<Rightarrow> (u8 list \<times> 's) res) \<Rightarrow> u32 \<Rightarrow> rpc_param_desc list \<Rightarrow> u8 list list \<Rightarrow> 's
    \<Rightarrow> (u8 list list \<times> 's) res" where
  "rpc_client_call_generic host fcode descs args s =
     rbind (rpc_request_marshall_va fcode descs args) (\<lambda>req_msg.
     rbind (host req_msg s) (\<lambda>(resp_msg, s).
     rbind (c_assert (resp_msg \<noteq> [])) (\<lambda>_.
     rbind (rpc_response_parse resp_msg) (\<lambda>(f, ps).
     rbind (c_assert (f = fcode)) (\<lambda>_.
     rbind (unmarshall_outputs descs ps args) (\<lambda>args. Inr (args, s)))))))"

section \<open>Requests and responses arrive as they were sent\<close>

lemma le32_append_drop [simp]:
  "drop 4 (le32 w @ bs) = bs" "drop 8 (le32 v @ le32 w @ bs) = bs"
  by simp_all

lemma count_params_take: "count_params ds = Inr n \<Longrightarrow> n < length ds"
  by (induction ds arbitrary: n) (auto simp: res_simps split: if_splits)

lemma desc_dec_list_enc: "desc_dec_list (length ds) (concat (map desc_enc ds) @ bs) = ds"
proof (induction ds)
  case (Cons d ds)
  have "drop 4 (desc_enc d @ (concat (map desc_enc ds) @ bs)) = concat (map desc_enc ds) @ bs"
    by (rule descc.drop_enc)
  with Cons show ?case by simp
qed simp

text \<open>The value a parameter has on the host, when the client passed a pointer to \<open>a\<close>.\<close>

definition host_value :: "rpc_param_desc \<Rightarrow> u8 list \<Rightarrow> rpc_val" where
  "host_value d a =
     (if desc_ptr d
      then if desc_input d then if desc_length d = 0 then NullPtr else InPtr (take (unat (desc_length d)) a)
           else if desc_output d then if desc_length d = 0 then NullPtr else NotNull else Untouched
      else if desc_input d then Scalar (take (unat (desc_length d)) a) else Untouched)"

lemma unat_24_eq_0: "unat (w :: 24 word) = 0 \<longleftrightarrow> w = 0"
  by (rule unat_eq_zero)

lemma unmarshall_marshall:
  "marshall_inputs ds args = Inr ps \<Longrightarrow>
    length ds \<le> length args \<and> unmarshall_inputs ds ps = Inr (map2 host_value ds args)"
proof (induction ds args arbitrary: ps rule: marshall_inputs.induct)
  case (3 d ds a args)
  let ?n = "unat (desc_length d)"
  show ?case
  proof (cases "desc_input d")
    case True
    with 3(3) obtain qs where qs: "?n \<le> length a" "marshall_inputs ds args = Inr qs" "ps = take ?n a @ qs"
      by (auto simp: res_simps not_less split: if_splits)
    with 3(1) [OF True] have ih: "length ds \<le> length args" "unmarshall_inputs ds qs = Inr (map2 host_value ds args)"
      by (simp_all add: not_less)
    have "take ?n ps = take ?n a" "drop ?n ps = qs" "\<not> length ps < ?n" using qs by simp_all
    with True ih show ?thesis by (simp add: Let_def host_value_def unat_gt_0 unat_24_eq_0)
  next
    case False
    with 3 show ?thesis by (simp add: Let_def host_value_def unat_24_eq_0)
  qed
qed simp_all

lemma parse_marshalled:
  assumes "length ds < 2 ^ 30"
  shows "rpc_request_parse (le32 fcode @ le32 (of_nat (length ds)) @ concat (map desc_enc ds) @ ps)
    = Inr \<lparr>rpc_fcode = fcode, param_count = length ds, param_desc = ds, params = ps\<rparr>"
proof -
  have n: "unat (of_nat (length ds) :: u32) = length ds" using assms by (simp add: unat_of_nat)
  have l: "length (concat (map desc_enc ds)) = 4 * length ds" by (rule descc.length_concat_enc)
  let ?m = "le32 fcode @ le32 (of_nat (length ds)) @ concat (map desc_enc ds) @ ps"
  have "drop (8 + 4 * length ds) ?m = drop (4 * length ds) (drop 8 ?m)" by (simp only: drop_drop add.commute)
  also have "\<dots> = ps" using l by simp
  finally have d: "drop (8 + 4 * length ds) ?m = ps" .
  have "\<not> length ?m < 8 + 4 * length ds" using l by simp
  then show ?thesis using d
    by (simp only: rpc_request_parse_def le32_append_drop of_le32_le32_append n Let_def if_False desc_dec_list_enc)
qed

text \<open>What a host that parses the request and runs a function for it sees of a call.\<close>

lemma client_call_host:
  assumes n: "count_params descs = Inr n" "n < 2 ^ 30" and ps: "marshall_inputs (take n descs) args = Inr ps"
  shows "rpc_client_call_generic (\<lambda>req s. rbind (rpc_request_parse req) (\<lambda>m. turn m s)) fcode descs args s =
    rbind (turn \<lparr>rpc_fcode = fcode, param_count = n, param_desc = take n descs, params = ps\<rparr> s) (\<lambda>(resp_msg, s).
     rbind (c_assert (resp_msg \<noteq> [])) (\<lambda>_.
     rbind (rpc_response_parse resp_msg) (\<lambda>(f, ps).
     rbind (c_assert (f = fcode)) (\<lambda>_.
     rbind (unmarshall_outputs descs ps args) (\<lambda>args. Inr (args, s))))))"
proof -
  have "length (take n descs) = n" using count_params_take [OF n(1)] by simp
  then show ?thesis
    using parse_marshalled [of "take n descs" fcode ps] n ps
    by (simp add: rpc_client_call_generic_def rpc_request_marshall_va_def)
qed

text \<open>What the client's memory holds after a response: the outputs, at the start of each argument.\<close>

definition client_value :: "rpc_param_desc \<Rightarrow> host_arg \<Rightarrow> u8 list \<Rightarrow> u8 list" where
  "client_value d h a =
     (if desc_output d
      then case arg_bytes d h of Inr bs \<Rightarrow> splice 0 (take (unat (desc_length d)) bs) a | Inl e \<Rightarrow> a
      else a)"

lemma unmarshall_response:
  "count_params descs = Inr n \<Longrightarrow> marshall_outputs (take n descs) hs = Inr ps \<Longrightarrow> length args = n \<Longrightarrow>
    (\<And>i. i < n \<Longrightarrow> desc_output (descs ! i) \<Longrightarrow> unat (desc_length (descs ! i)) \<le> length (args ! i)) \<Longrightarrow>
    unmarshall_outputs descs ps args
      = Inr (map (\<lambda>(d, h, a). client_value d h a) (zip (take n descs) (zip hs args)))"
proof (induction descs arbitrary: n hs ps args)
  case Nil
  then show ?case by simp
next
  case (Cons d ds)
  show ?case
  proof (cases "desc_input d \<or> desc_output d")
    case False
    then show ?thesis using Cons.prems by simp
  next
    case True
    with Cons.prems(1) obtain k where k: "count_params ds = Inr k" "n = Suc k" by (auto simp: res_simps)
    with Cons.prems obtain h hs' a args' where hs: "hs = h # hs'" and args: "args = a # args'"
      by (cases hs; cases args) auto
    have lens: "\<And>i. i < k \<Longrightarrow> desc_output (ds ! i) \<Longrightarrow> unat (desc_length (ds ! i)) \<le> length (args' ! i)"
      using Cons.prems(4) k(2) args by (metis Suc_less_eq nth_Cons_Suc)
    have la: "desc_output d \<Longrightarrow> unat (desc_length d) \<le> length a"
      using Cons.prems(4) [of 0] k(2) args by simp
    from Cons.prems(2) obtain bs where bs: "arg_bytes d h = Inr bs"
      by (auto simp: k(2) hs res_simps)
    show ?thesis
    proof (cases "desc_output d")
      case out: True
      with Cons.prems(2) bs obtain qs where qs: "marshall_outputs (take k ds) hs' = Inr qs"
        "unat (desc_length d) \<le> length bs" "ps = take (unat (desc_length d)) bs @ qs"
        by (auto simp: k(2) hs res_simps not_less split: if_splits)
      have "unmarshall_outputs ds qs args' = Inr (map (\<lambda>(d, h, a). client_value d h a) (zip (take k ds) (zip hs' args')))"
        using Cons.IH [OF k(1) qs(1) _ lens] Cons.prems(3) args k(2) by simp
      with out qs la bs show ?thesis by (simp add: k(2) hs args client_value_def Let_def not_less)
    next
      case no: False
      with Cons.prems(2) bs have qs: "marshall_outputs (take k ds) hs' = Inr ps"
        by (simp add: k(2) hs)
      have "unmarshall_outputs ds ps args' = Inr (map (\<lambda>(d, h, a). client_value d h a) (zip (take k ds) (zip hs' args')))"
        using Cons.IH [OF k(1) qs _ lens] Cons.prems(3) args k(2) by simp
      with no True show ?thesis by (simp add: k(2) hs args client_value_def)
    qed
  qed
qed

subsection \<open>For the drivers\<close>

text \<open>The variables of a host function after unmarshalling; their types fix how many bytes fit.\<close>

fun val32 :: "rpc_val \<Rightarrow> u32 res" where
  "val32 (Scalar bs) = (if length bs = 4 then Inr (of_le32 bs) else Inl OutOfBounds)"
| "val32 v = Inl BadVarArg"

fun val8 :: "rpc_val \<Rightarrow> u8 res" where
  "val8 (Scalar bs) = (if length bs = 1 then Inr (hd bs) else Inl OutOfBounds)"
| "val8 v = Inl BadVarArg"

text \<open>The bytes a pointer parameter points to; NULL and the marker point to none.\<close>

fun val_buf :: "rpc_val \<Rightarrow> u8 list res" where
  "val_buf (InPtr bs) = Inr bs"
| "val_buf NullPtr = Inr []"
| "val_buf NotNull = Inr []"
| "val_buf v = Inl BadVarArg"

definition arg_at :: "(rpc_val \<Rightarrow> 'a res) \<Rightarrow> rpc_val list \<Rightarrow> nat \<Rightarrow> 'a res" where
  "arg_at conv vs i = (if i < length vs then conv (vs ! i) else Inl BadVarArg)"

text \<open>\<open>rpc_response_marshall\<close> at the end of a host function.\<close>

definition rpc_reply :: "rpc_msg \<Rightarrow> host_arg list \<Rightarrow> 's \<Rightarrow> (u8 list \<times> 's) res" where
  "rpc_reply m args s = rbind (rpc_response_marshall_va m args) (\<lambda>resp. Inr (resp, s))"

text \<open>One turn of the host task; \<open>switch_fcode\<close> is its dispatch on the function code.\<close>

definition rpc_host_turn ::
  "(rpc_msg \<Rightarrow> 's \<Rightarrow> (u8 list \<times> 's) res) \<Rightarrow> u8 list \<Rightarrow> 's \<Rightarrow> (u8 list \<times> 's) res" where
  "rpc_host_turn switch_fcode req_msg s = rbind (rpc_request_parse req_msg) (\<lambda>m. switch_fcode m s)"

text \<open>What a client knows of its host (\<open>rtos_driver_rpc_t\<close>).\<close>

record rpc_client =
  host_port :: int
  host_ctx_ptr :: u32

lemma client_call_turn:
  assumes "count_params descs = Inr n" "n < 2 ^ 30" and "marshall_inputs (take n descs) args = Inr ps"
  shows "rpc_client_call_generic (rpc_host_turn turn) fcode descs args s =
    rbind (turn \<lparr>rpc_fcode = fcode, param_count = n, param_desc = take n descs, params = ps\<rparr> s) (\<lambda>(resp_msg, s).
     rbind (c_assert (resp_msg \<noteq> [])) (\<lambda>_.
     rbind (rpc_response_parse resp_msg) (\<lambda>(f, ps).
     rbind (c_assert (f = fcode)) (\<lambda>_.
     rbind (unmarshall_outputs descs ps args) (\<lambda>args. Inr (args, s))))))"
proof -
  have "rpc_host_turn turn = (\<lambda>req s. rbind (rpc_request_parse req) (\<lambda>m. turn m s))"
    by (simp add: rpc_host_turn_def fun_eq_iff)
  then show ?thesis using client_call_host [OF assms] by simp
qed

lemma response_parse_reply [simp]:
  "rpc_response_parse (le32 f @ ps) = Inr (f, ps)"  "rpc_response_parse (le32 f) = Inr (f, [])"
  by (simp_all add: rpc_response_parse_def of_le32_le32_append)

lemma rbind_case_prod: "rbind (case p of (a, b) \<Rightarrow> f a b) g = (case p of (a, b) \<Rightarrow> rbind (f a b) g)"
  by (cases p) simp

lemma rbind_pair_Inr: "rbind m (\<lambda>(a, b). Inr (a, b)) = m" "rbind m (\<lambda>(a, b, c). Inr (a, b, c)) = m"
  by (cases m; auto)+

lemma splice_whole: "length xs = length ys \<Longrightarrow> splice 0 xs ys = xs"
  by (simp add: splice_def)

lemma le32_not_Nil [simp]: "le32 w \<noteq> []" "le32 w @ bs \<noteq> []"
  by (simp_all add: le32_def)

lemma unat_ucast_24: "unat (n :: u32) < 2 ^ 24 \<Longrightarrow> unat (ucast n :: 24 word) = unat n"
  by (simp add: unsigned_ucast_eq take_bit_nat_eq_self)

lemmas rpc_eval = rpc_params rpc_request_unmarshall_va_def rpc_response_marshall_va_def rpc_reply_def
  arg_at_def Let_def rbind_assoc rbind_case_prod rbind_pair_Inr splice_whole client_call_turn

section \<open>Properties\<close>

text \<open>The memory of an argument holds what its descriptor says, and a reply fits its descriptor.\<close>

definition arg_room :: "rpc_param_desc \<Rightarrow> u8 list \<Rightarrow> bool" where
  "arg_room d a \<longleftrightarrow> unat (desc_length d) \<le> length a"

definition reply_fits :: "rpc_param_desc \<Rightarrow> host_arg \<Rightarrow> bool" where
  "reply_fits d h \<longleftrightarrow> (case arg_bytes d h of Inr bs \<Rightarrow> unat (desc_length d) \<le> length bs | Inl e \<Rightarrow> False)"

lemma marshall_inputs_room: "list_all2 arg_room ds args \<Longrightarrow> \<exists>ps. marshall_inputs ds args = Inr ps"
proof (induction ds args rule: list_all2_induct)
  case (Cons d ds a args)
  then show ?case by (auto simp: arg_room_def)
qed simp

lemma marshall_outputs_fit: "list_all2 reply_fits ds hs \<Longrightarrow> \<exists>ps. marshall_outputs ds hs = Inr ps"
proof (induction ds hs rule: list_all2_induct)
  case (Cons d ds h hs)
  then show ?case by (auto simp: reply_fits_def not_less split: sum.splits)
qed simp

text \<open>A host function: it unmarshals its arguments, runs \<open>body\<close> on them and answers.\<close>

definition rpc_function ::
  "(rpc_val list \<Rightarrow> 's \<Rightarrow> (host_arg list \<times> 's) res) \<Rightarrow> rpc_msg \<Rightarrow> 's \<Rightarrow> (u8 list \<times> 's) res" where
  "rpc_function body m s =
     rbind (rpc_request_unmarshall_va m) (\<lambda>vs. rbind (body vs s) (\<lambda>(hs, s). rpc_reply m hs s))"

text \<open>
  C4: A remote call is a call: for every list of parameter descriptors, the function on the
  host sees the values of the client's arguments (scalars by value, input buffers by content,
  an empty buffer as NULL), and when the call returns, the client's memory holds the outputs of
  the function and is otherwise unchanged. Nothing is assumed of the descriptors but that the
  memory of each argument is as long as its descriptor says and that the replies fit theirs.
\<close>

theorem rpc_call_round_trip:
  assumes n: "count_params descs = Inr n" "n < 2 ^ 30"
    and room: "list_all2 arg_room (take n descs) args"
    and body: "body (map2 host_value (take n descs) args) s = Inr (hs, s')"
    and fits: "list_all2 reply_fits (take n descs) hs"
  shows "rpc_client_call_generic (rpc_host_turn (rpc_function body)) fcode descs args s
    = Inr (map (\<lambda>(d, h, a). client_value d h a) (zip (take n descs) (zip hs args)), s')"
proof -
  obtain ps where ps: "marshall_inputs (take n descs) args = Inr ps" using marshall_inputs_room [OF room] ..
  obtain qs where qs: "marshall_outputs (take n descs) hs = Inr qs" using marshall_outputs_fit [OF fits] ..
  have len: "length args = n" using list_all2_lengthD [OF room] count_params_take [OF n(1)] by simp
  have mem: "unat (desc_length (descs ! i)) \<le> length (args ! i)" if "i < n" for i
    using list_all2_nthD2 [OF room, of i] that len by (simp add: arg_room_def)
  show ?thesis
    using unmarshall_marshall [OF ps] unmarshall_response [OF n(1) qs len mem] body qs
    by (simp add: client_call_turn [OF n ps] rpc_function_def rpc_reply_def rpc_response_marshall_va_def
        rpc_request_unmarshall_va_def)
qed

text \<open>A function that adds a byte to a word and to every element of a buffer.\<close>

definition example_descs :: "rpc_param_desc list" where
  "example_descs = [RPC_PARAM_TYPE 1, RPC_PARAM_INOUT_BUFFER 1 3, RPC_PARAM_RETURN 4, RPC_PARAM_LIST_END]"

definition example_body :: "rpc_val list \<Rightarrow> nat \<Rightarrow> (host_arg list \<times> nat) res" where
  "example_body vs calls =
     rbind (arg_at val8 vs 0) (\<lambda>k. rbind (arg_at val_buf vs 1) (\<lambda>b.
       Inr ([Arg32 (ucast k), ArgPtr (map (\<lambda>x. x + k) b), Arg32 (of_nat (length b))], Suc calls)))"

theorem rpc_call_round_trip_witness:
  "rpc_client_call_generic (rpc_host_turn (rpc_function example_body)) 9 example_descs
     [[5], [1, 2, 3], [0, 0, 0, 0]] 0 = Inr ([[5], [6, 7, 8], [3, 0, 0, 0]], 1)"
proof -
  have "rpc_client_call_generic (rpc_host_turn (rpc_function example_body)) 9 example_descs [[5], [1, 2, 3], [0, 0, 0, 0]] 0
    = Inr (map (\<lambda>(d, h, a). client_value d h a) (zip (take 3 example_descs)
        (zip [Arg32 5, ArgPtr [6, 7, 8], Arg32 3] [[5], [1, 2, 3], [0, 0, 0, 0]])), 1)"
  proof (rule rpc_call_round_trip)
    show "count_params example_descs = Inr 3" by code_simp
    show "list_all2 arg_room (take 3 example_descs) [[5], [1, 2, 3], [0, 0, 0, 0]]" by code_simp
    show "example_body (map2 host_value (take 3 example_descs) [[5], [1, 2, 3], [0, 0, 0, 0]]) 0
        = Inr ([Arg32 5, ArgPtr [6, 7, 8], Arg32 3], 1)" by code_simp
    show "list_all2 reply_fits (take 3 example_descs) [Arg32 5, ArgPtr [6, 7, 8], Arg32 3]" by code_simp
  qed simp
  then show ?thesis by (simp only:) code_simp
qed

end
