(* ===== verification/Gpio_Rpc.thy ===== *)
theory Gpio_Rpc
  imports Rpc
begin

text \<open>
  The remote half of the GPIO driver, modules/rtos/drivers/gpio/rtos_gpio_rpc.c: the stubs on
  the client tile, the functions that run for them on the host tile, and the forwarding of
  port interrupts. The driver's functions on the host (which drive the ports) are the
  parameters of the model, collected in \<open>gpio_api\<close>; \<open>'s\<close> is their state. The
  mutex around every stub serialises the callers; the model is of one call.
\<close>

section \<open>State\<close>

text \<open>The first argument is the driver instance, a pointer on the host.\<close>

record 's gpio_api =
  api_port_enable :: "u32 \<Rightarrow> u32 \<Rightarrow> 's \<Rightarrow> 's res"
  api_port_in :: "u32 \<Rightarrow> u32 \<Rightarrow> 's \<Rightarrow> (u32 \<times> 's) res"
  api_port_out :: "u32 \<Rightarrow> u32 \<Rightarrow> u32 \<Rightarrow> 's \<Rightarrow> 's res"
  api_write_control_word :: "u32 \<Rightarrow> u32 \<Rightarrow> u32 \<Rightarrow> 's \<Rightarrow> 's res"
  api_isr_callback_set :: "u32 \<Rightarrow> u32 \<Rightarrow> u32 \<Rightarrow> 's \<Rightarrow> 's res"
  api_interrupt_enable :: "u32 \<Rightarrow> u32 \<Rightarrow> 's \<Rightarrow> 's res"
  api_interrupt_disable :: "u32 \<Rightarrow> u32 \<Rightarrow> 's \<Rightarrow> 's res"

text \<open>
  The client instance: how it reaches its host, its end of the interrupt channel, and the
  callbacks that are set, by port.
\<close>

record 'cb gpio_client = rpc_client +
  host_rpc_interrupt_c :: u32
  isr_info :: "u32 \<Rightarrow> 'cb option"

definition gpio_fcode_port_enable :: u32 where "gpio_fcode_port_enable = 0"
definition gpio_fcode_port_in :: u32 where "gpio_fcode_port_in = 1"
definition gpio_fcode_port_out :: u32 where "gpio_fcode_port_out = 2"
definition gpio_fcode_port_write_control_word :: u32 where "gpio_fcode_port_write_control_word = 3"
definition gpio_fcode_isr_callback_set :: u32 where "gpio_fcode_isr_callback_set = 4"
definition gpio_fcode_interrupt_enable :: u32 where "gpio_fcode_interrupt_enable = 5"
definition gpio_fcode_interrupt_disable :: u32 where "gpio_fcode_interrupt_disable = 6"

lemmas gpio_fcodes = gpio_fcode_port_enable_def gpio_fcode_port_in_def gpio_fcode_port_out_def gpio_fcode_port_write_control_word_def gpio_fcode_isr_callback_set_def gpio_fcode_interrupt_enable_def gpio_fcode_interrupt_disable_def

section \<open>The client\<close>

type_synonym 's rpc_host = "u8 list \<Rightarrow> 's \<Rightarrow> (u8 list \<times> 's) res"

definition gpio_remote_port_enable :: "'s rpc_host \<Rightarrow> 'cb gpio_client \<Rightarrow> u32 \<Rightarrow> 's \<Rightarrow> 's res" where
  "gpio_remote_port_enable host c port_id s =
     rbind (c_assert (0 \<le> host_port c)) (\<lambda>_.
     rbind (rpc_client_call_generic host gpio_fcode_port_enable
         [RPC_PARAM_TYPE 4, RPC_PARAM_TYPE 4, RPC_PARAM_LIST_END]
         [le32 (host_ctx_ptr c), le32 port_id] s) (\<lambda>(args, s). Inr s))"

text \<open>\<open>ret\<close> is what the variable for the result holds before the call.\<close>

definition gpio_remote_port_in :: "'s rpc_host \<Rightarrow> u32 \<Rightarrow> 'cb gpio_client \<Rightarrow> u32 \<Rightarrow> 's \<Rightarrow> (u32 \<times> 's) res" where
  "gpio_remote_port_in host ret c port_id s =
     rbind (c_assert (0 \<le> host_port c)) (\<lambda>_.
     rbind (rpc_client_call_generic host gpio_fcode_port_in
         [RPC_PARAM_TYPE 4, RPC_PARAM_TYPE 4, RPC_PARAM_RETURN 4, RPC_PARAM_LIST_END]
         [le32 (host_ctx_ptr c), le32 port_id, le32 ret] s) (\<lambda>(args, s). Inr (of_le32 (args ! 2), s)))"

definition gpio_remote_port_out :: "'s rpc_host \<Rightarrow> 'cb gpio_client \<Rightarrow> u32 \<Rightarrow> u32 \<Rightarrow> 's \<Rightarrow> 's res" where
  "gpio_remote_port_out host c port_id value s =
     rbind (c_assert (0 \<le> host_port c)) (\<lambda>_.
     rbind (rpc_client_call_generic host gpio_fcode_port_out
         [RPC_PARAM_TYPE 4, RPC_PARAM_TYPE 4, RPC_PARAM_TYPE 4, RPC_PARAM_LIST_END]
         [le32 (host_ctx_ptr c), le32 port_id, le32 value] s) (\<lambda>(args, s). Inr s))"

definition gpio_remote_port_write_control_word :: "'s rpc_host \<Rightarrow> 'cb gpio_client \<Rightarrow> u32 \<Rightarrow> u32 \<Rightarrow> 's \<Rightarrow> 's res" where
  "gpio_remote_port_write_control_word host c port_id value s =
     rbind (c_assert (0 \<le> host_port c)) (\<lambda>_.
     rbind (rpc_client_call_generic host gpio_fcode_port_write_control_word
         [RPC_PARAM_TYPE 4, RPC_PARAM_TYPE 4, RPC_PARAM_TYPE 4, RPC_PARAM_LIST_END]
         [le32 (host_ctx_ptr c), le32 port_id, le32 value] s) (\<lambda>(args, s). Inr s))"

text \<open>The callback stays on the client; the host is told where to send the interrupts of the port.\<close>

definition gpio_remote_isr_callback_set ::
  "'s rpc_host \<Rightarrow> 'cb gpio_client \<Rightarrow> u32 \<Rightarrow> 'cb \<Rightarrow> 's \<Rightarrow> ('cb gpio_client \<times> 's) res" where
  "gpio_remote_isr_callback_set host c port_id cb s =
     rbind (c_assert (0 \<le> host_port c)) (\<lambda>_.
       let c = c\<lparr>isr_info := (isr_info c)(port_id := Some cb)\<rparr>
       in rbind (rpc_client_call_generic host gpio_fcode_isr_callback_set
            [RPC_PARAM_TYPE 4, RPC_PARAM_TYPE 4, RPC_PARAM_TYPE 4, RPC_PARAM_LIST_END]
            [le32 (host_ctx_ptr c), le32 port_id, le32 (host_rpc_interrupt_c c)] s) (\<lambda>(args, s). Inr (c, s)))"

definition gpio_remote_interrupt_enable :: "'s rpc_host \<Rightarrow> 'cb gpio_client \<Rightarrow> u32 \<Rightarrow> 's \<Rightarrow> 's res" where
  "gpio_remote_interrupt_enable host c port_id s =
     rbind (c_assert (0 \<le> host_port c)) (\<lambda>_.
     rbind (rpc_client_call_generic host gpio_fcode_interrupt_enable
         [RPC_PARAM_TYPE 4, RPC_PARAM_TYPE 4, RPC_PARAM_LIST_END]
         [le32 (host_ctx_ptr c), le32 port_id] s) (\<lambda>(args, s). Inr s))"

definition gpio_remote_interrupt_disable :: "'s rpc_host \<Rightarrow> 'cb gpio_client \<Rightarrow> u32 \<Rightarrow> 's \<Rightarrow> 's res" where
  "gpio_remote_interrupt_disable host c port_id s =
     rbind (c_assert (0 \<le> host_port c)) (\<lambda>_.
     rbind (rpc_client_call_generic host gpio_fcode_interrupt_disable
         [RPC_PARAM_TYPE 4, RPC_PARAM_TYPE 4, RPC_PARAM_LIST_END]
         [le32 (host_ctx_ptr c), le32 port_id] s) (\<lambda>(args, s). Inr s))"

section \<open>The host\<close>

definition gpio_port_enable_rpc_host :: "'s gpio_api \<Rightarrow> rpc_msg \<Rightarrow> 's \<Rightarrow> (u8 list \<times> 's) res" where
  "gpio_port_enable_rpc_host api m s =
     rbind (rpc_request_unmarshall_va m) (\<lambda>vs.
     rbind (arg_at val32 vs 0) (\<lambda>ctx.
     rbind (arg_at val32 vs 1) (\<lambda>port_id.
     rbind (api_port_enable api ctx port_id s) (\<lambda>s.
       rpc_reply m [Arg32 ctx, Arg32 port_id] s))))"

definition gpio_port_in_rpc_host :: "'s gpio_api \<Rightarrow> rpc_msg \<Rightarrow> 's \<Rightarrow> (u8 list \<times> 's) res" where
  "gpio_port_in_rpc_host api m s =
     rbind (rpc_request_unmarshall_va m) (\<lambda>vs.
     rbind (arg_at val32 vs 0) (\<lambda>ctx.
     rbind (arg_at val32 vs 1) (\<lambda>port_id.
     rbind (api_port_in api ctx port_id s) (\<lambda>(ret, s).
       rpc_reply m [Arg32 ctx, Arg32 port_id, Arg32 ret] s))))"

definition gpio_port_out_rpc_host :: "'s gpio_api \<Rightarrow> rpc_msg \<Rightarrow> 's \<Rightarrow> (u8 list \<times> 's) res" where
  "gpio_port_out_rpc_host api m s =
     rbind (rpc_request_unmarshall_va m) (\<lambda>vs.
     rbind (arg_at val32 vs 0) (\<lambda>ctx.
     rbind (arg_at val32 vs 1) (\<lambda>port_id.
     rbind (arg_at val32 vs 2) (\<lambda>value.
     rbind (api_port_out api ctx port_id value s) (\<lambda>s.
       rpc_reply m [Arg32 ctx, Arg32 port_id, Arg32 value] s)))))"

definition gpio_port_write_control_word_rpc_host :: "'s gpio_api \<Rightarrow> rpc_msg \<Rightarrow> 's \<Rightarrow> (u8 list \<times> 's) res" where
  "gpio_port_write_control_word_rpc_host api m s =
     rbind (rpc_request_unmarshall_va m) (\<lambda>vs.
     rbind (arg_at val32 vs 0) (\<lambda>ctx.
     rbind (arg_at val32 vs 1) (\<lambda>port_id.
     rbind (arg_at val32 vs 2) (\<lambda>value.
     rbind (api_write_control_word api ctx port_id value s) (\<lambda>s.
       rpc_reply m [Arg32 ctx, Arg32 port_id, Arg32 value] s)))))"

text \<open>The callback set on the host is \<open>rtos_gpio_rpc_host_isr\<close>, with the channel as its data.\<close>

definition gpio_isr_callback_set_rpc_host :: "'s gpio_api \<Rightarrow> rpc_msg \<Rightarrow> 's \<Rightarrow> (u8 list \<times> 's) res" where
  "gpio_isr_callback_set_rpc_host api m s =
     rbind (rpc_request_unmarshall_va m) (\<lambda>vs.
     rbind (arg_at val32 vs 0) (\<lambda>ctx.
     rbind (arg_at val32 vs 1) (\<lambda>port_id.
     rbind (arg_at val32 vs 2) (\<lambda>rpc_interrupt_c.
     rbind (api_isr_callback_set api ctx port_id rpc_interrupt_c s) (\<lambda>s.
       rpc_reply m [Arg32 ctx, Arg32 port_id, Arg32 rpc_interrupt_c] s)))))"

definition gpio_interrupt_enable_rpc_host :: "'s gpio_api \<Rightarrow> rpc_msg \<Rightarrow> 's \<Rightarrow> (u8 list \<times> 's) res" where
  "gpio_interrupt_enable_rpc_host api m s =
     rbind (rpc_request_unmarshall_va m) (\<lambda>vs.
     rbind (arg_at val32 vs 0) (\<lambda>ctx.
     rbind (arg_at val32 vs 1) (\<lambda>port_id.
     rbind (api_interrupt_enable api ctx port_id s) (\<lambda>s.
       rpc_reply m [Arg32 ctx, Arg32 port_id] s))))"

definition gpio_interrupt_disable_rpc_host :: "'s gpio_api \<Rightarrow> rpc_msg \<Rightarrow> 's \<Rightarrow> (u8 list \<times> 's) res" where
  "gpio_interrupt_disable_rpc_host api m s =
     rbind (rpc_request_unmarshall_va m) (\<lambda>vs.
     rbind (arg_at val32 vs 0) (\<lambda>ctx.
     rbind (arg_at val32 vs 1) (\<lambda>port_id.
     rbind (api_interrupt_disable api ctx port_id s) (\<lambda>s.
       rpc_reply m [Arg32 ctx, Arg32 port_id] s))))"

text \<open>An unknown code leaves the message of the last turn, which has been freed, as the response.\<close>

definition gpio_rpc_switch :: "'s gpio_api \<Rightarrow> rpc_msg \<Rightarrow> 's \<Rightarrow> (u8 list \<times> 's) res" where
  "gpio_rpc_switch api m s =
     (if rpc_fcode m = gpio_fcode_port_enable then gpio_port_enable_rpc_host api m s
      else if rpc_fcode m = gpio_fcode_port_in then gpio_port_in_rpc_host api m s
      else if rpc_fcode m = gpio_fcode_port_out then gpio_port_out_rpc_host api m s
      else if rpc_fcode m = gpio_fcode_port_write_control_word then gpio_port_write_control_word_rpc_host api m s
      else if rpc_fcode m = gpio_fcode_isr_callback_set then gpio_isr_callback_set_rpc_host api m s
      else if rpc_fcode m = gpio_fcode_interrupt_enable then gpio_interrupt_enable_rpc_host api m s
      else if rpc_fcode m = gpio_fcode_interrupt_disable then gpio_interrupt_disable_rpc_host api m s
      else Inl OutOfBounds)"

definition gpio_rpc_thread :: "'s gpio_api \<Rightarrow> u8 list \<Rightarrow> 's \<Rightarrow> (u8 list \<times> 's) res" where
  "gpio_rpc_thread api = rpc_host_turn (gpio_rpc_switch api)"

section \<open>Interrupts\<close>

text \<open>What the host sends through the channel, and what the client does with it.\<close>

definition rtos_gpio_rpc_host_isr :: "u32 \<Rightarrow> u32 \<Rightarrow> u8 \<times> u32" where
  "rtos_gpio_rpc_host_isr port_id value = (ucast port_id, value)"

definition rtos_gpio_rpc_client_isr :: "u8 \<times> u32 \<Rightarrow> 'cb gpio_client \<Rightarrow> ('cb \<times> u32 \<times> u32) res" where
  "rtos_gpio_rpc_client_isr tokens c =
     (let port_id = ucast (fst tokens); value = snd tokens
      in case isr_info c port_id of None \<Rightarrow> Inl NullDeref | Some cb \<Rightarrow> Inr (cb, port_id, value))"

section \<open>Properties\<close>

lemmas gpio_defs = gpio_remote_port_enable_def gpio_remote_port_in_def gpio_remote_port_out_def
  gpio_remote_port_write_control_word_def gpio_remote_isr_callback_set_def gpio_remote_interrupt_enable_def
  gpio_remote_interrupt_disable_def gpio_port_enable_rpc_host_def gpio_port_in_rpc_host_def
  gpio_port_out_rpc_host_def gpio_port_write_control_word_rpc_host_def gpio_isr_callback_set_rpc_host_def
  gpio_interrupt_enable_rpc_host_def gpio_interrupt_disable_rpc_host_def gpio_rpc_thread_def gpio_rpc_switch_def gpio_fcodes

text \<open>
  C35: A call through the GPIO driver of a client tile does what the same call does on the
  host tile: for every function, marshalling the request, dispatching it, running the driver's
  function and returning the result amounts to calling that function on the host's driver
  instance with the client's arguments, errors included. Setting a callback moreover records
  the callback on the client.
\<close>

theorem gpio_remote_is_local:
  assumes "0 \<le> host_port c"
  shows "gpio_remote_port_enable (gpio_rpc_thread api) c port_id s = api_port_enable api (host_ctx_ptr c) port_id s
    \<and> gpio_remote_port_in (gpio_rpc_thread api) ret c port_id s = api_port_in api (host_ctx_ptr c) port_id s
    \<and> gpio_remote_port_out (gpio_rpc_thread api) c port_id val s = api_port_out api (host_ctx_ptr c) port_id val s
    \<and> gpio_remote_port_write_control_word (gpio_rpc_thread api) c port_id val s
        = api_write_control_word api (host_ctx_ptr c) port_id val s
    \<and> gpio_remote_isr_callback_set (gpio_rpc_thread api) c port_id cb s
        = rbind (api_isr_callback_set api (host_ctx_ptr c) port_id (host_rpc_interrupt_c c) s)
            (\<lambda>s. Inr (c\<lparr>isr_info := (isr_info c)(port_id := Some cb)\<rparr>, s))
    \<and> gpio_remote_interrupt_enable (gpio_rpc_thread api) c port_id s = api_interrupt_enable api (host_ctx_ptr c) port_id s
    \<and> gpio_remote_interrupt_disable (gpio_rpc_thread api) c port_id s = api_interrupt_disable api (host_ctx_ptr c) port_id s"
  using assms by (simp add: gpio_defs rpc_eval)

text \<open>A host whose ports are a list of words: reading the port \<open>n\<close> gives the \<open>n\<close>-th.\<close>

definition example_gpio_api :: "u32 list gpio_api" where
  "example_gpio_api = \<lparr>api_port_enable = (\<lambda>c p s. Inr s),
     api_port_in = (\<lambda>c p s. if unat p < length s then Inr (s ! unat p, s) else Inl OutOfBounds),
     api_port_out = (\<lambda>c p v s. Inr (s[unat p := v])), api_write_control_word = (\<lambda>c p v s. Inr s),
     api_isr_callback_set = (\<lambda>c p i s. Inr s), api_interrupt_enable = (\<lambda>c p s. Inr s),
     api_interrupt_disable = (\<lambda>c p s. Inr s)\<rparr>"

definition example_gpio_client :: "nat gpio_client" where
  "example_gpio_client = \<lparr>host_port = 5, host_ctx_ptr = 0x80000, host_rpc_interrupt_c = 2, isr_info = (\<lambda>_. None)\<rparr>"

theorem gpio_remote_is_local_witness:
  "gpio_remote_port_in (gpio_rpc_thread example_gpio_api) 0 example_gpio_client 1 [7, 8, 9] = Inr (8, [7, 8, 9])
   \<and> gpio_remote_port_out (gpio_rpc_thread example_gpio_api) example_gpio_client 1 4 [7, 8, 9] = Inr [7, 4, 9]"
  using gpio_remote_is_local [of example_gpio_client example_gpio_api 1 "[7, 8, 9]" 0 4]
  by (simp add: example_gpio_api_def example_gpio_client_def)

text \<open>
  Once a client has set a callback for a port, an interrupt of that port on the host
  calls it on the client with the port and its value, whatever callbacks were set before and
  are set for other ports afterwards; only the low byte of the port travels, so this holds for
  the ports below 256.
\<close>

theorem gpio_interrupt_forwarded:
  assumes "0 \<le> host_port c" and "unat port_id < 256"
    and "gpio_remote_isr_callback_set (gpio_rpc_thread api) c port_id cb s = Inr (c', s')"
  shows "rtos_gpio_rpc_client_isr (rtos_gpio_rpc_host_isr port_id val) c' = Inr (cb, port_id, val)
    \<and> (\<forall>p. p \<noteq> port_id \<longrightarrow> isr_info c' p = isr_info c p)"
proof -
  have byte: "ucast (ucast port_id :: u8) = port_id"
    using assms(2) by (simp add: word_unat_eq_iff unsigned_ucast_eq unsigned_take_bit_eq take_bit_nat_eq_self)
  have "c' = c\<lparr>isr_info := (isr_info c)(port_id := Some cb)\<rparr>"
    using assms(1,3) by (auto simp: gpio_defs rpc_eval res_simps)
  then show ?thesis
    by (simp add: rtos_gpio_rpc_client_isr_def rtos_gpio_rpc_host_isr_def byte)
qed

theorem gpio_interrupt_forwarded_witness:
  "rtos_gpio_rpc_client_isr (rtos_gpio_rpc_host_isr 3 1) (example_gpio_client\<lparr>isr_info := (\<lambda>_. None)(3 := Some 42)\<rparr>)
    = Inr (42, 3, 1)"
proof -
  have "gpio_remote_isr_callback_set (gpio_rpc_thread example_gpio_api) example_gpio_client 3 42 []
      = Inr (example_gpio_client\<lparr>isr_info := (\<lambda>_. None)(3 := Some 42)\<rparr>, [])"
    by (simp add: gpio_defs rpc_eval example_gpio_client_def example_gpio_api_def)
  from gpio_interrupt_forwarded [OF _ _ this, of 1] show ?thesis by (simp add: example_gpio_client_def)
qed

end
