(* ===== verification/Qspi_Flash.thy ===== *)
theory Qspi_Flash
  imports Prelude
begin

text \<open>
  The QSPI flash driver, modules/rtos/drivers/qspi_flash/rtos_qspi_flash.c: reading in chunks,
  writing page by page, erasing with the largest sectors that fit, and the task that carries the
  requests out. The driver's commands to the chip are a list; \<open>nor_exec\<close> is the chip they
  are sent to, as its data sheet describes it, and the specification the driver is checked against.
\<close>

section \<open>The chip\<close>

datatype flash_cmd =
    Write_Enable
  | Page_Program u32 "u8 list"
  | Erase_Sector u32 nat
  | Erase_Chip

text \<open>
  A page program or an erase needs the write-enable latch and clears it. Programming can only
  clear bits, and stays in the page of its address: it wraps around at the end. An erase sets
  all bytes of the sector, of \<open>2 ^ l\<close> bytes, that contains the address.
\<close>

type_synonym nor = "(nat \<Rightarrow> u8) \<times> bool"

definition nor_program :: "nat \<Rightarrow> nat \<Rightarrow> u8 list \<Rightarrow> (nat \<Rightarrow> u8) \<Rightarrow> nat \<Rightarrow> u8" where
  "nor_program psz a bs m x =
     (let k = (x mod psz + psz - a mod psz) mod psz
      in if x div psz = a div psz \<and> k < length bs then m x AND bs ! k else m x)"

fun nor_step :: "nat \<Rightarrow> flash_cmd \<Rightarrow> nor \<Rightarrow> nor" where
  "nor_step psz Write_Enable (m, wel) = (m, True)"
| "nor_step psz (Page_Program a bs) (m, wel) = ((if wel then nor_program psz (unat a) bs m else m), False)"
| "nor_step psz (Erase_Sector a l) (m, wel) =
     ((if wel then (\<lambda>x. if x div 2 ^ l = unat a div 2 ^ l then 0xFF else m x) else m), False)"
| "nor_step psz Erase_Chip (m, wel) = ((if wel then (\<lambda>x. 0xFF) else m), False)"

definition nor_exec :: "nat \<Rightarrow> flash_cmd list \<Rightarrow> nor \<Rightarrow> nor" where
  "nor_exec psz cs s = fold (nor_step psz) cs s"

definition nor_read :: "(nat \<Rightarrow> u8) \<Rightarrow> u32 \<Rightarrow> u32 \<Rightarrow> u8 list" where
  "nor_read m a n = map (\<lambda>i. m (unat a + i)) [0 ..< unat n]"

section \<open>The driver\<close>

definition RTOS_QSPI_FLASH_READ_CHUNK_SIZE :: u32 where
  "RTOS_QSPI_FLASH_READ_CHUNK_SIZE = 24 * 1024"

record qspi =
  flash_size :: u32
  page_size_bytes :: u32
  erase_size_log2 :: "nat \<Rightarrow> nat"

text \<open>
  \<open>read_op\<close>: \<open>data\<close> is the caller's buffer, \<open>off\<close> how far the pointer into it
  has advanced. The loop may not end.
\<close>

partial_function (option) read_loop :: "(nat \<Rightarrow> u8) \<Rightarrow> u32 \<Rightarrow> u8 list \<Rightarrow> nat \<Rightarrow> u32 \<Rightarrow> u32 \<Rightarrow> u8 list option" where
  "read_loop m fsz data off address len =
     (if len = 0 then Some data
      else let original_len = min len RTOS_QSPI_FLASH_READ_CHUNK_SIZE;
               address = (if fsz \<le> address then fsz else address);
               beyond = (fsz < address + original_len);
               read_len = (if beyond then fsz - address else original_len);
               data = (if beyond
                       then splice (off + unat read_len) (replicate (unat (original_len - read_len)) 0xFF) data
                       else data);
               data = splice off (nor_read m address read_len) data
           in read_loop m fsz data (off + unat read_len) (address + read_len) (len - read_len))"

definition read_op :: "(nat \<Rightarrow> u8) \<Rightarrow> qspi \<Rightarrow> u8 list \<Rightarrow> u32 \<Rightarrow> u32 \<Rightarrow> u8 list option" where
  "read_op m ctx data address len = read_loop m (flash_size ctx) data 0 address len"

text \<open>\<open>write_op\<close>: one page program at a time, up to the end of the page.\<close>

definition write_chunk :: "u32 \<Rightarrow> u32 \<Rightarrow> nat \<Rightarrow> nat" where
  "write_chunk psz address bytes_left =
     (let max_bytes = unat (psz - (address AND (psz - 1))) in if bytes_left \<le> max_bytes then bytes_left else max_bytes)"

partial_function (option) write_loop :: "u32 \<Rightarrow> u32 \<Rightarrow> u8 list \<Rightarrow> u32 \<Rightarrow> flash_cmd list option" where
  "write_loop fsz psz write_buf address =
     (if write_buf = [] \<or> fsz \<le> address then Some []
      else do { cs \<leftarrow> write_loop fsz psz (drop (write_chunk psz address (length write_buf)) write_buf)
                        (address + of_nat (write_chunk psz address (length write_buf)));
                Some (Write_Enable # Page_Program address (take (write_chunk psz address (length write_buf)) write_buf) # cs) })"

definition write_op :: "qspi \<Rightarrow> u8 list \<Rightarrow> u32 \<Rightarrow> flash_cmd list option" where
  "write_op ctx data address = write_loop (flash_size ctx) (page_size_bytes ctx) data address"

text \<open>\<open>SECTOR_TO_BYTE_ADDRESS (BYTE_TO_SECTOR_ADDRESS (b, l), l)\<close>.\<close>

definition sector_start :: "nat \<Rightarrow> u32 \<Rightarrow> u32" where
  "sector_start l b = push_bit l (drop_bit l b)"

text \<open>The largest of the sector types 4 to 2 that starts at the address and is wholly to be erased, else type 1.\<close>

fun erase_pick :: "(nat \<Rightarrow> nat) \<Rightarrow> u32 \<Rightarrow> u32 \<Rightarrow> nat list \<Rightarrow> nat" where
  "erase_pick lg address bytes_left [] = 0"
| "erase_pick lg address bytes_left (i # is) =
     (if lg i \<noteq> 0 \<and> sector_start (lg i) address = address \<and> push_bit (lg i) 1 \<le> bytes_left then i
      else erase_pick lg address bytes_left is)"

partial_function (option) erase_loop :: "u32 \<Rightarrow> (nat \<Rightarrow> nat) \<Rightarrow> u32 \<Rightarrow> u32 \<Rightarrow> flash_cmd list res option" where
  "erase_loop fsz lg address bytes_left =
     (if bytes_left = 0 \<or> fsz \<le> address then Some (Inr [])
      else if sector_start (lg (erase_pick lg address bytes_left [3, 2, 1])) address \<noteq> address then Some (Inl AssertFail)
      else do { r \<leftarrow> erase_loop fsz lg (address + push_bit (lg (erase_pick lg address bytes_left [3, 2, 1])) 1)
                       (bytes_left - (if push_bit (lg (erase_pick lg address bytes_left [3, 2, 1])) 1 < bytes_left
                                      then push_bit (lg (erase_pick lg address bytes_left [3, 2, 1])) 1 else bytes_left));
                Some (rbind r (\<lambda>cs. Inr (Write_Enable # Erase_Sector address (lg (erase_pick lg address bytes_left [3, 2, 1])) # cs))) })"

definition erase_op :: "qspi \<Rightarrow> u32 \<Rightarrow> u32 \<Rightarrow> flash_cmd list res option" where
  "erase_op ctx address len =
     (if address = 0 \<and> flash_size ctx \<le> len then Some (Inr [Write_Enable, Erase_Chip])
      else let start = sector_start (erase_size_log2 ctx 0) address
           in if start \<noteq> address
              then erase_loop (flash_size ctx) (erase_size_log2 ctx) start (len + (address - start))
              else erase_loop (flash_size ctx) (erase_size_log2 ctx) address len)"

section \<open>The task that serves the requests\<close>







text \<open>
  The set-up checks (\<open>rtos_qspi_flash_init\<close>): the size does not wrap, and the page size is
  a power of two. \<open>kbytes\<close>, \<open>psz\<close> and \<open>lg\<close> are what the chip reports.
\<close>

definition rtos_qspi_flash_init :: "u32 \<Rightarrow> u32 \<Rightarrow> (nat \<Rightarrow> nat) \<Rightarrow> qspi res" where
  "rtos_qspi_flash_init kbytes psz lg =
     rbind (c_assert (kbytes < kbytes * 1024)) (\<lambda>_.
     rbind (c_assert (psz \<noteq> 0 \<and> psz AND (psz - 1) = 0)) (\<lambda>_.
       Inr \<lparr>flash_size = kbytes * 1024, page_size_bytes = psz, erase_size_log2 = lg\<rparr>))"

section \<open>Reading\<close>

lemma length_nor_read [simp]: "length (nor_read m a n) = unat n"
  by (simp add: nor_read_def)

lemma unat_add_le: "unat (a :: u32) + unat b \<le> unat (c :: u32) \<Longrightarrow> unat (a + b) = unat a + unat b"
  using unsigned_less [of c, where ?'a = nat] by (simp add: unat_word_ariths(1))

lemma unat_min: "unat (min a b :: u32) = min (unat a) (unat b)"
  by (simp add: min_def word_le_nat_alt)

lemma nor_read_append:
  assumes "unat a + unat n + unat k < 2 ^ 32"
  shows "nor_read m a (n + k) = nor_read m a n @ nor_read m (a + n) k"
proof -
  have "unat (n + k) = unat n + unat k" "unat (a + n) = unat a + unat n"
    using assms by (simp_all add: unat_word_ariths(1))
  then show ?thesis
    by (intro nth_equalityI) (auto simp: nor_read_def nth_append add.assoc)
qed

lemma read_loop_within:
  "unat a + unat l \<le> unat fsz \<Longrightarrow> off + unat l \<le> length data \<Longrightarrow>
    read_loop m fsz data off a l = Some (take off data @ nor_read m a l @ drop (off + unat l) data)"
proof (induction "unat l" arbitrary: l a off data rule: less_induct)
  case less
  show ?case
  proof (cases "l = 0")
    case True
    then show ?thesis by (subst read_loop.simps) (simp add: nor_read_def)
  next
    case False
    let ?n = "min l RTOS_QSPI_FLASH_READ_CHUNK_SIZE"
    have n: "?n \<le> l" "?n \<noteq> 0"
      using False by (simp, simp add: RTOS_QSPI_FLASH_READ_CHUNK_SIZE_def min_def)
    then have un: "unat ?n \<le> unat l" "0 < unat ?n" by (simp_all add: word_le_nat_alt unat_gt_0)
    have l': "unat (l - ?n) = unat l - unat ?n" using n(1) by (rule unat_sub)
    have a': "unat (a + ?n) = unat a + unat ?n" using less(2) un by (intro unat_add_le [of _ _ fsz]) simp
    have "\<not> fsz \<le> a" "\<not> fsz < a + ?n"
      using less(2) un a' by (auto simp: word_le_nat_alt word_less_nat_alt)
    then have "read_loop m fsz data off a l
        = read_loop m fsz (splice off (nor_read m a ?n) data) (off + unat ?n) (a + ?n) (l - ?n)"
      using False by (subst read_loop.simps) (simp add: Let_def)
    also have "\<dots> = Some (take (off + unat ?n) (splice off (nor_read m a ?n) data) @ nor_read m (a + ?n) (l - ?n)
        @ drop (off + unat ?n + unat (l - ?n)) (splice off (nor_read m a ?n) data))"
      using less(2,3) un l' a' by (intro less(1)) simp_all
    also have "take (off + unat ?n) (splice off (nor_read m a ?n) data) = take off data @ nor_read m a ?n"
      using less(3) un take_splice [of off "nor_read m a ?n" data] by simp
    also have "drop (off + unat ?n + unat (l - ?n)) (splice off (nor_read m a ?n) data) = drop (off + unat l) data"
      using less(3) un l' by (simp add: splice_def add.commute)
    also have "(take off data @ nor_read m a ?n) @ nor_read m (a + ?n) (l - ?n) @ drop (off + unat l) data
        = take off data @ nor_read m a l @ drop (off + unat l) data"
      using nor_read_append [of a ?n "l - ?n" m] less(2) un l' unsigned_less [of fsz, where ?'a = nat] by simp
    finally show ?thesis .
  qed
qed

text \<open>
  A read inside the flash returns and fills the caller's buffer with exactly the bytes of
  the flash from the given address on, in however many chunks it is done.
\<close>

theorem flash_read_contents:
  assumes "unat address + unat len \<le> unat (flash_size ctx)" and "length data = unat len"
  shows "read_op m ctx data address len = Some (nor_read m address len)"
  using assms read_loop_within [of address len "flash_size ctx" 0 data m] by (simp add: read_op_def)

theorem flash_read_contents_witness:
  "read_op (\<lambda>x. of_nat x) \<lparr>flash_size = 65536, page_size_bytes = 256, erase_size_log2 = (\<lambda>i. 12)\<rparr>
     (replicate 30000 0) 100 30000 = Some (nor_read (\<lambda>x. of_nat x) 100 30000)"
  by (rule flash_read_contents) simp_all

definition read_inside :: "u32 \<Rightarrow> u32 \<Rightarrow> u32 \<Rightarrow> bool" where
  "read_inside fsz a l \<longleftrightarrow> l = 0 \<or> unat a + unat l \<le> unat fsz"

lemma read_loop_ends:
  assumes size: "unat fsz + 24 * 1024 < 2 ^ 32" and run: "read_loop m fsz data off a l = Some r"
  shows "read_inside fsz a l"
proof -
  have "unat fsz + 24 * 1024 < 2 ^ 32 \<longrightarrow> read_inside fsz a l"
  proof (rule read_loop.raw_induct [OF _ run, where P = "\<lambda>m fsz data off a l r. unat fsz + 24 * 1024 < 2 ^ 32 \<longrightarrow> read_inside fsz a l"])
    fix f :: "(nat \<Rightarrow> u8) \<Rightarrow> u32 \<Rightarrow> u8 list \<Rightarrow> nat \<Rightarrow> u32 \<Rightarrow> u32 \<Rightarrow> u8 list option"
      and m fsz data off a l r
    assume IH: "\<And>m fsz data off a l r. f m fsz data off a l = Some r \<Longrightarrow> unat fsz + 24 * 1024 < 2 ^ 32 \<longrightarrow> read_inside fsz a l"
      and body: "(if l = 0 then Some data
        else let original_len = min l RTOS_QSPI_FLASH_READ_CHUNK_SIZE;
               address = (if fsz \<le> a then fsz else a);
               beyond = (fsz < address + original_len);
               read_len = (if beyond then fsz - address else original_len);
               data = (if beyond
                       then splice (off + unat read_len) (replicate (unat (original_len - read_len)) 0xFF) data
                       else data);
               data = splice off (nor_read m address read_len) data
           in f m fsz data (off + unat read_len) (address + read_len) (l - read_len)) = Some r"
    show "unat fsz + 24 * 1024 < 2 ^ 32 \<longrightarrow> read_inside fsz a l"
    proof (intro impI)
      assume fs: "unat fsz + 24 * 1024 < 2 ^ 32"
      show "read_inside fsz a l"
      proof (cases "l = 0")
        case True
        then show ?thesis by (simp add: read_inside_def)
      next
        case False
        let ?n = "min l RTOS_QSPI_FLASH_READ_CHUNK_SIZE" and ?a = "if fsz \<le> a then fsz else a"
        let ?k = "if fsz < ?a + ?n then fsz - ?a else ?n"
        obtain d where "f m fsz d (off + unat ?k) (?a + ?k) (l - ?k) = Some r"
          using body by (simp only: False if_False Let_def)
        from IH [OF this] fs have ih: "read_inside fsz (?a + ?k) (l - ?k)" by simp
        have n: "?n \<le> l" "?n \<noteq> 0" "unat ?n \<le> 24 * 1024"
          using False by (simp, simp add: RTOS_QSPI_FLASH_READ_CHUNK_SIZE_def min_def,
            simp add: RTOS_QSPI_FLASH_READ_CHUNK_SIZE_def unat_min)
        have un: "unat ?n \<le> unat l" "0 < unat ?n" using n(1,2) by (simp_all add: word_le_nat_alt unat_gt_0)
        have ua: "unat ?a \<le> unat fsz" by (simp add: word_le_nat_alt)
        have sum: "unat (?a + ?n) = unat ?a + unat ?n"
          using ua n(3) fs by (simp add: unat_word_ariths(1))
        show ?thesis
        proof (cases "fsz < ?a + ?n")
          case True
          then have k: "?k = fsz - ?a" by simp
          have uk: "unat (fsz - ?a) = unat fsz - unat ?a" using ua by (intro unat_sub) (simp add: word_le_nat_alt)
          have lt: "unat fsz - unat ?a < unat ?n" using True sum ua by (simp add: word_less_nat_alt)
          have le: "fsz - ?a \<le> l" using uk lt un by (simp add: word_le_nat_alt)
          have "?a + ?k = fsz" using k by simp
          moreover have "unat (l - ?k) = unat l - (unat fsz - unat ?a)" using k uk unat_sub [OF le] by simp
          ultimately have False
            using ih lt un by (simp add: read_inside_def unat_eq_zero [symmetric] del: unat_eq_zero)
          then show ?thesis ..
        next
          case inside: False
          then have k: "?k = ?n" by simp
          have "\<not> fsz \<le> a"
          proof
            assume "fsz \<le> a"
            with inside sum un show False by (simp add: word_less_nat_alt)
          qed
          then have aa: "?a = a" by simp
          have ul: "unat (l - ?n) = unat l - unat ?n" using n(1) by (rule unat_sub)
          have s': "unat (a + ?n) = unat a + unat ?n" using sum by (simp only: aa)
          have ih': "l - ?n = 0 \<or> unat (a + ?n) + unat (l - ?n) \<le> unat fsz"
            using ih [unfolded k, unfolded aa read_inside_def] .
          have "unat a + unat l \<le> unat fsz"
          proof (cases "l - ?n = 0")
            case True
            then have "unat l = unat ?n" using ul un by (simp only: unat_0)
            moreover have "unat a + unat ?n \<le> unat fsz" using inside s' by (simp only: aa word_less_nat_alt not_less)
            ultimately show ?thesis by simp
          next
            case False
            with ih' s' ul un show ?thesis by linarith
          qed
          then show ?thesis by (simp add: read_inside_def)
        qed
      qed
    qed
  qed
  with size show ?thesis by blast
qed

text \<open>
  A read that extends past the end of the flash never returns. The code means to
  return 0xFF for the bytes beyond the end, and fills them in, but then subtracts only the
  bytes that were inside the flash from the number of bytes still to be read.
\<close>

theorem flash_read_past_end_hangs:
  assumes "unat (flash_size ctx) + 24 * 1024 < 2 ^ 32"
    and "0 < len" and "unat (flash_size ctx) < unat address + unat len"
  shows "read_op m ctx data address len = None"
proof (rule ccontr)
  assume "read_op m ctx data address len \<noteq> None"
  then obtain r where "read_loop m (flash_size ctx) data 0 address len = Some r" by (auto simp: read_op_def)
  from read_loop_ends [OF assms(1) this] assms(2,3) show False by (auto simp: read_inside_def)
qed

theorem flash_read_past_end_hangs_witness:
  "read_op (\<lambda>x. 0) \<lparr>flash_size = 65536, page_size_bytes = 256, erase_size_log2 = (\<lambda>i. 12)\<rparr>
     [0, 0, 0, 0] 65534 4 = None"
  by (rule flash_read_past_end_hangs) simp_all

section \<open>Writing\<close>

lemma mod_in_page:
  fixes x a P :: nat
  assumes "0 < P" and "x div P = a div P"
  shows "(x mod P + P - a mod P) mod P = (if a \<le> x then x - a else x mod P + P - a mod P)"
proof -
  have e: "x = a div P * P + x mod P" "a = a div P * P + a mod P"
    using assms(2) by (metis div_mult_mod_eq) (metis div_mult_mod_eq)
  have lt: "x mod P < P" "a mod P < P" using assms(1) by simp_all
  show ?thesis
  proof (cases "a \<le> x")
    case True
    then have le: "a mod P \<le> x mod P" using e by linarith
    then have "(x mod P + P - a mod P) mod P = (x mod P - a mod P) mod P"
      by (metis Nat.add_diff_assoc2 mod_add_self2)
    also have "\<dots> = x mod P - a mod P" using lt by (simp add: less_imp_diff_less)
    also have "\<dots> = x - a" using e le by linarith
    finally show ?thesis using True by simp
  next
    case False
    then have "x mod P < a mod P" using e by linarith
    then show ?thesis using False lt by simp
  qed
qed

text \<open>A program that does not run over the end of the page changes just the bytes it names.\<close>

lemma nor_program_in_page:
  assumes P: "0 < P" and fit: "length bs \<le> P - a mod P"
  shows "nor_program P a bs m x = (if a \<le> x \<and> x < a + length bs then m x AND bs ! (x - a) else m x)"
proof -
  have lt: "a mod P < P" using P by simp
  have page: "x div P = a div P" if "a \<le> x" "x < a + length bs"
  proof -
    have "x < a div P * P + P" using that fit lt div_mult_mod_eq [of a P] by linarith
    moreover have "a div P * P \<le> x" using that div_mult_mod_eq [of a P] by linarith
    ultimately show ?thesis
      by (metis div_nat_eqI mult.commute mult_Suc_right add.commute)
  qed
  show ?thesis
  proof (cases "x div P = a div P")
    case True
    note k = mod_in_page [OF P True]
    show ?thesis
    proof (cases "a \<le> x")
      case le: True
      with True k show ?thesis by (auto simp: nor_program_def Let_def)
    next
      case False
      have "\<not> x mod P + P - a mod P < length bs" using fit lt by linarith
      with False k show ?thesis by (simp add: nor_program_def Let_def)
    qed
  next
    case False
    with page show ?thesis by (auto simp: nor_program_def Let_def)
  qed
qed

definition power_of_2 :: "u32 \<Rightarrow> bool" where
  "power_of_2 p \<longleftrightarrow> (\<exists>k < 32. p = 2 ^ k)"

lemma page_offset:
  assumes "power_of_2 psz"
  shows "unat (address AND (psz - 1)) = unat address mod unat psz" and "0 < unat psz"
proof -
  obtain k where k: "k < 32" "psz = 2 ^ k" using assms by (auto simp: power_of_2_def)
  have "(2 :: nat) ^ k < 2 ^ 32" using k(1) by (intro power_strict_increasing) simp_all
  then have "unat (of_nat (2 ^ k) :: u32) = 2 ^ k" by (simp add: unat_of_nat del: of_nat_power)
  then have u: "unat psz = 2 ^ k" by (simp add: k(2))
  have "psz - 1 = mask k" using k(2) by (simp add: mask_eq_exp_minus_1)
  then have "address AND (psz - 1) = take_bit k address" by (simp add: take_bit_eq_mask)
  then show "unat (address AND (psz - 1)) = unat address mod unat psz"
    by (simp only: u unsigned_take_bit_eq) (simp add: take_bit_eq_mod)
  show "0 < unat psz" by (simp add: u)
qed

lemma write_chunk_eq:
  assumes "power_of_2 psz"
  shows "write_chunk psz a n = min n (unat psz - unat a mod unat psz)"
proof -
  have "unat (a AND (psz - 1)) < unat psz" using page_offset [OF assms] by simp
  then have "a AND (psz - 1) \<le> psz" by (simp add: word_le_nat_alt)
  then have "unat (psz - (a AND (psz - 1))) = unat psz - unat a mod unat psz"
    using page_offset [OF assms] by (simp add: unat_sub)
  then show ?thesis by (simp add: write_chunk_def Let_def min_def)
qed

lemma nor_exec_Cons [simp]: "nor_exec P [] s = s" "nor_exec P (c # cs) s = nor_exec P cs (nor_step P c s)"
  by (simp_all add: nor_exec_def)

text \<open>The effect of a write: bits are cleared in the bytes written, up to the end of the flash.\<close>

definition written :: "u32 \<Rightarrow> nat \<Rightarrow> u8 list \<Rightarrow> (nat \<Rightarrow> u8) \<Rightarrow> nat \<Rightarrow> u8" where
  "written fsz a bs m x = (if a \<le> x \<and> x < a + length bs \<and> x < unat fsz then m x AND bs ! (x - a) else m x)"

lemma write_loop_effect:
  assumes psz: "power_of_2 psz" and whole: "unat psz dvd unat fsz"
  shows "unat a + length bs < 2 ^ 32 \<Longrightarrow>
    \<exists>cs. write_loop fsz psz bs a = Some cs \<and> (\<forall>m w. \<exists>v. nor_exec (unat psz) cs (m, w) = (written fsz (unat a) bs m, v))"
proof (induction "length bs" arbitrary: bs a rule: less_induct)
  case less
  let ?P = "unat psz"
  show ?case
  proof (cases "bs = [] \<or> fsz \<le> a")
    case True
    then have "write_loop fsz psz bs a = Some []" by (subst write_loop.simps) simp
    moreover have "written fsz (unat a) bs m = m" for m
      using True by (auto simp: written_def fun_eq_iff word_le_nat_alt)
    ultimately show ?thesis by simp
  next
    case False
    let ?n = "write_chunk psz a (length bs)"
    have P: "0 < ?P" using page_offset(2) [OF psz] .
    have n: "?n = min (length bs) (?P - unat a mod ?P)" by (rule write_chunk_eq [OF psz])
    have pos: "0 < ?n" "?n \<le> length bs" using False P by (simp_all add: n)
    have un: "unat (of_nat ?n :: u32) = ?n" using pos less(2) by (simp add: unat_of_nat)
    have a': "unat (a + of_nat ?n) = unat a + ?n"
      using less(2) pos un by (simp add: unat_word_ariths(1))
    have len: "length (drop ?n bs) < length bs" "unat (a + of_nat ?n) + length (drop ?n bs) < 2 ^ 32"
      using pos less(2) a' by simp_all
    from less(1) [OF len] obtain cs where cs: "write_loop fsz psz (drop ?n bs) (a + of_nat ?n) = Some cs"
      and eff: "\<And>m w. \<exists>v. nor_exec ?P cs (m, w) = (written fsz (unat (a + of_nat ?n)) (drop ?n bs) m, v)"
      by blast
    have run: "write_loop fsz psz bs a = Some (Write_Enable # Page_Program a (take ?n bs) # cs)"
      using False cs by (subst write_loop.simps) simp
    have inside: "unat a + ?n \<le> unat fsz"
    proof -
      obtain q where q: "unat fsz = ?P * q" using whole by (auto elim: dvdE)
      have "unat a < unat fsz" using False by (simp add: word_le_nat_alt)
      then have "unat a div ?P < q" using P q by (metis div_less_iff_less_mult mult.commute)
      then have "(unat a div ?P + 1) * ?P \<le> q * ?P" by (intro mult_le_mono1) simp
      moreover have "unat a + (?P - unat a mod ?P) = (unat a div ?P + 1) * ?P"
        using div_mult_mod_eq [of "unat a" ?P] mod_less_divisor [OF P, of "unat a"]
        unfolding distrib_right by linarith
      ultimately show ?thesis using n q by (simp add: mult.commute)
    qed
    have "written fsz (unat (a + of_nat ?n)) (drop ?n bs) (nor_program ?P (unat a) (take ?n bs) m) x
        = written fsz (unat a) bs m x" for m x
    proof -
      have prog: "nor_program ?P (unat a) (take ?n bs) m x
          = (if unat a \<le> x \<and> x < unat a + ?n then m x AND take ?n bs ! (x - unat a) else m x)"
        using nor_program_in_page [OF P, of "take ?n bs" "unat a" m x] n by simp
      show ?thesis
      proof (cases "x < unat a + ?n")
        case True
        with prog inside pos show ?thesis by (simp add: written_def a')
      next
        case False
        then have "?n + (x - (unat a + ?n)) = x - unat a" by simp
        with prog False pos show ?thesis by (simp add: written_def a')
      qed
    qed
    then have "written fsz (unat (a + of_nat ?n)) (drop ?n bs) (nor_program ?P (unat a) (take ?n bs) m)
        = written fsz (unat a) bs m" for m
      by (simp add: fun_eq_iff)
    then have "\<exists>v. nor_exec ?P (Write_Enable # Page_Program a (take ?n bs) # cs) (m, w) = (written fsz (unat a) bs m, v)" for m w
      using eff [of "nor_program ?P (unat a) (take ?n bs) m" False] by simp
    with run show ?thesis by blast
  qed
qed

text \<open>
  A write of any length and alignment programs exactly the named bytes of the
  flash: the loop ends, every page program has its write enable and stays within its page, so
  that nothing wraps around, and the part that lies behind the end of the flash is left out.
  Programming clears bits: a byte becomes the conjunction of its old value and the data.
\<close>

theorem flash_write_effect:
  assumes "power_of_2 (page_size_bytes ctx)" and "unat (page_size_bytes ctx) dvd unat (flash_size ctx)"
    and "unat address + length data < 2 ^ 32"
  shows "\<exists>cs. write_op ctx data address = Some cs
    \<and> fst (nor_exec (unat (page_size_bytes ctx)) cs (m, wel))
      = (\<lambda>x. if unat address \<le> x \<and> x < unat address + length data \<and> x < unat (flash_size ctx)
             then m x AND data ! (x - unat address) else m x)"
proof -
  obtain cs where "write_op ctx data address = Some cs"
    "\<exists>v. nor_exec (unat (page_size_bytes ctx)) cs (m, wel) = (written (flash_size ctx) (unat address) data m, v)"
    using write_loop_effect [OF assms] by (auto simp: write_op_def)
  then show ?thesis by (intro exI [of _ cs]) (auto simp: written_def)
qed

lemma power_of_2_256: "power_of_2 256"
  unfolding power_of_2_def by (intro exI [of _ 8]) simp

theorem flash_write_effect_witness:
  "\<exists>cs. write_op \<lparr>flash_size = 65536, page_size_bytes = 256, erase_size_log2 = (\<lambda>i. 12)\<rparr> [1, 2, 3, 4] 254 = Some cs
    \<and> fst (nor_exec (unat (256 :: u32)) cs (\<lambda>x. 0xFF, False))
      = (\<lambda>x. if unat (254 :: u32) \<le> x \<and> x < unat (254 :: u32) + length [1, 2, 3, 4 :: u8] \<and> x < unat (65536 :: u32)
             then 0xFF AND [1, 2, 3, 4] ! (x - unat (254 :: u32)) else 0xFF)"
  using flash_write_effect [of "\<lparr>flash_size = 65536, page_size_bytes = 256, erase_size_log2 = (\<lambda>i. 12)\<rparr>" 254 "[1, 2, 3, 4]" "\<lambda>x. 0xFF" False]
    power_of_2_256 by simp

section \<open>Erasing\<close>

text \<open>
  What the chip's table must satisfy: the first type exists and is the smallest, no sector is
  larger than the address space, and the flash consists of whole sectors.
\<close>

definition erase_table_ok :: "u32 \<Rightarrow> (nat \<Rightarrow> nat) \<Rightarrow> bool" where
  "erase_table_ok fsz lg \<longleftrightarrow> 0 < lg 0
     \<and> (\<forall>i \<in> {0, 1, 2, 3}. lg i \<noteq> 0 \<longrightarrow> lg 0 \<le> lg i \<and> lg i < 32 \<and> 2 ^ lg i dvd unat fsz)"

lemma unat_sector_start:
  "unat (sector_start l a) = unat a div 2 ^ l * 2 ^ l"
proof -
  have "unat a div 2 ^ l * 2 ^ l \<le> unat a" by simp
  also have "\<dots> < 2 ^ 32" using unsigned_less [of a, where ?'a = nat] by simp
  finally have "unat a div 2 ^ l * 2 ^ l < 2 ^ 32" .
  then show ?thesis
    by (simp only: sector_start_def unsigned_push_bit_eq unsigned_drop_bit_eq)
      (simp add: push_bit_eq_mult drop_bit_eq_div take_bit_nat_eq_self unsigned_less [of a, where ?'a = nat, simplified])
qed

lemma sector_start_eq_iff: "sector_start l a = a \<longleftrightarrow> 2 ^ l dvd unat a"
  by (metis dvd_div_mult_self dvd_triv_right unat_sector_start word_unat_eq_iff)

lemma unat_sector_size:
  assumes "l < 32"
  shows "unat (push_bit l 1 :: u32) = 2 ^ l"
proof -
  have "(2 :: nat) ^ l < 2 ^ 32" using assms by (intro power_strict_increasing) simp_all
  then have "unat (of_nat (2 ^ l) :: u32) = 2 ^ l" by (simp add: unat_of_nat del: of_nat_power)
  then show ?thesis by simp
qed

lemma erase_pick_spec:
  assumes "erase_pick lg a n is = i"
  shows "i = 0 \<or> i \<in> set is \<and> lg i \<noteq> 0 \<and> sector_start (lg i) a = a \<and> push_bit (lg i) 1 \<le> n"
  using assms by (induction "is") (auto split: if_splits)

definition round_up :: "nat \<Rightarrow> nat \<Rightarrow> nat" where
  "round_up u n = (n + u - 1) div u * u"

lemma round_up_sub: "0 < u \<Longrightarrow> u dvd s \<Longrightarrow> s \<le> n \<Longrightarrow> round_up u (n - s) = round_up u n - s"
proof -
  assume u: "0 < u" "u dvd s" "s \<le> n"
  then obtain q where q: "s = u * q" by (auto elim: dvdE)
  have "n + u - 1 = (n - s + u - 1) + u * q" using u q by simp
  then have "(n + u - 1) div u = q + (n - s + u - 1) div u"
    using u(1) div_mult_self2 [of u "n - s + u - 1" q] by (simp only: add.commute)
  then show ?thesis by (simp add: round_up_def q add_mult_distrib)
qed

lemma round_up_ge: "0 < u \<Longrightarrow> n \<le> round_up u n"
proof -
  assume u: "0 < u"
  have "n + u - 1 = (n + u - 1) div u * u + (n + u - 1) mod u" by simp
  moreover have "(n + u - 1) mod u < u" using u by simp
  ultimately show ?thesis unfolding round_up_def by linarith
qed

lemma round_up_small: "0 < n \<Longrightarrow> n \<le> u \<Longrightarrow> round_up u n = u"
proof -
  assume "0 < n" "n \<le> u"
  then have "(n + u - 1) div u = 1" by (intro div_nat_eqI) simp_all
  then show ?thesis by (simp add: round_up_def)
qed

lemma sector_block:
  fixes a x s :: nat
  assumes "s dvd a" and "0 < s"
  shows "x div s = a div s \<longleftrightarrow> a \<le> x \<and> x < a + s"
proof -
  obtain p where "a = s * p" using assms(1) by (rule dvdE)
  then have p: "a = p * s" by (simp only: mult.commute)
  have q: "a div s = p" using p assms(2) by simp
  show ?thesis
  proof
    assume "x div s = a div s"
    then have "x = p * s + x mod s" using q div_mult_mod_eq [of x s] by simp
    moreover have "x mod s < s" using assms(2) by simp
    ultimately show "a \<le> x \<and> x < a + s" unfolding p by linarith
  next
    assume "a \<le> x \<and> x < a + s"
    then show "x div s = a div s" unfolding q p by (intro div_nat_eqI) (simp_all add: mult.commute)
  qed
qed

definition erased :: "u32 \<Rightarrow> nat \<Rightarrow> nat \<Rightarrow> (nat \<Rightarrow> u8) \<Rightarrow> nat \<Rightarrow> u8" where
  "erased fsz a n m x = (if a \<le> x \<and> x < a + n \<and> x < unat fsz then 0xFF else m x)"

lemma erased_step:
  "a + s \<le> unat fsz \<Longrightarrow>
    erased fsz (a + s) r (\<lambda>x. if a \<le> x \<and> x < a + s then 0xFF else m x) = erased fsz a (s + r) m"
  by (auto simp: erased_def fun_eq_iff)

lemma erase_loop_effect:
  assumes tab: "erase_table_ok fsz lg"
  shows "2 ^ lg 0 dvd unat a \<Longrightarrow>
    \<exists>cs. erase_loop fsz lg a n = Some (Inr cs)
      \<and> (\<forall>P m w. \<exists>v. nor_exec P cs (m, w) = (erased fsz (unat a) (round_up (2 ^ lg 0) (unat n)) m, v))"
proof (induction "unat n" arbitrary: n a rule: less_induct)
  case less
  let ?u = "2 ^ lg 0 :: nat"
  show ?case
  proof (cases "n = 0 \<or> fsz \<le> a")
    case True
    then have "erase_loop fsz lg a n = Some (Inr [])" by (subst erase_loop.simps) simp
    moreover have "erased fsz (unat a) (round_up ?u (unat n)) m = m" for m
      using True by (auto simp: erased_def fun_eq_iff word_le_nat_alt round_up_def)
    ultimately show ?thesis by simp
  next
    case False
    obtain i where i: "erase_pick lg a n [3, 2, 1] = i" by blast
    let ?l = "lg i" and ?S = "2 ^ lg i :: nat"
    from erase_pick_spec [OF i]
    have pick: "i = 0 \<or> i \<in> {1, 2, 3} \<and> ?l \<noteq> 0 \<and> sector_start ?l a = a \<and> push_bit ?l 1 \<le> n" by auto
    have l: "?l < 32" "lg 0 \<le> ?l" "?S dvd unat fsz"
      using pick tab by (auto simp: erase_table_ok_def)
    have al: "?S dvd unat a"
      using pick less(2) by (auto simp: sector_start_eq_iff)
    have us: "unat (push_bit ?l 1 :: u32) = ?S" by (rule unat_sector_size [OF l(1)])
    have uS: "?u dvd ?S" using l(2) by (simp add: le_imp_power_dvd)
    have n: "0 < unat n" using False by (simp add: unat_gt_0)
    have lt: "unat a < unat fsz" using False by (simp add: word_le_nat_alt)
    have inside: "unat a + ?S \<le> unat fsz"
    proof -
      obtain p q where "unat a = ?S * p" "unat fsz = ?S * q" using al l(3) by (auto elim!: dvdE)
      with lt show ?thesis by (metis Suc_leI add.commute mult_Suc_right mult_le_mono2 mult_less_cancel1)
    qed
    have a': "unat (a + push_bit ?l 1) = unat a + ?S"
      using inside us by (subst unat_add_le [of a _ fsz]) simp_all
    let ?k = "if push_bit ?l 1 < n then push_bit ?l 1 else n"
    have k: "unat (n - ?k) = (if ?S < unat n then unat n - ?S else 0)"
      using us by (auto simp: word_less_nat_alt unat_sub word_le_nat_alt)
    have dec: "unat (n - ?k) < unat n" using k n by (auto split: if_splits)
    have al': "?u dvd unat (a + push_bit ?l 1)"
      unfolding a' using al uS by (blast intro: dvd_add dvd_trans)
    from less(1) [OF dec al'] obtain cs where cs: "erase_loop fsz lg (a + push_bit ?l 1) (n - ?k) = Some (Inr cs)"
      and eff: "\<And>P m w. \<exists>v. nor_exec P cs (m, w)
        = (erased fsz (unat (a + push_bit ?l 1)) (round_up ?u (unat (n - ?k))) m, v)" by blast
    have "sector_start ?l a = a" using al by (simp add: sector_start_eq_iff)
    then have run: "erase_loop fsz lg a n = Some (Inr (Write_Enable # Erase_Sector a ?l # cs))"
      using False cs by (subst erase_loop.simps, simp only: i if_False simp_thms not_True_eq_False) simp
    have up: "round_up ?u (unat n) = ?S + round_up ?u (unat (n - ?k))"
    proof (cases "?S < unat n")
      case True
      then have "round_up ?u (unat (n - ?k)) = round_up ?u (unat n) - ?S"
        using k round_up_sub [OF _ uS, of "unat n"] by simp
      moreover have "?S \<le> round_up ?u (unat n)" using True round_up_ge [of ?u "unat n"] by simp
      ultimately show ?thesis by simp
    next
      case le: False
      have "round_up ?u (unat n) = ?S"
      proof (cases "i = 0")
        case True
        with le n show ?thesis by (simp add: round_up_small)
      next
        case False
        with pick us le have "unat n = ?S" by (auto simp: word_le_nat_alt)
        then show ?thesis
          using round_up_sub [OF _ uS, of ?S] round_up_ge [of ?u ?S] by (simp add: round_up_def)
      qed
      then show ?thesis using k le by (simp add: round_up_def)
    qed
    have block: "x div ?S = unat a div ?S \<longleftrightarrow> unat a \<le> x \<and> x < unat a + ?S" for x
      using al by (rule sector_block) simp
    have "erased fsz (unat (a + push_bit ?l 1)) (round_up ?u (unat (n - ?k)))
        (\<lambda>x. if x div ?S = unat a div ?S then 0xFF else m x)
      = erased fsz (unat a) (round_up ?u (unat n)) m" for m
      unfolding a' up block by (rule erased_step [OF inside])
    then have "\<exists>v. nor_exec P (Write_Enable # Erase_Sector a ?l # cs) (m, w)
        = (erased fsz (unat a) (round_up ?u (unat n)) m, v)" for P m w
      using eff [of P "\<lambda>x. if x div ?S = unat a div ?S then 0xFF else m x" False] by simp
    with run show ?thesis by blast
  qed
qed

lemma round_up_sectors:
  fixes a n u x :: nat
  assumes u: "0 < u" and n: "0 < n"
  shows "a div u * u \<le> x \<and> x < a div u * u + round_up u (n + a mod u)
    \<longleftrightarrow> x div u * u < a + n \<and> a < x div u * u + u"
proof -
  let ?p = "a div u" and ?q = "x div u" and ?r = "a mod u"
  have a: "a = ?p * u + ?r" "?r < u" and x: "x = ?q * u + x mod u" "x mod u < u" using u by simp_all
  have lo: "?p * u \<le> x \<longleftrightarrow> a < ?q * u + u"
  proof -
    have "?p * u \<le> x \<longleftrightarrow> ?p \<le> ?q" using u by (simp add: less_eq_div_iff_mult_less_eq)
    also have "\<dots> \<longleftrightarrow> ?p < Suc ?q" by (rule less_Suc_eq_le [symmetric])
    also have "\<dots> \<longleftrightarrow> a < Suc ?q * u" using u by (rule div_less_iff_less_mult)
    finally show ?thesis by (simp add: add.commute)
  qed
  let ?k = "(n + ?r + u - 1) div u"
  have hi: "x < ?p * u + round_up u (n + ?r) \<longleftrightarrow> ?q * u < a + n"
  proof -
    have "x < ?p * u + ?k * u \<longleftrightarrow> x < (?p + ?k) * u" by (simp add: distrib_right)
    also have "\<dots> \<longleftrightarrow> ?q < ?p + ?k" using u by (simp add: div_less_iff_less_mult)
    also have "?p + ?k = (n + ?r + u - 1 + ?p * u) div u"
      by (rule div_mult_self1 [symmetric]) (use u in simp)
    also have "n + ?r + u - 1 + ?p * u = a + n + (u - 1)" using a(1) u by linarith
    also have "?q < (a + n + (u - 1)) div u \<longleftrightarrow> (?q + 1) * u \<le> a + n + (u - 1)"
      using u by (simp add: less_eq_div_iff_mult_less_eq Suc_le_eq [symmetric] del: Suc_le_eq)
    also have "\<dots> \<longleftrightarrow> ?q * u < a + n" using u by (simp add: distrib_right) linarith
    finally show ?thesis by (simp add: round_up_def)
  qed
  show ?thesis using lo hi by blast
qed

lemma flash_erase_sectors_lemma:
  assumes tab: "erase_table_ok (flash_size ctx) (erase_size_log2 ctx)"
    and len: "0 < len" "unat address + unat len < 2 ^ 32"
  shows "\<exists>cs. erase_op ctx address len = Some (Inr cs)
    \<and> (\<forall>x < unat (flash_size ctx). fst (nor_exec psz cs (m, wel)) x =
        (let u = 2 ^ erase_size_log2 ctx 0
         in if x div u * u < unat address + unat len \<and> unat address < x div u * u + u then 0xFF else m x))"
proof (cases "address = 0 \<and> flash_size ctx \<le> len")
  case True
  have "x div u * u < unat len" if "x < unat (flash_size ctx)" for x u :: nat
    using that True by (meson div_times_less_eq_dividend le_less_trans less_le_trans word_le_nat_alt)
  with True show ?thesis
    by (intro exI [of _ "[Write_Enable, Erase_Chip]"]) (simp add: erase_op_def Let_def)
next
  case False
  let ?lg = "erase_size_log2 ctx" and ?fsz = "flash_size ctx"
  let ?u = "2 ^ ?lg 0 :: nat" and ?start = "sector_start (?lg 0) address"
  have start: "unat ?start = unat address div ?u * ?u" by (rule unat_sector_start)
  then have le: "?start \<le> address" by (simp add: word_le_nat_alt)
  have "unat (address - ?start) = unat address mod ?u"
    using unat_sub [OF le] start by (simp add: minus_div_mult_eq_mod)
  moreover have "unat address mod ?u \<le> unat address" by simp
  moreover have "unat len + unat address mod ?u < 2 ^ 32" using calculation(2) len(2) by linarith
  ultimately have n: "unat (len + (address - ?start)) = unat len + unat address mod ?u"
    by (simp add: unat_word_ariths(1))
  obtain cs where cs: "erase_loop ?fsz ?lg ?start (len + (address - ?start)) = Some (Inr cs)"
    and eff: "\<exists>v. nor_exec psz cs (m, wel)
        = (erased ?fsz (unat ?start) (round_up ?u (unat (len + (address - ?start)))) m, v)"
    using erase_loop_effect [OF tab, of ?start "len + (address - ?start)"] start by (metis dvd_triv_right)
  have run: "erase_op ctx address len = Some (Inr cs)"
  proof (cases "?start = address")
    case True
    then show ?thesis using False cs unfolding erase_op_def Let_def by auto
  next
    case unaligned: False
    then show ?thesis using False cs unfolding erase_op_def Let_def by auto
  qed
  have "0 < unat len" using len(1) by (simp add: unat_gt_0)
  then have "fst (nor_exec psz cs (m, wel)) x =
      (if x div ?u * ?u < unat address + unat len \<and> unat address < x div ?u * ?u + ?u then 0xFF else m x)"
    if "x < unat ?fsz" for x
    using eff that round_up_sectors [of ?u "unat len" "unat address" x]
    by (auto simp: erased_def start n)
  with run show ?thesis by (intro exI [of _ cs]) (simp add: Let_def)
qed

text \<open>
  An erase of a range of the flash erases exactly the smallest sectors that overlap the
  range, whichever mixture of sector sizes (or the chip erase) the driver uses for it: the loop
  ends, the assertion on the alignment holds, and no byte of another sector changes.
\<close>

theorem flash_erase_sectors:
  assumes tab: "erase_table_ok (flash_size ctx) (erase_size_log2 ctx)"
    and len: "0 < len" "unat address + unat len < 2 ^ 32"
  shows "\<exists>cs. erase_op ctx address len = Some (Inr cs)
    \<and> (\<forall>x < unat (flash_size ctx). fst (nor_exec psz cs (m, wel)) x =
        (let u = 2 ^ erase_size_log2 ctx 0
         in if x div u * u < unat address + unat len \<and> unat address < x div u * u + u then 0xFF else m x))"
  by (rule flash_erase_sectors_lemma [OF assms])

lemma example_table: "erase_table_ok 65536 (\<lambda>i. if i < 2 then 12 else if i = 2 then 15 else 0)"
  by (simp add: erase_table_ok_def)

definition example_flash :: qspi where
  "example_flash = \<lparr>flash_size = 65536, page_size_bytes = 256,
     erase_size_log2 = (\<lambda>i. if i < 2 then 12 else if i = 2 then 15 else 0)\<rparr>"

theorem flash_erase_sectors_witness:
  "\<exists>cs. erase_op example_flash 5000 40000 = Some (Inr cs)
    \<and> (\<forall>x < unat (flash_size example_flash). fst (nor_exec 256 cs (\<lambda>x. 0, False)) x =
        (let u = 2 ^ erase_size_log2 example_flash 0
         in if x div u * u < unat (5000 :: u32) + unat (40000 :: u32) \<and> unat (5000 :: u32) < x div u * u + u then 0xFF else 0))"
  using flash_erase_sectors [of example_flash 40000 5000 256 "\<lambda>x. 0" False] example_table
  by (simp add: example_flash_def)

section \<open>Erase, write, read\<close>

lemma and_0xFF [simp]: "(0xFF :: u8) AND b = b"
proof -
  have "(0xFF :: u8) = - 1" by simp
  then show ?thesis by (simp only: and.left_neutral)
qed



end
