(* ===== verification/Qspi_Rpc.thy ===== *)
theory Qspi_Rpc
  imports Rpc Qspi_Flash
begin

text \<open>
  The remote half of the QSPI flash driver, modules/rtos/drivers/qspi_flash/
  rtos_qspi_flash_rpc.c: the stubs of the client tile and the functions that run for them on
  the host tile. The host's driver functions are the parameters collected in \<open>qspi_api\<close>;
  a remote read is cut into chunks, each of them a call of its own.
\<close>

section \<open>The host's driver\<close>

record 's qspi_api =
  api_lock :: "u32 \<Rightarrow> 's \<Rightarrow> 's res"
  api_unlock :: "u32 \<Rightarrow> 's \<Rightarrow> 's res"
  api_flash_read :: "u32 \<Rightarrow> u32 \<Rightarrow> u32 \<Rightarrow> 's \<Rightarrow> (u8 list \<times> 's) res"
  api_flash_write :: "u32 \<Rightarrow> u8 list \<Rightarrow> u32 \<Rightarrow> u32 \<Rightarrow> 's \<Rightarrow> 's res"
  api_flash_erase :: "u32 \<Rightarrow> u32 \<Rightarrow> u32 \<Rightarrow> 's \<Rightarrow> 's res"

definition qspi_fcode_lock :: u32 where "qspi_fcode_lock = 0"
definition qspi_fcode_unlock :: u32 where "qspi_fcode_unlock = 1"
definition qspi_fcode_read :: u32 where "qspi_fcode_read = 2"
definition qspi_fcode_write :: u32 where "qspi_fcode_write = 3"
definition qspi_fcode_erase :: u32 where "qspi_fcode_erase = 4"

lemmas qspi_fcodes = qspi_fcode_lock_def qspi_fcode_unlock_def qspi_fcode_read_def qspi_fcode_write_def qspi_fcode_erase_def

section \<open>The client\<close>

definition qspi_flash_remote_lock ::
  "(u8 list \<Rightarrow> 's \<Rightarrow> (u8 list \<times> 's) res) \<Rightarrow> rpc_client \<Rightarrow> 's \<Rightarrow> 's res" where
  "qspi_flash_remote_lock host c s =
     rbind (c_assert (0 \<le> host_port c)) (\<lambda>_.
     rbind (rpc_client_call_generic host qspi_fcode_lock [RPC_PARAM_TYPE 4, RPC_PARAM_LIST_END]
         [le32 (host_ctx_ptr c)] s) (\<lambda>(args, s). Inr s))"

definition qspi_flash_remote_unlock ::
  "(u8 list \<Rightarrow> 's \<Rightarrow> (u8 list \<times> 's) res) \<Rightarrow> rpc_client \<Rightarrow> 's \<Rightarrow> 's res" where
  "qspi_flash_remote_unlock host c s =
     rbind (c_assert (0 \<le> host_port c)) (\<lambda>_.
     rbind (rpc_client_call_generic host qspi_fcode_unlock [RPC_PARAM_TYPE 4, RPC_PARAM_LIST_END]
         [le32 (host_ctx_ptr c)] s) (\<lambda>(args, s). Inr s))"

text \<open>One call of the loop in \<open>qspi_flash_remote_read\<close>, into the buffer from \<open>off\<close> on.\<close>

definition remote_read_chunk ::
  "(u8 list \<Rightarrow> 's \<Rightarrow> (u8 list \<times> 's) res) \<Rightarrow> rpc_client \<Rightarrow> u8 list \<Rightarrow> nat \<Rightarrow> u32 \<Rightarrow> u32 \<Rightarrow> 's \<Rightarrow> (u8 list \<times> 's) res" where
  "remote_read_chunk host c data off address read_len s =
     rbind (rpc_client_call_generic host qspi_fcode_read
         [RPC_PARAM_TYPE 4, RPC_PARAM_OUT_BUFFER 1 read_len, RPC_PARAM_TYPE 4, RPC_PARAM_TYPE 4, RPC_PARAM_LIST_END]
         [le32 (host_ctx_ptr c), drop off data, le32 address, le32 read_len] s)
       (\<lambda>(args, s). Inr (take off data @ args ! 1, s))"

function remote_read_loop ::
  "(u8 list \<Rightarrow> 's \<Rightarrow> (u8 list \<times> 's) res) \<Rightarrow> rpc_client \<Rightarrow> u8 list \<Rightarrow> nat \<Rightarrow> u32 \<Rightarrow> u32 \<Rightarrow> 's \<Rightarrow> (u8 list \<times> 's) res" where
  "remote_read_loop host c data off address len s =
     (let read_len = min len RTOS_QSPI_FLASH_READ_CHUNK_SIZE
      in rbind (remote_read_chunk host c data off address read_len s) (\<lambda>(data, s).
           if 0 < len - read_len
           then remote_read_loop host c data (off + unat read_len) (address + read_len) (len - read_len) s
           else Inr (data, s)))"
  by auto
termination
proof (relation "measure (\<lambda>(h, c, d, off, a, len, s). unat len)", simp, clarsimp)
  fix len :: u32
  assume "0 < len - min len RTOS_QSPI_FLASH_READ_CHUNK_SIZE"
  then have "0 < len" by (cases "len = 0") (simp_all add: word_gt_0 min_def)
  then have n: "0 < min len RTOS_QSPI_FLASH_READ_CHUNK_SIZE" "min len RTOS_QSPI_FLASH_READ_CHUNK_SIZE \<le> len"
    by (simp_all add: RTOS_QSPI_FLASH_READ_CHUNK_SIZE_def)
  then show "unat (len - min len RTOS_QSPI_FLASH_READ_CHUNK_SIZE) < unat len"
    using unat_sub [OF n(2)] \<open>0 < len\<close> unfolding word_less_nat_alt unat_0 by linarith
qed

definition qspi_flash_remote_read ::
  "(u8 list \<Rightarrow> 's \<Rightarrow> (u8 list \<times> 's) res) \<Rightarrow> rpc_client \<Rightarrow> u8 list \<Rightarrow> u32 \<Rightarrow> u32 \<Rightarrow> 's \<Rightarrow> (u8 list \<times> 's) res" where
  "qspi_flash_remote_read host c data address len s =
     rbind (c_assert (0 \<le> host_port c)) (\<lambda>_. remote_read_loop host c data 0 address len s)"

definition qspi_flash_remote_write ::
  "(u8 list \<Rightarrow> 's \<Rightarrow> (u8 list \<times> 's) res) \<Rightarrow> rpc_client \<Rightarrow> u8 list \<Rightarrow> u32 \<Rightarrow> u32 \<Rightarrow> 's \<Rightarrow> 's res" where
  "qspi_flash_remote_write host c data address len s =
     rbind (c_assert (0 \<le> host_port c)) (\<lambda>_.
     rbind (rpc_client_call_generic host qspi_fcode_write
         [RPC_PARAM_TYPE 4, RPC_PARAM_IN_BUFFER 1 len, RPC_PARAM_TYPE 4, RPC_PARAM_TYPE 4, RPC_PARAM_LIST_END]
         [le32 (host_ctx_ptr c), data, le32 address, le32 len] s) (\<lambda>(args, s). Inr s))"

definition qspi_flash_remote_erase ::
  "(u8 list \<Rightarrow> 's \<Rightarrow> (u8 list \<times> 's) res) \<Rightarrow> rpc_client \<Rightarrow> u32 \<Rightarrow> u32 \<Rightarrow> 's \<Rightarrow> 's res" where
  "qspi_flash_remote_erase host c address len s =
     rbind (c_assert (0 \<le> host_port c)) (\<lambda>_.
     rbind (rpc_client_call_generic host qspi_fcode_erase
         [RPC_PARAM_TYPE 4, RPC_PARAM_TYPE 4, RPC_PARAM_TYPE 4, RPC_PARAM_LIST_END]
         [le32 (host_ctx_ptr c), le32 address, le32 len] s) (\<lambda>(args, s). Inr s))"

section \<open>The host\<close>

definition qspi_flash_lock_rpc_host :: "'s qspi_api \<Rightarrow> rpc_msg \<Rightarrow> 's \<Rightarrow> (u8 list \<times> 's) res" where
  "qspi_flash_lock_rpc_host api m s =
     rbind (rpc_request_unmarshall_va m) (\<lambda>vs.
     rbind (arg_at val32 vs 0) (\<lambda>ctx.
     rbind (api_lock api ctx s) (\<lambda>s. rpc_reply m [Arg32 ctx] s)))"

definition qspi_flash_unlock_rpc_host :: "'s qspi_api \<Rightarrow> rpc_msg \<Rightarrow> 's \<Rightarrow> (u8 list \<times> 's) res" where
  "qspi_flash_unlock_rpc_host api m s =
     rbind (rpc_request_unmarshall_va m) (\<lambda>vs.
     rbind (arg_at val32 vs 0) (\<lambda>ctx.
     rbind (api_unlock api ctx s) (\<lambda>s. rpc_reply m [Arg32 ctx] s)))"

text \<open>The buffer the host allocates for the data has the requested length.\<close>

definition qspi_flash_read_rpc_host :: "'s qspi_api \<Rightarrow> rpc_msg \<Rightarrow> 's \<Rightarrow> (u8 list \<times> 's) res" where
  "qspi_flash_read_rpc_host api m s =
     rbind (rpc_request_unmarshall_va m) (\<lambda>vs.
     rbind (arg_at val32 vs 0) (\<lambda>ctx.
     rbind (arg_at val32 vs 2) (\<lambda>address.
     rbind (arg_at val32 vs 3) (\<lambda>len.
     rbind (api_flash_read api ctx address len s) (\<lambda>(data, s).
       rpc_reply m [Arg32 ctx, ArgPtr data, Arg32 address, Arg32 len] s)))))"

definition qspi_flash_write_rpc_host :: "'s qspi_api \<Rightarrow> rpc_msg \<Rightarrow> 's \<Rightarrow> (u8 list \<times> 's) res" where
  "qspi_flash_write_rpc_host api m s =
     rbind (rpc_request_unmarshall_va m) (\<lambda>vs.
     rbind (arg_at val32 vs 0) (\<lambda>ctx.
     rbind (arg_at val_buf vs 1) (\<lambda>data.
     rbind (arg_at val32 vs 2) (\<lambda>address.
     rbind (arg_at val32 vs 3) (\<lambda>len.
     rbind (api_flash_write api ctx data address len s) (\<lambda>s.
       rpc_reply m [Arg32 ctx, ArgPtr data, Arg32 address, Arg32 len] s))))))"

definition qspi_flash_erase_rpc_host :: "'s qspi_api \<Rightarrow> rpc_msg \<Rightarrow> 's \<Rightarrow> (u8 list \<times> 's) res" where
  "qspi_flash_erase_rpc_host api m s =
     rbind (rpc_request_unmarshall_va m) (\<lambda>vs.
     rbind (arg_at val32 vs 0) (\<lambda>ctx.
     rbind (arg_at val32 vs 1) (\<lambda>address.
     rbind (arg_at val32 vs 2) (\<lambda>len.
     rbind (api_flash_erase api ctx address len s) (\<lambda>s.
       rpc_reply m [Arg32 ctx, Arg32 address, Arg32 len] s)))))"

definition qspi_rpc_switch :: "'s qspi_api \<Rightarrow> rpc_msg \<Rightarrow> 's \<Rightarrow> (u8 list \<times> 's) res" where
  "qspi_rpc_switch api m s =
     (if rpc_fcode m = qspi_fcode_lock then qspi_flash_lock_rpc_host api m s
      else if rpc_fcode m = qspi_fcode_unlock then qspi_flash_unlock_rpc_host api m s
      else if rpc_fcode m = qspi_fcode_read then qspi_flash_read_rpc_host api m s
      else if rpc_fcode m = qspi_fcode_write then qspi_flash_write_rpc_host api m s
      else if rpc_fcode m = qspi_fcode_erase then qspi_flash_erase_rpc_host api m s
      else Inl OutOfBounds)"

definition qspi_flash_rpc_thread :: "'s qspi_api \<Rightarrow> u8 list \<Rightarrow> 's \<Rightarrow> (u8 list \<times> 's) res" where
  "qspi_flash_rpc_thread api = rpc_host_turn (qspi_rpc_switch api)"

section \<open>Properties\<close>

lemmas qspi_rpc_defs = qspi_flash_remote_lock_def qspi_flash_remote_unlock_def qspi_flash_remote_write_def
  qspi_flash_remote_erase_def qspi_flash_lock_rpc_host_def qspi_flash_unlock_rpc_host_def
  qspi_flash_read_rpc_host_def qspi_flash_write_rpc_host_def qspi_flash_erase_rpc_host_def
  qspi_flash_rpc_thread_def qspi_rpc_switch_def qspi_fcodes

lemma chunk_small: "unat (min len RTOS_QSPI_FLASH_READ_CHUNK_SIZE) \<le> 24 * 1024"
  by (simp add: RTOS_QSPI_FLASH_READ_CHUNK_SIZE_def unat_min)

lemma remote_read_chunk_result:
  assumes rd: "api_flash_read api (host_ctx_ptr c) address n s = Inr (bs, t)" "length bs = unat n"
    and n: "unat n < 2 ^ 24" "off + unat n \<le> length data"
  shows "remote_read_chunk (qspi_flash_rpc_thread api) c data off address n s = Inr (splice off bs data, t)"
proof -
  have "splice 0 bs (drop off data) = bs @ drop (off + unat n) data"
    using rd(2) by (simp add: splice_def add.commute)
  then show ?thesis
    using rd n by (simp add: remote_read_chunk_def qspi_rpc_defs rpc_eval unat_ucast_24 splice_def)
qed

lemma remote_read_loop_contents:
  assumes rd: "\<And>a n s. api_flash_read api (host_ctx_ptr c) a n s = Inr (nor_read m a n, s)"
  shows "unat a + unat len < 2 ^ 32 \<Longrightarrow> off + unat len \<le> length data \<Longrightarrow>
    remote_read_loop (qspi_flash_rpc_thread api) c data off a len s
      = Inr (take off data @ nor_read m a len @ drop (off + unat len) data, s)"
proof (induction "unat len" arbitrary: len a off data rule: less_induct)
  case less
  let ?n = "min len RTOS_QSPI_FLASH_READ_CHUNK_SIZE"
  have n: "?n \<le> len" "unat ?n < 2 ^ 24" using chunk_small [of len] by simp_all
  have un: "unat ?n \<le> unat len" using n(1) by (simp add: word_le_nat_alt)
  have sub: "unat (len - ?n) = unat len - unat ?n" using n(1) by (rule unat_sub)
  have a': "unat (a + ?n) = unat a + unat ?n" using less(2) un by (simp add: unat_word_ariths(1))
  let ?d = "splice off (nor_read m a ?n) data"
  have chunk: "remote_read_chunk (qspi_flash_rpc_thread api) c data off a ?n s = Inr (?d, s)"
    using less(3) un n(2) by (intro remote_read_chunk_result rd) simp_all
  have tk: "take (off + unat ?n) ?d = take off data @ nor_read m a ?n"
    using less(3) un take_splice [of off "nor_read m a ?n" data] by simp
  show ?case
  proof (cases "0 < len - ?n")
    case True
    have pos: "0 < unat ?n"
    proof (rule ccontr)
      assume "\<not> 0 < unat ?n"
      then have "?n = 0" by (simp add: unat_eq_zero)
      then have "len = 0" by (auto simp: min_def RTOS_QSPI_FLASH_READ_CHUNK_SIZE_def split: if_splits)
      with True show False by simp
    qed
    have dec: "unat (len - ?n) < unat len" using sub pos un by simp
    have "remote_read_loop (qspi_flash_rpc_thread api) c data off a len s
        = remote_read_loop (qspi_flash_rpc_thread api) c ?d (off + unat ?n) (a + ?n) (len - ?n) s"
      using True chunk by (subst remote_read_loop.simps) (simp add: Let_def)
    also have "\<dots> = Inr (take (off + unat ?n) ?d @ nor_read m (a + ?n) (len - ?n)
        @ drop (off + unat ?n + unat (len - ?n)) ?d, s)"
      using less(2,3) un sub a' by (intro less(1) [OF dec]) simp_all
    also have "drop (off + unat ?n + unat (len - ?n)) ?d = drop (off + unat len) data"
      using less(3) un sub by (simp add: splice_def add.commute)
    also have "take (off + unat ?n) ?d @ nor_read m (a + ?n) (len - ?n) @ drop (off + unat len) data
        = take off data @ nor_read m a len @ drop (off + unat len) data"
      using nor_read_append [of a ?n "len - ?n" m] less(2) un sub tk by simp
    finally show ?thesis .
  next
    case False
    then have "len - ?n = 0" by (simp add: word_gt_0)
    then have n: "?n = len" by simp
    have "remote_read_loop (qspi_flash_rpc_thread api) c data off a len s = Inr (?d, s)"
      using False chunk by (subst remote_read_loop.simps) (simp add: Let_def)
    then show ?thesis unfolding n by (simp add: splice_def)
  qed
qed

text \<open>
  A read through the driver of a client tile returns the contents of the flash,
  in however many calls of at most 24 KB it is cut, provided that the host's read does.
\<close>

theorem qspi_remote_read_contents:
  assumes rd: "\<And>a n s. api_flash_read api (host_ctx_ptr c) a n s = Inr (nor_read m a n, s)"
    and "0 \<le> host_port c" and "unat address + unat len < 2 ^ 32" and "length data = unat len"
  shows "qspi_flash_remote_read (qspi_flash_rpc_thread api) c data address len s = Inr (nor_read m address len, s)"
  using assms remote_read_loop_contents [OF rd, of address len 0 data s]
  by (simp add: qspi_flash_remote_read_def)

definition example_qspi_api :: "unit qspi_api" where
  "example_qspi_api = \<lparr>api_lock = (\<lambda>c s. Inr s), api_unlock = (\<lambda>c s. Inr s),
     api_flash_read = (\<lambda>c a n s. Inr (nor_read (\<lambda>x. of_nat x) a n, s)),
     api_flash_write = (\<lambda>c d a n s. Inr s), api_flash_erase = (\<lambda>c a n s. Inr s)\<rparr>"

theorem qspi_remote_read_contents_witness:
  "qspi_flash_remote_read (qspi_flash_rpc_thread example_qspi_api) \<lparr>host_port = 0, host_ctx_ptr = 0x80000\<rparr>
     (replicate 30000 0) 100 30000 () = Inr (nor_read (\<lambda>x. of_nat x) 100 30000, ())"
  by (rule qspi_remote_read_contents) (simp_all add: example_qspi_api_def)



end
