(* ===== verification/I2c_Master.thy ===== *)
theory I2c_Master
  imports Prelude
begin

text \<open>
  The I2C master: byte transfers and transactions of the bus library
  (modules/hil/lib_i2c/src/i2c_master.c), its register helpers (api/i2c_reg.h), and the
  RTOS driver on top (modules/rtos/drivers/i2c/rtos_i2c_master.c). The two wires are a
  parameter: how a bit is driven and sampled with clock stretching and timing is port I/O.
\<close>

section \<open>The bus\<close>

text \<open>
  \<open>drive\<close> clocks one bit out, \<open>sample\<close> one bit in (an acknowledgement is a 0);
  \<open>start_bit\<close> depends on whether the last transaction was stopped. \<open>park\<close> leaves
  the clock low at the end of a transaction.
\<close>

record 'w i2c_wires =
  drive :: "bool \<Rightarrow> 'w \<Rightarrow> 'w"
  sample :: "'w \<Rightarrow> bool \<times> 'w"
  start_bit :: "bool \<Rightarrow> 'w \<Rightarrow> 'w"
  stop_bit :: "'w \<Rightarrow> 'w"
  park :: "'w \<Rightarrow> 'w"

record 'w i2c_master =
  bus :: 'w
  stopped :: bool

datatype i2c_res = I2C_NACK | I2C_ACK

text \<open>\<open>bitrev(data) >> 24\<close>, then the low bit eight times.\<close>

definition bitrev8 :: "u32 \<Rightarrow> u32" where
  "bitrev8 d = drop_bit 24 (word_reverse d)"

fun tx_bits :: "'w i2c_wires \<Rightarrow> nat \<Rightarrow> u32 \<Rightarrow> 'w \<Rightarrow> 'w" where
  "tx_bits W 0 d w = w"
| "tx_bits W (Suc i) d w = tx_bits W i (drop_bit 1 d) (drive W (bit d 0) w)"

text \<open>\<open>tx8\<close>: true is no acknowledgement.\<close>

definition tx8 :: "'w i2c_wires \<Rightarrow> u32 \<Rightarrow> 'w \<Rightarrow> bool \<times> 'w" where
  "tx8 W d w = sample W (tx_bits W 8 (bitrev8 d) w)"

fun rx_bits :: "'w i2c_wires \<Rightarrow> nat \<Rightarrow> u8 \<Rightarrow> 'w \<Rightarrow> u8 \<times> 'w" where
  "rx_bits W 0 d w = (d, w)"
| "rx_bits W (Suc i) d w = (let (b, w) = sample W w in rx_bits W i (push_bit 1 d OR of_bool b) w)"

text \<open>The loop of \<open>i2c_master_write\<close>; the byte that is not acknowledged is counted.\<close>

fun write_bytes :: "'w i2c_wires \<Rightarrow> u8 list \<Rightarrow> nat \<Rightarrow> bool \<Rightarrow> 'w \<Rightarrow> nat \<times> bool \<times> 'w" where
  "write_bytes W [] j nack w = (j, nack, w)"
| "write_bytes W (b # bs) j nack w =
     (if nack then (j, nack, w)
      else let (nack, w) = tx8 W (ucast b) w in write_bytes W bs (Suc j) nack w)"

definition finish :: "'w i2c_wires \<Rightarrow> bool \<Rightarrow> 'w \<Rightarrow> 'w i2c_master" where
  "finish W send_stop_bit w =
     (let w = park W w in if send_stop_bit then \<lparr>bus = stop_bit W w, stopped = True\<rparr> else \<lparr>bus = w, stopped = False\<rparr>)"

definition i2c_master_write ::
  "'w i2c_wires \<Rightarrow> u8 \<Rightarrow> u8 list \<Rightarrow> bool \<Rightarrow> 'w i2c_master \<Rightarrow> i2c_res \<times> nat \<times> 'w i2c_master" where
  "i2c_master_write W device_addr buf send_stop_bit m =
     (let w = start_bit W (stopped m) (bus m);
          (nack, w) = tx8 W (push_bit 1 (ucast device_addr)) w;
          (j, nack, w) = write_bytes W buf 0 nack w
      in (if nack then I2C_NACK else I2C_ACK, j, finish W send_stop_bit w))"

fun read_bytes :: "'w i2c_wires \<Rightarrow> nat \<Rightarrow> 'w \<Rightarrow> u8 list \<times> 'w" where
  "read_bytes W 0 w = ([], w)"
| "read_bytes W (Suc n) w =
     (let (d, w) = rx_bits W 8 0 w; w = drive W (n = 0) w; (ds, w) = read_bytes W n w in (d # ds, w))"

text \<open>\<open>buf\<close> is what the buffer holds before; it is left alone if the device does not answer.\<close>

definition i2c_master_read ::
  "'w i2c_wires \<Rightarrow> u8 \<Rightarrow> u8 list \<Rightarrow> bool \<Rightarrow> 'w i2c_master \<Rightarrow> i2c_res \<times> u8 list \<times> 'w i2c_master" where
  "i2c_master_read W device_addr buf send_stop_bit m =
     (let w = start_bit W (stopped m) (bus m);
          (nack, w) = tx8 W (push_bit 1 (ucast device_addr) OR 1) w
      in if nack then (I2C_NACK, buf, finish W send_stop_bit w)
         else let (ds, w) = read_bytes W (length buf) w in (I2C_ACK, ds, finish W send_stop_bit w))"

definition i2c_master_stop_bit_send :: "'w i2c_wires \<Rightarrow> 'w i2c_master \<Rightarrow> 'w i2c_master" where
  "i2c_master_stop_bit_send W m = \<lparr>bus = stop_bit W (bus m), stopped = True\<rparr>"

section \<open>Register helpers of the library\<close>

datatype i2c_regop_res = I2C_REGOP_SUCCESS | I2C_REGOP_DEVICE_NACK | I2C_REGOP_INCOMPLETE

definition hi8 :: "u16 \<Rightarrow> u8" where "hi8 w = ucast (drop_bit 8 w)"
definition lo8 :: "u16 \<Rightarrow> u8" where "lo8 w = ucast w"

definition be16 :: "u8 list \<Rightarrow> u16" where
  "be16 bs = push_bit 8 (ucast (bs ! 0)) OR ucast (bs ! 1)"

definition read_reg :: "'w i2c_wires \<Rightarrow> u8 \<Rightarrow> u8 \<Rightarrow> 'w i2c_master \<Rightarrow> i2c_regop_res \<times> u8 \<times> 'w i2c_master" where
  "read_reg W device_addr reg m =
     (let (res, bytes_sent, m) = i2c_master_write W device_addr [reg] False m
      in if bytes_sent \<noteq> 1 then (I2C_REGOP_DEVICE_NACK, 0, i2c_master_stop_bit_send W m)
         else let (res, buf, m) = i2c_master_read W device_addr [0] True m
              in (if res = I2C_NACK then I2C_REGOP_DEVICE_NACK else I2C_REGOP_SUCCESS, buf ! 0, m))"

definition read_reg8_addr16 :: "'w i2c_wires \<Rightarrow> u8 \<Rightarrow> u16 \<Rightarrow> 'w i2c_master \<Rightarrow> i2c_regop_res \<times> u8 \<times> 'w i2c_master" where
  "read_reg8_addr16 W device_addr reg m =
     (let (res, bytes_sent, m) = i2c_master_write W device_addr [hi8 reg, lo8 reg] False m
      in if bytes_sent \<noteq> 2 then (I2C_REGOP_DEVICE_NACK, 0, i2c_master_stop_bit_send W m)
         else let (res, buf, m) = i2c_master_read W device_addr [0] True m
              in (if res = I2C_NACK then I2C_REGOP_DEVICE_NACK else I2C_REGOP_SUCCESS, buf ! 0, m))"

definition read_reg16_addr8 :: "'w i2c_wires \<Rightarrow> u8 \<Rightarrow> u8 \<Rightarrow> 'w i2c_master \<Rightarrow> i2c_regop_res \<times> u16 \<times> 'w i2c_master" where
  "read_reg16_addr8 W device_addr reg m =
     (let (res, bytes_sent, m) = i2c_master_write W device_addr [reg] False m
      in if bytes_sent \<noteq> 1 then (I2C_REGOP_DEVICE_NACK, 0, i2c_master_stop_bit_send W m)
         else let (res, buf, m) = i2c_master_read W device_addr [0, 0] True m
              in (if res = I2C_NACK then I2C_REGOP_DEVICE_NACK else I2C_REGOP_SUCCESS, be16 buf, m))"

definition read_reg16 :: "'w i2c_wires \<Rightarrow> u8 \<Rightarrow> u16 \<Rightarrow> 'w i2c_master \<Rightarrow> i2c_regop_res \<times> u16 \<times> 'w i2c_master" where
  "read_reg16 W device_addr reg m =
     (let (res, bytes_sent, m) = i2c_master_write W device_addr [hi8 reg, lo8 reg] False m
      in if bytes_sent \<noteq> 2 then (I2C_REGOP_DEVICE_NACK, 0, i2c_master_stop_bit_send W m)
         else let (res, buf, m) = i2c_master_read W device_addr [0, 0] True m
              in (if res = I2C_NACK then I2C_REGOP_DEVICE_NACK else I2C_REGOP_SUCCESS, be16 buf, m))"

text \<open>How the writers turn the number of bytes sent into a result; \<open>n\<close> is the length of the message.\<close>

definition regop_of_sent :: "nat \<Rightarrow> nat \<Rightarrow> i2c_regop_res" where
  "regop_of_sent n bytes_sent =
     (if bytes_sent = 0 then I2C_REGOP_DEVICE_NACK
      else if bytes_sent < n then I2C_REGOP_INCOMPLETE
      else I2C_REGOP_SUCCESS)"

definition write_reg :: "'w i2c_wires \<Rightarrow> u8 \<Rightarrow> u8 \<Rightarrow> u8 \<Rightarrow> 'w i2c_master \<Rightarrow> i2c_regop_res \<times> 'w i2c_master" where
  "write_reg W device_addr reg d m =
     (let (res, bytes_sent, m) = i2c_master_write W device_addr [reg, d] True m in (regop_of_sent 2 bytes_sent, m))"

definition write_reg8_addr16 :: "'w i2c_wires \<Rightarrow> u8 \<Rightarrow> u16 \<Rightarrow> u8 \<Rightarrow> 'w i2c_master \<Rightarrow> i2c_regop_res \<times> 'w i2c_master" where
  "write_reg8_addr16 W device_addr reg d m =
     (let (res, bytes_sent, m) = i2c_master_write W device_addr [hi8 reg, lo8 reg, d] True m
      in (regop_of_sent 3 bytes_sent, m))"

definition write_reg16_addr8 :: "'w i2c_wires \<Rightarrow> u8 \<Rightarrow> u8 \<Rightarrow> u16 \<Rightarrow> 'w i2c_master \<Rightarrow> i2c_regop_res \<times> 'w i2c_master" where
  "write_reg16_addr8 W device_addr reg d m =
     (let (res, bytes_sent, m) = i2c_master_write W device_addr [reg, hi8 d, lo8 d] True m
      in (regop_of_sent 3 bytes_sent, m))"

definition write_reg16 :: "'w i2c_wires \<Rightarrow> u8 \<Rightarrow> u16 \<Rightarrow> u16 \<Rightarrow> 'w i2c_master \<Rightarrow> i2c_regop_res \<times> 'w i2c_master" where
  "write_reg16 W device_addr reg d m =
     (let (res, bytes_sent, m) = i2c_master_write W device_addr [hi8 reg, lo8 reg, hi8 d, lo8 d] True m
      in (regop_of_sent 4 bytes_sent, m))"

section \<open>The RTOS driver\<close>

text \<open>The driver holds its recursive lock around every transaction.\<close>

definition i2c_master_local_write ::
  "'w i2c_wires \<Rightarrow> u8 \<Rightarrow> u8 list \<Rightarrow> bool \<Rightarrow> 'w i2c_master \<Rightarrow> i2c_res \<times> nat \<times> 'w i2c_master" where
  "i2c_master_local_write W device_addr buf send_stop_bit m = i2c_master_write W device_addr buf send_stop_bit m"

definition i2c_master_local_read ::
  "'w i2c_wires \<Rightarrow> u8 \<Rightarrow> u8 list \<Rightarrow> bool \<Rightarrow> 'w i2c_master \<Rightarrow> i2c_res \<times> u8 list \<times> 'w i2c_master" where
  "i2c_master_local_read W device_addr buf send_stop_bit m = i2c_master_read W device_addr buf send_stop_bit m"

definition i2c_master_local_stop_bit_send :: "'w i2c_wires \<Rightarrow> 'w i2c_master \<Rightarrow> 'w i2c_master" where
  "i2c_master_local_stop_bit_send W m = i2c_master_stop_bit_send W m"

definition i2c_master_local_reg_write ::
  "'w i2c_wires \<Rightarrow> u8 \<Rightarrow> u8 \<Rightarrow> u8 \<Rightarrow> 'w i2c_master \<Rightarrow> i2c_regop_res \<times> 'w i2c_master" where
  "i2c_master_local_reg_write W device_addr reg_addr d m =
     (let (res, num_bytes_sent, m) = i2c_master_local_write W device_addr [reg_addr, d] True m
      in (if res = I2C_ACK
          then if num_bytes_sent = 0 then I2C_REGOP_DEVICE_NACK
               else if num_bytes_sent < 2 then I2C_REGOP_INCOMPLETE
               else I2C_REGOP_SUCCESS
          else I2C_REGOP_DEVICE_NACK, m))"

text \<open>\<open>d\<close> is what the caller's byte holds before.\<close>

definition i2c_master_local_reg_read ::
  "'w i2c_wires \<Rightarrow> u8 \<Rightarrow> u8 \<Rightarrow> u8 \<Rightarrow> 'w i2c_master \<Rightarrow> i2c_regop_res \<times> u8 \<times> 'w i2c_master" where
  "i2c_master_local_reg_read W device_addr reg_addr d m =
     (let (res, num_bytes_sent, m) = i2c_master_local_write W device_addr [reg_addr] False m;
          reg_res = (if res = I2C_ACK
                     then if num_bytes_sent = 0 then I2C_REGOP_DEVICE_NACK else I2C_REGOP_SUCCESS
                     else I2C_REGOP_DEVICE_NACK)
      in if reg_res = I2C_REGOP_SUCCESS
         then let (res, buf, m) = i2c_master_local_read W device_addr [d] True m
              in (if res = I2C_ACK then I2C_REGOP_SUCCESS else I2C_REGOP_DEVICE_NACK, buf ! 0, m)
         else (reg_res, d, m))"

section \<open>What appears on the bus\<close>

text \<open>
  Wires that record what happens and take the bits they sample from a script: the device's
  acknowledgements. A byte goes out with its most significant bit first.
\<close>

datatype wire_event = Start_Bit bool | Bit_Out bool | Bit_In bool | Parked | Stop_Bit

record tape =
  script :: "bool list"
  events_out :: "wire_event list"

definition tape_wires :: "tape i2c_wires" where
  "tape_wires = \<lparr>drive = (\<lambda>b t. t\<lparr>events_out := events_out t @ [Bit_Out b]\<rparr>),
     sample = (\<lambda>t. (script t = [] \<or> hd (script t),
       t\<lparr>script := tl (script t), events_out := events_out t @ [Bit_In (script t = [] \<or> hd (script t))]\<rparr>)),
     start_bit = (\<lambda>st t. t\<lparr>events_out := events_out t @ [Start_Bit st]\<rparr>),
     stop_bit = (\<lambda>t. t\<lparr>events_out := events_out t @ [Stop_Bit]\<rparr>),
     park = (\<lambda>t. t\<lparr>events_out := events_out t @ [Parked]\<rparr>)\<rparr>"

definition frame_bits :: "u8 \<Rightarrow> bool \<Rightarrow> wire_event list" where
  "frame_bits b nack = map (\<lambda>i. Bit_Out (bit b (7 - i))) [0 ..< 8] @ [Bit_In nack]"

text \<open>The frames of a write: up to the first byte that is not acknowledged.\<close>

fun frames :: "u8 list \<Rightarrow> bool list \<Rightarrow> wire_event list" where
  "frames (b # bs) (a # as) = frame_bits b a @ (if a then [] else frames bs as)"
| "frames bs as = []"

fun sent_count :: "u8 list \<Rightarrow> bool list \<Rightarrow> nat" where
  "sent_count (b # bs) (a # as) = Suc (if a then 0 else sent_count bs as)"
| "sent_count bs as = 0"

lemma tx_bits_msb:
  "tx_bits W 8 (bitrev8 d) w = fold (drive W) (map (\<lambda>i. bit d (7 - i)) [0 ..< 8]) w"
proof -
  have b: "bit (drop_bit k (bitrev8 d)) 0 = bit d (7 - k)" if "k < 8" for k
    using that by (simp add: bitrev8_def bit_simps)
  have "tx_bits W 8 x w = fold (drive W) (map (\<lambda>k. bit (drop_bit k x) 0) [0 ..< 8]) w" for x
    by (simp add: eval_nat_numeral upt_rec)
  also have "map (\<lambda>k. bit (drop_bit k (bitrev8 d)) 0) [0 ..< 8] = map (\<lambda>i. bit d (7 - i)) [0 ..< 8]"
    using b by (intro map_cong) auto
  finally show ?thesis .
qed

lemma fold_drive_tape:
  "fold (drive tape_wires) bs t = t\<lparr>events_out := events_out t @ map Bit_Out bs\<rparr>"
  by (induction bs arbitrary: t) (simp_all add: tape_wires_def)

lemma seven_minus [simp]: "7 - i < (8 :: nat)"
  by arith

lemma ucast_u32_u8 [simp]: "ucast (ucast b :: u32) = (b :: u8)"
  by (rule bit_word_eqI) (simp add: bit_simps)

lemma tx8_tape:
  "script t = a # as \<Longrightarrow> tx8 tape_wires d t =
    (a, t\<lparr>script := as, events_out := events_out t @ frame_bits (ucast d) a\<rparr>)"
  unfolding tx8_def tx_bits_msb fold_drive_tape
  by (simp add: tape_wires_def frame_bits_def bit_simps comp_def)

lemma write_bytes_nacked: "write_bytes W bs j True w = (j, True, w)"
  by (cases bs) simp_all

lemma write_bytes_tape:
  "length bs \<le> length (script t) \<Longrightarrow> write_bytes tape_wires bs j False t =
    (j + sent_count bs (script t), True \<in> set (take (length bs) (script t)),
     t\<lparr>script := drop (sent_count bs (script t)) (script t), events_out := events_out t @ frames bs (script t)\<rparr>)"
proof (induction bs arbitrary: j t)
  case Nil
  then show ?case by simp
next
  case (Cons b bs)
  then obtain a as where sc: "script t = a # as" by (cases "script t") auto
  have tx: "tx8 tape_wires (ucast b) t = (a, t\<lparr>script := as, events_out := events_out t @ frame_bits b a\<rparr>)"
    using tx8_tape [OF sc, of "ucast b"] by simp
  show ?case
    using tx sc Cons by (cases a) (simp_all add: write_bytes_nacked)
qed

section \<open>Properties\<close>

lemma i2c_write_tape:
  assumes acks: "acks = a # as" "length buf \<le> length as \<or> a"
  shows "\<exists>t. i2c_master_write tape_wires device_addr buf stop
      \<lparr>bus = \<lparr>script = acks, events_out = []\<rparr>, stopped = st\<rparr>
    = (if True \<in> set (take (Suc (length buf)) acks) then I2C_NACK else I2C_ACK,
       (if a then 0 else sent_count buf as), \<lparr>bus = t, stopped = stop\<rparr>)
    \<and> events_out t = Start_Bit st # frames (push_bit 1 device_addr # buf) acks @ Parked # (if stop then [Stop_Bit] else [])"
proof -
  let ?t0 = "\<lparr>script = acks, events_out = [Start_Bit st]\<rparr> :: tape"
  have start: "start_bit tape_wires st \<lparr>script = acks, events_out = []\<rparr> = ?t0" by (simp add: tape_wires_def)
  have addr: "ucast (push_bit 1 (ucast device_addr) :: u32) = push_bit 1 device_addr"
    by (rule bit_word_eqI, unfold bit_unsigned_iff bit_push_bit_iff) (auto dest: bit_imp_le_length)
  have tx: "tx8 tape_wires (push_bit 1 (ucast device_addr)) ?t0
      = (a, \<lparr>script = as, events_out = Start_Bit st # frame_bits (push_bit 1 device_addr) a\<rparr>)"
    using tx8_tape [of ?t0 a as "push_bit 1 (ucast device_addr)"] acks(1) addr by simp
  have park: "park tape_wires u = u\<lparr>events_out := events_out u @ [Parked]\<rparr>"
    "stop_bit tape_wires u = u\<lparr>events_out := events_out u @ [Stop_Bit]\<rparr>" for u
    by (simp_all add: tape_wires_def)
  show ?thesis
  proof (cases a)
    case True
    then show ?thesis
      using start tx acks by (simp add: i2c_master_write_def write_bytes_nacked finish_def park Let_def)
  next
    case False
    then show ?thesis
      using start tx acks write_bytes_tape [of buf "\<lparr>script = as, events_out = Start_Bit st # frame_bits (push_bit 1 device_addr) a\<rparr>" 0]
      by (simp add: i2c_master_write_def finish_def park Let_def)
  qed
qed

text \<open>
  A write transaction puts on the bus a start bit, the address byte with a cleared
  read bit and the data bytes, most significant bit first and each followed by the device's
  acknowledgement, up to and including the first byte that is not acknowledged, and a stop bit
  if one is asked for. It reports an acknowledgement exactly if every byte was acknowledged,
  and the number of data bytes put on the bus, the refused one included.
\<close>

theorem i2c_write_frames:
  assumes acks: "acks = a # as" "length buf \<le> length as"
  shows "\<exists>t. i2c_master_write tape_wires device_addr buf stop
      \<lparr>bus = \<lparr>script = acks, events_out = []\<rparr>, stopped = st\<rparr>
    = (if True \<in> set (take (Suc (length buf)) acks) then I2C_NACK else I2C_ACK,
       (if a then 0 else sent_count buf as), \<lparr>bus = t, stopped = stop\<rparr>)
    \<and> events_out t = Start_Bit st # frames (push_bit 1 device_addr # buf) acks @ Parked # (if stop then [Stop_Bit] else [])"
  by (rule i2c_write_tape) (use assms in simp_all)

theorem i2c_write_frames_witness:
  "\<exists>t. i2c_master_write tape_wires 0x50 [1, 2] True \<lparr>bus = \<lparr>script = [False, False, True], events_out = []\<rparr>, stopped = True\<rparr>
    = (if True \<in> set (take (Suc (length [1, 2 :: u8])) [False, False, True]) then I2C_NACK else I2C_ACK,
       (if False then 0 else sent_count [1, 2] [False, True]), \<lparr>bus = t, stopped = True\<rparr>)
    \<and> events_out t = Start_Bit True # frames (push_bit 1 0x50 # [1, 2]) [False, False, True]
        @ Parked # (if True then [Stop_Bit] else [])"
  by (rule i2c_write_frames) simp_all

text \<open>Whatever the wires do: an acknowledged write has sent all its bytes.\<close>

lemma write_bytes_acked:
  "write_bytes W bs j nack w = (k, False, v) \<Longrightarrow> k = j + length bs"
proof (induction bs arbitrary: j nack w)
  case (Cons b bs)
  then have "\<not> nack" by (cases nack) simp_all
  then obtain a w2 where "write_bytes W bs (Suc j) a w2 = (k, False, v)"
    using Cons.prems by (auto split: prod.splits)
  from Cons.IH [OF this] show ?case by simp
qed simp

lemma i2c_write_acked: "i2c_master_write W addr bs stop m = (I2C_ACK, k, v) \<Longrightarrow> k = length bs"
  by (auto simp: i2c_master_write_def Let_def split: prod.splits if_splits dest: write_bytes_acked)

text \<open>
  When the device refuses the last byte of a register write, the helper of the
  library reports success, since the refused byte was counted as sent, while the RTOS driver
  reports that the device did not acknowledge. The third result, an incomplete write, is
  never returned by the RTOS driver, whatever happens on the wires.
\<close>

theorem i2c_refused_byte:
  assumes "i2c_master_write W addr [reg, d] True m = (I2C_NACK, 2, m')"
  shows "write_reg W addr reg d m = (I2C_REGOP_SUCCESS, m')
    \<and> i2c_master_local_reg_write W addr reg d m = (I2C_REGOP_DEVICE_NACK, m')
    \<and> fst (i2c_master_local_reg_write V addr2 reg2 d2 n) \<noteq> I2C_REGOP_INCOMPLETE"
proof -
  obtain r k v where e: "i2c_master_write V addr2 [reg2, d2] True n = (r, k, v)" by (cases "i2c_master_write V addr2 [reg2, d2] True n")
  have "r = I2C_ACK \<Longrightarrow> k = 2" using i2c_write_acked [of V addr2 "[reg2, d2]" True n k v] e by simp
  then show ?thesis
    using assms e by (auto simp: write_reg_def regop_of_sent_def i2c_master_local_reg_write_def i2c_master_local_write_def)
qed

theorem i2c_refused_byte_witness:
  "write_reg tape_wires 0x50 1 2 \<lparr>bus = \<lparr>script = [False, False, True], events_out = []\<rparr>, stopped = True\<rparr>
   = (I2C_REGOP_SUCCESS, snd (snd (i2c_master_write tape_wires 0x50 [1, 2] True \<lparr>bus = \<lparr>script = [False, False, True], events_out = []\<rparr>, stopped = True\<rparr>)))"
proof -
  let ?m = "\<lparr>bus = \<lparr>script = [False, False, True], events_out = []\<rparr>, stopped = True\<rparr>"
  have "i2c_master_write tape_wires 0x50 [1, 2] True ?m
      = (I2C_NACK, 2, snd (snd (i2c_master_write tape_wires 0x50 [1, 2] True ?m)))"
    using i2c_write_tape [where acks = "[False, False, True]" and a = False and as = "[False, True]" and buf = "[1, 2]"
      and device_addr = "0x50" and stop = True and st = True] by auto
  from i2c_refused_byte [OF this] show ?thesis by blast
qed

text \<open>
  A register read that the device refuses leaves the bus unstopped in the RTOS
  driver (the clock is held low), whereas the helper of the library, which looks at the number of
  bytes sent, releases the bus if the address was refused.
\<close>

theorem i2c_reg_read_holds_bus:
  assumes "i2c_master_write W addr [reg] False m = (I2C_NACK, k, m')"
  shows "i2c_master_local_reg_read W addr reg d m = (I2C_REGOP_DEVICE_NACK, d, m') \<and> \<not> stopped m'
    \<and> (k = 0 \<longrightarrow> read_reg W addr reg m = (I2C_REGOP_DEVICE_NACK, 0, \<lparr>bus = stop_bit W (bus m'), stopped = True\<rparr>))"
  using assms
  by (auto simp: i2c_master_local_reg_read_def i2c_master_local_write_def read_reg_def i2c_master_stop_bit_send_def
      i2c_master_write_def finish_def Let_def split: prod.splits)

theorem i2c_reg_read_holds_bus_witness:
  "\<not> stopped (snd (snd (i2c_master_local_reg_read tape_wires 0x50 1 0 \<lparr>bus = \<lparr>script = [True], events_out = []\<rparr>, stopped = True\<rparr>)))"
proof -
  let ?m = "\<lparr>bus = \<lparr>script = [True], events_out = []\<rparr>, stopped = True\<rparr>"
  obtain t where "i2c_master_write tape_wires 0x50 [1] False ?m = (I2C_NACK, 0, t)"
    using i2c_write_tape [where acks = "[True]" and a = True and as = "[]" and buf = "[1]" and device_addr = "0x50" and stop = False and st = True]
    by auto
  from i2c_reg_read_holds_bus [OF this, of 0] show ?thesis by simp
qed

end
