(* ===== verification/I2c_Rpc.thy ===== *)
theory I2c_Rpc
  imports Rpc I2c_Master
begin

text \<open>
  The remote half of the I2C master driver, modules/rtos/drivers/i2c/rtos_i2c_master_rpc.c,
  composed with the driver of I2c_Master on the host: \<open>W\<close> are the wires, \<open>self\<close>
  the address of the driver instance on the host, and the host's state is that instance.
  The result codes travel as the numbers of their enumerations.
\<close>

section \<open>Function codes and results\<close>

definition i2c_fcode_write :: u32 where "i2c_fcode_write = 0"
definition i2c_fcode_read :: u32 where "i2c_fcode_read = 1"
definition i2c_fcode_stop_bit_send :: u32 where "i2c_fcode_stop_bit_send = 2"
definition i2c_fcode_reg_write :: u32 where "i2c_fcode_reg_write = 3"
definition i2c_fcode_reg_read :: u32 where "i2c_fcode_reg_read = 4"

lemmas i2c_fcodes = i2c_fcode_write_def i2c_fcode_read_def i2c_fcode_stop_bit_send_def i2c_fcode_reg_write_def i2c_fcode_reg_read_def

definition res_num :: "i2c_res \<Rightarrow> u32" where
  "res_num r = (case r of I2C_NACK \<Rightarrow> 0 | I2C_ACK \<Rightarrow> 1)"

definition regop_num :: "i2c_regop_res \<Rightarrow> u32" where
  "regop_num r = (case r of I2C_REGOP_SUCCESS \<Rightarrow> 0 | I2C_REGOP_DEVICE_NACK \<Rightarrow> 1 | I2C_REGOP_INCOMPLETE \<Rightarrow> 2)"

section \<open>The client\<close>

text \<open>
  \<open>sent\<close> is what \<open>*num_bytes_sent\<close> holds before the call; NULL is not an
  argument of the model. The results are the code, and what the call stores.
\<close>

definition i2c_master_remote_write ::
  "(u8 list \<Rightarrow> 's \<Rightarrow> (u8 list \<times> 's) res) \<Rightarrow> rpc_client \<Rightarrow> u8 \<Rightarrow> u8 list \<Rightarrow> u32 \<Rightarrow> u32 \<Rightarrow> u32 \<Rightarrow> 's \<Rightarrow> ((u32 \<times> u32) \<times> 's) res" where
  "i2c_master_remote_write host c device_addr buf n sent send_stop_bit s =
     rbind (c_assert (0 \<le> host_port c)) (\<lambda>_.
     rbind (rpc_client_call_generic host i2c_fcode_write
         [RPC_PARAM_TYPE 4, RPC_PARAM_TYPE 1, RPC_PARAM_IN_BUFFER 1 n, RPC_PARAM_TYPE 4, RPC_PARAM_RETURN 4,
          RPC_PARAM_TYPE 4, RPC_PARAM_RETURN 4, RPC_PARAM_LIST_END]
         [le32 (host_ctx_ptr c), [device_addr], buf, le32 n, le32 sent, le32 send_stop_bit, le32 0] s)
       (\<lambda>(args, s). Inr ((of_le32 (args ! 6), of_le32 (args ! 4)), s)))"

definition i2c_master_remote_read ::
  "(u8 list \<Rightarrow> 's \<Rightarrow> (u8 list \<times> 's) res) \<Rightarrow> rpc_client \<Rightarrow> u8 \<Rightarrow> u8 list \<Rightarrow> u32 \<Rightarrow> u32 \<Rightarrow> 's \<Rightarrow> ((u32 \<times> u8 list) \<times> 's) res" where
  "i2c_master_remote_read host c device_addr buf n send_stop_bit s =
     rbind (c_assert (0 \<le> host_port c)) (\<lambda>_.
     rbind (rpc_client_call_generic host i2c_fcode_read
         [RPC_PARAM_TYPE 4, RPC_PARAM_TYPE 1, RPC_PARAM_OUT_BUFFER 1 n, RPC_PARAM_TYPE 4, RPC_PARAM_TYPE 4,
          RPC_PARAM_RETURN 4, RPC_PARAM_LIST_END]
         [le32 (host_ctx_ptr c), [device_addr], buf, le32 n, le32 send_stop_bit, le32 0] s)
       (\<lambda>(args, s). Inr ((of_le32 (args ! 5), args ! 2), s)))"

definition i2c_master_remote_stop_bit_send ::
  "(u8 list \<Rightarrow> 's \<Rightarrow> (u8 list \<times> 's) res) \<Rightarrow> rpc_client \<Rightarrow> 's \<Rightarrow> 's res" where
  "i2c_master_remote_stop_bit_send host c s =
     rbind (c_assert (0 \<le> host_port c)) (\<lambda>_.
     rbind (rpc_client_call_generic host i2c_fcode_stop_bit_send [RPC_PARAM_TYPE 4, RPC_PARAM_LIST_END]
         [le32 (host_ctx_ptr c)] s) (\<lambda>(args, s). Inr s))"

definition i2c_master_remote_reg_write ::
  "(u8 list \<Rightarrow> 's \<Rightarrow> (u8 list \<times> 's) res) \<Rightarrow> rpc_client \<Rightarrow> u8 \<Rightarrow> u8 \<Rightarrow> u8 \<Rightarrow> 's \<Rightarrow> (u32 \<times> 's) res" where
  "i2c_master_remote_reg_write host c device_addr reg_addr d s =
     rbind (c_assert (0 \<le> host_port c)) (\<lambda>_.
     rbind (rpc_client_call_generic host i2c_fcode_reg_write
         [RPC_PARAM_TYPE 4, RPC_PARAM_TYPE 1, RPC_PARAM_TYPE 1, RPC_PARAM_TYPE 1, RPC_PARAM_RETURN 4, RPC_PARAM_LIST_END]
         [le32 (host_ctx_ptr c), [device_addr], [reg_addr], [d], le32 0] s)
       (\<lambda>(args, s). Inr (of_le32 (args ! 4), s)))"

definition i2c_master_remote_reg_read ::
  "(u8 list \<Rightarrow> 's \<Rightarrow> (u8 list \<times> 's) res) \<Rightarrow> rpc_client \<Rightarrow> u8 \<Rightarrow> u8 \<Rightarrow> u8 \<Rightarrow> 's \<Rightarrow> ((u32 \<times> u8) \<times> 's) res" where
  "i2c_master_remote_reg_read host c device_addr reg_addr d s =
     rbind (c_assert (0 \<le> host_port c)) (\<lambda>_.
     rbind (rpc_client_call_generic host i2c_fcode_reg_read
         [RPC_PARAM_TYPE 4, RPC_PARAM_TYPE 1, RPC_PARAM_TYPE 1, RPC_PARAM_RETURN 1, RPC_PARAM_RETURN 4, RPC_PARAM_LIST_END]
         [le32 (host_ctx_ptr c), [device_addr], [reg_addr], [d], le32 0] s)
       (\<lambda>(args, s). Inr ((of_le32 (args ! 4), hd (args ! 3)), s)))"

section \<open>The host\<close>

text \<open>A context pointer that is not the instance is a wild access.\<close>

definition the_instance :: "u32 \<Rightarrow> u32 \<Rightarrow> unit res" where
  "the_instance self ctx = (if ctx = self then Inr () else Inl OutOfBounds)"

text \<open>\<open>rtos_i2c_master_write\<close> is given \<open>n\<close> bytes of the message; fewer are an access behind its end.\<close>

definition i2c_master_write_rpc_host ::
  "'w i2c_wires \<Rightarrow> u32 \<Rightarrow> rpc_msg \<Rightarrow> 'w i2c_master \<Rightarrow> (u8 list \<times> 'w i2c_master) res" where
  "i2c_master_write_rpc_host W self m s =
     rbind (rpc_request_unmarshall_va m) (\<lambda>vs.
     rbind (arg_at val32 vs 0) (\<lambda>ctx.
     rbind (arg_at val8 vs 1) (\<lambda>device_addr.
     rbind (arg_at val_buf vs 2) (\<lambda>buf.
     rbind (arg_at val32 vs 3) (\<lambda>n.
     rbind (arg_at val32 vs 5) (\<lambda>send_stop_bit.
     rbind (the_instance self ctx) (\<lambda>_.
       if length buf < unat n then Inl OutOfBounds
       else let (ret, num_bytes_sent, s) = i2c_master_local_write W device_addr (take (unat n) buf) (send_stop_bit \<noteq> 0) s
            in rpc_reply m [Arg32 ctx, Arg32 (ucast device_addr), ArgPtr buf, Arg32 n, Arg32 (of_nat num_bytes_sent),
                 Arg32 send_stop_bit, Arg32 (res_num ret)] s)))))))"

text \<open>\<open>fresh\<close> is what the memory allocated for the data holds.\<close>

definition i2c_master_read_rpc_host ::
  "'w i2c_wires \<Rightarrow> (nat \<Rightarrow> u8 list) \<Rightarrow> u32 \<Rightarrow> rpc_msg \<Rightarrow> 'w i2c_master \<Rightarrow> (u8 list \<times> 'w i2c_master) res" where
  "i2c_master_read_rpc_host W fresh self m s =
     rbind (rpc_request_unmarshall_va m) (\<lambda>vs.
     rbind (arg_at val32 vs 0) (\<lambda>ctx.
     rbind (arg_at val8 vs 1) (\<lambda>device_addr.
     rbind (arg_at val32 vs 3) (\<lambda>n.
     rbind (arg_at val32 vs 4) (\<lambda>send_stop_bit.
     rbind (the_instance self ctx) (\<lambda>_.
       let (ret, buf, s) = i2c_master_local_read W device_addr (fresh (unat n)) (send_stop_bit \<noteq> 0) s
       in rpc_reply m [Arg32 ctx, Arg32 (ucast device_addr), ArgPtr buf, Arg32 n, Arg32 send_stop_bit, Arg32 (res_num ret)] s))))))"

definition i2c_master_stop_bit_send_rpc_host ::
  "'w i2c_wires \<Rightarrow> u32 \<Rightarrow> rpc_msg \<Rightarrow> 'w i2c_master \<Rightarrow> (u8 list \<times> 'w i2c_master) res" where
  "i2c_master_stop_bit_send_rpc_host W self m s =
     rbind (rpc_request_unmarshall_va m) (\<lambda>vs.
     rbind (arg_at val32 vs 0) (\<lambda>ctx.
     rbind (the_instance self ctx) (\<lambda>_.
       rpc_reply m [Arg32 ctx] (i2c_master_local_stop_bit_send W s))))"

definition i2c_master_reg_write_rpc_host ::
  "'w i2c_wires \<Rightarrow> u32 \<Rightarrow> rpc_msg \<Rightarrow> 'w i2c_master \<Rightarrow> (u8 list \<times> 'w i2c_master) res" where
  "i2c_master_reg_write_rpc_host W self m s =
     rbind (rpc_request_unmarshall_va m) (\<lambda>vs.
     rbind (arg_at val32 vs 0) (\<lambda>ctx.
     rbind (arg_at val8 vs 1) (\<lambda>device_addr.
     rbind (arg_at val8 vs 2) (\<lambda>reg_addr.
     rbind (arg_at val8 vs 3) (\<lambda>d.
     rbind (the_instance self ctx) (\<lambda>_.
       let (ret, s) = i2c_master_local_reg_write W device_addr reg_addr d s
       in rpc_reply m [Arg32 ctx, Arg32 (ucast device_addr), Arg32 (ucast reg_addr), Arg32 (ucast d), Arg32 (regop_num ret)] s))))))"

text \<open>\<open>junk\<close> is what the host's uninitialised variable for the data holds.\<close>

definition i2c_master_reg_read_rpc_host ::
  "'w i2c_wires \<Rightarrow> u8 \<Rightarrow> u32 \<Rightarrow> rpc_msg \<Rightarrow> 'w i2c_master \<Rightarrow> (u8 list \<times> 'w i2c_master) res" where
  "i2c_master_reg_read_rpc_host W junk self m s =
     rbind (rpc_request_unmarshall_va m) (\<lambda>vs.
     rbind (arg_at val32 vs 0) (\<lambda>ctx.
     rbind (arg_at val8 vs 1) (\<lambda>device_addr.
     rbind (arg_at val8 vs 2) (\<lambda>reg_addr.
     rbind (the_instance self ctx) (\<lambda>_.
       let (ret, d, s) = i2c_master_local_reg_read W device_addr reg_addr junk s
       in rpc_reply m [Arg32 ctx, Arg32 (ucast device_addr), Arg32 (ucast reg_addr), Arg32 (ucast d), Arg32 (regop_num ret)] s)))))"

definition i2c_rpc_switch ::
  "'w i2c_wires \<Rightarrow> (nat \<Rightarrow> u8 list) \<Rightarrow> u8 \<Rightarrow> u32 \<Rightarrow> rpc_msg \<Rightarrow> 'w i2c_master \<Rightarrow> (u8 list \<times> 'w i2c_master) res" where
  "i2c_rpc_switch W fresh junk self m s =
     (if rpc_fcode m = i2c_fcode_write then i2c_master_write_rpc_host W self m s
      else if rpc_fcode m = i2c_fcode_read then i2c_master_read_rpc_host W fresh self m s
      else if rpc_fcode m = i2c_fcode_stop_bit_send then i2c_master_stop_bit_send_rpc_host W self m s
      else if rpc_fcode m = i2c_fcode_reg_write then i2c_master_reg_write_rpc_host W self m s
      else if rpc_fcode m = i2c_fcode_reg_read then i2c_master_reg_read_rpc_host W junk self m s
      else Inl OutOfBounds)"

definition i2c_master_rpc_thread ::
  "'w i2c_wires \<Rightarrow> (nat \<Rightarrow> u8 list) \<Rightarrow> u8 \<Rightarrow> u32 \<Rightarrow> u8 list \<Rightarrow> 'w i2c_master \<Rightarrow> (u8 list \<times> 'w i2c_master) res" where
  "i2c_master_rpc_thread W fresh junk self = rpc_host_turn (i2c_rpc_switch W fresh junk self)"

section \<open>Properties\<close>

lemmas i2c_rpc_defs = i2c_master_remote_write_def i2c_master_remote_read_def i2c_master_remote_stop_bit_send_def
  i2c_master_remote_reg_write_def i2c_master_remote_reg_read_def i2c_master_write_rpc_host_def
  i2c_master_read_rpc_host_def i2c_master_stop_bit_send_rpc_host_def i2c_master_reg_write_rpc_host_def
  i2c_master_reg_read_rpc_host_def i2c_master_rpc_thread_def i2c_rpc_switch_def i2c_fcodes the_instance_def

lemma take_1_le32_ucast [simp]: "take 1 (le32 (ucast b)) = [b]" "take (Suc 0) (le32 (ucast b)) = [b]"
  by (simp_all add: le32_def)

lemma length_read_bytes: "length (fst (read_bytes W n w)) = n"
proof (induction n arbitrary: w)
  case (Suc n)
  obtain d v where "rx_bits W 8 0 w = (d, v)" by fastforce
  with Suc [of "drive W (n = 0) v"] show ?case by (auto simp: Let_def split: prod.splits)
qed simp

lemma length_i2c_read:
  "i2c_master_local_read W addr buf stop m = (r, ds, v) \<Longrightarrow> length ds = length buf"
  using length_read_bytes [of W "length buf"]
  by (auto simp: i2c_master_local_read_def i2c_master_read_def Let_def split: prod.splits if_splits) (metis fst_conv)


lemma i2c_read_remote:
  assumes "0 \<le> host_port c" "length buf = unat n" "unat n < 2 ^ 24" "\<And>k. length (fresh k) = k"
  shows "i2c_master_remote_read (i2c_master_rpc_thread W fresh junk (host_ctx_ptr c)) c addr buf n stop s
      = (case i2c_master_local_read W addr (fresh (unat n)) (stop \<noteq> 0) s of (r, ds, t) \<Rightarrow> Inr ((res_num r, ds), t))"
proof -
  obtain r ds t where l: "i2c_master_local_read W addr (fresh (unat n)) (stop \<noteq> 0) s = (r, ds, t)"
    using prod_cases3 by blast
  moreover have "length ds = unat n" using length_i2c_read [OF l] assms(4) by simp
  ultimately show ?thesis using assms(1-3)
    by (cases "unat n = 0") (simp_all add: i2c_rpc_defs rpc_eval unat_ucast_24)
qed

lemma i2c_write_remote:
  assumes "0 \<le> host_port c" "length buf = unat n" "unat n < 2 ^ 24"
  shows "i2c_master_remote_write (i2c_master_rpc_thread W fresh junk (host_ctx_ptr c)) c addr buf n sent stop s
      = (case i2c_master_local_write W addr buf (stop \<noteq> 0) s of (r, k, t) \<Rightarrow> Inr ((res_num r, of_nat k), t))"
proof -
  obtain r k t where "i2c_master_local_write W addr buf (stop \<noteq> 0) s = (r, k, t)"
    using prod_cases3 by blast
  then show ?thesis using assms
    by (cases "unat n = 0") (simp_all add: i2c_rpc_defs rpc_eval unat_ucast_24)
qed

text \<open>
  An I2C transaction through the driver of a client tile is the transaction of the host
  on its wires: the device, the data, the stop flag arrive, and the result code, the number of
  bytes sent and the data read come back. One difference remains: if the host's read or register
  read is not acknowledged, the caller's buffer is overwritten with what the host's memory
  happened to hold.
\<close>

theorem i2c_remote_is_local:
  assumes "0 \<le> host_port c" and "length buf = unat n" and "unat n < 2 ^ 24"
    and "\<And>k. length (fresh k) = k"
    and "host = i2c_master_rpc_thread W fresh junk (host_ctx_ptr c)"
  shows "i2c_master_remote_write host c addr buf n sent stop s
      = (case i2c_master_local_write W addr buf (stop \<noteq> 0) s of (r, k, t) \<Rightarrow> Inr ((res_num r, of_nat k), t))
    \<and> i2c_master_remote_read host c addr buf n stop s
      = (case i2c_master_local_read W addr (fresh (unat n)) (stop \<noteq> 0) s of (r, ds, t) \<Rightarrow> Inr ((res_num r, ds), t))
    \<and> i2c_master_remote_stop_bit_send host c s = Inr (i2c_master_local_stop_bit_send W s)
    \<and> i2c_master_remote_reg_write host c addr reg d s
      = (case i2c_master_local_reg_write W addr reg d s of (r, t) \<Rightarrow> Inr (regop_num r, t))
    \<and> i2c_master_remote_reg_read host c addr reg d s
      = (case i2c_master_local_reg_read W addr reg junk s of (r, e, t) \<Rightarrow> Inr ((regop_num r, e), t))"
  unfolding assms(5) using assms(1-4)
  by (intro conjI i2c_write_remote i2c_read_remote)
    (simp_all add: i2c_rpc_defs rpc_eval split: prod.splits)

definition example_wires_state :: "tape i2c_master" where
  "example_wires_state = \<lparr>bus = \<lparr>script = [False, False, True], events_out = []\<rparr>, stopped = True\<rparr>"

theorem i2c_remote_is_local_witness:
  "i2c_master_remote_write (i2c_master_rpc_thread tape_wires (\<lambda>k. replicate k 0) 0 0x80000)
      \<lparr>host_port = 3, host_ctx_ptr = 0x80000\<rparr> 0x50 [1, 2] 2 0 1 example_wires_state
    = (case i2c_master_local_write tape_wires 0x50 [1, 2] True example_wires_state of
        (r, k, t) \<Rightarrow> Inr ((res_num r, of_nat k), t))"
  using i2c_remote_is_local [of "\<lparr>host_port = 3, host_ctx_ptr = 0x80000\<rparr>" "[1, 2]" 2 "\<lambda>k. replicate k 0"
      "i2c_master_rpc_thread tape_wires (\<lambda>k. replicate k 0) 0 0x80000" tape_wires 0 "0x50" 0 1 example_wires_state]
  by simp

end
