(* ===== verification/I2c_Slave.thy ===== *)
theory I2c_Slave
  imports I2c_Master
begin

text \<open>
  The I2C slave of the bus library, modules/hil/lib_i2c/src/i2c_slave.c: an automaton that waits
  for levels of the two lines and calls the application, and the lines that connect it to the
  master of I2c_Master. Times are left out: the slave handles a change of a line before the
  next one, as its 100 ns are short of the half periods of the clock.
\<close>

section \<open>The automaton\<close>

datatype i2c_slave_state =
  WAITING_FOR_START_OR_STOP
| READING_ADDR
| ACK_ADDR
| ACK_WAIT_HIGH
| ACK_WAIT_LOW
| IGNORE_ACK
| MASTER_WRITE
| MASTER_READ

datatype i2c_slave_ack = I2C_SLAVE_ACK | I2C_SLAVE_NACK

record 'a i2c_callback_group =
  ack_read_request :: "'a \<Rightarrow> i2c_slave_ack \<times> 'a"
  ack_write_request :: "'a \<Rightarrow> i2c_slave_ack \<times> 'a"
  master_requires_data :: "'a \<Rightarrow> u8 \<times> 'a"
  master_sent_data :: "u8 \<Rightarrow> 'a \<Rightarrow> i2c_slave_ack \<times> 'a"
  slave_stop_bit :: "('a \<Rightarrow> 'a) option"
  shutdown :: "'a \<Rightarrow> bool"

text \<open>
  The variables of \<open>i2c_slave\<close>, the data of the application, and the level that the slave
  leaves the data line to: high when it has released it. The clock is held low only while a
  callback runs.
\<close>

record 'a i2c_slave =
  sl_state :: i2c_slave_state
  sl_next_state :: i2c_slave_state
  sl_sda_val :: bool
  sl_scl_val :: bool
  sl_bitnum :: nat
  sl_rw :: bool
  sl_stop_bit_check :: bool
  sl_ignore_stop_bit :: bool
  sl_data :: u32
  sl_app :: 'a
  sl_sda :: bool
  sl_running :: bool

text \<open>The values of \<open>next_state\<close>, \<open>bitnum\<close>, \<open>rw\<close> and \<open>data\<close> are overwritten before use.\<close>

definition i2c_slave_init :: "'a \<Rightarrow> 'a i2c_slave" where
  "i2c_slave_init app =
     \<lparr>sl_state = WAITING_FOR_START_OR_STOP, sl_next_state = WAITING_FOR_START_OR_STOP, sl_sda_val = False, sl_scl_val = False,
      sl_bitnum = 0, sl_rw = False, sl_stop_bit_check = False, sl_ignore_stop_bit = True, sl_data = 0, sl_app = app,
      sl_sda = True, sl_running = True\<rparr>"

text \<open>An event of the clock; \<open>sda\<close> is the level of the data line.\<close>

definition slave_reading_addr :: "u8 \<Rightarrow> bool \<Rightarrow> 'a i2c_slave \<Rightarrow> 'a i2c_slave" where
  "slave_reading_addr device_addr sda s =
     (if \<not> sl_scl_val s then s\<lparr>sl_scl_val := True\<rparr>
      else if sl_bitnum s < 7
      then s\<lparr>sl_data := push_bit 1 (sl_data s) OR of_bool sda, sl_bitnum := sl_bitnum s + 1, sl_scl_val := False\<rparr>
      else if sl_data s \<noteq> ucast device_addr then s\<lparr>sl_state := IGNORE_ACK, sl_scl_val := False\<rparr>
      else s\<lparr>sl_state := ACK_ADDR, sl_rw := sda, sl_scl_val := False\<rparr>)"

definition slave_ack_addr :: "'a i2c_callback_group \<Rightarrow> 'a i2c_slave \<Rightarrow> 'a i2c_slave" where
  "slave_ack_addr cb s =
     (let (ack, app) = (if sl_rw s then ack_read_request cb (sl_app s) else ack_write_request cb (sl_app s));
          s = s\<lparr>sl_app := app, sl_ignore_stop_bit := False\<rparr>;
          s = (if ack = I2C_SLAVE_NACK then s\<lparr>sl_sda := True, sl_next_state := WAITING_FOR_START_OR_STOP\<rparr>
               else s\<lparr>sl_sda := False, sl_next_state := (if sl_rw s then MASTER_READ else MASTER_WRITE)\<rparr>)
      in s\<lparr>sl_scl_val := True, sl_state := ACK_WAIT_HIGH\<rparr>)"

definition slave_ack_wait_low :: "'a i2c_slave \<Rightarrow> 'a i2c_slave" where
  "slave_ack_wait_low s =
     (let s = s\<lparr>sl_sda := True\<rparr>;
          s = (if sl_next_state s = MASTER_READ then s\<lparr>sl_scl_val := False\<rparr>
               else if sl_next_state s = MASTER_WRITE then s\<lparr>sl_data := 0, sl_scl_val := True\<rparr>
               else s\<lparr>sl_sda_val := False\<rparr>)
      in s\<lparr>sl_state := sl_next_state s, sl_bitnum := 0\<rparr>)"

definition slave_master_read :: "'a i2c_callback_group \<Rightarrow> bool \<Rightarrow> 'a i2c_slave \<Rightarrow> 'a i2c_slave" where
  "slave_master_read cb sda s =
     (if sl_scl_val s
      then if sl_bitnum s = 8
           then if sda then s\<lparr>sl_state := WAITING_FOR_START_OR_STOP, sl_sda_val := False\<rparr>
                else s\<lparr>sl_bitnum := 0, sl_scl_val := False\<rparr>
           else s\<lparr>sl_scl_val := False, sl_bitnum := sl_bitnum s + 1\<rparr>
      else if sl_bitnum s < 8
           then let s = (if sl_bitnum s = 0
                         then let (d, app) = master_requires_data cb (sl_app s) in s\<lparr>sl_app := app, sl_data := bitrev8 (ucast d)\<rparr>
                         else s)
                in s\<lparr>sl_sda := bit (sl_data s) 0, sl_data := drop_bit 1 (sl_data s), sl_scl_val := True\<rparr>
           else s\<lparr>sl_sda := True, sl_scl_val := True\<rparr>)"

definition slave_master_write :: "'a i2c_callback_group \<Rightarrow> bool \<Rightarrow> 'a i2c_slave \<Rightarrow> 'a i2c_slave" where
  "slave_master_write cb sda s =
     (if sl_scl_val s
      then let s = s\<lparr>sl_data := push_bit 1 (sl_data s) OR of_bool sda\<rparr>;
               s = (if sl_bitnum s = 0 then s\<lparr>sl_sda_val := \<not> sda, sl_stop_bit_check := True\<rparr> else s)
           in s\<lparr>sl_scl_val := False, sl_bitnum := sl_bitnum s + 1\<rparr>
      else let s = s\<lparr>sl_stop_bit_check := False\<rparr>;
               s = (if sl_bitnum s = 8
                    then let (ack, app) = master_sent_data cb (ucast (sl_data s)) (sl_app s)
                         in s\<lparr>sl_app := app, sl_sda := (ack = I2C_SLAVE_NACK), sl_state := ACK_WAIT_HIGH\<rparr>
                    else s)
           in s\<lparr>sl_scl_val := True\<rparr>)"

definition slave_event_scl :: "'a i2c_callback_group \<Rightarrow> u8 \<Rightarrow> bool \<Rightarrow> 'a i2c_slave \<Rightarrow> 'a i2c_slave res" where
  "slave_event_scl cb device_addr sda s =
     (case sl_state s of
        WAITING_FOR_START_OR_STOP \<Rightarrow> Inl AssertFail
      | READING_ADDR \<Rightarrow> Inr (slave_reading_addr device_addr sda s)
      | IGNORE_ACK \<Rightarrow> Inr (s\<lparr>sl_next_state := WAITING_FOR_START_OR_STOP, sl_scl_val := True, sl_state := ACK_WAIT_HIGH\<rparr>)
      | ACK_ADDR \<Rightarrow> Inr (slave_ack_addr cb s)
      | ACK_WAIT_HIGH \<Rightarrow> Inr (s\<lparr>sl_state := ACK_WAIT_LOW, sl_scl_val := False\<rparr>)
      | ACK_WAIT_LOW \<Rightarrow> Inr (slave_ack_wait_low s)
      | MASTER_READ \<Rightarrow> Inr (slave_master_read cb sda s)
      | MASTER_WRITE \<Rightarrow> Inr (slave_master_write cb sda s))"

text \<open>An event of the data line; \<open>scl\<close> is the level of the clock. It may be a start or a stop bit.\<close>

definition slave_event_sda :: "'a i2c_callback_group \<Rightarrow> bool \<Rightarrow> 'a i2c_slave \<Rightarrow> 'a i2c_slave" where
  "slave_event_sda cb scl s =
     (if sl_sda_val s
      then let s = (if scl
                    then s\<lparr>sl_app := (if sl_ignore_stop_bit s then sl_app s
                                      else case slave_stop_bit cb of None \<Rightarrow> sl_app s | Some f \<Rightarrow> f (sl_app s)),
                           sl_state := WAITING_FOR_START_OR_STOP, sl_ignore_stop_bit := True, sl_stop_bit_check := False\<rparr>
                    else s)
           in s\<lparr>sl_sda_val := False\<rparr>
      else if scl
      then s\<lparr>sl_state := READING_ADDR, sl_bitnum := 0, sl_data := 0, sl_scl_val := False, sl_stop_bit_check := False\<rparr>
      else s\<lparr>sl_sda_val := True\<rparr>)"

text \<open>
  A turn of the loop, with the levels of the clock and of the master's side of the data line; None if
  the slave waits for an event, or has been shut down. The data line is high if both
  sides leave it high.
\<close>

definition slave_turn :: "'a i2c_callback_group \<Rightarrow> u8 \<Rightarrow> bool \<Rightarrow> bool \<Rightarrow> 'a i2c_slave \<Rightarrow> 'a i2c_slave res option" where
  "slave_turn cb device_addr scl sda_m s =
     (if \<not> sl_running s then None
      else if shutdown cb (sl_app s) then Some (Inr (s\<lparr>sl_sda := True, sl_running := False\<rparr>))
      else if sl_state s \<noteq> WAITING_FOR_START_OR_STOP \<and> scl = sl_scl_val s
      then Some (slave_event_scl cb device_addr (sda_m \<and> sl_sda s) s)
      else if (sl_state s = WAITING_FOR_START_OR_STOP \<or> sl_stop_bit_check s) \<and> (sda_m \<and> sl_sda s) = sl_sda_val s
      then Some (Inr (slave_event_sda cb scl s))
      else None)"

text \<open>
  The slave goes on until it waits. While the lines stay as they are it makes at most
  eight turns (\<open>slave_settles\<close> below).
\<close>

fun slave_settle :: "nat \<Rightarrow> 'a i2c_callback_group \<Rightarrow> u8 \<Rightarrow> bool \<Rightarrow> bool \<Rightarrow> 'a i2c_slave \<Rightarrow> 'a i2c_slave res" where
  "slave_settle 0 cb device_addr scl sda_m s = Inr s"
| "slave_settle (Suc n) cb device_addr scl sda_m s =
     (case slave_turn cb device_addr scl sda_m s of
        None \<Rightarrow> Inr s
      | Some r \<Rightarrow> rbind r (slave_settle n cb device_addr scl sda_m))"

text \<open>
  How many turns are left while the lines do not change: \<open>slave_wf\<close> holds from the
  start, and every turn keeps it and reduces the rank, which is at most six.
\<close>

definition slave_wf :: "'a i2c_slave \<Rightarrow> bool" where
  "slave_wf s \<longleftrightarrow> sl_next_state s \<in> {WAITING_FOR_START_OR_STOP, MASTER_READ, MASTER_WRITE}"

fun state_rank :: "i2c_slave_state \<Rightarrow> nat" where
  "state_rank IGNORE_ACK = 6"
| "state_rank ACK_ADDR = 6"
| "state_rank ACK_WAIT_HIGH = 5"
| "state_rank ACK_WAIT_LOW = 4"
| "state_rank _ = 3"

definition slave_rank :: "'a i2c_callback_group \<Rightarrow> bool \<Rightarrow> bool \<Rightarrow> 'a i2c_slave \<Rightarrow> nat" where
  "slave_rank cb scl sda_m s =
     (if \<not> sl_running s then 0
      else if sl_state s \<noteq> WAITING_FOR_START_OR_STOP \<and> scl = sl_scl_val s then state_rank (sl_state s)
      else if (sl_state s = WAITING_FOR_START_OR_STOP \<or> sl_stop_bit_check s) \<and> (sda_m \<and> sl_sda s) = sl_sda_val s then 2
      else if shutdown cb (sl_app s) then 1 else 0)"

lemma slave_turn_rank:
  assumes "slave_turn cb a scl sda_m s = Some r" and "slave_wf s"
  shows "\<exists>t. r = Inr t \<and> slave_wf t \<and> slave_rank cb scl sda_m t < slave_rank cb scl sda_m s"
proof -
  consider (down) "sl_running s" "shutdown cb (sl_app s)" "r = Inr (s\<lparr>sl_sda := True, sl_running := False\<rparr>)"
    | (scl) "sl_running s" "sl_state s \<noteq> WAITING_FOR_START_OR_STOP" "scl = sl_scl_val s" "r = slave_event_scl cb a (sda_m \<and> sl_sda s) s"
    | (sda) "sl_running s" "\<not> (sl_state s \<noteq> WAITING_FOR_START_OR_STOP \<and> scl = sl_scl_val s)"
      "sl_state s = WAITING_FOR_START_OR_STOP \<or> sl_stop_bit_check s" "(sda_m \<and> sl_sda s) = sl_sda_val s" "r = Inr (slave_event_sda cb scl s)"
    using assms(1) by (auto simp: slave_turn_def split: if_splits)
  then show ?thesis
  proof cases
    case down
    then have "0 < slave_rank cb scl sda_m s" by (cases "sl_state s") (simp_all add: slave_rank_def)
    then show ?thesis using down assms(2) by (simp add: slave_wf_def slave_rank_def)
  next
    case scl
    then show ?thesis using assms(2)
      by (cases "sl_state s")
        (auto simp: slave_rank_def slave_wf_def slave_event_scl_def slave_reading_addr_def slave_ack_addr_def slave_ack_wait_low_def
          slave_master_read_def slave_master_write_def Let_def split: prod.splits)
  next
    case sda
    then show ?thesis using assms(2)
      by (auto simp: slave_rank_def slave_wf_def slave_event_sda_def Let_def)
  qed
qed

lemma slave_turn_None: "slave_rank cb scl sda_m s = 0 \<Longrightarrow> slave_turn cb a scl sda_m s = None"
  by (cases "sl_state s") (auto simp: slave_rank_def slave_turn_def split: if_splits)

lemma slave_settle_rank:
  "slave_wf s \<Longrightarrow> slave_rank cb scl sda_m s \<le> n \<Longrightarrow>
    \<exists>t. slave_settle n cb a scl sda_m s = Inr t \<and> slave_wf t \<and> slave_turn cb a scl sda_m t = None"
proof (induction n arbitrary: s)
  case (Suc n)
  show ?case
  proof (cases "slave_turn cb a scl sda_m s")
    case (Some r)
    then obtain t where "r = Inr t" "slave_wf t" "slave_rank cb scl sda_m t < slave_rank cb scl sda_m s"
      using slave_turn_rank Suc.prems(1) by meson
    then show ?thesis using Some Suc.IH [of t] Suc.prems(2) by simp
  qed (use Suc.prems in simp)
qed (simp add: slave_turn_None)

lemma slave_settles:
  assumes "slave_wf s"
  shows "\<exists>t. slave_settle 8 cb a scl sda_m s = Inr t \<and> slave_wf t \<and> slave_turn cb a scl sda_m t = None"
proof (rule slave_settle_rank [OF assms])
  have "state_rank x \<le> 8" for x by (cases x) simp_all
  then show "slave_rank cb scl sda_m s \<le> 8" by (auto simp: slave_rank_def)
qed

lemma slave_init_wf: "slave_wf (i2c_slave_init app)"
  by (simp add: slave_wf_def i2c_slave_init_def)

section \<open>Master and slave on two lines\<close>

text \<open>The master's levels of both lines, and the slave. The line is what both leave high.\<close>

record 'a i2c_link =
  line_scl :: bool
  line_sda_m :: bool
  line_slave :: "'a i2c_slave"

definition set_lines :: "'a i2c_callback_group \<Rightarrow> u8 \<Rightarrow> bool \<Rightarrow> bool \<Rightarrow> 'a i2c_link \<Rightarrow> 'a i2c_link res" where
  "set_lines cb device_addr scl sda w =
     rbind (slave_settle 8 cb device_addr scl sda (line_slave w)) (\<lambda>s. Inr \<lparr>line_scl = scl, line_sda_m = sda, line_slave = s\<rparr>)"

definition set_scl :: "'a i2c_callback_group \<Rightarrow> u8 \<Rightarrow> bool \<Rightarrow> 'a i2c_link \<Rightarrow> 'a i2c_link res" where
  "set_scl cb device_addr v w = set_lines cb device_addr v (line_sda_m w) w"

definition set_sda :: "'a i2c_callback_group \<Rightarrow> u8 \<Rightarrow> bool \<Rightarrow> 'a i2c_link \<Rightarrow> 'a i2c_link res" where
  "set_sda cb device_addr v w = set_lines cb device_addr (line_scl w) v w"

text \<open>What the functions of the master do to the lines.\<close>

definition high_pulse_drive :: "'a i2c_callback_group \<Rightarrow> u8 \<Rightarrow> bool \<Rightarrow> 'a i2c_link \<Rightarrow> 'a i2c_link res" where
  "high_pulse_drive cb device_addr sda_value w =
     rbind (set_scl cb device_addr False w) (\<lambda>w. rbind (set_sda cb device_addr sda_value w) (set_scl cb device_addr True))"

definition high_pulse_sample :: "'a i2c_callback_group \<Rightarrow> u8 \<Rightarrow> 'a i2c_link \<Rightarrow> (bool \<times> 'a i2c_link) res" where
  "high_pulse_sample cb device_addr w =
     rbind (high_pulse_drive cb device_addr True w) (\<lambda>w. Inr (line_sda_m w \<and> sl_sda (line_slave w), w))"

definition link_start_bit :: "'a i2c_callback_group \<Rightarrow> u8 \<Rightarrow> bool \<Rightarrow> 'a i2c_link \<Rightarrow> 'a i2c_link res" where
  "link_start_bit cb device_addr was_stopped w =
     rbind (if was_stopped then Inr w else rbind (set_scl cb device_addr True w) (set_sda cb device_addr True))
       (set_sda cb device_addr False)"

definition link_stop_bit :: "'a i2c_callback_group \<Rightarrow> u8 \<Rightarrow> 'a i2c_link \<Rightarrow> 'a i2c_link res" where
  "link_stop_bit cb device_addr w =
     rbind (set_sda cb device_addr False w) (\<lambda>w. rbind (set_scl cb device_addr True w) (set_sda cb device_addr True))"

text \<open>The wires of the master: a failure of the slave stays.\<close>

definition link_wires :: "'a i2c_callback_group \<Rightarrow> u8 \<Rightarrow> 'a i2c_link res i2c_wires" where
  "link_wires cb device_addr =
     \<lparr>drive = \<lambda>b w. rbind w (high_pulse_drive cb device_addr b),
      sample = \<lambda>w. (case rbind w (high_pulse_sample cb device_addr) of Inl e \<Rightarrow> (True, Inl e) | Inr (b, w) \<Rightarrow> (b, Inr w)),
      start_bit = \<lambda>st w. rbind w (link_start_bit cb device_addr st),
      stop_bit = \<lambda>w. rbind w (link_stop_bit cb device_addr),
      park = \<lambda>w. rbind w (set_scl cb device_addr False)\<rparr>"

definition i2c_link_init :: "'a \<Rightarrow> 'a i2c_link" where
  "i2c_link_init app = \<lparr>line_scl = True, line_sda_m = True, line_slave = i2c_slave_init app\<rparr>"

section \<open>What the slave does with a pulse of the clock\<close>

abbreviation slave_at where
  "slave_at st nx sv cv n r chk ign d app sda \<equiv>
     \<lparr>sl_state = st, sl_next_state = nx, sl_sda_val = sv, sl_scl_val = cv, sl_bitnum = n, sl_rw = r, sl_stop_bit_check = chk,
      sl_ignore_stop_bit = ign, sl_data = d, sl_app = app, sl_sda = sda, sl_running = True\<rparr>"

abbreviation link_at where
  "link_at scl sda s \<equiv> \<lparr>line_scl = scl, line_sda_m = sda, line_slave = s\<rparr>"

text \<open>The evaluation of a change of the lines.\<close>

lemmas line_simps = set_scl_def set_sda_def set_lines_def slave_turn_def slave_event_scl_def slave_event_sda_def
  slave_reading_addr_def slave_ack_addr_def slave_ack_wait_low_def slave_master_read_def slave_master_write_def

lemma slave_settle_numeral [simp]: "slave_settle (numeral k) cb device_addr scl sda_m s =
    (case slave_turn cb device_addr scl sda_m s of
        None \<Rightarrow> Inr s
      | Some r \<Rightarrow> rbind r (slave_settle (pred_numeral k) cb device_addr scl sda_m))"
  by (simp add: numeral_eq_Suc)

lemma drive_addr_bit:
  assumes "\<And>x. \<not> shutdown cb x" and "n < 7"
  shows "high_pulse_drive cb a b (link_at True v (slave_at READING_ADDR nx sv False n r False ign d app True))
    = Inr (link_at True b (slave_at READING_ADDR nx sv False (Suc n) r False ign (push_bit 1 d OR of_bool b) app True))"
  using assms by (simp add: high_pulse_drive_def line_simps)

lemma drive_addr_rw:
  assumes "\<And>x. \<not> shutdown cb x"
  shows "high_pulse_drive cb a b (link_at True v (slave_at READING_ADDR nx sv False 7 r False ign d app True))
    = Inr (link_at True b (slave_at (if d = ucast a then ACK_ADDR else IGNORE_ACK) nx sv False 7 (if d = ucast a then b else r)
        False ign d app True))"
  using assms by (simp add: high_pulse_drive_def line_simps)

lemma sample_ack_addr:
  assumes "\<And>x. \<not> shutdown cb x"
    and "(if r then ack_read_request cb app else ack_write_request cb app) = (ack, app')"
  shows "high_pulse_sample cb a (link_at True v (slave_at ACK_ADDR nx sv False n r False ign d app True))
    = Inr (ack = I2C_SLAVE_NACK, link_at True True (slave_at ACK_WAIT_LOW
        (if ack = I2C_SLAVE_NACK then WAITING_FOR_START_OR_STOP else if r then MASTER_READ else MASTER_WRITE)
        sv False n r False False d app' (ack = I2C_SLAVE_NACK)))"
  using assms by (cases r; cases ack) (simp_all add: high_pulse_sample_def high_pulse_drive_def line_simps)

lemma sample_ignored:
  assumes "\<And>x. \<not> shutdown cb x"
  shows "high_pulse_sample cb a (link_at True v (slave_at IGNORE_ACK nx sv False n r False ign d app True))
    = Inr (True, link_at True True (slave_at ACK_WAIT_LOW WAITING_FOR_START_OR_STOP sv False n r False ign d app True))"
  using assms by (simp add: high_pulse_sample_def high_pulse_drive_def line_simps)

lemma drive_first_bit:
  assumes "\<And>x. \<not> shutdown cb x"
  shows "high_pulse_drive cb a b (link_at True v (slave_at ACK_WAIT_LOW MASTER_WRITE sv False n r False ign d app sda))
    = Inr (link_at True b (slave_at MASTER_WRITE MASTER_WRITE (\<not> b) False 1 r True ign (of_bool b) app True))"
  using assms by (cases b) (simp_all add: high_pulse_drive_def line_simps)

lemma drive_next_bit:
  assumes "\<And>x. \<not> shutdown cb x" and "0 < n" "n < 8"
  shows "high_pulse_drive cb a b (link_at True v (slave_at MASTER_WRITE nx sv False n r chk ign d app True))
    = Inr (link_at True b (slave_at MASTER_WRITE nx sv False (Suc n) r False ign (push_bit 1 d OR of_bool b) app True))"
  using assms by (simp add: high_pulse_drive_def line_simps)

lemma sample_written:
  assumes "\<And>x. \<not> shutdown cb x" and "master_sent_data cb (ucast d) app = (ack, app')"
  shows "high_pulse_sample cb a (link_at True v (slave_at MASTER_WRITE nx sv False 8 r chk ign d app True))
    = Inr (ack = I2C_SLAVE_NACK, link_at True True (slave_at ACK_WAIT_LOW nx sv False 8 r False ign d app' (ack = I2C_SLAVE_NACK)))"
  using assms by (cases ack) (simp_all add: high_pulse_sample_def high_pulse_drive_def line_simps)

text \<open>
  A byte that the master reads starts after the acknowledgement of the address, or after that of
  the previous byte by the master.
\<close>

lemma sample_first_bit:
  assumes "\<And>x. \<not> shutdown cb x" and "master_requires_data cb app = (d', app')"
    and "s = slave_at ACK_WAIT_LOW MASTER_READ sv False n r False ign d app sda \<or> s = slave_at MASTER_READ MASTER_READ sv False 0 r False ign d app True"
  shows "high_pulse_sample cb a (link_at True v s)
    = Inr (bit (bitrev8 (ucast d')) 0, link_at True True
        (slave_at MASTER_READ MASTER_READ sv False 1 r False ign (drop_bit 1 (bitrev8 (ucast d'))) app' (bit (bitrev8 (ucast d')) 0)))"
  using assms by (elim disjE) (simp_all add: high_pulse_sample_def high_pulse_drive_def line_simps)

lemma sample_next_bit:
  assumes "\<And>x. \<not> shutdown cb x" and "0 < n" "n < 8"
  shows "high_pulse_sample cb a (link_at True v (slave_at MASTER_READ nx sv False n r False ign d app sda))
    = Inr (bit d 0, link_at True True (slave_at MASTER_READ nx sv False (Suc n) r False ign (drop_bit 1 d) app (bit d 0)))"
  using assms by (simp add: high_pulse_sample_def high_pulse_drive_def line_simps)

lemma drive_master_ack:
  assumes "\<And>x. \<not> shutdown cb x"
  shows "high_pulse_drive cb a b (link_at True v (slave_at MASTER_READ nx sv False 8 r False ign d app sda))
    = Inr (link_at True b (if b then slave_at WAITING_FOR_START_OR_STOP nx False True 8 r False ign d app True
        else slave_at MASTER_READ nx sv False 0 r False ign d app True))"
  using assms by (cases b) (simp_all add: high_pulse_drive_def line_simps)

text \<open>The slave between two transactions; \<open>ign\<close> is whether it has not been addressed since the last stop bit.\<close>

definition link_ready :: "bool \<Rightarrow> bool \<Rightarrow> 'a \<Rightarrow> 'a i2c_link \<Rightarrow> bool" where
  "link_ready was_stopped ign app w \<longleftrightarrow>
     (let s = line_slave w
      in line_scl w = was_stopped \<and> line_sda_m w \<and> sl_sda s \<and> sl_running s \<and> \<not> sl_stop_bit_check s \<and>
         sl_ignore_stop_bit s = ign \<and> sl_app s = app \<and>
         (sl_state s = WAITING_FOR_START_OR_STOP \<and> \<not> sl_sda_val s
          \<or> \<not> was_stopped \<and> \<not> ign \<and> sl_state s = MASTER_WRITE \<and> sl_scl_val s \<and> sl_bitnum s = 0 \<and> sl_data s = 0))"

lemma link_readyE:
  assumes "link_ready st ign app w"
  obtains (waiting) nx cv n r d where "w = link_at st True (slave_at WAITING_FOR_START_OR_STOP nx False cv n r False ign d app True)"
  | (writing) nx sv r where "\<not> st" "\<not> ign" "w = link_at False True (slave_at MASTER_WRITE nx sv True 0 r False False 0 app True)"
proof (cases w)
  case (fields scl sda s)
  then show ?thesis using assms that by (cases s) (auto simp: link_ready_def Let_def)
qed

lemma start_from_ready:
  assumes "\<And>x. \<not> shutdown cb x" and "link_ready st ign app w"
  shows "\<exists>nx r. link_start_bit cb a st w = Inr (link_at True False (slave_at READING_ADDR nx False False 0 r False ign 0 app True))"
  using assms(2)
proof (cases rule: link_readyE)
  case waiting
  then show ?thesis using assms(1) by (cases st) (simp_all add: link_start_bit_def line_simps)
next
  case writing
  then show ?thesis using assms(1) by (simp add: link_start_bit_def line_simps)
qed

definition call_stop_bit :: "'a i2c_callback_group \<Rightarrow> bool \<Rightarrow> 'a \<Rightarrow> 'a" where
  "call_stop_bit cb ign app = (if ign then app else case slave_stop_bit cb of None \<Rightarrow> app | Some f \<Rightarrow> f app)"

lemma stop_from_ready:
  assumes "\<And>x. \<not> shutdown cb x" and "link_ready False ign app w"
  shows "\<exists>w'. link_stop_bit cb a w = Inr w' \<and> link_ready True True (call_stop_bit cb ign app) w'"
  using assms(2)
proof (cases rule: link_readyE)
  case waiting
  then show ?thesis using assms(1)
    by (simp add: link_stop_bit_def line_simps link_ready_def call_stop_bit_def Let_def split: option.splits)
next
  case writing
  then show ?thesis using assms(1)
    by (simp add: link_stop_bit_def line_simps link_ready_def call_stop_bit_def Let_def split: option.splits)
qed

text \<open>The end of a transaction, from the three states it ends in.\<close>

lemma park_after_ack:
  assumes "\<And>x. \<not> shutdown cb x" and "nx = WAITING_FOR_START_OR_STOP \<or> nx = MASTER_WRITE \<and> \<not> ign"
  shows "\<exists>w. set_scl cb a False (link_at True True (slave_at ACK_WAIT_LOW nx sv False n r False ign d app sda)) = Inr w
    \<and> link_ready False ign app w"
  using assms by (elim disjE) (simp_all add: line_simps link_ready_def Let_def)

lemma park_after_read:
  assumes "\<And>x. \<not> shutdown cb x"
  shows "\<exists>w. set_scl cb a False (link_at True True (slave_at WAITING_FOR_START_OR_STOP nx False True n r False ign d app True)) = Inr w
    \<and> link_ready False ign app w"
  using assms by (simp add: line_simps link_ready_def Let_def)

section \<open>Bytes\<close>

definition shift_in :: "bool list \<Rightarrow> 'l::len word \<Rightarrow> 'l word" where
  "shift_in bs d = fold (\<lambda>b d. push_bit 1 d OR of_bool b) bs d"

lemma shift_in_simps [simp]:
  "shift_in [] d = d" "shift_in (b # bs) d = shift_in bs (push_bit 1 d OR of_bool b)"
  by (simp_all add: shift_in_def)

lemma bit_shifted_in:
  "bit (push_bit 1 d OR of_bool b :: 'l::len word) k \<longleftrightarrow> k < LENGTH('l) \<and> (if k = 0 then b else bit d (k - 1))"
  unfolding bit_or_iff bit_push_bit_iff by (auto simp: bit_of_bool_iff)

lemma bit_shift_in:
  "bit (shift_in bs 0 :: 'l::len word) k \<longleftrightarrow> k < LENGTH('l) \<and> k < length bs \<and> bs ! (length bs - 1 - k)"
proof (induction bs arbitrary: k rule: rev_induct)
  case (snoc b bs)
  have "shift_in (bs @ [b]) 0 = (push_bit 1 (shift_in bs 0) OR of_bool b :: 'l word)" by (simp only: shift_in_def fold_append) simp
  then show ?case using snoc [of "k - 1"] bit_shifted_in [of "shift_in bs 0" b k]
    by (cases k) (auto simp: nth_append)
qed simp

definition msb_bits :: "u8 \<Rightarrow> bool list" where
  "msb_bits b = map (\<lambda>i. bit b (7 - i)) [0 ..< 8]"

lemma shift_in_msb_bits [simp]: "shift_in (msb_bits b) 0 = b"
  by (rule bit_word_eqI) (simp add: bit_shift_in msb_bits_def)

lemma ucast_shift_in_msb_bits [simp]: "ucast (shift_in (msb_bits b) (0 :: u32)) = b"
  by (rule bit_word_eqI) (simp add: bit_shift_in msb_bits_def bit_simps)

text \<open>The seven bits of an address.\<close>

lemma shift_in_address:
  assumes "m < (128 :: u8)"
  shows "shift_in (map (\<lambda>i. bit (push_bit 1 (ucast m) OR of_bool b :: u32) (7 - i)) [0 ..< 7]) 0 = (ucast m :: u32)"
proof -
  have "m = m AND mask 7" using less_mask_eq [of m 7] assms by simp
  then have "bit m k \<Longrightarrow> k < 7" for k by (metis bit_and_iff bit_mask_iff)
  moreover have "map (\<lambda>i. bit (push_bit 1 (ucast m) OR of_bool b :: u32) (7 - i)) [0 ..< 7] ! (6 - k) = bit m k" if "k < 7" for k
    using that bit_shifted_in [of "ucast m :: u32" b "Suc k"] by (simp only: nth_map_upt) (simp add: bit_simps)
  moreover have "bit (shift_in l 0 :: u32) k \<longleftrightarrow> k < 7 \<and> l ! (6 - k)" if "length l = 7" for l k
    using that by (auto simp: bit_shift_in)
  ultimately show ?thesis by (intro bit_word_eqI) (auto simp only: length_map length_upt bit_unsigned_iff possible_bit_word)
qed

section \<open>The bytes of a transaction\<close>

lemma link_wires_simps [simp]:
  "drive (link_wires cb a) b (Inr w) = high_pulse_drive cb a b w"
  "start_bit (link_wires cb a) st (Inr w) = link_start_bit cb a st w"
  "stop_bit (link_wires cb a) (Inr w) = link_stop_bit cb a w"
  "park (link_wires cb a) (Inr w) = set_scl cb a False w"
  by (simp_all add: link_wires_def)

lemma link_sample [simp]:
  "high_pulse_sample cb a w = Inr (b, w') \<Longrightarrow> sample (link_wires cb a) (Inr w) = (b, Inr w')"
  by (simp add: link_wires_def)

lemma drive_address_bits:
  assumes "\<And>x. \<not> shutdown cb x" and "n + length bs \<le> 7"
  shows "\<exists>v'. fold (drive (link_wires cb a)) bs (Inr (link_at True v (slave_at READING_ADDR nx sv False n r False ign d app True)))
    = Inr (link_at True v' (slave_at READING_ADDR nx sv False (n + length bs) r False ign (shift_in bs d) app True))"
  using assms(2)
proof (induction bs arbitrary: n d v)
  case (Cons b bs)
  then show ?case using drive_addr_bit [OF assms(1), of n a b v nx sv r ign d app] Cons.IH [of "Suc n"] by simp
qed auto

lemma drive_data_bits:
  assumes "\<And>x. \<not> shutdown cb x" and "0 < n" "n + length bs \<le> 8"
  shows "\<exists>v' chk'. fold (drive (link_wires cb a)) bs (Inr (link_at True v (slave_at MASTER_WRITE nx sv False n r chk ign d app True)))
    = Inr (link_at True v' (slave_at MASTER_WRITE nx sv False (n + length bs) r chk' ign (shift_in bs d) app True))"
  using assms(2,3)
proof (induction bs arbitrary: n d v chk)
  case (Cons b bs)
  then show ?case using drive_next_bit [OF assms(1), of n a b v nx sv r chk ign d app] Cons.IH [of "Suc n"] by simp
qed auto

lemma msb_bits_Cons: "msb_bits b = bit b 7 # tl (msb_bits b)" "length (tl (msb_bits b)) = 7"
  by (simp_all add: msb_bits_def upt_rec)

lemma msb_bits_ucast: "map (\<lambda>i. bit (ucast b :: u32) (7 - i)) [0 ..< 8] = msb_bits b"
  by (auto simp: msb_bits_def bit_simps)

text \<open>The address: the slave that has it answers, another one ignores the transaction.\<close>

lemma tx8_address:
  assumes sd: "\<And>x. \<not> shutdown cb x" and m: "m < 128"
  shows "\<exists>v sv n r. tx8 (link_wires cb a) (push_bit 1 (ucast m) OR of_bool b)
      (Inr (link_at True False (slave_at READING_ADDR nx False False 0 r0 False ign 0 app True)))
    = (if m = a
       then let (ack, app') = (if b then ack_read_request cb app else ack_write_request cb app)
            in (ack = I2C_SLAVE_NACK, Inr (link_at True True (slave_at ACK_WAIT_LOW
                 (if ack = I2C_SLAVE_NACK then WAITING_FOR_START_OR_STOP else if b then MASTER_READ else MASTER_WRITE)
                 False False n r False False (ucast m) app' (ack = I2C_SLAVE_NACK))))
       else (True, Inr (link_at True True (slave_at ACK_WAIT_LOW WAITING_FOR_START_OR_STOP False False n r False ign (ucast m) app True))))"
proof -
  let ?x = "push_bit 1 (ucast m) OR of_bool b :: u32"
  let ?bs = "map (\<lambda>i. bit ?x (7 - i)) [0 ..< 7]"
  let ?w = "link_at True False (slave_at READING_ADDR nx False False 0 r0 False ign 0 app True)"
  have "[0 ..< 8] = [0 ..< 7] @ [7 :: nat]" by (simp add: upt_rec)
  then have split: "map (\<lambda>i. bit ?x (7 - i)) [0 ..< 8] = ?bs @ [bit ?x 0]" by (simp only: map_append) simp
  have rw: "bit ?x 0 = b" using bit_shifted_in [of "ucast m :: u32" b 0] by simp
  obtain v where bits: "fold (drive (link_wires cb a)) ?bs (Inr ?w)
      = Inr (link_at True v (slave_at READING_ADDR nx False False 7 r0 False ign (ucast m) app True))"
    using drive_address_bits [OF sd, of 0 ?bs a False nx False r0 ign 0 app] shift_in_address [OF m, of b] by auto
  have eq: "(ucast m = (ucast a :: u32)) = (m = a)" by (metis ucast_u32_u8)
  have all: "tx_bits (link_wires cb a) 8 (bitrev8 ?x) (Inr ?w)
      = Inr (link_at True b (slave_at (if m = a then ACK_ADDR else IGNORE_ACK) nx False False 7 (if m = a then b else r0)
          False ign (ucast m) app True))"
    unfolding tx_bits_msb split fold_append o_apply bits
    using drive_addr_rw [OF sd, of a b v nx False r0 ign "ucast m" app] eq rw by simp
  show ?thesis
  proof (cases "m = a")
    case True
    obtain ack app' where ack: "(if b then ack_read_request cb app else ack_write_request cb app) = (ack, app')" by force
    show ?thesis using True all sample_ack_addr [OF sd ack, of a b nx False 7 ign "ucast m"] ack
      by (auto simp: tx8_def intro!: exI [of _ 7] exI [of _ b])
  next
    case False
    then show ?thesis using all sample_ignored [OF sd, of a b nx False 7 r0 ign "ucast m" app]
      by (auto simp: tx8_def intro!: exI [of _ 7] exI [of _ r0])
  qed
qed

lemma tx8_data:
  assumes sd: "\<And>x. \<not> shutdown cb x" and sent: "master_sent_data cb b app = (ack, app')"
  shows "\<exists>sv d. tx8 (link_wires cb a) (ucast b) (Inr (link_at True v (slave_at ACK_WAIT_LOW MASTER_WRITE sv0 False n r False ign d0 app sda)))
    = (ack = I2C_SLAVE_NACK, Inr (link_at True True (slave_at ACK_WAIT_LOW MASTER_WRITE sv False 8 r False ign d app' (ack = I2C_SLAVE_NACK))))"
proof -
  let ?w = "link_at True v (slave_at ACK_WAIT_LOW MASTER_WRITE sv0 False n r False ign d0 app sda)"
  let ?d = "shift_in (msb_bits b) 0 :: u32"
  have d: "?d = shift_in (tl (msb_bits b)) (of_bool (bit b 7))" by (subst msb_bits_Cons(1)) simp
  have "fold (drive (link_wires cb a)) (msb_bits b) (Inr ?w) = fold (drive (link_wires cb a)) (tl (msb_bits b))
      (Inr (link_at True (bit b 7) (slave_at MASTER_WRITE MASTER_WRITE (\<not> bit b 7) False 1 r True ign (of_bool (bit b 7)) app True)))"
    using drive_first_bit [OF sd, of a "bit b 7" v sv0 n r ign d0 app sda] by (subst msb_bits_Cons(1)) simp
  then obtain v' chk where "fold (drive (link_wires cb a)) (msb_bits b) (Inr ?w)
      = Inr (link_at True v' (slave_at MASTER_WRITE MASTER_WRITE (\<not> bit b 7) False 8 r chk ign ?d app True))"
    using drive_data_bits [OF sd, of 1 "tl (msb_bits b)" a "bit b 7" MASTER_WRITE "\<not> bit b 7" r True ign "of_bool (bit b 7)" app]
    unfolding msb_bits_Cons(2) d by auto
  moreover have "master_sent_data cb (ucast ?d) app = (ack, app')" using sent by simp
  ultimately show ?thesis using sample_written [OF sd, of ?d app ack app' a v' MASTER_WRITE "\<not> bit b 7" r chk ign]
    by (auto simp: tx8_def tx_bits_msb msb_bits_ucast)
qed

section \<open>Transactions\<close>

text \<open>What a transaction means to the application: a write, with the number of bytes it has received, and a read.\<close>

fun slave_receives :: "'a i2c_callback_group \<Rightarrow> u8 list \<Rightarrow> 'a \<Rightarrow> nat \<times> i2c_res \<times> 'a" where
  "slave_receives cb [] app = (0, I2C_ACK, app)"
| "slave_receives cb (b # bs) app =
     (let (ack, app) = master_sent_data cb b app
      in if ack = I2C_SLAVE_NACK then (1, I2C_NACK, app)
         else let (n, res, app) = slave_receives cb bs app in (Suc n, res, app))"

fun slave_provides :: "'a i2c_callback_group \<Rightarrow> nat \<Rightarrow> 'a \<Rightarrow> u8 list \<times> 'a" where
  "slave_provides cb 0 app = ([], app)"
| "slave_provides cb (Suc n) app =
     (let (b, app) = master_requires_data cb app; (bs, app) = slave_provides cb n app in (b # bs, app))"

definition serve_write :: "'a i2c_callback_group \<Rightarrow> u8 list \<Rightarrow> 'a \<Rightarrow> nat \<times> i2c_res \<times> 'a" where
  "serve_write cb bs app =
     (let (ack, app) = ack_write_request cb app
      in if ack = I2C_SLAVE_NACK then (0, I2C_NACK, app) else slave_receives cb bs app)"

definition serve_read :: "'a i2c_callback_group \<Rightarrow> u8 list \<Rightarrow> 'a \<Rightarrow> u8 list \<times> i2c_res \<times> 'a" where
  "serve_read cb buf app =
     (let (ack, app) = ack_read_request cb app
      in if ack = I2C_SLAVE_NACK then (buf, I2C_NACK, app)
         else let (bs, app) = slave_provides cb (length buf) app in (bs, I2C_ACK, app))"

lemma write_bytes_link:
  assumes sd: "\<And>x. \<not> shutdown cb x"
  shows "slave_receives cb bs app = (n, res, app') \<Longrightarrow>
    \<exists>sv k d sda. write_bytes (link_wires cb a) bs j False
      (Inr (link_at True True (slave_at ACK_WAIT_LOW MASTER_WRITE sv0 False k0 r False ign d0 app sda0)))
    = (j + n, res = I2C_NACK, Inr (link_at True True (slave_at ACK_WAIT_LOW MASTER_WRITE sv False k r False ign d app' sda)))"
proof (induction bs arbitrary: app n j sv0 k0 d0 sda0)
  case Nil
  then show ?case by auto
next
  case (Cons b bs)
  obtain ack app1 where sent: "master_sent_data cb b app = (ack, app1)" by force
  obtain sv d where tx: "tx8 (link_wires cb a) (ucast b) (Inr (link_at True True (slave_at ACK_WAIT_LOW MASTER_WRITE sv0 False k0 r False ign d0 app sda0)))
      = (ack = I2C_SLAVE_NACK, Inr (link_at True True (slave_at ACK_WAIT_LOW MASTER_WRITE sv False 8 r False ign d app1 (ack = I2C_SLAVE_NACK))))"
    using tx8_data [OF sd sent] by meson
  show ?case
  proof (cases ack)
    case I2C_SLAVE_NACK
    then show ?thesis using Cons.prems sent tx by (auto simp: write_bytes_nacked)
  next
    case I2C_SLAVE_ACK
    then obtain m where m: "slave_receives cb bs app1 = (m, res, app')" "n = Suc m"
      using Cons.prems sent by (auto split: prod.splits)
    show ?thesis using Cons.IH [OF m(1), of "Suc j" sv 8 d False] tx I2C_SLAVE_ACK m(2) by simp
  qed
qed

lemma finish_link:
  assumes sd: "\<And>x. \<not> shutdown cb x"
    and park: "set_scl cb a False w = Inr v" "link_ready False ign app v"
  shows "\<exists>v'. finish (link_wires cb a) stop (Inr w) = \<lparr>bus = Inr v', stopped = stop\<rparr>
    \<and> link_ready stop (stop \<or> ign) (if stop then call_stop_bit cb ign app else app) v'"
  using park stop_from_ready [OF sd park(2), of a] by (auto simp: finish_def Let_def)

lemma i2c_write_link:
  assumes sd: "\<And>x. \<not> shutdown cb x" and addr: "a < 128"
    and ready: "link_ready st ign app w"
    and serve: "serve_write cb bs app = (n, res, app')"
  shows "\<exists>w'. i2c_master_write (link_wires cb a) a bs stop \<lparr>bus = Inr w, stopped = st\<rparr> = (res, n, \<lparr>bus = Inr w', stopped = stop\<rparr>)
    \<and> link_ready stop stop (if stop then call_stop_bit cb False app' else app') w'"
proof -
  obtain nx r0 where start: "link_start_bit cb a st w = Inr (link_at True False (slave_at READING_ADDR nx False False 0 r0 False ign 0 app True))"
    using start_from_ready [OF sd ready] by meson
  obtain ack app1 where ack: "ack_write_request cb app = (ack, app1)" by force
  let ?nx = "if ack = I2C_SLAVE_NACK then WAITING_FOR_START_OR_STOP else MASTER_WRITE"
  obtain k r where tx: "tx8 (link_wires cb a) (push_bit 1 (ucast a)) (start_bit (link_wires cb a) st (Inr w))
      = (ack = I2C_SLAVE_NACK, Inr (link_at True True (slave_at ACK_WAIT_LOW ?nx False False k r False False (ucast a) app1 (ack = I2C_SLAVE_NACK))))"
    using tx8_address [OF sd addr, of a False nx r0 ign app] start ack by auto
  obtain sv k' d sda nx' where wr: "write_bytes (link_wires cb a) bs 0 (ack = I2C_SLAVE_NACK)
        (Inr (link_at True True (slave_at ACK_WAIT_LOW ?nx False False k r False False (ucast a) app1 (ack = I2C_SLAVE_NACK))))
      = (n, res = I2C_NACK, Inr (link_at True True (slave_at ACK_WAIT_LOW nx' sv False k' r False False d app' sda)))"
    "nx' = WAITING_FOR_START_OR_STOP \<or> nx' = MASTER_WRITE"
  proof (cases ack)
    case I2C_SLAVE_NACK
    then show ?thesis using serve ack that by (auto simp: serve_write_def write_bytes_nacked)
  next
    case I2C_SLAVE_ACK
    then have "slave_receives cb bs app1 = (n, res, app')" using serve ack by (simp add: serve_write_def)
    from write_bytes_link [OF sd this, of a 0 False k r False "ucast a" False] that I2C_SLAVE_ACK show ?thesis by auto
  qed
  obtain v where "set_scl cb a False (link_at True True (slave_at ACK_WAIT_LOW nx' sv False k' r False False d app' sda)) = Inr v"
    "link_ready False False app' v"
    using park_after_ack [OF sd, of nx' False a sv k' r d app' sda] wr(2) by auto
  from finish_link [OF sd this, of stop] tx wr(1) show ?thesis
    by (cases res) (auto simp: i2c_master_write_def Let_def)
qed

text \<open>
  C19: The master's write transaction reaches the application of the slave it addresses: the
  callbacks are called for the request, for each byte in order up to the first that the
  application refuses, and for the stop bit if there is one. The master's result and
  count are those of the application's answers, and the slave is ready for the next
  transaction. Master and slave are the two implementations of the library, bit by bit.
\<close>

theorem i2c_write_reaches_slave:
  assumes sd: "\<And>x. \<not> shutdown cb x" and addr: "a < 128"
    and ready: "link_ready st ign app w"
    and serve: "serve_write cb bs app = (n, res, app')"
  shows "\<exists>w'. i2c_master_write (link_wires cb a) a bs stop \<lparr>bus = Inr w, stopped = st\<rparr> = (res, n, \<lparr>bus = Inr w', stopped = stop\<rparr>)
    \<and> link_ready stop stop (if stop then call_stop_bit cb False app' else app') w'"
  using i2c_write_link [OF sd addr ready serve] .

lemma upt_bits_Suc: "map (bit x) [0 ..< Suc i] = bit x 0 # map (bit (drop_bit 1 x)) [0 ..< i]" for x :: u32
proof -
  have "map (bit x) [0 ..< Suc i] = bit x 0 # map (\<lambda>k. bit x (Suc k)) [0 ..< i]" by (rule map_upt_Suc)
  then show ?thesis by (simp add: bit_drop_bit_eq del: upt_Suc)
qed

lemma bitrev8_msb_bits: "map (bit (bitrev8 (ucast b))) [0 ..< 8] = msb_bits b"
  by (auto simp: msb_bits_def bitrev8_def bit_simps)

lemma rx_bits_read:
  assumes sd: "\<And>x. \<not> shutdown cb x"
  shows "0 < n \<Longrightarrow> n + i \<le> 8 \<Longrightarrow> \<exists>sda'. rx_bits (link_wires cb a) i d (Inr (link_at True True (slave_at MASTER_READ nx sv False n r False ign x app sda)))
    = (shift_in (map (bit x) [0 ..< i]) d, Inr (link_at True True (slave_at MASTER_READ nx sv False (n + i) r False ign (drop_bit i x) app sda')))"
proof (induction i arbitrary: n d x sda)
  case 0
  then show ?case by auto
next
  case (Suc i)
  have "sample (link_wires cb a) (Inr (link_at True True (slave_at MASTER_READ nx sv False n r False ign x app sda)))
      = (bit x 0, Inr (link_at True True (slave_at MASTER_READ nx sv False (Suc n) r False ign (drop_bit 1 x) app (bit x 0))))"
    using sample_next_bit [OF sd] Suc.prems by simp
  moreover have "drop_bit i (drop_bit 1 x) = drop_bit (Suc i) x" by simp
  ultimately show ?case using Suc.IH [of "Suc n" "push_bit 1 d OR of_bool (bit x 0)" "drop_bit 1 x" "bit x 0"] Suc.prems
    by (simp only: rx_bits.simps upt_bits_Suc) (simp del: upt_Suc)
qed

lemma read_byte_link:
  assumes sd: "\<And>x. \<not> shutdown cb x" and req: "master_requires_data cb app = (b, app')"
    and s: "s = slave_at ACK_WAIT_LOW MASTER_READ sv False n r False ign d app sda \<or> s = slave_at MASTER_READ MASTER_READ sv False 0 r False ign d app True"
  shows "\<exists>x sda'. rx_bits (link_wires cb a) 8 0 (Inr (link_at True v s))
    = (b, Inr (link_at True True (slave_at MASTER_READ MASTER_READ sv False 8 r False ign x app' sda')))"
proof -
  let ?x = "bitrev8 (ucast b)"
  have first: "sample (link_wires cb a) (Inr (link_at True v s))
      = (bit ?x 0, Inr (link_at True True (slave_at MASTER_READ MASTER_READ sv False 1 r False ign (drop_bit 1 ?x) app' (bit ?x 0))))"
    using sample_first_bit [OF sd req s, of a v] by simp
  have "0 < (1 :: nat)" "1 + 7 \<le> (8 :: nat)" by simp_all
  from rx_bits_read [OF sd this] obtain sda' where rest: "rx_bits (link_wires cb a) 7 (push_bit 1 0 OR of_bool (bit ?x 0))
        (Inr (link_at True True (slave_at MASTER_READ MASTER_READ sv False 1 r False ign (drop_bit 1 ?x) app' (bit ?x 0))))
      = (shift_in (map (bit (drop_bit 1 ?x)) [0 ..< 7]) (push_bit 1 0 OR of_bool (bit ?x 0)),
         Inr (link_at True True (slave_at MASTER_READ MASTER_READ sv False (1 + 7) r False ign (drop_bit 7 (drop_bit 1 ?x)) app' sda')))"
    by blast
  have "shift_in (map (bit (drop_bit 1 ?x)) [0 ..< 7]) (push_bit 1 0 OR of_bool (bit ?x 0)) = shift_in (map (bit ?x) [0 ..< Suc 7]) (0 :: u8)"
    by (simp only: upt_bits_Suc shift_in_simps)
  also have "\<dots> = b" using bitrev8_msb_bits [of b] by (simp del: upt_Suc)
  finally have val: "shift_in (map (bit (drop_bit 1 ?x)) [0 ..< 7]) (push_bit 1 0 OR of_bool (bit ?x 0)) = b" .
  have "rx_bits (link_wires cb a) (Suc 7) 0 (Inr (link_at True v s))
      = rx_bits (link_wires cb a) 7 (push_bit 1 0 OR of_bool (bit ?x 0))
        (Inr (link_at True True (slave_at MASTER_READ MASTER_READ sv False 1 r False ign (drop_bit 1 ?x) app' (bit ?x 0))))"
    by (simp only: rx_bits.simps first Let_def split)
  then show ?thesis unfolding rest val by (simp del: rx_bits.simps)
qed

text \<open>The master acknowledges every byte but the last.\<close>

lemma read_bytes_link:
  assumes sd: "\<And>x. \<not> shutdown cb x"
  shows "slave_provides cb (Suc n) app = (bs, app') \<Longrightarrow>
    s = slave_at ACK_WAIT_LOW MASTER_READ sv False k r False ign d app sda \<or> s = slave_at MASTER_READ MASTER_READ sv False 0 r False ign d app True \<Longrightarrow>
    \<exists>x. read_bytes (link_wires cb a) (Suc n) (Inr (link_at True v s))
      = (bs, Inr (link_at True True (slave_at WAITING_FOR_START_OR_STOP MASTER_READ False True 8 r False ign x app' True)))"
proof (induction n arbitrary: s app bs v sv k d sda)
  case 0
  obtain b app1 where req: "master_requires_data cb app = (b, app1)" by force
  obtain x sda' where rx: "rx_bits (link_wires cb a) 8 0 (Inr (link_at True v s))
      = (b, Inr (link_at True True (slave_at MASTER_READ MASTER_READ sv False 8 r False ign x app1 sda')))"
    using read_byte_link [OF sd req 0(2)] by meson
  then show ?case using 0(1) req drive_master_ack [OF sd, of a True True MASTER_READ sv r ign x app1 sda'] by simp
next
  case (Suc n)
  obtain b app1 where req: "master_requires_data cb app = (b, app1)" by force
  obtain bs' where bs': "slave_provides cb (Suc n) app1 = (bs', app')" "bs = b # bs'"
    using Suc.prems(1) req by (auto simp del: slave_provides.simps(2) simp: slave_provides.simps(2) [of cb "Suc n"] split: prod.splits)
  obtain x sda' where rx: "rx_bits (link_wires cb a) 8 0 (Inr (link_at True v s))
      = (b, Inr (link_at True True (slave_at MASTER_READ MASTER_READ sv False 8 r False ign x app1 sda')))"
    using read_byte_link [OF sd req Suc.prems(2)] by meson
  have "drive (link_wires cb a) False (Inr (link_at True True (slave_at MASTER_READ MASTER_READ sv False 8 r False ign x app1 sda')))
      = Inr (link_at True False (slave_at MASTER_READ MASTER_READ sv False 0 r False ign x app1 True))"
    using drive_master_ack [OF sd, of a False] by simp
  then show ?case
    using Suc.IH [OF bs'(1), of "slave_at MASTER_READ MASTER_READ sv False 0 r False ign x app1 True" sv 0 x True False] rx bs'(2)
    by (simp only: read_bytes.simps(2) [of _ "Suc n"]) (auto simp: Let_def)
qed

definition sample_cb :: "u8 list i2c_callback_group" where
  "sample_cb = \<lparr>ack_read_request = \<lambda>l. (I2C_SLAVE_ACK, l), ack_write_request = \<lambda>l. (I2C_SLAVE_ACK, []),
     master_requires_data = \<lambda>l. (hd l, rotate1 l), master_sent_data = \<lambda>b l. (if length l = 2 then I2C_SLAVE_NACK else I2C_SLAVE_ACK, l @ [b]),
     slave_stop_bit = Some (\<lambda>l. l @ [0]), shutdown = \<lambda>_. False\<rparr>"

lemma link_init_ready: "link_ready True True app (i2c_link_init app)"
  by (simp add: link_ready_def i2c_link_init_def i2c_slave_init_def Let_def)

lemma sample_serves:
  "\<not> shutdown sample_cb x" "serve_write sample_cb [7, 8, 9, 10] [] = (3, I2C_NACK, [7, 8, 9])"
  "serve_read sample_cb [0, 0, 0] [5, 6] = ([5, 6, 5], I2C_ACK, [6, 5])"
  "call_stop_bit sample_cb False [7, 8, 9] = [7, 8, 9, 0]"
  by (simp add: sample_cb_def, code_simp, code_simp, code_simp)

lemma i2c_write_reaches_slave_witness:
  "\<exists>w'. i2c_master_write (link_wires sample_cb 0x50) 0x50 [7, 8, 9, 10] True \<lparr>bus = Inr (i2c_link_init []), stopped = True\<rparr>
     = (I2C_NACK, 3, \<lparr>bus = Inr w', stopped = True\<rparr>) \<and> link_ready True True [7, 8, 9, 0] w'"
  using i2c_write_reaches_slave [OF sample_serves(1) _ link_init_ready sample_serves(2), of "0x50" True] by (simp add: sample_serves(4))

lemma i2c_read_link:
  assumes sd: "\<And>x. \<not> shutdown cb x" and addr: "a < 128"
    and ready: "link_ready st ign app w" and len: "buf \<noteq> []"
    and serve: "serve_read cb buf app = (bs, res, app')"
  shows "\<exists>w'. i2c_master_read (link_wires cb a) a buf stop \<lparr>bus = Inr w, stopped = st\<rparr> = (res, bs, \<lparr>bus = Inr w', stopped = stop\<rparr>)
    \<and> link_ready stop stop (if stop then call_stop_bit cb False app' else app') w'"
proof -
  obtain nx r0 where start: "link_start_bit cb a st w = Inr (link_at True False (slave_at READING_ADDR nx False False 0 r0 False ign 0 app True))"
    using start_from_ready [OF sd ready] by meson
  obtain ack app1 where ack: "ack_read_request cb app = (ack, app1)" by force
  let ?nx = "if ack = I2C_SLAVE_NACK then WAITING_FOR_START_OR_STOP else MASTER_READ"
  obtain k r where tx: "tx8 (link_wires cb a) (push_bit 1 (ucast a) OR 1) (start_bit (link_wires cb a) st (Inr w))
      = (ack = I2C_SLAVE_NACK, Inr (link_at True True (slave_at ACK_WAIT_LOW ?nx False False k r False False (ucast a) app1 (ack = I2C_SLAVE_NACK))))"
    using tx8_address [OF sd addr, of a True nx r0 ign app] start ack by auto
  show ?thesis
  proof (cases ack)
    case I2C_SLAVE_NACK
    obtain v where "set_scl cb a False (link_at True True (slave_at ACK_WAIT_LOW ?nx False False k r False False (ucast a) app1 True)) = Inr v"
      "link_ready False False app1 v"
      using park_after_ack [OF sd, of ?nx False a False k r "ucast a" app1 True] I2C_SLAVE_NACK by auto
    from finish_link [OF sd this, of stop] tx I2C_SLAVE_NACK serve ack show ?thesis
      by (auto simp: i2c_master_read_def serve_read_def Let_def)
  next
    case I2C_SLAVE_ACK
    obtain n where n: "length buf = Suc n" using len by (cases buf) auto
    have prov: "slave_provides cb (Suc n) app1 = (bs, app')" "res = I2C_ACK"
      using serve ack I2C_SLAVE_ACK n by (auto simp: serve_read_def simp del: slave_provides.simps split: prod.splits)
    obtain x where rd: "read_bytes (link_wires cb a) (Suc n) (Inr (link_at True True (slave_at ACK_WAIT_LOW MASTER_READ False False k r False False (ucast a) app1 False)))
        = (bs, Inr (link_at True True (slave_at WAITING_FOR_START_OR_STOP MASTER_READ False True 8 r False False x app' True)))"
      using read_bytes_link [OF sd prov(1)] by blast
    obtain v where "set_scl cb a False (link_at True True (slave_at WAITING_FOR_START_OR_STOP MASTER_READ False True 8 r False False x app' True)) = Inr v"
      "link_ready False False app' v"
      using park_after_read [OF sd, of a MASTER_READ 8 r False x app'] by auto
    from finish_link [OF sd this, of stop] tx rd I2C_SLAVE_ACK prov(2) n show ?thesis
      by (auto simp: i2c_master_read_def Let_def simp del: read_bytes.simps)
  qed
qed

text \<open>
  C21: The master's read transaction returns the bytes that the application of the slave
  provides, one callback for each byte, in order and bit by bit over the same two lines, or reports
  the refusal of the request; and the slave is ready for the next transaction.
\<close>

theorem i2c_read_reaches_slave:
  assumes sd: "\<And>x. \<not> shutdown cb x" and addr: "a < 128"
    and ready: "link_ready st ign app w" and len: "buf \<noteq> []"
    and serve: "serve_read cb buf app = (bs, res, app')"
  shows "\<exists>w'. i2c_master_read (link_wires cb a) a buf stop \<lparr>bus = Inr w, stopped = st\<rparr> = (res, bs, \<lparr>bus = Inr w', stopped = stop\<rparr>)
    \<and> link_ready stop stop (if stop then call_stop_bit cb False app' else app') w'"
  using i2c_read_link [OF sd addr ready len serve] .

lemma i2c_read_reaches_slave_witness:
  "\<exists>w'. i2c_master_read (link_wires sample_cb 0x50) 0x50 [0, 0, 0] False \<lparr>bus = Inr (i2c_link_init [5, 6]), stopped = True\<rparr>
     = (I2C_ACK, [5, 6, 5], \<lparr>bus = Inr w', stopped = False\<rparr>) \<and> link_ready False False [6, 5] w'"
  using i2c_read_reaches_slave [OF sample_serves(1) _ link_init_ready _ sample_serves(3), of "0x50" False] by simp

text \<open>A slave with another address is not disturbed.\<close>

lemma i2c_other_slave_write:
  assumes sd: "\<And>x. \<not> shutdown cb x" and addr: "m < 128" "m \<noteq> a"
    and ready: "link_ready st ign app w"
  shows "\<exists>w'. i2c_master_write (link_wires cb a) m bs stop \<lparr>bus = Inr w, stopped = st\<rparr> = (I2C_NACK, 0, \<lparr>bus = Inr w', stopped = stop\<rparr>)
    \<and> link_ready stop (stop \<or> ign) (if stop then call_stop_bit cb ign app else app) w'"
proof -
  obtain nx r0 where start: "link_start_bit cb a st w = Inr (link_at True False (slave_at READING_ADDR nx False False 0 r0 False ign 0 app True))"
    using start_from_ready [OF sd ready] by meson
  obtain k r where tx: "tx8 (link_wires cb a) (push_bit 1 (ucast m)) (start_bit (link_wires cb a) st (Inr w))
      = (True, Inr (link_at True True (slave_at ACK_WAIT_LOW WAITING_FOR_START_OR_STOP False False k r False ign (ucast m) app True)))"
    using tx8_address [OF sd addr(1), of a False nx r0 ign app] start addr(2) by auto
  obtain v where "set_scl cb a False (link_at True True (slave_at ACK_WAIT_LOW WAITING_FOR_START_OR_STOP False False k r False ign (ucast m) app True)) = Inr v"
    "link_ready False ign app v"
    using park_after_ack [OF sd, of WAITING_FOR_START_OR_STOP ign a False k r "ucast m" app True] by auto
  from finish_link [OF sd this, of stop] tx show ?thesis
    by (auto simp: i2c_master_write_def write_bytes_nacked Let_def)
qed

section \<open>Any levels\<close>

text \<open>
  C33: Whatever levels the two lines take, in whatever order, the slave never fails its
  assertion: after every change it settles, in at most eight turns, to wait for an event or to
  be shut down.
\<close>

theorem i2c_slave_never_fails:
  "\<exists>w. fold (\<lambda>(scl, sda) r. rbind r (set_lines cb a scl sda)) (levels @ [l]) (Inr (i2c_link_init app)) = Inr w
    \<and> slave_turn cb a (line_scl w) (line_sda_m w) (line_slave w) = None"
proof -
  let ?run = "\<lambda>ls. fold (\<lambda>(scl, sda) r. rbind r (set_lines cb a scl sda)) ls (Inr (i2c_link_init app))"
  have step: "\<exists>w'. set_lines cb a (fst l) (snd l) w = Inr w' \<and> slave_wf (line_slave w')
      \<and> slave_turn cb a (line_scl w') (line_sda_m w') (line_slave w') = None" if wf: "slave_wf (line_slave w)" for l w
  proof -
    obtain t where "slave_settle 8 cb a (fst l) (snd l) (line_slave w) = Inr t" "slave_wf t" "slave_turn cb a (fst l) (snd l) t = None"
      using slave_settles [OF wf] by blast
    then show ?thesis by (simp add: set_lines_def del: slave_settle.simps slave_settle_numeral)
  qed
  have "\<exists>w. ?run ls = Inr w \<and> slave_wf (line_slave w)" for ls
  proof (induction ls rule: rev_induct)
    case (snoc l ls)
    then obtain w where w: "?run ls = Inr w" "slave_wf (line_slave w)" by blast
    then show ?case using step [OF w(2), of l] by (cases l) auto
  qed (simp add: i2c_link_init_def slave_init_wf)
  then obtain w where w: "?run levels = Inr w" "slave_wf (line_slave w)" by blast
  then show ?thesis using step [OF w(2), of l] by (cases l) auto
qed

section \<open>A read of no bytes\<close>

text \<open>
  A read of no bytes does not end for the slave: after the acknowledgement of its address it
  has put the first bit on the data line, and when that is low the master cannot make a stop bit, although
  it counts the transaction as stopped.
\<close>

lemma i2c_empty_read_blocks:
  "case i2c_master_read (link_wires sample_cb 0x50) 0x50 [] True \<lparr>bus = Inr (i2c_link_init [5]), stopped = True\<rparr> of
     (res, buf, m) \<Rightarrow> res = I2C_ACK \<and> stopped m
       \<and> (case bus m of Inr w \<Rightarrow> sl_state (line_slave w) = MASTER_READ \<and> \<not> sl_sda (line_slave w) | Inl _ \<Rightarrow> False)"
  by code_simp

end
