(* ===== verification/I2c_Slave_Driver.thy ===== *)
theory I2c_Slave_Driver
  imports I2c_Slave
begin

text \<open>
  The I2C slave driver, modules/rtos/drivers/i2c/rtos_i2c_slave.c: the callbacks it gives to the
  automaton of I2c_Slave, the interrupt, and the thread that calls the application, \<open>'d\<close>
  being its data. The two threads talk over a channel: a code to the application thread, and
  a byte back when its callback has returned.
\<close>

section \<open>The driver\<close>

text \<open>A thread goes on, has failed, or waits for ever.\<close>

datatype 'c hil = Running 'c | Failed c_error | Blocked

fun hbind :: "'c hil \<Rightarrow> ('c \<Rightarrow> 'b hil) \<Rightarrow> 'b hil" where
  "hbind (Running c) f = f c"
| "hbind (Failed e) f = Failed e"
| "hbind Blocked f = Blocked"

definition RTOS_I2C_SLAVE_BUF_LEN :: nat where "RTOS_I2C_SLAVE_BUF_LEN = 256"

definition RX_CB_CODE :: nat where "RX_CB_CODE = 0"
definition TX_START_CB_CODE :: nat where "TX_START_CB_CODE = 1"
definition TX_DONE_CB_CODE :: nat where "TX_DONE_CB_CODE = 2"

text \<open>
  The callbacks of the application. \<open>app_tx_start\<close> is given the driver's buffer, which it may
  fill, and returns a length, what the data pointer points to (None for NULL), the driver's
  buffer and its own data.
\<close>

record 'd i2c_slave_app =
  app_start :: "('d \<Rightarrow> 'd) option"
  app_rx :: "u8 list \<Rightarrow> 'd \<Rightarrow> 'd"
  app_tx_start :: "u8 list \<Rightarrow> 'd \<Rightarrow> nat \<times> u8 list option \<times> u8 list \<times> 'd"
  app_tx_done :: "(u8 list option \<Rightarrow> nat \<Rightarrow> 'd \<Rightarrow> 'd) option"

text \<open>\<open>cb_replies\<close> are the bytes on their way back to the thread of the automaton.\<close>

record 'd rtos_i2c_slave =
  data_buf :: "u8 list"
  rx_data_i :: nat
  tx_data :: "u8 list option"
  tx_data_len :: nat
  tx_data_i :: nat
  tx_data_sent :: nat
  waiting_for_complete_cb :: bool
  cb_events :: u32
  cb_replies :: nat
  app_data :: 'd

text \<open>A code on the channel: the interrupt of the other end sets its bit.\<close>

definition rtos_i2c_slave_isr :: "nat \<Rightarrow> 'd rtos_i2c_slave \<Rightarrow> 'd rtos_i2c_slave" where
  "rtos_i2c_slave_isr isr_action ctx = ctx\<lparr>cb_events := cb_events ctx OR push_bit isr_action 1\<rparr>"

definition tx_state_clear :: "'d rtos_i2c_slave \<Rightarrow> 'd rtos_i2c_slave" where
  "tx_state_clear ctx = ctx\<lparr>tx_data := None, tx_data_len := 0, tx_data_i := 0, tx_data_sent := 0\<rparr>"

definition rx_state_clear :: "'d rtos_i2c_slave \<Rightarrow> 'd rtos_i2c_slave" where
  "rx_state_clear ctx = ctx\<lparr>rx_data_i := 0\<rparr>"

text \<open>A turn of the application thread.\<close>

definition app_turn_rx :: "'d i2c_slave_app \<Rightarrow> 'd rtos_i2c_slave \<Rightarrow> 'd rtos_i2c_slave" where
  "app_turn_rx A ctx =
     (rx_state_clear (ctx\<lparr>app_data := app_rx A (take (rx_data_i ctx) (data_buf ctx)) (app_data ctx)\<rparr>))\<lparr>cb_replies := cb_replies ctx + 1\<rparr>"

definition app_turn_tx_start :: "'d i2c_slave_app \<Rightarrow> 'd rtos_i2c_slave \<Rightarrow> 'd rtos_i2c_slave" where
  "app_turn_tx_start A ctx =
     (let (len, data, buf, d) = app_tx_start A (data_buf ctx) (app_data ctx)
      in ctx\<lparr>tx_data_len := len, tx_data := data, data_buf := buf, app_data := d, cb_replies := cb_replies ctx + 1\<rparr>)"

definition app_turn_tx_done :: "'d i2c_slave_app \<Rightarrow> 'd rtos_i2c_slave \<Rightarrow> 'd rtos_i2c_slave hil" where
  "app_turn_tx_done A ctx =
     (case app_tx_done A of
        None \<Rightarrow> Failed NullDeref
      | Some f \<Rightarrow> Running ((tx_state_clear (ctx\<lparr>app_data := f (tx_data ctx) (tx_data_sent ctx) (app_data ctx)\<rparr>))\<lparr>cb_replies := cb_replies ctx + 1\<rparr>))"

definition i2c_slave_app_turn :: "'d i2c_slave_app \<Rightarrow> 'd rtos_i2c_slave \<Rightarrow> 'd rtos_i2c_slave hil" where
  "i2c_slave_app_turn A ctx =
     (let flags = cb_events ctx;
          ctx = ctx\<lparr>cb_events := 0\<rparr>;
          ctx = (if bit flags RX_CB_CODE then app_turn_rx A ctx else ctx);
          ctx = (if bit flags TX_START_CB_CODE then app_turn_tx_start A ctx else ctx)
      in if bit flags TX_DONE_CB_CODE then app_turn_tx_done A ctx else Running ctx)"

text \<open>Reading a byte of the channel waits for the application thread.\<close>

definition s_chan_in_byte :: "'d i2c_slave_app \<Rightarrow> 'd rtos_i2c_slave \<Rightarrow> 'd rtos_i2c_slave hil" where
  "s_chan_in_byte A ctx =
     hbind (if cb_replies ctx = 0 then i2c_slave_app_turn A ctx else Running ctx)
       (\<lambda>ctx. if 0 < cb_replies ctx then Running (ctx\<lparr>cb_replies := cb_replies ctx - 1\<rparr>) else Blocked)"

definition xfer_complete_check :: "'d i2c_slave_app \<Rightarrow> bool \<Rightarrow> 'd rtos_i2c_slave \<Rightarrow> 'd rtos_i2c_slave hil" where
  "xfer_complete_check A wait ctx =
     hbind (if waiting_for_complete_cb ctx
            then hbind (s_chan_in_byte A ctx) (\<lambda>ctx. Running (ctx\<lparr>waiting_for_complete_cb := False\<rparr>)) else Running ctx)
       (\<lambda>ctx.
         let (ctx, completed) =
           (if 0 < tx_data_sent ctx
            then if app_tx_done A \<noteq> None then (rtos_i2c_slave_isr TX_DONE_CB_CODE ctx, True) else (tx_state_clear ctx, False)
            else if 0 < rx_data_i ctx then (rtos_i2c_slave_isr RX_CB_CODE ctx, True) else (ctx, False))
         in if completed
            then if wait then s_chan_in_byte A ctx else Running (ctx\<lparr>waiting_for_complete_cb := True\<rparr>)
            else Running ctx)"

definition i2c_ack_read_req :: "'d i2c_slave_app \<Rightarrow> 'd rtos_i2c_slave \<Rightarrow> (i2c_slave_ack \<times> 'd rtos_i2c_slave) hil" where
  "i2c_ack_read_req A ctx =
     hbind (xfer_complete_check A True ctx) (\<lambda>ctx.
     hbind (s_chan_in_byte A (rtos_i2c_slave_isr TX_START_CB_CODE (ctx\<lparr>tx_data := Some (data_buf ctx)\<rparr>))) (\<lambda>ctx.
       let ctx = ctx\<lparr>tx_data_i := 0, tx_data_sent := 0\<rparr>
       in Running (if 0 < tx_data_len ctx \<and> tx_data ctx \<noteq> None then I2C_SLAVE_ACK else I2C_SLAVE_NACK, ctx)))"

definition i2c_ack_write_req :: "'d i2c_slave_app \<Rightarrow> 'd rtos_i2c_slave \<Rightarrow> (i2c_slave_ack \<times> 'd rtos_i2c_slave) hil" where
  "i2c_ack_write_req A ctx =
     hbind (xfer_complete_check A True ctx) (\<lambda>ctx. Running (I2C_SLAVE_ACK, ctx\<lparr>rx_data_i := 0\<rparr>))"

definition i2c_master_req_data :: "'d rtos_i2c_slave \<Rightarrow> (u8 \<times> 'd rtos_i2c_slave) hil" where
  "i2c_master_req_data ctx =
     (case tx_data ctx of
        Some data \<Rightarrow>
          if 0 < tx_data_len ctx
          then if tx_data_i ctx < length data
               then Running (data ! tx_data_i ctx,
                 ctx\<lparr>tx_data_i := (if tx_data_i ctx + 1 = tx_data_len ctx then 0 else tx_data_i ctx + 1), tx_data_sent := tx_data_sent ctx + 1\<rparr>)
               else Failed OutOfBounds
          else Running (0xFF, ctx)
      | None \<Rightarrow> Running (0xFF, ctx))"

definition i2c_master_sent_data :: "u8 \<Rightarrow> 'd rtos_i2c_slave \<Rightarrow> i2c_slave_ack \<times> 'd rtos_i2c_slave" where
  "i2c_master_sent_data d ctx =
     (let ctx = (if rx_data_i ctx < RTOS_I2C_SLAVE_BUF_LEN
                 then ctx\<lparr>data_buf := (data_buf ctx)[rx_data_i ctx := d], rx_data_i := rx_data_i ctx + 1\<rparr> else ctx)
      in (if rx_data_i ctx < RTOS_I2C_SLAVE_BUF_LEN then I2C_SLAVE_ACK else I2C_SLAVE_NACK, ctx))"

definition i2c_stop_bit :: "'d i2c_slave_app \<Rightarrow> 'd rtos_i2c_slave \<Rightarrow> 'd rtos_i2c_slave hil" where
  "i2c_stop_bit A ctx = xfer_complete_check A False ctx"

text \<open>The callbacks as the automaton calls them; in a thread that does not run any more they have no effect.\<close>

definition hil_value :: "'b \<Rightarrow> ('b \<times> 'c) hil \<Rightarrow> 'b \<times> 'c hil" where
  "hil_value dflt r = (case r of Running (b, c) \<Rightarrow> (b, Running c) | Failed e \<Rightarrow> (dflt, Failed e) | Blocked \<Rightarrow> (dflt, Blocked))"

definition i2c_slave_hil_thread :: "'d i2c_slave_app \<Rightarrow> 'd rtos_i2c_slave hil i2c_callback_group" where
  "i2c_slave_hil_thread A =
     \<lparr>ack_read_request = \<lambda>c. hil_value I2C_SLAVE_NACK (hbind c (i2c_ack_read_req A)),
      ack_write_request = \<lambda>c. hil_value I2C_SLAVE_NACK (hbind c (i2c_ack_write_req A)),
      master_requires_data = \<lambda>c. hil_value 0xFF (hbind c i2c_master_req_data),
      master_sent_data = \<lambda>b c. hil_value I2C_SLAVE_NACK (hbind c (\<lambda>ctx. Running (i2c_master_sent_data b ctx))),
      slave_stop_bit = Some (\<lambda>c. hbind c (i2c_stop_bit A)),
      shutdown = \<lambda>c. False\<rparr>"

text \<open>\<open>rtos_i2c_slave_init\<close> clears the driver; the application thread calls its start callback.\<close>

definition rtos_i2c_slave_start :: "'d i2c_slave_app \<Rightarrow> 'd \<Rightarrow> 'd rtos_i2c_slave" where
  "rtos_i2c_slave_start A d =
     \<lparr>data_buf = replicate RTOS_I2C_SLAVE_BUF_LEN 0, rx_data_i = 0, tx_data = None, tx_data_len = 0, tx_data_i = 0, tx_data_sent = 0,
      waiting_for_complete_cb = False, cb_events = 0, cb_replies = 0,
      app_data = (case app_start A of None \<Rightarrow> d | Some f \<Rightarrow> f d)\<rparr>"

section \<open>Transfers that have not been reported\<close>

text \<open>The data of the application once everything that is over has been reported to it.\<close>

definition reported :: "'d i2c_slave_app \<Rightarrow> 'd rtos_i2c_slave \<Rightarrow> 'd" where
  "reported A ctx =
     (if 0 < tx_data_sent ctx
      then case app_tx_done A of None \<Rightarrow> app_data ctx | Some f \<Rightarrow> f (tx_data ctx) (tx_data_sent ctx) (app_data ctx)
      else if 0 < rx_data_i ctx then app_rx A (take (rx_data_i ctx) (data_buf ctx)) (app_data ctx) else app_data ctx)"

text \<open>
  Between the calls of the automaton: at most one transfer is unreported, and the application
  thread has been told of it, or has finished with it, exactly if the driver waits.
\<close>

definition driver_ok :: "'d i2c_slave_app \<Rightarrow> 'd rtos_i2c_slave \<Rightarrow> bool" where
  "driver_ok A ctx \<longleftrightarrow> length (data_buf ctx) = RTOS_I2C_SLAVE_BUF_LEN \<and> rx_data_i ctx \<le> RTOS_I2C_SLAVE_BUF_LEN
     \<and> (rx_data_i ctx = 0 \<or> tx_data_sent ctx = 0)
     \<and> (if waiting_for_complete_cb ctx
        then cb_replies ctx = 0 \<and> cb_events ctx = 1 \<and> 0 < rx_data_i ctx
           \<or> cb_replies ctx = 0 \<and> cb_events ctx = 4 \<and> 0 < tx_data_sent ctx \<and> app_tx_done A \<noteq> None
           \<or> cb_replies ctx = 1 \<and> cb_events ctx = 0 \<and> rx_data_i ctx = 0 \<and> tx_data_sent ctx = 0
        else cb_replies ctx = 0 \<and> cb_events ctx = 0)"

definition driver_idle :: "'d rtos_i2c_slave \<Rightarrow> bool" where
  "driver_idle ctx \<longleftrightarrow> length (data_buf ctx) = RTOS_I2C_SLAVE_BUF_LEN \<and> rx_data_i ctx = 0 \<and> tx_data_sent ctx = 0
     \<and> \<not> waiting_for_complete_cb ctx \<and> cb_replies ctx = 0 \<and> cb_events ctx = 0"

lemmas codes = RX_CB_CODE_def TX_START_CB_CODE_def TX_DONE_CB_CODE_def

lemma flag_bits [simp]:
  "bit (1 :: u32) 0" "\<not> bit (1 :: u32) 1" "\<not> bit (1 :: u32) (Suc 0)" "\<not> bit (1 :: u32) 2"
  "\<not> bit (2 :: u32) 0" "bit (2 :: u32) 1" "bit (2 :: u32) (Suc 0)" "\<not> bit (2 :: u32) 2"
  "\<not> bit (4 :: u32) 0" "\<not> bit (4 :: u32) 1" "\<not> bit (4 :: u32) (Suc 0)" "bit (4 :: u32) 2"
  by simp_all

lemma app_turn_flags:
  "cb_events ctx = 0 \<Longrightarrow> i2c_slave_app_turn A ctx = Running ctx"
  "cb_events ctx = 1 \<Longrightarrow> i2c_slave_app_turn A ctx = Running (app_turn_rx A (ctx\<lparr>cb_events := 0\<rparr>))"
  "cb_events ctx = 2 \<Longrightarrow> i2c_slave_app_turn A ctx = Running (app_turn_tx_start A (ctx\<lparr>cb_events := 0\<rparr>))"
  "cb_events ctx = 4 \<Longrightarrow> i2c_slave_app_turn A ctx = app_turn_tx_done A (ctx\<lparr>cb_events := 0\<rparr>)"
  by (simp_all add: i2c_slave_app_turn_def codes Let_def)

lemma driver_ok_cases:
  assumes "driver_ok A ctx"
  obtains (quiet) "\<not> waiting_for_complete_cb ctx" "cb_replies ctx = 0" "cb_events ctx = 0"
  | (rx) "waiting_for_complete_cb ctx" "cb_replies ctx = 0" "cb_events ctx = 1" "0 < rx_data_i ctx" "tx_data_sent ctx = 0"
  | (tx) f where "waiting_for_complete_cb ctx" "cb_replies ctx = 0" "cb_events ctx = 4" "0 < tx_data_sent ctx" "rx_data_i ctx = 0" "app_tx_done A = Some f"
  | (over) "waiting_for_complete_cb ctx" "cb_replies ctx = 1" "cb_events ctx = 0" "rx_data_i ctx = 0" "tx_data_sent ctx = 0"
  using assms by (auto simp: driver_ok_def split: if_splits)

text \<open>When the application thread takes its turn makes no difference.\<close>

lemma app_turn_ok:
  assumes "driver_ok A ctx"
  shows "\<exists>ctx'. i2c_slave_app_turn A ctx = Running ctx' \<and> driver_ok A ctx' \<and> reported A ctx' = reported A ctx
    \<and> data_buf ctx' = data_buf ctx \<and> (waiting_for_complete_cb ctx \<longrightarrow> waiting_for_complete_cb ctx' \<and> 0 < cb_replies ctx')"
  using assms
proof (cases rule: driver_ok_cases)
  case rx
  then show ?thesis using assms by (simp add: app_turn_flags app_turn_rx_def rx_state_clear_def reported_def driver_ok_def)
next
  case tx
  then show ?thesis using assms by (simp add: app_turn_flags app_turn_tx_done_def tx_state_clear_def reported_def driver_ok_def)
qed (use assms in \<open>simp_all add: app_turn_flags\<close>)

text \<open>Waiting for the application thread after a completed transfer.\<close>

lemma wait_for_reply:
  assumes ok: "driver_ok A ctx" and waits: "waiting_for_complete_cb ctx"
  shows "\<exists>ctx'. s_chan_in_byte A ctx = Running ctx' \<and> driver_idle (ctx'\<lparr>waiting_for_complete_cb := False\<rparr>)
    \<and> app_data ctx' = reported A ctx \<and> data_buf ctx' = data_buf ctx"
  using ok
proof (cases rule: driver_ok_cases)
  case quiet
  then show ?thesis using waits by simp
next
  case rx
  then show ?thesis using ok
    by (simp add: s_chan_in_byte_def app_turn_flags app_turn_rx_def rx_state_clear_def driver_idle_def reported_def driver_ok_def)
next
  case tx
  then show ?thesis using ok
    by (simp add: s_chan_in_byte_def app_turn_flags app_turn_tx_done_def tx_state_clear_def driver_idle_def reported_def driver_ok_def)
next
  case over
  then show ?thesis using ok by (simp add: s_chan_in_byte_def driver_idle_def reported_def driver_ok_def)
qed

text \<open>The first half of the check leaves a driver that waits for nothing.\<close>

definition collect_reply :: "'d i2c_slave_app \<Rightarrow> 'd rtos_i2c_slave \<Rightarrow> 'd rtos_i2c_slave hil" where
  "collect_reply A ctx =
     (if waiting_for_complete_cb ctx
      then hbind (s_chan_in_byte A ctx) (\<lambda>ctx. Running (ctx\<lparr>waiting_for_complete_cb := False\<rparr>)) else Running ctx)"

lemma collect_reply_ok:
  assumes "driver_ok A ctx"
  shows "\<exists>ctx'. collect_reply A ctx = Running ctx' \<and> driver_ok A ctx' \<and> \<not> waiting_for_complete_cb ctx'
    \<and> reported A ctx' = reported A ctx \<and> data_buf ctx' = data_buf ctx"
proof (cases "waiting_for_complete_cb ctx")
  case True
  obtain ctx' where "s_chan_in_byte A ctx = Running ctx'" "driver_idle (ctx'\<lparr>waiting_for_complete_cb := False\<rparr>)"
    "app_data ctx' = reported A ctx" "data_buf ctx' = data_buf ctx"
    using wait_for_reply [OF assms True] by blast
  then show ?thesis using True by (simp add: collect_reply_def driver_idle_def driver_ok_def reported_def)
qed (use assms in \<open>simp add: collect_reply_def\<close>)

lemma complete_check_unfold:
  "xfer_complete_check A wait ctx = hbind (collect_reply A ctx) (\<lambda>ctx.
     if 0 < tx_data_sent ctx \<and> app_tx_done A = None then Running (tx_state_clear ctx)
     else if 0 < tx_data_sent ctx \<or> 0 < rx_data_i ctx
     then let ctx = rtos_i2c_slave_isr (if 0 < tx_data_sent ctx then TX_DONE_CB_CODE else RX_CB_CODE) ctx
          in if wait then s_chan_in_byte A ctx else Running (ctx\<lparr>waiting_for_complete_cb := True\<rparr>)
     else Running ctx)"
  by (auto simp: xfer_complete_check_def collect_reply_def Let_def intro!: arg_cong2 [of _ _ _ _ hbind])

lemma complete_check_no_wait:
  assumes "driver_ok A ctx"
  shows "\<exists>ctx'. xfer_complete_check A False ctx = Running ctx' \<and> driver_ok A ctx' \<and> reported A ctx' = reported A ctx
    \<and> data_buf ctx' = data_buf ctx"
proof -
  obtain c where c: "collect_reply A ctx = Running c" "driver_ok A c" "\<not> waiting_for_complete_cb c"
    "reported A c = reported A ctx" "data_buf c = data_buf ctx"
    using collect_reply_ok [OF assms] by blast
  have "cb_replies c = 0" "cb_events c = 0" using c(2,3) by (simp_all add: driver_ok_def)
  then show ?thesis using c
    by (auto simp: complete_check_unfold rtos_i2c_slave_isr_def codes tx_state_clear_def driver_ok_def reported_def Let_def)
qed

lemma complete_check_wait:
  assumes "driver_ok A ctx"
  shows "\<exists>ctx'. xfer_complete_check A True ctx = Running ctx' \<and> driver_idle ctx' \<and> app_data ctx' = reported A ctx
    \<and> data_buf ctx' = data_buf ctx"
proof -
  obtain c where c: "collect_reply A ctx = Running c" "driver_ok A c" "\<not> waiting_for_complete_cb c"
    "reported A c = reported A ctx" "data_buf c = data_buf ctx"
    using collect_reply_ok [OF assms] by blast
  have q: "cb_replies c = 0" "cb_events c = 0" using c(2,3) by (simp_all add: driver_ok_def)
  consider (clear) "0 < tx_data_sent c" "app_tx_done A = None"
    | (tx) f where "0 < tx_data_sent c" "app_tx_done A = Some f" | (rx) "tx_data_sent c = 0" "0 < rx_data_i c"
    | (none) "tx_data_sent c = 0" "rx_data_i c = 0" by (cases "app_tx_done A") auto
  then show ?thesis
  proof cases
    case clear
    then show ?thesis using c q by (auto simp: complete_check_unfold tx_state_clear_def driver_idle_def driver_ok_def reported_def)
  next
    case tx
    then show ?thesis using c q
      by (auto simp: complete_check_unfold rtos_i2c_slave_isr_def codes s_chan_in_byte_def app_turn_flags app_turn_tx_done_def
          tx_state_clear_def driver_idle_def driver_ok_def reported_def Let_def)
  next
    case rx
    then show ?thesis using c q
      by (auto simp: complete_check_unfold rtos_i2c_slave_isr_def codes s_chan_in_byte_def app_turn_flags app_turn_rx_def
          rx_state_clear_def driver_idle_def driver_ok_def reported_def Let_def)
  next
    case none
    then show ?thesis using c q by (auto simp: complete_check_unfold driver_idle_def driver_ok_def reported_def)
  qed
qed

section \<open>The bytes of a transfer\<close>

lemma hil_thread_simps [simp]:
  "ack_read_request (i2c_slave_hil_thread A) (Running ctx) = hil_value I2C_SLAVE_NACK (i2c_ack_read_req A ctx)"
  "ack_write_request (i2c_slave_hil_thread A) (Running ctx) = hil_value I2C_SLAVE_NACK (i2c_ack_write_req A ctx)"
  "master_requires_data (i2c_slave_hil_thread A) (Running ctx) = hil_value 0xFF (i2c_master_req_data ctx)"
  "master_sent_data (i2c_slave_hil_thread A) b (Running ctx) = hil_value I2C_SLAVE_NACK (Running (i2c_master_sent_data b ctx))"
  "slave_stop_bit (i2c_slave_hil_thread A) = Some (\<lambda>c. hbind c (i2c_stop_bit A))"
  "\<not> shutdown (i2c_slave_hil_thread A) c"
  by (simp_all add: i2c_slave_hil_thread_def)

lemma hil_value_Running [simp]: "hil_value dflt (Running (b, c)) = (b, Running c)"
  by (simp add: hil_value_def)

text \<open>The driver stores the bytes until its buffer is full; it refuses the byte that fills it.\<close>

lemma driver_receives:
  assumes "length (data_buf ctx) = RTOS_I2C_SLAVE_BUF_LEN" and "rx_data_i ctx < RTOS_I2C_SLAVE_BUF_LEN"
  shows "slave_receives (i2c_slave_hil_thread A) bs (Running ctx) =
    (let k = min (length bs) (RTOS_I2C_SLAVE_BUF_LEN - rx_data_i ctx)
     in (k, if length bs < RTOS_I2C_SLAVE_BUF_LEN - rx_data_i ctx then I2C_ACK else I2C_NACK,
         Running (ctx\<lparr>data_buf := splice (rx_data_i ctx) (take k bs) (data_buf ctx), rx_data_i := rx_data_i ctx + k\<rparr>)))"
  using assms
proof (induction bs arbitrary: ctx)
  case Nil
  then show ?case by (simp add: Let_def)
next
  case (Cons b bs)
  let ?i = "rx_data_i ctx"
  let ?c = "ctx\<lparr>data_buf := (data_buf ctx)[?i := b], rx_data_i := ?i + 1\<rparr>"
  have sent: "i2c_master_sent_data b ctx = (if ?i + 1 < RTOS_I2C_SLAVE_BUF_LEN then I2C_SLAVE_ACK else I2C_SLAVE_NACK, ?c)"
    using Cons.prems(2) by (simp add: i2c_master_sent_data_def Let_def)
  show ?case
  proof (cases "?i + 1 < RTOS_I2C_SLAVE_BUF_LEN")
    case True
    have "slave_receives (i2c_slave_hil_thread A) bs (Running ?c) =
      (let k = min (length bs) (RTOS_I2C_SLAVE_BUF_LEN - rx_data_i ?c)
       in (k, if length bs < RTOS_I2C_SLAVE_BUF_LEN - rx_data_i ?c then I2C_ACK else I2C_NACK,
           Running (?c\<lparr>data_buf := splice (rx_data_i ?c) (take k bs) (data_buf ?c), rx_data_i := rx_data_i ?c + k\<rparr>)))"
      by (rule Cons.IH) (use Cons.prems(1) True in simp_all)
    moreover have "min (length (b # bs)) (RTOS_I2C_SLAVE_BUF_LEN - ?i) = Suc (min (length bs) (RTOS_I2C_SLAVE_BUF_LEN - (?i + 1)))"
      using True by simp
    moreover have "(length bs < RTOS_I2C_SLAVE_BUF_LEN - (?i + 1)) = (length (b # bs) < RTOS_I2C_SLAVE_BUF_LEN - ?i)"
      using True by auto
    ultimately show ?thesis using sent True Cons.prems splice_Cons [of ?i "data_buf ctx"] by (simp add: Let_def)
  next
    case False
    then have "RTOS_I2C_SLAVE_BUF_LEN - ?i = 1" using Cons.prems(2) by simp
    then show ?thesis using sent False Cons.prems splice_Cons [of ?i "data_buf ctx" "[]" b] by (simp add: Let_def)
  qed
qed

text \<open>The driver goes round in the data of the application.\<close>

lemma mod_step: "i < n \<Longrightarrow> (if i + 1 = n then 0 else i + 1) = (i + 1) mod n" for i :: nat
  by simp

lemma driver_provides:
  assumes "tx_data ctx = Some data" and "0 < tx_data_len ctx" and "tx_data_len ctx \<le> length data" and "tx_data_i ctx < tx_data_len ctx"
  shows "slave_provides (i2c_slave_hil_thread A) n (Running ctx) =
    (map (\<lambda>j. data ! ((tx_data_i ctx + j) mod tx_data_len ctx)) [0 ..< n],
     Running (ctx\<lparr>tx_data_i := (tx_data_i ctx + n) mod tx_data_len ctx, tx_data_sent := tx_data_sent ctx + n\<rparr>))"
  using assms
proof (induction n arbitrary: ctx)
  case 0
  then show ?case by simp
next
  case (Suc n)
  let ?l = "tx_data_len ctx" and ?i = "tx_data_i ctx"
  let ?c = "ctx\<lparr>tx_data_i := (?i + 1) mod ?l, tx_data_sent := tx_data_sent ctx + 1\<rparr>"
  have "i2c_master_req_data ctx = Running (data ! ?i, ?c)"
    using Suc.prems mod_step [of ?i ?l] by (simp add: i2c_master_req_data_def del: One_nat_def)
  moreover have "slave_provides (i2c_slave_hil_thread A) n (Running ?c) =
      (map (\<lambda>j. data ! ((tx_data_i ?c + j) mod tx_data_len ?c)) [0 ..< n],
       Running (?c\<lparr>tx_data_i := (tx_data_i ?c + n) mod tx_data_len ?c, tx_data_sent := tx_data_sent ?c + n\<rparr>))"
    by (rule Suc.IH) (use Suc.prems in simp_all)
  moreover have "map (\<lambda>j. data ! ((?i + j) mod ?l)) [0 ..< Suc n] = data ! ?i # map (\<lambda>j. data ! ((?i + Suc j) mod ?l)) [0 ..< n]"
    using map_upt_Suc [of "\<lambda>j. data ! ((?i + j) mod ?l)" n] Suc.prems(4) by simp
  ultimately show ?case by (simp add: mod_simps ac_simps del: upt_Suc)
qed

section \<open>Transactions between two devices\<close>

datatype i2c_transaction = I2c_Write "u8 list" bool | I2c_Read "u8 list" bool
datatype i2c_outcome = Written i2c_res nat | Was_Read i2c_res "u8 list"

fun stop_asked :: "i2c_transaction \<Rightarrow> bool" where
  "stop_asked (I2c_Write bs stop) = stop"
| "stop_asked (I2c_Read buf stop) = stop"

fun master_transaction :: "'w i2c_wires \<Rightarrow> u8 \<Rightarrow> i2c_transaction \<Rightarrow> 'w i2c_master \<Rightarrow> i2c_outcome \<times> 'w i2c_master" where
  "master_transaction W a (I2c_Write bs stop) m = (let (res, n, m) = i2c_master_write W a bs stop m in (Written res n, m))"
| "master_transaction W a (I2c_Read buf stop) m = (let (res, bs, m) = i2c_master_read W a buf stop m in (Was_Read res bs, m))"

text \<open>
  The specification: what the master is told, and what becomes of the application's data. The
  first component of the state is the driver's buffer, which the application may look at when it
  is asked for data.
\<close>

fun app_serves :: "'d i2c_slave_app \<Rightarrow> i2c_transaction \<Rightarrow> u8 list \<times> 'd \<Rightarrow> i2c_outcome \<times> u8 list \<times> 'd" where
  "app_serves A (I2c_Write bs stop) (buf, d) =
     (let k = min (length bs) RTOS_I2C_SLAVE_BUF_LEN
      in (Written (if length bs < RTOS_I2C_SLAVE_BUF_LEN then I2C_ACK else I2C_NACK) k,
          splice 0 (take k bs) buf, if k = 0 then d else app_rx A (take k bs) d))"
| "app_serves A (I2c_Read rb stop) (buf, d) =
     (case app_tx_start A buf d of
        (len, Some data, buf, d) \<Rightarrow>
          if len = 0 then (Was_Read I2C_NACK rb, buf, d)
          else (Was_Read I2C_ACK (map (\<lambda>j. data ! (j mod len)) [0 ..< length rb]), buf,
                case app_tx_done A of None \<Rightarrow> d | Some f \<Rightarrow> f (Some data) (length rb) d)
      | (len, None, buf, d) \<Rightarrow> (Was_Read I2C_NACK rb, buf, d))"

text \<open>The application keeps to the interface: it announces no more than its buffer holds.\<close>

definition app_fits :: "'d i2c_slave_app \<Rightarrow> bool" where
  "app_fits A \<longleftrightarrow> (\<forall>buf d len data buf' d'. length buf = RTOS_I2C_SLAVE_BUF_LEN \<longrightarrow> app_tx_start A buf d = (len, data, buf', d') \<longrightarrow>
     length buf' = RTOS_I2C_SLAVE_BUF_LEN \<and> (\<forall>bs. data = Some bs \<longrightarrow> len \<le> length bs))"

lemma write_transaction_serves:
  assumes ok: "driver_ok A ctx"
  shows "\<exists>ctx'. serve_write (i2c_slave_hil_thread A) bs (Running ctx) =
      (let k = min (length bs) RTOS_I2C_SLAVE_BUF_LEN in (k, if length bs < RTOS_I2C_SLAVE_BUF_LEN then I2C_ACK else I2C_NACK, Running ctx'))
    \<and> driver_ok A ctx' \<and> (data_buf ctx', reported A ctx') = snd (app_serves A (I2c_Write bs stop) (data_buf ctx, reported A ctx))"
proof -
  define k where "k = min (length bs) RTOS_I2C_SLAVE_BUF_LEN"
  obtain c where c: "xfer_complete_check A True ctx = Running c" "driver_idle c" "app_data c = reported A ctx" "data_buf c = data_buf ctx"
    using complete_check_wait [OF ok] by blast
  have rx: "length (data_buf c) = RTOS_I2C_SLAVE_BUF_LEN" "rx_data_i c = 0" "0 < RTOS_I2C_SLAVE_BUF_LEN"
    using c(2) by (simp_all add: driver_idle_def RTOS_I2C_SLAVE_BUF_LEN_def)
  let ?c = "c\<lparr>data_buf := splice 0 (take k bs) (data_buf c), rx_data_i := k\<rparr>"
  have "c\<lparr>rx_data_i := 0\<rparr> = c" using rx(2) by simp
  then have ack: "i2c_ack_write_req A ctx = Running (I2C_SLAVE_ACK, c)" using c(1) by (simp only: i2c_ack_write_req_def hbind.simps)
  have len: "length (splice 0 (take k bs) (data_buf c)) = RTOS_I2C_SLAVE_BUF_LEN" using rx(1) by (simp add: k_def)
  have ok': "driver_ok A ?c" using c(2) len by (simp add: driver_ok_def driver_idle_def k_def)
  have "take k (splice 0 (take k bs) (data_buf c)) = take k bs" by (simp add: splice_def k_def min_def)
  then have rep: "reported A ?c = (if k = 0 then reported A ctx else app_rx A (take k bs) (reported A ctx))"
    using c(2,3) by (simp add: reported_def [of A ?c] driver_idle_def)
  have run: "serve_write (i2c_slave_hil_thread A) bs (Running ctx)
      = (k, if length bs < RTOS_I2C_SLAVE_BUF_LEN then I2C_ACK else I2C_NACK, Running ?c)"
    using driver_receives [of c A bs] rx ack by (simp add: serve_write_def k_def Let_def)
  have spec: "snd (app_serves A (I2c_Write bs stop) (data_buf ctx, reported A ctx)) = (data_buf ?c, reported A ?c)"
    unfolding rep using c(4) by (simp only: app_serves.simps k_def [symmetric] Let_def) simp
  show ?thesis
    by (rule exI [of _ ?c]) (use run ok' spec in \<open>simp only: Let_def simp_thms k_def [symmetric]\<close>)
qed

lemma read_transaction_serves:
  assumes ok: "driver_ok A ctx" and fits: "app_fits A" and rb: "rb \<noteq> []"
  shows "\<exists>bs res ctx'. serve_read (i2c_slave_hil_thread A) rb (Running ctx) = (bs, res, Running ctx')
    \<and> driver_ok A ctx' \<and> app_serves A (I2c_Read rb stop) (data_buf ctx, reported A ctx) = (Was_Read res bs, data_buf ctx', reported A ctx')"
proof -
  obtain c where c: "xfer_complete_check A True ctx = Running c" "driver_idle c" "app_data c = reported A ctx" "data_buf c = data_buf ctx"
    using complete_check_wait [OF ok] by blast
  obtain len data buf d where st: "app_tx_start A (data_buf ctx) (reported A ctx) = (len, data, buf, d)" by (metis prod_cases4)
  have lb: "length (data_buf ctx) = RTOS_I2C_SLAVE_BUF_LEN" using ok by (simp add: driver_ok_def)
  have len: "length buf = RTOS_I2C_SLAVE_BUF_LEN" "\<And>bs. data = Some bs \<Longrightarrow> len \<le> length bs"
    using fits lb st unfolding app_fits_def by blast+
  let ?c = "c\<lparr>tx_data := data, tx_data_len := len, data_buf := buf, app_data := d, tx_data_i := 0\<rparr>"
  have req: "i2c_ack_read_req A ctx = Running (if 0 < len \<and> data \<noteq> None then I2C_SLAVE_ACK else I2C_SLAVE_NACK, ?c)"
    using c st by (simp add: i2c_ack_read_req_def rtos_i2c_slave_isr_def codes s_chan_in_byte_def app_turn_flags app_turn_tx_start_def
        driver_idle_def Let_def)
  have ok': "driver_ok A ?c" using c(2) len(1) by (simp add: driver_ok_def driver_idle_def)
  have rep: "reported A ?c = d" using c(2) by (simp add: reported_def driver_idle_def)
  show ?thesis
  proof (cases "0 < len \<and> data \<noteq> None")
    case True
    then obtain bs where bs: "data = Some bs" by blast
    let ?n = "length rb"
    let ?c' = "?c\<lparr>tx_data_i := ?n mod len, tx_data_sent := ?n\<rparr>"
    have sent: "tx_data_sent c = 0" "rx_data_i c = 0" using c(2) by (simp_all add: driver_idle_def)
    have prov: "slave_provides (i2c_slave_hil_thread A) ?n (Running ?c) = (map (\<lambda>j. bs ! (j mod len)) [0 ..< ?n], Running ?c')"
      using driver_provides [of ?c bs A ?n] True bs len(2) sent by simp
    have okc: "driver_ok A ?c'" using c(2) len(1) by (simp add: driver_ok_def driver_idle_def)
    show ?thesis using req prov True bs okc st sent rb
      by (auto simp: serve_read_def reported_def split: option.splits)
  next
    case False
    then show ?thesis using req ok' rep st by (cases data) (auto simp: serve_read_def)
  qed
qed

text \<open>One transaction, from a slave that may still have a transfer to report.\<close>

fun reads_something :: "i2c_transaction \<Rightarrow> bool" where
  "reads_something (I2c_Write bs stop) = True"
| "reads_something (I2c_Read buf stop) = (buf \<noteq> [])"

lemma stop_reported:
  assumes "driver_ok A ctx"
  shows "\<exists>ctx'. (if stop then call_stop_bit (i2c_slave_hil_thread A) False (Running ctx) else Running ctx) = Running ctx'
    \<and> driver_ok A ctx' \<and> reported A ctx' = reported A ctx \<and> data_buf ctx' = data_buf ctx"
  using assms complete_check_no_wait [OF assms] by (auto simp: call_stop_bit_def i2c_stop_bit_def)

lemma transaction_serves:
  assumes a: "a < 128" and fits: "app_fits A" and t: "reads_something t"
    and ready: "link_ready st ign (Running ctx) w" and ok: "driver_ok A ctx"
    and serves: "app_serves A t (data_buf ctx, reported A ctx) = (outcome, buf, d)"
  shows "\<exists>w' ctx'. master_transaction (link_wires (i2c_slave_hil_thread A) a) a t \<lparr>bus = Inr w, stopped = st\<rparr>
      = (outcome, \<lparr>bus = Inr w', stopped = stop_asked t\<rparr>)
    \<and> link_ready (stop_asked t) (stop_asked t) (Running ctx') w' \<and> driver_ok A ctx' \<and> data_buf ctx' = buf \<and> reported A ctx' = d"
proof (cases t)
  case (I2c_Write bs stop)
  obtain c where c: "serve_write (i2c_slave_hil_thread A) bs (Running ctx) =
      (let k = min (length bs) RTOS_I2C_SLAVE_BUF_LEN in (k, if length bs < RTOS_I2C_SLAVE_BUF_LEN then I2C_ACK else I2C_NACK, Running c))"
    "driver_ok A c" "(data_buf c, reported A c) = snd (app_serves A (I2c_Write bs stop) (data_buf ctx, reported A ctx))"
    using write_transaction_serves [OF ok] by blast
  obtain c' where c': "(if stop then call_stop_bit (i2c_slave_hil_thread A) False (Running c) else Running c) = Running c'"
    "driver_ok A c'" "reported A c' = reported A c" "data_buf c' = data_buf c"
    using stop_reported [OF c(2)] by blast
  obtain w' where "i2c_master_write (link_wires (i2c_slave_hil_thread A) a) a bs stop \<lparr>bus = Inr w, stopped = st\<rparr>
      = (if length bs < RTOS_I2C_SLAVE_BUF_LEN then I2C_ACK else I2C_NACK, min (length bs) RTOS_I2C_SLAVE_BUF_LEN, \<lparr>bus = Inr w', stopped = stop\<rparr>)"
    "link_ready stop stop (Running c') w'"
    using i2c_write_link [OF hil_thread_simps(6) a ready c(1) [unfolded Let_def], of stop] c'(1) by auto
  then show ?thesis using I2c_Write c(3) c' serves by (auto simp: Let_def)
next
  case (I2c_Read rb stop)
  obtain bs res c where c: "serve_read (i2c_slave_hil_thread A) rb (Running ctx) = (bs, res, Running c)" "driver_ok A c"
    "app_serves A (I2c_Read rb stop) (data_buf ctx, reported A ctx) = (Was_Read res bs, data_buf c, reported A c)"
    using read_transaction_serves [OF ok fits] t I2c_Read by force
  obtain c' where c': "(if stop then call_stop_bit (i2c_slave_hil_thread A) False (Running c) else Running c) = Running c'"
    "driver_ok A c'" "reported A c' = reported A c" "data_buf c' = data_buf c"
    using stop_reported [OF c(2)] by blast
  have "rb \<noteq> []" using t I2c_Read by simp
  then obtain w' where "i2c_master_read (link_wires (i2c_slave_hil_thread A) a) a rb stop \<lparr>bus = Inr w, stopped = st\<rparr>
      = (res, bs, \<lparr>bus = Inr w', stopped = stop\<rparr>)" "link_ready stop stop (Running c') w'"
    using i2c_read_link [OF hil_thread_simps(6) a ready _ c(1), of stop] c'(1) by auto
  then show ?thesis using I2c_Read c(3) c' serves by auto
qed

section \<open>A conversation\<close>

text \<open>
  A sequence of transactions; before each the application thread may or may not have taken
  its turn.
\<close>

definition app_thread_turn :: "'d i2c_slave_app \<Rightarrow> 'd rtos_i2c_slave hil i2c_link \<Rightarrow> 'd rtos_i2c_slave hil i2c_link" where
  "app_thread_turn A w = w\<lparr>line_slave := (line_slave w)\<lparr>sl_app := hbind (sl_app (line_slave w)) (i2c_slave_app_turn A)\<rparr>\<rparr>"

fun i2c_conversation ::
  "'d i2c_slave_app \<Rightarrow> u8 \<Rightarrow> (bool \<times> i2c_transaction) list \<Rightarrow> 'd rtos_i2c_slave hil i2c_link res i2c_master
   \<Rightarrow> i2c_outcome list \<times> 'd rtos_i2c_slave hil i2c_link res i2c_master" where
  "i2c_conversation A a [] m = ([], m)"
| "i2c_conversation A a ((early, t) # ts) m =
     (let m = (if early then m\<lparr>bus := rbind (bus m) (\<lambda>w. Inr (app_thread_turn A w))\<rparr> else m);
          (outcome, m) = master_transaction (link_wires (i2c_slave_hil_thread A) a) a t m;
          (outcomes, m) = i2c_conversation A a ts m
      in (outcome # outcomes, m))"

fun app_conversation :: "'d i2c_slave_app \<Rightarrow> i2c_transaction list \<Rightarrow> u8 list \<times> 'd \<Rightarrow> i2c_outcome list \<times> u8 list \<times> 'd" where
  "app_conversation A [] s = ([], s)"
| "app_conversation A (t # ts) s =
     (let (outcome, s) = app_serves A t s; (outcomes, s) = app_conversation A ts s in (outcome # outcomes, s))"

lemma app_thread_turn_ready:
  assumes "link_ready st ign (Running ctx) w" and "driver_ok A ctx"
  shows "\<exists>ctx'. link_ready st ign (Running ctx') (app_thread_turn A w) \<and> driver_ok A ctx' \<and> data_buf ctx' = data_buf ctx
    \<and> reported A ctx' = reported A ctx"
  using app_turn_ok [OF assms(2)] assms(1) by (auto simp: link_ready_def app_thread_turn_def Let_def)

lemma conversation_from_ready:
  assumes "a < 128" "app_fits A"
  shows "link_ready st ign (Running ctx) w \<Longrightarrow> driver_ok A ctx \<Longrightarrow> \<forall>(early, t) \<in> set ts. reads_something t \<Longrightarrow>
    app_conversation A (map snd ts) (data_buf ctx, reported A ctx) = (outcomes, buf, d) \<Longrightarrow>
    \<exists>w' ctx' st' ign'. i2c_conversation A a ts \<lparr>bus = Inr w, stopped = st\<rparr> = (outcomes, \<lparr>bus = Inr w', stopped = st'\<rparr>)
      \<and> link_ready st' ign' (Running ctx') w' \<and> driver_ok A ctx' \<and> data_buf ctx' = buf \<and> reported A ctx' = d"
proof (induction ts arbitrary: st ign ctx w outcomes)
  case Nil
  then show ?case by auto
next
  case (Cons et ts)
  obtain early t where et: "et = (early, t)" by force
  obtain outcome buf1 d1 where o1: "app_serves A t (data_buf ctx, reported A ctx) = (outcome, buf1, d1)" by (metis prod_cases3)
  then obtain os where os: "app_conversation A (map snd ts) (buf1, d1) = (os, buf, d)" "outcomes = outcome # os"
    using Cons.prems(4) et by (auto split: prod.splits)
  let ?w = "if early then app_thread_turn A w else w"
  obtain c where c: "link_ready st ign (Running c) ?w" "driver_ok A c" "data_buf c = data_buf ctx" "reported A c = reported A ctx"
    using app_thread_turn_ready [OF Cons.prems(1,2)] Cons.prems(1,2) by (cases early) auto
  have t: "reads_something t" using Cons.prems(3) et by simp
  obtain w1 c1 where w1: "master_transaction (link_wires (i2c_slave_hil_thread A) a) a t \<lparr>bus = Inr ?w, stopped = st\<rparr>
      = (outcome, \<lparr>bus = Inr w1, stopped = stop_asked t\<rparr>)"
    "link_ready (stop_asked t) (stop_asked t) (Running c1) w1" "driver_ok A c1" "data_buf c1 = buf1" "reported A c1 = d1"
    using transaction_serves [OF assms t c(1,2), of outcome buf1 d1] o1 c(3,4) by auto
  have "(if early then \<lparr>bus = Inr w, stopped = st\<rparr>\<lparr>bus := rbind (bus \<lparr>bus = Inr w, stopped = st\<rparr>) (\<lambda>w. Inr (app_thread_turn A w))\<rparr>
      else \<lparr>bus = Inr w, stopped = st\<rparr>) = \<lparr>bus = Inr ?w, stopped = st\<rparr>" by simp
  then have step: "i2c_conversation A a (et # ts) \<lparr>bus = Inr w, stopped = st\<rparr>
      = (let (outcomes, m) = i2c_conversation A a ts \<lparr>bus = Inr w1, stopped = stop_asked t\<rparr> in (outcome # outcomes, m))"
    unfolding et i2c_conversation.simps Let_def by (simp only: w1(1)) simp
  show ?case
    using Cons.IH [OF w1(2,3)] os w1(4,5) Cons.prems(3) step by force
qed

text \<open>
  C5: A master and a slave built from the two implementations of the library hold any conversation
  of writes and reads, with or without stop bits between them, as if the master called the
  application directly: every write is delivered to the receive callback once, whole and in
  order (cut at the length of the driver's buffer), every read returns what the application
  provides, and the master's results are the ones specified. It does not matter when the
  application thread runs, and neither thread fails or waits for ever.
\<close>

theorem i2c_conversation_served:
  assumes "a < 128" and "app_fits A" and "\<forall>(early, t) \<in> set ts. reads_something t"
    and "app_conversation A (map snd ts) (data_buf ctx, app_data ctx) = (outcomes, buf, d)"
    and "ctx = rtos_i2c_slave_start A d0"
  shows "\<exists>w' ctx' st. i2c_conversation A a ts \<lparr>bus = Inr (i2c_link_init (Running ctx)), stopped = True\<rparr> = (outcomes, \<lparr>bus = Inr w', stopped = st\<rparr>)
    \<and> sl_app (line_slave w') = Running ctx' \<and> reported A ctx' = d"
proof -
  have "driver_ok A ctx" "reported A ctx = app_data ctx"
    unfolding assms(5) by (simp_all add: rtos_i2c_slave_start_def driver_ok_def reported_def)
  then show ?thesis
    using conversation_from_ready [OF assms(1,2) link_init_ready _ assms(3), of ctx outcomes buf d] assms(4)
    by (auto simp: link_ready_def Let_def)
qed

definition sample_app :: "u8 list i2c_slave_app" where
  "sample_app = \<lparr>app_start = None, app_rx = \<lambda>bs d. d @ bs, app_tx_start = \<lambda>buf d. (length d, Some d, buf, d), app_tx_done = None\<rparr>"

lemma i2c_conversation_served_witness:
  "\<exists>w' ctx' st. i2c_conversation sample_app 0x50 [(False, I2c_Write [1, 2] True), (True, I2c_Write [3] False), (False, I2c_Read [0, 0, 0, 0] True)]
      \<lparr>bus = Inr (i2c_link_init (Running (rtos_i2c_slave_start sample_app []))), stopped = True\<rparr>
    = ([Written I2C_ACK 2, Written I2C_ACK 1, Was_Read I2C_ACK [1, 2, 3, 1]], \<lparr>bus = Inr w', stopped = st\<rparr>)
    \<and> sl_app (line_slave w') = Running ctx' \<and> reported sample_app ctx' = [1, 2, 3]"
proof (rule i2c_conversation_served)
  show "app_conversation sample_app (map snd [(False, I2c_Write [1, 2] True), (True, I2c_Write [3] False), (False, I2c_Read [0, 0, 0, 0] True)])
      (data_buf (rtos_i2c_slave_start sample_app []), app_data (rtos_i2c_slave_start sample_app []))
    = ([Written I2C_ACK 2, Written I2C_ACK 1, Was_Read I2C_ACK [1, 2, 3, 1]], splice 0 [3] (splice 0 [1, 2] (replicate RTOS_I2C_SLAVE_BUF_LEN 0)), [1, 2, 3])"
    by (simp add: sample_app_def rtos_i2c_slave_start_def RTOS_I2C_SLAVE_BUF_LEN_def Let_def)
qed (simp_all add: app_fits_def sample_app_def)

end
