(* ===== verification/Xcore_Bits.thy ===== *)
theory Xcore_Bits
  imports Prelude
begin

unbundle bit_operations_syntax

text \<open>
  The instructions of the xcore processor that the hardware layer uses on the words of its ports, and
  the words of a 1-bit port: bits leave and enter a port from the least significant one on.
\<close>

section \<open>Instructions\<close>

text \<open>
  The instructions \<open>bitrev\<close>, \<open>byterev\<close>, \<open>zip\<close> and \<open>unzip\<close> of the xcore. The last two work on a
  pair of registers: \<open>zip d, e, 0\<close> interleaves their bits, those of \<open>e\<close> at the even places, and leaves the upper half
  in \<open>d\<close>; \<open>unzip\<close> is its inverse.
\<close>

definition of_bits32 :: "(nat \<Rightarrow> bool) \<Rightarrow> u32" where
  "of_bits32 f = horner_sum of_bool 2 (map f [0 ..< 32])"

definition bitrev :: "u32 \<Rightarrow> u32" where
  "bitrev w = of_bits32 (\<lambda>k. bit w (31 - k))"

definition byterev :: "u32 \<Rightarrow> u32" where
  "byterev w = of_le32 (rev (le32 w))"

definition zip_bits :: "u32 \<Rightarrow> u32 \<Rightarrow> u32 \<times> u32" where
  "zip_bits d e =
     (let z = (\<lambda>k. if even k then bit e (k div 2) else bit d (k div 2))
      in (of_bits32 (\<lambda>k. z (32 + k)), of_bits32 z))"

definition unzip_bits :: "u32 \<Rightarrow> u32 \<Rightarrow> u32 \<times> u32" where
  "unzip_bits d e =
     (let z = (\<lambda>k. if k < 32 then bit e k else bit d (k - 32))
      in (of_bits32 (\<lambda>k. z (2 * k + 1)), of_bits32 (\<lambda>k. z (2 * k))))"

lemma bit_of_bits32 [simp]: "bit (of_bits32 f) k \<longleftrightarrow> k < 32 \<and> f k"
  by (auto simp: of_bits32_def bit_horner_sum_bit_iff simp del: upt_Suc upt_rec_numeral)

lemma zip_unzip: "unzip_bits (fst (zip_bits d e)) (snd (zip_bits d e)) = (d, e)"
  by (auto simp: zip_bits_def unzip_bits_def Let_def intro!: bit_word_eqI)

text \<open>\<open>mkmsk\<close> makes a mask of the lowest \<open>n\<close> bits.\<close>

definition mkmsk :: "nat \<Rightarrow> u32" where
  "mkmsk n = mask n"

section \<open>The words of a 1-bit port\<close>

text \<open>\<open>outpw\<close> shifts out the lowest \<open>n\<close> bits of a word.\<close>

definition outpw_bits :: "u32 \<Rightarrow> nat \<Rightarrow> bool list" where
  "outpw_bits w n = map (bit w) [0 ..< n]"

text \<open>What the port has shifted in when sample \<open>t\<close> is due: the last 32 samples, the oldest one lowest.\<close>

definition port_in_word :: "(nat \<Rightarrow> bool) \<Rightarrow> nat \<Rightarrow> u32" where
  "port_in_word samples t = of_bits32 (\<lambda>k. samples (t + k - 32))"

text \<open>The bits of a byte as a serial line carries them, the most significant one first.\<close>

definition byte_bits :: "u8 \<Rightarrow> bool list" where
  "byte_bits b = map (\<lambda>k. bit b (7 - k)) [0 ..< 8]"

definition serial_bits :: "u8 list \<Rightarrow> bool list" where
  "serial_bits bs = concat (map byte_bits bs)"

lemma length_outpw_bits [simp]: "length (outpw_bits w n) = n"
  by (simp add: outpw_bits_def)

lemma length_byte_bits [simp]: "length (byte_bits b) = 8"
  by (simp add: byte_bits_def)

lemma nth_byte_bits: "k < 8 \<Longrightarrow> byte_bits b ! k = bit b (7 - k)"
  by (simp add: byte_bits_def del: upt_Suc)

lemma length_serial_bits [simp]: "length (serial_bits bs) = 8 * length bs"
  by (induction bs) (simp_all add: serial_bits_def)

lemma serial_bits_simps [simp]: "serial_bits [] = []" "serial_bits (b # bs) = byte_bits b @ serial_bits bs"
  "serial_bits (as @ bs) = serial_bits as @ serial_bits bs"
  by (simp_all add: serial_bits_def)

lemma nth_serial_bits: "k < 8 * length bs \<Longrightarrow> serial_bits bs ! k = bit (bs ! (k div 8)) (7 - k mod 8)"
proof (induction bs arbitrary: k)
  case (Cons b bs)
  show ?case
  proof (cases "k < 8")
    case True
    then show ?thesis by (simp add: nth_append nth_byte_bits)
  next
    case False
    then obtain m where m: "k = m + 8" using le_Suc_ex [of 8 k] by (auto simp: add.commute)
    then have "k div 8 = Suc (m div 8)" "k mod 8 = m mod 8" by simp_all
    then show ?thesis using m Cons.IH [of m] Cons.prems by (simp add: nth_append)
  qed
qed simp

text \<open>The other way: the value of at most eight bits, and the complete bytes of a list of bits.\<close>

definition bits_value :: "bool list \<Rightarrow> u8" where
  "bits_value bs = horner_sum of_bool 2 (rev bs)"

definition bytes_of_bits :: "bool list \<Rightarrow> u8 list" where
  "bytes_of_bits bs = map (\<lambda>i. bits_value (take 8 (drop (8 * i) bs))) [0 ..< length bs div 8]"

lemma bit_bits_value: "bit (bits_value bs) k \<longleftrightarrow> k < 8 \<and> k < length bs \<and> bs ! (length bs - 1 - k)"
  by (auto simp: bits_value_def bit_horner_sum_bit_word_iff rev_nth)

lemma length_bytes_of_bits [simp]: "length (bytes_of_bits bs) = length bs div 8"
  by (simp add: bytes_of_bits_def)

lemma nth_bytes_of_bits: "i < length bs div 8 \<Longrightarrow> bytes_of_bits bs ! i = bits_value (take 8 (drop (8 * i) bs))"
  by (simp add: bytes_of_bits_def)

lemma bytes_of_bits_Nil [simp]: "bytes_of_bits [] = []"
  by (simp add: bytes_of_bits_def)

lemma bit_nth_bytes_of_bits:
  assumes "i < length bs div 8"
  shows "bit (bytes_of_bits bs ! i) k \<longleftrightarrow> k < 8 \<and> bs ! (8 * i + 7 - k)"
proof -
  have "8 * i + 8 \<le> length bs" using assms by auto
  then show ?thesis unfolding nth_bytes_of_bits [OF assms] by (auto simp: bit_bits_value)
qed

lemma bytes_of_serial_bits [simp]: "bytes_of_bits (serial_bits bs) = bs"
proof (rule nth_equalityI)
  fix i assume "i < length (bytes_of_bits (serial_bits bs))"
  then have i: "i < length bs" by simp
  show "bytes_of_bits (serial_bits bs) ! i = bs ! i"
  proof (rule bit_word_eqI)
    fix k assume "k < LENGTH(8)"
    then have k: "k < 8" by simp
    have "8 * i + 7 - k < 8 * length bs" using i k by auto
    moreover have e: "8 * i + 7 - k = 8 * i + (7 - k)" using k by simp
    have "(8 * i + 7 - k) div 8 = i" "(8 * i + 7 - k) mod 8 = 7 - k" unfolding e by simp_all
    ultimately show "bit (bytes_of_bits (serial_bits bs) ! i) k = bit (bs ! i) k"
      using i k by (simp add: bit_nth_bytes_of_bits nth_serial_bits)
  qed
qed simp

lemma bytes_of_bits_append:
  assumes "8 dvd length xs"
  shows "bytes_of_bits (xs @ ys) = bytes_of_bits xs @ bytes_of_bits ys"
proof (rule nth_equalityI)
  obtain n where n: "length xs = 8 * n" using assms by auto
  then show "length (bytes_of_bits (xs @ ys)) = length (bytes_of_bits xs @ bytes_of_bits ys)" by simp
  fix i assume "i < length (bytes_of_bits (xs @ ys))"
  then have i: "i < n + length ys div 8" using n by simp
  show "bytes_of_bits (xs @ ys) ! i = (bytes_of_bits xs @ bytes_of_bits ys) ! i"
  proof (rule bit_word_eqI)
    fix k
    have "\<not> i < n \<Longrightarrow> k < 8 \<Longrightarrow> 8 * i + 7 - k - 8 * n = 8 * (i - n) + 7 - k \<and> \<not> 8 * i + 7 - k < 8 * n" by auto
    then show "bit (bytes_of_bits (xs @ ys) ! i) k = bit ((bytes_of_bits xs @ bytes_of_bits ys) ! i) k"
      using i n by (auto simp: bit_nth_bytes_of_bits nth_append)
  qed
qed

end
