(* ===== verification/Spi_Hil.thy ===== *)
theory Spi_Hil
  imports Xcore_Bits
begin

unbundle bit_operations_syntax

text \<open>
  The SPI master on its ports, modules/hil/lib_spi/src/spi_master.c. The ports run at twice the frequency of
  SCLK: a tick of the model is one cycle of the clock block. The levels of the lines are recorded tick by
  tick; waiting without a change of a line is left out.
\<close>

section \<open>Devices and the interface\<close>

datatype spi_source_clock = spi_master_source_clock_ref | spi_master_source_clock_xcore

record spi_master_device =
  dv_source_clock :: spi_source_clock
  dv_clock_divisor :: u32
  dv_miso_sample_delay :: u32
  dv_miso_pad_delay :: u32
  dv_miso_initial_trigger_delay :: u32
  dv_cs_assert_val :: u32
  dv_clock_delay :: nat
  dv_clock_bits :: u32
  dv_cs_to_clk_delay_ticks :: u32
  dv_clk_to_cs_delay_ticks :: u32
  dv_cs_to_cs_delay_ticks :: u32

text \<open>
  The context, with the settings of the clock block and the miso port and the levels on the lines: chip selects,
  SCLK and MOSI. \<open>ms_trace\<close> are the levels of the ticks so far.
\<close>

record spi_master =
  ms_has_mosi :: bool
  ms_has_miso :: bool
  ms_current_device :: u32
  ms_delay_before_transfer :: bool
  ms_source_clock :: spi_source_clock
  ms_clock_divisor :: u32
  ms_sample_falling :: bool
  ms_pad_delay :: u32
  ms_cs :: u32
  ms_sclk :: bool
  ms_mosi :: bool
  ms_trace :: "(u32 \<times> bool \<times> bool) list"

definition spi_tick :: "spi_master \<Rightarrow> spi_master" where
  "spi_tick m = m\<lparr>ms_trace := ms_trace m @ [(ms_cs m, ms_sclk m, ms_mosi m)]\<rparr>"

definition spi_master_init :: "bool \<Rightarrow> bool \<Rightarrow> spi_master \<Rightarrow> spi_master" where
  "spi_master_init mosi_port miso_port m =
     m\<lparr>ms_cs := 0xFFFFFFFF, ms_current_device := 0xFFFFFFFF, ms_has_mosi := mosi_port, ms_has_miso := miso_port\<rparr>"

definition spi_master_device_init ::
    "nat \<Rightarrow> bool \<Rightarrow> bool \<Rightarrow> spi_source_clock \<Rightarrow> u32 \<Rightarrow> u32 \<Rightarrow> u32 \<Rightarrow> u32 \<Rightarrow> u32 \<Rightarrow> u32 \<Rightarrow> spi_master_device" where
  "spi_master_device_init cs_pin cpol cpha source_clock clock_divisor miso_sample_delay miso_pad_delay
      cs_to_clk_delay_ticks clk_to_cs_delay_ticks cs_to_cs_delay_ticks =
     \<lparr>dv_source_clock = source_clock, dv_clock_divisor = clock_divisor, dv_miso_sample_delay = miso_sample_delay,
      dv_miso_pad_delay = miso_pad_delay, dv_miso_initial_trigger_delay = drop_bit 1 (miso_sample_delay + 1),
      dv_cs_assert_val = 0xFFFFFFFF AND NOT (push_bit cs_pin 1),
      dv_clock_delay = (if cpha then 0 else 1), dv_clock_bits = (if cpol then 0xAAAAAAAA else 0x55555555),
      dv_cs_to_clk_delay_ticks = cs_to_clk_delay_ticks, dv_clk_to_cs_delay_ticks = clk_to_cs_delay_ticks,
      dv_cs_to_cs_delay_ticks = cs_to_cs_delay_ticks\<rparr>"

definition spi_master_delay_before_next_transfer :: "spi_master_device \<Rightarrow> spi_master \<Rightarrow> spi_master" where
  "spi_master_delay_before_next_transfer dev m = spi_tick (m\<lparr>ms_delay_before_transfer := True, ms_cs := dv_cs_assert_val dev\<rparr>)"

text \<open>The first transaction with another device sets the clock up and puts its idle level on the line.\<close>

definition spi_master_start_transaction :: "spi_master_device \<Rightarrow> spi_master \<Rightarrow> spi_master" where
  "spi_master_start_transaction dev m =
     (let m = (if dv_cs_assert_val dev \<noteq> ms_current_device m
               then let m = m\<lparr>ms_current_device := dv_cs_assert_val dev, ms_source_clock := dv_source_clock dev,
                              ms_clock_divisor := dv_clock_divisor dev\<rparr>;
                        m = (if ms_has_miso m then m\<lparr>ms_sample_falling := (dv_miso_sample_delay dev AND 1 = 0), ms_pad_delay := dv_miso_pad_delay dev\<rparr> else m)
                    in spi_tick (m\<lparr>ms_sclk := bit (drop_bit 1 (dv_clock_bits dev)) 0\<rparr>)
               else m)
      in spi_master_delay_before_next_transfer dev m)"

definition spi_master_end_transaction :: "spi_master_device \<Rightarrow> spi_master \<Rightarrow> spi_master" where
  "spi_master_end_transaction dev m = spi_tick (m\<lparr>ms_cs := 0xFFFFFFFF\<rparr>)"

section \<open>Transfers\<close>

text \<open>Two bytes, or one, for the port: each bit twice. In the last bytes \<open>tmp\<close> is what its register held.\<close>

definition load_data_out :: "u8 list \<Rightarrow> nat \<Rightarrow> u32" where
  "load_data_out data_out len =
     (let tmp = push_bit 8 (ucast (data_out ! 0));
          tmp = (if 1 < len then tmp OR ucast (data_out ! 1) else tmp);
          (tmp, word_out) = zip_bits tmp tmp
      in bitrev word_out)"

definition save_data_in :: "u32 \<Rightarrow> u32 \<Rightarrow> nat \<Rightarrow> u8 list" where
  "save_data_in tmp word_in bytes =
     (let word_in = bitrev word_in;
          (tmp, word_in) = unzip_bits tmp word_in
      in if bytes = 1 then [ucast word_in] else [ucast (drop_bit 8 word_in), ucast word_in])"

text \<open>
  The words that the SCLK and MOSI ports shift out and how many bits of each: the first with the width \<open>tw\<close>, those of the
  loop, and the last byte of an odd number.
\<close>

definition sclk_words :: "spi_master_device \<Rightarrow> nat \<Rightarrow> (u32 \<times> nat) list" where
  "sclk_words dev len =
     (let word_count = len div 2; remainder = len mod 2; tw = (if len = 1 then 16 else 32)
      in (dv_clock_bits dev, tw) # replicate (word_count - 1) (dv_clock_bits dev, 32)
           @ (if 0 < word_count \<and> 0 < remainder then [(dv_clock_bits dev, 16)] else []))"

definition mosi_words :: "u8 list \<Rightarrow> nat \<Rightarrow> (u32 \<times> nat) list" where
  "mosi_words data_out len =
     (let word_count = len div 2; remainder = len mod 2; tw = (if len = 1 then 16 else 32)
      in (load_data_out data_out len, tw)
           # map (\<lambda>i. (load_data_out (drop (2 * i) data_out) 2, 32)) [1 ..< word_count]
           @ (if 0 < word_count \<and> 0 < remainder then [(load_data_out (drop (2 * word_count) data_out) 1, 16)] else []))"

definition words_bits :: "(u32 \<times> nat) list \<Rightarrow> bool list" where
  "words_bits ws = concat (map (\<lambda>(w, n). outpw_bits w n) ws)"

text \<open>
  The bytes that the miso port brings in. \<open>miso c\<close> is the sample that the port takes when its counter is \<open>c\<close>; the
  first word is complete at the trigger time, the others follow without a gap.
\<close>

definition spi_data_in :: "spi_master_device \<Rightarrow> u32 \<Rightarrow> (nat \<Rightarrow> bool) \<Rightarrow> nat \<Rightarrow> u8 list" where
  "spi_data_in dev tmp miso len =
     (let start_time = 1; word_count = len div 2; remainder = len mod 2; tw = (if len = 1 then 16 else 32);
          trigger = start_time + (tw - 2) + unat (dv_miso_initial_trigger_delay dev);
          word = (\<lambda>i. port_in_word miso (Suc trigger + 32 * i))
      in if word_count = 0 then save_data_in tmp (word 0) remainder
         else concat (map (\<lambda>i. save_data_in tmp (word i) 2) [0 ..< word_count - 1])
                @ (if 0 < remainder
                   then save_data_in tmp (word (word_count - 1)) 2
                          @ save_data_in tmp (port_in_word miso (Suc trigger + 32 * (word_count - 1) + 16)) remainder
                   else save_data_in tmp (word (word_count - 1)) remainder))"

text \<open>
  A transfer. MOSI starts when the counter is \<open>start_time\<close> and SCLK \<open>clock_delay\<close> later; a port that has nothing more to shift out keeps its last
  level.
\<close>

definition spi_transfer_lines :: "spi_master_device \<Rightarrow> u8 list option \<Rightarrow> nat \<Rightarrow> spi_master \<Rightarrow> (bool \<times> bool) list" where
  "spi_transfer_lines dev data_out len m =
     (let sclk = replicate (dv_clock_delay dev) (ms_sclk m) @ words_bits (sclk_words dev len);
          mosi = (case data_out of
                    Some data \<Rightarrow> if ms_has_mosi m then words_bits (mosi_words data len) else []
                  | None \<Rightarrow> [])
      in zip sclk (mosi @ replicate (length sclk - length mosi) (last (ms_mosi m # mosi))))"

definition spi_master_transfer ::
    "spi_master_device \<Rightarrow> u8 list option \<Rightarrow> u8 list option \<Rightarrow> nat \<Rightarrow> u32 \<Rightarrow> (nat \<Rightarrow> bool) \<Rightarrow> spi_master \<Rightarrow> u8 list option \<times> spi_master" where
  "spi_master_transfer dev data_out data_in len tmp miso m =
     (if len = 0 then (data_in, m)
      else let m = m\<lparr>ms_delay_before_transfer := False\<rparr>;
               ticks = spi_transfer_lines dev data_out len m;
               data_in = (case data_in of
                            Some buf \<Rightarrow> Some (if ms_has_miso m then splice 0 (spi_data_in dev tmp miso len) buf else buf)
                          | None \<Rightarrow> None);
               (sclk, mosi) = last ticks
           in (data_in, m\<lparr>ms_sclk := sclk, ms_mosi := mosi, ms_cs := dv_cs_assert_val dev,
                          ms_trace := ms_trace m @ map (\<lambda>(c, d). (ms_cs m, c, d)) ticks\<rparr>))"

section \<open>What the words carry\<close>

definition doubled :: "'a list \<Rightarrow> 'a list" where
  "doubled xs = concat (map (\<lambda>x. [x, x]) xs)"

lemma doubled_simps [simp]: "doubled [] = []" "doubled (x # xs) = x # x # doubled xs" "doubled (xs @ ys) = doubled xs @ doubled ys"
  by (simp_all add: doubled_def)

lemma length_doubled [simp]: "length (doubled xs) = 2 * length xs"
  by (induction xs) simp_all

lemma nth_doubled: "k < 2 * length xs \<Longrightarrow> doubled xs ! k = xs ! (k div 2)"
proof (induction xs arbitrary: k)
  case (Cons x xs)
  show ?case
  proof (cases "k < 2")
    case True
    then have "k = 0 \<or> k = 1" by auto
    then show ?thesis by auto
  next
    case False
    then obtain m where m: "k = m + 2" using le_Suc_ex [of 2 k] by (auto simp: add.commute)
    then show ?thesis using Cons.IH [of m] Cons.prems by simp
  qed
qed simp

lemma take_doubled: "take (2 * n) (doubled xs) = doubled (take n xs)"
  by (induction xs arbitrary: n) (simp, case_tac n, simp_all)

lemma load_data_out_2: "outpw_bits (load_data_out (a # b # bs) 2) 32 = doubled (serial_bits [a, b])"
proof (rule nth_equalityI)
  fix k assume "k < length (outpw_bits (load_data_out (a # b # bs) 2) 32)"
  then have k: "k < 32" by simp
  have "(31 - k) div 2 = 15 - k div 2" "k div 2 < 16" using k by presburger+
  moreover have "\<not> k < 16 \<Longrightarrow> (k - 16) div 2 = k div 2 - 8 \<and> 8 \<le> k div 2" "k < 16 \<longleftrightarrow> k div 2 < 8" "31 - k < 32" by presburger+
  ultimately show "outpw_bits (load_data_out (a # b # bs) 2) 32 ! k = doubled (serial_bits [a, b]) ! k"
    using k by (auto simp: outpw_bits_def load_data_out_def zip_bits_def bitrev_def Let_def nth_doubled nth_append nth_byte_bits bit_simps
        simp del: upt_Suc upt_rec_numeral dest: u8_bit_bound)
qed simp

lemma load_data_out_1: "outpw_bits (load_data_out (a # bs) 1) 16 = doubled (byte_bits a)"
proof (rule nth_equalityI)
  fix k assume "k < length (outpw_bits (load_data_out (a # bs) 1) 16)"
  then have k: "k < 16" by simp
  moreover have "(31 - k) div 2 = 15 - k div 2" "k div 2 < 8" using k by presburger+
  ultimately show "outpw_bits (load_data_out (a # bs) 1) 16 ! k = doubled (byte_bits a) ! k"
    by (auto simp: outpw_bits_def load_data_out_def zip_bits_def bitrev_def Let_def nth_doubled nth_byte_bits bit_simps
        simp del: upt_Suc upt_rec_numeral)
qed simp

lemma words_bits_simps [simp]: "words_bits [] = []" "words_bits ((w, n) # ws) = outpw_bits w n @ words_bits ws"
  "words_bits (vs @ ws) = words_bits vs @ words_bits ws"
  by (simp_all add: words_bits_def)

lemma load_data_out_more: "2 \<le> len \<Longrightarrow> load_data_out d len = load_data_out d 2"
  by (simp add: load_data_out_def)

text \<open>MOSI carries the bits of the data, the most significant one of each byte first, for two ticks each.\<close>

lemma mosi_words_pairs:
  assumes "2 * n \<le> length data" and "m \<le> n"
  shows "words_bits (map (\<lambda>i. (load_data_out (drop (2 * i) data) 2, 32)) [m ..< n]) = doubled (serial_bits (drop (2 * m) (take (2 * n) data)))"
  using assms
proof (induction n)
  case (Suc n)
  show ?case
  proof (cases "m = Suc n")
    case False
    then have m: "m \<le> n" using Suc.prems by simp
    obtain a b bs where d: "drop (2 * n) data = a # b # bs"
      using Suc.prems(1) by (cases "drop (2 * n) data"; cases "tl (drop (2 * n) data)") (auto dest: arg_cong [where f = length])
    have "take (2 * Suc n) data = take (2 * n) data @ [a, b]"
      using d take_add [of "2 * n" 2 data] by (simp add: numeral_2_eq_2)
    then show ?thesis using Suc.IH Suc.prems m d
      by (simp add: load_data_out_2 [of a b bs, simplified] del: serial_bits_simps(2) numeral_2_eq_2) (simp add: load_data_out_2 [of a b bs, simplified])
  qed simp
qed simp

lemma mosi_line:
  assumes "0 < len" and "len \<le> length data"
  shows "words_bits (mosi_words data len) = doubled (serial_bits (take len data))"
proof (cases "len = 1")
  case True
  then obtain a bs where "data = a # bs" using assms(2) by (cases data) auto
  then show ?thesis using True load_data_out_1 [of a bs] by (simp add: mosi_words_def)
next
  case False
  let ?n = "len div 2"
  have n: "1 \<le> ?n" "2 * ?n \<le> length data" using assms False by auto
  have "(load_data_out data len, 32) # map (\<lambda>i. (load_data_out (drop (2 * i) data) 2, 32)) [1 ..< ?n]
      = map (\<lambda>i. (load_data_out (drop (2 * i) data) 2, 32 :: nat)) [0 ..< ?n]"
    using n(1) False assms(1) by (subst upt_conv_Cons [of 0]) (auto simp: load_data_out_more [of len])
  then have pairs: "words_bits ((load_data_out data len, 32) # map (\<lambda>i. (load_data_out (drop (2 * i) data) 2, 32)) [1 ..< ?n])
      = doubled (serial_bits (take (2 * ?n) data))"
    using mosi_words_pairs [OF n(2), of 0] by simp
  show ?thesis
  proof (cases "even len")
    case True
    then show ?thesis using pairs False by (simp add: mosi_words_def)
  next
    case odd: False
    then have len: "len = Suc (2 * ?n)" by (metis odd_two_times_div_two_succ Suc_eq_plus1)
    then have "2 * ?n < length data" using assms(2) by linarith
    then obtain a bs where d: "drop (2 * ?n) data = a # bs" using Cons_nth_drop_Suc [of "2 * ?n" data] by metis
    have "take len data = take (2 * ?n) data @ [a]"
      using take_add [of "2 * ?n" 1 data] d len by simp
    then show ?thesis using pairs False odd n(1) d load_data_out_1 [of a bs]
      by (simp add: mosi_words_def odd_iff_mod_2_eq_one del: One_nat_def) 
  qed
qed

lemma clock_words: "outpw_bits 0x55555555 16 = concat (replicate 8 [True, False])" "outpw_bits 0x55555555 32 = concat (replicate 16 [True, False])"
  "outpw_bits 0xAAAAAAAA 16 = concat (replicate 8 [False, True])" "outpw_bits 0xAAAAAAAA 32 = concat (replicate 16 [False, True])"
  by code_simp+

lemma concat_replicate_add: "concat (replicate m xs) @ concat (replicate n xs) = concat (replicate (m + n) xs)"
  by (induction m) simp_all

lemma words_bits_replicate: "words_bits (replicate k (w, n)) = concat (replicate k (outpw_bits w n))"
  by (induction k) simp_all

text \<open>SCLK makes one period for each bit, that ends at the idle level.\<close>

lemma sclk_line:
  assumes "0 < len" and "dv_clock_bits dev = (if cpol then 0xAAAAAAAA else 0x55555555)"
  shows "words_bits (sclk_words dev len) = concat (replicate (8 * len) [\<not> cpol, cpol])"
proof -
  define p where "p n = concat (replicate n [\<not> cpol, cpol])" for n
  have add: "p m @ p n = p (m + n)" for m n by (simp add: p_def concat_replicate_add)
  have w: "outpw_bits (dv_clock_bits dev) 16 = p 8" "outpw_bits (dv_clock_bits dev) 32 = p 16"
    unfolding p_def using assms(2) clock_words by (cases cpol; simp)+
  have "p 0 = []" by (simp add: p_def)
  then have rep: "concat (replicate k (p 16)) = p (16 * k)" for k
    by (induction k) (simp_all add: add)
  show ?thesis unfolding p_def [symmetric]
  proof (cases "len = 1")
    case True
    then show "words_bits (sclk_words dev len) = p (8 * len)" by (simp add: sclk_words_def w)
  next
    case False
    then have n: "1 \<le> len div 2" using assms(1) by auto
    have "words_bits (sclk_words dev len) = p 16 @ p (16 * (len div 2 - 1)) @ (if len mod 2 = 0 then [] else p 8)"
      using n False by (simp add: sclk_words_def words_bits_replicate w rep)
    also have "\<dots> = p (16 + 16 * (len div 2 - 1) + (if len mod 2 = 0 then 0 else 8))"
      by (simp add: add)
    also have "16 + 16 * (len div 2 - 1) + (if len mod 2 = 0 then 0 else 8) = 8 * len"
    proof -
      obtain q where q: "len div 2 = Suc q" using n by (cases "len div 2") auto
      have "2 * (len div 2) + len mod 2 = len" by simp
      then show ?thesis using q by (cases "len mod 2 = 0") (auto simp: mod2_eq_if split: if_splits)
    qed
    finally show "words_bits (sclk_words dev len) = p (8 * len)" .
  qed
qed

text \<open>Of each pair of samples the second one is the bit.\<close>

lemma save_data_in_2: "serial_bits (save_data_in tmp w 2) = map (\<lambda>j. bit w (2 * j + 1)) [0 ..< 16]"
proof (rule nth_equalityI)
  fix j assume "j < length (serial_bits (save_data_in tmp w 2))"
  then have j: "j < 16" by (simp add: save_data_in_def unzip_bits_def Let_def)
  moreover have "\<not> j < 8 \<Longrightarrow> 31 - 2 * (7 - (j - 8)) = 2 * j + 1" "j < 8 \<Longrightarrow> 31 - 2 * (8 + (7 - j)) = 2 * j + 1" using j by presburger+
  ultimately show "serial_bits (save_data_in tmp w 2) ! j = map (\<lambda>j. bit w (2 * j + 1)) [0 ..< 16] ! j"
    by (auto simp: save_data_in_def unzip_bits_def bitrev_def Let_def nth_append nth_byte_bits bit_simps simp del: upt_Suc upt_rec_numeral)
qed (simp add: save_data_in_def unzip_bits_def Let_def)

lemma save_data_in_1: "serial_bits (save_data_in tmp w 1) = map (\<lambda>j. bit w (16 + 2 * j + 1)) [0 ..< 8]"
proof (rule nth_equalityI)
  fix j assume "j < length (serial_bits (save_data_in tmp w 1))"
  then have j: "j < 8" by (simp add: save_data_in_def unzip_bits_def Let_def)
  moreover have "31 - 2 * (7 - j) = 16 + 2 * j + 1" using j by presburger
  ultimately show "serial_bits (save_data_in tmp w 1) ! j = map (\<lambda>j. bit w (16 + 2 * j + 1)) [0 ..< 8] ! j"
    by (auto simp: save_data_in_def unzip_bits_def bitrev_def Let_def nth_byte_bits bit_simps simp del: upt_Suc upt_rec_numeral)
qed (simp add: save_data_in_def unzip_bits_def Let_def)

lemma save_words:
  "serial_bits (concat (map (\<lambda>i. save_data_in tmp (port_in_word miso (32 + d + 32 * i)) 2) [0 ..< n])) = map (\<lambda>j. miso (d + 2 * j + 1)) [0 ..< 16 * n]"
proof (induction n)
  case (Suc n)
  have "map (\<lambda>j. bit (port_in_word miso (32 + d + 32 * n)) (2 * j + 1)) [0 ..< 16] = map (\<lambda>j. miso (d + 2 * j + 1)) [16 * n ..< 16 * n + 16]"
    by (rule nth_equalityI) (auto simp: port_in_word_def algebra_simps simp del: upt_Suc upt_rec_numeral)
  moreover have "map f [0 ..< 16 * Suc n] = map f [0 ..< 16 * n] @ map f [16 * n ..< 16 * n + 16]" for f :: "nat \<Rightarrow> bool"
    by (metis map_append mult_Suc_right add.commute upt_add_eq_append zero_le)
  ultimately show ?case using Suc by (simp add: save_data_in_2 upt_Suc_append del: upt_Suc upt_rec_numeral mult_Suc_right)
qed simp

lemma spi_data_in_bits:
  assumes "0 < len" and "d = unat (dv_miso_initial_trigger_delay dev)"
  shows "serial_bits (spi_data_in dev tmp miso len) = map (\<lambda>j. miso (d + 2 * j + 1)) [0 ..< 8 * len]"
proof (cases "len = 1")
  case True
  have "map (\<lambda>j. bit (port_in_word miso (16 + d)) (16 + 2 * j + 1)) [0 ..< 8] = map (\<lambda>j. miso (d + 2 * j + 1)) [0 ..< 8]"
    by (rule nth_equalityI) (auto simp: port_in_word_def algebra_simps simp del: upt_Suc upt_rec_numeral)
  then show ?thesis using True assms(2) save_data_in_1 [of tmp "port_in_word miso (16 + d)"]
    by (simp add: spi_data_in_def Let_def del: upt_Suc upt_rec_numeral)
next
  case False
  let ?n = "len div 2"
  have n: "1 \<le> ?n" using assms(1) False by auto
  let ?w = "\<lambda>i. save_data_in tmp (port_in_word miso (32 + d + 32 * i)) 2"
  have bytes: "save_data_in tmp w 0 = save_data_in tmp w 2" for w by (simp add: save_data_in_def)
  have pairs: "concat (map ?w [0 ..< ?n - 1]) @ ?w (?n - 1) = concat (map ?w [0 ..< ?n])"
    using n by (cases ?n) simp_all
  have all: "serial_bits (concat (map ?w [0 ..< ?n - 1])) @ serial_bits (?w (?n - 1)) = map (\<lambda>j. miso (d + 2 * j + 1)) [0 ..< 16 * ?n]"
    unfolding serial_bits_simps(3) [symmetric] pairs by (rule save_words)
  show ?thesis
  proof (cases "even len")
    case True
    then obtain q where q: "len = 2 * q" by auto
    have "2 * q \<noteq> Suc 0" by presburger
    then show ?thesis using all n assms(2) by (simp add: q spi_data_in_def Let_def bytes add.assoc del: upt_Suc)
  next
    case odd: False
    then obtain q where q: "len = Suc (2 * q)" by (auto elim: oddE)
    have "map (\<lambda>j. bit (port_in_word miso (32 + d + 32 * (q - 1) + 16)) (16 + 2 * j + 1)) [0 ..< 8]
        = map (\<lambda>j. miso (d + 2 * j + 1)) [16 * q ..< 16 * q + 8]"
      using n by (intro nth_equalityI) (auto simp: q port_in_word_def algebra_simps simp del: upt_Suc upt_rec_numeral)
    moreover have "map f [0 ..< 8 * len] = map f [0 ..< 16 * q] @ map f [16 * q ..< 16 * q + 8]" for f :: "nat \<Rightarrow> bool"
      using upt_add_eq_append [of 0 "16 * q" 8] by (simp add: q add.commute)
    ultimately show ?thesis
      using all n assms(2) save_data_in_1 [of tmp "port_in_word miso (32 + d + 32 * (q - 1) + 16)"]
      by (simp add: q spi_data_in_def Let_def add.assoc append_assoc [symmetric] del: upt_Suc upt_rec_numeral append_assoc)
  qed
qed

end
