(* ===== verification/Spi_Slave.thy ===== *)
theory Spi_Slave
  imports Xcore_Bits
begin

unbundle bit_operations_syntax

text \<open>
  The SPI slave, modules/hil/lib_spi/src/spi_slave.c: the interrupt of the chip select, which begins and ends
  transactions, and the loop that moves words between the ports and the buffers of the application. The two run
  interleaved with the edges of the clock.
\<close>

section \<open>State\<close>

text \<open>
  The callbacks. The first takes the current pointers to the output and the input buffer and returns the buffers with their
  lengths; the second takes the output buffer, the bytes written, the input buffer, the bytes read and the bits of an incomplete byte. \<open>'a\<close> is
  the data of the application; address 0 is NULL.
\<close>

record 'a spi_slave_callback_group =
  slave_transaction_started :: "'a \<Rightarrow> nat \<Rightarrow> nat \<Rightarrow> (nat \<times> nat \<times> nat \<times> nat) \<times> 'a"
  slave_transaction_ended :: "'a \<Rightarrow> nat \<Rightarrow> nat \<Rightarrow> nat \<Rightarrow> nat \<Rightarrow> nat \<Rightarrow> (nat \<times> nat) \<times> 'a"

record spi_slave_ports =
  sp_mosi :: bool
  sp_miso :: bool
  sp_cpol :: bool
  sp_cpha :: bool

datatype loop_at = At_Port_In | At_Masked | At_Port_Out

text \<open>
  The context, the ports, the place of the loop with its variables, and the memory. A port has a shift
  register and a word behind it: \<open>mosi_shift\<close> are the bits of the word that is coming in, \<open>mosi_word\<close> the complete one; \<open>miso_bits\<close> is all that
  is still to go out. The rest of \<open>port_force_input\<close>'s word holds \<open>mosi_residue\<close>.
\<close>

record 'a spi_slave =
  ss_app :: 'a
  ss_memory :: "nat \<Rightarrow> u8"
  in_buf :: nat
  in_buf_cur :: nat
  in_buf_end :: nat
  out_buf :: nat
  out_buf_cur :: nat
  out_buf_end :: nat
  cs_val :: bool
  running :: bool
  clk_level :: bool
  mosi_shift :: "bool list"
  mosi_word :: "u32 option"
  mosi_residue :: u32
  miso_bits :: "bool list"
  miso_pin :: bool
  ss_at :: loop_at
  in_word :: u32
  out_word :: u32

section \<open>Ports and buffers\<close>

definition word_of_bits :: "bool list \<Rightarrow> u32" where
  "word_of_bits bs = of_bits32 (\<lambda>k. bs ! k)"

text \<open>The input ends: the number of bits that have not been read yet, and a word, in the last one of which they are at the top.\<close>

definition port_force_input :: "'a spi_slave \<Rightarrow> nat \<times> u32" where
  "port_force_input s =
     (let n = length (mosi_shift s)
      in case mosi_word s of
           Some w \<Rightarrow> (32 + n, w)
         | None \<Rightarrow> (n, of_bits32 (\<lambda>k. if k < 32 - n then bit (mosi_residue s) k else mosi_shift s ! (k - (32 - n)))))"

definition store_bytes :: "nat \<Rightarrow> u8 list \<Rightarrow> (nat \<Rightarrow> u8) \<Rightarrow> nat \<Rightarrow> u8" where
  "store_bytes a bs m = (\<lambda>x. if a \<le> x \<and> x < a + length bs then bs ! (x - a) else m x)"

text \<open>The four bytes that \<open>receive_part_word\<close> writes, as far as there is room, for its number of valid bits.\<close>

definition part_word_bytes :: "u32 \<Rightarrow> nat \<Rightarrow> u8 list" where
  "part_word_bytes w valid_bits =
     (if valid_bits \<le> 8 then [ucast w, 0, 0, 0]
      else if valid_bits \<le> 16 then [ucast (drop_bit (valid_bits - 8) w), ucast (w AND mkmsk (valid_bits - 8)), 0, 0]
      else if valid_bits \<le> 24 then [ucast (drop_bit (valid_bits - 8) w), ucast (drop_bit (valid_bits - 16) w), ucast (w AND mkmsk (valid_bits - 16)), 0]
      else [ucast (drop_bit (valid_bits - 8) w), ucast (drop_bit (valid_bits - 16) w), ucast (drop_bit (valid_bits - 24) w),
            ucast (w AND mkmsk (valid_bits - 24))])"

definition receive_part_word :: "u32 \<Rightarrow> nat \<Rightarrow> 'a spi_slave \<Rightarrow> nat \<times> 'a spi_slave" where
  "receive_part_word w valid_bits s =
     (let diff = in_buf_end s - in_buf_cur s
      in if 0 < valid_bits
         then let w = bitrev w AND mkmsk valid_bits;
                  s = s\<lparr>ss_memory := store_bytes (in_buf_cur s) (take diff (part_word_bytes w valid_bits)) (ss_memory s)\<rparr>;
                  valid_bytes = valid_bits div 8
              in if valid_bytes < diff then (valid_bits mod 8, s\<lparr>in_buf_cur := in_buf_cur s + valid_bytes\<rparr>)
                 else (0, s\<lparr>in_buf_cur := in_buf_cur s + diff\<rparr>)
         else (valid_bits, s))"

definition receive_word :: "u32 \<Rightarrow> 'a spi_slave \<Rightarrow> 'a spi_slave" where
  "receive_word w s =
     (let diff = in_buf_end s - in_buf_cur s;
          w = bitrev w;
          bytes = [ucast (drop_bit 24 w), ucast (drop_bit 16 w), ucast (drop_bit 8 w), ucast w]
      in s\<lparr>ss_memory := store_bytes (in_buf_cur s) (take diff bytes) (ss_memory s),
           in_buf_cur := in_buf_cur s + (if 4 < diff then 4 else diff)\<rparr>)"

definition get_next_word :: "'a spi_slave \<Rightarrow> u32 \<times> 'a spi_slave" where
  "get_next_word s =
     (let diff = out_buf_end s - out_buf_cur s;
          part = (\<lambda>i. if i < diff then bitrev (push_bit (24 - 8 * i) (ucast (ss_memory s (out_buf_cur s + i)))) else 0)
      in (part 3 OR part 2 OR part 1 OR part 0, s\<lparr>out_buf_cur := out_buf_cur s + (if 4 < diff then 4 else diff)\<rparr>))"

section \<open>The chip select\<close>

text \<open>With \<open>cpha\<close> 0 the first bit goes out before the clock, so that it is on the line at the first edge.\<close>

definition preload :: "bool \<Rightarrow> 'a spi_slave \<Rightarrow> 'a spi_slave" where
  "preload cpha s =
     (let (w, s) = get_next_word s;
          s = (if \<not> cpha then s\<lparr>miso_pin := bit w 0, miso_bits := outpw_bits (drop_bit 1 w) 31\<rparr> else s\<lparr>miso_bits := outpw_bits w 32\<rparr>);
          (w, s) = get_next_word s
      in s\<lparr>miso_bits := miso_bits s @ outpw_bits w 32\<rparr>)"

definition transaction_begins :: "'a spi_slave_callback_group \<Rightarrow> spi_slave_ports \<Rightarrow> 'a spi_slave \<Rightarrow> 'a spi_slave" where
  "transaction_begins cb P s =
     (let s = (if sp_mosi P then s\<lparr>mosi_shift := [], mosi_word := None\<rparr> else s);
          s = (if sp_miso P then s\<lparr>miso_bits := []\<rparr> else s);
          ((ob, outbuf_len, ib, inbuf_len), a) = slave_transaction_started cb (ss_app s) (out_buf s) (in_buf s);
          s = s\<lparr>ss_app := a, out_buf := ob, in_buf := ib\<rparr>;
          s = (if sp_miso P then s\<lparr>out_buf_cur := ob, out_buf_end := (if ob = 0 then 0 else ob + outbuf_len)\<rparr>
               else s\<lparr>out_buf_cur := 0, out_buf_end := 0\<rparr>);
          s = (if sp_mosi P then s\<lparr>in_buf_cur := ib, in_buf_end := (if ib = 0 then 0 else ib + inbuf_len)\<rparr>
               else s\<lparr>in_buf_cur := 0, in_buf_end := 0\<rparr>);
          s = s\<lparr>running := True\<rparr>
      in if sp_miso P then preload (sp_cpha P) s else s)"

definition transaction_ends :: "'a spi_slave_callback_group \<Rightarrow> spi_slave_ports \<Rightarrow> 'a spi_slave \<Rightarrow> 'a spi_slave" where
  "transaction_ends cb P s =
     (let (read_bits, bytes_read, s) =
            (if sp_mosi P
             then let (read_bits, data) = port_force_input s;
                      (read_bits, s) = receive_part_word data read_bits s
                  in (read_bits, in_buf_cur s - in_buf s, s\<lparr>mosi_shift := [], mosi_word := None\<rparr>)
             else (0, 0, s));
          (bytes_written, s) = (if sp_miso P then (out_buf_cur s - out_buf s, s\<lparr>miso_bits := []\<rparr>) else (0, s));
          s = s\<lparr>running := False\<rparr>;
          ((ob, ib), a) = slave_transaction_ended cb (ss_app s) (out_buf s) bytes_written (in_buf s) bytes_read read_bits
      in s\<lparr>ss_app := a, out_buf := ob, in_buf := ib\<rparr>)"

definition cs_isr :: "'a spi_slave_callback_group \<Rightarrow> spi_slave_ports \<Rightarrow> bool \<Rightarrow> 'a spi_slave \<Rightarrow> 'a spi_slave" where
  "cs_isr cb P asserted s =
     (let s = s\<lparr>cs_val := asserted\<rparr> in if cs_val s then transaction_begins cb P s else transaction_ends cb P s)"

section \<open>The clock\<close>

text \<open>
  The clock block sees SCLK inverted if \<open>cpol\<close> and \<open>cpha\<close> differ; while the slave is selected, its rising edge samples MOSI and its falling
  edge shifts MISO. A word that is still in the port when the next one is complete is lost.
\<close>

definition mosi_sample :: "bool \<Rightarrow> 'a spi_slave \<Rightarrow> 'a spi_slave" where
  "mosi_sample b s =
     (let bs = mosi_shift s @ [b]
      in if length bs = 32 then s\<lparr>mosi_shift := [], mosi_word := Some (word_of_bits bs)\<rparr> else s\<lparr>mosi_shift := bs\<rparr>)"

definition miso_shift :: "'a spi_slave \<Rightarrow> 'a spi_slave" where
  "miso_shift s = (case miso_bits s of [] \<Rightarrow> s | b # bs \<Rightarrow> s\<lparr>miso_pin := b, miso_bits := bs\<rparr>)"

definition sclk_level :: "spi_slave_ports \<Rightarrow> bool \<Rightarrow> bool \<Rightarrow> 'a spi_slave \<Rightarrow> 'a spi_slave" where
  "sclk_level P sclk mosi s =
     (let level = (sclk \<noteq> (sp_cpol P \<noteq> sp_cpha P)); old = clk_level s; s = s\<lparr>clk_level := level\<rparr>
      in if cs_val s \<and> level \<and> \<not> old then (if sp_mosi P then mosi_sample mosi s else s)
         else if cs_val s \<and> \<not> level \<and> old then (if sp_miso P then miso_shift s else s)
         else s)"

section \<open>The loop\<close>

text \<open>
  Its three parts, between which the interrupt can run: waiting for a word, the part with interrupts masked, and passing a word to the port, which
  waits as long as the port has a word behind the one that it shifts out.
\<close>

definition spi_slave_loop :: "spi_slave_ports \<Rightarrow> 'a spi_slave \<Rightarrow> 'a spi_slave" where
  "spi_slave_loop P s =
     (case ss_at s of
        At_Port_In \<Rightarrow>
          (if sp_mosi P
           then case mosi_word s of
                  None \<Rightarrow> s
                | Some w \<Rightarrow> s\<lparr>in_word := w, mosi_word := None, ss_at := At_Masked\<rparr>
           else s\<lparr>ss_at := At_Masked\<rparr>)
      | At_Masked \<Rightarrow>
          (let s = (if running s
                    then let (w, s) = get_next_word (receive_word (in_word s) s) in s\<lparr>out_word := w\<rparr>
                    else s)
           in s\<lparr>ss_at := At_Port_Out\<rparr>)
      | At_Port_Out \<Rightarrow>
          (if running s \<and> sp_miso P
           then if 32 < length (miso_bits s) then s
                else s\<lparr>miso_bits := miso_bits s @ outpw_bits (out_word s) 32, ss_at := At_Port_In\<rparr>
           else s\<lparr>ss_at := At_Port_In\<rparr>))"

text \<open>Before its loop \<open>spi_slave\<close> waits until the chip select is not asserted.\<close>

definition spi_slave_start :: "spi_slave_ports \<Rightarrow> bool \<Rightarrow> 'a \<Rightarrow> (nat \<Rightarrow> u8) \<Rightarrow> u32 \<times> u32 \<times> u32 \<Rightarrow> 'a spi_slave" where
  "spi_slave_start P sclk a m junk =
     \<lparr>ss_app = a, ss_memory = m, in_buf = 0, in_buf_cur = 0, in_buf_end = 0, out_buf = 0, out_buf_cur = 0, out_buf_end = 0,
      cs_val = False, running = False, clk_level = (sclk \<noteq> (sp_cpol P \<noteq> sp_cpha P)), mosi_shift = [], mosi_word = None,
      mosi_residue = fst junk, miso_bits = [], miso_pin = False, ss_at = At_Port_In, in_word = fst (snd junk), out_word = snd (snd junk)\<rparr>"

datatype spi_event = Ev_Cs bool | Ev_Sclk bool bool | Ev_Loop

fun spi_slave_event :: "'a spi_slave_callback_group \<Rightarrow> spi_slave_ports \<Rightarrow> spi_event \<Rightarrow> 'a spi_slave \<Rightarrow> 'a spi_slave" where
  "spi_slave_event cb P (Ev_Cs asserted) s = cs_isr cb P asserted s"
| "spi_slave_event cb P (Ev_Sclk sclk mosi) s = sclk_level P sclk mosi s"
| "spi_slave_event cb P Ev_Loop s = spi_slave_loop P s"

definition spi_slave_run :: "'a spi_slave_callback_group \<Rightarrow> spi_slave_ports \<Rightarrow> spi_event list \<Rightarrow> 'a spi_slave \<Rightarrow> 'a spi_slave" where
  "spi_slave_run cb P es s = fold (spi_slave_event cb P) es s"

section \<open>Words and bytes\<close>

lemma received_word_bytes:
  assumes "length bs = 32"
  shows "[ucast (drop_bit 24 (bitrev (word_of_bits bs))), ucast (drop_bit 16 (bitrev (word_of_bits bs))),
      ucast (drop_bit 8 (bitrev (word_of_bits bs))), ucast (bitrev (word_of_bits bs))] = bytes_of_bits bs"
proof (rule nth_equalityI)
  let ?w = "bitrev (word_of_bits bs)"
  fix i assume "i < length [ucast (drop_bit 24 ?w), ucast (drop_bit 16 ?w), ucast (drop_bit 8 ?w), ucast ?w :: u8]"
  then have i: "i < 4" by simp
  have w: "[ucast (drop_bit 24 ?w), ucast (drop_bit 16 ?w), ucast (drop_bit 8 ?w), ucast ?w :: u8] ! i = ucast (drop_bit (24 - 8 * i) ?w)"
    using i by (auto simp: less_Suc_eq numeral_eq_Suc nth_Cons')
  show "[ucast (drop_bit 24 ?w), ucast (drop_bit 16 ?w), ucast (drop_bit 8 ?w), ucast ?w] ! i = bytes_of_bits bs ! i"
    unfolding w
  proof (rule bit_word_eqI)
    fix k assume "k < LENGTH(8)"
    then have "k < 8" by simp
    moreover have "31 - (24 - 8 * i + k) = 8 * i + 7 - k" using i \<open>k < 8\<close> by auto
    ultimately show "bit (ucast (drop_bit (24 - 8 * i) ?w) :: u8) k = bit (bytes_of_bits bs ! i) k"
      using i assms by (auto simp: bit_nth_bytes_of_bits bit_simps bitrev_def word_of_bits_def)
  qed
qed (simp add: assms)

lemma out_word_bits:
  "outpw_bits (fst (get_next_word s)) 32
    = serial_bits (map (\<lambda>i. if i < out_buf_end s - out_buf_cur s then ss_memory s (out_buf_cur s + i) else 0) [0 ..< 4])"
proof (rule nth_equalityI)
  fix k assume "k < length (outpw_bits (fst (get_next_word s)) 32)"
  then have k: "k < 32" by simp
  obtain q r where qr: "k = 8 * q + r" "r < 8" by (metis div_mult_mod_eq mult.commute mod_less_divisor zero_less_numeral)
  have div: "q < 4" "k div 8 = q" "k mod 8 = r" using k qr by auto
  have part: "bit (bitrev (push_bit (24 - 8 * i) (ucast (b :: u8)))) k \<longleftrightarrow> q = i \<and> bit b (7 - r)" if "i < 4" for i b
  proof (cases "q = i")
    case True
    then have "24 - 8 * i \<le> 31 - k" "31 - k - (24 - 8 * i) = 7 - r" using that qr k by auto
    then show ?thesis using True k by (auto simp: bitrev_def bit_simps)
  next
    case False
    then have "\<not> (24 - 8 * i \<le> 31 - k \<and> 31 - k - (24 - 8 * i) < 8)" using that qr k div(1) by linarith
    then show ?thesis using False k by (auto simp: bitrev_def bit_simps dest: u8_bit_bound)
  qed
  define f where "f i = (if i < out_buf_end s - out_buf_cur s then ss_memory s (out_buf_cur s + i) else 0)" for i
  define g where "g i = (if i < out_buf_end s - out_buf_cur s then bitrev (push_bit (24 - 8 * i) (ucast (ss_memory s (out_buf_cur s + i)))) else 0)" for i
  have g: "bit (g i) k \<longleftrightarrow> q = i \<and> bit (f i) (7 - r)" if "i < 4" for i
    using part [OF that, of "ss_memory s (out_buf_cur s + i)"] by (simp add: f_def g_def)
  have "fst (get_next_word s) = g 3 OR g 2 OR g 1 OR g 0" by (simp add: get_next_word_def g_def Let_def)
  then have "bit (fst (get_next_word s)) k \<longleftrightarrow> bit (g 3) k \<or> bit (g 2) k \<or> bit (g 1) k \<or> bit (g 0) k" by (simp add: bit_or_iff)
  also have "\<dots> \<longleftrightarrow> bit (f q) (7 - r)" using g [of 0] g [of 1] g [of 2] g [of 3] div(1) by (auto simp: less_Suc_eq numeral_eq_Suc)
  finally show "outpw_bits (fst (get_next_word s)) 32 ! k
      = serial_bits (map (\<lambda>i. if i < out_buf_end s - out_buf_cur s then ss_memory s (out_buf_cur s + i) else 0) [0 ..< 4]) ! k"
    using k div nth_upt [of 0 q 4] unfolding f_def [symmetric]
    by (simp add: outpw_bits_def nth_serial_bits del: upt_Suc upt_rec_numeral)
qed simp

text \<open>The bytes of an incomplete word: the complete ones, and the bits of the last one as a number.\<close>

definition part_bytes :: "bool list \<Rightarrow> u8 list" where
  "part_bytes bs = bytes_of_bits bs @ (if length bs mod 8 = 0 then [] else [bits_value (drop (8 * (length bs div 8)) bs)])"

lemma part_word_byte:
  assumes "\<And>k. bit v k \<longleftrightarrow> k < length bs \<and> bs ! (length bs - 1 - k)" and "8 * Suc i \<le> length bs"
  shows "ucast (drop_bit (length bs - 8 * Suc i) (v :: u32)) = bytes_of_bits bs ! i"
proof (rule bit_word_eqI)
  fix k assume "k < LENGTH(8)"
  then have k: "k < 8" by simp
  have e: "length bs - 1 - (length bs - 8 * Suc i + k) = 8 * i + 7 - k" "length bs - 8 * Suc i + k < length bs" using assms(2) k by auto
  have "i < length bs div 8" using assms(2) by auto
  then show "bit (ucast (drop_bit (length bs - 8 * Suc i) v) :: u8) k = bit (bytes_of_bits bs ! i) k"
    using k e assms(1) [of "length bs - 8 * Suc i + k"] by (auto simp: bit_nth_bytes_of_bits bit_simps simp del: mult_Suc_right)
qed

lemma part_word_last:
  assumes "\<And>k. bit v k \<longleftrightarrow> k < length bs \<and> bs ! (length bs - 1 - k)" and "8 * i \<le> length bs"
  shows "ucast ((v :: u32) AND mkmsk (length bs - 8 * i)) = bits_value (drop (8 * i) bs)"
proof (rule bit_word_eqI)
  fix k assume "k < LENGTH(8)"
  moreover have "8 * i + (length bs - 8 * i - 1 - k) = length bs - 1 - k" if "k < length bs - 8 * i" using that assms(2) by linarith
  ultimately show "bit (ucast (v AND mkmsk (length bs - 8 * i)) :: u8) k = bit (bits_value (drop (8 * i) bs)) k"
    using assms(1) [of k] assms(2) by (auto simp: bit_bits_value bit_simps mkmsk_def)
qed

lemma part_word:
  assumes v: "\<And>k. bit v k \<longleftrightarrow> k < length bs \<and> bs ! (length bs - 1 - k)" and "bs \<noteq> []" "length bs \<le> 32"
  shows "part_word_bytes v (length bs) = part_bytes bs @ replicate (4 - length (part_bytes bs)) 0"
proof -
  define n where "n = length bs"
  note B = part_word_byte [OF v, unfolded n_def [symmetric]] and L = part_word_last [OF v, unfolded n_def [symmetric]]
  have one: "bytes_of_bits bs = map (\<lambda>i. bytes_of_bits bs ! i) [0 ..< n div 8]"
    by (rule nth_equalityI) (simp_all add: n_def)
  have low: "ucast v = bits_value bs" if "n \<le> 8"
    using that v by (intro bit_word_eqI) (auto simp: bit_bits_value bit_simps n_def [symmetric])
  have last: "bits_value (drop (8 * i) bs) = bytes_of_bits bs ! i" if "n = 8 * Suc i" for i
  proof -
    have "i < length bs div 8" "length (drop (8 * i) bs) = 8" using that by (simp_all add: n_def [symmetric])
    then show ?thesis by (simp add: nth_bytes_of_bits)
  qed
  have part: "part_bytes bs = map (\<lambda>i. bytes_of_bits bs ! i) [0 ..< n div 8] @ (if n mod 8 = 0 then [] else [bits_value (drop (8 * (n div 8)) bs)])"
    unfolding part_bytes_def n_def [symmetric] using one by simp
  have rep: "replicate 3 (0 :: u8) = [0, 0, 0]" "replicate 2 (0 :: u8) = [0, 0]" by code_simp+
  have upt: "[0 ..< 2] = [0, Suc 0]" "[0 ..< 3] = [0, Suc 0, 2]" "[0 ..< 4] = [0, Suc 0, 2, 3]" by (simp_all add: upt_rec numeral_eq_Suc)
  have "0 < n" "n \<le> 32" using assms(2,3) by (simp_all add: n_def)
  then have "0 < n \<and> n < 8 \<or> n = 8 \<or> 8 < n \<and> n < 16 \<or> n = 16 \<or> 16 < n \<and> n < 24 \<or> n = 24 \<or> 24 < n \<and> n < 32 \<or> n = 32"
    by (cases "n < 8"; cases "n < 16"; cases "n < 24"; force simp: le_less not_less)
  then consider "0 < n" "n < 8" | "n = 8" | "8 < n" "n < 16" | "n = 16" | "16 < n" "n < 24" | "n = 24" | "24 < n" "n < 32" | "n = 32"
    by blast
  then have "part_word_bytes v n = part_bytes bs @ replicate (4 - length (part_bytes bs)) 0"
  proof cases
    case 1
    then have "n div 8 = 0" "n mod 8 \<noteq> 0" by auto
    then show ?thesis using 1 low by (simp add: part_word_bytes_def part rep upt)
  next
    case 2
    then show ?thesis using low last [of 0] by (simp add: part_word_bytes_def part rep upt)
  next
    case 3
    then have "n div 8 = 1" "n mod 8 \<noteq> 0" by presburger+
    then show ?thesis using 3 B [of 0] L [of 1] by (simp add: part_word_bytes_def part rep upt)
  next
    case 4
    then show ?thesis using B [of 0] L [of 1] last [of 1] by (simp add: part_word_bytes_def part rep upt)
  next
    case 5
    then have "n div 8 = 2" "n mod 8 \<noteq> 0" by presburger+
    then show ?thesis using 5 B [of 0] B [of 1] L [of 2] by (simp add: part_word_bytes_def part rep upt)
  next
    case 6
    then show ?thesis using B [of 0] B [of 1] L [of 2] last [of 2] by (simp add: part_word_bytes_def part rep upt)
  next
    case 7
    then have "n div 8 = 3" "n mod 8 \<noteq> 0" by presburger+
    then show ?thesis using 7 B [of 0] B [of 1] B [of 2] L [of 3] by (simp add: part_word_bytes_def part rep upt)
  next
    case 8
    then show ?thesis using B [of 0] B [of 1] B [of 2] L [of 3] last [of 3] by (simp add: part_word_bytes_def part rep upt)
  qed
  then show ?thesis by (simp add: n_def)
qed

section \<open>A transaction\<close>

text \<open>
  The specification of a transaction: the memory and the buffers at its beginning. The bits that go out are
  those of the output buffer, and zeros behind it. Both buffers may be the same.
\<close>

record spi_xfer =
  xf_mem :: "nat \<Rightarrow> u8"
  xf_out :: nat
  xf_outlen :: nat
  xf_in :: nat
  xf_inlen :: nat

definition xfer_ok :: "spi_xfer \<Rightarrow> bool" where
  "xfer_ok T \<longleftrightarrow> xf_out T = xf_in T \<or> xf_out T + xf_outlen T \<le> xf_in T \<or> xf_in T + xf_inlen T \<le> xf_out T"

definition out_byte :: "spi_xfer \<Rightarrow> nat \<Rightarrow> u8" where
  "out_byte T i = (if i < xf_outlen T then xf_mem T (xf_out T + i) else 0)"

definition out_bit :: "spi_xfer \<Rightarrow> nat \<Rightarrow> bool" where
  "out_bit T k = bit (out_byte T (k div 8)) (7 - k mod 8)"

text \<open>The input buffer after some complete bytes and, at the end, the incomplete word.\<close>

definition in_memory :: "spi_xfer \<Rightarrow> u8 list \<Rightarrow> nat \<Rightarrow> u8" where
  "in_memory T bs = store_bytes (xf_in T) (take (xf_inlen T) bs) (xf_mem T)"

definition bits_word :: "nat \<Rightarrow> bool list \<Rightarrow> bool list" where
  "bits_word k bs = take 32 (drop (32 * k) bs)"

text \<open>The words that are between the port and the loop, by its place, after \<open>r\<close> words have been received.\<close>

definition words_between :: "nat \<Rightarrow> bool list \<Rightarrow> 'a spi_slave \<Rightarrow> bool" where
  "words_between r bs s \<longleftrightarrow>
     (let q = length bs div 32;
          waiting = (\<lambda>k. (q = k \<and> mosi_word s = None) \<or> (q = Suc k \<and> mosi_word s = Some (word_of_bits (bits_word k bs))))
      in mosi_shift s = drop (32 * q) bs
         \<and> (if ss_at s = At_Masked then in_word s = word_of_bits (bits_word r bs) \<and> waiting (Suc r) else waiting r))"

definition out_position :: "spi_slave_ports \<Rightarrow> nat \<Rightarrow> nat" where
  "out_position P shifts = (if sp_cpha P then shifts else Suc shifts)"

definition bits_out :: "spi_slave_ports \<Rightarrow> spi_xfer \<Rightarrow> nat \<Rightarrow> nat \<Rightarrow> 'a spi_slave \<Rightarrow> bool" where
  "bits_out P T r shifts s \<longleftrightarrow>
     (let n = out_position P shifts; pushed = (if ss_at s = At_Port_Out then Suc r else r + 2)
      in n \<le> 32 * pushed \<and> miso_bits s = map (out_bit T) [n ..< 32 * pushed] \<and> (if 0 < n then miso_pin s = out_bit T (n - 1) else True)
         \<and> (if ss_at s = At_Port_Out then outpw_bits (out_word s) 32 = map (out_bit T) [32 * Suc r ..< 32 * Suc r + 32] else True))"

definition transacting :: "spi_slave_ports \<Rightarrow> spi_xfer \<Rightarrow> bool list \<Rightarrow> nat \<Rightarrow> nat \<Rightarrow> 'a spi_slave \<Rightarrow> bool" where
  "transacting P T bs shifts r s \<longleftrightarrow>
     cs_val s \<and> running s
     \<and> in_buf s = xf_in T \<and> in_buf_end s = xf_in T + xf_inlen T \<and> in_buf_cur s = xf_in T + min (4 * r) (xf_inlen T)
     \<and> ss_memory s = in_memory T (bytes_of_bits (take (32 * r) bs)) \<and> 32 * r \<le> length bs
     \<and> out_buf s = xf_out T \<and> out_buf_end s = xf_out T + xf_outlen T \<and> out_buf_cur s = xf_out T + min (4 * (r + 2)) (xf_outlen T)
     \<and> words_between r bs s \<and> bits_out P T r shifts s"

text \<open>
  An event comes in time if no word is lost: the loop has taken the word from the port before the next one is complete, and the port has a bit
  to shift out.
\<close>

fun in_time :: "spi_slave_ports \<Rightarrow> spi_event \<Rightarrow> 'a spi_slave \<Rightarrow> bool" where
  "in_time P (Ev_Cs asserted) s \<longleftrightarrow> False"
| "in_time P (Ev_Sclk sclk mosi) s \<longleftrightarrow>
     (let level = (sclk \<noteq> (sp_cpol P \<noteq> sp_cpha P))
      in if level \<and> \<not> clk_level s then mosi_word s = None \<or> length (mosi_shift s) < 31
         else if \<not> level \<and> clk_level s then miso_bits s \<noteq> [] else True)"
| "in_time P Ev_Loop s \<longleftrightarrow> True"

text \<open>What an event adds to the bits that have been sampled and to the number of shifts.\<close>

fun sampled :: "spi_slave_ports \<Rightarrow> spi_event \<Rightarrow> 'a spi_slave \<Rightarrow> bool list" where
  "sampled P (Ev_Sclk sclk mosi) s = (if (sclk \<noteq> (sp_cpol P \<noteq> sp_cpha P)) \<and> \<not> clk_level s then [mosi] else [])"
| "sampled P e s = []"

fun shifted :: "spi_slave_ports \<Rightarrow> spi_event \<Rightarrow> 'a spi_slave \<Rightarrow> nat" where
  "shifted P (Ev_Sclk sclk mosi) s = (if \<not> (sclk \<noteq> (sp_cpol P \<noteq> sp_cpha P)) \<and> clk_level s then 1 else 0)"
| "shifted P e s = 0"

lemma transacting_sample:
  assumes T: "transacting P T bs shifts r s" and time: "mosi_word s = None \<or> length (mosi_shift s) < 31"
  shows "transacting P T (bs @ [b]) shifts r (mosi_sample b s)"
proof -
  let ?q = "length bs div 32"
  have sh: "mosi_shift s = drop (32 * ?q) bs" and r: "32 * r \<le> length bs" and w: "words_between r bs s"
    using T by (auto simp: transacting_def words_between_def Let_def)
  have len: "length (mosi_shift s) = length bs mod 32" by (simp add: sh minus_mult_div_eq_mod)
  have word: "bits_word k (bs @ [b]) = bits_word k bs" if "k < ?q" for k
  proof -
    have "32 * k + 32 \<le> length bs" using that by auto
    then show ?thesis by (simp add: bits_word_def)
  qed
  have "words_between r (bs @ [b]) (mosi_sample b s)"
  proof (cases "length bs mod 32 = 31")
    case True
    then have q: "Suc (length bs) div 32 = Suc ?q" by (simp add: div_Suc mod_Suc)
    have "32 * ?q + 31 = length bs" using True by (metis mult_div_mod_eq)
    then have full: "bits_word ?q (bs @ [b]) = drop (32 * ?q) bs @ [b]" "drop (32 + 32 * ?q) (bs @ [b]) = []" by (simp_all add: bits_word_def)
    have "mosi_word s = None" using time len True by simp
    moreover have "mosi_sample b s = s\<lparr>mosi_shift := [], mosi_word := Some (word_of_bits (drop (32 * ?q) bs @ [b]))\<rparr>"
      using len True by (simp add: mosi_sample_def Let_def sh [symmetric])
    ultimately show ?thesis using w word [of r] q full by (auto simp: words_between_def Let_def split: if_splits)
  next
    case False
    then have "Suc (length bs) mod 32 \<noteq> 0" by (simp add: mod_Suc)
    then have q: "Suc (length bs) div 32 = ?q" by (simp add: div_Suc mod_Suc)
    have le: "32 * ?q \<le> length bs" by simp
    have "mosi_sample b s = s\<lparr>mosi_shift := drop (32 * ?q) bs @ [b]\<rparr>"
      using len False by (simp add: mosi_sample_def Let_def sh [symmetric])
    then show ?thesis using w word [of r] word [of "Suc r"] q le by (auto simp: words_between_def Let_def split: if_splits)
  qed
  moreover have "bits_out P T r shifts (mosi_sample b s) = bits_out P T r shifts s"
    by (simp add: mosi_sample_def bits_out_def Let_def)
  moreover have "transacting P T (bs @ [b]) shifts r (mosi_sample b s) \<longleftrightarrow>
      words_between r (bs @ [b]) (mosi_sample b s) \<and> bits_out P T r shifts (mosi_sample b s)"
    using T r by (simp add: transacting_def mosi_sample_def Let_def)
  ultimately show ?thesis using T by (simp add: transacting_def)
qed

lemma transacting_shift:
  assumes T: "transacting P T bs shifts r s" and bits: "miso_bits s \<noteq> []"
  shows "transacting P T bs (Suc shifts) r (miso_shift s)"
proof -
  let ?pushed = "if ss_at s = At_Port_Out then Suc r else r + 2"
  let ?n = "out_position P shifts"
  have out: "bits_out P T r shifts s" using T by (simp add: transacting_def)
  then have m: "miso_bits s = map (out_bit T) [?n ..< 32 * ?pushed]" by (simp add: bits_out_def Let_def)
  then have n: "?n < 32 * ?pushed" using bits by (metis linorder_not_le list.simps(8) upt_conv_Nil)
  then have "miso_bits s = out_bit T ?n # map (out_bit T) [Suc ?n ..< 32 * ?pushed]"
    unfolding m by (simp only: upt_conv_Cons list.map)
  then have s': "miso_shift s = s\<lparr>miso_pin := out_bit T ?n, miso_bits := map (out_bit T) [Suc ?n ..< 32 * ?pushed]\<rparr>"
    by (simp add: miso_shift_def)
  have "bits_out P T r (Suc shifts) (miso_shift s)"
    using out n unfolding s' by (simp add: bits_out_def Let_def out_position_def split: if_splits)
  moreover have "words_between r bs (miso_shift s) = words_between r bs s"
    unfolding s' by (simp add: words_between_def)
  ultimately show ?thesis using T unfolding transacting_def by (simp add: s')
qed

lemma store_bytes_Nil [simp]: "store_bytes a [] m = m"
  by (rule ext) (auto simp: store_bytes_def)

lemma store_bytes_append: "store_bytes (a + length xs) ys (store_bytes a xs m) = store_bytes a (xs @ ys) m"
  by (auto simp: store_bytes_def nth_append fun_eq_iff)

lemma in_memory_more:
  "store_bytes (xf_in T + min (length xs) (xf_inlen T)) (take (xf_inlen T - min (length xs) (xf_inlen T)) ys) (in_memory T xs)
    = in_memory T (xs @ ys)"
proof -
  have "length (take (xf_inlen T) xs) = min (length xs) (xf_inlen T)" by simp
  then have "store_bytes (xf_in T + min (length xs) (xf_inlen T)) zs (in_memory T xs) = store_bytes (xf_in T) (take (xf_inlen T) xs @ zs) (xf_mem T)" for zs
    unfolding in_memory_def by (metis store_bytes_append)
  then show ?thesis by (simp add: in_memory_def min_def)
qed

lemma in_memory_out:
  "xfer_ok T \<Longrightarrow> length bs \<le> j \<Longrightarrow> j < xf_outlen T \<Longrightarrow> in_memory T bs (xf_out T + j) = xf_mem T (xf_out T + j)"
  by (auto simp: xfer_ok_def in_memory_def store_bytes_def)

lemma out_word_serial: "serial_bits (map (out_byte T) [4 * p ..< 4 * p + 4]) = map (out_bit T) [32 * p ..< 32 * p + 32]"
proof (rule nth_equalityI)
  fix k assume "k < length (serial_bits (map (out_byte T) [4 * p ..< 4 * p + 4]))"
  then have k: "k < 32" by simp
  have e: "(32 * p + k) div 8 = 4 * p + k div 8" "(32 * p + k) mod 8 = k mod 8"
    using div_mult_self4 [of 8 "4 * p" k] mod_mult_self4 [of 8 "4 * p" k] by simp_all
  have "k div 8 < 4" using k by auto
  then show "serial_bits (map (out_byte T) [4 * p ..< 4 * p + 4]) ! k = map (out_bit T) [32 * p ..< 32 * p + 32] ! k"
    using k e by (simp add: nth_serial_bits out_bit_def del: upt_Suc)
qed simp

lemma next_word_bits:
  assumes "xfer_ok T" and "ss_memory s = in_memory T xs" "length xs \<le> 4 * p"
    and "out_buf_end s = xf_out T + xf_outlen T" "out_buf_cur s = xf_out T + min (4 * p) (xf_outlen T)"
  shows "outpw_bits (fst (get_next_word s)) 32 = map (out_bit T) [32 * p ..< 32 * p + 32]"
proof -
  have "map (\<lambda>i. if i < out_buf_end s - out_buf_cur s then ss_memory s (out_buf_cur s + i) else 0) [0 ..< 4]
      = map (out_byte T) [4 * p ..< 4 * p + 4]"
  proof (rule nth_equalityI)
    fix i assume "i < length (map (\<lambda>i. if i < out_buf_end s - out_buf_cur s then ss_memory s (out_buf_cur s + i) else 0) [0 ..< 4])"
    then have i: "i < 4" by simp
    have "(if i < out_buf_end s - out_buf_cur s then ss_memory s (out_buf_cur s + i) else 0) = out_byte T (4 * p + i)"
    proof (cases "4 * p + i < xf_outlen T")
      case True
      then have "out_buf_cur s + i = xf_out T + (4 * p + i)" "i < out_buf_end s - out_buf_cur s" using assms(4,5) by auto
      then show ?thesis using True in_memory_out [OF assms(1) _ True, of xs] assms(2,3) by (simp add: out_byte_def add.assoc)
    next
      case False
      then show ?thesis using assms(4,5) by (auto simp: out_byte_def)
    qed
    then show "map (\<lambda>i. if i < out_buf_end s - out_buf_cur s then ss_memory s (out_buf_cur s + i) else 0) [0 ..< 4] ! i
        = map (out_byte T) [4 * p ..< 4 * p + 4] ! i" using i by (auto simp del: upt_Suc upt_rec_numeral split: if_splits)
  qed simp
  then show ?thesis unfolding out_word_bits by (simp only: out_word_serial)
qed

lemma get_next_word_state:
  "snd (get_next_word s) = s\<lparr>out_buf_cur := out_buf_cur s + min 4 (out_buf_end s - out_buf_cur s)\<rparr>"
  by (simp add: get_next_word_def Let_def min_def)

lemma receive_word_bytes:
  assumes "length bs = 32"
  shows "receive_word (word_of_bits bs) s = s\<lparr>ss_memory := store_bytes (in_buf_cur s) (take (in_buf_end s - in_buf_cur s) (bytes_of_bits bs)) (ss_memory s),
      in_buf_cur := in_buf_cur s + min 4 (in_buf_end s - in_buf_cur s)\<rparr>"
  unfolding receive_word_def Let_def received_word_bytes [OF assms] by (simp add: min_def)

lemma received_bytes:
  assumes "32 * Suc r \<le> length bs"
  shows "bytes_of_bits (take (32 * Suc r) bs) = bytes_of_bits (take (32 * r) bs) @ bytes_of_bits (bits_word r bs)"
    and "length (bits_word r bs) = 32" and "length (bytes_of_bits (take (32 * r) bs)) = 4 * r"
proof -
  have "take (32 * Suc r) bs = take (32 * r) bs @ bits_word r bs"
    using take_add [of "32 * r" 32 bs] by (simp add: bits_word_def add.commute)
  moreover have "8 dvd length (take (32 * r) bs)" using assms by simp
  ultimately show "bytes_of_bits (take (32 * Suc r) bs) = bytes_of_bits (take (32 * r) bs) @ bytes_of_bits (bits_word r bs)"
    by (metis bytes_of_bits_append)
  show "length (bits_word r bs) = 32" using assms by (simp add: bits_word_def)
  have "length (take (32 * r) bs) = 8 * (4 * r)" using assms by simp
  then show "length (bytes_of_bits (take (32 * r) bs)) = 4 * r" by (metis length_bytes_of_bits nonzero_mult_div_cancel_left zero_neq_numeral)
qed

lemma transacting_masked:
  assumes P: "sp_mosi P" "sp_miso P" and ok: "xfer_ok T" and T: "transacting P T bs shifts r s" and here: "ss_at s = At_Masked"
  shows "transacting P T bs shifts (Suc r) (spi_slave_loop P s)"
proof -
  have w: "in_word s = word_of_bits (bits_word r bs)" and mosi: "mosi_shift s = drop (32 * (length bs div 32)) bs"
    and waiting: "(length bs div 32 = Suc r \<and> mosi_word s = None)
      \<or> (length bs div 32 = Suc (Suc r) \<and> mosi_word s = Some (word_of_bits (bits_word (Suc r) bs)))"
    using T here by (simp_all add: transacting_def words_between_def Let_def)
  then have len: "32 * Suc r \<le> length bs" by auto
  note rb = received_bytes [OF len]
  define s1 where "s1 = receive_word (in_word s) s"
  define s2 where "s2 = snd (get_next_word s1)"
  define v where "v = fst (get_next_word s1)"
  have loop: "spi_slave_loop P s = s2\<lparr>out_word := v, ss_at := At_Port_Out\<rparr>"
    using T here by (simp add: spi_slave_loop_def s1_def s2_def v_def Let_def case_prod_beta transacting_def)
  have s1: "s1 = s\<lparr>ss_memory := in_memory T (bytes_of_bits (take (32 * Suc r) bs)), in_buf_cur := xf_in T + min (4 * Suc r) (xf_inlen T)\<rparr>"
  proof -
    have "min (4 * r) i + min 4 (i - min (4 * r) i) = min (4 * Suc r) i" for i :: nat by auto
    moreover have "store_bytes (xf_in T + min (4 * r) (xf_inlen T)) (take (xf_inlen T - min (4 * r) (xf_inlen T)) (bytes_of_bits (bits_word r bs)))
        (in_memory T (bytes_of_bits (take (32 * r) bs))) = in_memory T (bytes_of_bits (take (32 * Suc r) bs))"
      unfolding rb(1) using in_memory_more [of T "bytes_of_bits (take (32 * r) bs)", unfolded rb(3)] .
    ultimately show ?thesis
      using T unfolding s1_def w receive_word_bytes [OF rb(2)] by (simp add: transacting_def add.assoc del: mult_Suc_right)
  qed
  have s2: "s2 = s1\<lparr>out_buf_cur := xf_out T + min (4 * (Suc r + 2)) (xf_outlen T)\<rparr>"
  proof -
    have "min (4 * (r + 2)) i + min 4 (i - min (4 * (r + 2)) i) = min (4 * (Suc r + 2)) i" for i :: nat by auto
    then show ?thesis using T unfolding s2_def get_next_word_state by (simp add: s1 transacting_def add.assoc del: mult_Suc_right)
  qed
  have "length (bytes_of_bits (take (32 * Suc r) bs)) \<le> 4 * (r + 2)" using rb len by (simp add: min_def)
  then have v: "outpw_bits v 32 = map (out_bit T) [32 * (r + 2) ..< 32 * (r + 2) + 32]"
    unfolding v_def using T by (intro next_word_bits [OF ok, where xs = "bytes_of_bits (take (32 * Suc r) bs)"]) (simp_all add: s1 transacting_def)
  have "bits_out P T (Suc r) shifts (spi_slave_loop P s)"
    using T here v unfolding loop s2 s1 by (simp add: transacting_def bits_out_def Let_def)
  moreover have "words_between (Suc r) bs (spi_slave_loop P s)"
    unfolding loop s2 s1 using waiting mosi by (simp add: words_between_def Let_def)
  ultimately show ?thesis using T len unfolding transacting_def loop s2 s1 by simp
qed

lemma transacting_loop:
  assumes P: "sp_mosi P" "sp_miso P" and ok: "xfer_ok T" and T: "transacting P T bs shifts r s"
  shows "\<exists>r'. transacting P T bs shifts r' (spi_slave_loop P s)"
proof (cases "ss_at s")
  case At_Port_In
  show ?thesis
  proof (cases "mosi_word s")
    case None
    then show ?thesis using T At_Port_In P by (auto simp: spi_slave_loop_def)
  next
    case (Some w)
    then have "spi_slave_loop P s = s\<lparr>in_word := w, mosi_word := None, ss_at := At_Masked\<rparr>"
      using At_Port_In P by (simp add: spi_slave_loop_def)
    then have "transacting P T bs shifts r (spi_slave_loop P s)"
      using T At_Port_In Some by (auto simp: transacting_def words_between_def bits_out_def Let_def)
    then show ?thesis ..
  qed
next
  case At_Masked
  then show ?thesis using transacting_masked [OF P ok T] by blast
next
  case At_Port_Out
  show ?thesis
  proof (cases "32 < length (miso_bits s)")
    case True
    then show ?thesis using T At_Port_Out P by (auto simp: spi_slave_loop_def transacting_def)
  next
    case False
    then have loop: "spi_slave_loop P s = s\<lparr>miso_bits := miso_bits s @ outpw_bits (out_word s) 32, ss_at := At_Port_In\<rparr>"
      using T At_Port_Out P by (auto simp: spi_slave_loop_def transacting_def)
    let ?n = "out_position P shifts"
    have n: "?n \<le> 32 * Suc r" "miso_bits s = map (out_bit T) [?n ..< 32 * Suc r]"
        "outpw_bits (out_word s) 32 = map (out_bit T) [32 * Suc r ..< 32 * Suc r + 32]" "0 < ?n \<longrightarrow> miso_pin s = out_bit T (?n - 1)"
      using T At_Port_Out by (simp_all add: transacting_def bits_out_def Let_def)
    have "map (out_bit T) [?n ..< 32 * Suc r] @ map (out_bit T) [32 * Suc r ..< 32 * Suc r + 32] = map (out_bit T) [?n ..< 32 * (r + 2)]"
      using upt_add_eq_append [OF n(1), of 32] by (simp add: algebra_simps flip: map_append)
    then have "bits_out P T r shifts (spi_slave_loop P s)"
      unfolding loop using n by (simp add: bits_out_def Let_def)
    moreover have "words_between r bs (spi_slave_loop P s)"
      using T At_Port_Out unfolding loop by (simp add: transacting_def words_between_def Let_def)
    ultimately have "transacting P T bs shifts r (spi_slave_loop P s)"
      using T unfolding transacting_def loop by simp
    then show ?thesis ..
  qed
qed

lemma transacting_event:
  assumes P: "sp_mosi P" "sp_miso P" and ok: "xfer_ok T" and T: "transacting P T bs shifts r s" and time: "in_time P e s"
  shows "\<exists>r'. transacting P T (bs @ sampled P e s) (shifts + shifted P e s) r' (spi_slave_event cb P e s)"
proof (cases e)
  case (Ev_Cs asserted)
  then show ?thesis using time by simp
next
  case (Ev_Sclk sclk mosi)
  let ?level = "sclk \<noteq> (sp_cpol P \<noteq> sp_cpha P)"
  have sel: "cs_val s" using T by (simp add: transacting_def)
  have "words_between r bs (s\<lparr>clk_level := ?level\<rparr>) = words_between r bs s" "bits_out P T r shifts (s\<lparr>clk_level := ?level\<rparr>) = bits_out P T r shifts s"
    by (simp_all add: words_between_def bits_out_def)
  then have T': "transacting P T bs shifts r (s\<lparr>clk_level := ?level\<rparr>)"
    using T unfolding transacting_def by simp
  consider "?level" "\<not> clk_level s" | "\<not> ?level" "clk_level s" | "?level = clk_level s" by blast
  then show ?thesis
  proof cases
    case 1
    then have "transacting P T (bs @ [mosi]) shifts r (mosi_sample mosi (s\<lparr>clk_level := ?level\<rparr>))"
      using time Ev_Sclk by (intro transacting_sample [OF T']) simp
    then show ?thesis using 1 Ev_Sclk sel P by (auto simp: sclk_level_def Let_def)
  next
    case 2
    then have "transacting P T bs (Suc shifts) r (miso_shift (s\<lparr>clk_level := ?level\<rparr>))"
      using time Ev_Sclk by (intro transacting_shift [OF T']) (simp split: if_splits)
    then show ?thesis using 2 Ev_Sclk sel P by (auto simp: sclk_level_def Let_def)
  next
    case 3
    then show ?thesis using T' Ev_Sclk by (auto simp: sclk_level_def Let_def)
  qed
next
  case Ev_Loop
  then show ?thesis using transacting_loop [OF P ok T] by simp
qed

text \<open>A run between two changes of the chip select, in time throughout, and the bits that it samples.\<close>

fun all_in_time :: "'a spi_slave_callback_group \<Rightarrow> spi_slave_ports \<Rightarrow> spi_event list \<Rightarrow> 'a spi_slave \<Rightarrow> bool" where
  "all_in_time cb P [] s \<longleftrightarrow> True"
| "all_in_time cb P (e # es) s \<longleftrightarrow> in_time P e s \<and> all_in_time cb P es (spi_slave_event cb P e s)"

fun bits_sampled :: "'a spi_slave_callback_group \<Rightarrow> spi_slave_ports \<Rightarrow> spi_event list \<Rightarrow> 'a spi_slave \<Rightarrow> bool list" where
  "bits_sampled cb P [] s = []"
| "bits_sampled cb P (e # es) s = sampled P e s @ bits_sampled cb P es (spi_slave_event cb P e s)"

fun shifts_made :: "'a spi_slave_callback_group \<Rightarrow> spi_slave_ports \<Rightarrow> spi_event list \<Rightarrow> 'a spi_slave \<Rightarrow> nat" where
  "shifts_made cb P [] s = 0"
| "shifts_made cb P (e # es) s = shifted P e s + shifts_made cb P es (spi_slave_event cb P e s)"

lemma spi_slave_run_simps [simp]: "spi_slave_run cb P [] s = s" "spi_slave_run cb P (e # es) s = spi_slave_run cb P es (spi_slave_event cb P e s)"
  by (simp_all add: spi_slave_run_def)

lemma transacting_run:
  assumes P: "sp_mosi P" "sp_miso P" and ok: "xfer_ok T"
  shows "transacting P T bs shifts r s \<Longrightarrow> all_in_time cb P es s \<Longrightarrow>
    \<exists>r'. transacting P T (bs @ bits_sampled cb P es s) (shifts + shifts_made cb P es s) r' (spi_slave_run cb P es s)"
proof (induction es arbitrary: bs shifts r s)
  case Nil
  then show ?case by auto
next
  case (Cons e es)
  then obtain r' where r': "transacting P T (bs @ sampled P e s) (shifts + shifted P e s) r' (spi_slave_event cb P e s)"
    using transacting_event [OF P ok] by (metis all_in_time.simps(2))
  show ?case using Cons.IH [OF r'] Cons.prems(2) by (simp add: add.assoc)
qed

text \<open>The beginning: the transaction that the application's callback describes.\<close>

definition xfer_of :: "'a spi_slave_callback_group \<Rightarrow> 'a spi_slave \<Rightarrow> spi_xfer" where
  "xfer_of cb s =
     (let (ob, outbuf_len, ib, inbuf_len) = fst (slave_transaction_started cb (ss_app s) (out_buf s) (in_buf s))
      in \<lparr>xf_mem = ss_memory s, xf_out = ob, xf_outlen = (if ob = 0 then 0 else outbuf_len), xf_in = ib, xf_inlen = (if ib = 0 then 0 else inbuf_len)\<rparr>)"

lemma transacting_begins:
  assumes P: "sp_mosi P" "sp_miso P" and ok: "xfer_ok (xfer_of cb s)" and here: "ss_at s = At_Port_In"
  shows "transacting P (xfer_of cb s) [] 0 0 (cs_isr cb P True s)"
proof -
  let ?T = "xfer_of cb s"
  obtain ob ol ib il a where app: "slave_transaction_started cb (ss_app s) (out_buf s) (in_buf s) = ((ob, ol, ib, il), a)"
    by (metis prod.collapse)
  have T: "xf_mem ?T = ss_memory s" "xf_out ?T = ob" "xf_outlen ?T = (if ob = 0 then 0 else ol)" "xf_in ?T = ib" "xf_inlen ?T = (if ib = 0 then 0 else il)"
    by (simp_all add: xfer_of_def app)
  define s0 where "s0 = s\<lparr>cs_val := True, mosi_shift := [], mosi_word := None, miso_bits := [], ss_app := a, out_buf := ob, in_buf := ib,
     out_buf_cur := ob, out_buf_end := ob + xf_outlen ?T, in_buf_cur := ib, in_buf_end := ib + xf_inlen ?T, running := True\<rparr>"
  have isr: "cs_isr cb P True s = preload (sp_cpha P) s0"
    using P by (simp add: cs_isr_def transaction_begins_def app s0_def T Let_def)
  define s1 where "s1 = snd (get_next_word s0)"
  have mem0: "in_memory ?T [] = ss_memory s" by (simp add: in_memory_def T)
  have w0: "outpw_bits (fst (get_next_word s0)) 32 = map (out_bit ?T) [0 ..< 32]"
    using next_word_bits [OF ok, of s0 "[]" 0] by (simp add: s0_def mem0 T)
  have s1: "s1 = s0\<lparr>out_buf_cur := ob + min 4 (xf_outlen ?T)\<rparr>"
    unfolding s1_def get_next_word_state by (simp add: s0_def)
  have out1: "outpw_bits (fst (get_next_word s2)) 32 = map (out_bit ?T) [32 ..< 64]"
    "snd (get_next_word s2) = s2\<lparr>out_buf_cur := ob + min 8 (xf_outlen ?T)\<rparr>"
    if "ss_memory s2 = ss_memory s" "out_buf_end s2 = ob + xf_outlen ?T" "out_buf_cur s2 = ob + min 4 (xf_outlen ?T)" for s2 :: "'a spi_slave"
  proof -
    show "outpw_bits (fst (get_next_word s2)) 32 = map (out_bit ?T) [32 ..< 64]"
      using next_word_bits [OF ok, of s2 "[]" 1] that by (simp add: mem0 T)
    have "min 4 i + min 4 (i - min 4 i) = min 8 i" for i :: nat by auto
    then show "snd (get_next_word s2) = s2\<lparr>out_buf_cur := ob + min 8 (xf_outlen ?T)\<rparr>"
      unfolding get_next_word_state using that by (simp add: add.assoc)
  qed
  have bit0: "bit (fst (get_next_word s0)) 0 = out_bit ?T 0"
    using arg_cong [OF w0, of hd] by (simp add: outpw_bits_def upt_rec)
  have bits31: "outpw_bits (drop_bit 1 (fst (get_next_word s0))) 31 = map (out_bit ?T) [1 ..< 32]"
  proof -
    have "outpw_bits (drop_bit 1 w) 31 = tl (outpw_bits w 32)" for w
      by (rule nth_equalityI) (auto simp: outpw_bits_def nth_tl bit_simps simp del: upt_Suc upt_rec_numeral)
    then show ?thesis by (simp only: w0 map_tl [symmetric] tl_upt One_nat_def)
  qed
  define s2 where "s2 = (if \<not> sp_cpha P then s1\<lparr>miso_pin := out_bit ?T 0, miso_bits := map (out_bit ?T) [1 ..< 32]\<rparr>
     else s1\<lparr>miso_bits := map (out_bit ?T) [0 ..< 32]\<rparr>)"
  have o: "outpw_bits (fst (get_next_word s2)) 32 = map (out_bit ?T) [32 ..< 64]" "snd (get_next_word s2) = s2\<lparr>out_buf_cur := ob + min 8 (xf_outlen ?T)\<rparr>"
    by (rule out1; simp add: s2_def s1 s0_def)+
  have "preload (sp_cpha P) s0 = (snd (get_next_word s2))\<lparr>miso_bits := miso_bits (snd (get_next_word s2)) @ outpw_bits (fst (get_next_word s2)) 32\<rparr>"
    unfolding preload_def Let_def case_prod_beta bit0 bits31 w0 s1_def [symmetric] s2_def [symmetric] ..
  then have "preload (sp_cpha P) s0 = s2\<lparr>out_buf_cur := ob + min 8 (xf_outlen ?T), miso_bits := miso_bits s2 @ map (out_bit ?T) [32 ..< 64]\<rparr>"
    unfolding o by simp
  moreover have "map (out_bit ?T) [n ..< 32] @ map (out_bit ?T) [32 ..< 64] = map (out_bit ?T) [n ..< 64]" if "n \<le> 32" for n
  proof -
    have "[n ..< 64] = [n ..< 32] @ [32 ..< 64]" using upt_add_eq_append [OF that, of 32] by (simp del: upt_rec_numeral)
    then show ?thesis by (simp only: map_append)
  qed
  ultimately show ?thesis unfolding isr
    using here by (simp del: upt_rec_numeral add: transacting_def words_between_def bits_out_def out_position_def s2_def s1 s0_def T mem0)
qed

text \<open>The end: what the callback is told, and the memory.\<close>

lemma force_input_bits:
  assumes "mosi_word s = None" and "length (mosi_shift s) < 32"
  shows "fst (port_force_input s) = length (mosi_shift s)"
    and "bit (bitrev (snd (port_force_input s)) AND mkmsk (length (mosi_shift s))) k
      \<longleftrightarrow> k < length (mosi_shift s) \<and> mosi_shift s ! (length (mosi_shift s) - 1 - k)"
proof -
  show "fst (port_force_input s) = length (mosi_shift s)" using assms(1) by (simp add: port_force_input_def Let_def)
  let ?n = "length (mosi_shift s)"
  have "31 - k - (32 - ?n) = ?n - 1 - k" "\<not> 31 - k < 32 - ?n" if "k < ?n" using that assms(2) by linarith+
  then show "bit (bitrev (snd (port_force_input s)) AND mkmsk ?n) k \<longleftrightarrow> k < ?n \<and> mosi_shift s ! (?n - 1 - k)"
    using assms by (auto simp: port_force_input_def Let_def mkmsk_def bitrev_def bit_simps)
qed

text \<open>Behind the last byte the words of the port leave up to three bytes that are cleared.\<close>

definition padded :: "u8 list \<Rightarrow> u8 list" where
  "padded bs = bs @ replicate ((4 - length bs mod 4) mod 4) 0"

definition xfer_result :: "spi_xfer \<Rightarrow> bool list \<Rightarrow> (nat \<Rightarrow> u8) \<times> nat \<times> nat" where
  "xfer_result T bs =
     (let full = length bs div 8
      in (in_memory T (padded (part_bytes bs)), min full (xf_inlen T), if full < xf_inlen T then length bs mod 8 else 0))"

lemma part_bytes_append: "8 dvd length xs \<Longrightarrow> part_bytes (xs @ ys) = bytes_of_bits xs @ part_bytes ys"
proof -
  assume d: "8 dvd length xs"
  then obtain n where n: "length xs = 8 * n" by auto
  have e: "(8 * n + length ys) div 8 = n + length ys div 8" "(8 * n + length ys) mod 8 = length ys mod 8" by simp_all
  show ?thesis unfolding part_bytes_def bytes_of_bits_append [OF d] length_append n e by (simp add: n)
qed

lemma receive_rest:
  assumes T: "transacting P T bs shifts r s" and here: "ss_at s = At_Port_In" "mosi_word s = None"
    and res: "xfer_result T bs = (m, bytes_read, read_bits)"
  shows "receive_part_word (snd (port_force_input s)) (fst (port_force_input s)) s
    = (read_bits, s\<lparr>ss_memory := m, in_buf_cur := xf_in T + bytes_read\<rparr>)"
proof -
  define q where "q = length bs div 32"
  define ps where "ps = drop (32 * q) bs"
  let ?done = "bytes_of_bits (take (32 * q) bs)"
  have r: "r = q" "mosi_shift s = ps"
    using T here by (auto simp: transacting_def words_between_def Let_def q_def ps_def)
  have le: "32 * q \<le> length bs" by (simp add: q_def)
  have lenps: "length ps = length bs mod 32" by (simp add: ps_def q_def minus_mult_div_eq_mod)
  have bs: "bs = take (32 * q) bs @ ps" "length (take (32 * q) bs) = 8 * (4 * q)" using le by (simp_all add: ps_def)
  have lend: "length ?done = 4 * q" using bs(2) by (metis length_bytes_of_bits nonzero_mult_div_cancel_left zero_neq_numeral)
  have pb: "part_bytes bs = ?done @ part_bytes ps"
    using bs by (metis dvd_triv_left part_bytes_append)
  have len: "length bs = 8 * (4 * q) + length ps" using bs by (metis length_append)
  have "(8 * a + b) div 8 = a + b div 8" "(8 * a + b) mod 8 = b mod 8" for a b :: nat by simp_all
  then have full: "length bs div 8 = 4 * q + length ps div 8" "length bs mod 8 = length ps mod 8" unfolding len by blast+
  have s: "in_buf_cur s = xf_in T + min (4 * q) (xf_inlen T)" "in_buf_end s = xf_in T + xf_inlen T" "ss_memory s = in_memory T ?done"
    using T r by (simp_all add: transacting_def)
  have force: "fst (port_force_input s) = length ps"
    using force_input_bits(1) [OF here(2)] lenps r by simp
  show ?thesis
  proof (cases "ps = []")
    case True
    then have "part_bytes bs = ?done" "length bs mod 8 = 0" "length bs div 8 = 4 * q" using pb full by (simp_all add: part_bytes_def)
    then show ?thesis using res s True force lend
      by (auto simp: receive_part_word_def xfer_result_def padded_def Let_def)
  next
    case False
    let ?v = "bitrev (snd (port_force_input s)) AND mkmsk (length ps)"
    let ?k = "length (part_bytes ps)"
    have k: "0 < ?k" "?k \<le> 4"
    proof -
      have "0 < length ps" using False by simp
      moreover have "length ps < 32" using lenps by simp
      ultimately have "length ps div 8 < 4" "length ps mod 8 = 0 \<longrightarrow> 0 < length ps div 8" by presburger+
      then show "0 < ?k" "?k \<le> 4" by (auto simp: part_bytes_def)
    qed
    have "bit ?v i \<longleftrightarrow> i < length ps \<and> ps ! (length ps - 1 - i)" for i
      using force_input_bits(2) [OF here(2)] lenps r by simp
    then have w: "part_word_bytes ?v (length ps) = part_bytes ps @ replicate (4 - ?k) 0"
      by (rule part_word) (use False lenps in simp_all)
    have "(4 - (4 * q + ?k) mod 4) mod 4 = 4 - ?k" using k by (cases "?k = 4") auto
    then have "padded (part_bytes bs) = ?done @ part_bytes ps @ replicate (4 - ?k) 0"
      unfolding padded_def pb length_append lend by simp
    then have mem: "store_bytes (xf_in T + min (4 * q) (xf_inlen T)) (take (xf_inlen T - min (4 * q) (xf_inlen T)) (part_word_bytes ?v (length ps))) (in_memory T ?done) = m"
    proof -
      have "in_memory T (?done @ part_word_bytes ?v (length ps)) = m"
        using res w \<open>padded (part_bytes bs) = _\<close> by (simp add: xfer_result_def Let_def)
      then show ?thesis using in_memory_more [of T ?done, unfolded lend] by (simp only:)
    qed
    have br: "bytes_read = min (4 * q + length ps div 8) (xf_inlen T)"
      "read_bits = (if 4 * q + length ps div 8 < xf_inlen T then length ps mod 8 else 0)"
      using res full by (auto simp: xfer_result_def Let_def split: if_splits)
    show ?thesis
    proof (cases "4 * q + length ps div 8 < xf_inlen T")
      case True
      then show ?thesis using s mem br force False by (simp add: receive_part_word_def Let_def)
    next
      case out: False
      then have "xf_in T + min (4 * q) (xf_inlen T) + (xf_inlen T - min (4 * q) (xf_inlen T)) = xf_in T + bytes_read"
        using br by auto
      then show ?thesis using s mem br force False out by (auto simp: receive_part_word_def Let_def)
    qed
  qed
qed

lemma transacting_end:
  assumes P: "sp_mosi P" "sp_miso P" and T: "transacting P T bs shifts r s" and here: "ss_at s = At_Port_In" "mosi_word s = None"
    and res: "xfer_result T bs = (m, bytes_read, read_bits)"
    and app: "slave_transaction_ended cb (ss_app s) (xf_out T) (min (4 * (length bs div 32 + 2)) (xf_outlen T)) (xf_in T) bytes_read read_bits = ((ob, ib), a)"
  shows "cs_isr cb P False s = s\<lparr>cs_val := False, ss_memory := m, in_buf_cur := xf_in T + bytes_read, mosi_shift := [], mosi_word := None,
     miso_bits := [], running := False, ss_app := a, out_buf := ob, in_buf := ib\<rparr>"
proof -
  have r: "r = length bs div 32" and bufs: "in_buf s = xf_in T" "out_buf s = xf_out T" "out_buf_cur s = xf_out T + min (4 * (r + 2)) (xf_outlen T)"
    using T here by (auto simp: transacting_def words_between_def Let_def)
  have "port_force_input (s\<lparr>cs_val := False\<rparr>) = port_force_input s"
    by (cases "mosi_word s") (simp_all add: port_force_input_def Let_def)
  moreover have "receive_part_word w n (s\<lparr>cs_val := False\<rparr>) = (fst (receive_part_word w n s), snd (receive_part_word w n s)\<lparr>cs_val := False\<rparr>)" for w n
    by (simp add: receive_part_word_def Let_def)
  ultimately show ?thesis
    using P app bufs r receive_rest [OF T here res] by (simp add: cs_isr_def transaction_ends_def Let_def case_prod_beta)
qed

lemma in_time_app: "in_time P e s \<Longrightarrow> ss_app (spi_slave_event cb P e s) = ss_app s"
  by (cases e) (auto simp: sclk_level_def mosi_sample_def miso_shift_def spi_slave_loop_def get_next_word_def receive_word_def Let_def
      split: list.splits option.splits loop_at.splits)

lemma all_in_time_app: "all_in_time cb P es s \<Longrightarrow> ss_app (spi_slave_run cb P es s) = ss_app s"
  by (induction es arbitrary: s) (simp_all add: in_time_app)

text \<open>The end of a transaction in which no word is lost, exactly.\<close>

lemma spi_slave_result:
  assumes P: "sp_mosi P" "sp_miso P" and "ss_at s = At_Port_In" and "T = xfer_of cb s" and "xfer_ok T"
    and "all_in_time cb P es (cs_isr cb P True s)" and "s' = spi_slave_run cb P es (cs_isr cb P True s)"
    and "ss_at s' = At_Port_In" and "mosi_word s' = None"
    and "bs = bits_sampled cb P es (cs_isr cb P True s)" and "xfer_result T bs = (m, bytes_read, read_bits)"
  shows "ss_memory (cs_isr cb P False s') = m
    \<and> ss_app (cs_isr cb P False s') = snd (slave_transaction_ended cb (ss_app (cs_isr cb P True s)) (xf_out T)
      (min (4 * (length bs div 32 + 2)) (xf_outlen T)) (xf_in T) bytes_read read_bits)"
proof -
  have "transacting P T [] 0 0 (cs_isr cb P True s)" using transacting_begins [OF P] assms(3-5) by simp
  then obtain r where T: "transacting P T bs (shifts_made cb P es (cs_isr cb P True s)) r s'"
    using transacting_run [OF P assms(5) _ assms(6)] assms(7,10) by fastforce
  obtain ob ib a where app: "slave_transaction_ended cb (ss_app s') (xf_out T) (min (4 * (length bs div 32 + 2)) (xf_outlen T)) (xf_in T)
      bytes_read read_bits = ((ob, ib), a)" by (metis prod.collapse)
  have "ss_app s' = ss_app (cs_isr cb P True s)" using all_in_time_app [OF assms(6)] assms(7) by simp
  then show ?thesis
    using app transacting_end [OF P T assms(8,9,11) app] by simp_all
qed

text \<open>
  What a transaction leaves in the memory: the bytes received in the input buffer, as far as they fit, and nothing changed outside it. What is in the
  buffer behind them is left open.
\<close>

definition received_in :: "spi_xfer \<Rightarrow> u8 list \<Rightarrow> (nat \<Rightarrow> u8) \<Rightarrow> bool" where
  "received_in T ds m \<longleftrightarrow>
     map (\<lambda>i. m (xf_in T + i)) [0 ..< min (length ds) (xf_inlen T)] = take (xf_inlen T) ds
     \<and> (\<forall>a. a < xf_in T \<or> xf_in T + xf_inlen T \<le> a \<longrightarrow> m a = xf_mem T a)"

lemma in_memory_received: "received_in T ds (in_memory T (padded ds))"
proof -
  have "map (\<lambda>i. in_memory T (padded ds) (xf_in T + i)) [0 ..< min (length ds) (xf_inlen T)] = take (xf_inlen T) ds"
    by (rule nth_equalityI) (auto simp: in_memory_def store_bytes_def padded_def nth_append)
  moreover have "in_memory T (padded ds) a = xf_mem T a" if "a < xf_in T \<or> xf_in T + xf_inlen T \<le> a" for a
    using that by (auto simp: in_memory_def store_bytes_def)
  ultimately show ?thesis by (simp add: received_in_def)
qed

text \<open>
  C24: A transaction of any number of bits: however the loop is interleaved with the clock, as long as no word is lost, the slave has stored the
  bytes on MOSI in the application's input buffer, as far as they fit, the bits of an incomplete byte in the one behind them, and
  changed nothing outside the buffer; it tells the application how many complete bytes and further bits it has received, and a number of bytes
  taken from the output buffer that is at least the complete bytes sent and at most the buffer. The two buffers may be the same.
\<close>

theorem spi_slave_receives:
  assumes P: "sp_mosi P" "sp_miso P" and "ss_at s = At_Port_In" and "T = xfer_of cb s" and "xfer_ok T"
    and "all_in_time cb P es (cs_isr cb P True s)" and "s' = spi_slave_run cb P es (cs_isr cb P True s)"
    and "ss_at s' = At_Port_In" and "mosi_word s' = None"
    and "bs = bits_sampled cb P es (cs_isr cb P True s)" and "n = length bs div 8"
  shows "received_in T (part_bytes bs) (ss_memory (cs_isr cb P False s'))
    \<and> (\<exists>bytes_written. min n (xf_outlen T) \<le> bytes_written \<and> bytes_written \<le> xf_outlen T
        \<and> ss_app (cs_isr cb P False s') = snd (slave_transaction_ended cb (ss_app (cs_isr cb P True s)) (xf_out T) bytes_written
            (xf_in T) (min n (xf_inlen T)) (if n < xf_inlen T then length bs mod 8 else 0)))"
proof -
  have "xfer_result T bs = (in_memory T (padded (part_bytes bs)), min n (xf_inlen T), if n < xf_inlen T then length bs mod 8 else 0)"
    unfolding xfer_result_def Let_def assms(11) ..
  note res = spi_slave_result [OF assms(1-10) this]
  have "k \<le> 4 * (k div 4 + 2)" for k :: nat by presburger
  moreover have "length bs div 32 = n div 4" using div_mult2_eq [of "length bs" 8 4] by (simp add: assms(11))
  ultimately have "n \<le> 4 * (length bs div 32 + 2)" by (simp only:)
  then have "min n (xf_outlen T) \<le> min (4 * (length bs div 32 + 2)) (xf_outlen T)" by linarith
  note counts = conjI [OF this conjI [OF min.cobounded2 [of "4 * (length bs div 32 + 2)" "xf_outlen T"] res [THEN conjunct2]]]
  have "received_in T (part_bytes bs) (ss_memory (cs_isr cb P False s'))"
    unfolding res [THEN conjunct1] by (rule in_memory_received)
  then show ?thesis by (rule conjI) (rule exI, rule counts)
qed

text \<open>
  What the slave sends: after any number of edges the bit on MISO is the next one of the output buffer, the most
  significant one of each byte first, and zero behind the buffer; with \<open>cpha\<close> 0 the first one is there before the first edge.
\<close>

theorem spi_slave_sends:
  assumes "sp_mosi P" "sp_miso P" and "ss_at s = At_Port_In" and "T = xfer_of cb s" and "xfer_ok T"
    and "all_in_time cb P es (cs_isr cb P True s)"
    and "n = out_position P (shifts_made cb P es (cs_isr cb P True s))" and "0 < n"
  shows "miso_pin (spi_slave_run cb P es (cs_isr cb P True s)) = bit (out_byte T ((n - 1) div 8)) (7 - (n - 1) mod 8)"
proof -
  have "transacting P T [] 0 0 (cs_isr cb P True s)" using transacting_begins [OF assms(1,2)] assms(3-5) by simp
  then obtain r bs where "transacting P T bs (shifts_made cb P es (cs_isr cb P True s)) r (spi_slave_run cb P es (cs_isr cb P True s))"
    using transacting_run [OF assms(1,2,5) _ assms(6)] by fastforce
  then show ?thesis using assms(7,8) by (simp add: transacting_def bits_out_def Let_def out_bit_def)
qed

section \<open>Losses\<close>

text \<open>
  If the chip select is released after the loop has taken the last word from the port and before it has masked interrupts, the word is neither
  stored nor counted.
\<close>

lemma last_word_lost:
  assumes P: "sp_mosi P" and T: "transacting P T bs shifts r s" and "ss_at s = At_Masked" and "length bs = 32 * Suc r"
  shows "ss_memory (spi_slave_loop P (cs_isr cb P False s)) = in_memory T (bytes_of_bits (take (32 * r) bs))"
proof -
  have "mosi_word s = None" "mosi_shift s = []" and mem: "ss_memory s = in_memory T (bytes_of_bits (take (32 * r) bs))"
    using T assms(3,4) by (auto simp: transacting_def words_between_def Let_def)
  then have "ss_memory (cs_isr cb P False s) = ss_memory s" "\<not> running (cs_isr cb P False s)" "ss_at (cs_isr cb P False s) = At_Masked"
    using P assms(3) by (auto simp: cs_isr_def transaction_ends_def port_force_input_def receive_part_word_def Let_def case_prod_beta)
  then show ?thesis using mem by (simp add: spi_slave_loop_def Let_def)
qed

definition spi_sample_cb :: "(nat \<times> nat \<times> nat) spi_slave_callback_group" where
  "spi_sample_cb = \<lparr>slave_transaction_started = \<lambda>a ob ib. ((100, 4, 200, 4), a), slave_transaction_ended = \<lambda>a ob bw ib br bits. ((ob, ib), (bw, br, bits))\<rparr>"

definition mode_0 :: spi_slave_ports where
  "mode_0 = \<lparr>sp_mosi = True, sp_miso = True, sp_cpol = False, sp_cpha = False\<rparr>"

definition spi_sample_slave :: "(nat \<times> nat \<times> nat) spi_slave" where
  "spi_sample_slave = spi_slave_start mode_0 False (0, 0, 0) (\<lambda>i. 0xFF) (0, 0, 0)"

lemma mode_0_simps: "sp_mosi mode_0" "sp_miso mode_0" "\<not> sp_cpol mode_0" "\<not> sp_cpha mode_0"
  by (simp_all add: mode_0_def)

lemma sample_ended: "slave_transaction_ended spi_sample_cb a ob bw ib br bits = ((ob, ib), (bw, br, bits))"
  by (simp add: spi_sample_cb_def)

lemma spi_sample_slave_at: "ss_at (cs_isr spi_sample_cb mode_0 True spi_sample_slave) = At_Port_In"
  by (simp add: cs_isr_def transaction_begins_def preload_def get_next_word_def mode_0_def spi_sample_slave_def spi_slave_start_def spi_sample_cb_def Let_def)

lemma spi_sample_slave_clk: "\<not> clk_level (cs_isr spi_sample_cb mode_0 True spi_sample_slave)"
  by (simp add: cs_isr_def transaction_begins_def preload_def get_next_word_def mode_0_def spi_sample_slave_def spi_slave_start_def spi_sample_cb_def Let_def)

text \<open>Three clock periods with the bits 1, 0 and 1: no complete byte, and three bits in the first one.\<close>

definition three_bits :: "spi_event list" where
  "three_bits = [Ev_Sclk True True, Ev_Loop, Ev_Sclk False False, Ev_Sclk True False, Ev_Sclk False True, Ev_Sclk True True]"

lemma spi_sample_xfer: "xfer_of spi_sample_cb spi_sample_slave = \<lparr>xf_mem = \<lambda>i. 0xFF, xf_out = 100, xf_outlen = 4, xf_in = 200, xf_inlen = 4\<rparr>"
  by (simp add: xfer_of_def spi_sample_cb_def spi_sample_slave_def spi_slave_start_def)

lemma spi_sample_ports_ok: "sp_mosi mode_0" "sp_miso mode_0" "ss_at spi_sample_slave = At_Port_In" "xfer_ok (xfer_of spi_sample_cb spi_sample_slave)"
  unfolding spi_sample_xfer by (simp_all add: mode_0_def spi_sample_slave_def spi_slave_start_def xfer_ok_def)

lemma three_bits_in_time:
  "all_in_time spi_sample_cb mode_0 three_bits (cs_isr spi_sample_cb mode_0 True spi_sample_slave)"
  "ss_at (spi_slave_run spi_sample_cb mode_0 three_bits (cs_isr spi_sample_cb mode_0 True spi_sample_slave)) = At_Port_In"
  "mosi_word (spi_slave_run spi_sample_cb mode_0 three_bits (cs_isr spi_sample_cb mode_0 True spi_sample_slave)) = None"
  "[True, False, True] = bits_sampled spi_sample_cb mode_0 three_bits (cs_isr spi_sample_cb mode_0 True spi_sample_slave)"
proof -
  let ?s1 = "cs_isr spi_sample_cb mode_0 True spi_sample_slave" and ?T = "xfer_of spi_sample_cb spi_sample_slave"
  have begun: "transacting mode_0 ?T [] 0 0 ?s1" by (rule transacting_begins [OF spi_sample_ports_ok(1,2,4,3)])
  then have "miso_bits ?s1 = map (out_bit ?T) [Suc 0 ..< 64]" and at: "ss_at ?s1 = At_Port_In"
    by (simp_all add: transacting_def bits_out_def out_position_def spi_sample_slave_at mode_0_simps Let_def)
  moreover have "[Suc 0 ..< 64] = Suc 0 # 2 # 3 # [4 ..< 64]" by (simp add: upt_rec numeral_eq_Suc)
  ultimately obtain x y z zs where miso: "miso_bits ?s1 = x # y # z # zs" by simp
  have mosi: "mosi_shift ?s1 = []" "mosi_word ?s1 = None" "cs_val ?s1"
    using begun at by (auto simp: transacting_def words_between_def Let_def split: if_splits)
  note run = three_bits_def spi_slave_run_simps mode_0_simps sclk_level_def spi_slave_loop_def mosi_sample_def miso_shift_def Let_def at miso mosi spi_sample_slave_clk
  show "all_in_time spi_sample_cb mode_0 three_bits ?s1" by (simp add: run)
  show "[True, False, True] = bits_sampled spi_sample_cb mode_0 three_bits ?s1" by (simp add: run)
  show "ss_at (spi_slave_run spi_sample_cb mode_0 three_bits ?s1) = At_Port_In" "mosi_word (spi_slave_run spi_sample_cb mode_0 three_bits ?s1) = None"
    by (simp_all add: run)
qed

lemma some_count: "A \<and> (\<exists>w. l \<le> w \<and> w \<le> u \<and> x = f w) \<Longrightarrow> u \<le> v \<Longrightarrow> (\<And>w. f w = g w) \<Longrightarrow> \<exists>w \<le> v. x = g w"
  for u v :: nat
  by (elim conjE exE) (rule exI, rule conjI, erule (1) order_trans, simp)

theorem spi_slave_receives_witness:
  "\<exists>s' bytes_written. s' = spi_slave_run spi_sample_cb mode_0 three_bits (cs_isr spi_sample_cb mode_0 True spi_sample_slave)
    \<and> map (ss_memory (cs_isr spi_sample_cb mode_0 False s')) [199, 200, 204] = [0xFF, 5, 0xFF]
    \<and> bytes_written \<le> 4 \<and> ss_app (cs_isr spi_sample_cb mode_0 False s') = (bytes_written, 0, 3)"
proof -
  have part: "part_bytes [True, False, True] = [5]" by code_simp
  note r = spi_slave_receives [OF spi_sample_ports_ok(1-3) refl spi_sample_ports_ok(4) three_bits_in_time(1) refl three_bits_in_time(2,3,4) refl]
  let ?s = "cs_isr spi_sample_cb mode_0 False (spi_slave_run spi_sample_cb mode_0 three_bits (cs_isr spi_sample_cb mode_0 True spi_sample_slave))"
  have "map (ss_memory ?s) [199, 200, 204] = [0xFF, 5, 0xFF]"
    using r by (simp add: received_in_def spi_sample_xfer part)
  moreover have "\<exists>w \<le> 4. ss_app ?s = (w, 0, 3)"
    by (rule some_count [OF r]) (simp_all add: spi_sample_xfer sample_ended)
  ultimately show ?thesis by (elim exE conjE) (rule exI, rule exI, intro conjI, rule refl, assumption+)
qed

text \<open>
  In the same transaction the application is told that all four bytes of its output buffer had been written, of which not even one has gone out, and the three
  bytes of the input buffer behind the three bits are cleared.
\<close>

lemma fetched_bytes_counted:
  "ss_app (cs_isr spi_sample_cb mode_0 False (spi_slave_run spi_sample_cb mode_0 three_bits (cs_isr spi_sample_cb mode_0 True spi_sample_slave))) = (4, 0, 3)
    \<and> map (ss_memory (cs_isr spi_sample_cb mode_0 False (spi_slave_run spi_sample_cb mode_0 three_bits (cs_isr spi_sample_cb mode_0 True spi_sample_slave))))
        [199 ..< 205] = [0xFF, 5, 0, 0, 0, 0xFF]"
proof -
  let ?T = "xfer_of spi_sample_cb spi_sample_slave"
  have res: "xfer_result ?T [True, False, True] = (in_memory ?T [5, 0, 0, 0], 0, 3)"
  proof -
    have "padded (part_bytes [True, False, True]) = [5, 0, 0, 0]" by code_simp
    then show ?thesis by (simp add: xfer_result_def spi_sample_xfer)
  qed
  have "map (in_memory ?T [5, 0, 0, 0]) [199 ..< 205] = [0xFF, 5, 0, 0, 0, 0xFF]" unfolding spi_sample_xfer by code_simp
  then show ?thesis
    using spi_slave_result [OF spi_sample_ports_ok(1-3) refl spi_sample_ports_ok(4) three_bits_in_time(1) refl three_bits_in_time(2,3,4) res]
    by (simp add: spi_sample_xfer sample_ended)
qed

end
