(* ===== verification/Spi_Bus.thy ===== *)
theory Spi_Bus
  imports Spi_Hil Spi_Slave
begin

unbundle bit_operations_syntax

text \<open>
  The SPI master and the SPI slave on one bus: the master of Spi_Hil tick by tick on the lines, and at their other end
  the slave of Spi_Slave, on one of the chip selects. The loop of the slave keeps up with the bus.
\<close>

section \<open>The lines\<close>

text \<open>
  What the slave does in a tick: the interrupt if its chip select has changed, the edge of the clock if there is one, and
  the loop, which needs three steps for a word.
\<close>

definition slave_tick :: "'a spi_slave_callback_group \<Rightarrow> spi_slave_ports \<Rightarrow> nat \<Rightarrow> u32 \<times> bool \<times> bool \<Rightarrow> 'a spi_slave \<Rightarrow> 'a spi_slave" where
  "slave_tick cb P cs_pin line s =
     (let (cs, sclk, mosi) = line;
          selected = (\<not> bit cs cs_pin);
          s = (if selected \<noteq> cs_val s then spi_slave_event cb P (Ev_Cs selected) s else s)
      in spi_slave_run cb P [Ev_Sclk sclk mosi, Ev_Loop, Ev_Loop, Ev_Loop] s)"

text \<open>A list of ticks, with the level of MISO after each of them.\<close>

fun slave_ticks :: "'a spi_slave_callback_group \<Rightarrow> spi_slave_ports \<Rightarrow> nat \<Rightarrow> (u32 \<times> bool \<times> bool) list \<Rightarrow> 'a spi_slave \<Rightarrow> bool list \<times> 'a spi_slave" where
  "slave_ticks cb P cs_pin [] s = ([], s)"
| "slave_ticks cb P cs_pin (l # ls) s =
     (let s = slave_tick cb P cs_pin l s; (pins, s') = slave_ticks cb P cs_pin ls s in (miso_pin s # pins, s'))"

record 'a spi_bus =
  bus_master :: spi_master
  bus_slave :: "'a spi_slave"

text \<open>The slave follows what the master has put on the lines since \<open>old\<close>.\<close>

definition bus_follow :: "'a spi_slave_callback_group \<Rightarrow> spi_slave_ports \<Rightarrow> nat \<Rightarrow> spi_master \<Rightarrow> 'a spi_bus \<Rightarrow> bool list \<times> 'a spi_bus" where
  "bus_follow cb P cs_pin m b =
     (let (pins, s) = slave_ticks cb P cs_pin (drop (length (ms_trace (bus_master b))) (ms_trace m)) (bus_slave b)
      in (pins, \<lparr>bus_master = m, bus_slave = s\<rparr>))"

text \<open>
  The level of the slave reaches the master's port after the round trip that the device is configured for, \<open>miso_initial_trigger_delay\<close>
  ticks. A transfer starts when the counter is 1.
\<close>

definition miso_after :: "nat \<Rightarrow> bool list \<Rightarrow> nat \<Rightarrow> bool" where
  "miso_after delay pins counter = pins ! (counter - 1 - delay)"

definition bus_transfer ::
    "'a spi_slave_callback_group \<Rightarrow> spi_slave_ports \<Rightarrow> nat \<Rightarrow> spi_master_device \<Rightarrow> u32 \<Rightarrow> u8 list \<times> u8 list \<Rightarrow> 'a spi_bus \<Rightarrow> u8 list \<times> 'a spi_bus" where
  "bus_transfer cb P cs_pin dev tmp io b =
     (let (data_out, data_in) = io;
          m = snd (spi_master_transfer dev (Some data_out) (Some data_in) (length data_out) tmp (\<lambda>c. False) (bus_master b));
          (pins, b') = bus_follow cb P cs_pin m b;
          miso = miso_after (unat (dv_miso_initial_trigger_delay dev)) pins;
          (received, m) = spi_master_transfer dev (Some data_out) (Some data_in) (length data_out) tmp miso (bus_master b)
      in (the received, b'))"

fun bus_transfers ::
    "'a spi_slave_callback_group \<Rightarrow> spi_slave_ports \<Rightarrow> nat \<Rightarrow> spi_master_device \<Rightarrow> u32 \<Rightarrow> (u8 list \<times> u8 list) list \<Rightarrow> 'a spi_bus \<Rightarrow> u8 list list \<times> 'a spi_bus" where
  "bus_transfers cb P cs_pin dev tmp [] b = ([], b)"
| "bus_transfers cb P cs_pin dev tmp (io # ios) b =
     (let (received, b) = bus_transfer cb P cs_pin dev tmp io b; (rs, b) = bus_transfers cb P cs_pin dev tmp ios b in (received # rs, b))"

definition bus_transaction ::
    "'a spi_slave_callback_group \<Rightarrow> spi_slave_ports \<Rightarrow> nat \<Rightarrow> spi_master_device \<Rightarrow> u32 \<Rightarrow> (u8 list \<times> u8 list) list \<Rightarrow> 'a spi_bus \<Rightarrow> u8 list list \<times> 'a spi_bus" where
  "bus_transaction cb P cs_pin dev tmp ios b =
     (let (_, b) = bus_follow cb P cs_pin (spi_master_start_transaction dev (bus_master b)) b;
          (rs, b) = bus_transfers cb P cs_pin dev tmp ios b;
          (_, b) = bus_follow cb P cs_pin (spi_master_end_transaction dev (bus_master b)) b
      in (rs, b))"

section \<open>The slave keeps up\<close>

definition settled :: "'a spi_slave \<Rightarrow> bool" where
  "settled s \<longleftrightarrow> ss_at s = At_Port_In \<and> mosi_word s = None"

lemma loop_waits: "sp_mosi P \<Longrightarrow> settled s \<Longrightarrow> spi_slave_loop P s = s"
  by (simp add: settled_def spi_slave_loop_def)

lemma three_loops: "spi_slave_run cb P [Ev_Loop, Ev_Loop, Ev_Loop] s = spi_slave_loop P (spi_slave_loop P (spi_slave_loop P s))"
  by simp

lemma settles:
  assumes P: "sp_mosi P" "sp_miso P" and ok: "xfer_ok T" and T: "transacting P T bs shifts r s" and here: "ss_at s = At_Port_In"
    and pos: "length bs \<le> out_position P shifts"
  shows "\<exists>r'. transacting P T bs shifts r' (spi_slave_loop P (spi_slave_loop P (spi_slave_loop P s)))
    \<and> settled (spi_slave_loop P (spi_slave_loop P (spi_slave_loop P s)))"
proof (cases "mosi_word s")
  case None
  then have "settled s" using here by (simp add: settled_def)
  then show ?thesis using T loop_waits [OF P(1)] by metis
next
  case (Some w)
  define s1 where "s1 = spi_slave_loop P s"
  define s2 where "s2 = spi_slave_loop P s1"
  have "s1 = s\<lparr>in_word := w, mosi_word := None, ss_at := At_Masked\<rparr>"
    using Some here P by (simp add: s1_def spi_slave_loop_def)
  moreover from this have "ss_at s2 = At_Port_Out" "mosi_word s2 = mosi_word s1" "running s2 = running s1"
    by (simp_all add: s2_def spi_slave_loop_def Let_def get_next_word_def receive_word_def)
  ultimately have s2: "ss_at s2 = At_Port_Out" "mosi_word s2 = None" "running s2" using T by (auto simp: transacting_def)
  obtain r1 where "transacting P T bs shifts r1 s1" using transacting_loop [OF P ok T] s1_def by blast
  then obtain r2 where r2: "transacting P T bs shifts r2 s2" using transacting_loop [OF P ok] s2_def by blast
  then obtain r3 where r3: "transacting P T bs shifts r3 (spi_slave_loop P s2)" using transacting_loop [OF P ok] by blast
  have "32 * r2 \<le> length bs" "length (miso_bits s2) = 32 * Suc r2 - out_position P shifts"
    using r2 s2 by (simp_all add: transacting_def bits_out_def Let_def)
  then have "\<not> 32 < length (miso_bits s2)" using pos by simp
  then have "settled (spi_slave_loop P s2)" using s2 P by (simp add: settled_def spi_slave_loop_def)
  then show ?thesis using r3 by (auto simp: s2_def s1_def)
qed

text \<open>The slave between two bits: settled, the clock at its idle level, one shift for each bit.\<close>

definition between_bits :: "spi_slave_ports \<Rightarrow> spi_xfer \<Rightarrow> bool list \<Rightarrow> 'a spi_slave \<Rightarrow> bool" where
  "between_bits P T bs s \<longleftrightarrow> (\<exists>r. transacting P T bs (length bs) r s) \<and> settled s \<and> clk_level s = sp_cpha P"

lemma tick_selected:
  assumes "cs_val s" and "\<not> bit cs cs_pin"
  shows "slave_tick cb P cs_pin (cs, sclk, mosi) s
    = spi_slave_loop P (spi_slave_loop P (spi_slave_loop P (sclk_level P sclk mosi s)))"
  using assms by (simp add: slave_tick_def)

lemma settled_bits:
  assumes T: "transacting P T bs shifts r s" and "settled s" and "out_position P shifts \<le> Suc (length bs)"
  shows "miso_bits s \<noteq> []"
proof -
  have "length bs div 32 = r" "miso_bits s = map (out_bit T) [out_position P shifts ..< 32 * (r + 2)]"
    using T assms(2) by (auto simp: transacting_def words_between_def bits_out_def settled_def Let_def)
  moreover have "length bs < 32 * Suc (length bs div 32)" using dividend_less_times_div [of 32 "length bs"] by simp
  ultimately show ?thesis using assms(3) by simp
qed

lemma loop_pin [simp]: "miso_pin (spi_slave_loop P s) = miso_pin s" "clk_level (spi_slave_loop P s) = clk_level s" "cs_val (spi_slave_loop P s) = cs_val s"
  by (simp_all add: spi_slave_loop_def get_next_word_def receive_word_def Let_def split: loop_at.split option.split)

text \<open>One edge and the loop behind it.\<close>

lemma tick_edge:
  assumes P: "sp_mosi P" "sp_miso P" and ok: "xfer_ok T" and T: "transacting P T bs shifts r s" and "settled s" and "\<not> bit cs cs_pin"
    and time: "in_time P (Ev_Sclk sclk b) s"
    and pos: "length (bs @ sampled P (Ev_Sclk sclk b) s) \<le> out_position P (shifts + shifted P (Ev_Sclk sclk b) s)"
  shows "\<exists>r'. transacting P T (bs @ sampled P (Ev_Sclk sclk b) s) (shifts + shifted P (Ev_Sclk sclk b) s) r' (slave_tick cb P cs_pin (cs, sclk, b) s)
    \<and> settled (slave_tick cb P cs_pin (cs, sclk, b) s)
    \<and> clk_level (slave_tick cb P cs_pin (cs, sclk, b) s) = (sclk \<noteq> (sp_cpol P \<noteq> sp_cpha P))"
proof -
  define s1 where "s1 = sclk_level P sclk b s"
  have "cs_val s" using T by (simp add: transacting_def)
  then have tick: "slave_tick cb P cs_pin (cs, sclk, b) s = spi_slave_loop P (spi_slave_loop P (spi_slave_loop P s1))"
    unfolding s1_def using assms(6) by (rule tick_selected)
  obtain r1 where T1: "transacting P T (bs @ sampled P (Ev_Sclk sclk b) s) (shifts + shifted P (Ev_Sclk sclk b) s) r1 s1"
    using transacting_event [OF P ok T time] by (auto simp: s1_def)
  have "ss_at s1 = At_Port_In" "clk_level s1 = (sclk \<noteq> (sp_cpol P \<noteq> sp_cpha P))"
    using \<open>settled s\<close> by (auto simp: s1_def settled_def sclk_level_def mosi_sample_def miso_shift_def Let_def split: list.split)
  then show ?thesis unfolding tick using settles [OF P ok T1 _ pos] by simp
qed

lemma sampling_pin: "in_time P (Ev_Sclk sclk b) s \<Longrightarrow> shifted P (Ev_Sclk sclk b) s = 0 \<Longrightarrow> \<not> bit cs cs_pin \<Longrightarrow> cs_val s \<Longrightarrow>
    miso_pin (slave_tick cb P cs_pin (cs, sclk, b) s) = miso_pin s"
  by (auto simp: tick_selected sclk_level_def mosi_sample_def Let_def split: if_splits)

lemma pin_of:
  assumes "transacting P T bs shifts r s" and "0 < out_position P shifts"
  shows "miso_pin s = out_bit T (out_position P shifts - 1)"
  using assms by (simp add: transacting_def bits_out_def Let_def)

lemma tick_pair:
  assumes P: "sp_mosi P" "sp_miso P" and ok: "xfer_ok T" and b: "between_bits P T bs s" and sel: "\<not> bit cs cs_pin"
    and s1: "s1 = slave_tick cb P cs_pin (cs, \<not> sp_cpol P, x) s" and s2: "s2 = slave_tick cb P cs_pin (cs, sp_cpol P, y) s1"
  shows "between_bits P T (bs @ [if sp_cpha P then y else x]) s2"
    and "miso_pin (if sp_cpha P then s1 else s) = out_bit T (length bs)"
proof -
  obtain r where T: "transacting P T bs (length bs) r s" and se: "settled s" and clk: "clk_level s = sp_cpha P"
    using b by (auto simp: between_bits_def)
  have some: "miso_bits s \<noteq> []" using settled_bits [OF T se] by (simp add: out_position_def)
  have "between_bits P T (bs @ [if sp_cpha P then y else x]) s2 \<and> miso_pin (if sp_cpha P then s1 else s) = out_bit T (length bs)"
  proof (cases "sp_cpha P")
    case cpha: True
    obtain r1 where T1: "transacting P T bs (Suc (length bs)) r1 s1" and se1: "settled s1" "\<not> clk_level s1"
      using tick_edge [OF P ok T se sel, of "\<not> sp_cpol P" x] clk cpha some s1 by (auto simp: out_position_def)
    have "mosi_word s1 = None" using se1 by (simp add: settled_def)
    then obtain r2 where "transacting P T (bs @ [y]) (Suc (length bs)) r2 s2" "settled s2" "clk_level s2"
      using tick_edge [OF P ok T1 se1(1) sel, of "sp_cpol P" y] cpha se1 s2 by (auto simp: out_position_def)
    then show ?thesis using cpha pin_of [OF T1] by (auto simp: between_bits_def out_position_def)
  next
    case cpha: False
    have "mosi_word s = None" using se by (simp add: settled_def)
    then obtain r1 where T1: "transacting P T (bs @ [x]) (length bs) r1 s1" and se1: "settled s1" "clk_level s1"
      using tick_edge [OF P ok T se sel, of "\<not> sp_cpol P" x] clk cpha s1 by (auto simp: out_position_def)
    have "miso_bits s1 \<noteq> []" using settled_bits [OF T1 se1(1)] cpha by (simp add: out_position_def)
    then obtain r2 where "transacting P T (bs @ [x]) (Suc (length bs)) r2 s2" "settled s2" "\<not> clk_level s2"
      using tick_edge [OF P ok T1 se1(1) sel, of "sp_cpol P" y] cpha se1 s2 by (auto simp: out_position_def)
    then show ?thesis using cpha pin_of [OF T] by (auto simp: between_bits_def out_position_def)
  qed
  then show "between_bits P T (bs @ [if sp_cpha P then y else x]) s2" "miso_pin (if sp_cpha P then s1 else s) = out_bit T (length bs)"
    by blast+
qed

section \<open>A transfer\<close>

text \<open>Clock periods with any levels of MOSI: the slave samples one of the two levels of each, and its bits are on MISO.\<close>

lemma ticks_pairs:
  assumes P: "sp_mosi P" "sp_miso P" and ok: "xfer_ok T" and sel: "\<not> bit cs cs_pin"
  shows "between_bits P T bs s \<Longrightarrow> length ms = 2 * n \<Longrightarrow>
    slave_ticks cb P cs_pin (map (\<lambda>(c, d). (cs, c, d)) (zip (concat (replicate n [\<not> sp_cpol P, sp_cpol P])) ms)) s = (pins, s') \<Longrightarrow>
    between_bits P T (bs @ map (\<lambda>k. ms ! (2 * k + of_bool (sp_cpha P))) [0 ..< n]) s' \<and> length pins = 2 * n
    \<and> (\<forall>k < n. (miso_pin s # pins) ! (2 * k + of_bool (sp_cpha P)) = out_bit T (length bs + k))"
proof (induction n arbitrary: bs s ms pins)
  case 0
  then show ?case by simp
next
  case (Suc n)
  obtain x y ms' where ms: "ms = x # y # ms'" "length ms' = 2 * n"
    using Suc.prems(2) by (cases ms; cases "tl ms") auto
  define s1 where "s1 = slave_tick cb P cs_pin (cs, \<not> sp_cpol P, x) s"
  define s2 where "s2 = slave_tick cb P cs_pin (cs, sp_cpol P, y) s1"
  note pair = tick_pair [OF P ok Suc.prems(1) sel s1_def s2_def]
  obtain ps where ps: "slave_ticks cb P cs_pin (map (\<lambda>(c, d). (cs, c, d)) (zip (concat (replicate n [\<not> sp_cpol P, sp_cpol P])) ms')) s2 = (ps, s')"
      "pins = miso_pin s1 # miso_pin s2 # ps"
    using Suc.prems(3) ms by (auto simp: s1_def s2_def Let_def split: prod.splits)
  note ih = Suc.IH [OF pair(1) ms(2) ps(1)]
  have "map (\<lambda>k. ms ! (2 * k + of_bool (sp_cpha P))) [0 ..< Suc n] = (if sp_cpha P then y else x) # map (\<lambda>k. ms' ! (2 * k + of_bool (sp_cpha P))) [0 ..< n]"
    by (simp add: ms map_upt_Suc del: upt_Suc)
  moreover have "(miso_pin s # pins) ! (2 * k + of_bool (sp_cpha P)) = out_bit T (length bs + k)" if k: "k < Suc n" for k
  proof (cases k)
    case 0
    then show ?thesis using pair(2) ps(2) by (cases "sp_cpha P") simp_all
  next
    case (Suc j)
    then have "(miso_pin s2 # ps) ! (2 * j + of_bool (sp_cpha P)) = out_bit T (length bs + k)" using ih k by simp
    then show ?thesis using Suc ps(2) by simp
  qed
  ultimately show ?case using ih ps(2) by simp
qed

lemma idle_tick:
  assumes "sp_mosi P" and "between_bits P T bs s" and "\<not> bit cs cs_pin" and "(sclk \<noteq> (sp_cpol P \<noteq> sp_cpha P)) = sp_cpha P"
  shows "slave_tick cb P cs_pin (cs, sclk, mosi) s = s"
proof -
  have s: "settled s" "clk_level s = sp_cpha P" "cs_val s" using assms(2) by (auto simp: between_bits_def transacting_def)
  then have "sclk_level P sclk mosi s = s" using assms(4) by (simp add: sclk_level_def Let_def)
  moreover have "spi_slave_loop P s = s" using loop_waits [OF assms(1) s(1)] .
  ultimately show ?thesis using s(3) assms(3) by (simp add: tick_selected)
qed

lemma slave_ticks_append:
  "slave_ticks cb P cs_pin (xs @ ys) s = (let (p, s') = slave_ticks cb P cs_pin xs s; (q, s'') = slave_ticks cb P cs_pin ys s' in (p @ q, s''))"
  by (induction xs arbitrary: s) (auto simp: Let_def split: prod.splits)

text \<open>The device and the slave agree on the mode, and the master's clock is idle.\<close>

definition same_mode :: "spi_master_device \<Rightarrow> spi_slave_ports \<Rightarrow> bool" where
  "same_mode dev P \<longleftrightarrow> dv_clock_bits dev = (if sp_cpol P then 0xAAAAAAAA else 0x55555555) \<and> dv_clock_delay dev = (if sp_cpha P then 0 else 1)"

lemma transfer_lines:
  assumes "same_mode dev P" and "data \<noteq> []" and "ms_has_mosi m"
  shows "spi_transfer_lines dev (Some data) (length data) m
    = (if sp_cpha P then zip (concat (replicate (8 * length data) [\<not> sp_cpol P, sp_cpol P])) (doubled (serial_bits data))
       else (ms_sclk m, hd (serial_bits data)) # zip (concat (replicate (8 * length data) [\<not> sp_cpol P, sp_cpol P]))
              (tl (doubled (serial_bits data)) @ [last (serial_bits data)]))"
proof -
  have len: "0 < length data" using assms(2) by simp
  have sclk: "words_bits (sclk_words dev (length data)) = concat (replicate (8 * length data) [\<not> sp_cpol P, sp_cpol P])"
    using sclk_line [OF len] assms(1) by (simp add: same_mode_def)
  have mosi: "words_bits (mosi_words data (length data)) = doubled (serial_bits data)"
    using mosi_line [OF len] by simp
  have lsclk: "length (concat (replicate n [\<not> sp_cpol P, sp_cpol P])) = 2 * n" for n by (induction n) simp_all
  obtain b bs where bits: "serial_bits data = b # bs" using assms(2) by (cases "serial_bits data") (auto dest: arg_cong [where f = length])
  have "last (x # doubled (c # cs)) = last (c # cs)" for x c and cs :: "bool list" by (induction cs arbitrary: x c) auto
  then have "last (ms_mosi m # doubled (serial_bits data)) = last (serial_bits data)" unfolding bits .
  then show ?thesis
    using assms(1,3) by (simp add: spi_transfer_lines_def Let_def sclk mosi same_mode_def lsclk) (simp add: bits)
qed

lemma transfer_ticks:
  assumes P: "sp_mosi P" "sp_miso P" and ok: "xfer_ok T" and sel: "\<not> bit cs cs_pin" and mode: "same_mode dev P" and "data \<noteq> []"
    and m: "ms_has_mosi m" "ms_sclk m = sp_cpol P" and b: "between_bits P T bs s"
    and run: "slave_ticks cb P cs_pin (map (\<lambda>(c, d). (cs, c, d)) (spi_transfer_lines dev (Some data) (length data) m)) s = (pins, s')"
  shows "between_bits P T (bs @ serial_bits data) s'" and "\<forall>k < 8 * length data. pins ! (2 * k) = out_bit T (length bs + k)"
proof -
  let ?n = "8 * length data" and ?d = "doubled (serial_bits data)"
  define ms where "ms = (if sp_cpha P then ?d else tl ?d @ [last (serial_bits data)])"
  have len: "length ms = 2 * ?n" using assms(6) by (simp add: ms_def)
  have "ms ! (2 * k + of_bool (sp_cpha P)) = serial_bits data ! k" if "k < ?n" for k
  proof (cases "sp_cpha P")
    case True
    then show ?thesis using that by (simp add: ms_def nth_doubled)
  next
    case False
    have "2 * k < 16 * length data - Suc 0" using that by linarith
    then have "ms ! (2 * k) = ?d ! Suc (2 * k)" using False by (simp add: ms_def nth_append nth_tl)
    then show ?thesis using that False by (simp add: nth_doubled)
  qed
  then have data: "map (\<lambda>k. ms ! (2 * k + of_bool (sp_cpha P))) [0 ..< ?n] = serial_bits data"
    by (intro nth_equalityI) simp_all
  let ?L = "map (\<lambda>(c, d). (cs, c, d)) (zip (concat (replicate ?n [\<not> sp_cpol P, sp_cpol P])) ms)"
  obtain ps s1 where ps: "slave_ticks cb P cs_pin ?L s = (ps, s1)" by fastforce
  note pairs = ticks_pairs [OF P ok sel b len ps]
  have lines: "map (\<lambda>(c, d). (cs, c, d)) (spi_transfer_lines dev (Some data) (length data) m)
      = (if sp_cpha P then ?L else (cs, sp_cpol P, hd (serial_bits data)) # ?L)"
    using transfer_lines [OF mode assms(6) m(1)] m(2) by (simp add: ms_def)
  have "(pins, s') = (if sp_cpha P then (ps, s1) else (miso_pin s # ps, s1))"
  proof (cases "sp_cpha P")
    case True
    then show ?thesis using run ps unfolding lines by simp
  next
    case False
    have "slave_tick cb P cs_pin (cs, sp_cpol P, hd (serial_bits data)) s = s"
      using False by (intro idle_tick [OF P(1) b sel]) simp
    then show ?thesis using False run ps unfolding lines by (simp add: Let_def)
  qed
  then show "between_bits P T (bs @ serial_bits data) s'" "\<forall>k < ?n. pins ! (2 * k) = out_bit T (length bs + k)"
    using pairs data by (auto split: if_splits)
qed

lemma out_bytes_serial: "serial_bits (map (out_byte T) [k ..< k + n]) = map (out_bit T) [8 * k ..< 8 * k + 8 * n]"
proof (rule nth_equalityI)
  fix i assume "i < length (serial_bits (map (out_byte T) [k ..< k + n]))"
  then have i: "i < 8 * n" by simp
  have "(8 * a + b) div 8 = a + b div 8" "(8 * a + b) mod 8 = b mod 8" for a b :: nat by simp_all
  moreover have "i div 8 < n" using i by auto
  ultimately show "serial_bits (map (out_byte T) [k ..< k + n]) ! i = map (out_bit T) [8 * k ..< 8 * k + 8 * n] ! i"
    using i by (simp add: nth_serial_bits out_bit_def)
qed simp

definition master_ready :: "spi_master_device \<Rightarrow> spi_slave_ports \<Rightarrow> spi_master \<Rightarrow> bool" where
  "master_ready dev P m \<longleftrightarrow> ms_has_mosi m \<and> ms_has_miso m \<and> ms_cs m = dv_cs_assert_val dev \<and> ms_sclk m = sp_cpol P
     \<and> ms_current_device m = dv_cs_assert_val dev"

lemma lines_last:
  assumes "same_mode dev P" and "data \<noteq> []" and "ms_has_mosi m"
  shows "fst (last (spi_transfer_lines dev (Some data) (length data) m)) = sp_cpol P"
    and "spi_transfer_lines dev (Some data) (length data) m \<noteq> []"
proof -
  have last_zip: "fst (last (zip xs ys)) = last xs \<and> zip xs ys \<noteq> []" if "length xs = length ys" "xs \<noteq> []" for xs :: "bool list" and ys :: "bool list"
    using that by (induction xs ys rule: list_induct2) (auto split: if_splits)
  have lsclk: "length (concat (replicate n [\<not> sp_cpol P, sp_cpol P])) = 2 * n" for n by (induction n) simp_all
  have idle: "last (concat (replicate (Suc n) [\<not> sp_cpol P, sp_cpol P])) = sp_cpol P" for n by (induction n) simp_all
  obtain n where n: "8 * length data = Suc n" using assms(2) by (cases "8 * length data") auto
  have ne: "concat (replicate (Suc n) [\<not> sp_cpol P, sp_cpol P]) \<noteq> []" by simp
  have l: "length (doubled (serial_bits data)) = 2 * Suc n" using n by simp
  show "fst (last (spi_transfer_lines dev (Some data) (length data) m)) = sp_cpol P" "spi_transfer_lines dev (Some data) (length data) m \<noteq> []"
    unfolding transfer_lines [OF assms] n
    using last_zip [of "concat (replicate (Suc n) [\<not> sp_cpol P, sp_cpol P])"] idle [of n] ne l lsclk [of "Suc n"] by auto
qed

lemma bus_transfer_exchanges:
  assumes P: "sp_mosi P" "sp_miso P" and ok: "xfer_ok T" and sel: "\<not> bit (dv_cs_assert_val dev) cs_pin" and mode: "same_mode dev P"
    and m: "master_ready dev P (bus_master b)" and s: "between_bits P T bs (bus_slave b)" and bs: "length bs = 8 * k"
    and x: "bus_transfer cb P cs_pin dev tmp (data_out, data_in) b = (received, b')"
  shows "received = splice 0 (map (out_byte T) [k ..< k + length data_out]) data_in"
    and "between_bits P T (bs @ serial_bits data_out) (bus_slave b')" and "master_ready dev P (bus_master b')"
proof -
  let ?m = "bus_master b" and ?len = "length data_out"
  have "received = splice 0 (map (out_byte T) [k ..< k + ?len]) data_in
      \<and> between_bits P T (bs @ serial_bits data_out) (bus_slave b') \<and> master_ready dev P (bus_master b')"
  proof (cases "data_out = []")
    case True
    then show ?thesis using x m s by (auto simp: bus_transfer_def spi_master_transfer_def bus_follow_def)
  next
    case False
    define m0 where "m0 = ?m\<lparr>ms_delay_before_transfer := False\<rparr>"
    define ticks where "ticks = spi_transfer_lines dev (Some data_out) ?len m0"
    define m' where "m' = snd (spi_master_transfer dev (Some data_out) (Some data_in) ?len tmp (\<lambda>c. False) ?m)"
    have m'_any: "spi_master_transfer dev (Some data_out) (Some data_in) ?len tmp miso ?m = (Some (splice 0 (spi_data_in dev tmp miso ?len) data_in), m')" for miso
      using False m by (simp add: m'_def spi_master_transfer_def Let_def master_ready_def split: prod.split)
    have trace: "drop (length (ms_trace ?m)) (ms_trace m') = map (\<lambda>(c, d). (dv_cs_assert_val dev, c, d)) ticks"
      using False m by (simp add: m'_def spi_master_transfer_def Let_def ticks_def m0_def master_ready_def split: prod.split)
    obtain pins s' where run: "slave_ticks cb P cs_pin (map (\<lambda>(c, d). (dv_cs_assert_val dev, c, d)) ticks) (bus_slave b) = (pins, s')" by fastforce
    have m0: "ms_has_mosi m0" "ms_sclk m0 = sp_cpol P" using m by (simp_all add: m0_def master_ready_def)
    note tt = transfer_ticks [OF P ok sel mode False m0 s run [unfolded ticks_def]]
    let ?d = "unat (dv_miso_initial_trigger_delay dev)"
    have b': "b' = \<lparr>bus_master = m', bus_slave = s'\<rparr>" "received = splice 0 (spi_data_in dev tmp (miso_after ?d pins) ?len) data_in"
      using x by (auto simp: bus_transfer_def bus_follow_def trace run [simplified] m'_any Let_def)
    have "serial_bits (spi_data_in dev tmp (miso_after ?d pins) ?len) = map (\<lambda>j. miso_after ?d pins (?d + 2 * j + 1)) [0 ..< 8 * ?len]"
      using False by (intro spi_data_in_bits) simp_all
    also have "\<dots> = map (out_bit T) [8 * k ..< 8 * k + 8 * ?len]"
      using tt(2) bs by (intro nth_equalityI) (simp_all add: miso_after_def)
    also have "\<dots> = serial_bits (map (out_byte T) [k ..< k + ?len])" by (simp only: out_bytes_serial)
    finally have "spi_data_in dev tmp (miso_after ?d pins) ?len = map (out_byte T) [k ..< k + ?len]"
      by (metis bytes_of_serial_bits)
    moreover have "master_ready dev P m'"
      using False m lines_last [OF mode False m0(1)] 
      by (simp add: m'_def spi_master_transfer_def Let_def master_ready_def ticks_def m0_def case_prod_beta)
    ultimately show ?thesis using b' tt(1) by simp
  qed
  then show "received = splice 0 (map (out_byte T) [k ..< k + length data_out]) data_in"
    and "between_bits P T (bs @ serial_bits data_out) (bus_slave b')" and "master_ready dev P (bus_master b')" by blast+
qed

section \<open>A transaction\<close>

lemma loop_app [simp]: "ss_app (spi_slave_loop P s) = ss_app s" "ss_app (sclk_level P c d s) = ss_app s" "cs_val (sclk_level P c d s) = cs_val s"
  by (simp_all add: spi_slave_loop_def get_next_word_def receive_word_def sclk_level_def mosi_sample_def miso_shift_def Let_def
      split: loop_at.split option.split list.split)

lemma tick_app: "cs_val s \<Longrightarrow> \<not> bit cs cs_pin \<Longrightarrow> ss_app (slave_tick cb P cs_pin (cs, c, d) s) = ss_app s \<and> cs_val (slave_tick cb P cs_pin (cs, c, d) s)"
  by (simp add: tick_selected)

lemma ticks_app:
  "cs_val s \<Longrightarrow> \<not> bit cs cs_pin \<Longrightarrow> slave_ticks cb P cs_pin (map (\<lambda>(c, d). (cs, c, d)) ls) s = (pins, s') \<Longrightarrow> ss_app s' = ss_app s"
proof (induction ls arbitrary: s pins)
  case (Cons l ls)
  obtain c d where l: "l = (c, d)" by fastforce
  then obtain ps where "slave_ticks cb P cs_pin (map (\<lambda>(c, d). (cs, c, d)) ls) (slave_tick cb P cs_pin (cs, c, d) s) = (ps, s')"
    using Cons.prems(3) by (auto simp: Let_def split: prod.splits)
  then show ?case using Cons.IH tick_app [OF Cons.prems(1,2)] Cons.prems(2) by metis
qed simp

lemma bus_transfer_app:
  assumes "cs_val (bus_slave b)" and "\<not> bit (dv_cs_assert_val dev) cs_pin" and "ms_cs (bus_master b) = dv_cs_assert_val dev"
    and "bus_transfer cb P cs_pin dev tmp (data_out, data_in) b = (received, b')"
  shows "ss_app (bus_slave b') = ss_app (bus_slave b)"
proof -
  let ?m = "bus_master b"
  define m' where "m' = snd (spi_master_transfer dev (Some data_out) (Some data_in) (length data_out) tmp (\<lambda>c. False) ?m)"
  have "\<exists>ls. drop (length (ms_trace ?m)) (ms_trace m') = map (\<lambda>(c, d). (dv_cs_assert_val dev, c, d)) ls"
    using assms(3) by (auto simp: m'_def spi_master_transfer_def Let_def split: prod.split)
  then obtain ls where ls: "drop (length (ms_trace ?m)) (ms_trace m') = map (\<lambda>(c, d). (dv_cs_assert_val dev, c, d)) ls" ..
  obtain pins s' where run: "slave_ticks cb P cs_pin (map (\<lambda>(c, d). (dv_cs_assert_val dev, c, d)) ls) (bus_slave b) = (pins, s')" by fastforce
  have "bus_slave b' = s'"
    using assms(4) run by (auto simp: bus_transfer_def bus_follow_def Let_def ls m'_def [symmetric] split: prod.splits)
  then show ?thesis using ticks_app [OF assms(1,2) run] by simp
qed

lemma bus_transfers_exchange:
  assumes P: "sp_mosi P" "sp_miso P" and ok: "xfer_ok T" and sel: "\<not> bit (dv_cs_assert_val dev) cs_pin" and mode: "same_mode dev P"
  shows "master_ready dev P (bus_master b) \<Longrightarrow> between_bits P T (serial_bits ds) (bus_slave b) \<Longrightarrow>
    list_all (\<lambda>(data_out, data_in). length data_in = length data_out) ios \<Longrightarrow> bus_transfers cb P cs_pin dev tmp ios b = (rs, b') \<Longrightarrow>
    concat rs = map (out_byte T) [length ds ..< length ds + length (concat (map fst ios))]
    \<and> between_bits P T (serial_bits (ds @ concat (map fst ios))) (bus_slave b') \<and> master_ready dev P (bus_master b')
    \<and> ss_app (bus_slave b') = ss_app (bus_slave b)"
proof (induction ios arbitrary: b ds rs)
  case Nil
  then show ?case by simp
next
  case (Cons io ios)
  obtain data_out data_in where io: "io = (data_out, data_in)" by fastforce
  obtain received b1 where x: "bus_transfer cb P cs_pin dev tmp (data_out, data_in) b = (received, b1)" by fastforce
  obtain rs' where rs: "bus_transfers cb P cs_pin dev tmp ios b1 = (rs', b')" "rs = received # rs'"
    using Cons.prems(4) x by (auto simp: io split: prod.splits)
  have "cs_val (bus_slave b)" using Cons.prems(2) by (auto simp: between_bits_def transacting_def)
  then have app: "ss_app (bus_slave b1) = ss_app (bus_slave b)"
    using bus_transfer_app [OF _ sel _ x] Cons.prems(1) by (simp add: master_ready_def)
  have "length (serial_bits ds) = 8 * length ds" by simp
  note one = bus_transfer_exchanges [OF P ok sel mode Cons.prems(1,2) this x]
  have received: "received = map (out_byte T) [length ds ..< length ds + length data_out]"
    using one(1) Cons.prems(3) io by (simp add: splice_def)
  have b1: "between_bits P T (serial_bits (ds @ data_out)) (bus_slave b1)" using one(2) by simp
  have "map (out_byte T) [length ds ..< length ds + length data_out] @ map (out_byte T) [length ds + length data_out ..< length ds + length data_out + n]
      = map (out_byte T) [length ds ..< length ds + (length data_out + n)]" for n
    by (metis add.assoc le_add1 map_append upt_add_eq_append)
  then show ?case using Cons.IH [OF one(3) b1 _ rs(1)] Cons.prems(3) io rs(2) received app by simp
qed

text \<open>The bus between transactions: nobody is selected, and the slave sees the levels of the lines.\<close>

definition bus_idle :: "spi_master_device \<Rightarrow> spi_slave_ports \<Rightarrow> 'a spi_bus \<Rightarrow> bool" where
  "bus_idle dev P b \<longleftrightarrow>
     (let m = bus_master b; s = bus_slave b
      in ms_has_mosi m \<and> ms_has_miso m \<and> ms_cs m = 0xFFFFFFFF
         \<and> (if ms_current_device m = dv_cs_assert_val dev then ms_sclk m = sp_cpol P \<and> clk_level s = sp_cpha P else True)
         \<and> settled s \<and> \<not> cs_val s)"

lemma cs_all: "cs_pin < 32 \<Longrightarrow> bit (0xFFFFFFFF :: u32) cs_pin"
proof -
  have "(0xFFFFFFFF :: u32) = mask 32" by code_simp
  then show "cs_pin < 32 \<Longrightarrow> bit (0xFFFFFFFF :: u32) cs_pin" by (simp only: bit_mask_iff) simp
qed

lemma unselected_tick:
  assumes "sp_mosi P" "settled s" "\<not> cs_val s" "bit cs cs_pin"
  shows "slave_tick cb P cs_pin (cs, sclk, mosi) s = s\<lparr>clk_level := (sclk \<noteq> (sp_cpol P \<noteq> sp_cpha P))\<rparr>"
proof -
  define s1 where "s1 = s\<lparr>clk_level := (sclk \<noteq> (sp_cpol P \<noteq> sp_cpha P))\<rparr>"
  have "sclk_level P sclk mosi s = s1" using assms(3) by (simp add: s1_def sclk_level_def Let_def)
  moreover have "spi_slave_loop P s1 = s1" using assms(2) by (intro loop_waits [OF assms(1)]) (simp add: s1_def settled_def)
  ultimately show ?thesis using assms(3,4) by (simp add: slave_tick_def) (simp add: s1_def)
qed

lemma device_mode: "same_mode (spi_master_device_init cs_pin (sp_cpol P) (sp_cpha P) src cdiv sd pd a b c) P"
  by (simp add: same_mode_def spi_master_device_init_def)

lemma device_select:
  "cs_pin < 32 \<Longrightarrow> \<not> bit (dv_cs_assert_val (spi_master_device_init cs_pin cpol cpha src cdiv sd pd a b c)) cs_pin"
  by (simp add: spi_master_device_init_def bit_simps)

lemma preload_fields [simp]: "clk_level (preload cpha s) = clk_level s" "ss_at (preload cpha s) = ss_at s" "ss_app (preload cpha s) = ss_app s"
  by (simp_all add: preload_def get_next_word_state case_prod_beta Let_def)

lemma begins_fields: "clk_level (cs_isr cb P True s) = clk_level s" "ss_at (cs_isr cb P True s) = ss_at s"
  "ss_app (cs_isr cb P True s) = snd (slave_transaction_started cb (ss_app s) (out_buf s) (in_buf s))"
  by (simp_all add: cs_isr_def transaction_begins_def case_prod_beta Let_def)

lemma selecting_tick:
  assumes P: "sp_mosi P" "sp_miso P" and ok: "xfer_ok (xfer_of cb s)" and "settled s" "\<not> cs_val s" "clk_level s = sp_cpha P" "\<not> bit cs cs_pin"
  shows "between_bits P (xfer_of cb s) [] (slave_tick cb P cs_pin (cs, sp_cpol P, mosi) s)"
    and "ss_app (slave_tick cb P cs_pin (cs, sp_cpol P, mosi) s) = ss_app (cs_isr cb P True s)"
proof -
  let ?s = "cs_isr cb P True s"
  have T: "transacting P (xfer_of cb s) [] 0 0 ?s" using transacting_begins [OF P ok] assms(4) by (simp add: settled_def)
  note begins_fields [of cb P s]
  then have b: "between_bits P (xfer_of cb s) [] ?s"
    using T assms(4,6) by (auto simp: between_bits_def settled_def transacting_def words_between_def)
  have "slave_tick cb P cs_pin (cs, sp_cpol P, mosi) s = slave_tick cb P cs_pin (cs, sp_cpol P, mosi) ?s"
    using assms(5,7) T by (simp add: slave_tick_def transacting_def)
  also have "\<dots> = ?s" using idle_tick [OF P(1) b assms(7)] by blast
  finally show "between_bits P (xfer_of cb s) [] (slave_tick cb P cs_pin (cs, sp_cpol P, mosi) s)"
    "ss_app (slave_tick cb P cs_pin (cs, sp_cpol P, mosi) s) = ss_app ?s" using b by simp_all
qed

lemma start_follows:
  assumes P: "sp_mosi P" "sp_miso P" and pin: "cs_pin < 32" and dev: "dev = spi_master_device_init cs_pin (sp_cpol P) (sp_cpha P) src cdiv sd pd x y z"
    and idle: "bus_idle dev P b" and T: "T = xfer_of cb (bus_slave b)" and ok: "xfer_ok T"
    and f: "bus_follow cb P cs_pin (spi_master_start_transaction dev (bus_master b)) b = (pins, b')"
  shows "master_ready dev P (bus_master b')" and "between_bits P T [] (bus_slave b')" and "ss_app (bus_slave b') = ss_app (cs_isr cb P True (bus_slave b))"
proof -
  let ?m = "bus_master b" and ?s = "bus_slave b"
  have s: "settled ?s" "\<not> cs_val ?s" and m: "ms_has_mosi ?m" "ms_has_miso ?m" "ms_cs ?m = 0xFFFFFFFF"
    using idle by (simp_all add: bus_idle_def Let_def)
  have sel: "\<not> bit (dv_cs_assert_val dev) cs_pin" unfolding dev by (rule device_select [OF pin])
  have lvl: "bit (drop_bit 1 (dv_clock_bits dev)) 0 = sp_cpol P"
  proof -
    have "bit (drop_bit 1 (0xAAAAAAAA :: u32)) 0" "\<not> bit (drop_bit 1 (0x55555555 :: u32)) 0" by code_simp+
    then show ?thesis by (simp add: dev spi_master_device_init_def)
  qed
  define s0 where "s0 = ?s\<lparr>clk_level := sp_cpha P\<rparr>"
  have x: "xfer_of cb s0 = T" by (simp add: T xfer_of_def s0_def)
  have s0: "settled s0" "\<not> cs_val s0" "clk_level s0 = sp_cpha P" using s by (simp_all add: s0_def settled_def)
  note select = selecting_tick [OF P ok [folded x] s0 sel, unfolded x]
  have app: "ss_app (cs_isr cb P True s0) = ss_app (cs_isr cb P True ?s)"
    unfolding begins_fields by (simp add: s0_def)
  have "\<exists>mosi. drop (length (ms_trace ?m)) (ms_trace (spi_master_start_transaction dev ?m))
      = (if dv_cs_assert_val dev \<noteq> ms_current_device ?m then [(0xFFFFFFFF, sp_cpol P, mosi)] else []) @ [(dv_cs_assert_val dev, sp_cpol P, mosi)]
      \<and> master_ready dev P (spi_master_start_transaction dev ?m)"
    using m idle lvl by (auto simp: spi_master_start_transaction_def spi_master_delay_before_next_transfer_def spi_tick_def master_ready_def bus_idle_def Let_def)
  then obtain mosi where tr: "drop (length (ms_trace ?m)) (ms_trace (spi_master_start_transaction dev ?m))
      = (if dv_cs_assert_val dev \<noteq> ms_current_device ?m then [(0xFFFFFFFF, sp_cpol P, mosi)] else []) @ [(dv_cs_assert_val dev, sp_cpol P, mosi)]"
      and ready: "master_ready dev P (spi_master_start_transaction dev ?m)" by blast
  have first: "slave_tick cb P cs_pin (0xFFFFFFFF, sp_cpol P, mosi) ?s = s0"
  proof -
    have "(sp_cpol P = (sp_cpol P = sp_cpha P)) = sp_cpha P" by auto
    then show ?thesis using unselected_tick [OF P(1) s cs_all [OF pin], of cb "sp_cpol P" mosi] by (simp add: s0_def)
  qed
  have "dv_cs_assert_val dev = ms_current_device ?m \<Longrightarrow> ?s = s0" using idle by (simp add: bus_idle_def s0_def Let_def)
  then have "b' = \<lparr>bus_master = spi_master_start_transaction dev ?m, bus_slave = slave_tick cb P cs_pin (dv_cs_assert_val dev, sp_cpol P, mosi) s0\<rparr>"
    using f first by (auto simp: bus_follow_def tr Let_def split: if_splits)
  then show "master_ready dev P (bus_master b')" "between_bits P T [] (bus_slave b')" "ss_app (bus_slave b') = ss_app (cs_isr cb P True ?s)"
    using ready select app by simp_all
qed

lemma part_bytes_serial [simp]: "part_bytes (serial_bits ds) = ds"
  by (simp add: part_bytes_def)

lemma end_follows:
  assumes P: "sp_mosi P" "sp_miso P" and pin: "cs_pin < 32"
    and m: "master_ready dev P (bus_master b)" and s: "between_bits P T (serial_bits ds) (bus_slave b)"
    and f: "bus_follow cb P cs_pin (spi_master_end_transaction dev (bus_master b)) b = (pins, b')"
  shows "bus_idle dev P b'" and "ss_memory (bus_slave b') = in_memory T (padded ds)"
    and "ss_app (bus_slave b') = snd (slave_transaction_ended cb (ss_app (bus_slave b)) (xf_out T)
      (min (4 * (length ds div 4 + 2)) (xf_outlen T)) (xf_in T) (min (length ds) (xf_inlen T)) 0)"
proof -
  let ?m = "bus_master b" and ?s = "bus_slave b"
  obtain r where T: "transacting P T (serial_bits ds) (8 * length ds) r ?s" and se: "settled ?s" and clk: "clk_level ?s = sp_cpha P"
    using s by (auto simp: between_bits_def)
  have res: "xfer_result T (serial_bits ds) = (in_memory T (padded ds), min (length ds) (xf_inlen T), 0)"
    by (simp add: xfer_result_def Let_def)
  obtain ob ib a where app: "slave_transaction_ended cb (ss_app ?s) (xf_out T) (min (4 * (length (serial_bits ds) div 32 + 2)) (xf_outlen T)) (xf_in T)
      (min (length ds) (xf_inlen T)) 0 = ((ob, ib), a)" by (metis prod.collapse)
  have fin: "cs_isr cb P False ?s = ?s\<lparr>cs_val := False, ss_memory := in_memory T (padded ds), in_buf_cur := xf_in T + min (length ds) (xf_inlen T),
     mosi_shift := [], mosi_word := None, miso_bits := [], running := False, ss_app := a, out_buf := ob, in_buf := ib\<rparr>"
    using transacting_end [OF P T _ _ res app] se by (simp add: settled_def)
  define s1 where "s1 = cs_isr cb P False ?s"
  have s1: "settled s1" "\<not> cs_val s1" "clk_level s1 = sp_cpha P" "ss_memory s1 = in_memory T (padded ds)" "ss_app s1 = a"
    using se clk by (simp_all add: s1_def fin settled_def)
  have "cs_val ?s" using T by (simp add: transacting_def)
  then have "slave_tick cb P cs_pin (0xFFFFFFFF, ms_sclk ?m, ms_mosi ?m) ?s = slave_tick cb P cs_pin (0xFFFFFFFF, ms_sclk ?m, ms_mosi ?m) s1"
    using cs_all [OF pin] s1(2) by (simp add: slave_tick_def s1_def)
  also have "\<dots> = s1\<lparr>clk_level := (ms_sclk ?m \<noteq> (sp_cpol P \<noteq> sp_cpha P))\<rparr>"
    by (rule unselected_tick [OF P(1) s1(1,2) cs_all [OF pin]])
  finally have tick: "slave_tick cb P cs_pin (0xFFFFFFFF, ms_sclk ?m, ms_mosi ?m) ?s = s1\<lparr>clk_level := (ms_sclk ?m \<noteq> (sp_cpol P \<noteq> sp_cpha P))\<rparr>" .
  have b': "b' = \<lparr>bus_master = spi_master_end_transaction dev ?m, bus_slave = s1\<lparr>clk_level := (ms_sclk ?m \<noteq> (sp_cpol P \<noteq> sp_cpha P))\<rparr>\<rparr>"
    using f tick by (simp add: bus_follow_def spi_master_end_transaction_def spi_tick_def)
  have "length (serial_bits ds) div 32 = length ds div 4" by simp
  then show "ss_app (bus_slave b') = snd (slave_transaction_ended cb (ss_app ?s) (xf_out T)
      (min (4 * (length ds div 4 + 2)) (xf_outlen T)) (xf_in T) (min (length ds) (xf_inlen T)) 0)"
    using app s1(5) b' by simp
  show "ss_memory (bus_slave b') = in_memory T (padded ds)" using b' s1(4) by simp
  have "(sp_cpol P = (sp_cpol P = sp_cpha P)) = sp_cpha P" by auto
  then show "bus_idle dev P b'"
    using b' s1 m by (simp add: bus_idle_def master_ready_def spi_master_end_transaction_def spi_tick_def settled_def Let_def)
qed

lemma spi_exchange_lemma:
  assumes "sp_mosi P" "sp_miso P" and "cs_pin < 32"
    and "dev = spi_master_device_init cs_pin (sp_cpol P) (sp_cpha P) source divisor sample_delay pad_delay x y z"
    and "bus_idle dev P b" and "T = xfer_of cb (bus_slave b)" and "xfer_ok T"
    and "list_all (\<lambda>(data_out, data_in). length data_in = length data_out) ios" and "data = concat (map fst ios)"
    and "bus_transaction cb P cs_pin dev tmp ios b = (received, b')"
  shows "concat received = map (out_byte T) [0 ..< length data] \<and> ss_memory (bus_slave b') = in_memory T (padded data) \<and> bus_idle dev P b'
    \<and> ss_app (bus_slave b') = snd (slave_transaction_ended cb (ss_app (cs_isr cb P True (bus_slave b))) (xf_out T)
        (min (4 * (length data div 4 + 2)) (xf_outlen T)) (xf_in T) (min (length data) (xf_inlen T)) 0)"
proof -
  obtain p1 b1 where b1: "bus_follow cb P cs_pin (spi_master_start_transaction dev (bus_master b)) b = (p1, b1)" by fastforce
  obtain b2 where b2: "bus_transfers cb P cs_pin dev tmp ios b1 = (received, b2)"
      and "b' = snd (bus_follow cb P cs_pin (spi_master_end_transaction dev (bus_master b2)) b2)"
    using assms(10) b1 by (auto simp: bus_transaction_def Let_def split: prod.splits)
  then obtain p3 where b3: "bus_follow cb P cs_pin (spi_master_end_transaction dev (bus_master b2)) b2 = (p3, b')" by (metis prod.collapse)
  note start = start_follows [OF assms(1-7) b1]
  have sel: "\<not> bit (dv_cs_assert_val dev) cs_pin" unfolding assms(4) by (rule device_select [OF assms(3)])
  have mode: "same_mode dev P" unfolding assms(4) by (rule device_mode)
  have "between_bits P T (serial_bits []) (bus_slave b1)" using start(2) by simp
  note mid = bus_transfers_exchange [OF assms(1,2,7) sel mode start(1) this assms(8) b2, folded assms(9)]
  have "between_bits P T (serial_bits data) (bus_slave b2)" "master_ready dev P (bus_master b2)" using mid by simp_all
  then show ?thesis using end_follows [OF assms(1,2,3) _ _ b3, of T data] mid start(3) by simp
qed

text \<open>
  C16: Master and slave exchange their data. In each of the four modes, for any split of a transaction into transfers, the master receives the
  bytes of the slave's output buffer in order, then zeros; the slave's input buffer has received the bytes that the master sends, as far as they fit, nothing
  outside it has changed, and the application is told their number, and a number of bytes taken from the output buffer that is at least the
  number sent and at most the buffer; afterwards the bus is idle again.
\<close>

theorem spi_transaction_exchanges:
  assumes "sp_mosi P" "sp_miso P" and "cs_pin < 32"
    and "dev = spi_master_device_init cs_pin (sp_cpol P) (sp_cpha P) source divisor sample_delay pad_delay x y z"
    and "bus_idle dev P b" and "T = xfer_of cb (bus_slave b)" and "xfer_ok T"
    and "list_all (\<lambda>(data_out, data_in). length data_in = length data_out) ios" and "data = concat (map fst ios)"
    and "bus_transaction cb P cs_pin dev tmp ios b = (received, b')"
  shows "concat received = map (out_byte T) [0 ..< length data] \<and> received_in T data (ss_memory (bus_slave b')) \<and> bus_idle dev P b'
    \<and> (\<exists>bytes_written. min (length data) (xf_outlen T) \<le> bytes_written \<and> bytes_written \<le> xf_outlen T
        \<and> ss_app (bus_slave b') = snd (slave_transaction_ended cb (ss_app (cs_isr cb P True (bus_slave b))) (xf_out T)
            bytes_written (xf_in T) (min (length data) (xf_inlen T)) 0))"
proof -
  note ex = spi_exchange_lemma [OF assms]
  have "n \<le> 4 * (n div 4 + 2)" for n :: nat by presburger
  then have "min (length data) (xf_outlen T) \<le> min (4 * (length data div 4 + 2)) (xf_outlen T)" by (rule min.mono [OF _ order_refl])
  then show ?thesis using ex in_memory_received [of T data] min.cobounded2 by (auto simp del: min_le_iff_disj min.bounded_iff)
qed

text \<open>A device in mode 3 whose application uses one buffer of three bytes for both directions.\<close>

definition echo_app :: "(nat \<times> nat \<times> nat) spi_slave_callback_group" where
  "echo_app = \<lparr>slave_transaction_started = \<lambda>a ob ib. ((100, 3, 100, 3), a), slave_transaction_ended = \<lambda>a ob bw ib br bits. ((ob, ib), (bw, br, bits))\<rparr>"

definition echo_ports :: spi_slave_ports where
  "echo_ports = \<lparr>sp_mosi = True, sp_miso = True, sp_cpol = True, sp_cpha = True\<rparr>"

definition echo_device :: spi_master_device where
  "echo_device = spi_master_device_init 0 True True spi_master_source_clock_ref 8 2 0 0 0 0"

definition echo_master :: spi_master where
  "echo_master = spi_master_init True True \<lparr>ms_has_mosi = False, ms_has_miso = False, ms_current_device = 0, ms_delay_before_transfer = False,
     ms_source_clock = spi_master_source_clock_ref, ms_clock_divisor = 0, ms_sample_falling = False, ms_pad_delay = 0, ms_cs = 0, ms_sclk = False,
     ms_mosi = False, ms_trace = []\<rparr>"

definition echo_bus :: "(nat \<times> nat \<times> nat) spi_bus" where
  "echo_bus = \<lparr>bus_master = echo_master, bus_slave = spi_slave_start echo_ports False (0, 0, 0) (\<lambda>i. of_nat i) (0, 0, 0)\<rparr>"

lemma echo_master_idle: "bus_idle echo_device echo_ports \<lparr>bus_master = echo_master, bus_slave = spi_slave_start echo_ports False a m junk\<rparr>"
proof -
  have "ms_current_device echo_master \<noteq> dv_cs_assert_val echo_device" by code_simp
  then show ?thesis by (simp add: bus_idle_def echo_master_def spi_master_init_def spi_slave_start_def settled_def Let_def)
qed

lemma echo_idle: "bus_idle echo_device echo_ports echo_bus"
  by (simp add: echo_bus_def echo_master_idle)

lemma echo_ended: "slave_transaction_ended echo_app a ob bw ib br bits = ((ob, ib), (bw, br, bits))"
  by (simp add: echo_app_def)

theorem spi_transaction_exchanges_witness:
  "\<exists>received b'. bus_transaction echo_app echo_ports 0 echo_device 0 [([1, 2], [0, 0]), ([3, 4], [0, 0])] echo_bus = (received, b')
    \<and> concat received = [100, 101, 102, 0] \<and> map (ss_memory (bus_slave b')) [99 ..< 104] = [99, 1, 2, 3, 103] \<and> ss_app (bus_slave b') = (3, 3, 0)"
proof -
  obtain received b' where x: "bus_transaction echo_app echo_ports 0 echo_device 0 [([1, 2], [0, 0]), ([3, 4], [0, 0])] echo_bus = (received, b')"
    by fastforce
  let ?T = "xfer_of echo_app (bus_slave echo_bus)"
  have T: "?T = \<lparr>xf_mem = \<lambda>i. of_nat i, xf_out = 100, xf_outlen = 3, xf_in = 100, xf_inlen = 3\<rparr>"
    by (simp add: xfer_of_def echo_app_def echo_bus_def spi_slave_start_def)
  have V: "sp_mosi echo_ports" "sp_miso echo_ports" "(0 :: nat) < 32"
    "echo_device = spi_master_device_init 0 (sp_cpol echo_ports) (sp_cpha echo_ports) spi_master_source_clock_ref 8 2 0 0 0 0"
    "xfer_ok ?T" "list_all (\<lambda>(data_out, data_in). length data_in = length data_out) [([1, 2 :: u8], [0, 0 :: u8]), ([3, 4], [0, 0])]"
    by (simp_all add: echo_ports_def echo_device_def xfer_ok_def T)
  have U: "[0 ..< 4] = [0, Suc 0, Suc (Suc 0), Suc (Suc (Suc 0))]" by (simp add: upt_rec)
  note r = spi_transaction_exchanges [OF V(1-4) echo_idle refl V(5,6) refl x]
  have "concat received = map (out_byte ?T) [0 ..< 4]" "received_in ?T [1, 2, 3, 4] (ss_memory (bus_slave b'))" "ss_app (bus_slave b') = (3, 3, 0)"
    using r by (auto simp: T echo_ended U)
  moreover have "map (out_byte ?T) [0 ..< 4] = [100, 101, 102, 0]" unfolding T by code_simp
  moreover have "map (ss_memory (bus_slave b')) [99 ..< 104] = [99, 1, 2, 3, 103]" if "received_in ?T [1, 2, 3, 4] (ss_memory (bus_slave b'))"
    using that by (auto simp: received_in_def T upt_rec numeral_eq_Suc)
  ultimately show ?thesis using x by auto
qed

text \<open>After a transaction of one byte the application is told that the three bytes of its output buffer had been written.\<close>

lemma one_byte_counts_three:
  "\<exists>received b'. bus_transaction echo_app echo_ports 0 echo_device 0 [([1], [0])] echo_bus = (received, b')
    \<and> length (concat received) = 1 \<and> ss_app (bus_slave b') = (3, 1, 0)"
proof -
  obtain received b' where x: "bus_transaction echo_app echo_ports 0 echo_device 0 [([1], [0])] echo_bus = (received, b')" by fastforce
  let ?T = "xfer_of echo_app (bus_slave echo_bus)"
  have T: "?T = \<lparr>xf_mem = \<lambda>i. of_nat i, xf_out = 100, xf_outlen = 3, xf_in = 100, xf_inlen = 3\<rparr>"
    by (simp add: xfer_of_def echo_app_def echo_bus_def spi_slave_start_def)
  have V: "sp_mosi echo_ports" "sp_miso echo_ports" "(0 :: nat) < 32"
    "echo_device = spi_master_device_init 0 (sp_cpol echo_ports) (sp_cpha echo_ports) spi_master_source_clock_ref 8 2 0 0 0 0"
    "xfer_ok ?T" "list_all (\<lambda>(data_out, data_in). length data_in = length data_out) [([1 :: u8], [0 :: u8])]"
    by (simp_all add: echo_ports_def echo_device_def xfer_ok_def T)
  from spi_exchange_lemma [OF V(1-4) echo_idle refl V(5,6) refl x] x show ?thesis by (simp add: T echo_ended)
qed

end
