(* ===== verification/Spi_Slave_Driver.thy ===== *)
theory Spi_Slave_Driver
  imports Spi_Bus
begin

text \<open>
  The SPI slave driver, modules/rtos/drivers/spi/rtos_spi_slave.c: the callbacks that its HIL thread gives to the SPI slave, the
  interrupt by which a finished transfer reaches the other cores, the queue of finished transfers, and the application.
\<close>

section \<open>State\<close>

definition XFER_DONE_CB_CODE :: u8 where "XFER_DONE_CB_CODE = 0"

record xfer_done_item =
  it_out_buf :: nat
  it_bytes_written :: nat
  it_in_buf :: nat
  it_bytes_read :: nat

text \<open>
  The driver instance. \<open>rs_chan_b\<close> and \<open>rs_chan_a\<close> are the bytes in the streaming channel on their way to its two
  ends, \<open>rs_notified\<close> is the notification count of the application thread. \<open>'d\<close> is the data of the application.
\<close>

record 'd rtos_spi_slave =
  rs_ports :: spi_slave_ports
  rs_app_data :: 'd
  rs_out_buf :: nat
  rs_outbuf_len :: nat
  rs_bytes_written :: nat
  rs_in_buf :: nat
  rs_inbuf_len :: nat
  rs_bytes_read :: nat
  rs_waiting_for_isr :: bool
  rs_chan_a :: "u8 list"
  rs_chan_b :: "u8 list"
  rs_isr_enabled :: bool
  rs_queue :: "xfer_done_item list"
  rs_app_thread :: bool
  rs_notified :: nat

text \<open>The optional callbacks of the application.\<close>

record 'd spi_slave_app =
  sa_start :: "('d rtos_spi_slave \<Rightarrow> 'd rtos_spi_slave) option"
  sa_xfer_done :: "('d rtos_spi_slave \<Rightarrow> 'd rtos_spi_slave) option"

section \<open>The interrupt and the callbacks of the HIL\<close>

definition rtos_spi_slave_isr :: "'d spi_slave_app \<Rightarrow> 'd rtos_spi_slave \<Rightarrow> 'd rtos_spi_slave" where
  "rtos_spi_slave_isr A ctx =
     (let item = \<lparr>it_out_buf = rs_out_buf ctx, it_bytes_written = rs_bytes_written ctx, it_in_buf = rs_in_buf ctx, it_bytes_read = rs_bytes_read ctx\<rparr>;
          ctx = ctx\<lparr>rs_chan_b := tl (rs_chan_b ctx)\<rparr>;
          ctx = (if length (rs_queue ctx) < 2
                 then let ctx = ctx\<lparr>rs_queue := rs_queue ctx @ [item]\<rparr>
                      in if sa_xfer_done A \<noteq> None then ctx\<lparr>rs_notified := Suc (rs_notified ctx)\<rparr> else ctx
                 else ctx)
      in ctx\<lparr>rs_waiting_for_isr := False\<rparr>)"

text \<open>The callback waits until the interrupt, on its other core, has taken the transfer before.\<close>

definition started :: "'d spi_slave_app \<Rightarrow> 'd rtos_spi_slave \<Rightarrow> nat \<Rightarrow> nat \<Rightarrow> (nat \<times> nat \<times> nat \<times> nat) \<times> 'd rtos_spi_slave" where
  "started A ctx ob ib =
     (let ctx = (if rs_waiting_for_isr ctx then rtos_spi_slave_isr A ctx else ctx)
      in ((rs_out_buf ctx, rs_outbuf_len ctx, rs_in_buf ctx, rs_inbuf_len ctx), ctx))"

definition ended :: "'d rtos_spi_slave \<Rightarrow> nat \<Rightarrow> nat \<Rightarrow> nat \<Rightarrow> nat \<Rightarrow> nat \<Rightarrow> (nat \<times> nat) \<times> 'd rtos_spi_slave" where
  "ended ctx ob bytes_written ib bytes_read read_bits =
     ((ob, ib), ctx\<lparr>rs_bytes_written := bytes_written, rs_bytes_read := bytes_read, rs_waiting_for_isr := True,
                             rs_chan_b := rs_chan_b ctx @ [XFER_DONE_CB_CODE]\<rparr>)"

text \<open>The HIL thread, if the application has a start callback, first waits until it has run.\<close>

definition spi_slave_hil_thread ::
    "'d spi_slave_app \<Rightarrow> bool \<Rightarrow> (nat \<Rightarrow> u8) \<Rightarrow> u32 \<times> u32 \<times> u32 \<Rightarrow> 'd rtos_spi_slave
      \<Rightarrow> ('d rtos_spi_slave spi_slave_callback_group \<times> 'd rtos_spi_slave spi_slave) option" where
  "spi_slave_hil_thread A sclk m junk ctx =
     (let cbg = \<lparr>slave_transaction_started = started A, slave_transaction_ended = ended\<rparr>
      in if sa_start A \<noteq> None
         then (case rs_chan_a ctx of
                 [] \<Rightarrow> None
               | _ # bytes \<Rightarrow> Some (cbg, spi_slave_start (rs_ports ctx) sclk (ctx\<lparr>rs_chan_a := bytes\<rparr>) m junk))
         else Some (cbg, spi_slave_start (rs_ports ctx) sclk ctx m junk))"

section \<open>The application\<close>

definition spi_slave_xfer_prepare :: "nat \<Rightarrow> nat \<Rightarrow> nat \<Rightarrow> nat \<Rightarrow> 'd rtos_spi_slave \<Rightarrow> 'd rtos_spi_slave" where
  "spi_slave_xfer_prepare rx_buf rx_buf_len tx_buf tx_buf_len ctx =
     ctx\<lparr>rs_in_buf := rx_buf, rs_inbuf_len := rx_buf_len, rs_out_buf := tx_buf, rs_outbuf_len := tx_buf_len\<rparr>"

text \<open>None is the result -1 after the time-out: no transfer is in the queue.\<close>

definition spi_slave_xfer_complete :: "'d rtos_spi_slave \<Rightarrow> (nat \<times> nat \<times> nat \<times> nat) option \<times> 'd rtos_spi_slave" where
  "spi_slave_xfer_complete ctx =
     (case rs_queue ctx of
        item # items \<Rightarrow> (Some (it_in_buf item, it_bytes_read item, it_out_buf item, it_bytes_written item), ctx\<lparr>rs_queue := items\<rparr>)
      | [] \<Rightarrow> (None, ctx))"

definition spi_slave_app_thread_start :: "'d spi_slave_app \<Rightarrow> 'd rtos_spi_slave \<Rightarrow> 'd rtos_spi_slave" where
  "spi_slave_app_thread_start A ctx =
     (case sa_start A of
        Some start \<Rightarrow> let ctx = start ctx in ctx\<lparr>rs_chan_a := rs_chan_a ctx @ [0]\<rparr>
      | None \<Rightarrow> ctx)"

text \<open>A turn of the thread; \<open>ulTaskNotifyTake\<close> with \<open>pdTRUE\<close> sets the count to 0.\<close>

definition spi_slave_app_turn :: "'d spi_slave_app \<Rightarrow> 'd rtos_spi_slave \<Rightarrow> 'd rtos_spi_slave" where
  "spi_slave_app_turn A ctx =
     (if rs_notified ctx = 0 then ctx
      else let ctx = ctx\<lparr>rs_notified := 0\<rparr> in case sa_xfer_done A of Some xfer_done \<Rightarrow> xfer_done ctx | None \<Rightarrow> ctx)"

definition rtos_spi_slave_start :: "'d spi_slave_app \<Rightarrow> 'd \<Rightarrow> 'd rtos_spi_slave \<Rightarrow> 'd rtos_spi_slave" where
  "rtos_spi_slave_start A app_data ctx =
     (let ctx = ctx\<lparr>rs_app_data := app_data, rs_queue := [], rs_isr_enabled := True\<rparr>
      in if sa_start A \<noteq> None \<or> sa_xfer_done A \<noteq> None then ctx\<lparr>rs_app_thread := True, rs_notified := 0\<rparr> else ctx)"

definition rtos_spi_slave_init :: "spi_slave_ports \<Rightarrow> 'd \<Rightarrow> 'd rtos_spi_slave" where
  "rtos_spi_slave_init P null =
     \<lparr>rs_ports = P, rs_app_data = null, rs_out_buf = 0, rs_outbuf_len = 0, rs_bytes_written = 0, rs_in_buf = 0, rs_inbuf_len = 0,
      rs_bytes_read = 0, rs_waiting_for_isr = False, rs_chan_a = [], rs_chan_b = [], rs_isr_enabled = False, rs_queue = [],
      rs_app_thread = False, rs_notified = 0\<rparr>"

section \<open>The system\<close>

text \<open>
  Transfers begin and end on the bus, the interrupt runs, and the application prepares buffers and collects finished transfers, from its callback
  or from any task. \<open>sy_ended\<close> are the transfers that have ended, each with the buffers that the slave used for it, \<open>sy_changed\<close>
  tells whether the application has prepared buffers since the last one began, \<open>sy_taken\<close> are the reports that the interrupt has taken, each
  with the number of items then in the queue and whether buffers had been prepared meanwhile, \<open>sy_collected\<close> those the application has got.
\<close>

datatype xfer_event =
  Xfer_Start | Xfer_End nat nat | Xfer_Isr | App_Turn | Prepare nat nat nat nat | Complete

record 'd spi_slave_sys =
  sy_ctx :: "'d rtos_spi_slave"
  sy_current :: "(nat \<times> nat) option"
  sy_ended :: "xfer_done_item list"
  sy_taken :: "(xfer_done_item \<times> nat \<times> bool) list"
  sy_collected :: "xfer_done_item list"
  sy_changed :: bool

fun spi_slave_next :: "'d spi_slave_app \<Rightarrow> xfer_event \<Rightarrow> 'd spi_slave_sys \<Rightarrow> 'd spi_slave_sys option" where
  "spi_slave_next A Xfer_Start y =
     (if sy_current y = None \<and> \<not> rs_waiting_for_isr (sy_ctx y)
      then Some (y\<lparr>sy_changed := False, sy_current := Some (rs_out_buf (sy_ctx y), rs_in_buf (sy_ctx y)), sy_ctx := snd (started A (sy_ctx y) 0 0)\<rparr>) else None)"
| "spi_slave_next A (Xfer_End bw br) y =
     (case sy_current y of
        Some (ob, ib) \<Rightarrow> Some (y\<lparr>sy_current := None, sy_ctx := snd (ended (sy_ctx y) ob bw ib br 0),
          sy_ended := sy_ended y @ [\<lparr>it_out_buf = ob, it_bytes_written = bw, it_in_buf = ib, it_bytes_read = br\<rparr>]\<rparr>)
      | None \<Rightarrow> None)"
| "spi_slave_next A Xfer_Isr y =
     (let ctx = sy_ctx y
      in if rs_isr_enabled ctx \<and> rs_chan_b ctx \<noteq> []
         then Some (y\<lparr>sy_ctx := rtos_spi_slave_isr A ctx,
           sy_taken := sy_taken y @ [(\<lparr>it_out_buf = rs_out_buf ctx, it_bytes_written = rs_bytes_written ctx, it_in_buf = rs_in_buf ctx,
             it_bytes_read = rs_bytes_read ctx\<rparr>, length (rs_queue ctx), sy_changed y)]\<rparr>) else None)"
| "spi_slave_next A App_Turn y =
     (if 0 < rs_notified (sy_ctx y) then Some (y\<lparr>sy_ctx := (sy_ctx y)\<lparr>rs_notified := 0\<rparr>\<rparr>) else None)"
| "spi_slave_next A (Prepare rx rx_len tx tx_len) y =
     Some (y\<lparr>sy_ctx := spi_slave_xfer_prepare rx rx_len tx tx_len (sy_ctx y),
       sy_changed := True\<rparr>)"
| "spi_slave_next A Complete y =
     (let (r, ctx) = spi_slave_xfer_complete (sy_ctx y)
      in Some (case r of
                 Some (ib, br, ob, bw) \<Rightarrow> y\<lparr>sy_ctx := ctx, sy_collected := sy_collected y
                     @ [\<lparr>it_out_buf = ob, it_bytes_written = bw, it_in_buf = ib, it_bytes_read = br\<rparr>]\<rparr>
               | None \<Rightarrow> y\<lparr>sy_ctx := ctx\<rparr>))"

fun spi_slave_events :: "'d spi_slave_app \<Rightarrow> xfer_event list \<Rightarrow> 'd spi_slave_sys \<Rightarrow> 'd spi_slave_sys option" where
  "spi_slave_events A [] y = Some y"
| "spi_slave_events A (e # es) y = Option.bind (spi_slave_next A e y) (spi_slave_events A es)"

definition spi_slave_system :: "'d rtos_spi_slave \<Rightarrow> 'd spi_slave_sys" where
  "spi_slave_system ctx = \<lparr>sy_ctx = ctx, sy_current = None, sy_ended = [], sy_taken = [], sy_collected = [], sy_changed = False\<rparr>"

section \<open>Every transfer is reported once, in order\<close>

definition pending_item :: "'d rtos_spi_slave \<Rightarrow> xfer_done_item" where
  "pending_item ctx = \<lparr>it_out_buf = rs_out_buf ctx, it_bytes_written = rs_bytes_written ctx, it_in_buf = rs_in_buf ctx, it_bytes_read = rs_bytes_read ctx\<rparr>"

text \<open>The transfers that found room in the queue.\<close>

definition queued :: "(xfer_done_item \<times> nat \<times> bool) list \<Rightarrow> xfer_done_item list" where
  "queued ts = map fst (filter (\<lambda>(item, n, changed). n < 2) ts)"

text \<open>A report is that of a transfer: the numbers of bytes, and the buffers unless others were prepared before the interrupt.\<close>

definition reports :: "xfer_done_item \<Rightarrow> xfer_done_item \<times> nat \<times> bool \<Rightarrow> bool" where
  "reports e t \<longleftrightarrow> (case t of (item, n, changed) \<Rightarrow>
     it_bytes_written item = it_bytes_written e \<and> it_bytes_read item = it_bytes_read e \<and> (changed \<or> item = e))"

definition sy_reports :: "'d spi_slave_sys \<Rightarrow> (xfer_done_item \<times> nat \<times> bool) list" where
  "sy_reports y = sy_taken y @
     (if rs_waiting_for_isr (sy_ctx y) then [(pending_item (sy_ctx y), length (rs_queue (sy_ctx y)), sy_changed y)] else [])"

definition sys_ok :: "'d spi_slave_sys \<Rightarrow> bool" where
  "sys_ok y \<longleftrightarrow>
     (let ctx = sy_ctx y
      in sy_collected y @ rs_queue ctx = queued (sy_taken y) \<and> length (rs_queue ctx) \<le> 2
         \<and> rs_chan_b ctx = (if rs_waiting_for_isr ctx then [XFER_DONE_CB_CODE] else [])
         \<and> (rs_waiting_for_isr ctx \<longrightarrow> sy_current y = None)
         \<and> list_all2 reports (sy_ended y) (sy_reports y)
         \<and> (sy_changed y \<or> sy_current y = None \<or> sy_current y = Some (rs_out_buf ctx, rs_in_buf ctx)))"

lemma reports_last:
  assumes "list_all2 reports es (ts @ [(item, n, changed)])" and "it_bytes_written i = it_bytes_written item" "it_bytes_read i = it_bytes_read item"
    and "changed \<longrightarrow> changed'" "changed' \<or> i = item"
  shows "list_all2 reports es (ts @ [(i, m, changed')])"
proof -
  obtain us e where "es = us @ [e]" "list_all2 reports us ts" "reports e (item, n, changed)"
    using assms(1) by (auto simp: list_all2_append2 list_all2_Cons2)
  moreover have "reports e (i, m, changed')" using calculation(3) assms(2-5) by (auto simp: reports_def)
  ultimately show ?thesis by (auto intro!: list_all2_appendI)
qed

lemmas sys_defs = sys_ok_def sy_reports_def Let_def pending_item_def

lemma item_eta [simp]: "\<lparr>it_out_buf = it_out_buf i, it_bytes_written = it_bytes_written i, it_in_buf = it_in_buf i, it_bytes_read = it_bytes_read i\<rparr> = i"
  by simp

lemma queued_snoc: "queued (ts @ [(item, n, changed)]) = (if n < 2 then queued ts @ [item] else queued ts)"
  by (simp add: queued_def)

lemma sys_ok_next:
  assumes ok: "sys_ok y" and y': "spi_slave_next A e y = Some y'"
  shows "sys_ok y'"
proof (cases e)
  case Xfer_Start
  then show ?thesis using ok y' by (auto simp: sys_defs started_def split: if_splits)
next
  case (Xfer_End bw br)
  then obtain ob ib where cur: "sy_current y = Some (ob, ib)" using y' by (auto split: option.splits)
  then have "\<not> rs_waiting_for_isr (sy_ctx y)" "list_all2 reports (sy_ended y) (sy_taken y)"
    using ok by (auto simp: sys_defs)
  moreover have "reports \<lparr>it_out_buf = ob, it_bytes_written = bw, it_in_buf = ib, it_bytes_read = br\<rparr>
    (\<lparr>it_out_buf = rs_out_buf (sy_ctx y), it_bytes_written = bw, it_in_buf = rs_in_buf (sy_ctx y), it_bytes_read = br\<rparr>, n, sy_changed y)" for n
    using ok cur by (auto simp: sys_defs reports_def)
  ultimately show ?thesis using ok y' Xfer_End cur by (auto simp: sys_defs ended_def intro!: list_all2_appendI)
next
  case Xfer_Isr
  define ctx where "ctx = sy_ctx y"
  have w: "rs_waiting_for_isr ctx"
    and y1: "y' = y\<lparr>sy_ctx := rtos_spi_slave_isr A ctx, sy_taken := sy_taken y @ [(pending_item ctx, length (rs_queue ctx), sy_changed y)]\<rparr>"
    using y' ok Xfer_Isr by (auto simp: ctx_def sys_defs split: if_splits)
  have isr: "rs_queue (rtos_spi_slave_isr A ctx) = (if length (rs_queue ctx) < 2 then rs_queue ctx @ [pending_item ctx] else rs_queue ctx)"
    "\<not> rs_waiting_for_isr (rtos_spi_slave_isr A ctx)" "rs_chan_b (rtos_spi_slave_isr A ctx) = tl (rs_chan_b ctx)"
    by (simp_all add: rtos_spi_slave_isr_def pending_item_def Let_def)
  show ?thesis using ok w isr by (auto simp: y1 sys_ok_def sy_reports_def Let_def ctx_def queued_snoc)
next
  case App_Turn
  then have "y' = y\<lparr>sy_ctx := (sy_ctx y)\<lparr>rs_notified := 0\<rparr>\<rparr>" using y' by (simp split: if_splits)
  then show ?thesis using ok by (simp add: sys_ok_def sy_reports_def Let_def pending_item_def cong: if_cong)
next
  case (Prepare rx rx_len tx tx_len)
  let ?ctx = "sy_ctx y" and ?d = "spi_slave_xfer_prepare rx rx_len tx tx_len (sy_ctx y)"
  have "list_all2 reports (sy_ended y) (sy_reports y) \<Longrightarrow> list_all2 reports (sy_ended y) (sy_reports (y\<lparr>sy_ctx := ?d, sy_changed := True\<rparr>))"
    by (auto simp: sy_reports_def spi_slave_xfer_prepare_def pending_item_def intro: reports_last)
  moreover have "y' = y\<lparr>sy_ctx := ?d, sy_changed := True\<rparr>" using y' Prepare by simp
  moreover have "rs_queue ?d = rs_queue ?ctx" "rs_chan_b ?d = rs_chan_b ?ctx" "rs_waiting_for_isr ?d = rs_waiting_for_isr ?ctx"
    by (simp_all add: spi_slave_xfer_prepare_def)
  ultimately show ?thesis using ok by (simp add: sys_ok_def Let_def cong: if_cong)
next
  case Complete
  have "list_all2 reports (sy_ended y) (sy_reports y) \<Longrightarrow>
      list_all2 reports (sy_ended y) (sy_reports (y\<lparr>sy_ctx := (sy_ctx y)\<lparr>rs_queue := q\<rparr>, sy_collected := c\<rparr>))" for q c
    by (auto simp: sy_reports_def pending_item_def intro: reports_last)
  note reports = this
  show ?thesis
  proof (cases "rs_queue (sy_ctx y)")
    case Nil
    then have "y' = y" using y' Complete by (simp add: spi_slave_xfer_complete_def)
    then show ?thesis using ok by simp
  next
    case (Cons item items)
    then have "y' = y\<lparr>sy_ctx := (sy_ctx y)\<lparr>rs_queue := items\<rparr>, sy_collected := sy_collected y @ [item]\<rparr>"
      using y' Complete by (simp add: spi_slave_xfer_complete_def)
    then show ?thesis using ok Cons reports by (simp add: sys_ok_def Let_def cong: if_cong)
  qed
qed

lemma sys_ok_events: "spi_slave_events A es y = Some y' \<Longrightarrow> sys_ok y \<Longrightarrow> sys_ok y'"
  by (induction es arbitrary: y) (auto simp: bind_eq_Some_conv intro: sys_ok_next)

text \<open>
  C20: However transfers, the interrupt and the calls of the application are interleaved: every transfer that has ended is reported by the interrupt exactly
  once, in order (the last one perhaps not yet), with its numbers of bytes, and with its buffers unless the application has prepared others
  between its beginning and the interrupt; a report is kept in the queue until the application collects it, except one that finds two others there.
\<close>

theorem spi_slave_reports:
  assumes "spi_slave_events A es (spi_slave_system (rtos_spi_slave_start A d (rtos_spi_slave_init P null))) = Some y"
  shows "list_all2 reports (sy_ended y) (sy_reports y)
    \<and> sy_collected y @ rs_queue (sy_ctx y) = queued (sy_taken y) \<and> length (rs_queue (sy_ctx y)) \<le> 2"
proof -
  have "sys_ok (spi_slave_system (rtos_spi_slave_start A d (rtos_spi_slave_init P null)))"
    by (simp add: sys_defs spi_slave_system_def rtos_spi_slave_start_def rtos_spi_slave_init_def queued_def)
  then have "sys_ok y" by (rule sys_ok_events [OF assms])
  then show ?thesis by (simp add: sys_ok_def Let_def)
qed

definition spi_sample_app :: "nat spi_slave_app" where
  "spi_sample_app = \<lparr>sa_start = None, sa_xfer_done = Some (\<lambda>ctx. ctx)\<rparr>"

definition spi_sample_ports :: spi_slave_ports where
  "spi_sample_ports = \<lparr>sp_mosi = True, sp_miso = True, sp_cpol = False, sp_cpha = False\<rparr>"

definition spi_sample_system :: "nat spi_slave_sys" where
  "spi_sample_system = spi_slave_system (rtos_spi_slave_start spi_sample_app 0 (rtos_spi_slave_init spi_sample_ports 0))"

lemmas spi_sample_eval = spi_sample_app_def spi_sample_ports_def spi_sample_system_def spi_slave_system_def rtos_spi_slave_start_def rtos_spi_slave_init_def
  started_def ended_def rtos_spi_slave_isr_def spi_slave_xfer_prepare_def spi_slave_xfer_complete_def XFER_DONE_CB_CODE_def Let_def

text \<open>
  Two transfers; the buffers of the second are prepared before it begins. The first has been collected, and the report of the second, which
  the interrupt has not taken yet, has its buffers and its numbers of bytes.
\<close>

theorem spi_slave_reports_witness:
  "\<exists>y. spi_slave_events spi_sample_app [Prepare 200 8 100 4, Xfer_Start, Xfer_End 4 5, Xfer_Isr, Prepare 300 8 100 4, Xfer_Start, Complete, Xfer_End 4 6]
      spi_sample_system = Some y
    \<and> sy_collected y = [\<lparr>it_out_buf = 100, it_bytes_written = 4, it_in_buf = 200, it_bytes_read = 5\<rparr>]
    \<and> sy_reports y = [(\<lparr>it_out_buf = 100, it_bytes_written = 4, it_in_buf = 200, it_bytes_read = 5\<rparr>, 0, False),
        (\<lparr>it_out_buf = 100, it_bytes_written = 4, it_in_buf = 300, it_bytes_read = 6\<rparr>, 0, False)]
    \<and> sy_ended y = map fst (sy_reports y)"
proof -
  let ?es = "[Prepare 200 8 100 4, Xfer_Start, Xfer_End 4 5, Xfer_Isr, Prepare 300 8 100 4, Xfer_Start, Complete, Xfer_End 4 6]"
  let ?i = "\<lparr>it_out_buf = 100, it_bytes_written = 4, it_in_buf = 200, it_bytes_read = 5\<rparr>"
  let ?j = "\<lparr>it_out_buf = 100, it_bytes_written = 4, it_in_buf = 300, it_bytes_read = 6\<rparr>"
  obtain y where y: "spi_slave_events spi_sample_app ?es spi_sample_system = Some y" "sy_collected y = [?i]" "sy_reports y = [(?i, 0, False), (?j, 0, False)]"
    by (simp add: spi_sample_eval pending_item_def sy_reports_def)
  from spi_slave_reports [OF y(1) [unfolded spi_sample_system_def]] y show ?thesis
    by (auto simp: reports_def list_all2_Cons2)
qed

text \<open>
  The interrupt takes the buffers from the instance: if the application prepares the next ones during a transfer, they are
  reported for this one.
\<close>

lemma prepare_during_transfer:
  "\<exists>y. spi_slave_events spi_sample_app [Prepare 200 8 100 4, Xfer_Start, Prepare 300 8 100 4, Xfer_End 4 4, Xfer_Isr] spi_sample_system = Some y
    \<and> fst (spi_slave_xfer_complete (sy_ctx y)) = Some (300, 4, 100, 4)"
  by (simp add: spi_sample_eval)

text \<open>
  Two transfers that finish before the thread runs are one call of the callback; if it collects one transfer, the
  other one stays in the queue, and nothing calls the callback for it.
\<close>

lemma callback_missed:
  "\<exists>y. spi_slave_events spi_sample_app [Xfer_Start, Xfer_End 4 4, Xfer_Isr, Xfer_Start, Xfer_End 4 4, Xfer_Isr, App_Turn, Complete] spi_sample_system = Some y
    \<and> rs_queue (sy_ctx y) \<noteq> [] \<and> rs_notified (sy_ctx y) = 0"
  by (simp add: spi_sample_eval)

section \<open>From the master to the application\<close>

text \<open>
  C7: A transaction of the master on the bus, of any length, reaches the application of the slave, if the interrupt has taken the transfer before it and the
  queue has room: the master receives the bytes of the output buffer, then zeros; the bytes that it sends are in the input buffer, as far as they
  fit; and the interrupt puts into the queue, where the application collects it, a report of the two buffers, of the number of bytes
  received, and of a number of bytes of the output buffer that is at least the number sent and at most the buffer.
\<close>

theorem spi_transaction_reported:
  assumes "sp_mosi P" "sp_miso P" and "cs_pin < 32"
    and "dev = spi_master_device_init cs_pin (sp_cpol P) (sp_cpha P) source divisor sample_delay pad_delay x y z"
    and "cb = \<lparr>slave_transaction_started = started A, slave_transaction_ended = ended\<rparr>"
    and "bus_idle dev P b" and "ctx = ss_app (bus_slave b)"
    and "\<not> rs_waiting_for_isr ctx" and "rs_chan_b ctx = []" and "length (rs_queue ctx) < 2"
    and "0 < rs_out_buf ctx" and "0 < rs_in_buf ctx"
    and "rs_out_buf ctx = rs_in_buf ctx \<or> rs_out_buf ctx + rs_outbuf_len ctx \<le> rs_in_buf ctx \<or> rs_in_buf ctx + rs_inbuf_len ctx \<le> rs_out_buf ctx"
    and "list_all (\<lambda>(data_out, data_in). length data_in = length data_out) ios" and "data = concat (map fst ios)"
    and "bus_transaction cb P cs_pin dev tmp ios b = (received, b')"
    and "ctx' = rtos_spi_slave_isr A (ss_app (bus_slave b'))" and "n = min (length data) (rs_inbuf_len ctx)"
  shows "concat received = map (\<lambda>i. if i < rs_outbuf_len ctx then ss_memory (bus_slave b) (rs_out_buf ctx + i) else 0) [0 ..< length data]
    \<and> map (\<lambda>i. ss_memory (bus_slave b') (rs_in_buf ctx + i)) [0 ..< n] = take n data
    \<and> (\<exists>w. min (length data) (rs_outbuf_len ctx) \<le> w \<and> w \<le> rs_outbuf_len ctx
        \<and> rs_queue ctx' = rs_queue ctx @ [\<lparr>it_out_buf = rs_out_buf ctx, it_bytes_written = w, it_in_buf = rs_in_buf ctx, it_bytes_read = n\<rparr>]
        \<and> (rs_queue ctx = [] \<longrightarrow> fst (spi_slave_xfer_complete ctx') = Some (rs_in_buf ctx, n, rs_out_buf ctx, w)))"
proof -
  define T where "T = xfer_of cb (bus_slave b)"
  have T: "T = \<lparr>xf_mem = ss_memory (bus_slave b), xf_out = rs_out_buf ctx, xf_outlen = rs_outbuf_len ctx, xf_in = rs_in_buf ctx, xf_inlen = rs_inbuf_len ctx\<rparr>"
    using assms(5,7,8,11,12) by (simp add: T_def xfer_of_def started_def Let_def)
  have ok: "xfer_ok T" using assms(13) by (simp add: T xfer_ok_def)
  have app: "ss_app (cs_isr cb P True (bus_slave b)) = ctx"
    unfolding begins_fields using assms(5,7,8) by (simp add: started_def Let_def)
  define w where "w = min (4 * (length data div 4 + 2)) (rs_outbuf_len ctx)"
  have "k \<le> 4 * (k div 4 + 2)" for k :: nat by presburger
  then have w: "min (length data) (rs_outbuf_len ctx) \<le> w" "w \<le> rs_outbuf_len ctx" unfolding w_def by (rule min.mono [OF _ order_refl]) simp
  note ex = spi_exchange_lemma [OF assms(1-4,6) T_def ok assms(14-16), unfolded app]
  have a: "ss_app (bus_slave b') = ctx\<lparr>rs_bytes_written := w, rs_bytes_read := n, rs_waiting_for_isr := True, rs_chan_b := [XFER_DONE_CB_CODE]\<rparr>"
    using ex assms(5,9,18) by (simp add: T ended_def w_def)
  have q: "rs_queue ctx' = rs_queue ctx @ [\<lparr>it_out_buf = rs_out_buf ctx, it_bytes_written = w, it_in_buf = rs_in_buf ctx, it_bytes_read = n\<rparr>]"
    using assms(10) by (simp add: assms(17) a rtos_spi_slave_isr_def Let_def)
  then have c: "rs_queue ctx = [] \<longrightarrow> fst (spi_slave_xfer_complete ctx') = Some (rs_in_buf ctx, n, rs_out_buf ctx, w)"
    by (simp add: spi_slave_xfer_complete_def)
  have "map (\<lambda>i. ss_memory (bus_slave b') (rs_in_buf ctx + i)) [0 ..< n] = take n data"
    using in_memory_received [of T data] ex assms(18) by (auto simp: received_in_def T min_def)
  moreover have "concat received = map (\<lambda>i. if i < rs_outbuf_len ctx then ss_memory (bus_slave b) (rs_out_buf ctx + i) else 0) [0 ..< length data]"
    using ex by (simp add: T out_byte_def [abs_def])
  ultimately show ?thesis using w q c by blast
qed

text \<open>
  The master sends three bytes, 1, 2 and 3, to a slave whose input buffer has two and whose output buffer at 100 has two, in a memory in which every byte is 7.
\<close>

definition spi_sample_ctx :: "nat rtos_spi_slave" where
  "spi_sample_ctx = spi_slave_xfer_prepare 200 2 100 2 (rtos_spi_slave_start spi_sample_app 0 (rtos_spi_slave_init echo_ports 0))"

definition spi_sample_bus :: "nat rtos_spi_slave spi_bus" where
  "spi_sample_bus = \<lparr>bus_master = echo_master, bus_slave = spi_slave_start echo_ports False spi_sample_ctx (\<lambda>i. 7) (0, 0, 0)\<rparr>"

lemma sample_idle: "bus_idle echo_device echo_ports spi_sample_bus"
  by (simp add: spi_sample_bus_def echo_master_idle)

theorem spi_transaction_reported_witness:
  "\<exists>received b'. bus_transaction \<lparr>slave_transaction_started = started spi_sample_app, slave_transaction_ended = ended\<rparr> echo_ports 0 echo_device 0
      [([1, 2, 3], [0, 0, 0])] spi_sample_bus = (received, b')
    \<and> concat received = [7, 7, 0] \<and> map (ss_memory (bus_slave b')) [200, 201] = [1, 2]
    \<and> fst (spi_slave_xfer_complete (rtos_spi_slave_isr spi_sample_app (ss_app (bus_slave b')))) = Some (200, 2, 100, 2)"
proof -
  let ?cb = "\<lparr>slave_transaction_started = started spi_sample_app, slave_transaction_ended = ended\<rparr>"
  obtain received b' where x: "bus_transaction ?cb echo_ports 0 echo_device 0 [([1, 2, 3], [0, 0, 0])] spi_sample_bus = (received, b')" by fastforce
  have app: "ss_app (bus_slave spi_sample_bus) = spi_sample_ctx" and mem: "ss_memory (bus_slave spi_sample_bus) = (\<lambda>i. 7)"
    by (simp_all add: spi_sample_bus_def spi_slave_start_def)
  have ctx: "\<not> rs_waiting_for_isr spi_sample_ctx" "rs_queue spi_sample_ctx = []" "rs_chan_b spi_sample_ctx = []" "rs_out_buf spi_sample_ctx = 100"
      "rs_in_buf spi_sample_ctx = 200" "rs_outbuf_len spi_sample_ctx = 2" "rs_inbuf_len spi_sample_ctx = 2"
    by (simp_all add: spi_sample_ctx_def spi_sample_eval)
  have V: "sp_mosi echo_ports" "sp_miso echo_ports" "(0 :: nat) < 32"
    "echo_device = spi_master_device_init 0 (sp_cpol echo_ports) (sp_cpha echo_ports) spi_master_source_clock_ref 8 2 0 0 0 0"
    by (simp_all add: echo_ports_def echo_device_def)
  have "spi_sample_ctx = ss_app (bus_slave spi_sample_bus)" by (rule app [symmetric])
  note r = spi_transaction_reported [OF V refl sample_idle this ctx(1,3)]
  have "concat received = [7, 7, 0] \<and> map (ss_memory (bus_slave b')) [200, 201] = [1, 2]
      \<and> fst (spi_slave_xfer_complete (rtos_spi_slave_isr spi_sample_app (ss_app (bus_slave b')))) = Some (200, 2, 100, 2)"
    using r [OF _ _ _ _ _ refl x refl refl] ctx by (simp add: upt_rec mem) auto
  from conjI [OF x this] show ?thesis by - (rule exI, rule exI, assumption)
qed

end
