(* ===== verification/Spi_Master.thy ===== *)
theory Spi_Master
  imports Prelude
begin

text \<open>
  The SPI master driver, modules/rtos/drivers/spi/rtos_spi_master.c: the functions that a task
  calls, each as the sequence of kernel operations it performs, the thread that carries the
  requests out, and the system they form. The HIL functions on the bus are the parameters of
  the model, collected in \<open>spi_hil\<close>; \<open>'b\<close> is the bus. All devices are on one bus.
\<close>

section \<open>Requests\<close>

datatype spi_op = SPI_OP_START | SPI_OP_XFER | SPI_OP_DELAY | SPI_OP_END

text \<open>
  \<open>req_read\<close> tells whether \<open>data_in\<close> is not NULL; fields a function leaves
  uninitialised are empty here and not read by the thread.
\<close>

record spi_xfer_req =
  req_dev :: nat
  req_op :: spi_op
  req_out :: "u8 list"
  req_read :: bool
  req_len :: u32
  req_priority :: nat

text \<open>What the functions ask the kernel for: the lock of the bus, the queue, the semaphore.\<close>

datatype osal_action = Mutex_Get | Queue_Send spi_xfer_req | Semaphore_Get | Mutex_Put

definition spi_master_local_transaction_start :: "nat \<Rightarrow> nat \<Rightarrow> osal_action list" where
  "spi_master_local_transaction_start ctx priority =
     [Mutex_Get, Queue_Send \<lparr>req_dev = ctx, req_op = SPI_OP_START, req_out = [], req_read = False, req_len = 0,
        req_priority = priority\<rparr>]"

text \<open>A transfer that reads nothing copies the data and does not wait.\<close>

definition spi_master_local_transfer :: "nat \<Rightarrow> u8 list \<Rightarrow> bool \<Rightarrow> u32 \<Rightarrow> osal_action list" where
  "spi_master_local_transfer ctx data_out data_in len =
     Queue_Send \<lparr>req_dev = ctx, req_op = SPI_OP_XFER,
        req_out = (if data_in then data_out else take (unat len) data_out), req_read = data_in, req_len = len,
        req_priority = 0\<rparr> # (if data_in then [Semaphore_Get] else [])"

definition spi_master_local_delay_before_next_transfer :: "nat \<Rightarrow> u32 \<Rightarrow> osal_action list" where
  "spi_master_local_delay_before_next_transfer ctx delay_ticks =
     [Queue_Send \<lparr>req_dev = ctx, req_op = SPI_OP_DELAY, req_out = [], req_read = False, req_len = delay_ticks, req_priority = 0\<rparr>]"

definition spi_master_local_transaction_end :: "nat \<Rightarrow> osal_action list" where
  "spi_master_local_transaction_end ctx =
     [Queue_Send \<lparr>req_dev = ctx, req_op = SPI_OP_END, req_out = [], req_read = False, req_len = 0, req_priority = 0\<rparr>, Mutex_Put]"

section \<open>The thread\<close>

record 'b spi_hil =
  hil_start_transaction :: "nat \<Rightarrow> 'b \<Rightarrow> 'b"
  hil_transfer :: "nat \<Rightarrow> u8 list \<Rightarrow> u32 \<Rightarrow> 'b \<Rightarrow> u8 list \<times> 'b"
  hil_delay :: "nat \<Rightarrow> u32 \<Rightarrow> 'b \<Rightarrow> 'b"
  hil_end_transaction :: "nat \<Rightarrow> 'b \<Rightarrow> 'b"

text \<open>What a request does on the bus, and the data that it reads.\<close>

definition spi_request :: "'b spi_hil \<Rightarrow> spi_xfer_req \<Rightarrow> 'b \<Rightarrow> u8 list \<times> 'b" where
  "spi_request H req b =
     (case req_op req of
        SPI_OP_START \<Rightarrow> ([], hil_start_transaction H (req_dev req) b)
      | SPI_OP_XFER \<Rightarrow> hil_transfer H (req_dev req) (req_out req) (req_len req) b
      | SPI_OP_DELAY \<Rightarrow> ([], hil_delay H (req_dev req) (req_len req) b)
      | SPI_OP_END \<Rightarrow> ([], hil_end_transaction H (req_dev req) b))"

text \<open>
  The state that the tasks share: the recursive lock, the queue of two requests (each with the
  task that sent it, whose memory \<open>data_in\<close> points into), the semaphore, the priority of
  the thread, and the memory of the tasks. \<open>served\<close> records the requests carried out.
\<close>

record 'b spi_shared =
  spi_bus :: 'b
  spi_lock :: "(nat \<times> nat) option"
  xfer_req_queue :: "(nat \<times> spi_xfer_req) list"
  data_ready :: bool
  op_task_priority :: nat
  current_priority :: nat
  in_memory :: "nat \<Rightarrow> u8 list"
  served :: "(nat \<times> spi_xfer_req) list"

definition is_read :: "spi_xfer_req \<Rightarrow> bool" where
  "is_read r \<longleftrightarrow> req_op r = SPI_OP_XFER \<and> req_read r"

text \<open>One turn of \<open>spi_xfer_thread\<close>, for the request \<open>r\<close> of the task \<open>t\<close>.\<close>

definition spi_xfer_thread :: "'b spi_hil \<Rightarrow> nat \<times> spi_xfer_req \<Rightarrow> 'b spi_shared \<Rightarrow> 'b spi_shared" where
  "spi_xfer_thread H tr c =
     (let (t, r) = tr; (xs, b) = spi_request H r (spi_bus c);
          c = c\<lparr>spi_bus := b, served := served c @ [tr]\<rparr>
      in case req_op r of
           SPI_OP_START \<Rightarrow> c\<lparr>current_priority := req_priority r\<rparr>
         | SPI_OP_XFER \<Rightarrow> (if req_read r then c\<lparr>in_memory := (in_memory c)(t := xs), data_ready := True\<rparr> else c)
         | SPI_OP_DELAY \<Rightarrow> c
         | SPI_OP_END \<Rightarrow> c\<lparr>current_priority := op_task_priority c\<rparr>)"

section \<open>The system\<close>

text \<open>The calls of a task, with its priority, and what they do.\<close>

datatype spi_call =
  Transaction_Start nat nat
| Transfer nat "u8 list" bool u32
| Delay_Before_Next_Transfer nat u32
| Transaction_End nat

fun call_actions :: "spi_call \<Rightarrow> osal_action list" where
  "call_actions (Transaction_Start ctx priority) = spi_master_local_transaction_start ctx priority"
| "call_actions (Transfer ctx data_out data_in len) = spi_master_local_transfer ctx data_out data_in len"
| "call_actions (Delay_Before_Next_Transfer ctx ticks) = spi_master_local_delay_before_next_transfer ctx ticks"
| "call_actions (Transaction_End ctx) = spi_master_local_transaction_end ctx"

text \<open>The kernel operations of task \<open>t\<close>; None if it has to wait.\<close>

fun osal_do :: "nat \<Rightarrow> osal_action \<Rightarrow> 'b spi_shared \<Rightarrow> 'b spi_shared option" where
  "osal_do t Mutex_Get c =
     (case spi_lock c of
        None \<Rightarrow> Some (c\<lparr>spi_lock := Some (t, 1)\<rparr>)
      | Some (u, n) \<Rightarrow> if u = t then Some (c\<lparr>spi_lock := Some (t, n + 1)\<rparr>) else None)"
| "osal_do t (Queue_Send r) c =
     (if length (xfer_req_queue c) < 2 then Some (c\<lparr>xfer_req_queue := xfer_req_queue c @ [(t, r)]\<rparr>) else None)"
| "osal_do t Semaphore_Get c = (if data_ready c then Some (c\<lparr>data_ready := False\<rparr>) else None)"
| "osal_do t Mutex_Put c =
     Some (case spi_lock c of
        Some (u, n) \<Rightarrow> if u = t then c\<lparr>spi_lock := (if n = 1 then None else Some (u, n - 1))\<rparr> else c
      | None \<Rightarrow> c)"

text \<open>
  The tasks, with what they still have to do of the current call and the calls to come;
  \<open>returned\<close> records the data that the reading transfers of each task have returned.
\<close>

record 'b spi_sys =
  shared :: "'b spi_shared"
  actions :: "nat \<Rightarrow> osal_action list"
  calls :: "nat \<Rightarrow> spi_call list"
  returned :: "nat \<Rightarrow> u8 list list"

inductive spi_step :: "'b spi_hil \<Rightarrow> 'b spi_sys \<Rightarrow> 'b spi_sys \<Rightarrow> bool" for H where
  spi_calls: "actions s t = [] \<Longrightarrow> calls s t = c # cs \<Longrightarrow>
    spi_step H s (s\<lparr>actions := (actions s)(t := call_actions c), calls := (calls s)(t := cs)\<rparr>)"
| spi_acts: "actions s t = a # as \<Longrightarrow> osal_do t a (shared s) = Some c \<Longrightarrow>
    spi_step H s (s\<lparr>shared := c, actions := (actions s)(t := as),
      returned := (if a = Semaphore_Get then (returned s)(t := returned s t @ [in_memory c t]) else returned s)\<rparr>)"
| spi_serves: "xfer_req_queue (shared s) = r # rs \<Longrightarrow>
    spi_step H s (s\<lparr>shared := spi_xfer_thread H r ((shared s)\<lparr>xfer_req_queue := rs\<rparr>)\<rparr>)"

inductive spi_reachable :: "'b spi_hil \<Rightarrow> 'b spi_sys \<Rightarrow> 'b spi_sys \<Rightarrow> bool" for H s where
  spi_refl: "spi_reachable H s s"
| spi_more: "spi_reachable H s t \<Longrightarrow> spi_step H t u \<Longrightarrow> spi_reachable H s u"

text \<open>As \<open>rtos_spi_master_start\<close> leaves the driver.\<close>

definition rtos_spi_master_start :: "nat \<Rightarrow> 'b \<Rightarrow> 'b spi_shared" where
  "rtos_spi_master_start priority b =
     \<lparr>spi_bus = b, spi_lock = None, xfer_req_queue = [], data_ready = False, op_task_priority = priority,
      current_priority = priority, in_memory = (\<lambda>_. []), served = []\<rparr>"

definition spi_initial :: "nat \<Rightarrow> 'b \<Rightarrow> (nat \<Rightarrow> spi_call list) \<Rightarrow> 'b spi_sys" where
  "spi_initial priority b progs =
     \<lparr>shared = rtos_spi_master_start priority b, actions = (\<lambda>_. []), calls = progs, returned = (\<lambda>_. [])\<rparr>"

section \<open>Specification\<close>

text \<open>A task that uses the driver as documented: transfers and delays inside transactions, none open at the end.\<close>

fun bracketed :: "bool \<Rightarrow> spi_call list \<Rightarrow> bool" where
  "bracketed inside [] = (\<not> inside)"
| "bracketed inside (Transaction_Start d p # cs) = (\<not> inside \<and> bracketed True cs)"
| "bracketed inside (Transaction_End d # cs) = (inside \<and> bracketed False cs)"
| "bracketed inside (_ # cs) = (inside \<and> bracketed inside cs)"

text \<open>
  The requests of different tasks do not mix: from a start to the next end all are of one task.
  The result is the task whose transaction is open; None outside means that they mix.
\<close>

fun turns :: "nat option \<Rightarrow> (nat \<times> spi_xfer_req) list \<Rightarrow> nat option option" where
  "turns h [] = Some h"
| "turns h ((t, r) # rs) =
     (if req_op r = SPI_OP_START then if h = None then turns (Some t) rs else None
      else if h = Some t then turns (if req_op r = SPI_OP_END then None else h) rs else None)"

text \<open>The bus after a list of requests, and what it answered to those of task \<open>t\<close> that read.\<close>

fun spi_run :: "'b spi_hil \<Rightarrow> (nat \<times> spi_xfer_req) list \<Rightarrow> 'b \<Rightarrow> 'b" where
  "spi_run H [] b = b"
| "spi_run H ((t, r) # rs) b = spi_run H rs (snd (spi_request H r b))"

fun spi_answers :: "'b spi_hil \<Rightarrow> nat \<Rightarrow> (nat \<times> spi_xfer_req) list \<Rightarrow> 'b \<Rightarrow> u8 list list" where
  "spi_answers H t [] b = []"
| "spi_answers H t ((u, r) # rs) b =
     (if u = t \<and> is_read r then [fst (spi_request H r b)] else []) @ spi_answers H t rs (snd (spi_request H r b))"

section \<open>The invariant\<close>

text \<open>Where a task is in a transaction, and what it may do next.\<close>

datatype stage = Outside | Locked | Inside | Awaiting | Ending

fun next_stage :: "stage \<Rightarrow> osal_action \<Rightarrow> stage option" where
  "next_stage Outside Mutex_Get = Some Locked"
| "next_stage Locked (Queue_Send r) = (if req_op r = SPI_OP_START then Some Inside else None)"
| "next_stage Inside (Queue_Send r) =
     (case req_op r of SPI_OP_START \<Rightarrow> None | SPI_OP_XFER \<Rightarrow> Some (if req_read r then Awaiting else Inside)
      | SPI_OP_DELAY \<Rightarrow> Some Inside | SPI_OP_END \<Rightarrow> Some Ending)"
| "next_stage Awaiting Semaphore_Get = Some Inside"
| "next_stage Ending Mutex_Put = Some Outside"
| "next_stage _ _ = None"

fun accepts :: "stage \<Rightarrow> osal_action list \<Rightarrow> bool" where
  "accepts st [] = (st = Outside)"
| "accepts st (a # as) = (case next_stage st a of None \<Rightarrow> False | Some st \<Rightarrow> accepts st as)"

lemma bracketed_accepts:
  "bracketed inside cs \<Longrightarrow> accepts (if inside then Inside else Outside) (concat (map call_actions cs))"
  by (induction inside cs rule: bracketed.induct)
    (auto simp: spi_master_local_transaction_start_def spi_master_local_transfer_def
      spi_master_local_delay_before_next_transfer_def spi_master_local_transaction_end_def)

definition stage_holder :: "nat \<Rightarrow> stage \<Rightarrow> nat option" where
  "stage_holder u st = (if st \<in> {Inside, Awaiting} then Some u else None)"

definition to_do :: "'b spi_sys \<Rightarrow> nat \<Rightarrow> osal_action list" where
  "to_do s t = actions s t @ concat (map call_actions (calls s t))"

text \<open>
  The invariant, for the task \<open>u\<close> that holds the lock in the stage \<open>st\<close> (any
  task, and Outside, if the lock is free).
\<close>

definition lock_inv :: "nat \<Rightarrow> stage \<Rightarrow> 'b spi_sys \<Rightarrow> bool" where
  "lock_inv u st s \<longleftrightarrow> spi_lock (shared s) = (if st = Outside then None else Some (u, 1))
     \<and> (\<forall>t. accepts (if t = u then st else Outside) (to_do s t))"

definition order_inv :: "'b spi_hil \<Rightarrow> 'b \<Rightarrow> nat \<Rightarrow> stage \<Rightarrow> 'b spi_shared \<Rightarrow> bool" where
  "order_inv H b u st c \<longleftrightarrow> turns None (served c @ xfer_req_queue c) = Some (stage_holder u st)
     \<and> spi_bus c = spi_run H (served c) b"

definition data_inv :: "'b spi_hil \<Rightarrow> 'b \<Rightarrow> nat \<Rightarrow> stage \<Rightarrow> (nat \<Rightarrow> u8 list list) \<Rightarrow> 'b spi_shared \<Rightarrow> bool" where
  "data_inv H b u st ret c \<longleftrightarrow> (data_ready c \<longrightarrow> st = Awaiting)
     \<and> map fst (filter (\<lambda>(t, r). is_read r) (xfer_req_queue c)) = (if st = Awaiting \<and> \<not> data_ready c then [u] else [])
     \<and> (\<forall>t. spi_answers H t (served c) b = ret t @ (if t = u \<and> data_ready c then [in_memory c u] else []))"

definition spi_inv :: "'b spi_hil \<Rightarrow> 'b \<Rightarrow> nat \<Rightarrow> stage \<Rightarrow> 'b spi_sys \<Rightarrow> bool" where
  "spi_inv H b u st s \<longleftrightarrow> lock_inv u st s \<and> order_inv H b u st (shared s) \<and> data_inv H b u st (returned s) (shared s)"

lemma turns_append: "turns h (xs @ ys) = (case turns h xs of None \<Rightarrow> None | Some k \<Rightarrow> turns k ys)"
  by (induction h xs rule: turns.induct) auto

lemma spi_run_append: "spi_run H (xs @ ys) b = spi_run H ys (spi_run H xs b)"
  by (induction H xs b rule: spi_run.induct) auto

lemma spi_answers_append: "spi_answers H t (xs @ ys) b = spi_answers H t xs b @ spi_answers H t ys (spi_run H xs b)"
  by (induction H t xs b rule: spi_answers.induct) auto

lemma spi_thread_fields [simp]:
  "spi_lock (spi_xfer_thread H tr c) = spi_lock c" "xfer_req_queue (spi_xfer_thread H tr c) = xfer_req_queue c"
  "served (spi_xfer_thread H tr c) = served c @ [tr]"
  "spi_bus (spi_xfer_thread H tr c) = snd (spi_request H (snd tr) (spi_bus c))"
  "data_ready (spi_xfer_thread H tr c) \<longleftrightarrow> is_read (snd tr) \<or> data_ready c"
  "in_memory (spi_xfer_thread H tr c) =
    (if is_read (snd tr) then (in_memory c)(fst tr := fst (spi_request H (snd tr) (spi_bus c))) else in_memory c)"
  by (auto simp: spi_xfer_thread_def is_read_def Let_def split: prod.splits spi_op.splits)

lemma spi_serves_inv:
  assumes "spi_inv H b u st s" "xfer_req_queue (shared s) = r # rs"
  shows "spi_inv H b u st (s\<lparr>shared := spi_xfer_thread H r ((shared s)\<lparr>xfer_req_queue := rs\<rparr>)\<rparr>)"
proof -
  obtain t q where r: "r = (t, q)" by fastforce
  have reads: "map fst (filter (\<lambda>(t, r). is_read r) (r # rs)) = (if st = Awaiting \<and> \<not> data_ready (shared s) then [u] else [])"
    using assms by (simp add: spi_inv_def data_inv_def)
  have mine: "t = u \<and> st = Awaiting \<and> \<not> data_ready (shared s) \<and> filter (\<lambda>(t, r). is_read r) rs = []" if "is_read q"
    using reads that r by (auto split: if_splits)
  have "order_inv H b u st (spi_xfer_thread H r ((shared s)\<lparr>xfer_req_queue := rs\<rparr>))"
    using assms r by (simp add: spi_inv_def order_inv_def spi_run_append)
  moreover have "data_inv H b u st (returned s) (spi_xfer_thread H r ((shared s)\<lparr>xfer_req_queue := rs\<rparr>))"
  proof (cases "is_read q")
    case True
    then show ?thesis using assms mine r
      by (auto simp: spi_inv_def data_inv_def order_inv_def spi_answers_append split: prod.splits)
  next
    case False
    then show ?thesis using assms reads r
      by (auto simp: spi_inv_def data_inv_def spi_answers_append)
  qed
  ultimately show ?thesis using assms(1) by (simp add: spi_inv_def lock_inv_def to_do_def)
qed

lemma spi_calls_inv:
  assumes "spi_inv H b u st s" "actions s t = []" "calls s t = c # cs"
  shows "spi_inv H b u st (s\<lparr>actions := (actions s)(t := call_actions c), calls := (calls s)(t := cs)\<rparr>)"
proof -
  have "to_do (s\<lparr>actions := (actions s)(t := call_actions c), calls := (calls s)(t := cs)\<rparr>) = to_do s"
    using assms(2,3) by (simp add: to_do_def fun_eq_iff)
  then show ?thesis using assms(1) by (simp add: spi_inv_def lock_inv_def)
qed

text \<open>A task that does not hold the lock can only take it, and only when it is free.\<close>

lemma lock_inv_next:
  assumes "lock_inv u st s" "actions s t = a # as" "osal_do t a (shared s) = Some c"
  shows "\<exists>v st0 st1. (v = u \<and> st0 = st \<or> st = Outside \<and> st0 = Outside) \<and> v = t \<and> next_stage st0 a = Some st1
    \<and> accepts st1 (as @ concat (map call_actions (calls s t)))
    \<and> (\<forall>w. w \<noteq> t \<longrightarrow> accepts Outside (to_do s w))"
proof -
  have acc: "accepts (if w = u then st else Outside) (to_do s w)" for w using assms(1) by (simp add: lock_inv_def)
  have td: "to_do s t = a # as @ concat (map call_actions (calls s t))" using assms(2) by (simp add: to_do_def)
  show ?thesis
  proof (cases "t = u")
    case True
    then obtain st1 where "next_stage st a = Some st1" "accepts st1 (as @ concat (map call_actions (calls s t)))"
      using acc [of t] td by (auto split: option.splits)
    moreover have "accepts Outside (to_do s w)" if "w \<noteq> t" for w using acc [of w] that True by simp
    ultimately show ?thesis using True by blast
  next
    case False
    then obtain st1 where st1: "next_stage Outside a = Some st1" "accepts st1 (as @ concat (map call_actions (calls s t)))"
      using acc [of t] td by (auto split: option.splits)
    then have "a = Mutex_Get" by (cases a) simp_all
    then have "st = Outside" using assms(1,3) False by (auto simp: lock_inv_def split: if_splits)
    moreover have "accepts Outside (to_do s w)" for w using acc [of w] calculation by (simp split: if_splits)
    ultimately show ?thesis using st1 by blast
  qed
qed

lemma spi_inv_Outside: "spi_inv H b u Outside s \<Longrightarrow> spi_inv H b v Outside s"
  by (auto simp: spi_inv_def lock_inv_def order_inv_def data_inv_def stage_holder_def)

lemma next_stage_cases:
  assumes "next_stage st a = Some st1"
  obtains "st = Outside" "a = Mutex_Get" "st1 = Locked"
  | r where "st = Locked" "a = Queue_Send r" "req_op r = SPI_OP_START" "st1 = Inside"
  | r where "st = Inside" "a = Queue_Send r" "req_op r = SPI_OP_XFER" "st1 = (if req_read r then Awaiting else Inside)"
  | r where "st = Inside" "a = Queue_Send r" "req_op r = SPI_OP_DELAY" "st1 = Inside"
  | r where "st = Inside" "a = Queue_Send r" "req_op r = SPI_OP_END" "st1 = Ending"
  | "st = Awaiting" "a = Semaphore_Get" "st1 = Inside"
  | "st = Ending" "a = Mutex_Put" "st1 = Outside"
  using assms by (cases st; cases a) (auto split: if_splits spi_op.splits)

lemma order_inv_send:
  assumes "order_inv H b t st c" "turns (stage_holder t st) [(t, r)] = Some (stage_holder t st1)"
  shows "order_inv H b t st1 (c\<lparr>xfer_req_queue := xfer_req_queue c @ [(t, r)]\<rparr>)"
  using assms turns_append [of None "served c @ xfer_req_queue c" "[(t, r)]"] by (simp add: order_inv_def)

lemma data_inv_send:
  assumes "data_inv H b t st ret c" "st1 = Awaiting \<longleftrightarrow> is_read r" "st \<noteq> Awaiting"
  shows "data_inv H b t st1 ret (c\<lparr>xfer_req_queue := xfer_req_queue c @ [(t, r)]\<rparr>)"
  using assms by (auto simp: data_inv_def)

lemma shared_step:
  assumes "next_stage st a = Some st1" "osal_do t a c = Some d"
    and "spi_lock c = (if st = Outside then None else Some (t, 1))"
    and "order_inv H b t st c" "data_inv H b t st ret c"
  shows "spi_lock d = (if st1 = Outside then None else Some (t, 1)) \<and> order_inv H b t st1 d
    \<and> data_inv H b t st1 (if a = Semaphore_Get then ret(t := ret t @ [in_memory d t]) else ret) d"
  using assms(1)
proof (cases rule: next_stage_cases)
  case 1
  then show ?thesis using assms by (auto simp: order_inv_def data_inv_def stage_holder_def)
next
  case (2 r)
  then show ?thesis using assms
    by (auto intro!: order_inv_send [OF assms(4)] data_inv_send [OF assms(5)] simp: stage_holder_def is_read_def split: if_splits)
next
  case (3 r)
  then show ?thesis using assms
    by (auto intro!: order_inv_send [OF assms(4)] data_inv_send [OF assms(5)] simp: stage_holder_def is_read_def split: if_splits)
next
  case (4 r)
  then show ?thesis using assms
    by (auto intro!: order_inv_send [OF assms(4)] data_inv_send [OF assms(5)] simp: stage_holder_def is_read_def split: if_splits)
next
  case (5 r)
  then show ?thesis using assms
    by (auto intro!: order_inv_send [OF assms(4)] data_inv_send [OF assms(5)] simp: stage_holder_def is_read_def split: if_splits)
next
  case 6
  then show ?thesis using assms by (auto simp: order_inv_def data_inv_def stage_holder_def split: if_splits)
next
  case 7
  then show ?thesis using assms by (auto simp: order_inv_def data_inv_def stage_holder_def split: if_splits)
qed

lemma spi_acts_inv:
  assumes inv: "spi_inv H b u st s" and act: "actions s t = a # as" "osal_do t a (shared s) = Some c"
  shows "\<exists>st1. spi_inv H b t st1 (s\<lparr>shared := c, actions := (actions s)(t := as),
      returned := (if a = Semaphore_Get then (returned s)(t := returned s t @ [in_memory c t]) else returned s)\<rparr>)"
proof -
  have "lock_inv u st s" using inv by (simp add: spi_inv_def)
  from lock_inv_next [OF this act] obtain st0 st1 where st0: "t = u \<and> st0 = st \<or> st = Outside \<and> st0 = Outside"
    and nx: "next_stage st0 a = Some st1" and acc: "accepts st1 (as @ concat (map call_actions (calls s t)))"
    and others: "\<forall>w. w \<noteq> t \<longrightarrow> accepts Outside (to_do s w)"
    by blast
  have "spi_inv H b t st0 s" using st0 inv spi_inv_Outside [of H b u s t] by auto
  then have "spi_lock (shared s) = (if st0 = Outside then None else Some (t, 1))" "order_inv H b t st0 (shared s)"
    "data_inv H b t st0 (returned s) (shared s)"
    by (simp_all add: spi_inv_def lock_inv_def)
  from shared_step [OF nx act(2) this] acc others show ?thesis
    by (intro exI [of _ st1]) (simp add: spi_inv_def lock_inv_def to_do_def)
qed

lemma spi_step_inv: "spi_step H s s' \<Longrightarrow> spi_inv H b u st s \<Longrightarrow> \<exists>u st. spi_inv H b u st s'"
proof (induction rule: spi_step.induct)
  case (spi_calls s t c cs)
  then show ?case by (intro exI) (rule spi_calls_inv)
next
  case (spi_acts s t a as c)
  show ?case by (rule exI, rule spi_acts_inv [OF spi_acts(3,1,2)])
next
  case (spi_serves s r rs)
  then show ?case by (intro exI) (rule spi_serves_inv)
qed

lemma spi_initial_inv:
  assumes "\<And>t. bracketed False (progs t)"
  shows "spi_inv H b 0 Outside (spi_initial priority b progs)"
  using bracketed_accepts [OF assms]
  by (simp add: spi_inv_def lock_inv_def order_inv_def data_inv_def stage_holder_def to_do_def spi_initial_def rtos_spi_master_start_def)

lemma spi_reachable_inv:
  "spi_reachable H s0 s \<Longrightarrow> spi_inv H b u0 st0 s0 \<Longrightarrow> \<exists>u st. spi_inv H b u st s"
proof (induction rule: spi_reachable.induct)
  case (spi_more t v)
  then obtain u st where "spi_inv H b u st t" by blast
  from spi_step_inv [OF spi_more.hyps(2) this] show ?case .
qed blast

section \<open>Properties\<close>

text \<open>
  C8: Transactions of different tasks never mix on the SPI bus, and every reading
  transfer returns the data that the bus gave for it: whatever the interleaving of the tasks
  and the driver's thread, the requests carried out and those still queued are, from each start
  of a transaction to its end, all of one task; the bus is in the state that these
  requests, one after the other, lead to; and what a task has received is what the bus answered
  to its reading transfers, in order, up to one that the task has yet to fetch. The tasks are
  assumed to transfer only inside their transactions.
\<close>

theorem spi_transactions_serial:
  assumes "\<And>t. bracketed False (progs t)"
    and "spi_reachable H (spi_initial priority b progs) s"
  shows "turns None (served (shared s) @ xfer_req_queue (shared s)) \<noteq> None
    \<and> spi_bus (shared s) = spi_run H (served (shared s)) b
    \<and> (\<forall>t. \<exists>xs. length xs \<le> of_bool (data_ready (shared s))
         \<and> spi_answers H t (served (shared s)) b = returned s t @ xs)"
proof -
  obtain u st where "spi_inv H b u st s"
    using spi_reachable_inv [OF assms(2) spi_initial_inv [OF assms(1)]] by blast
  then show ?thesis
    by (auto simp: spi_inv_def order_inv_def data_inv_def
        intro!: exI [of _ "if t = u \<and> data_ready (shared s) then [in_memory (shared s) u] else []" for t])
qed

text \<open>Two tasks, each with a transaction, on a bus that answers with the inverted data and counts.\<close>

definition example_hil :: "nat spi_hil" where
  "example_hil = \<lparr>hil_start_transaction = (\<lambda>d b. b + 100), hil_transfer = (\<lambda>d xs n b. (map NOT xs, b + 1)),
     hil_delay = (\<lambda>d n b. b), hil_end_transaction = (\<lambda>d b. b + 1000)\<rparr>"

definition example_calls :: "nat \<Rightarrow> spi_call list" where
  "example_calls t =
     (if t < 2 then [Transaction_Start t 3, Transfer t [1, 2] True 2, Transfer t [3] False 1, Transaction_End t] else [])"

text \<open>A schedule says who makes the next step: a task, or the thread.\<close>

fun spi_turn :: "'b spi_hil \<Rightarrow> nat option \<Rightarrow> 'b spi_sys \<Rightarrow> 'b spi_sys option" where
  "spi_turn H None s =
     (case xfer_req_queue (shared s) of [] \<Rightarrow> None
      | r # rs \<Rightarrow> Some (s\<lparr>shared := spi_xfer_thread H r ((shared s)\<lparr>xfer_req_queue := rs\<rparr>)\<rparr>))"
| "spi_turn H (Some t) s =
     (case actions s t of
        [] \<Rightarrow> (case calls s t of [] \<Rightarrow> None
               | c # cs \<Rightarrow> Some (s\<lparr>actions := (actions s)(t := call_actions c), calls := (calls s)(t := cs)\<rparr>))
      | a # as \<Rightarrow> map_option (\<lambda>c. s\<lparr>shared := c, actions := (actions s)(t := as),
            returned := (if a = Semaphore_Get then (returned s)(t := returned s t @ [in_memory c t]) else returned s)\<rparr>)
            (osal_do t a (shared s)))"

fun spi_schedule :: "'b spi_hil \<Rightarrow> nat option list \<Rightarrow> 'b spi_sys \<Rightarrow> 'b spi_sys option" where
  "spi_schedule H [] s = Some s"
| "spi_schedule H (x # xs) s = (case spi_turn H x s of None \<Rightarrow> None | Some s \<Rightarrow> spi_schedule H xs s)"

lemma spi_turn_step: "spi_turn H x s = Some s' \<Longrightarrow> spi_step H s s'"
  by (cases x) (auto split: list.splits intro: spi_step.intros)

lemma spi_schedule_reachable: "spi_schedule H xs s = Some s' \<Longrightarrow> spi_reachable H s0 s \<Longrightarrow> spi_reachable H s0 s'"
proof (induction H xs s rule: spi_schedule.induct)
  case (2 H x xs s)
  then obtain v where v: "spi_turn H x s = Some v" "spi_schedule H xs v = Some s'" by (auto split: option.splits)
  show ?case by (rule 2(1) [OF v spi_more [OF 2(3) spi_turn_step [OF v(1)]]])
qed simp

definition example_sys :: "nat spi_sys" where
  "example_sys = the (spi_schedule example_hil
     [Some 1, Some 1, Some 0, Some 1, Some 1, None, Some 1, None, Some 1, Some 1, Some 1]
     (spi_initial 5 0 example_calls))"

lemma example_sys_reachable: "spi_reachable example_hil (spi_initial 5 0 example_calls) example_sys"
proof -
  have "\<not> Option.is_none (spi_schedule example_hil [Some 1, Some 1, Some 0, Some 1, Some 1, None, Some 1, None, Some 1, Some 1, Some 1]
     (spi_initial 5 0 example_calls))" by code_simp
  then have "spi_schedule example_hil [Some 1, Some 1, Some 0, Some 1, Some 1, None, Some 1, None, Some 1, Some 1, Some 1]
     (spi_initial 5 0 example_calls) = Some example_sys" by (auto simp: example_sys_def Option.is_none_def)
  from spi_schedule_reachable [OF this spi_refl] show ?thesis .
qed

lemma example_bracketed: "bracketed False (example_calls t)"
  by (simp add: example_calls_def)

theorem spi_transactions_serial_witness:
  "turns None (served (shared example_sys) @ xfer_req_queue (shared example_sys)) \<noteq> None
    \<and> spi_bus (shared example_sys) = spi_run example_hil (served (shared example_sys)) 0
    \<and> returned example_sys 1 = [[254, 253]]"
proof (intro conjI)
  show "returned example_sys 1 = [[254, 253]]" by code_simp
qed (use spi_transactions_serial [OF example_bracketed example_sys_reachable] in blast)+

text \<open>
  C23: The driver does not deadlock: whenever a task has something left to do or a
  request is queued, some task or the thread can make a step.
\<close>

theorem spi_progress:
  assumes "\<And>t. bracketed False (progs t)"
    and "spi_reachable H (spi_initial priority b progs) s"
    and "xfer_req_queue (shared s) \<noteq> [] \<or> actions s t \<noteq> [] \<or> calls s t \<noteq> []"
  shows "\<exists>s'. spi_step H s s'"
proof (cases "xfer_req_queue (shared s)")
  case (Cons r rs)
  then show ?thesis using spi_serves by blast
next
  case Nil
  obtain u st where inv: "spi_inv H b u st s"
    using spi_reachable_inv [OF assms(2) spi_initial_inv [OF assms(1)]] by blast
  define v where "v = (if st = Outside then t else u)"
  have acc: "accepts (if v = u then st else Outside) (to_do s v)" using inv by (simp add: spi_inv_def lock_inv_def)
  have todo: "to_do s v \<noteq> [] \<or> actions s v = [] \<and> calls s v \<noteq> []"
    using acc Nil assms(3) by (auto simp: v_def to_do_def split: if_splits)
  show ?thesis
  proof (cases "actions s v")
    case Nil
    then obtain c cs where "calls s v = c # cs" using todo by (cases "calls s v") (auto simp: to_do_def)
    with Nil show ?thesis using spi_calls by blast
  next
    case (Cons a as)
    have td: "to_do s v = a # as @ concat (map call_actions (calls s v))" using Cons by (simp add: to_do_def)
    have "next_stage st a \<noteq> None" using acc td by (auto simp: v_def split: if_splits option.splits)
    then obtain st1 where nx: "next_stage st a = Some st1" by blast
    have "\<exists>d. osal_do v a (shared s) = Some d"
      using nx
    proof (cases rule: next_stage_cases)
      case 6
      then have "data_ready (shared s)" using inv Nil by (auto simp: spi_inv_def data_inv_def split: if_splits)
      with 6 show ?thesis by simp
    qed (use inv Nil in \<open>auto simp: spi_inv_def lock_inv_def\<close>)
    with Cons show ?thesis using spi_acts by blast
  qed
qed

theorem spi_progress_witness: "\<exists>s'. spi_step example_hil example_sys s'"
proof (rule spi_progress [OF example_bracketed example_sys_reachable])
  show "xfer_req_queue (shared example_sys) \<noteq> [] \<or> actions example_sys 0 \<noteq> [] \<or> calls example_sys 0 \<noteq> []"
    by code_simp
qed

end
