(* ===== verification/Spi_Rpc.thy ===== *)
theory Spi_Rpc
  imports Rpc
begin

text \<open>
  The remote half of the SPI master driver, modules/rtos/drivers/spi/rtos_spi_master_rpc.c.
  The driver's functions on the host are the parameters of the model, collected in
  \<open>spi_api\<close>. The lock that a client holds during a transaction orders its callers; the
  model is of one call.
\<close>

section \<open>State\<close>

text \<open>
  The first argument is the device, a pointer on the host. \<open>api_transfer\<close> takes the
  data (None for NULL), whether data is wanted, and the length, and returns the data read.
\<close>

record 's spi_api =
  api_transaction_start :: "u32 \<Rightarrow> 's \<Rightarrow> 's res"
  api_transfer :: "u32 \<Rightarrow> u8 list option \<Rightarrow> bool \<Rightarrow> u32 \<Rightarrow> 's \<Rightarrow> (u8 list \<times> 's) res"
  api_delay_before_next_transfer :: "u32 \<Rightarrow> u32 \<Rightarrow> 's \<Rightarrow> 's res"
  api_transaction_end :: "u32 \<Rightarrow> 's \<Rightarrow> 's res"

text \<open>A device of a client: the bus's way to the host, and the device there.\<close>

record spi_device = rpc_client +
  host_dev_ctx_ptr :: u32

definition spi_fcode_transaction_start :: u32 where "spi_fcode_transaction_start = 0"
definition spi_fcode_transfer :: u32 where "spi_fcode_transfer = 1"
definition spi_fcode_delay_before_next_transfer :: u32 where "spi_fcode_delay_before_next_transfer = 2"
definition spi_fcode_transaction_end :: u32 where "spi_fcode_transaction_end = 3"

lemmas spi_fcodes = spi_fcode_transaction_start_def spi_fcode_transfer_def spi_fcode_delay_before_next_transfer_def
  spi_fcode_transaction_end_def

section \<open>The client\<close>

definition spi_master_remote_transaction_start ::
  "(u8 list \<Rightarrow> 's \<Rightarrow> (u8 list \<times> 's) res) \<Rightarrow> spi_device \<Rightarrow> 's \<Rightarrow> 's res" where
  "spi_master_remote_transaction_start host d s =
     rbind (c_assert (0 \<le> host_port d)) (\<lambda>_.
     rbind (rpc_client_call_generic host spi_fcode_transaction_start [RPC_PARAM_TYPE 4, RPC_PARAM_LIST_END]
         [le32 (host_dev_ctx_ptr d)] s) (\<lambda>(args, s). Inr s))"

text \<open>NULL for \<open>data_out\<close> or \<open>data_in\<close> is None; the result is the memory of \<open>data_in\<close>.\<close>

definition spi_master_remote_transfer ::
  "(u8 list \<Rightarrow> 's \<Rightarrow> (u8 list \<times> 's) res) \<Rightarrow> spi_device \<Rightarrow> u8 list option \<Rightarrow> u8 list option \<Rightarrow> u32 \<Rightarrow> 's
    \<Rightarrow> (u8 list option \<times> 's) res" where
  "spi_master_remote_transfer host d data_out data_in len s =
     rbind (c_assert (0 \<le> host_port d)) (\<lambda>_.
     rbind (rpc_client_call_generic host spi_fcode_transfer
         [RPC_PARAM_TYPE 4, RPC_PARAM_IN_BUFFER 1 (if data_out \<noteq> None then len else 0),
          RPC_PARAM_OUT_BUFFER 1 (if data_in \<noteq> None then len else 0), RPC_PARAM_TYPE 4, RPC_PARAM_LIST_END]
         [le32 (host_dev_ctx_ptr d), case_option [] id data_out, case_option [] id data_in, le32 len] s)
       (\<lambda>(args, s). Inr (map_option (\<lambda>_. args ! 2) data_in, s)))"

definition spi_master_remote_delay_before_next_transfer ::
  "(u8 list \<Rightarrow> 's \<Rightarrow> (u8 list \<times> 's) res) \<Rightarrow> spi_device \<Rightarrow> u32 \<Rightarrow> 's \<Rightarrow> 's res" where
  "spi_master_remote_delay_before_next_transfer host d delay_ticks s =
     rbind (c_assert (0 \<le> host_port d)) (\<lambda>_.
     rbind (rpc_client_call_generic host spi_fcode_delay_before_next_transfer
         [RPC_PARAM_TYPE 4, RPC_PARAM_TYPE 4, RPC_PARAM_LIST_END] [le32 (host_dev_ctx_ptr d), le32 delay_ticks] s)
       (\<lambda>(args, s). Inr s))"

definition spi_master_remote_transaction_end ::
  "(u8 list \<Rightarrow> 's \<Rightarrow> (u8 list \<times> 's) res) \<Rightarrow> spi_device \<Rightarrow> 's \<Rightarrow> 's res" where
  "spi_master_remote_transaction_end host d s =
     rbind (c_assert (0 \<le> host_port d)) (\<lambda>_.
     rbind (rpc_client_call_generic host spi_fcode_transaction_end [RPC_PARAM_TYPE 4, RPC_PARAM_LIST_END]
         [le32 (host_dev_ctx_ptr d)] s) (\<lambda>(args, s). Inr s))"

section \<open>The host\<close>

definition spi_transaction_start_rpc_host :: "'s spi_api \<Rightarrow> rpc_msg \<Rightarrow> 's \<Rightarrow> (u8 list \<times> 's) res" where
  "spi_transaction_start_rpc_host api m s =
     rbind (rpc_request_unmarshall_va m) (\<lambda>vs.
     rbind (arg_at val32 vs 0) (\<lambda>dev_ctx.
     rbind (api_transaction_start api dev_ctx s) (\<lambda>s. rpc_reply m [Arg32 dev_ctx] s)))"

text \<open>A pointer, compared with NULL.\<close>

fun val_ptr :: "rpc_val \<Rightarrow> u8 list option res" where
  "val_ptr (InPtr bs) = Inr (Some bs)"
| "val_ptr NotNull = Inr (Some [])"
| "val_ptr NullPtr = Inr None"
| "val_ptr v = Inl BadVarArg"

text \<open>With a \<open>data_in\<close> that is not NULL, memory for \<open>len\<close> bytes is allocated for it.\<close>

definition spi_transfer_rpc_host :: "'s spi_api \<Rightarrow> rpc_msg \<Rightarrow> 's \<Rightarrow> (u8 list \<times> 's) res" where
  "spi_transfer_rpc_host api m s =
     rbind (rpc_request_unmarshall_va m) (\<lambda>vs.
     rbind (arg_at val32 vs 0) (\<lambda>dev_ctx.
     rbind (arg_at val_ptr vs 1) (\<lambda>data_out.
     rbind (arg_at val_ptr vs 2) (\<lambda>data_in.
     rbind (arg_at val32 vs 3) (\<lambda>len.
     rbind (api_transfer api dev_ctx data_out (data_in \<noteq> None) len s) (\<lambda>(xs, s).
       rpc_reply m [Arg32 dev_ctx, ArgPtr (case_option [] id data_out),
         ArgPtr (if data_in \<noteq> None then xs else []), Arg32 len] s))))))"

definition spi_delay_before_next_transfer_rpc_host :: "'s spi_api \<Rightarrow> rpc_msg \<Rightarrow> 's \<Rightarrow> (u8 list \<times> 's) res" where
  "spi_delay_before_next_transfer_rpc_host api m s =
     rbind (rpc_request_unmarshall_va m) (\<lambda>vs.
     rbind (arg_at val32 vs 0) (\<lambda>dev_ctx.
     rbind (arg_at val32 vs 1) (\<lambda>delay_ticks.
     rbind (api_delay_before_next_transfer api dev_ctx delay_ticks s) (\<lambda>s.
       rpc_reply m [Arg32 dev_ctx, Arg32 delay_ticks] s))))"

definition spi_transaction_end_rpc_host :: "'s spi_api \<Rightarrow> rpc_msg \<Rightarrow> 's \<Rightarrow> (u8 list \<times> 's) res" where
  "spi_transaction_end_rpc_host api m s =
     rbind (rpc_request_unmarshall_va m) (\<lambda>vs.
     rbind (arg_at val32 vs 0) (\<lambda>dev_ctx.
     rbind (api_transaction_end api dev_ctx s) (\<lambda>s. rpc_reply m [Arg32 dev_ctx] s)))"

definition spi_rpc_switch :: "'s spi_api \<Rightarrow> rpc_msg \<Rightarrow> 's \<Rightarrow> (u8 list \<times> 's) res" where
  "spi_rpc_switch api m s =
     (if rpc_fcode m = spi_fcode_transaction_start then spi_transaction_start_rpc_host api m s
      else if rpc_fcode m = spi_fcode_transfer then spi_transfer_rpc_host api m s
      else if rpc_fcode m = spi_fcode_delay_before_next_transfer then spi_delay_before_next_transfer_rpc_host api m s
      else if rpc_fcode m = spi_fcode_transaction_end then spi_transaction_end_rpc_host api m s
      else Inl OutOfBounds)"

definition spi_master_rpc_thread :: "'s spi_api \<Rightarrow> u8 list \<Rightarrow> 's \<Rightarrow> (u8 list \<times> 's) res" where
  "spi_master_rpc_thread api = rpc_host_turn (spi_rpc_switch api)"

section \<open>Properties\<close>

lemmas spi_rpc_defs = spi_master_remote_transaction_start_def spi_master_remote_transfer_def
  spi_master_remote_delay_before_next_transfer_def spi_master_remote_transaction_end_def
  spi_transaction_start_rpc_host_def spi_transfer_rpc_host_def spi_delay_before_next_transfer_rpc_host_def
  spi_transaction_end_rpc_host_def spi_master_rpc_thread_def spi_rpc_switch_def spi_fcodes

text \<open>What a transfer through a client does, given what the host's driver does.\<close>

lemma spi_transfer_remote:
  assumes "0 \<le> host_port d" "0 < unat len" "unat len < 2 ^ 24"
    and out: "\<And>xs. data_out = Some xs \<Longrightarrow> length xs = unat len"
    and inp: "\<And>ys. data_in = Some ys \<Longrightarrow> length ys = unat len"
    and api: "\<And>xs t. data_in \<noteq> None \<Longrightarrow> api_transfer api (host_dev_ctx_ptr d) data_out True len s = Inr (xs, t) \<Longrightarrow> length xs = unat len"
  shows "spi_master_remote_transfer (spi_master_rpc_thread api) d data_out data_in len s
    = rbind (api_transfer api (host_dev_ctx_ptr d) data_out (data_in \<noteq> None) len s)
        (\<lambda>(xs, s). Inr (map_option (\<lambda>_. xs) data_in, s))"
proof (cases "api_transfer api (host_dev_ctx_ptr d) data_out (data_in \<noteq> None) len s")
  case (Inl e)
  then show ?thesis using assms(1-3) out inp
    by (cases data_out; cases data_in) (simp_all add: spi_rpc_defs rpc_eval unat_ucast_24)
next
  case (Inr p)
  obtain xs t where p: "p = (xs, t)" by fastforce
  have "data_in \<noteq> None \<Longrightarrow> length xs = unat len" using api Inr p by auto
  then show ?thesis using assms(1-3) out inp Inr p
    by (cases data_out; cases data_in) (simp_all add: spi_rpc_defs rpc_eval unat_ucast_24)
qed

text \<open>
  A transaction through the SPI driver of a client tile does what it does on the
  host: its start, delays and end reach the host's device, and a transfer sends the client's
  data and returns the data read, with a missing buffer passed on as a missing buffer. The host's
  transfer is assumed to fill a buffer of the length asked for.
\<close>

theorem spi_remote_is_local:
  assumes "0 \<le> host_port d" and "0 < unat len" and "unat len < 2 ^ 24"
    and "\<And>xs. data_out = Some xs \<Longrightarrow> length xs = unat len"
    and "\<And>ys. data_in = Some ys \<Longrightarrow> length ys = unat len"
    and "\<And>xs t. data_in \<noteq> None \<Longrightarrow> api_transfer api (host_dev_ctx_ptr d) data_out True len s = Inr (xs, t) \<Longrightarrow> length xs = unat len"
  shows "spi_master_remote_transaction_start (spi_master_rpc_thread api) d s = api_transaction_start api (host_dev_ctx_ptr d) s
    \<and> spi_master_remote_transfer (spi_master_rpc_thread api) d data_out data_in len s
      = rbind (api_transfer api (host_dev_ctx_ptr d) data_out (data_in \<noteq> None) len s)
          (\<lambda>(xs, s). Inr (map_option (\<lambda>_. xs) data_in, s))
    \<and> spi_master_remote_delay_before_next_transfer (spi_master_rpc_thread api) d ticks s
      = api_delay_before_next_transfer api (host_dev_ctx_ptr d) ticks s
    \<and> spi_master_remote_transaction_end (spi_master_rpc_thread api) d s = api_transaction_end api (host_dev_ctx_ptr d) s"
  using assms(1) by (intro conjI spi_transfer_remote [OF assms]) (simp_all add: spi_rpc_defs rpc_eval)

text \<open>A host whose bus inverts the data and counts the transactions.\<close>

definition example_spi_api :: "nat spi_api" where
  "example_spi_api = \<lparr>api_transaction_start = (\<lambda>d s. Inr (s + 1)),
     api_transfer = (\<lambda>d o' i n s. Inr (case o' of Some xs \<Rightarrow> map NOT xs | None \<Rightarrow> replicate (unat n) 0xFF, s)),
     api_delay_before_next_transfer = (\<lambda>d n s. Inr s), api_transaction_end = (\<lambda>d s. Inr s)\<rparr>"

definition example_spi_device :: spi_device where
  "example_spi_device = \<lparr>host_port = 4, host_ctx_ptr = 0x80000, host_dev_ctx_ptr = 0x80100\<rparr>"

theorem spi_remote_is_local_witness:
  "spi_master_remote_transfer (spi_master_rpc_thread example_spi_api) example_spi_device None (Some [0, 0, 0]) 3 7
    = Inr (Some [0xFF, 0xFF, 0xFF], 7)"
proof -
  have three: "replicate 3 (0xFF :: u8) = [0xFF, 0xFF, 0xFF]" by (simp add: numeral_3_eq_3)
  have "spi_master_remote_transfer (spi_master_rpc_thread example_spi_api) example_spi_device None (Some [0, 0, 0]) 3 7
    = rbind (api_transfer example_spi_api (host_dev_ctx_ptr example_spi_device) None (Some [0 :: u8, 0, 0] \<noteq> None) 3 7)
        (\<lambda>(xs, s). Inr (map_option (\<lambda>_. xs) (Some [0 :: u8, 0, 0]), s))"
    by (rule spi_remote_is_local [THEN conjunct2, THEN conjunct1])
      (auto simp: example_spi_api_def example_spi_device_def)
  then show ?thesis by (simp add: example_spi_api_def three)
qed

end
