(* ===== verification/Audio_Rpc.thy ===== *)
theory Audio_Rpc
  imports Rpc Ring_Buffer
begin

text \<open>
  The remote halves of the audio drivers, modules/rtos/drivers/i2s/rtos_i2s_rpc.c and
  modules/rtos/drivers/mic_array/rtos_mic_array_rpc.c. The drivers' receive and transmit
  functions on the host are the parameters of the model, collected in \<open>audio_api\<close>.
  Samples are 32-bit words, in memory and in messages four bytes each, the low byte first.
\<close>

section \<open>Samples in memory\<close>

definition sample_bytes :: "sample list \<Rightarrow> u8 list" where
  "sample_bytes xs = concat (map le32 xs)"

definition bytes_samples :: "u8 list \<Rightarrow> sample list" where
  "bytes_samples bs = map (\<lambda>i. of_le32 (drop (4 * i) bs)) [0 ..< length bs div 4]"

lemma length_sample_bytes [simp]: "length (sample_bytes xs) = 4 * length xs"
  unfolding sample_bytes_def by (rule le32c.length_concat_enc)

lemma bytes_samples_bytes [simp]: "bytes_samples (sample_bytes xs) = xs"
proof (rule nth_equalityI)
  fix i assume "i < length (bytes_samples (sample_bytes xs))"
  then have "i < length xs" by (simp add: bytes_samples_def)
  moreover from this have "of_le32 (drop (4 * i) (sample_bytes xs)) = xs ! i"
    using le32c.decode_many [of xs i "[]"] by (simp add: sample_bytes_def)
  ultimately show "bytes_samples (sample_bytes xs) ! i = xs ! i" by (simp add: bytes_samples_def)
qed (simp add: bytes_samples_def)

section \<open>State\<close>

text \<open>
  \<open>api_rx\<close> returns the number of frames and the words it stores at the start of the
  buffer; \<open>api_num_out\<close> and \<open>api_num_in\<close> are fields of the instance on the host.
\<close>

record 's audio_api =
  api_rx :: "u32 \<Rightarrow> u32 \<Rightarrow> u32 \<Rightarrow> 's \<Rightarrow> (u32 \<times> sample list \<times> 's) res"
  api_tx :: "u32 \<Rightarrow> sample list \<Rightarrow> u32 \<Rightarrow> u32 \<Rightarrow> 's \<Rightarrow> (u32 \<times> 's) res"
  api_num_out :: "u32 \<Rightarrow> u32"
  api_num_in :: "u32 \<Rightarrow> u32"

record i2s_client = rpc_client +
  client_num_out :: u32
  client_num_in :: u32

definition i2s_fcode_rx :: u32 where "i2s_fcode_rx = 0"
definition i2s_fcode_tx :: u32 where "i2s_fcode_tx = 1"

section \<open>The clients\<close>

text \<open>
  \<open>sample_buf\<close> is the caller's memory, \<open>ret\<close> what the variable for the result
  holds before the call.
\<close>

definition audio_remote_rx ::
  "(u8 list \<Rightarrow> 's \<Rightarrow> (u8 list \<times> 's) res) \<Rightarrow> u32 \<Rightarrow> u32 \<Rightarrow> u32 \<Rightarrow> u32 \<Rightarrow> sample list \<Rightarrow> u32 \<Rightarrow> u32 \<Rightarrow> 's
    \<Rightarrow> ((u32 \<times> sample list) \<times> 's) res" where
  "audio_remote_rx host fcode words ret ctx sample_buf frame_count timeout s =
     rbind (rpc_client_call_generic host fcode
         [RPC_PARAM_TYPE 4, RPC_PARAM_OUT_BUFFER 4 words, RPC_PARAM_TYPE 4, RPC_PARAM_TYPE 4, RPC_PARAM_RETURN 4,
          RPC_PARAM_LIST_END]
         [le32 ctx, sample_bytes sample_buf, le32 frame_count, le32 timeout, le32 ret] s)
       (\<lambda>(args, s). Inr ((of_le32 (args ! 4), bytes_samples (args ! 1)), s))"

definition i2s_remote_rx ::
  "(u8 list \<Rightarrow> 's \<Rightarrow> (u8 list \<times> 's) res) \<Rightarrow> u32 \<Rightarrow> i2s_client \<Rightarrow> sample list \<Rightarrow> u32 \<Rightarrow> u32 \<Rightarrow> 's
    \<Rightarrow> ((u32 \<times> sample list) \<times> 's) res" where
  "i2s_remote_rx host ret c i2s_sample_buf frame_count timeout s =
     audio_remote_rx host i2s_fcode_rx (frame_count * (2 * client_num_in c)) ret (host_ctx_ptr c)
       i2s_sample_buf frame_count timeout s"

definition i2s_remote_tx ::
  "(u8 list \<Rightarrow> 's \<Rightarrow> (u8 list \<times> 's) res) \<Rightarrow> u32 \<Rightarrow> i2s_client \<Rightarrow> sample list \<Rightarrow> u32 \<Rightarrow> u32 \<Rightarrow> 's \<Rightarrow> (u32 \<times> 's) res" where
  "i2s_remote_tx host ret c i2s_sample_buf frame_count timeout s =
     rbind (rpc_client_call_generic host i2s_fcode_tx
         [RPC_PARAM_TYPE 4, RPC_PARAM_IN_BUFFER 4 (frame_count * (2 * client_num_out c)), RPC_PARAM_TYPE 4,
          RPC_PARAM_TYPE 4, RPC_PARAM_RETURN 4, RPC_PARAM_LIST_END]
         [le32 (host_ctx_ptr c), sample_bytes i2s_sample_buf, le32 frame_count, le32 timeout, le32 ret] s)
       (\<lambda>(args, s). Inr (of_le32 (args ! 4), s))"

definition mic_array_remote_rx ::
  "(u8 list \<Rightarrow> 's \<Rightarrow> (u8 list \<times> 's) res) \<Rightarrow> u32 \<Rightarrow> u32 \<Rightarrow> rpc_client \<Rightarrow> sample list \<Rightarrow> u32 \<Rightarrow> u32 \<Rightarrow> 's
    \<Rightarrow> ((u32 \<times> sample list) \<times> 's) res" where
  "mic_array_remote_rx host channels ret c sample_buf frame_count timeout s =
     rbind (c_assert (0 \<le> host_port c)) (\<lambda>_.
       audio_remote_rx host 0 (frame_count * channels) ret (host_ctx_ptr c) sample_buf frame_count timeout s)"

section \<open>The host\<close>

text \<open>
  Both hosts allocate \<open>room\<close> bytes, which hold \<open>fresh\<close>, and let the driver store
  the samples there; more samples than fit are an access behind the allocated memory.
\<close>

definition audio_rx_rpc_host ::
  "'s audio_api \<Rightarrow> (nat \<Rightarrow> u8 list) \<Rightarrow> (u32 \<Rightarrow> u32 \<Rightarrow> u32) \<Rightarrow> rpc_msg \<Rightarrow> 's \<Rightarrow> (u8 list \<times> 's) res" where
  "audio_rx_rpc_host api fresh room m s =
     rbind (rpc_request_unmarshall_va m) (\<lambda>vs.
     rbind (arg_at val32 vs 0) (\<lambda>ctx.
     rbind (arg_at val32 vs 2) (\<lambda>frame_count.
     rbind (arg_at val32 vs 3) (\<lambda>timeout.
     rbind (api_rx api ctx frame_count timeout s) (\<lambda>(ret, xs, s).
       let mem = fresh (unat (room ctx frame_count))
       in if length mem < 4 * length xs then Inl OutOfBounds
          else rpc_reply m [Arg32 ctx, ArgPtr (splice 0 (sample_bytes xs) mem), Arg32 frame_count, Arg32 timeout, Arg32 ret] s)))))"

definition i2s_rx_rpc_host :: "'s audio_api \<Rightarrow> (nat \<Rightarrow> u8 list) \<Rightarrow> rpc_msg \<Rightarrow> 's \<Rightarrow> (u8 list \<times> 's) res" where
  "i2s_rx_rpc_host api fresh = audio_rx_rpc_host api fresh (\<lambda>ctx frame_count. frame_count * (2 * api_num_out api ctx) * 4)"

definition i2s_tx_rpc_host :: "'s audio_api \<Rightarrow> rpc_msg \<Rightarrow> 's \<Rightarrow> (u8 list \<times> 's) res" where
  "i2s_tx_rpc_host api m s =
     rbind (rpc_request_unmarshall_va m) (\<lambda>vs.
     rbind (arg_at val32 vs 0) (\<lambda>ctx.
     rbind (arg_at val_buf vs 1) (\<lambda>buf.
     rbind (arg_at val32 vs 2) (\<lambda>frame_count.
     rbind (arg_at val32 vs 3) (\<lambda>timeout.
     rbind (api_tx api ctx (bytes_samples buf) frame_count timeout s) (\<lambda>(ret, s).
       rpc_reply m [Arg32 ctx, ArgPtr buf, Arg32 frame_count, Arg32 timeout, Arg32 ret] s))))))"

definition i2s_rpc_switch :: "'s audio_api \<Rightarrow> (nat \<Rightarrow> u8 list) \<Rightarrow> rpc_msg \<Rightarrow> 's \<Rightarrow> (u8 list \<times> 's) res" where
  "i2s_rpc_switch api fresh m s =
     (if rpc_fcode m = i2s_fcode_rx then i2s_rx_rpc_host api fresh m s
      else if rpc_fcode m = i2s_fcode_tx then i2s_tx_rpc_host api m s
      else Inl OutOfBounds)"

definition i2s_rpc_thread :: "'s audio_api \<Rightarrow> (nat \<Rightarrow> u8 list) \<Rightarrow> u8 list \<Rightarrow> 's \<Rightarrow> (u8 list \<times> 's) res" where
  "i2s_rpc_thread api fresh = rpc_host_turn (i2s_rpc_switch api fresh)"

text \<open>The microphones' host ignores the function code.\<close>

definition mic_array_rx_rpc_host :: "'s audio_api \<Rightarrow> (nat \<Rightarrow> u8 list) \<Rightarrow> u32 \<Rightarrow> rpc_msg \<Rightarrow> 's \<Rightarrow> (u8 list \<times> 's) res" where
  "mic_array_rx_rpc_host api fresh channels = audio_rx_rpc_host api fresh (\<lambda>ctx frame_count. frame_count * (4 * channels))"

definition mic_array_rpc_thread :: "'s audio_api \<Rightarrow> (nat \<Rightarrow> u8 list) \<Rightarrow> u32 \<Rightarrow> u8 list \<Rightarrow> 's \<Rightarrow> (u8 list \<times> 's) res" where
  "mic_array_rpc_thread api fresh channels = rpc_host_turn (mic_array_rx_rpc_host api fresh channels)"

section \<open>Properties\<close>

lemmas audio_rpc_defs = audio_remote_rx_def audio_rx_rpc_host_def i2s_remote_tx_def i2s_tx_rpc_host_def
  i2s_rpc_thread_def i2s_rpc_switch_def i2s_fcode_rx_def i2s_fcode_tx_def

lemma unat_4_words:
  assumes "4 * unat (w :: u32) < 2 ^ 24"
  shows "unat (ucast (4 * w) :: 24 word) = 4 * unat w"
proof -
  have "unat (4 * w) = 4 * unat w" using assms by (simp add: unat_word_ariths(2))
  with assms unat_ucast_24 [of "4 * w"] show ?thesis by simp
qed

lemma audio_rx_remote:
  assumes api: "api_rx api ctx frame_count timeout s = Inr (n, xs, t)"
    and len: "length xs = unat words" "0 < unat words" "4 * unat words < 2 ^ 24" "length sample_buf = unat words"
    and fresh: "\<And>k. length (fresh k) = k"
    and sw: "\<And>m s. rpc_fcode m = fcode \<Longrightarrow> sw m s = audio_rx_rpc_host api fresh room m s"
  shows "audio_remote_rx (rpc_host_turn sw) fcode words ret ctx sample_buf frame_count timeout s
    = (if 4 * unat words \<le> unat (room ctx frame_count) then Inr ((n, xs), t) else Inl OutOfBounds)"
  using api len fresh unat_4_words [OF len(3)]
  by (auto simp: audio_remote_rx_def audio_rx_rpc_host_def rpc_eval sw not_less splice_def)

lemma i2s_tx_remote:
  assumes "0 < unat words" "4 * unat words < 2 ^ 24" "length i2s_sample_buf = unat words" "words = frame_count * (2 * client_num_out c)"
  shows "i2s_remote_tx (i2s_rpc_thread api fresh) ret c i2s_sample_buf frame_count timeout s
    = api_tx api (host_ctx_ptr c) i2s_sample_buf frame_count timeout s"
  using assms unat_4_words [OF assms(2)]
  by (simp add: i2s_remote_tx_def i2s_tx_rpc_host_def i2s_rpc_thread_def i2s_rpc_switch_def i2s_fcode_rx_def i2s_fcode_tx_def rpc_eval)

text \<open>The room that the I2S host allocates for a request, when the multiplications do not wrap.\<close>

lemma i2s_room:
  assumes "4 * (unat frame_count * (2 * unat k)) < 2 ^ 32"
  shows "unat (frame_count * (2 * k) :: u32) = unat frame_count * (2 * unat k)"
    and "unat (frame_count * (2 * k) * 4 :: u32) = 4 * (unat frame_count * (2 * unat k))"
proof -
  show fk: "unat (frame_count * (2 * k)) = unat frame_count * (2 * unat k)"
  proof (cases "unat frame_count = 0")
    case True
    then have "frame_count = 0" by (simp add: unat_eq_zero)
    then show ?thesis by simp
  next
    case False
    then have "2 * unat k \<le> unat frame_count * (2 * unat k)" by simp
    then have "2 * unat k < 2 ^ 32" using assms by linarith
    then have "unat (2 * k) = 2 * unat k" by (simp add: unat_word_ariths(2))
    then show ?thesis using assms by (simp add: unat_word_ariths(2))
  qed
  show "unat (frame_count * (2 * k) * 4) = 4 * (unat frame_count * (2 * unat k))"
    unfolding unat_word_ariths(2) [of "frame_count * (2 * k)"] fk using assms by simp
qed

lemma i2s_rx_remote:
  assumes fresh: "\<And>k. length (fresh k) = k" and pos: "0 < unat frame_count" "0 < unat (client_num_in c)"
    and small: "4 * (unat frame_count * (2 * unat (client_num_in c))) < 2 ^ 24"
      "4 * (unat frame_count * (2 * unat (api_num_out api (host_ctx_ptr c)))) < 2 ^ 24"
    and api: "api_rx api (host_ctx_ptr c) frame_count timeout s = Inr (n, xs, t)"
    and len: "length xs = unat frame_count * (2 * unat (client_num_in c))" "length sample_buf = length xs"
  shows "i2s_remote_rx (i2s_rpc_thread api fresh) ret c sample_buf frame_count timeout s
    = (if unat (client_num_in c) \<le> unat (api_num_out api (host_ctx_ptr c)) then Inr ((n, xs), t) else Inl OutOfBounds)"
proof -
  let ?num_out = "api_num_out api (host_ctx_ptr c)"
  have rin: "unat (frame_count * (2 * client_num_in c)) = unat frame_count * (2 * unat (client_num_in c))"
    using small(1) by (intro i2s_room(1)) simp
  have rout: "unat (frame_count * (2 * ?num_out) * 4) = 4 * (unat frame_count * (2 * unat ?num_out))"
    using small(2) by (intro i2s_room(2)) simp
  have sw: "i2s_rpc_switch api fresh m s = audio_rx_rpc_host api fresh (\<lambda>ctx f. f * (2 * api_num_out api ctx) * 4) m s"
    if "rpc_fcode m = i2s_fcode_rx" for m s
    using that by (simp add: i2s_rpc_switch_def i2s_rx_rpc_host_def)
  have "i2s_remote_rx (i2s_rpc_thread api fresh) ret c sample_buf frame_count timeout s
      = (if 4 * unat (frame_count * (2 * client_num_in c)) \<le> unat (frame_count * (2 * ?num_out) * 4)
         then Inr ((n, xs), t) else Inl OutOfBounds)"
    unfolding i2s_remote_rx_def i2s_rpc_thread_def
    by (rule audio_rx_remote [OF api _ _ _ _ fresh sw]) (use rin pos small(1) len in simp_all)
  also have "\<dots> = (if unat (client_num_in c) \<le> unat ?num_out then Inr ((n, xs), t) else Inl OutOfBounds)"
    unfolding rin rout using pos by simp
  finally show ?thesis .
qed

text \<open>
  Samples go between the tiles unchanged: a transmission through the I2S driver of a
  client hands the client's samples to the host's driver, and a reception returns the samples
  that the host's driver received, whatever the host's memory held. Receiving needs at least as
  many output as input lines: the host's memory for the samples is sized by the wrong one of
  the two.
\<close>

theorem i2s_remote_is_local:
  assumes fresh: "\<And>k. length (fresh k) = k" and pos: "0 < unat frame_count" "0 < unat (client_num_in c)"
    and out: "client_num_out c = api_num_out api (host_ctx_ptr c)"
    and lines: "unat (client_num_in c) \<le> unat (client_num_out c)"
    and small: "4 * (unat frame_count * (2 * unat (client_num_out c))) < 2 ^ 24"
    and rx: "api_rx api (host_ctx_ptr c) frame_count timeout s = Inr (n, xs, t)"
      "length xs = unat frame_count * (2 * unat (client_num_in c))" "length in_buf = length xs"
    and tx: "length out_buf = unat frame_count * (2 * unat (client_num_out c))"
  shows "i2s_remote_rx (i2s_rpc_thread api fresh) ret c in_buf frame_count timeout s = Inr ((n, xs), t)
    \<and> i2s_remote_tx (i2s_rpc_thread api fresh) ret c out_buf frame_count timeout s
      = api_tx api (host_ctx_ptr c) out_buf frame_count timeout s"
proof
  have le: "unat frame_count * (2 * unat (client_num_in c)) \<le> unat frame_count * (2 * unat (client_num_out c))"
    using lines by simp
  have small_in: "4 * (unat frame_count * (2 * unat (client_num_in c))) < 2 ^ 24" using le small by linarith
  show "i2s_remote_rx (i2s_rpc_thread api fresh) ret c in_buf frame_count timeout s = Inr ((n, xs), t)"
    using i2s_rx_remote [where fresh = fresh, OF fresh pos small_in _ rx] out lines small by simp
  have r: "unat (frame_count * (2 * client_num_out c)) = unat frame_count * (2 * unat (client_num_out c))"
    using small by (intro i2s_room(1)) simp
  show "i2s_remote_tx (i2s_rpc_thread api fresh) ret c out_buf frame_count timeout s
      = api_tx api (host_ctx_ptr c) out_buf frame_count timeout s"
    by (rule i2s_tx_remote [OF _ _ _ refl]) (use r pos lines small tx in \<open>simp_all\<close>)
qed

definition example_audio_api :: "nat audio_api" where
  "example_audio_api = \<lparr>api_rx = (\<lambda>c f t s. Inr (f, [1, 2], s)), api_tx = (\<lambda>c xs f t s. Inr (f, s + length xs)),
     api_num_out = (\<lambda>c. 1), api_num_in = (\<lambda>c. 1)\<rparr>"

definition example_i2s_client :: i2s_client where
  "example_i2s_client = \<lparr>host_port = 6, host_ctx_ptr = 0x80000, client_num_out = 1, client_num_in = 1\<rparr>"

theorem i2s_remote_is_local_witness:
  "i2s_remote_rx (i2s_rpc_thread example_audio_api (\<lambda>k. replicate k 0xAA)) 0 example_i2s_client [0, 0] 1 10 5 = Inr ((1, [1, 2]), 5)
    \<and> i2s_remote_tx (i2s_rpc_thread example_audio_api (\<lambda>k. replicate k 0xAA)) 0 example_i2s_client [8, 9] 1 10 5 = Inr (1, 7)"
  using i2s_remote_is_local [of "\<lambda>k. replicate k 0xAA" 1 example_i2s_client example_audio_api 10 5 1 "[1, 2]" 5 "[0, 0]" "[8, 9]" 0]
  by (simp add: example_audio_api_def example_i2s_client_def)

text \<open>
  With more input than output lines, the host's memory is too small: receiving whole
  frames writes behind it.
\<close>

theorem i2s_remote_rx_overruns:
  assumes "\<And>k. length (fresh k) = k" "0 < unat frame_count"
    and "unat (api_num_out api (host_ctx_ptr c)) < unat (client_num_in c)"
    and "4 * (unat frame_count * (2 * unat (client_num_in c))) < 2 ^ 24"
    and "api_rx api (host_ctx_ptr c) frame_count timeout s = Inr (n, xs, t)"
      "length xs = unat frame_count * (2 * unat (client_num_in c))" "length in_buf = length xs"
  shows "i2s_remote_rx (i2s_rpc_thread api fresh) ret c in_buf frame_count timeout s = Inl OutOfBounds"
proof -
  have "unat frame_count * (2 * unat (api_num_out api (host_ctx_ptr c))) \<le> unat frame_count * (2 * unat (client_num_in c))"
    using assms(3) by simp
  then have "4 * (unat frame_count * (2 * unat (api_num_out api (host_ctx_ptr c)))) < 2 ^ 24" using assms(4) by linarith
  then show ?thesis using i2s_rx_remote [where fresh = fresh, OF assms(1,2) _ assms(4) _ assms(5,6,7)] assms(3) by simp
qed

text \<open>The microphones have no such condition.\<close>

theorem mic_remote_is_local:
  assumes fresh: "\<And>k. length (fresh k) = k" and "0 \<le> host_port c"
    and api: "api_rx api (host_ctx_ptr c) frame_count timeout s = Inr (n, xs, t)"
    and len: "length xs = unat (frame_count * channels)" "0 < unat (frame_count * channels)"
      "4 * unat (frame_count * channels) < 2 ^ 24" "length sample_buf = unat (frame_count * channels)"
  shows "mic_array_remote_rx (mic_array_rpc_thread api fresh channels) channels ret c sample_buf frame_count timeout s = Inr ((n, xs), t)"
proof -
  have "unat (frame_count * channels * 4) = 4 * unat (frame_count * channels)"
    using len(3) by (simp add: unat_word_ariths(2) [of "frame_count * channels"])
  moreover have "frame_count * channels * 4 = frame_count * (4 * channels)" by (simp add: ac_simps)
  ultimately have room: "unat (frame_count * (4 * channels)) = 4 * unat (frame_count * channels)" by simp
  have "audio_remote_rx (rpc_host_turn (mic_array_rx_rpc_host api fresh channels)) 0 (frame_count * channels) ret (host_ctx_ptr c)
      sample_buf frame_count timeout s
    = (if 4 * unat (frame_count * channels) \<le> unat (frame_count * (4 * channels)) then Inr ((n, xs), t) else Inl OutOfBounds)"
    by (rule audio_rx_remote [OF api len fresh]) (simp add: mic_array_rx_rpc_host_def)
  then show ?thesis using assms(2) room by (simp add: mic_array_remote_rx_def mic_array_rpc_thread_def)
qed

end
