(* ===== verification/Rpc_Setup.thy ===== *)
theory Rpc_Setup
  imports Rpc
begin

text \<open>
  How the drivers set up their remote halves: the words a host and its clients exchange before
  the kernels run, the configuration of the ports, and the start of the host's threads, for
  GPIO (modules/rtos/drivers/gpio/rtos_gpio_rpc.c), QSPI flash
  (qspi_flash/rtos_qspi_flash_rpc.c), I2C (i2c/rtos_i2c_master_rpc.c), I2S
  (i2s/rtos_i2s_rpc.c), the microphones (mic_array/rtos_mic_array_rpc.c) and SPI
  (spi/rtos_spi_master_rpc.c). A channel delivers the words in the order in which they are
  written; the words that one side writes are a list here.
\<close>

section \<open>The configuration\<close>

text \<open>
  \<open>rtos_driver_rpc_t\<close> begins with a union: on a host the addresses of up to three clients,
  on a client the address of its host and, in the place of the second address's first word, the
  instance on the host.
\<close>

record intertile_address =
  intertile_ctx :: u32
  port :: int

record rpc_config =
  addresses :: "intertile_address list"
  remote_client_count :: nat
  host_task_priority :: int
  rpc_host_start :: bool

definition RTOS_DRIVER_RPC_MAX_CLIENT_TILES :: nat where "RTOS_DRIVER_RPC_MAX_CLIENT_TILES = 3"

definition host_address :: "rpc_config \<Rightarrow> intertile_address" where
  "host_address c = addresses c ! 0"

definition config_ctx_ptr :: "rpc_config \<Rightarrow> u32" where
  "config_ctx_ptr c = intertile_ctx (addresses c ! 1)"

text \<open>Its room: three addresses.\<close>

definition config_ok :: "rpc_config \<Rightarrow> bool" where
  "config_ok c \<longleftrightarrow> length (addresses c) = RTOS_DRIVER_RPC_MAX_CLIENT_TILES"

section \<open>What the drivers have in common\<close>

text \<open>The loops over the clients; more clients than addresses are an access behind the array.\<close>

fun set_ports :: "int \<Rightarrow> nat \<Rightarrow> nat \<Rightarrow> intertile_address list \<Rightarrow> intertile_address list res" where
  "set_ports p i 0 as = Inr as"
| "set_ports p i (Suc n) as =
     (if length as \<le> i then Inl OutOfBounds else set_ports p (Suc i) n (as[i := (as ! i)\<lparr>port := p\<rparr>]))"

definition config_ports :: "u32 \<Rightarrow> u32 \<Rightarrow> rpc_config \<Rightarrow> rpc_config res" where
  "config_ports intertile_port priority c =
     (if remote_client_count c = 0
      then Inr (c\<lparr>addresses := (addresses c)[0 := (addresses c ! 0)\<lparr>port := sint intertile_port\<rparr>]\<rparr>)
      else rbind (set_ports (sint intertile_port) 0 (remote_client_count c) (addresses c)) (\<lambda>as.
             Inr (c\<lparr>addresses := as, host_task_priority := sint priority\<rparr>)))"

text \<open>
  A client's configuration, given the first word from its host, which is the instance there.
\<close>

definition config_client :: "u32 \<Rightarrow> u32 \<Rightarrow> rpc_config \<Rightarrow> rpc_config" where
  "config_client host_intertile_ctx ctx_ptr c =
     c\<lparr>rpc_host_start := False, remote_client_count := 0, host_task_priority := -1,
       addresses := (addresses c)[0 := \<lparr>intertile_ctx = host_intertile_ctx, port = -1\<rparr>,
                                  1 := (addresses c ! 1)\<lparr>intertile_ctx := ctx_ptr\<rparr>]\<rparr>"

text \<open>
  A host's configuration: the loop over the tiles of the clients records each address and
  writes some words to the client, \<open>sent i\<close> to the \<open>i\<close>-th.
\<close>

fun host_loop :: "(nat \<Rightarrow> u32 list res) \<Rightarrow> nat \<Rightarrow> u32 list \<Rightarrow> intertile_address list
    \<Rightarrow> (intertile_address list \<times> u32 list list) res" where
  "host_loop sent i [] as = Inr (as, [])"
| "host_loop sent i (tile # tiles) as =
     (if length as \<le> i then Inl OutOfBounds
      else rbind (sent i) (\<lambda>ws.
           rbind (host_loop sent (Suc i) tiles (as[i := \<lparr>intertile_ctx = tile, port = -1\<rparr>])) (\<lambda>(as, wss).
             Inr (as, ws # wss))))"

definition config_host :: "(nat \<Rightarrow> u32 list res) \<Rightarrow> u32 list \<Rightarrow> rpc_config \<Rightarrow> (rpc_config \<times> u32 list list) res" where
  "config_host sent client_tiles c =
     rbind (host_loop sent 0 client_tiles (addresses c)) (\<lambda>(as, wss).
       Inr (c\<lparr>addresses := as, rpc_host_start := True, remote_client_count := length client_tiles,
              host_task_priority := -1\<rparr>, wss))"

text \<open>The threads that a host starts, one for each client.\<close>

fun start_threads :: "nat \<Rightarrow> nat \<Rightarrow> intertile_address list \<Rightarrow> intertile_address list res" where
  "start_threads i 0 as = Inr []"
| "start_threads i (Suc n) as =
     (if length as \<le> i then Inl OutOfBounds
      else rbind (c_assert (0 \<le> port (as ! i))) (\<lambda>_.
           rbind (start_threads (Suc i) n as) (\<lambda>ts. Inr (as ! i # ts))))"

definition start_hosts :: "rpc_config \<Rightarrow> intertile_address list res" where
  "start_hosts c = rbind (c_assert (0 \<le> host_task_priority c)) (\<lambda>_. start_threads 0 (remote_client_count c) (addresses c))"

text \<open>A client waits for words that are never written: then there is no result.\<close>

fun chan_in :: "nat \<Rightarrow> u32 list \<Rightarrow> (u32 list \<times> u32 list) option" where
  "chan_in n ws = (if length ws < n then None else Some (take n ws, drop n ws))"

section \<open>The drivers\<close>

subsection \<open>I2C\<close>

definition rtos_i2c_master_rpc_config :: "u32 \<Rightarrow> u32 \<Rightarrow> rpc_config \<Rightarrow> rpc_config res" where
  "rtos_i2c_master_rpc_config = config_ports"

definition i2c_master_rpc_start :: "rpc_config \<Rightarrow> intertile_address list res" where
  "i2c_master_rpc_start = start_hosts"

definition rtos_i2c_master_rpc_client_init :: "u32 \<Rightarrow> u32 list \<Rightarrow> rpc_config \<Rightarrow> (rpc_config \<times> u32 list) option" where
  "rtos_i2c_master_rpc_client_init tile ws c =
     map_option (\<lambda>(vs, ws). (config_client tile (vs ! 0) c, ws)) (chan_in 1 ws)"

definition rtos_i2c_master_rpc_host_init :: "u32 \<Rightarrow> u32 list \<Rightarrow> rpc_config \<Rightarrow> (rpc_config \<times> u32 list list) res" where
  "rtos_i2c_master_rpc_host_init self = config_host (\<lambda>i. Inr [self])"

subsection \<open>Microphones\<close>

definition rtos_mic_array_rpc_config :: "u32 \<Rightarrow> u32 \<Rightarrow> rpc_config \<Rightarrow> rpc_config res" where
  "rtos_mic_array_rpc_config = config_ports"

definition mic_array_rpc_start :: "rpc_config \<Rightarrow> intertile_address list res" where
  "mic_array_rpc_start = start_hosts"

definition rtos_mic_array_rpc_client_init :: "u32 \<Rightarrow> u32 list \<Rightarrow> rpc_config \<Rightarrow> (rpc_config \<times> u32 list) option" where
  "rtos_mic_array_rpc_client_init tile ws c =
     map_option (\<lambda>(vs, ws). (config_client tile (vs ! 0) c, ws)) (chan_in 1 ws)"

definition rtos_mic_array_rpc_host_init :: "u32 \<Rightarrow> u32 list \<Rightarrow> rpc_config \<Rightarrow> (rpc_config \<times> u32 list list) res" where
  "rtos_mic_array_rpc_host_init self = config_host (\<lambda>i. Inr [self])"

subsection \<open>I2S\<close>

definition rtos_i2s_rpc_config :: "u32 \<Rightarrow> u32 \<Rightarrow> rpc_config \<Rightarrow> rpc_config res" where
  "rtos_i2s_rpc_config = config_ports"

definition i2s_rpc_start :: "rpc_config \<Rightarrow> intertile_address list res" where
  "i2s_rpc_start = start_hosts"

text \<open>Beside the configuration, the client learns \<open>num_out\<close> and \<open>num_in\<close>.\<close>

definition rtos_i2s_rpc_client_init :: "u32 \<Rightarrow> u32 list \<Rightarrow> rpc_config \<Rightarrow> ((rpc_config \<times> u32 \<times> u32) \<times> u32 list) option" where
  "rtos_i2s_rpc_client_init tile ws c =
     map_option (\<lambda>(vs, ws). ((config_client tile (vs ! 0) c, vs ! 1, vs ! 2), ws)) (chan_in 3 ws)"

definition rtos_i2s_rpc_host_init ::
  "u32 \<Rightarrow> u32 \<Rightarrow> u32 \<Rightarrow> u32 list \<Rightarrow> rpc_config \<Rightarrow> (rpc_config \<times> u32 list list) res" where
  "rtos_i2s_rpc_host_init self num_out num_in = config_host (\<lambda>i. Inr [self, num_out, num_in])"

subsection \<open>QSPI flash\<close>

text \<open>The geometry that a client copies: the size of the flash, of a page, the number of pages, the smallest sector.\<close>

record flash_geometry =
  geo_flash_size :: u32
  geo_page_size_bytes :: u32
  geo_page_count :: u32
  geo_size_log2 :: u32

definition rtos_qspi_flash_rpc_config :: "u32 \<Rightarrow> u32 \<Rightarrow> rpc_config \<Rightarrow> rpc_config res" where
  "rtos_qspi_flash_rpc_config = config_ports"

definition qspi_flash_rpc_start :: "rpc_config \<Rightarrow> intertile_address list res" where
  "qspi_flash_rpc_start = start_hosts"

definition rtos_qspi_flash_rpc_client_init ::
  "u32 \<Rightarrow> u32 list \<Rightarrow> rpc_config \<Rightarrow> ((rpc_config \<times> flash_geometry) \<times> u32 list) option" where
  "rtos_qspi_flash_rpc_client_init tile ws c =
     map_option (\<lambda>(vs, ws). ((config_client tile (vs ! 0) c,
         \<lparr>geo_flash_size = vs ! 1, geo_page_size_bytes = vs ! 2, geo_page_count = vs ! 3, geo_size_log2 = vs ! 4\<rparr>), ws))
       (chan_in 5 ws)"

definition rtos_qspi_flash_rpc_host_init ::
  "u32 \<Rightarrow> flash_geometry \<Rightarrow> u32 list \<Rightarrow> rpc_config \<Rightarrow> (rpc_config \<times> u32 list list) res" where
  "rtos_qspi_flash_rpc_host_init self g =
     config_host (\<lambda>i. Inr [self, geo_flash_size g, geo_page_size_bytes g, geo_page_count g, geo_size_log2 g])"

subsection \<open>SPI\<close>

definition rtos_spi_master_rpc_config :: "u32 \<Rightarrow> u32 \<Rightarrow> rpc_config \<Rightarrow> rpc_config res" where
  "rtos_spi_master_rpc_config = config_ports"

definition spi_master_rpc_start :: "rpc_config \<Rightarrow> intertile_address list res" where
  "spi_master_rpc_start = start_hosts"

text \<open>The client reads one word for the bus and one for each device: the devices on the host.\<close>

definition rtos_spi_master_rpc_client_init ::
  "u32 \<Rightarrow> nat \<Rightarrow> u32 list \<Rightarrow> rpc_config \<Rightarrow> ((rpc_config \<times> u32 list) \<times> u32 list) option" where
  "rtos_spi_master_rpc_client_init tile spi_device_count ws c =
     map_option (\<lambda>(vs, ws). ((config_client tile (vs ! 0) c, tl vs), ws)) (chan_in (Suc spi_device_count) ws)"

text \<open>The inner loop over the devices \<open>j\<close> writes \<open>spi_device_ctx[i]\<close>.\<close>

definition rtos_spi_master_rpc_host_init ::
  "u32 \<Rightarrow> u32 list \<Rightarrow> u32 list \<Rightarrow> rpc_config \<Rightarrow> (rpc_config \<times> u32 list list) res" where
  "rtos_spi_master_rpc_host_init self spi_device_ctx =
     config_host (\<lambda>i. if spi_device_ctx = [] then Inr [self]
       else if i < length spi_device_ctx then Inr (self # replicate (length spi_device_ctx) (spi_device_ctx ! i))
       else Inl OutOfBounds)"

subsection \<open>GPIO\<close>

definition rtos_gpio_rpc_config :: "u32 \<Rightarrow> u32 \<Rightarrow> rpc_config \<Rightarrow> rpc_config res" where
  "rtos_gpio_rpc_config = config_ports"

definition gpio_rpc_start :: "rpc_config \<Rightarrow> intertile_address list res" where
  "gpio_rpc_start = start_hosts"

text \<open>
  The two sides also connect the channels of the interrupts: each allocates a channel end
  (\<open>own\<close> and \<open>chans\<close>), tells the other, and sets the other's as its destination. The
  client first reads the word for the instance, then writes its channel end.
\<close>

definition rtos_gpio_rpc_client_init ::
  "u32 \<Rightarrow> u32 \<Rightarrow> u32 list \<Rightarrow> rpc_config \<Rightarrow> ((rpc_config \<times> (u32 \<times> u32)) \<times> u32 list \<times> u32 list) option" where
  "rtos_gpio_rpc_client_init tile own ws c =
     map_option (\<lambda>(vs, ws). ((config_client tile (vs ! 0) c, (own, vs ! 1)), [own], ws)) (chan_in 2 ws)"

definition rtos_gpio_rpc_host_init ::
  "u32 \<Rightarrow> u32 list \<Rightarrow> u32 list \<Rightarrow> u32 list \<Rightarrow> rpc_config \<Rightarrow> ((rpc_config \<times> (u32 \<times> u32) list) \<times> u32 list list) res" where
  "rtos_gpio_rpc_host_init self chans client_chans tiles c =
     rbind (config_host (\<lambda>i. Inr [self, chans ! i]) tiles c) (\<lambda>(c, wss). Inr ((c, zip chans client_chans), wss))"

section \<open>What the loops compute\<close>

lemma host_loop_spec:
  assumes "\<And>k. k < i + length tiles \<Longrightarrow> sent k = Inr (f k)" "i + length tiles \<le> length as"
  shows "host_loop sent i tiles as
    = Inr (take i as @ map (\<lambda>t. \<lparr>intertile_ctx = t, port = -1\<rparr>) tiles @ drop (i + length tiles) as,
           map f [i ..< i + length tiles])"
  using assms
proof (induction tiles arbitrary: i as)
  case (Cons t tiles)
  let ?as = "as[i := \<lparr>intertile_ctx = t, port = -1\<rparr>]"
  have ih: "host_loop sent (Suc i) tiles ?as
    = Inr (take (Suc i) ?as @ map (\<lambda>t. \<lparr>intertile_ctx = t, port = -1\<rparr>) tiles @ drop (Suc i + length tiles) ?as,
           map f [Suc i ..< Suc i + length tiles])"
    using Cons.prems by (intro Cons.IH) simp_all
  have "take (Suc i) ?as = take i as @ [\<lparr>intertile_ctx = t, port = -1\<rparr>]"
    using Cons.prems(2) by (simp add: take_Suc_conv_app_nth)
  moreover have "[i ..< i + length (t # tiles)] = i # [Suc i ..< Suc i + length tiles]" by (simp add: upt_rec)
  ultimately show ?case using ih Cons.prems by simp
qed simp

lemma set_ports_spec:
  "i + n \<le> length as \<Longrightarrow>
    set_ports p i n as = Inr (take i as @ map (port_update (\<lambda>_. p)) (take n (drop i as)) @ drop (i + n) as)"
proof (induction n arbitrary: i as)
  case (Suc n)
  let ?as = "as[i := (as ! i)\<lparr>port := p\<rparr>]"
  have "set_ports p (Suc i) n ?as
      = Inr (take (Suc i) ?as @ map (port_update (\<lambda>_. p)) (take n (drop (Suc i) ?as)) @ drop (Suc i + n) ?as)"
    using Suc.prems by (intro Suc.IH) simp
  moreover have "take (Suc i) ?as = take i as @ [(as ! i)\<lparr>port := p\<rparr>]"
    using Suc.prems by (simp add: take_Suc_conv_app_nth)
  moreover have "take (Suc n) (drop i as) = as ! i # take n (drop (Suc i) as)"
    using Suc.prems by (simp add: Cons_nth_drop_Suc [symmetric])
  ultimately show ?case using Suc.prems by simp
qed simp

lemma start_threads_spec:
  "i + n \<le> length as \<Longrightarrow> (\<And>a. a \<in> set (take n (drop i as)) \<Longrightarrow> 0 \<le> port a) \<Longrightarrow>
    start_threads i n as = Inr (take n (drop i as))"
proof (induction n arbitrary: i)
  case (Suc n)
  have split: "take (Suc n) (drop i as) = as ! i # take n (drop (Suc i) as)"
    using Suc.prems(1) by (simp add: Cons_nth_drop_Suc [symmetric])
  have "start_threads (Suc i) n as = Inr (take n (drop (Suc i) as))"
    using Suc.prems split by (intro Suc.IH) simp_all
  then show ?case using Suc.prems split by simp
qed simp

text \<open>A host, its clients and their configuration, whatever words the driver sends.\<close>

lemma host_connects:
  assumes "config_ok h" "length tiles \<le> RTOS_DRIVER_RPC_MAX_CLIENT_TILES" "tiles \<noteq> []"
    and "\<And>k. k < length tiles \<Longrightarrow> sent k = Inr (f k)"
    and "0 \<le> sint p" "0 \<le> sint prio"
  shows "\<exists>h1 h2. config_host sent tiles h = Inr (h1, map f [0 ..< length tiles]) \<and> config_ports p prio h1 = Inr h2
    \<and> start_hosts h2 = Inr (map (\<lambda>t. \<lparr>intertile_ctx = t, port = sint p\<rparr>) tiles)"
proof -
  let ?n = "length tiles"
  let ?as = "map (\<lambda>t. \<lparr>intertile_ctx = t, port = -1\<rparr>) tiles @ drop ?n (addresses h)"
  let ?bs = "map (\<lambda>t. \<lparr>intertile_ctx = t, port = sint p\<rparr>) tiles @ drop ?n (addresses h)"
  have n: "?n \<le> length (addresses h)" using assms(1,2) by (simp add: config_ok_def)
  have "host_loop sent 0 tiles (addresses h) = Inr (?as, map f [0 ..< ?n])"
    using host_loop_spec [of 0 tiles sent f "addresses h"] assms(4) n by simp
  moreover have "set_ports (sint p) 0 ?n ?as = Inr ?bs"
    using set_ports_spec [of 0 ?n ?as "sint p"] n by simp
  moreover have "start_threads 0 ?n ?bs = Inr (map (\<lambda>t. \<lparr>intertile_ctx = t, port = sint p\<rparr>) tiles)"
  proof -
    have "0 \<le> port a" if "a \<in> set (take ?n (drop 0 ?bs))" for a using that assms(5) by auto
    with start_threads_spec [of 0 ?n ?bs] n show ?thesis by simp
  qed
  ultimately show ?thesis using assms(3,6) by (simp add: config_host_def config_ports_def start_hosts_def)
qed

lemma client_connects:
  assumes "config_ok c"
  shows "\<exists>d. config_ports p prio (config_client tile ctx c) = Inr d
    \<and> host_address d = \<lparr>intertile_ctx = tile, port = sint p\<rparr> \<and> config_ctx_ptr d = ctx"
  using assms by (simp add: config_ok_def config_client_def config_ports_def host_address_def config_ctx_ptr_def
      RTOS_DRIVER_RPC_MAX_CLIENT_TILES_def)

section \<open>Properties\<close>

text \<open>
  C37: After the set-up of the QSPI flash driver on a host and its clients, with the same
  port on all tiles, the host starts one thread for each client, on the link to that client and
  that port; and every client addresses its host over its own link and the port, has the host's
  instance for its calls and knows the geometry of the host's flash; no word is left in the
  channel. No assertion of the set-up fails, for one to three clients.
\<close>

theorem qspi_setup_connects:
  assumes "config_ok h" and "config_ok c" and "length tiles \<le> RTOS_DRIVER_RPC_MAX_CLIENT_TILES" and "i < length tiles"
    and "0 \<le> sint p" and "0 \<le> sint prio"
  shows "\<exists>h1 wss h2 c1 c2. rtos_qspi_flash_rpc_host_init self g tiles h = Inr (h1, wss)
    \<and> rtos_qspi_flash_rpc_config p prio h1 = Inr h2
    \<and> qspi_flash_rpc_start h2 = Inr (map (\<lambda>t. \<lparr>intertile_ctx = t, port = sint p\<rparr>) tiles)
    \<and> rtos_qspi_flash_rpc_client_init tile (wss ! i) c = Some ((c1, g), [])
    \<and> rtos_qspi_flash_rpc_config p prio2 c1 = Inr c2
    \<and> host_address c2 = \<lparr>intertile_ctx = tile, port = sint p\<rparr> \<and> config_ctx_ptr c2 = self"
proof -
  let ?f = "\<lambda>i :: nat. [self, geo_flash_size g, geo_page_size_bytes g, geo_page_count g, geo_size_log2 g]"
  have ne: "tiles \<noteq> []" using assms(4) by auto
  obtain h1 h2 where "config_host (\<lambda>i. Inr (?f i)) tiles h = Inr (h1, map ?f [0 ..< length tiles])"
    "config_ports p prio h1 = Inr h2" "start_hosts h2 = Inr (map (\<lambda>t. \<lparr>intertile_ctx = t, port = sint p\<rparr>) tiles)"
    using host_connects [where sent = "\<lambda>i. Inr (?f i)" and f = ?f, OF assms(1,3) ne refl assms(5,6)] by blast
  moreover have "map ?f [0 ..< length tiles] ! i = ?f i" using assms(4) by simp
  moreover obtain d where "config_ports p prio2 (config_client tile self c) = Inr d"
    "host_address d = \<lparr>intertile_ctx = tile, port = sint p\<rparr>" "config_ctx_ptr d = self"
    using client_connects [OF assms(2)] by blast
  ultimately show ?thesis
    by (simp add: rtos_qspi_flash_rpc_host_init_def rtos_qspi_flash_rpc_config_def qspi_flash_rpc_start_def
        rtos_qspi_flash_rpc_client_init_def)
qed

text \<open>Two clients on tiles 7 and 9, and a configuration before the set-up.\<close>

definition example_config :: rpc_config where
  "example_config = \<lparr>addresses = replicate 3 \<lparr>intertile_ctx = 0, port = 0\<rparr>, remote_client_count = 0,
     host_task_priority = 0, rpc_host_start = False\<rparr>"

definition example_geometry :: flash_geometry where
  "example_geometry = \<lparr>geo_flash_size = 65536, geo_page_size_bytes = 256, geo_page_count = 256, geo_size_log2 = 12\<rparr>"

theorem qspi_setup_connects_witness:
  "\<exists>h1 wss h2 c1 c2. rtos_qspi_flash_rpc_host_init 0x80000 example_geometry [7, 9] example_config = Inr (h1, wss)
    \<and> rtos_qspi_flash_rpc_config 5 4 h1 = Inr h2
    \<and> qspi_flash_rpc_start h2 = Inr (map (\<lambda>t. \<lparr>intertile_ctx = t, port = sint (5 :: u32)\<rparr>) [7, 9])
    \<and> rtos_qspi_flash_rpc_client_init 8 (wss ! 1) example_config = Some ((c1, example_geometry), [])
    \<and> rtos_qspi_flash_rpc_config 5 0 c1 = Inr c2
    \<and> host_address c2 = \<lparr>intertile_ctx = 8, port = sint (5 :: u32)\<rparr> \<and> config_ctx_ptr c2 = 0x80000"
  by (rule qspi_setup_connects)
    (simp_all add: example_config_def config_ok_def RTOS_DRIVER_RPC_MAX_CLIENT_TILES_def)

text \<open>The I2S driver's clients learn the numbers of lines; GPIO's channel ends are connected crosswise.\<close>

lemma i2s_setup_connects:
  assumes "config_ok h" "length tiles \<le> RTOS_DRIVER_RPC_MAX_CLIENT_TILES" "i < length tiles"
  shows "\<exists>h1 wss c1. rtos_i2s_rpc_host_init self num_out num_in tiles h = Inr (h1, wss)
    \<and> rtos_i2s_rpc_client_init tile (wss ! i) c = Some ((c1, num_out, num_in), [])"
proof -
  have "\<exists>h1. config_host (\<lambda>i. Inr [self, num_out, num_in]) tiles h = Inr (h1, map (\<lambda>i. [self, num_out, num_in]) [0 ..< length tiles])"
    using assms host_loop_spec [of 0 tiles "\<lambda>i. Inr [self, num_out, num_in]" "\<lambda>i. [self, num_out, num_in]" "addresses h"]
    by (simp add: config_host_def config_ok_def)
  then obtain h1 where "config_host (\<lambda>i. Inr [self, num_out, num_in]) tiles h
      = Inr (h1, map (\<lambda>i. [self, num_out, num_in]) [0 ..< length tiles])" ..
  then show ?thesis using assms(3)
    by - (rule exI [of _ h1], rule exI [of _ "map (\<lambda>i. [self, num_out, num_in]) [0 ..< length tiles]"], rule exI [of _ "config_client tile self c"],
      simp add: rtos_i2s_rpc_host_init_def rtos_i2s_rpc_client_init_def)
qed

lemma gpio_setup_connects:
  assumes "config_ok h" "length tiles \<le> RTOS_DRIVER_RPC_MAX_CLIENT_TILES" "i < length tiles"
    and "length chans = length tiles" "length client_chans = length tiles" "client_chans ! i = own"
  shows "\<exists>h1 wss c1. rtos_gpio_rpc_host_init self chans client_chans tiles h = Inr ((h1, zip chans client_chans), wss)
    \<and> zip chans client_chans ! i = (chans ! i, own)
    \<and> rtos_gpio_rpc_client_init tile own (wss ! i) c = Some ((c1, (own, chans ! i)), [own], [])"
proof -
  have "\<exists>h1. config_host (\<lambda>i. Inr [self, chans ! i]) tiles h = Inr (h1, map (\<lambda>i. [self, chans ! i]) [0 ..< length tiles])"
    using assms host_loop_spec [of 0 tiles "\<lambda>i. Inr [self, chans ! i]" "\<lambda>i. [self, chans ! i]" "addresses h"]
    by (simp add: config_host_def config_ok_def)
  then obtain h1 where "config_host (\<lambda>i. Inr [self, chans ! i]) tiles h
      = Inr (h1, map (\<lambda>i. [self, chans ! i]) [0 ..< length tiles])" ..
  then show ?thesis using assms
    by - (rule exI [of _ h1], rule exI [of _ "map (\<lambda>i. [self, chans ! i]) [0 ..< length tiles]"], rule exI [of _ "config_client tile self c"],
      simp add: rtos_gpio_rpc_host_init_def rtos_gpio_rpc_client_init_def)
qed

text \<open>
  The devices of a client of the SPI driver all become the one device of the host whose
  number is the client's, since the host's loop uses the wrong index; and a client whose
  number is not that of a device makes the host read behind its devices.
\<close>

theorem spi_setup_confuses_devices:
  assumes "config_ok h" "length tiles \<le> RTOS_DRIVER_RPC_MAX_CLIENT_TILES" "tiles \<noteq> []" "devs \<noteq> []"
  shows "length tiles \<le> length devs \<Longrightarrow> i < length tiles \<Longrightarrow>
      \<exists>h1 wss c1. rtos_spi_master_rpc_host_init self devs tiles h = Inr (h1, wss)
        \<and> rtos_spi_master_rpc_client_init tile (length devs) (wss ! i) c = Some ((c1, replicate (length devs) (devs ! i)), [])"
    and "length devs < length tiles \<Longrightarrow> rtos_spi_master_rpc_host_init self devs tiles h = Inl OutOfBounds"
proof -
  let ?sent = "\<lambda>i. if devs = [] then Inr [self] else if i < length devs then Inr (self # replicate (length devs) (devs ! i)) else Inl OutOfBounds"
  assume le: "length tiles \<le> length devs" "i < length tiles"
  let ?f = "\<lambda>i. self # replicate (length devs) (devs ! i)"
  have "host_loop ?sent 0 tiles (addresses h)
      = Inr (map (\<lambda>t. \<lparr>intertile_ctx = t, port = -1\<rparr>) tiles @ drop (length tiles) (addresses h), map ?f [0 ..< length tiles])"
    using assms le host_loop_spec [of 0 tiles ?sent ?f "addresses h"] by (simp add: config_ok_def)
  then show "\<exists>h1 wss c1. rtos_spi_master_rpc_host_init self devs tiles h = Inr (h1, wss)
        \<and> rtos_spi_master_rpc_client_init tile (length devs) (wss ! i) c = Some ((c1, replicate (length devs) (devs ! i)), [])"
    using le(2) by (auto simp: rtos_spi_master_rpc_host_init_def rtos_spi_master_rpc_client_init_def config_host_def)
next
  let ?sent = "\<lambda>i. if devs = [] then Inr [self] else if i < length devs then Inr (self # replicate (length devs) (devs ! i)) else Inl OutOfBounds"
  assume lt: "length devs < length tiles"
  have "host_loop ?sent i ts as = Inl OutOfBounds"
    if "i \<le> length devs" "length devs < i + length ts" "i + length ts \<le> length as" for i ts as
    using that
  proof (induction ts arbitrary: i as)
    case (Cons t ts)
    then show ?case by (cases "i < length devs") (use assms(4) in simp_all)
  qed simp
  from this [of 0 tiles "addresses h"] show "rtos_spi_master_rpc_host_init self devs tiles h = Inl OutOfBounds"
    using assms lt by (simp add: rtos_spi_master_rpc_host_init_def config_host_def config_ok_def)
qed

end
