(* ===== verification/Intertile.thy ===== *)
theory Intertile
  imports Prelude
begin

text \<open>
  The link between two tiles, modules/rtos/drivers/intertile/rtos_intertile.c: one streaming
  channel, whose tokens arrive in the order in which they are written, the interrupt that
  announces a message to the tasks waiting on its port, and the calls that send and receive
  messages whole or in pieces. Allocation succeeds.
\<close>

section \<open>State\<close>

text \<open>
  One end of the link: what is left of the message being sent and received, whether the lock
  is held, the bits of the event group, whether the channel may interrupt, the bytes written
  into the channel and those that have arrived.
\<close>

record intertile =
  tx_len :: u32
  rx_len :: u32
  lock_held :: bool
  event_bits :: u32
  trigger :: bool
  written :: "u8 list"
  arrived :: "u8 list"

text \<open>A word goes through the channel as four bytes, the most significant first. Reading waits for bytes that have not arrived: None.\<close>

definition word_tokens :: "u32 \<Rightarrow> u8 list" where
  "word_tokens w = rev (le32 w)"

definition s_chan_in_word :: "u8 list \<Rightarrow> (u32 \<times> u8 list) option" where
  "s_chan_in_word ts = (if length ts < 4 then None else Some (of_le32 (rev (take 4 ts)), drop 4 ts))"

fun s_chan_in_byte :: "u8 list \<Rightarrow> (u8 \<times> u8 list) option" where
  "s_chan_in_byte (b # ts) = Some (b, ts)"
| "s_chan_in_byte [] = None"

definition s_chan_in_buf_byte :: "nat \<Rightarrow> u8 list \<Rightarrow> (u8 list \<times> u8 list) option" where
  "s_chan_in_buf_byte n ts = (if length ts < n then None else Some (take n ts, drop n ts))"

definition port_bit :: "u8 \<Rightarrow> u32" where
  "port_bit p = push_bit (unat p) 1"

text \<open>
  The event group of the operating system keeps the top eight of its 32 bits for itself; a call with one of these
  fails an assertion: None.
\<close>

definition event_usable :: "u32 \<Rightarrow> bool" where
  "event_usable flags \<longleftrightarrow> flags AND 0xFF000000 = 0"

definition event_group_set_bits :: "u32 \<Rightarrow> intertile \<Rightarrow> intertile option" where
  "event_group_set_bits flags c = (if event_usable flags then Some (c\<lparr>event_bits := event_bits c OR flags\<rparr>) else None)"

section \<open>Receiving\<close>

text \<open>The interrupt: it disables itself, and does not return if the bit of the port cannot be set.\<close>

definition rtos_intertile_isr :: "intertile \<Rightarrow> intertile option" where
  "rtos_intertile_isr c =
     (let c = c\<lparr>trigger := False\<rparr>
      in Option.bind (s_chan_in_byte (arrived c)) (\<lambda>(p, ts). event_group_set_bits (port_bit p) (c\<lparr>arrived := ts\<rparr>)))"

text \<open>
  The wait for the bit of a port, at the moment it ends: with the bit set, which it clears, or
  by its time-out.
\<close>

definition event_get :: "u8 \<Rightarrow> intertile \<Rightarrow> (bool \<times> intertile) option" where
  "event_get p c =
     (if \<not> event_usable (port_bit p) then None
      else if event_bits c AND port_bit p \<noteq> 0 then Some (True, c\<lparr>event_bits := event_bits c AND NOT (port_bit p)\<rparr>)
      else Some (False, c))"

definition rtos_intertile_rx_len :: "u8 \<Rightarrow> intertile \<Rightarrow> (u32 \<times> intertile) res option" where
  "rtos_intertile_rx_len p c =
     (if rx_len c \<noteq> 0 then Some (Inl AssertFail)
      else case event_get p c of
             None \<Rightarrow> None
           | Some (ok, c) \<Rightarrow>
               if ok then map_option (\<lambda>(n, ts). Inr (n, c\<lparr>rx_len := n, arrived := ts\<rparr>)) (s_chan_in_word (arrived c))
               else Some (Inr (rx_len c, c)))"

definition rtos_intertile_rx_data :: "u32 \<Rightarrow> intertile \<Rightarrow> (u8 list \<times> intertile) option" where
  "rtos_intertile_rx_data len c =
     (let n = (if len \<le> rx_len c then len else rx_len c)
      in map_option (\<lambda>(bs, ts). (bs, c\<lparr>arrived := ts, rx_len := rx_len c - n, trigger := trigger c \<or> rx_len c - n = 0\<rparr>))
           (s_chan_in_buf_byte (unat n) (arrived c)))"

text \<open>The task that has been woken reads the message and enables the interrupt again. The result of the call is the message, or NULL after a time-out.\<close>

definition rx_message :: "intertile \<Rightarrow> (u8 list \<times> intertile) option" where
  "rx_message c =
     (case s_chan_in_word (arrived c) of None \<Rightarrow> None
      | Some (len, ts) \<Rightarrow>
          map_option (\<lambda>(bs, ts). (bs, c\<lparr>arrived := ts, trigger := True\<rparr>)) (s_chan_in_buf_byte (unat len) ts))"

definition rtos_intertile_rx :: "u8 \<Rightarrow> intertile \<Rightarrow> (u8 list option \<times> intertile) option" where
  "rtos_intertile_rx p c =
     (case event_get p c of
        None \<Rightarrow> None
      | Some (ok, c) \<Rightarrow> if ok then map_option (\<lambda>(bs, c). (Some bs, c)) (rx_message c) else Some (None, c))"

section \<open>Sending\<close>

text \<open>The lock is taken by a call only when it is free; a caller that has to wait has no result yet.\<close>

definition mutex_get :: "intertile \<Rightarrow> intertile option" where
  "mutex_get c = (if lock_held c then None else Some (c\<lparr>lock_held := True\<rparr>))"

definition mutex_put :: "intertile \<Rightarrow> intertile" where
  "mutex_put c = c\<lparr>lock_held := False\<rparr>"

definition chan_out :: "u8 list \<Rightarrow> intertile \<Rightarrow> intertile" where
  "chan_out ts c = c\<lparr>written := written c @ ts\<rparr>"

definition rtos_intertile_tx_len :: "u8 \<Rightarrow> u32 \<Rightarrow> intertile \<Rightarrow> intertile res option" where
  "rtos_intertile_tx_len p len c =
     (case mutex_get c of
        None \<Rightarrow> None
      | Some c \<Rightarrow> if tx_len c \<noteq> 0 then Some (Inl AssertFail)
                  else Some (Inr (chan_out (p # word_tokens len) (c\<lparr>tx_len := len\<rparr>))))"

text \<open>The caller's \<open>data\<close> is at least \<open>len\<close> bytes; here it is exactly these.\<close>

definition rtos_intertile_tx_data :: "u8 list \<Rightarrow> intertile \<Rightarrow> u32 \<times> intertile" where
  "rtos_intertile_tx_data data c =
     (let len = (of_nat (length data) :: u32); n = (if len \<le> tx_len c then len else tx_len c);
          c = chan_out (take (unat n) data) c;
          c = c\<lparr>tx_len := tx_len c - n\<rparr>
      in (n, if tx_len c = 0 then mutex_put c else c))"

text \<open>What a message is on the link; sending one takes the lock, writes these bytes and gives the lock back.\<close>

definition message_tokens :: "u8 \<Rightarrow> u8 list \<Rightarrow> u8 list" where
  "message_tokens p msg = p # word_tokens (of_nat (length msg)) @ msg"

definition rtos_intertile_tx :: "u8 \<Rightarrow> u8 list \<Rightarrow> intertile \<Rightarrow> intertile option" where
  "rtos_intertile_tx p msg c = map_option (\<lambda>c. mutex_put (chan_out (message_tokens p msg) c)) (mutex_get c)"

definition rtos_intertile_init :: intertile where
  "rtos_intertile_init = \<lparr>tx_len = 0, rx_len = 0, lock_held = False, event_bits = 0, trigger = False,
     written = [], arrived = []\<rparr>"

definition rtos_intertile_start :: "intertile \<Rightarrow> intertile" where
  "rtos_intertile_start c = c\<lparr>trigger := True\<rparr>"

section \<open>Sequences of calls\<close>

text \<open>Sending a list of pieces, and receiving pieces of given sizes.\<close>

fun tx_pieces :: "u8 list list \<Rightarrow> intertile \<Rightarrow> intertile" where
  "tx_pieces [] c = c"
| "tx_pieces (d # ds) c = tx_pieces ds (snd (rtos_intertile_tx_data d c))"

fun rx_pieces :: "u32 list \<Rightarrow> intertile \<Rightarrow> (u8 list \<times> intertile) option" where
  "rx_pieces [] c = Some ([], c)"
| "rx_pieces (n # ns) c =
     (case rtos_intertile_rx_data n c of None \<Rightarrow> None
      | Some (bs, c) \<Rightarrow> map_option (\<lambda>(cs, c). (bs @ cs, c)) (rx_pieces ns c))"

section \<open>Lemmas\<close>

lemma chan_in_bytes [simp]: "n = length bs \<Longrightarrow> s_chan_in_buf_byte n (bs @ ts) = Some (bs, ts)"
  by (simp add: s_chan_in_buf_byte_def)

lemma length_word_tokens [simp]: "length (word_tokens w) = 4"
  by (simp add: word_tokens_def)

lemma chan_in_word [simp]: "s_chan_in_word (word_tokens w @ ts) = Some (w, ts)"
  by (simp add: s_chan_in_word_def word_tokens_def)

lemma bit_port_bit: "unat p < 32 \<Longrightarrow> bit (port_bit p) n \<longleftrightarrow> n = unat p"
  unfolding port_bit_def by (auto simp: bit_simps dest: bit_imp_le_length)

lemma port_bit_nonzero: "unat p < 32 \<Longrightarrow> port_bit p \<noteq> 0"
  using bit_port_bit [of p "unat p"] by auto

lemma port_bit_usable: "unat p < 24 \<Longrightarrow> event_usable (port_bit p)"
proof -
  assume p: "unat p < 24"
  have "\<not> bit (0xFF000000 :: u32) n" if "n < 24" for n
  proof -
    have "(0xFF000000 :: u32) = push_bit 24 0xFF" by simp
    then show ?thesis using that by (simp only: bit_push_bit_iff) simp
  qed
  then have "port_bit p AND 0xFF000000 = 0" using p by (intro bit_word_eqI) (auto simp only: bit_and_iff bit_port_bit bit_0_eq)
  then show ?thesis by (simp add: event_usable_def)
qed

lemma port_bits_apart: "unat p < 32 \<Longrightarrow> unat q < 32 \<Longrightarrow> port_bit p AND port_bit q \<noteq> 0 \<longleftrightarrow> p = q"
proof
  assume "unat p < 32" "unat q < 32" "port_bit p AND port_bit q \<noteq> 0"
  moreover from this obtain n where "bit (port_bit p AND port_bit q) n" by (metis bit_0_eq bit_eqI bot_apply bot_bool_def)
  ultimately show "p = q" by (auto simp: bit_and_iff bit_port_bit word_unat_eq_iff)
qed (simp add: port_bit_nonzero)

lemma tx_pieces_spec:
  assumes "ds \<noteq> []" "[] \<notin> set ds" "unat (tx_len c) = length (concat ds)"
  shows "tx_pieces ds c = c\<lparr>written := written c @ concat ds, tx_len := 0, lock_held := False\<rparr>"
  using assms
proof (induction ds arbitrary: c)
  case (Cons d ds)
  have small: "length d < 2 ^ 32" "length d \<le> unat (tx_len c)"
    using Cons.prems(3) unsigned_less [of "tx_len c", where ?'a = nat] by simp_all
  then have ud: "unat (of_nat (length d) :: u32) = length d" by (simp add: unat_of_nat)
  then have le: "(of_nat (length d) :: u32) \<le> tx_len c" using small by (simp add: word_le_nat_alt)
  have sub: "unat (tx_len c - of_nat (length d)) = length (concat ds)"
    using unat_sub [OF le] ud Cons.prems(3) by simp
  have z: "tx_len c - of_nat (length d) = 0 \<longleftrightarrow> concat ds = []"
    using sub by (metis length_0_conv unat_eq_zero)
  let ?c = "snd (rtos_intertile_tx_data d c)"
  have step: "?c = c\<lparr>written := written c @ d, tx_len := tx_len c - of_nat (length d),
      lock_held := (if concat ds = [] then False else lock_held c)\<rparr>"
    using le ud z by (simp add: rtos_intertile_tx_data_def Let_def chan_out_def mutex_put_def)
  show ?case
  proof (cases "ds = []")
    case True
    then show ?thesis using step z by simp
  next
    case False
    have "unat (tx_len ?c) = length (concat ds)" unfolding step using sub by simp
    then have "tx_pieces ds ?c = ?c\<lparr>written := written ?c @ concat ds, tx_len := 0, lock_held := False\<rparr>"
      using Cons.prems False by (intro Cons.IH) simp_all
    then show ?thesis by (simp add: step)
  qed
qed simp

lemma rx_pieces_spec:
  assumes "ns \<noteq> []" "0 \<notin> set ns" "sum_list (map unat ns) = length bs" "unat (rx_len c) = length bs"
    and "arrived c = bs @ ts"
  shows "rx_pieces ns c = Some (bs, c\<lparr>arrived := ts, rx_len := 0, trigger := True\<rparr>)"
  using assms
proof (induction ns arbitrary: c bs)
  case (Cons n ns)
  have le: "n \<le> rx_len c" using Cons.prems(3,4) by (simp add: word_le_nat_alt)
  let ?c = "c\<lparr>arrived := drop (unat n) bs @ ts, rx_len := rx_len c - n, trigger := trigger c \<or> rx_len c - n = 0\<rparr>"
  have n: "unat n \<le> length bs" using Cons.prems(3) by simp
  have step: "rtos_intertile_rx_data n c = Some (take (unat n) bs, ?c)"
    using le n Cons.prems(5) by (auto simp: rtos_intertile_rx_data_def s_chan_in_buf_byte_def Let_def)
  have sub: "unat (rx_len c - n) = length (drop (unat n) bs)" using unat_sub [OF le] Cons.prems(4) by simp
  show ?case
  proof (cases "ns = []")
    case True
    then have "unat n = length bs" using Cons.prems(3) by simp
    moreover from this have "rx_len c - n = 0" using sub by (metis diff_self_eq_0 length_drop unat_eq_zero)
    ultimately show ?thesis using True step by simp
  next
    case False
    have "rx_pieces ns ?c = Some (drop (unat n) bs, ?c\<lparr>arrived := ts, rx_len := 0, trigger := True\<rparr>)"
      by (rule Cons.IH [OF False]) (use Cons.prems sub in simp_all)
    then show ?thesis using step by simp
  qed
qed simp

section \<open>Properties\<close>

lemma isr_event:
  assumes "arrived c = p # ts" "unat p < 24"
  shows "\<exists>d. rtos_intertile_isr c = Some d \<and> event_get p d = Some (True, d\<lparr>event_bits := event_bits d AND NOT (port_bit p)\<rparr>)
    \<and> d = c\<lparr>trigger := False, arrived := ts, event_bits := event_bits c OR port_bit p\<rparr>"
proof -
  have "(event_bits c OR port_bit p) AND port_bit p = port_bit p" by (rule bit_word_eqI) (auto simp: bit_simps)
  then show ?thesis using assms port_bit_nonzero [of p] port_bit_usable [of p]
    by (simp add: rtos_intertile_isr_def event_get_def event_group_set_bits_def)
qed

text \<open>
  C26: A message sent in pieces and received in pieces arrives as it was sent: after the
  interrupt, the receiver learns the message's length and gets its bytes, however the sender
  and the receiver cut it into nonempty pieces; the sender has released the link, and the
  receiver's channel may interrupt again, with nothing of the message left in it.
\<close>

theorem intertile_pieces_arrive:
  assumes send: "\<not> lock_held a" "tx_len a = 0" "written a = []" "ds \<noteq> []" "[] \<notin> set ds"
    and len: "length (concat ds) < 2 ^ 32" "unat p < 24"
    and recv: "rx_len b = 0" "ns \<noteq> []" "0 \<notin> set ns" "sum_list (map unat ns) = length (concat ds)"
  shows "\<exists>a1 a2 b1 b2 b3. rtos_intertile_tx_len p (of_nat (length (concat ds))) a = Some (Inr a1)
    \<and> tx_pieces ds a1 = a2 \<and> \<not> lock_held a2 \<and> tx_len a2 = 0
    \<and> rtos_intertile_isr (b\<lparr>arrived := written a2 @ ts\<rparr>) = Some b1
    \<and> rtos_intertile_rx_len p b1 = Some (Inr (of_nat (length (concat ds)), b2))
    \<and> rx_pieces ns b2 = Some (concat ds, b3) \<and> trigger b3 \<and> rx_len b3 = 0 \<and> arrived b3 = ts"
proof -
  let ?n = "of_nat (length (concat ds)) :: u32"
  have un: "unat ?n = length (concat ds)" using len(1) by (simp add: unat_of_nat)
  obtain a1 where a1: "rtos_intertile_tx_len p ?n a = Some (Inr a1)"
    "a1 = a\<lparr>lock_held := True, tx_len := ?n, written := p # word_tokens ?n\<rparr>"
    using send by (simp add: rtos_intertile_tx_len_def mutex_get_def chan_out_def)
  obtain a2 where a2: "tx_pieces ds a1 = a2"
    "a2 = a1\<lparr>written := (p # word_tokens ?n) @ concat ds, tx_len := 0, lock_held := False\<rparr>"
    using tx_pieces_spec [OF send(4,5), of a1] un a1(2) by simp
  have arr: "arrived (b\<lparr>arrived := written a2 @ ts\<rparr>) = p # word_tokens ?n @ concat ds @ ts"
    using a2(2) by simp
  obtain b1 where b1: "rtos_intertile_isr (b\<lparr>arrived := written a2 @ ts\<rparr>) = Some b1"
    "event_get p b1 = Some (True, b1\<lparr>event_bits := event_bits b1 AND NOT (port_bit p)\<rparr>)"
    "arrived b1 = word_tokens ?n @ concat ds @ ts" "rx_len b1 = 0"
    using isr_event [OF arr len(2)] recv(1) by auto
  obtain b2 where b2: "rtos_intertile_rx_len p b1 = Some (Inr (?n, b2))" "rx_len b2 = ?n"
    "arrived b2 = concat ds @ ts"
    using b1 by (simp add: rtos_intertile_rx_len_def)
  have "rx_pieces ns b2 = Some (concat ds, b2\<lparr>arrived := ts, rx_len := 0, trigger := True\<rparr>)"
    using b2 un by (intro rx_pieces_spec [OF recv(2,3,4)]) simp_all
  with a1(1) a2 b1(1) b2(1) show ?thesis
    by (intro exI [of _ a1] exI [of _ a2] exI [of _ b1] exI [of _ b2]
        exI [of _ "b2\<lparr>arrived := ts, rx_len := 0, trigger := True\<rparr>"]) simp
qed

theorem intertile_pieces_arrive_witness:
  "\<exists>a1 a2 b1 b2 b3. rtos_intertile_tx_len 5 (of_nat (length (concat [[1, 2], [3 :: u8]]))) rtos_intertile_init = Some (Inr a1)
    \<and> tx_pieces [[1, 2], [3]] a1 = a2 \<and> \<not> lock_held a2 \<and> tx_len a2 = 0
    \<and> rtos_intertile_isr (rtos_intertile_init\<lparr>arrived := written a2 @ []\<rparr>) = Some b1
    \<and> rtos_intertile_rx_len 5 b1 = Some (Inr (of_nat (length (concat [[1, 2], [3 :: u8]])), b2))
    \<and> rx_pieces [1, 2] b2 = Some (concat [[1, 2], [3]], b3) \<and> trigger b3 \<and> rx_len b3 = 0 \<and> arrived b3 = []"
  by (rule intertile_pieces_arrive) (simp_all add: rtos_intertile_init_def)
section \<open>The link with all its tasks\<close>

text \<open>
  A task for each port sends its messages one after the other on one tile; on the other tile a task for each port of a set
  waits for the messages of its port. The tasks, the channel and the interrupt make their steps in any order. Each sender writes
  its message byte by byte while it holds the lock; each receiver is woken by the event group alone, and reads when all the bytes
  it reads have arrived. \<open>il_out\<close> is what a task that holds the lock has left to write, \<open>il_sent\<close> the messages in the order
  in which they took the lock, \<open>il_got\<close> the messages in the order in which they have been received, with the port of the receiver.
\<close>

record il_sys =
  il_tx :: intertile
  il_rx :: intertile
  il_queue :: "u8 \<Rightarrow> u8 list list"
  il_out :: "u8 \<Rightarrow> u8 list option"
  il_sent :: "(u8 \<times> u8 list) list"
  il_reading :: "u8 \<Rightarrow> bool"
  il_got :: "(u8 \<times> u8 list) list"

datatype il_event = Tx_Begin u8 | Tx_Byte u8 | Tx_End u8 | Arrive | Interrupt | Rx_Wake u8 | Rx_Read u8

inductive il_step :: "u8 set \<Rightarrow> il_event \<Rightarrow> il_sys \<Rightarrow> il_sys \<Rightarrow> bool" for T where
  tx_begin: "il_queue y p = m # ms \<Longrightarrow> il_out y p = None \<Longrightarrow> mutex_get (il_tx y) = Some c \<Longrightarrow>
    il_step T (Tx_Begin p) y (y\<lparr>il_tx := c, il_queue := (il_queue y)(p := ms), il_out := (il_out y)(p := Some (message_tokens p m)),
      il_sent := il_sent y @ [(p, m)]\<rparr>)"
| tx_byte: "il_out y p = Some (b # bs) \<Longrightarrow>
    il_step T (Tx_Byte p) y (y\<lparr>il_tx := chan_out [b] (il_tx y), il_out := (il_out y)(p := Some bs)\<rparr>)"
| tx_end: "il_out y p = Some [] \<Longrightarrow>
    il_step T (Tx_End p) y (y\<lparr>il_tx := mutex_put (il_tx y), il_out := (il_out y)(p := None)\<rparr>)"
| arrive: "written (il_tx y) = b # bs \<Longrightarrow>
    il_step T Arrive y (y\<lparr>il_tx := (il_tx y)\<lparr>written := bs\<rparr>, il_rx := (il_rx y)\<lparr>arrived := arrived (il_rx y) @ [b]\<rparr>\<rparr>)"
| interrupt: "trigger (il_rx y) \<Longrightarrow> rtos_intertile_isr (il_rx y) = Some c \<Longrightarrow> il_step T Interrupt y (y\<lparr>il_rx := c\<rparr>)"
| rx_wake: "p \<in> T \<Longrightarrow> \<not> il_reading y p \<Longrightarrow> event_get p (il_rx y) = Some (True, c) \<Longrightarrow>
    il_step T (Rx_Wake p) y (y\<lparr>il_rx := c, il_reading := (il_reading y)(p := True)\<rparr>)"
| rx_read: "il_reading y p \<Longrightarrow> rx_message (il_rx y) = Some (m, c) \<Longrightarrow>
    il_step T (Rx_Read p) y (y\<lparr>il_rx := c, il_reading := (il_reading y)(p := False), il_got := il_got y @ [(p, m)]\<rparr>)"

inductive_cases il_stepE: "il_step T e y y'"

inductive il_run :: "u8 set \<Rightarrow> nat \<Rightarrow> il_sys \<Rightarrow> il_sys \<Rightarrow> bool" for T where
  il_run_0: "il_run T 0 y y"
| il_run_Suc: "il_run T n y y' \<Longrightarrow> il_step T e y' y'' \<Longrightarrow> il_run T (Suc n) y y''"

text \<open>At the start nothing has been sent; the interrupt is enabled.\<close>

definition il_start :: "(u8 \<Rightarrow> u8 list list) \<Rightarrow> il_sys" where
  "il_start q = \<lparr>il_tx = rtos_intertile_start rtos_intertile_init, il_rx = rtos_intertile_start rtos_intertile_init, il_queue = q,
     il_out = \<lambda>p. None, il_sent = [], il_reading = \<lambda>p. False, il_got = []\<rparr>"

definition messages_of :: "u8 \<Rightarrow> (u8 \<times> u8 list) list \<Rightarrow> u8 list list" where
  "messages_of p ms = map snd (filter (\<lambda>(q, m). q = p) ms)"

lemma messages_of_append [simp]:
  "messages_of p [] = []" "messages_of p (xs @ ys) = messages_of p xs @ messages_of p ys"
  "messages_of p ((q, m) # xs) = (if q = p then m # messages_of p xs else messages_of p xs)"
  by (simp_all add: messages_of_def)

text \<open>
  The receiver is idle, or a message has been announced to a task, or the task is reading it; \<open>fl\<close> are the messages that have
  been sent and not received, \<open>cur\<close> is the message being written.
\<close>

definition tokens_of :: "(u8 \<times> u8 list) list \<Rightarrow> u8 list" where
  "tokens_of ms = concat (map (\<lambda>(p, m). message_tokens p m) ms)"

lemma tokens_of_simps [simp]:
  "tokens_of [] = []" "tokens_of ((p, m) # ms) = message_tokens p m @ tokens_of ms" "tokens_of (ms @ ms') = tokens_of ms @ tokens_of ms'"
  by (simp_all add: tokens_of_def)

datatype phase = Idle | Announced u8 | Reading u8

fun rx_phase :: "phase \<Rightarrow> (u8 \<times> u8 list) list \<Rightarrow> u8 list \<Rightarrow> intertile \<Rightarrow> (u8 \<Rightarrow> bool) \<Rightarrow> bool" where
  "rx_phase Idle fl stream c reading \<longleftrightarrow> trigger c \<and> event_bits c = 0 \<and> reading = (\<lambda>q. False)
     \<and> stream = tokens_of fl"
| "rx_phase (Announced p) fl stream c reading \<longleftrightarrow> \<not> trigger c \<and> event_bits c = port_bit p \<and> reading = (\<lambda>q. False)
     \<and> fl \<noteq> [] \<and> fst (hd fl) = p \<and> stream = tl (tokens_of fl)"
| "rx_phase (Reading p) fl stream c reading \<longleftrightarrow> \<not> trigger c \<and> event_bits c = 0 \<and> reading = (\<lambda>q. q = p)
     \<and> fl \<noteq> [] \<and> fst (hd fl) = p \<and> stream = tl (tokens_of fl)"

definition tx_phase :: "(u8 \<times> u8 list) option \<Rightarrow> (u8 \<Rightarrow> u8 list option) \<Rightarrow> bool \<Rightarrow> bool" where
  "tx_phase cur out held \<longleftrightarrow> held = (cur \<noteq> None) \<and> out = (case cur of None \<Rightarrow> (\<lambda>p. None) | Some (p, bs) \<Rightarrow> (\<lambda>p. None)(p := Some bs))"

definition to_write :: "(u8 \<times> u8 list) option \<Rightarrow> u8 list" where
  "to_write cur = (case cur of None \<Rightarrow> [] | Some (p, bs) \<Rightarrow> bs)"

definition small_messages :: "u8 set \<Rightarrow> (u8 \<Rightarrow> u8 list list) \<Rightarrow> bool" where
  "small_messages T q \<longleftrightarrow> (\<forall>p \<in> T. unat p < 24) \<and> (\<forall>p. (q p \<noteq> [] \<longrightarrow> p \<in> T) \<and> (\<forall>m \<in> set (q p). length m < 2 ^ 32))"

definition il_inv :: "u8 set \<Rightarrow> (u8 \<Rightarrow> u8 list list) \<Rightarrow> phase \<Rightarrow> (u8 \<times> u8 list) option \<Rightarrow> (u8 \<times> u8 list) list \<Rightarrow> il_sys \<Rightarrow> bool" where
  "il_inv T q ph cur fl y \<longleftrightarrow>
     il_sent y = il_got y @ fl \<and> (\<forall>p. q p = messages_of p (il_sent y) @ il_queue y p)
     \<and> (\<forall>(p, m) \<in> set fl. p \<in> T \<and> length m < 2 ^ 32)
     \<and> tx_phase cur (il_out y) (lock_held (il_tx y))
     \<and> rx_phase ph fl (arrived (il_rx y) @ written (il_tx y) @ to_write cur) (il_rx y) (il_reading y)"
text \<open>The steps that are left: one at the begin and the end of each message, two for each byte, three to announce, wake and read.\<close>

definition il_work :: "(u8 \<Rightarrow> u8 list list) \<Rightarrow> nat" where
  "il_work q = (\<Sum>p\<in>UNIV. \<Sum>m\<leftarrow>q p. 15 + 2 * length m)"

fun stage :: "phase \<Rightarrow> nat" where
  "stage Idle = 0"
| "stage (Announced p) = 1"
| "stage (Reading p) = 2"

definition il_left :: "phase \<Rightarrow> (u8 \<times> u8 list) option \<Rightarrow> (u8 \<times> u8 list) list \<Rightarrow> il_sys \<Rightarrow> nat" where
  "il_left ph cur fl y = il_work (il_queue y) + (case cur of None \<Rightarrow> 0 | Some (p, bs) \<Rightarrow> 1 + 2 * length bs)
     + length (written (il_tx y)) + (3 * length fl - stage ph)"

lemma il_work_pop: "q p = m # ms \<Longrightarrow> il_work q = il_work (q(p := ms)) + (15 + 2 * length m)"
  unfolding il_work_def by (subst (1 2) sum.remove [of UNIV p]) (auto intro!: sum.cong)

lemma length_message_tokens [simp]: "length (message_tokens p m) = 5 + length m"
  by (simp add: message_tokens_def)

lemma rx_phase_append: "rx_phase ph fl s c r \<Longrightarrow> rx_phase ph (fl @ [(p, m)]) (s @ message_tokens p m) c r"
  by (cases ph; cases fl) (auto simp: message_tokens_def)

lemma rx_phase_arrived: "rx_phase ph fl s (c\<lparr>arrived := a\<rparr>) r = rx_phase ph fl s c r"
  by (cases ph) simp_all

lemma tx_phase_out: "tx_phase cur out h \<Longrightarrow> out p = Some bs \<Longrightarrow> cur = Some (p, bs)"
  by (auto simp: tx_phase_def split: option.splits if_splits)

lemma tx_phase_simps [simp]:
  "tx_phase None out h \<longleftrightarrow> \<not> h \<and> out = (\<lambda>p. None)" "tx_phase (Some (p, bs)) out h \<longleftrightarrow> h \<and> out = (\<lambda>p. None)(p := Some bs)"
  by (simp_all add: tx_phase_def)

lemma tx_phase_free: "tx_phase cur out False \<Longrightarrow> cur = None"
  by (cases cur) (simp_all add: tx_phase_def)

lemma to_write_simps [simp]: "to_write None = []" "to_write (Some (p, bs)) = bs"
  by (simp_all add: to_write_def)

lemma chan_sel [simp]:
  "written (chan_out ts c) = written c @ ts" "lock_held (chan_out ts c) = lock_held c" "written (mutex_put c) = written c"
  "lock_held (mutex_put c) = False"
  by (simp_all add: chan_out_def mutex_put_def)

lemma small_pop:
  assumes "small_messages T q" "\<forall>p. q p = messages_of p s @ qs p" "qs p = m # ms"
  shows "p \<in> T \<and> length m < 2 ^ 32"
proof -
  have "m \<in> set (q p)" "q p \<noteq> []" using assms(2) [rule_format, of p] assms(3) by simp_all
  then show ?thesis using assms(1) by (auto simp: small_messages_def)
qed

lemma inv_tx_begin:
  assumes "small_messages T q" "il_inv T q ph cur fl y" "il_queue y p = m # ms" "mutex_get (il_tx y) = Some c"
  shows "il_inv T q ph (Some (p, message_tokens p m)) (fl @ [(p, m)]) (y\<lparr>il_tx := c, il_queue := (il_queue y)(p := ms),
      il_out := (il_out y)(p := Some (message_tokens p m)), il_sent := il_sent y @ [(p, m)]\<rparr>)"
proof -
  have c: "\<not> lock_held (il_tx y)" "c = (il_tx y)\<lparr>lock_held := True\<rparr>" using assms(4) by (auto simp: mutex_get_def split: if_splits)
  then have "cur = None" "il_out y = (\<lambda>p. None)" using assms(2) tx_phase_free [of cur "il_out y"] by (auto simp: il_inv_def)
  moreover have "p \<in> T \<and> length m < 2 ^ 32" using small_pop [OF assms(1), of "il_sent y" "il_queue y" p m ms] assms(2,3) by (auto simp: il_inv_def)
  ultimately show ?thesis using assms(2,3) c rx_phase_append [of ph fl "arrived (il_rx y) @ written (il_tx y)" "il_rx y" "il_reading y" p m] by (auto simp: il_inv_def)
qed

lemma inv_tx_byte:
  assumes "il_inv T q ph cur fl y" "il_out y p = Some (b # bs)"
  shows "cur = Some (p, b # bs)" "il_inv T q ph (Some (p, bs)) fl (y\<lparr>il_tx := chan_out [b] (il_tx y), il_out := (il_out y)(p := Some bs)\<rparr>)"
proof -
  show cur: "cur = Some (p, b # bs)" using assms tx_phase_out by (auto simp: il_inv_def)
  show "il_inv T q ph (Some (p, bs)) fl (y\<lparr>il_tx := chan_out [b] (il_tx y), il_out := (il_out y)(p := Some bs)\<rparr>)"
    using assms(1) unfolding cur by (simp add: il_inv_def)
qed

lemma inv_tx_end:
  assumes "il_inv T q ph cur fl y" "il_out y p = Some []"
  shows "cur = Some (p, [])" "il_inv T q ph None fl (y\<lparr>il_tx := mutex_put (il_tx y), il_out := (il_out y)(p := None)\<rparr>)"
proof -
  show cur: "cur = Some (p, [])" using assms tx_phase_out by (auto simp: il_inv_def)
  show "il_inv T q ph None fl (y\<lparr>il_tx := mutex_put (il_tx y), il_out := (il_out y)(p := None)\<rparr>)"
    using assms(1) unfolding cur by (auto simp: il_inv_def fun_eq_iff)
qed

lemma inv_arrive:
  assumes "il_inv T q ph cur fl y" "written (il_tx y) = b # bs"
  shows "il_inv T q ph cur fl (y\<lparr>il_tx := (il_tx y)\<lparr>written := bs\<rparr>, il_rx := (il_rx y)\<lparr>arrived := arrived (il_rx y) @ [b]\<rparr>\<rparr>)"
  using assms by (simp add: il_inv_def rx_phase_arrived)
lemma rx_phase_arrived_eq: "trigger c' = trigger c \<Longrightarrow> event_bits c' = event_bits c \<Longrightarrow> rx_phase ph fl s c' r = rx_phase ph fl s c r"
  by (cases ph) simp_all

lemma tokens_hd: "fl \<noteq> [] \<Longrightarrow> \<exists>ts. tokens_of fl = fst (hd fl) # ts"
  by (cases fl) (auto simp: message_tokens_def)

lemma only_upd [simp]: "(\<lambda>q. False)(p := True) = (\<lambda>q. q = p)" "(\<lambda>q. q = p)(p := False) = (\<lambda>q. False)"
  by (simp_all add: fun_eq_iff)

lemma inv_interrupt:
  assumes small: "small_messages T q" and inv: "il_inv T q ph cur fl y" and isr: "trigger (il_rx y)" "rtos_intertile_isr (il_rx y) = Some c"
  shows "ph = Idle \<and> fl \<noteq> [] \<and> il_inv T q (Announced (fst (hd fl))) cur fl (y\<lparr>il_rx := c\<rparr>)"
proof -
  have ph: "ph = Idle" using inv isr(1) by (cases ph) (auto simp: il_inv_def)
  obtain b ts where a: "arrived (il_rx y) = b # ts" using isr(2) by (cases "arrived (il_rx y)") (auto simp: rtos_intertile_isr_def)
  then have fl: "fl \<noteq> []" using inv ph by (auto simp: il_inv_def)
  have "b = fst (hd fl)" using inv ph a tokens_hd [OF fl] by (auto simp: il_inv_def)
  moreover have "unat (fst (hd fl)) < 24"
    using inv fl small by (cases fl) (auto simp: il_inv_def small_messages_def)
  ultimately have "c = (il_rx y)\<lparr>trigger := False, arrived := ts, event_bits := event_bits (il_rx y) OR port_bit (fst (hd fl))\<rparr>"
    using isr_event [OF a] isr(2) by auto
  then show ?thesis using inv ph fl a tokens_hd [OF fl] by (auto simp: il_inv_def)
qed

lemma inv_wake:
  assumes small: "small_messages T q" and inv: "il_inv T q ph cur fl y" and p: "p \<in> T" and get: "event_get p (il_rx y) = Some (True, c)"
  shows "ph = Announced p \<and> il_inv T q (Reading p) cur fl (y\<lparr>il_rx := c, il_reading := (il_reading y)(p := True)\<rparr>)"
proof -
  have bits: "event_bits (il_rx y) AND port_bit p \<noteq> 0" "c = (il_rx y)\<lparr>event_bits := event_bits (il_rx y) AND NOT (port_bit p)\<rparr>"
    using get by (auto simp: event_get_def split: if_splits)
  then obtain p' where ph: "ph = Announced p'" using inv by (cases ph) (auto simp: il_inv_def)
  then have fl: "fl \<noteq> []" "fst (hd fl) = p'" "event_bits (il_rx y) = port_bit p'" using inv by (auto simp: il_inv_def)
  then have "p' \<in> T" using inv by (cases fl) (auto simp: il_inv_def)
  then have "p' = p" using port_bits_apart [of p' p] small p fl(3) bits(1) by (fastforce simp: small_messages_def)
  moreover have "port_bit p AND NOT (port_bit p) = 0" by (rule bit_word_eqI) (simp add: bit_simps)
  ultimately show ?thesis using inv ph fl bits(2) by (auto simp: il_inv_def)
qed

lemma rx_message_append:
  assumes "rx_message c = Some (bs, d)" "arrived c @ ts = word_tokens (of_nat (length m)) @ m @ rest" "length m < 2 ^ 32"
  shows "bs = m \<and> d = c\<lparr>arrived := arrived d, trigger := True\<rparr> \<and> arrived d @ ts = rest"
proof -
  have un: "unat (of_nat (length m) :: u32) = length m" using assms(3) by (simp add: unat_of_nat)
  obtain len us where len: "s_chan_in_word (arrived c) = Some (len, us)" using assms(1) by (auto simp: rx_message_def split: option.splits)
  then have four: "4 \<le> length (arrived c)" by (auto simp: s_chan_in_word_def split: if_splits)
  have "s_chan_in_word (arrived c @ ts) = Some (len, us @ ts)" using len four by (auto simp: s_chan_in_word_def)
  then have us: "len = of_nat (length m)" "us @ ts = m @ rest" using assms(2) by simp_all
  have "length m \<le> length us" "bs = take (length m) us" "d = c\<lparr>arrived := drop (length m) us, trigger := True\<rparr>"
    using assms(1) len us(1) un by (auto simp: rx_message_def s_chan_in_buf_byte_def split: if_splits)
  moreover from this us(2) have "take (length m) us = m \<and> drop (length m) us @ ts = rest"
    by (metis append_eq_conv_conj append_take_drop_id drop_append length_take min.absorb2 diff_is_0_eq drop0 take_append append_Nil2 take0)
  ultimately show ?thesis by simp
qed

lemma inv_read:
  assumes inv: "il_inv T q ph cur fl y" and r: "il_reading y p" and msg: "rx_message (il_rx y) = Some (m, c)"
  shows "ph = Reading p \<and> fl \<noteq> [] \<and> il_inv T q Idle cur (tl fl) (y\<lparr>il_rx := c, il_reading := (il_reading y)(p := False), il_got := il_got y @ [(p, m)]\<rparr>)"
proof -
  have ph: "ph = Reading p" using inv r by (cases ph) (auto simp: il_inv_def)
  then obtain m' fl' where fl: "fl = (p, m') # fl'" using inv by (cases fl) (auto simp: il_inv_def)
  have st: "arrived (il_rx y) @ (written (il_tx y) @ to_write cur) = word_tokens (of_nat (length m')) @ m' @ tokens_of fl'"
    "length m' < 2 ^ 32" using inv ph fl by (simp_all add: il_inv_def message_tokens_def)
  have "m = m'" and c: "c = (il_rx y)\<lparr>arrived := arrived c, trigger := True\<rparr>"
    and a: "arrived c @ (written (il_tx y) @ to_write cur) = tokens_of fl'"
    using rx_message_append [OF msg st] by simp_all
  moreover have "trigger c" "event_bits c = 0" using c inv ph by (simp_all add: il_inv_def) (metis intertile.select_convs intertile.surjective intertile.update_convs)+
  moreover have "(il_reading y)(p := False) = (\<lambda>q. False)" using inv ph by (simp add: il_inv_def)
  ultimately show ?thesis using inv ph fl by (simp add: il_inv_def)
qed
lemma il_inv_step:
  assumes small: "small_messages T q" and step: "il_step T e y y'" and inv: "il_inv T q ph cur fl y"
  shows "\<exists>ph' cur' fl'. il_inv T q ph' cur' fl' y' \<and> il_left ph cur fl y = Suc (il_left ph' cur' fl' y')"
  using step
proof cases
  case (tx_begin p m ms c)
  have "cur = None" "written c = written (il_tx y)"
    using tx_begin(5) inv tx_phase_free [of cur "il_out y"] by (auto simp: il_inv_def mutex_get_def split: if_splits)
  moreover have "stage ph \<le> 3 * length fl" using inv by (cases ph; cases fl) (auto simp: il_inv_def)
  ultimately show ?thesis using inv_tx_begin [OF small inv tx_begin(3,5)] il_work_pop [of "il_queue y", OF tx_begin(3)] tx_begin(2)
    by (intro exI [of _ ph] exI [of _ "Some (p, message_tokens p m)"] exI [of _ "fl @ [(p, m)]"]) (simp add: il_left_def)
next
  case (tx_byte p b bs)
  then show ?thesis using inv_tx_byte [OF inv tx_byte(3)]
    by (intro exI [of _ ph] exI [of _ "Some (p, bs)"] exI [of _ fl]) (simp add: il_left_def)
next
  case (tx_end p)
  then show ?thesis using inv_tx_end [OF inv tx_end(3)]
    by (intro exI [of _ ph] exI [of _ None] exI [of _ fl]) (simp add: il_left_def)
next
  case (arrive b bs)
  then show ?thesis using inv_arrive [OF inv arrive(3)]
    by (intro exI [of _ ph] exI [of _ cur] exI [of _ fl]) (simp add: il_left_def)
next
  case (interrupt c)
  then show ?thesis using inv_interrupt [OF small inv interrupt(3,4)]
    by (intro exI [of _ "Announced (fst (hd fl))"] exI [of _ cur] exI [of _ fl]) (cases fl, auto simp: il_left_def)
next
  case (rx_wake p c)
  moreover have "fl \<noteq> []" using inv_wake [OF small inv rx_wake(3,5)] by (auto simp: il_inv_def)
  ultimately show ?thesis using inv_wake [OF small inv rx_wake(3,5)]
    by (intro exI [of _ "Reading p"] exI [of _ cur] exI [of _ fl]) (cases fl, auto simp: il_left_def)
next
  case (rx_read p m c)
  then show ?thesis using inv_read [OF inv rx_read(3,4)]
    by (intro exI [of _ Idle] exI [of _ cur] exI [of _ "tl fl"]) (cases fl, auto simp: il_left_def)
qed

lemma il_inv_start: "il_inv T q Idle None [] (il_start q)" "il_left Idle None [] (il_start q) = il_work q"
  by (simp_all add: il_inv_def il_left_def il_start_def rtos_intertile_init_def rtos_intertile_start_def)

lemma il_inv_run:
  assumes "small_messages T q"
  shows "il_run T n y y' \<Longrightarrow> il_inv T q ph cur fl y \<Longrightarrow>
    \<exists>ph' cur' fl'. il_inv T q ph' cur' fl' y' \<and> il_left ph cur fl y = n + il_left ph' cur' fl' y'"
proof (induction rule: il_run.induct)
  case (il_run_0 y)
  then show ?case by auto
next
  case (il_run_Suc n y y' e y'')
  then obtain ph' cur' fl' where i: "il_inv T q ph' cur' fl' y'" "il_left ph cur fl y = n + il_left ph' cur' fl' y'" by blast
  show ?case using il_inv_step [OF assms il_run_Suc.hyps(2) i(1)] i(2) by auto
qed

text \<open>A task, the channel or the interrupt has a step to make as long as a message has not been received.\<close>

lemma il_stuck:
  assumes small: "small_messages T q" and inv: "il_inv T q ph cur fl y" and stuck: "\<And>e y'. \<not> il_step T e y y'"
  shows "fl = [] \<and> (\<forall>p. il_queue y p = [])"
proof -
  have cur: "cur = None"
  proof (cases cur)
    case (Some pbs)
    then obtain p bs where "cur = Some (p, bs)" by (cases pbs) simp
    then have "il_out y p = Some bs" using inv by (simp add: il_inv_def)
    then show ?thesis using stuck tx_end [of y p T] tx_byte [of y p] by (cases bs) blast+
  qed
  then have out: "il_out y = (\<lambda>p. None)" "mutex_get (il_tx y) = Some ((il_tx y)\<lparr>lock_held := True\<rparr>)" using inv by (auto simp: il_inv_def mutex_get_def)
  have q: "il_queue y p = []" for p
  proof (cases "il_queue y p")
    case (Cons m ms)
    then show ?thesis using stuck tx_begin [of y p m ms] out by auto
  qed
  have w: "written (il_tx y) = []" using stuck arrive [of y] by (cases "written (il_tx y)") blast+
  have T: "fl \<noteq> [] \<Longrightarrow> fst (hd fl) \<in> T \<and> unat (fst (hd fl)) < 24 \<and> length (snd (hd fl)) < 2 ^ 32"
    using inv small by (cases fl) (auto simp: il_inv_def small_messages_def)
  have "fl = []"
  proof (cases ph)
    case Idle
    show ?thesis
    proof (rule ccontr)
      assume fl: "fl \<noteq> []"
      then obtain ts where "arrived (il_rx y) = fst (hd fl) # ts" using inv Idle w cur tokens_hd [of fl] by (auto simp: il_inv_def)
      then obtain c where "rtos_intertile_isr (il_rx y) = Some c" using isr_event T [OF fl] by blast
      then show False using stuck interrupt [of y] inv Idle by (auto simp: il_inv_def)
    qed
  next
    case (Announced p)
    then have "event_bits (il_rx y) = port_bit p" "il_reading y = (\<lambda>q. False)" "p \<in> T" "unat p < 24" using inv T by (auto simp: il_inv_def)
    then have "\<exists>c. event_get p (il_rx y) = Some (True, c)" using port_bit_usable [of p] port_bit_nonzero [of p] by (simp add: event_get_def)
    then show ?thesis using stuck rx_wake [of p T y] \<open>p \<in> T\<close> \<open>il_reading y = _\<close> by auto
  next
    case (Reading p)
    then obtain m fl' where fl: "fl = (p, m) # fl'" using inv by (cases fl) (auto simp: il_inv_def)
    then have a: "arrived (il_rx y) = word_tokens (of_nat (length m)) @ m @ tokens_of fl'" using inv Reading w cur
      by (simp add: il_inv_def message_tokens_def)
    have "unat (of_nat (length m) :: u32) = length m" using T fl by (simp add: unat_of_nat)
    then obtain c where "rx_message (il_rx y) = Some (m, c)" using a by (simp add: rx_message_def)
    moreover have "il_reading y p" using inv Reading by (simp add: il_inv_def)
    ultimately show ?thesis using stuck rx_read by blast
  qed
  then show ?thesis using q by simp
qed

text \<open>
  C25: Messages of all ports share the link without mixing, however the steps of the sending tasks, the channel, the interrupt
  and the receiving tasks, which are woken by their event bits only, are interleaved: at any time, what the task of a port has
  received are the first of the messages sent to that port, each whole, in the order sent. No order of steps ends before the
  task of each port has received all its messages, and none goes on longer than 15 steps for each message and two for each of its
  bytes.
\<close>

theorem intertile_messages_delivered:
  assumes "small_messages T q" and "il_run T n (il_start q) y"
  shows "(\<forall>p. \<exists>rest. q p = messages_of p (il_got y) @ rest)
    \<and> ((\<forall>e y'. \<not> il_step T e y y') \<longrightarrow> (\<forall>p. messages_of p (il_got y) = q p))
    \<and> n \<le> (\<Sum>p\<in>UNIV. \<Sum>m\<leftarrow>q p. 15 + 2 * length m)"
proof -
  obtain ph cur fl where inv: "il_inv T q ph cur fl y" and n: "il_work q = n + il_left ph cur fl y"
    using il_inv_run [OF assms(1,2) il_inv_start(1)] il_inv_start(2) by auto
  have "q p = messages_of p (il_got y) @ messages_of p fl @ il_queue y p" for p using inv by (simp add: il_inv_def)
  then show ?thesis using il_stuck [OF assms(1) inv] n by (auto simp: il_work_def)
qed
text \<open>The same steps as a function, to follow a run.\<close>

fun il_next :: "u8 set \<Rightarrow> il_event \<Rightarrow> il_sys \<Rightarrow> il_sys option" where
  "il_next T (Tx_Begin p) y = (case (il_queue y p, il_out y p, mutex_get (il_tx y)) of
     (m # ms, None, Some c) \<Rightarrow> Some (y\<lparr>il_tx := c, il_queue := (il_queue y)(p := ms), il_out := (il_out y)(p := Some (message_tokens p m)),
       il_sent := il_sent y @ [(p, m)]\<rparr>) | _ \<Rightarrow> None)"
| "il_next T (Tx_Byte p) y = (case il_out y p of
     Some (b # bs) \<Rightarrow> Some (y\<lparr>il_tx := chan_out [b] (il_tx y), il_out := (il_out y)(p := Some bs)\<rparr>) | _ \<Rightarrow> None)"
| "il_next T (Tx_End p) y = (if il_out y p = Some [] then Some (y\<lparr>il_tx := mutex_put (il_tx y), il_out := (il_out y)(p := None)\<rparr>) else None)"
| "il_next T Arrive y = (case written (il_tx y) of
     b # bs \<Rightarrow> Some (y\<lparr>il_tx := (il_tx y)\<lparr>written := bs\<rparr>, il_rx := (il_rx y)\<lparr>arrived := arrived (il_rx y) @ [b]\<rparr>\<rparr>) | [] \<Rightarrow> None)"
| "il_next T Interrupt y = (if trigger (il_rx y) then map_option (\<lambda>c. y\<lparr>il_rx := c\<rparr>) (rtos_intertile_isr (il_rx y)) else None)"
| "il_next T (Rx_Wake p) y = (if p \<in> T \<and> \<not> il_reading y p then (case event_get p (il_rx y) of
     Some (True, c) \<Rightarrow> Some (y\<lparr>il_rx := c, il_reading := (il_reading y)(p := True)\<rparr>) | _ \<Rightarrow> None) else None)"
| "il_next T (Rx_Read p) y = (if il_reading y p then map_option (\<lambda>(m, c).
     y\<lparr>il_rx := c, il_reading := (il_reading y)(p := False), il_got := il_got y @ [(p, m)]\<rparr>) (rx_message (il_rx y)) else None)"

lemma il_step_next: "il_next T e y = Some y' \<Longrightarrow> il_step T e y y'"
  by (cases e) (auto intro: il_step.intros split: list.splits option.splits if_splits bool.splits)

fun il_exec :: "u8 set \<Rightarrow> il_event list \<Rightarrow> il_sys \<Rightarrow> il_sys option" where
  "il_exec T [] y = Some y"
| "il_exec T (e # es) y = Option.bind (il_next T e y) (il_exec T es)"

lemma il_run_exec: "il_exec T es y' = Some y'' \<Longrightarrow> il_run T n y y' \<Longrightarrow> il_run T (n + length es) y y''"
proof (induction es arbitrary: y' n)
  case (Cons e es)
  then obtain z where z: "il_next T e y' = Some z" "il_exec T es z = Some y''" by (auto simp: bind_eq_Some_conv)
  show ?case using Cons.IH [OF z(2) il_run_Suc [OF Cons.prems(2) il_step_next [OF z(1)]]] by simp
qed simp

text \<open>Two ports: the second message is being written while the first is read.\<close>

definition two_ports :: "u8 \<Rightarrow> u8 list list" where
  "two_ports = (\<lambda>p. if p = 5 then [[7]] else if p = 3 then [[]] else [])"

definition two_ports_run :: "il_event list" where
  "two_ports_run = [Tx_Begin 5, Tx_Byte 5, Arrive, Interrupt, Tx_Byte 5, Tx_Byte 5, Rx_Wake 5, Tx_Byte 5, Tx_Byte 5, Tx_Byte 5, Tx_End 5,
     Tx_Begin 3, Tx_Byte 3, Tx_Byte 3, Arrive, Arrive, Arrive, Arrive, Arrive, Arrive, Rx_Read 5, Interrupt, Tx_Byte 3, Tx_Byte 3, Rx_Wake 3,
     Tx_Byte 3, Tx_End 3, Arrive, Arrive, Arrive, Arrive, Rx_Read 3]"

lemma two_ports_small: "small_messages {3, 5} two_ports"
  by (auto simp: small_messages_def two_ports_def)

lemma two_ports_done: "\<exists>y. il_exec {3, 5} two_ports_run (il_start two_ports) = Some y \<and> il_got y = [(5, [7]), (3, [])]"
  by (simp add: two_ports_run_def two_ports_def il_start_def rtos_intertile_init_def rtos_intertile_start_def mutex_get_def mutex_put_def
     message_tokens_def word_tokens_def le32_def chan_out_def rtos_intertile_isr_def event_group_set_bits_def event_usable_def port_bit_def
     event_get_def rx_message_def s_chan_in_word_def s_chan_in_buf_byte_def)

theorem intertile_messages_delivered_witness:
  "\<exists>y. il_run {3, 5} 32 (il_start two_ports) y \<and> il_got y = [(5, [7]), (3, [])]
    \<and> ((\<forall>e y'. \<not> il_step {3, 5} e y y') \<longrightarrow> (\<forall>p. messages_of p (il_got y) = two_ports p))
    \<and> 32 \<le> (\<Sum>p\<in>UNIV. \<Sum>m\<leftarrow>two_ports p. 15 + 2 * length m)"
proof -
  obtain y where y: "il_exec {3, 5} two_ports_run (il_start two_ports) = Some y" "il_got y = [(5, [7]), (3, [])]"
    using two_ports_done by blast
  have "0 + length two_ports_run = 32" by (simp add: two_ports_run_def)
  then have r: "il_run {3, 5} 32 (il_start two_ports) y" using il_run_exec [OF y(1) il_run_0] by metis
  show ?thesis using intertile_messages_delivered [OF two_ports_small r] r y(2) by blast
qed

end
