(* ===== verification/Dispatcher.thy ===== *)
theory Dispatcher
  imports Prelude "HOL-Library.Multiset"
begin

text \<open>
  The dispatcher, modules/rtos/sw_services/dispatcher: groups of jobs (dispatch_group.c,
  dispatch_job.c), the counters on which a caller waits for them (event_counter.c), and the
  dispatcher with its worker threads (dispatcher.c). Jobs and counters are addresses; what the
  function of a job does is the parameter \<open>F\<close>, a function on the memory \<open>'u\<close> of
  the application. Allocation succeeds.
\<close>

section \<open>Event counters\<close>

datatype worker_type = UninitializedWorker | ThreadWorker | ISRWorker

text \<open>The semaphore (None for NULL) holds at most one token.\<close>

record event_counter =
  ec_semaphore :: "bool option"
  ec_count :: nat

definition event_counter_init :: "nat \<Rightarrow> event_counter \<Rightarrow> event_counter" where
  "event_counter_init n c = c\<lparr>ec_count := n\<rparr>"

definition event_counter_create :: "nat \<Rightarrow> worker_type \<Rightarrow> event_counter" where
  "event_counter_create n wt =
     event_counter_init n \<lparr>ec_semaphore = (if wt = ThreadWorker then Some False else None), ec_count = 0\<rparr>"

text \<open>The guarded part of \<open>event_counter_signal\<close>, and whether it signals.\<close>

definition event_counter_down :: "event_counter \<Rightarrow> bool \<times> event_counter" where
  "event_counter_down c =
     (if 0 < ec_count c then (ec_count c = 1, c\<lparr>ec_count := ec_count c - 1\<rparr>) else (False, c))"

text \<open>Giving and taking the semaphore; NULL is not a semaphore.\<close>

definition semaphore_put :: "event_counter \<Rightarrow> event_counter option" where
  "semaphore_put c = map_option (\<lambda>_. c\<lparr>ec_semaphore := Some True\<rparr>) (ec_semaphore c)"

definition event_counter_wait :: "event_counter \<Rightarrow> event_counter option" where
  "event_counter_wait c = (if ec_semaphore c = Some True then Some (c\<lparr>ec_semaphore := Some False\<rparr>) else None)"

section \<open>Groups\<close>

text \<open>\<open>group_jobs\<close> are the first \<open>count\<close> entries of the array, which holds \<open>group_length\<close>.\<close>

record dispatch_group =
  group_length :: nat
  group_jobs :: "nat list"
  group_counter :: "nat option"

definition dispatch_group_create :: "nat \<Rightarrow> dispatch_group res" where
  "dispatch_group_create n =
     rbind (c_assert (0 < n)) (\<lambda>_. Inr \<lparr>group_length = n, group_jobs = [], group_counter = None\<rparr>)"

definition dispatch_group_init :: "dispatch_group \<Rightarrow> (nat \<Rightarrow> event_counter) \<Rightarrow> dispatch_group \<times> (nat \<Rightarrow> event_counter)" where
  "dispatch_group_init g cs =
     (g\<lparr>group_jobs := []\<rparr>,
      case group_counter g of None \<Rightarrow> cs | Some c \<Rightarrow> cs(c := event_counter_init (group_length g) (cs c)))"

definition dispatch_group_job_add :: "dispatch_group \<Rightarrow> nat \<Rightarrow> dispatch_group res" where
  "dispatch_group_job_add g j =
     rbind (c_assert (length (group_jobs g) < group_length g)) (\<lambda>_. Inr (g\<lparr>group_jobs := group_jobs g @ [j]\<rparr>))"

fun dispatch_group_perform :: "(nat \<Rightarrow> 'u \<Rightarrow> 'u) \<Rightarrow> nat list \<Rightarrow> 'u \<Rightarrow> 'u" where
  "dispatch_group_perform F [] u = u"
| "dispatch_group_perform F (j # js) u = dispatch_group_perform F js (F j u)"

section \<open>The caller\<close>

text \<open>What the calls do to the counters, the jobs and the queue of the dispatcher.\<close>

datatype caller_action =
  Counter_Create nat nat worker_type
| Counter_Init nat nat
| Job_Set_Counter nat nat
| Job_Send nat
| Chanend_Send nat nat
| Counter_Wait nat
| Check_End_Token

definition sends :: "nat \<Rightarrow> nat list \<Rightarrow> caller_action list" where
  "sends c js = concat (map (\<lambda>j. [Job_Set_Counter j c, Job_Send j]) js)"

text \<open>With interrupt workers, the \<open>i\<close>-th job goes to the channel end of the \<open>i\<close>-th worker.\<close>

fun isr_sends :: "nat list \<Rightarrow> nat \<Rightarrow> nat \<Rightarrow> nat list \<Rightarrow> caller_action list res" where
  "isr_sends chanends i c [] = Inr []"
| "isr_sends chanends i c (j # js) =
     (if i < length chanends
      then rbind (isr_sends chanends (Suc i) c js) (\<lambda>as. Inr (Job_Set_Counter j c # Chanend_Send (chanends ! i) j # as))
      else Inl OutOfBounds)"

text \<open>\<open>fresh\<close> is the counter allocated if the group has none yet.\<close>

definition dispatcher_group_add ::
  "worker_type \<Rightarrow> nat list \<Rightarrow> nat \<Rightarrow> dispatch_group \<Rightarrow> (dispatch_group \<times> caller_action list) res" where
  "dispatcher_group_add wt chanends fresh g =
     rbind (c_assert (wt \<noteq> UninitializedWorker)) (\<lambda>_.
       let n = length (group_jobs g);
           (g, create) = (case group_counter g of
             None \<Rightarrow> (g\<lparr>group_counter := Some fresh\<rparr>, [Counter_Create fresh n wt]) | Some c \<Rightarrow> (g, []));
           c = the (group_counter g)
       in rbind (if wt = ThreadWorker then Inr (sends c (group_jobs g)) else isr_sends chanends 0 c (group_jobs g))
            (\<lambda>as. Inr (g, create @ Counter_Init c n # as)))"

definition wait_action :: "worker_type \<Rightarrow> nat \<Rightarrow> caller_action list" where
  "wait_action wt c =
     (case wt of ThreadWorker \<Rightarrow> [Counter_Wait c] | ISRWorker \<Rightarrow> [Check_End_Token] | UninitializedWorker \<Rightarrow> [])"

text \<open>The wait for a group uses the counter of its first job; 0 is NULL.\<close>

definition dispatcher_group_wait :: "worker_type \<Rightarrow> (nat \<Rightarrow> nat) \<Rightarrow> dispatch_group \<Rightarrow> caller_action list res" where
  "dispatcher_group_wait wt job_counter g =
     rbind (c_assert (group_counter g \<noteq> None)) (\<lambda>_.
       case group_jobs g of [] \<Rightarrow> Inl OutOfBounds
       | j # _ \<Rightarrow> rbind (c_assert (job_counter j \<noteq> 0)) (\<lambda>_. Inr (wait_action wt (job_counter j))))"

definition dispatcher_job_add :: "worker_type \<Rightarrow> nat list \<Rightarrow> nat \<Rightarrow> nat \<Rightarrow> caller_action list res" where
  "dispatcher_job_add wt chanends fresh j =
     rbind (c_assert (wt \<noteq> UninitializedWorker)) (\<lambda>_.
       rbind (if wt = ThreadWorker then Inr (Job_Send j)
              else case chanends of [] \<Rightarrow> Inl OutOfBounds | ch # _ \<Rightarrow> Inr (Chanend_Send ch j))
         (\<lambda>send. Inr [Counter_Create fresh 1 wt, Job_Set_Counter j fresh, send]))"

definition dispatcher_job_wait :: "worker_type \<Rightarrow> (nat \<Rightarrow> nat) \<Rightarrow> nat \<Rightarrow> caller_action list res" where
  "dispatcher_job_wait wt job_counter j =
     rbind (c_assert (job_counter j \<noteq> 0)) (\<lambda>_. Inr (wait_action wt (job_counter j)))"

section \<open>The dispatcher\<close>

text \<open>
  A worker thread between the statements of its loop: waiting for a job, having received one,
  having performed it, and about to give the semaphore of a counter.
\<close>

datatype worker = Worker_Idle | Worker_Received nat | Worker_Performed nat | Worker_Putting nat

text \<open>
  \<open>performed\<close> records the jobs in the order performed, \<open>waits\<close> how many waits have
  returned; \<open>channel_sent\<close> and \<open>end_tokens\<close> are the traffic with interrupt workers,
  to them and back.
\<close>

record 'u dispatcher =
  memory :: 'u
  counters :: "nat \<Rightarrow> event_counter"
  job_counter :: "nat \<Rightarrow> nat"
  job_queue :: "nat list"
  queue_length :: nat
  workers :: "worker list"
  to_do :: "caller_action list"
  performed :: "nat list"
  channel_sent :: "(nat \<times> nat) list"
  end_tokens :: nat
  waits :: nat

definition dispatcher_init ::
  "'u \<Rightarrow> (nat \<Rightarrow> event_counter) \<Rightarrow> (nat \<Rightarrow> nat) \<Rightarrow> nat \<Rightarrow> nat \<Rightarrow> caller_action list \<Rightarrow> 'u dispatcher" where
  "dispatcher_init u cs jc qlen n acts =
     \<lparr>memory = u, counters = cs, job_counter = jc, job_queue = [], queue_length = qlen,
      workers = replicate n Worker_Idle, to_do = acts, performed = [], channel_sent = [], end_tokens = 0, waits = 0\<rparr>"

definition dispatcher_thread_init ::
  "worker_type \<Rightarrow> nat \<Rightarrow> nat \<Rightarrow> 'u \<Rightarrow> (nat \<Rightarrow> event_counter) \<Rightarrow> (nat \<Rightarrow> nat) \<Rightarrow> caller_action list \<Rightarrow> 'u dispatcher res" where
  "dispatcher_thread_init wt qlen thread_count u cs jc acts =
     rbind (c_assert (0 < qlen)) (\<lambda>_. rbind (c_assert (0 < thread_count)) (\<lambda>_.
     rbind (c_assert (wt = UninitializedWorker)) (\<lambda>_. Inr (dispatcher_init u cs jc qlen thread_count acts))))"

text \<open>
  The loops over the cores of \<open>dispatcher_isr_init\<close>: \<open>31 - clz\<close> is the number of the
  highest bit that is set; the first loop counts and checks, the second sets up the cores.
\<close>

definition top_bit :: "32 word \<Rightarrow> nat" where
  "top_bit w = hd (filter (bit w) (rev [0..<32]) @ [0])"

function core_loop :: "32 word \<Rightarrow> nat list" where
  "core_loop pending =
     (if pending = 0 then [] else top_bit pending # core_loop (and pending (not (push_bit (top_bit pending) 1))))"
  by pat_completeness auto

lemma top_bit_of: "w \<noteq> 0 \<Longrightarrow> bit w (top_bit w) \<and> top_bit w < 32 \<and> (\<forall>i. bit w i \<longrightarrow> i \<le> top_bit w)"
proof -
  assume "w \<noteq> 0"
  let ?l = "filter (bit w) (rev [0..<32])"
  have mem: "bit w i \<Longrightarrow> i \<in> set ?l" for i using bit_imp_le_length [of w i] by auto
  obtain i where "bit w i" using \<open>w \<noteq> 0\<close> by (metis bit_eq_iff bit_0_eq bot_apply bot_bool_def)
  then have ne: "?l \<noteq> []" using mem [of i] by (metis empty_iff list.set(1))
  have top: "top_bit w = hd ?l" "hd ?l \<in> set ?l" using hd_in_set [OF ne] by (simp_all only: top_bit_def hd_append2 [OF ne])
  have "sorted_wrt (\<lambda>a b. b < a) ?l" by (intro sorted_wrt_filter) (simp add: sorted_wrt_rev)
  then have "i \<in> set ?l \<Longrightarrow> i \<le> hd ?l" for i using ne by (cases ?l) auto
  then show ?thesis using top mem by auto
qed

lemma bit_clear_top: "bit (and w (not (2 ^ n))) i \<longleftrightarrow> bit w i \<and> i \<noteq> n" for w :: "32 word"
  using bit_imp_le_length [of w i] by (auto simp: bit_simps)

termination core_loop
proof (relation "measure (\<lambda>w. card {i. bit w i})")
  fix w :: "32 word" assume "w \<noteq> 0"
  then have "{i. bit (and w (not (push_bit (top_bit w) 1))) i} \<subset> {i. bit w i}" using top_bit_of [of w] by (auto simp: bit_clear_top)
  moreover have "finite {i. bit w i}" by (rule finite_subset [of _ "{..<32}"]) (use bit_imp_le_length [of w] in auto)
  ultimately show "(and w (not (push_bit (top_bit w) 1)), w) \<in> measure (\<lambda>w. card {i. bit w i})"
    by (simp add: psubset_card_mono)
qed simp

declare core_loop.simps [simp del]

text \<open>The loop visits the cores of the map, each once, from the highest.\<close>

lemma core_loop_cores: "set (core_loop w) = {i. bit w i} \<and> sorted_wrt (\<lambda>a b. b < a) (core_loop w)"
proof (induction w rule: core_loop.induct)
  case (1 w)
  show ?case
  proof (cases "w = 0")
    case False
    let ?v = "and w (not (push_bit (top_bit w) 1))"
    have IH: "set (core_loop ?v) = {i. bit w i \<and> i \<noteq> top_bit w}" "sorted_wrt (\<lambda>a b. b < a) (core_loop ?v)"
      using 1 [OF False] by (simp_all add: bit_clear_top)
    have w: "core_loop w = top_bit w # core_loop ?v" using False by (subst core_loop.simps) simp
    show ?thesis unfolding w using IH top_bit_of [OF False] by (auto simp: less_le)
  qed (simp add: core_loop.simps)
qed

definition dispatcher_isr_init :: "worker_type \<Rightarrow> 32 word \<Rightarrow> nat list res" where
  "dispatcher_isr_init wt core_map =
     rbind (c_assert (wt = UninitializedWorker)) (\<lambda>_.
     rbind (c_assert (\<forall>core \<in> set (core_loop core_map). core \<le> 8)) (\<lambda>_.
     rbind (c_assert (core_loop core_map \<noteq> [])) (\<lambda>_. Inr (core_loop core_map))))"

text \<open>The interrupt of a worker, and whether it frees its channel end: on NULL instead of a job.\<close>

fun dispatcher_isr_worker :: "(nat \<Rightarrow> 'u \<Rightarrow> 'u) \<Rightarrow> nat option \<Rightarrow> 'u dispatcher \<Rightarrow> 'u dispatcher \<times> bool" where
  "dispatcher_isr_worker F None s = (s, True)"
| "dispatcher_isr_worker F (Some j) s =
     (let (sig, e) = event_counter_down (counters s (job_counter s j))
      in (s\<lparr>memory := F j (memory s), performed := performed s @ [j], counters := (counters s)(job_counter s j := e),
            end_tokens := end_tokens s + (if sig then 1 else 0)\<rparr>, False))"

text \<open>An action of the caller; None if it has to wait.\<close>

fun caller_do :: "caller_action \<Rightarrow> 'u dispatcher \<Rightarrow> 'u dispatcher option" where
  "caller_do (Counter_Create c n wt) s = Some (s\<lparr>counters := (counters s)(c := event_counter_create n wt)\<rparr>)"
| "caller_do (Counter_Init c n) s = Some (s\<lparr>counters := (counters s)(c := event_counter_init n (counters s c))\<rparr>)"
| "caller_do (Job_Set_Counter j c) s = Some (s\<lparr>job_counter := (job_counter s)(j := c)\<rparr>)"
| "caller_do (Job_Send j) s =
     (if length (job_queue s) < queue_length s then Some (s\<lparr>job_queue := job_queue s @ [j]\<rparr>) else None)"
| "caller_do (Chanend_Send ch j) s = Some (s\<lparr>channel_sent := channel_sent s @ [(ch, j)]\<rparr>)"
| "caller_do Check_End_Token s =
     (if 0 < end_tokens s then Some (s\<lparr>end_tokens := end_tokens s - 1, waits := waits s + 1\<rparr>) else None)"
| "caller_do (Counter_Wait c) s =
     map_option (\<lambda>e. s\<lparr>counters := (counters s)(c := e), waits := waits s + 1\<rparr>) (event_counter_wait (counters s c))"

text \<open>The steps of the caller and of \<open>dispatcher_thread_worker\<close>.\<close>

inductive dispatch_step :: "(nat \<Rightarrow> 'u \<Rightarrow> 'u) \<Rightarrow> 'u dispatcher \<Rightarrow> 'u dispatcher \<Rightarrow> bool" for F where
  caller_step: "to_do s = a # as \<Longrightarrow> caller_do a s = Some s' \<Longrightarrow> dispatch_step F s (s'\<lparr>to_do := as\<rparr>)"
| worker_receive: "workers s = xs @ Worker_Idle # ys \<Longrightarrow> job_queue s = j # js \<Longrightarrow>
    dispatch_step F s (s\<lparr>workers := xs @ Worker_Received j # ys, job_queue := js\<rparr>)"
| worker_perform: "workers s = xs @ Worker_Received j # ys \<Longrightarrow>
    dispatch_step F s (s\<lparr>workers := xs @ Worker_Performed j # ys, memory := F j (memory s), performed := performed s @ [j]\<rparr>)"
| worker_count: "workers s = xs @ Worker_Performed j # ys \<Longrightarrow> event_counter_down (counters s (job_counter s j)) = (sig, e) \<Longrightarrow>
    dispatch_step F s (s\<lparr>workers := xs @ (if sig then Worker_Putting (job_counter s j) else Worker_Idle) # ys,
      counters := (counters s)(job_counter s j := e)\<rparr>)"
| worker_put: "workers s = xs @ Worker_Putting c # ys \<Longrightarrow> semaphore_put (counters s c) = Some e \<Longrightarrow>
    dispatch_step F s (s\<lparr>workers := xs @ Worker_Idle # ys, counters := (counters s)(c := e)\<rparr>)"

inductive dispatch_reachable :: "(nat \<Rightarrow> 'u \<Rightarrow> 'u) \<Rightarrow> 'u dispatcher \<Rightarrow> 'u dispatcher \<Rightarrow> bool" for F s where
  dispatch_refl: "dispatch_reachable F s s"
| dispatch_more: "dispatch_reachable F s t \<Longrightarrow> dispatch_step F t u \<Longrightarrow> dispatch_reachable F s u"

text \<open>The steps as functions: of the caller, and of the \<open>i\<close>-th worker.\<close>

definition caller_next :: "'u dispatcher \<Rightarrow> 'u dispatcher option" where
  "caller_next s = (case to_do s of [] \<Rightarrow> None | a # as \<Rightarrow> map_option (\<lambda>t. t\<lparr>to_do := as\<rparr>) (caller_do a s))"

definition worker_next :: "(nat \<Rightarrow> 'u \<Rightarrow> 'u) \<Rightarrow> nat \<Rightarrow> 'u dispatcher \<Rightarrow> 'u dispatcher option" where
  "worker_next F i s =
     (if i < length (workers s)
      then (case workers s ! i of
          Worker_Idle \<Rightarrow> (case job_queue s of [] \<Rightarrow> None
            | j # js \<Rightarrow> Some (s\<lparr>workers := (workers s)[i := Worker_Received j], job_queue := js\<rparr>))
        | Worker_Received j \<Rightarrow> Some (s\<lparr>workers := (workers s)[i := Worker_Performed j],
            memory := F j (memory s), performed := performed s @ [j]\<rparr>)
        | Worker_Performed j \<Rightarrow> (let (sig, e) = event_counter_down (counters s (job_counter s j))
            in Some (s\<lparr>workers := (workers s)[i := if sig then Worker_Putting (job_counter s j) else Worker_Idle],
                 counters := (counters s)(job_counter s j := e)\<rparr>))
        | Worker_Putting c \<Rightarrow> map_option (\<lambda>e. s\<lparr>workers := (workers s)[i := Worker_Idle],
            counters := (counters s)(c := e)\<rparr>) (semaphore_put (counters s c)))
      else None)"

fun dispatch_run :: "(nat \<Rightarrow> 'u \<Rightarrow> 'u) \<Rightarrow> nat option list \<Rightarrow> 'u dispatcher \<Rightarrow> 'u dispatcher option" where
  "dispatch_run F [] s = Some s"
| "dispatch_run F (None # sched) s = Option.bind (caller_next s) (dispatch_run F sched)"
| "dispatch_run F (Some i # sched) s = Option.bind (worker_next F i s) (dispatch_run F sched)"

lemma caller_next_step: "caller_next s = Some t \<Longrightarrow> dispatch_step F s t"
  by (auto simp: caller_next_def intro: dispatch_step.caller_step split: list.splits)

lemma worker_next_step:
  assumes "worker_next F i s = Some t"
  shows "dispatch_step F s t"
proof -
  have i: "i < length (workers s)" using assms by (simp add: worker_next_def split: if_splits)
  note ws = id_take_nth_drop [OF i] and up = upd_conv_take_nth_drop [OF i]
  show ?thesis
  proof (cases "workers s ! i")
    case (Worker_Received j)
    then show ?thesis using assms i dispatch_step.worker_perform [of s "take i (workers s)" j "drop (Suc i) (workers s)" F] ws
      by (simp add: worker_next_def up)
  next
    case (Worker_Performed j)
    then show ?thesis
      using assms i dispatch_step.worker_count [of s "take i (workers s)" j "drop (Suc i) (workers s)" _ _ F] ws
      by (simp add: worker_next_def up split: prod.splits)
  next
    case (Worker_Putting c)
    then show ?thesis
      using assms i dispatch_step.worker_put [of s "take i (workers s)" c "drop (Suc i) (workers s)" _ F] ws
      by (auto simp: worker_next_def up)
  next
    case Worker_Idle
    then show ?thesis
      using assms i dispatch_step.worker_receive [of s "take i (workers s)" "drop (Suc i) (workers s)" _ _ F] ws
      by (simp add: worker_next_def up split: list.splits)
  qed
qed

lemma dispatch_run_steps: "dispatch_run F sched s = Some t \<Longrightarrow> (dispatch_step F ^^ length sched) s t"
proof (induction F sched s rule: dispatch_run.induct)
  case (2 F sched s)
  then obtain v where "caller_next s = Some v" "dispatch_run F sched v = Some t" by (auto simp: bind_eq_Some_conv)
  then show ?case using 2 caller_next_step [of s v F] by (auto simp del: relpowp.simps intro: relpowp_Suc_I2)
next
  case (3 F i sched s)
  then obtain v where "worker_next F i s = Some v" "dispatch_run F sched v = Some t" by (auto simp: bind_eq_Some_conv)
  then show ?case using 3 worker_next_step [of F i s v] by (auto simp del: relpowp.simps intro: relpowp_Suc_I2)
qed simp

text \<open>
  A caller that adds groups and waits for each before the next, as actions; the counter that it
  waits for is that of the group, which the first job has been given.
\<close>

definition group_round :: "nat \<Rightarrow> dispatch_group \<Rightarrow> caller_action list" where
  "group_round fresh g =
     (case dispatcher_group_add ThreadWorker [] fresh g of Inl _ \<Rightarrow> []
      | Inr (g, acts) \<Rightarrow> acts @ wait_action ThreadWorker (the (group_counter g)))"

lemma group_round_wait:
  assumes "group_jobs g = j # js" and "dispatcher_group_add ThreadWorker [] fresh g = Inr (g', acts)"
    and "group_counter g' = Some c" "c \<noteq> 0"
  shows "dispatcher_group_wait ThreadWorker (jc(j := c)) g' = Inr (wait_action ThreadWorker c)"
  using assms by (auto simp: dispatcher_group_add_def dispatcher_group_wait_def split: option.splits)

section \<open>The invariant\<close>

text \<open>The jobs that the workers have received, that they have performed and not counted, and the counters they are about to signal.\<close>

fun received :: "worker list \<Rightarrow> nat list" where
  "received [] = []"
| "received (Worker_Received j # ws) = j # received ws"
| "received (_ # ws) = received ws"

fun uncounted :: "worker list \<Rightarrow> nat list" where
  "uncounted [] = []"
| "uncounted (Worker_Performed j # ws) = j # uncounted ws"
| "uncounted (_ # ws) = uncounted ws"

fun putting :: "worker list \<Rightarrow> nat list" where
  "putting [] = []"
| "putting (Worker_Putting c # ws) = c # putting ws"
| "putting (_ # ws) = putting ws"

lemma workers_append [simp]:
  "received (xs @ ys) = received xs @ received ys" "uncounted (xs @ ys) = uncounted xs @ uncounted ys"
  "putting (xs @ ys) = putting xs @ putting ys"
  by (induction xs rule: received.induct; simp)+

text \<open>
  Where the caller is: between the rounds; about to create, if need be, and initialise the
  counter; sending the rest of the jobs; about to send a job that has its counter.
\<close>

datatype caller_at = Between | Starting bool nat | Sending nat "nat list" | Sending_Job nat nat "nat list"

fun at_actions :: "caller_at \<Rightarrow> nat list \<Rightarrow> caller_action list" where
  "at_actions Between js = []"
| "at_actions (Starting create c) js =
     (if create then [Counter_Create c (length js) ThreadWorker] else []) @ Counter_Init c (length js) # sends c js @ [Counter_Wait c]"
| "at_actions (Sending c rest) js = sends c rest @ [Counter_Wait c]"
| "at_actions (Sending_Job c j rest) js = Job_Send j # sends c rest @ [Counter_Wait c]"

definition idle_inv :: "'u dispatcher \<Rightarrow> bool" where
  "idle_inv s \<longleftrightarrow> job_queue s = [] \<and> received (workers s) = [] \<and> uncounted (workers s) = [] \<and> putting (workers s) = []"

text \<open>
  The counter of the current group: as many as the jobs not counted, and its semaphore given,
  or about to be given by one worker, exactly when there are none.
\<close>

definition counter_inv :: "nat \<Rightarrow> nat \<Rightarrow> event_counter \<Rightarrow> nat list \<Rightarrow> bool" where
  "counter_inv c left e puts \<longleftrightarrow> ec_count e = left \<and>
     (if left = 0 then ec_semaphore e = Some True \<and> puts = [] \<or> ec_semaphore e = Some False \<and> puts = [c]
      else ec_semaphore e = Some False \<and> puts = [])"

text \<open>
  A round: \<open>js\<close> are the jobs of the group, \<open>rest\<close> those not sent, \<open>P\<close> those
  performed.
\<close>

definition round_inv :: "nat \<Rightarrow> nat list \<Rightarrow> nat list \<Rightarrow> nat list \<Rightarrow> 'u dispatcher \<Rightarrow> bool" where
  "round_inv c rest js P s \<longleftrightarrow> js \<noteq> []
     \<and> mset js = mset rest + mset (job_queue s) + mset (received (workers s)) + mset P
     \<and> length (uncounted (workers s)) \<le> length P
     \<and> counter_inv c (length js + length (uncounted (workers s)) - length P) (counters s c) (putting (workers s))
     \<and> (\<forall>j \<in> set (job_queue s) \<union> set (received (workers s)) \<union> set (uncounted (workers s)). job_counter s j = c)"

text \<open>\<open>C\<close> are the counters of groups that already have one.\<close>

definition others_inv :: "nat set \<Rightarrow> 'u dispatcher \<Rightarrow> bool" where
  "others_inv C s \<longleftrightarrow> (\<forall>c \<in> C. ec_semaphore (counters s c) = Some False)"

fun at_inv :: "nat set \<Rightarrow> caller_at \<Rightarrow> nat list \<Rightarrow> nat list \<Rightarrow> 'u dispatcher \<Rightarrow> bool" where
  "at_inv C Between js P s \<longleftrightarrow> idle_inv s \<and> P = [] \<and> others_inv C s"
| "at_inv C (Starting create c) js P s \<longleftrightarrow> idle_inv s \<and> P = [] \<and> js \<noteq> [] \<and> others_inv C s \<and> (create \<or> ec_semaphore (counters s c) = Some False)"
| "at_inv C (Sending c rest) js P s \<longleftrightarrow> round_inv c rest js P s \<and> others_inv (C - {c}) s"
| "at_inv C (Sending_Job c j rest) js P s \<longleftrightarrow> round_inv c (j # rest) js P s \<and> job_counter s j = c \<and> others_inv (C - {c}) s"

type_synonym group_program = "(nat \<times> dispatch_group) list"

definition program_actions :: "group_program \<Rightarrow> caller_action list" where
  "program_actions gs = concat (map (\<lambda>(f, g). group_round f g) gs)"

text \<open>
  The state between the steps: \<open>dn\<close> are the jobs of the groups waited for, \<open>rem\<close> the
  groups to come.
\<close>

definition dispatch_inv ::
  "(nat \<Rightarrow> 'u \<Rightarrow> 'u) \<Rightarrow> 'u \<Rightarrow> nat set \<Rightarrow> caller_at \<Rightarrow> nat list list \<Rightarrow> nat list \<Rightarrow> group_program \<Rightarrow> nat list \<Rightarrow> 'u dispatcher \<Rightarrow> bool" where
  "dispatch_inv F u C st dn js rem P s \<longleftrightarrow>
     to_do s = at_actions st js @ program_actions rem \<and> waits s = length dn \<and> at_inv C st js P s
     \<and> (\<exists>blocks. performed s = concat blocks @ P \<and> list_all2 (\<lambda>b js. mset b = mset js) blocks dn)
     \<and> memory s = dispatch_group_perform F (performed s) u
     \<and> 0 < queue_length s \<and> workers s \<noteq> []"

lemma perform_append: "dispatch_group_perform F (xs @ ys) u = dispatch_group_perform F ys (dispatch_group_perform F xs u)"
  by (induction F xs u rule: dispatch_group_perform.induct) simp_all

lemma sends_Cons [simp]: "sends c (j # js) = Job_Set_Counter j c # Job_Send j # sends c js" "sends c [] = []"
  by (simp_all add: sends_def)

lemma program_Cons: "program_actions ((f, g) # rem) =
    at_actions (Starting (group_counter g = None) (case group_counter g of None \<Rightarrow> f | Some c \<Rightarrow> c)) (group_jobs g) @ program_actions rem"
  by (cases "group_counter g")
    (simp_all add: program_actions_def group_round_def dispatcher_group_add_def sends_def Let_def wait_action_def)

text \<open>The steps of the workers within a round.\<close>

lemma round_receive:
  assumes "round_inv c rest js P s" "workers s = xs @ Worker_Idle # ys" "job_queue s = j # q"
  shows "round_inv c rest js P (s\<lparr>workers := xs @ Worker_Received j # ys, job_queue := q\<rparr>)"
  using assms by (auto simp: round_inv_def)

lemma round_perform:
  assumes "round_inv c rest js P s" "workers s = xs @ Worker_Received j # ys"
  shows "round_inv c rest js (P @ [j]) (s\<lparr>workers := xs @ Worker_Performed j # ys, memory := m, performed := l\<rparr>)"
  using assms by (auto simp: round_inv_def)

lemma round_length:
  assumes "round_inv c rest js P s"
  shows "length js = length rest + length (job_queue s) + length (received (workers s)) + length P"
proof -
  have "size (mset js) = size (mset rest + mset (job_queue s) + mset (received (workers s)) + mset P)"
    using assms by (simp add: round_inv_def)
  then show ?thesis by simp
qed

lemma round_count:
  assumes r: "round_inv c rest js P s" "workers s = xs @ Worker_Performed j # ys"
    and d: "event_counter_down (counters s (job_counter s j)) = (sig, e)"
  shows "job_counter s j = c
    \<and> round_inv c rest js P (s\<lparr>workers := xs @ (if sig then Worker_Putting c else Worker_Idle) # ys, counters := (counters s)(c := e)\<rparr>)"
proof
  show c: "job_counter s j = c" using r by (auto simp: round_inv_def)
  let ?L = "length js + length (uncounted (workers s)) - length P"
  let ?s = "s\<lparr>workers := xs @ (if sig then Worker_Putting c else Worker_Idle) # ys, counters := (counters s)(c := e)\<rparr>"
  have "length P \<le> length js" using round_length [OF r(1)] by simp
  moreover have unc: "length (uncounted (workers s)) = Suc (length (uncounted xs) + length (uncounted ys))" using r(2) by simp
  ultimately have L: "0 < ?L" "length js + (length (uncounted xs) + length (uncounted ys)) - length P = ?L - 1" by simp_all
  have ci: "ec_count (counters s c) = ?L" "ec_semaphore (counters s c) = Some False" "putting (workers s) = []"
    using r(1) L(1) by (auto simp: round_inv_def counter_inv_def)
  have e: "sig \<longleftrightarrow> ?L = 1" "e = counters s c\<lparr>ec_count := ?L - 1\<rparr>"
    using d ci(1) L(1) unfolding c event_counter_down_def by (auto split: if_splits)
  have "counter_inv c (?L - 1) (counters ?s c) (putting (workers ?s))"
    using e ci r(2) L(1) by (auto simp: counter_inv_def)
  moreover have "length (uncounted (workers ?s)) = length (uncounted xs) + length (uncounted ys)" by simp
  ultimately have "counter_inv c (length js + length (uncounted (workers ?s)) - length P) (counters ?s c) (putting (workers ?s))"
    using L(2) by simp
  then show "round_inv c rest js P ?s"
    using r unc unfolding round_inv_def by simp
qed

lemma round_put:
  assumes r: "round_inv c rest js P s" "workers s = xs @ Worker_Putting d # ys" and p: "semaphore_put (counters s d) = Some e"
  shows "d = c \<and> round_inv c rest js P (s\<lparr>workers := xs @ Worker_Idle # ys, counters := (counters s)(c := e)\<rparr>)"
proof
  have "putting (workers s) = [c]" using r by (auto simp: round_inv_def counter_inv_def split: if_splits)
  then have one: "d = c" "putting xs = []" "putting ys = []" using r(2) by (auto simp: append_eq_Cons_conv)
  then show "d = c" by simp
  show "round_inv c rest js P (s\<lparr>workers := xs @ Worker_Idle # ys, counters := (counters s)(c := e)\<rparr>)"
    using r p one by (auto simp: round_inv_def counter_inv_def semaphore_put_def split: if_splits)
qed

lemma round_wait:
  assumes r: "round_inv c [] js P s" and w: "event_counter_wait (counters s c) = Some e"
  shows "mset P = mset js \<and> idle_inv s \<and> ec_semaphore e = Some False"
proof -
  have sem: "ec_semaphore (counters s c) = Some True" "e = counters s c\<lparr>ec_semaphore := Some False\<rparr>"
    using w by (simp_all add: event_counter_wait_def split: if_splits)
  then have left: "length js + length (uncounted (workers s)) - length P = 0" "putting (workers s) = []"
    using r by (auto simp: round_inv_def counter_inv_def split: if_splits)
  have len: "length js = length (job_queue s) + length (received (workers s)) + length P" using round_length [OF r] by simp
  then have "uncounted (workers s) = []" "job_queue s = []" "received (workers s) = []" using left(1) by simp_all
  then show ?thesis using r left(2) sem(2) by (simp add: round_inv_def idle_inv_def)
qed

fun at_round :: "caller_at \<Rightarrow> (nat \<times> nat list) option" where
  "at_round (Sending c rest) = Some (c, rest)"
| "at_round (Sending_Job c j rest) = Some (c, j # rest)"
| "at_round _ = None"

lemma at_round_inv:
  "at_round st = Some (c, rest) \<Longrightarrow>
    at_inv C st js P s \<longleftrightarrow> round_inv c rest js P s \<and> others_inv (C - {c}) s \<and> (\<forall>j r. st = Sending_Job c j r \<longrightarrow> job_counter s j = c)"
  by (cases st) auto

lemma at_idle: "at_inv C st js P s \<Longrightarrow> at_round st = None \<Longrightarrow> idle_inv s"
  by (cases st) auto

lemma dispatch_inv_worker:
  assumes inv: "dispatch_inv F u C st dn js rem P s" and rd: "at_round st = Some (c, rest)"
    and step: "round_inv c rest js (P @ ps) s'" "to_do s' = to_do s" "waits s' = waits s" "job_counter s' = job_counter s"
      "\<And>d. d \<noteq> c \<Longrightarrow> counters s' d = counters s d" "performed s' = performed s @ ps"
      "memory s' = dispatch_group_perform F ps (memory s)" "queue_length s' = queue_length s" "workers s' \<noteq> []"
  shows "dispatch_inv F u C st dn js rem (P @ ps) s'"
proof -
  obtain blocks where "performed s = concat blocks @ P" "list_all2 (\<lambda>b js. mset b = mset js) blocks dn"
    using inv by (auto simp: dispatch_inv_def)
  moreover have "at_inv C st js (P @ ps) s'"
    using inv step(1,4,5) unfolding dispatch_inv_def at_round_inv [OF rd] by (auto simp: others_inv_def)
  ultimately show ?thesis using inv step by (auto simp: dispatch_inv_def perform_append)
qed

definition program_left :: "caller_at \<Rightarrow> nat list list \<Rightarrow> nat list \<Rightarrow> group_program \<Rightarrow> nat list list" where
  "program_left st dn js rem = dn @ (if st = Between then [] else [js]) @ map (\<lambda>(f, g). group_jobs g) rem"

definition program_ok :: "nat set \<Rightarrow> group_program \<Rightarrow> bool" where
  "program_ok C gs \<longleftrightarrow> (\<forall>(f, g) \<in> set gs. group_jobs g \<noteq> [] \<and> (\<forall>c. group_counter g = Some c \<longrightarrow> c \<in> C))"

lemma others_inv_fresh: "others_inv C s \<Longrightarrow> others_inv C (s\<lparr>counters := (counters s)(c := event_counter_create n ThreadWorker)\<rparr>)"
  by (auto simp: others_inv_def event_counter_create_def event_counter_init_def)

lemma caller_step_inv_round:
  assumes st: "st \<noteq> Between" and inv: "dispatch_inv F u C st dn js rem P s" and ok: "program_ok C rem"
    and todo: "to_do s = a # as" and step: "caller_do a s = Some t"
  shows "\<exists>st' dn' js' rem' P'. dispatch_inv F u C st' dn' js' rem' P' (t\<lparr>to_do := as\<rparr>)
    \<and> program_left st' dn' js' rem' = program_left st dn js rem \<and> program_ok C rem'"
proof (cases st)
  case (Starting create c)
  show ?thesis
  proof (cases create)
    case True
    then have "dispatch_inv F u C (Starting False c) dn js rem P (t\<lparr>to_do := as\<rparr>)"
      using inv todo step Starting
      by (auto simp: dispatch_inv_def idle_inv_def others_inv_def event_counter_create_def event_counter_init_def)
    then show ?thesis using ok Starting by (intro exI conjI) (auto simp: program_left_def)
  next
    case False
    have "counter_inv c (length js) (event_counter_init (length js) (counters s c)) []"
      using inv Starting False by (simp add: dispatch_inv_def counter_inv_def event_counter_init_def)
    then have "dispatch_inv F u C (Sending c js) dn js rem P (t\<lparr>to_do := as\<rparr>)"
      using inv todo step Starting False
      by (auto simp: dispatch_inv_def idle_inv_def others_inv_def round_inv_def split: if_splits)
    then show ?thesis using ok Starting by (intro exI conjI) (auto simp: program_left_def)
  qed
next
  case (Sending c rest)
  show ?thesis
  proof (cases rest)
    case (Cons j js')
    then have "dispatch_inv F u C (Sending_Job c j js') dn js rem P (t\<lparr>to_do := as\<rparr>)"
      using inv todo step Sending
      by (auto simp: dispatch_inv_def others_inv_def round_inv_def)
    then show ?thesis using ok Sending by (intro exI conjI) (auto simp: program_left_def)
  next
    case Nil
    obtain e where e: "event_counter_wait (counters s c) = Some e" "t = s\<lparr>counters := (counters s)(c := e), waits := waits s + 1\<rparr>"
      using inv todo step Sending Nil by (auto simp: dispatch_inv_def)
    have r: "round_inv c [] js P s" "others_inv (C - {c}) s" using inv Sending Nil by (simp_all add: dispatch_inv_def)
    obtain blocks where b: "performed s = concat blocks @ P" "list_all2 (\<lambda>b js. mset b = mset js) blocks dn"
      using inv by (auto simp: dispatch_inv_def)
    have w: "mset P = mset js" "idle_inv s" "ec_semaphore e = Some False" using round_wait [OF r(1) e(1)] by simp_all
    have "performed s = concat (blocks @ [P]) @ []" "list_all2 (\<lambda>b js. mset b = mset js) (blocks @ [P]) (dn @ [js])"
      using b w(1) by (auto intro: list_all2_appendI)
    then have "\<exists>blocks. performed s = concat blocks @ [] \<and> list_all2 (\<lambda>b js. mset b = mset js) blocks (dn @ [js])" by blast
    then have "dispatch_inv F u C Between (dn @ [js]) [] rem [] (t\<lparr>to_do := as\<rparr>)"
      using inv todo Sending Nil e(2) w r(2)
      by (auto simp: dispatch_inv_def idle_inv_def others_inv_def)
    then show ?thesis using ok Sending by (intro exI conjI) (auto simp: program_left_def)
  qed
next
  case (Sending_Job c j rest)
  then have "dispatch_inv F u C (Sending c rest) dn js rem P (t\<lparr>to_do := as\<rparr>)"
    using inv todo step
    by (auto simp: dispatch_inv_def others_inv_def round_inv_def split: if_splits)
  then show ?thesis using ok Sending_Job by (intro exI conjI) (auto simp: program_left_def)
qed (simp add: st)

lemma caller_step_inv:
  assumes inv: "dispatch_inv F u C st dn js rem P s" and ok: "program_ok C rem"
    and todo: "to_do s = a # as" and step: "caller_do a s = Some t"
  shows "\<exists>st' dn' js' rem' P'. dispatch_inv F u C st' dn' js' rem' P' (t\<lparr>to_do := as\<rparr>)
    \<and> program_left st' dn' js' rem' = program_left st dn js rem \<and> program_ok C rem'"
proof (cases "st = Between")
  case False
  then show ?thesis using caller_step_inv_round [OF _ assms] by blast
next
  case Between: True
  then obtain f g rem' where rem: "rem = (f, g) # rem'" using inv todo by (cases rem) (auto simp: dispatch_inv_def program_actions_def)
  define st0 where "st0 = Starting (group_counter g = None) (case group_counter g of None \<Rightarrow> f | Some c \<Rightarrow> c)"
  have "dispatch_inv F u C st0 dn (group_jobs g) rem' [] s"
    using inv Between ok rem
    by (auto simp: dispatch_inv_def st0_def program_Cons program_ok_def others_inv_def split: option.splits)
  moreover have "program_left st0 dn (group_jobs g) rem' = program_left st dn js rem" "program_ok C rem'"
    using Between rem ok by (auto simp: program_left_def st0_def program_ok_def)
  moreover have "st0 \<noteq> Between" by (simp add: st0_def)
  ultimately show ?thesis using caller_step_inv_round [of st0 F u C dn "group_jobs g" rem' "[]" s] todo step by metis
qed

lemma dispatch_step_inv:
  assumes inv: "dispatch_inv F u C st dn js rem P s" and ok: "program_ok C rem" and step: "dispatch_step F s s'"
  shows "\<exists>st' dn' js' rem' P'. dispatch_inv F u C st' dn' js' rem' P' s'
    \<and> program_left st' dn' js' rem' = program_left st dn js rem \<and> program_ok C rem'"
  using step
proof cases
  case (caller_step a as t)
  then show ?thesis using caller_step_inv [OF inv ok] by blast
next
  case (worker_receive xs ys j q)
  then obtain c rest where rd: "at_round st = Some (c, rest)"
    using inv at_idle [of C st js P s] by (cases "at_round st") (auto simp: dispatch_inv_def idle_inv_def)
  have ri: "round_inv c rest js (P @ []) s'"
    using inv worker_receive round_receive [of c rest js P s xs ys j q] by (simp add: dispatch_inv_def at_round_inv [OF rd])
  have "dispatch_inv F u C st dn js rem (P @ []) s'"
    by (rule dispatch_inv_worker [OF inv rd ri]) (use worker_receive in simp_all)
  then show ?thesis using ok by blast
next
  case (worker_perform xs j ys)
  then obtain c rest where rd: "at_round st = Some (c, rest)"
    using inv at_idle [of C st js P s] by (cases "at_round st") (auto simp: dispatch_inv_def idle_inv_def)
  have ri: "round_inv c rest js (P @ [j]) s'"
    using inv worker_perform round_perform [of c rest js P s xs j ys] by (simp add: dispatch_inv_def at_round_inv [OF rd])
  have "dispatch_inv F u C st dn js rem (P @ [j]) s'"
    by (rule dispatch_inv_worker [OF inv rd ri]) (use worker_perform in simp_all)
  then show ?thesis using ok by blast
next
  case (worker_count xs j ys sig e)
  then obtain c rest where rd: "at_round st = Some (c, rest)"
    using inv at_idle [of C st js P s] by (cases "at_round st") (auto simp: dispatch_inv_def idle_inv_def)
  have r: "round_inv c rest js P s" using inv by (simp add: dispatch_inv_def at_round_inv [OF rd])
  have eq: "job_counter s j = c" using round_count [OF r worker_count(2,3)] by simp
  have ri: "round_inv c rest js (P @ []) s'"
    using round_count [OF r worker_count(2,3)] unfolding worker_count(1) eq by simp
  have "dispatch_inv F u C st dn js rem (P @ []) s'"
    by (rule dispatch_inv_worker [OF inv rd ri]) (use worker_count eq in simp_all)
  then show ?thesis using ok by blast
next
  case (worker_put xs c' ys e)
  then obtain c rest where rd: "at_round st = Some (c, rest)"
    using inv at_idle [of C st js P s] by (cases "at_round st") (auto simp: dispatch_inv_def idle_inv_def)
  have r: "round_inv c rest js P s" using inv by (simp add: dispatch_inv_def at_round_inv [OF rd])
  have ri: "round_inv c rest js (P @ []) s'" and eq: "c' = c"
    using round_put [OF r worker_put(2,3)] worker_put(1) by simp_all
  have "dispatch_inv F u C st dn js rem (P @ []) s'"
    by (rule dispatch_inv_worker [OF inv rd ri]) (use worker_put eq in simp_all)
  then show ?thesis using ok by blast
qed

section \<open>Every reachable state\<close>

abbreviation program_jobs :: "group_program \<Rightarrow> nat list list" where
  "program_jobs gs \<equiv> map (\<lambda>(f, g). group_jobs g) gs"

text \<open>The counters that the groups of a program already have.\<close>

definition program_counters :: "group_program \<Rightarrow> nat set" where
  "program_counters gs = {c. \<exists>(f, g) \<in> set gs. group_counter g = Some c}"

text \<open>
  The groups of a program have jobs, and the semaphores of those that were used before are
  empty, as a wait leaves them.
\<close>

definition program_valid :: "group_program \<Rightarrow> (nat \<Rightarrow> event_counter) \<Rightarrow> bool" where
  "program_valid gs cs \<longleftrightarrow> (\<forall>(f, g) \<in> set gs. group_jobs g \<noteq> []
     \<and> (case group_counter g of None \<Rightarrow> True | Some c \<Rightarrow> ec_semaphore (cs c) = Some False))"

lemma program_valid_ok: "program_valid gs cs \<Longrightarrow> program_ok (program_counters gs) gs"
  by (fastforce simp: program_valid_def program_ok_def program_counters_def)

lemma uncounted_replicate [simp]:
  "received (replicate n Worker_Idle) = []" "uncounted (replicate n Worker_Idle) = []" "putting (replicate n Worker_Idle) = []"
  by (induction n) simp_all

lemma dispatch_start_inv:
  assumes "dispatcher_thread_init wt qlen n u cs jc (program_actions gs) = Inr s" and "program_valid gs cs"
  shows "dispatch_inv F u (program_counters gs) Between [] [] gs [] s"
  using assms
  by (fastforce simp: dispatcher_thread_init_def dispatcher_init_def c_assert_def dispatch_inv_def idle_inv_def others_inv_def
      program_counters_def program_valid_def split: if_splits)

lemma dispatch_reachable_inv:
  assumes "dispatch_reachable F s t" and "dispatch_inv F u C Between [] [] gs [] s" and "program_ok C gs"
  shows "\<exists>st dn js rem P. dispatch_inv F u C st dn js rem P t \<and> program_left st dn js rem = program_jobs gs \<and> program_ok C rem"
  using assms
proof induction
  case dispatch_refl
  then show ?case by (intro exI conjI) (auto simp: program_left_def)
next
  case (dispatch_more t v)
  then obtain st dn js rem P where inv: "dispatch_inv F u C st dn js rem P t" "program_ok C rem"
    and left: "program_left st dn js rem = program_jobs gs" by blast
  show ?case using dispatch_step_inv [OF inv dispatch_more.hyps(2)] left by metis
qed

lemma at_inv_performed: "at_inv C st js P s \<Longrightarrow> mset P \<subseteq># (if st = Between then {#} else mset js)"
  by (cases st) (auto simp: round_inv_def)

lemma blocks_mset: "list_all2 (\<lambda>b js. mset b = mset js) bs jss \<Longrightarrow> mset (concat bs) = mset (concat jss)"
  by (induction rule: list_all2_induct) simp_all

text \<open>Jobs that commute may be performed in any order.\<close>

lemma perform_fold: "dispatch_group_perform F js = fold F js"
  by (rule ext) (induct_tac F js x rule: dispatch_group_perform.induct, simp_all)

lemma perform_permuted:
  assumes "\<forall>i j. F i \<circ> F j = F j \<circ> F i" and "mset xs = mset ys"
  shows "dispatch_group_perform F xs u = dispatch_group_perform F ys u"
  using fold_multiset_equiv [of xs F ys] assms by (simp add: perform_fold)

section \<open>Progress\<close>

fun action_work :: "caller_action \<Rightarrow> nat" where
  "action_work (Job_Send j) = 5"
| "action_work _ = 1"

fun worker_work :: "worker \<Rightarrow> nat" where
  "worker_work Worker_Idle = 0"
| "worker_work (Worker_Received j) = 3"
| "worker_work (Worker_Performed j) = 2"
| "worker_work (Worker_Putting c) = 1"

definition dispatch_work :: "'u dispatcher \<Rightarrow> nat" where
  "dispatch_work s = sum_list (map action_work (to_do s)) + 4 * length (job_queue s) + sum_list (map worker_work (workers s))"

lemma dispatch_step_work:
  assumes "dispatch_step F s t"
  shows "dispatch_work t < dispatch_work s"
  using assms
proof cases
  case (caller_step a as s')
  then show ?thesis by (cases a) (auto simp: dispatch_work_def split: if_splits)
next
  case (worker_count xs j ys sig e)
  then show ?thesis by (cases sig) (auto simp: dispatch_work_def)
qed (auto simp: dispatch_work_def)

lemma dispatch_steps_work: "(dispatch_step F ^^ n) s t \<Longrightarrow> n + dispatch_work t \<le> dispatch_work s \<and> dispatch_reachable F s t"
proof (induction n arbitrary: t)
  case 0
  then show ?case by (simp add: dispatch_refl)
next
  case (Suc n)
  then obtain v where "(dispatch_step F ^^ n) s v" "dispatch_step F v t" by auto
  then show ?case using Suc.IH [of v] dispatch_step_work [of F v t] dispatch_more [of F s v t] by simp
qed

text \<open>A worker that is not idle can go on.\<close>

lemma busy_worker_steps:
  assumes inv: "at_inv C st js P s" and w: "w \<in> set (workers s)" "w \<noteq> Worker_Idle"
  shows "\<exists>t. dispatch_step F s t"
proof -
  obtain xs ys where ws: "workers s = xs @ w # ys" using w(1) by (meson split_list)
  show ?thesis
  proof (cases w)
    case (Worker_Putting c)
    then have "putting (workers s) \<noteq> []" using ws by simp
    then obtain d rest where rd: "at_round st = Some (d, rest)"
      using inv at_idle [of C st js P s] by (cases "at_round st") (auto simp: idle_inv_def)
    then have "putting (workers s) = [d]" "ec_semaphore (counters s d) = Some False"
      using inv \<open>putting (workers s) \<noteq> []\<close>
      by (auto simp: at_round_inv [OF rd] round_inv_def counter_inv_def split: if_splits)
    then have "ec_semaphore (counters s c) = Some False" using ws Worker_Putting by (auto simp: append_eq_Cons_conv)
    then have "semaphore_put (counters s c) = Some (counters s c\<lparr>ec_semaphore := Some True\<rparr>)"
      by (simp add: semaphore_put_def)
    then show ?thesis using ws Worker_Putting dispatch_step.worker_put by blast
  next
    case (Worker_Performed j)
    then show ?thesis using ws dispatch_step.worker_count surj_pair by metis
  qed (use w ws dispatch_step.worker_perform in blast)+
qed

lemma idle_workers:
  "(\<And>w. w \<in> set ws \<Longrightarrow> w = Worker_Idle) \<Longrightarrow> received ws = [] \<and> uncounted ws = [] \<and> putting ws = []"
  by (metis replicate_length_same uncounted_replicate)

lemma sends_then_wait: "Counter_Wait c # as = sends d rest @ Counter_Wait e # bs \<Longrightarrow> rest = [] \<and> e = c"
  by (cases rest) simp_all

lemma no_end_token_check: "Check_End_Token \<notin> set (at_actions st js @ program_actions rem)"
proof -
  have "Check_End_Token \<notin> set (at_actions st js)" for st js
    by (cases "(st, js)" rule: at_actions.cases) (auto simp: sends_def)
  moreover have "Check_End_Token \<notin> set (program_actions rem)"
  proof (induction rem)
    case (Cons fg rem)
    then show ?case by (cases fg) (simp add: program_Cons calculation del: at_actions.simps)
  qed (simp add: program_actions_def)
  ultimately show ?thesis by simp
qed

lemma round_starts: "program_actions rem \<noteq> Counter_Wait c # as" "Counter_Wait c # as \<noteq> program_actions rem"
proof -
  show "program_actions rem \<noteq> Counter_Wait c # as"
  proof (cases rem)
    case (Cons fg gs)
    then show ?thesis by (cases fg) (auto simp only: program_Cons at_actions.simps append_Cons append_Nil split: if_splits)
  qed (simp add: program_actions_def)
  then show "Counter_Wait c # as \<noteq> program_actions rem" by (rule not_sym)
qed

text \<open>When all workers are idle and the queue is empty, the caller can go on.\<close>

lemma idle_caller_steps:
  assumes inv: "dispatch_inv F u C st dn js rem P s" and todo: "to_do s = a # as"
    and idle: "\<And>w. w \<in> set (workers s) \<Longrightarrow> w = Worker_Idle" and queue: "job_queue s = []"
  shows "\<exists>t. caller_do a s = Some t"
proof (cases a)
  case (Counter_Wait c)
  have "st = Sending c []" using inv todo Counter_Wait
    by (cases st) (auto simp: dispatch_inv_def round_starts dest: sends_then_wait split: if_splits)
  then have r: "round_inv c [] js P s" using inv by (simp add: dispatch_inv_def)
  then have "ec_semaphore (counters s c) = Some True"
    using round_length [OF r] idle_workers [OF idle] queue by (auto simp: round_inv_def counter_inv_def)
  then show ?thesis using Counter_Wait by (simp add: event_counter_wait_def)
next
  case Check_End_Token
  then have "Check_End_Token \<in> set (to_do s)" using todo by simp
  then show ?thesis using inv no_end_token_check [of st js rem] unfolding dispatch_inv_def by metis
qed (use inv queue in \<open>auto simp: dispatch_inv_def\<close>)

lemma dispatch_enabled:
  assumes inv: "dispatch_inv F u C st dn js rem P s" and todo: "to_do s \<noteq> []"
  shows "\<exists>t. dispatch_step F s t"
proof (cases "\<forall>w \<in> set (workers s). w = Worker_Idle")
  case False
  then show ?thesis using inv busy_worker_steps unfolding dispatch_inv_def by meson
next
  case idle: True
  show ?thesis
  proof (cases "job_queue s")
    case Nil
    obtain a as where "to_do s = a # as" using todo by (cases "to_do s") simp_all
    then show ?thesis using idle_caller_steps [OF inv _ _ Nil] idle dispatch_step.caller_step by meson
  next
    case (Cons j q)
    have "workers s = [] @ Worker_Idle # tl (workers s)" using idle inv by (cases "workers s") (auto simp: dispatch_inv_def)
    then show ?thesis using Cons dispatch_step.worker_receive by blast
  qed
qed

section \<open>What the dispatcher does\<close>

text \<open>
  C10: A wait for a group returns only when every job of the group has been performed. In every
  state that the caller and the workers can reach, whatever their interleaving, the jobs of the
  groups waited for have been performed, group by group, each as often as it was added; of the
  groups behind them only jobs of the next one have been performed; and the memory is as if the
  jobs performed had run one after the other.
\<close>

theorem dispatch_wait_completes:
  assumes "dispatcher_thread_init wt qlen n u cs jc (program_actions gs) = Inr s" and "program_valid gs cs"
    and "dispatch_reachable F s t"
  shows "\<exists>blocks P. performed t = concat blocks @ P \<and> waits t \<le> length gs
    \<and> list_all2 (\<lambda>b js. mset b = mset js) blocks (take (waits t) (program_jobs gs))
    \<and> mset P \<subseteq># mset (concat (take 1 (drop (waits t) (program_jobs gs))))
    \<and> memory t = dispatch_group_perform F (performed t) u"
proof -
  obtain st dn js rem P where inv: "dispatch_inv F u (program_counters gs) st dn js rem P t"
    and left: "program_left st dn js rem = program_jobs gs"
    using dispatch_reachable_inv [OF assms(3) dispatch_start_inv [OF assms(1,2)] program_valid_ok [OF assms(2)]] by blast
  have w: "waits t = length dn" using inv by (simp add: dispatch_inv_def)
  have parts: "take (waits t) (program_jobs gs) = dn"
    "drop (waits t) (program_jobs gs) = (if st = Between then [] else [js]) @ program_jobs rem"
    unfolding left [symmetric] w program_left_def by simp_all
  have "length dn \<le> length (program_jobs gs)" unfolding left [symmetric] program_left_def by simp
  then have len: "waits t \<le> length gs" using w by simp
  obtain blocks where b: "performed t = concat blocks @ P" "list_all2 (\<lambda>b js. mset b = mset js) blocks dn"
    using inv by (auto simp: dispatch_inv_def)
  have "at_inv (program_counters gs) st js P t" "memory t = dispatch_group_perform F (performed t) u"
    using inv by (simp_all add: dispatch_inv_def)
  moreover have "mset P \<subseteq># mset (concat (take 1 (drop (waits t) (program_jobs gs))))"
    unfolding parts using at_inv_performed [OF calculation(1)] by (cases "st = Between") auto
  ultimately show ?thesis using b len parts(1) by auto
qed

definition sample_program :: group_program where
  "sample_program = [(7, \<lparr>group_length = 2, group_jobs = [1, 2], group_counter = None\<rparr>)]"

definition sample_job :: "nat \<Rightarrow> nat list \<Rightarrow> nat list" where
  "sample_job j u = j # u"

definition sample_start :: "nat list dispatcher" where
  "sample_start = projr (dispatcher_thread_init UninitializedWorker 1 2 [] (\<lambda>c. \<lparr>ec_semaphore = None, ec_count = 0\<rparr>) (\<lambda>j. 0)
     (program_actions sample_program))"

text \<open>Both workers take a job and the second is faster; one of them signals the counter.\<close>

definition sample_schedule :: "nat option list" where
  "sample_schedule = [None, None, None, None, Some 0, None, None, Some 1, Some 1, Some 0, Some 1, Some 0, Some 0, None]"

lemma sample_valid:
  "dispatcher_thread_init UninitializedWorker 1 2 [] (\<lambda>c. \<lparr>ec_semaphore = None, ec_count = 0\<rparr>) (\<lambda>j. 0) (program_actions sample_program)
     = Inr sample_start"
  "program_valid sample_program (\<lambda>c. \<lparr>ec_semaphore = None, ec_count = 0\<rparr>)"
  by (simp_all add: sample_start_def dispatcher_thread_init_def dispatcher_init_def c_assert_def program_valid_def sample_program_def)

lemma sample_runs: "map_option (\<lambda>t. (waits t, performed t, memory t)) (dispatch_run sample_job sample_schedule sample_start)
    = Some (1, [2, 1], [1, 2])"
  by code_simp

lemma sample_reached: "\<exists>t. (dispatch_step sample_job ^^ 14) sample_start t \<and> waits t = 1 \<and> memory t = [1, 2]"
proof -
  obtain t where "dispatch_run sample_job sample_schedule sample_start = Some t" "waits t = 1" "memory t = [1, 2]"
    using sample_runs by auto
  moreover have "length sample_schedule = 14" by code_simp
  ultimately show ?thesis using dispatch_run_steps [of sample_job sample_schedule sample_start t] by metis
qed

lemma dispatch_wait_completes_witness:
  "\<exists>t blocks P. dispatch_reachable sample_job sample_start t \<and> waits t = 1 \<and> performed t = concat blocks @ P
    \<and> list_all2 (\<lambda>b js. mset b = mset js) blocks [[1, 2]]"
proof -
  obtain t where t: "(dispatch_step sample_job ^^ 14) sample_start t" "waits t = 1" using sample_reached by blast
  then have "dispatch_reachable sample_job sample_start t" using dispatch_steps_work by blast
  moreover obtain blocks P where "performed t = concat blocks @ P"
    "list_all2 (\<lambda>b js. mset b = mset js) blocks (take (waits t) (program_jobs sample_program))"
    using dispatch_wait_completes [OF sample_valid calculation] by blast
  moreover have "take 1 (program_jobs sample_program) = [[1, 2]]" by (simp add: sample_program_def)
  ultimately show ?thesis using t(2) by metis
qed

text \<open>
  C9: The dispatcher finishes. Caller and workers make at most \<open>dispatch_work\<close> steps, and
  where no step is left the caller has returned from all its waits. If the jobs commute, the
  memory is then what performing the groups in the caller's own thread, with
  \<open>dispatch_group_perform\<close>, makes of it.
\<close>

theorem dispatch_finishes:
  assumes "dispatcher_thread_init wt qlen n u cs jc (program_actions gs) = Inr s" and "program_valid gs cs"
    and "(dispatch_step F ^^ k) s t"
  shows "k \<le> dispatch_work s \<and> ((\<nexists>t'. dispatch_step F t t') \<longrightarrow> to_do t = [] \<and> waits t = length gs
    \<and> ((\<forall>i j. F i \<circ> F j = F j \<circ> F i) \<longrightarrow> memory t = dispatch_group_perform F (concat (program_jobs gs)) u))"
proof (intro conjI impI)
  have steps: "k + dispatch_work t \<le> dispatch_work s" "dispatch_reachable F s t"
    using dispatch_steps_work [OF assms(3)] by simp_all
  show "k \<le> dispatch_work s" using steps(1) by simp
  assume stuck: "\<nexists>t'. dispatch_step F t t'"
  obtain st dn js rem P where inv: "dispatch_inv F u (program_counters gs) st dn js rem P t"
    and left: "program_left st dn js rem = program_jobs gs"
    using dispatch_reachable_inv [OF steps(2) dispatch_start_inv [OF assms(1,2)] program_valid_ok [OF assms(2)]] by blast
  show todo: "to_do t = []" using dispatch_enabled [OF inv] stuck by blast
  have st: "st = Between" using inv todo by (cases st) (auto simp: dispatch_inv_def)
  have rem: "rem = []" using inv todo by (cases rem) (auto simp: dispatch_inv_def program_Cons)
  have dn: "dn = program_jobs gs" using left st rem by (simp add: program_left_def)
  show "waits t = length gs" using inv dn by (simp add: dispatch_inv_def)
  assume "\<forall>i j. F i \<circ> F j = F j \<circ> F i"
  moreover have "mset (performed t) = mset (concat (program_jobs gs))"
    using inv st dn by (auto simp: dispatch_inv_def dest: blocks_mset)
  ultimately have "dispatch_group_perform F (performed t) u = dispatch_group_perform F (concat (program_jobs gs)) u"
    by (rule perform_permuted)
  then show "memory t = dispatch_group_perform F (concat (program_jobs gs)) u" using inv by (simp add: dispatch_inv_def)
qed

lemma dispatch_finishes_witness: "\<exists>t. (dispatch_step sample_job ^^ 14) sample_start t \<and> 14 \<le> dispatch_work sample_start"
proof -
  obtain t where "(dispatch_step sample_job ^^ 14) sample_start t" using sample_reached by blast
  then show ?thesis using dispatch_finishes [OF sample_valid, of 14 sample_job t] by blast
qed

section \<open>Limits\<close>

text \<open>
  A group without jobs can be added, but waiting for it looks at its first job, which the array
  does not hold.
\<close>

lemma empty_group_wait_reads:
  assumes "group_jobs g = []" and "dispatcher_group_add wt chanends fresh g = Inr (g', acts)"
  shows "dispatcher_group_wait wt jc g' = Inl OutOfBounds"
  using assms by (cases wt) (auto simp: dispatcher_group_add_def dispatcher_group_wait_def Let_def res_simps split: option.splits)

text \<open>A group of more jobs than interrupt workers is sent beyond the channel ends of the workers.\<close>

lemma isr_sends_iff: "isr_sends chanends i c js =
    (if i + length js \<le> length chanends \<or> js = []
     then Inr (concat (map (\<lambda>(ch, j). [Job_Set_Counter j c, Chanend_Send ch j]) (zip (drop i chanends) js)))
     else Inl OutOfBounds)"
proof (induction chanends i c js rule: isr_sends.induct)
  case (2 chanends i c j js)
  then show ?case by (auto simp: Cons_nth_drop_Suc [symmetric])
qed simp

text \<open>The check of the core numbers, from 0 to 7, lets the core 8 pass.\<close>

lemma core_eight_passes: "dispatcher_isr_init UninitializedWorker 0x100 = Inr [8]"
  by code_simp

end
