(* ===== verification/Qspi_Io.thy ===== *)
theory Qspi_Io
  imports Xcore_Bits
begin

unbundle bit_operations_syntax

text \<open>
  Serialisation on the four data lines of a QSPI flash, modules/hil/lib_qspi_io/api/qspi_io.h. A port
  word leaves and enters the four lines nibble by nibble, the least significant one first. The
  lines are lists of nibbles for what is sent, one per clock cycle, and a function of the cycle for what is received;
  line 0 is MOSI and line 1 MISO. Sampling delays and the clock are left out: cycle \<open>t\<close> of the
  model is the one whose level the port samples at time \<open>t\<close> after the start of the transaction.
\<close>

section \<open>Nibbles on the port\<close>

type_synonym nibble = "4 word"

definition nib :: "u32 \<Rightarrow> nat \<Rightarrow> nibble" where
  "nib w i = ucast (drop_bit (4 * i) w)"

definition port_nibbles :: "u32 \<Rightarrow> nibble list" where
  "port_nibbles w = map (nib w) [0 ..< 8]"

fun of_nibbles :: "nibble list \<Rightarrow> u32" where
  "of_nibbles [] = 0"
| "of_nibbles (x # xs) = ucast x OR push_bit 4 (of_nibbles xs)"

text \<open>What the port has shifted in at time \<open>t\<close>: the last eight nibbles, the oldest one lowest.\<close>

definition port_word :: "(nat \<Rightarrow> nibble) \<Rightarrow> nat \<Rightarrow> u32" where
  "port_word sio t = of_nibbles (map (\<lambda>k. sio (t + k - 7)) [0 ..< 8])"

definition hi_nib :: "u8 \<Rightarrow> nibble" where "hi_nib b = ucast (drop_bit 4 b)"
definition lo_nib :: "u8 \<Rightarrow> nibble" where "lo_nib b = ucast b"
definition of_hi_lo :: "nibble \<Rightarrow> nibble \<Rightarrow> u8" where "of_hi_lo h l = push_bit 4 (ucast h) OR ucast l"

lemma bit_nib [simp]: "bit (nib w i) j \<longleftrightarrow> j < 4 \<and> bit w (4 * i + j)"
  by (auto simp: nib_def bit_simps)

lemma bit_hi_lo [simp]:
  "bit (hi_nib b) j \<longleftrightarrow> j < 4 \<and> bit b (4 + j)" "bit (lo_nib b) j \<longleftrightarrow> j < 4 \<and> bit b j"
  by (auto simp: hi_nib_def lo_nib_def bit_simps)

lemma nibble_bit_bound: "bit (x :: nibble) j \<Longrightarrow> j < 4"
  by (drule bit_imp_le_length) simp

lemma bit_of_hi_lo [simp]: "bit (of_hi_lo h l) j \<longleftrightarrow> j < 8 \<and> (if j < 4 then bit l j else bit h (j - 4))"
  by (auto simp: of_hi_lo_def bit_simps dest: nibble_bit_bound)

lemma of_hi_lo_nibs [simp]: "of_hi_lo (hi_nib b) (lo_nib b) = b"
  by (auto intro!: bit_word_eqI split: if_splits)

lemma hi_lo_of_hi_lo [simp]: "hi_nib (of_hi_lo h l) = h" "lo_nib (of_hi_lo h l) = l"
  by (auto intro!: bit_word_eqI)

lemma bit_of_nibbles:
  "bit (of_nibbles xs) k \<longleftrightarrow> k < 32 \<and> k div 4 < length xs \<and> bit (xs ! (k div 4)) (k mod 4)"
proof (induction xs arbitrary: k)
  case (Cons x xs)
  show ?case
  proof (cases "k < 4")
    case True
    then show ?thesis by (auto simp: bit_simps)
  next
    case False
    then obtain m where m: "k = m + 4" using le_Suc_ex [of 4 k] by (auto simp: add.commute)
    then have "k div 4 = Suc (m div 4)" "k mod 4 = m mod 4" by simp_all
    then show ?thesis using m Cons [of m] by (auto simp: bit_simps dest: nibble_bit_bound)
  qed
qed simp

lemma nib_of_nibbles: "length xs = 8 \<Longrightarrow> i < 8 \<Longrightarrow> nib (of_nibbles xs) i = xs ! i"
proof (rule bit_word_eqI)
  fix j assume "length xs = 8" "i < 8" "j < LENGTH(4)"
  then show "bit (nib (of_nibbles xs) i) j \<longleftrightarrow> bit (xs ! i) j" by (simp add: bit_of_nibbles)
qed

lemma length_port_nibbles [simp]: "length (port_nibbles w) = 8"
  by (simp add: port_nibbles_def)

lemma port_nibbles_of_nibbles: "length xs = 8 \<Longrightarrow> port_nibbles (of_nibbles xs) = xs"
  by (auto simp: port_nibbles_def nib_of_nibbles intro!: nth_equalityI)

lemma word_eq_nibs: "(\<And>i. i < 8 \<Longrightarrow> nib v i = nib w i) \<Longrightarrow> v = w"
proof (rule bit_word_eqI)
  fix k assume eq: "\<And>i. i < 8 \<Longrightarrow> nib v i = nib w i" and "k < LENGTH(32)"
  then have "bit (nib v (k div 4)) (k mod 4) \<longleftrightarrow> bit (nib w (k div 4)) (k mod 4)" by simp
  then show "bit v k \<longleftrightarrow> bit w k" by (simp del: add.commute)
qed

lemma port_nibbles_inject: "port_nibbles v = port_nibbles w \<longleftrightarrow> v = w"
  by (auto simp: port_nibbles_def intro!: word_eq_nibs simp del: upt_Suc)

lemma of_nibbles_port_nibbles [simp]: "of_nibbles (port_nibbles w) = w"
  by (metis length_port_nibbles port_nibbles_inject port_nibbles_of_nibbles)

section \<open>Conversions\<close>

definition QSPI_IO_BYTE_TO_MOSI :: "u32 \<Rightarrow> u32" where
  "QSPI_IO_BYTE_TO_MOSI x = foldr (\<lambda>i w. push_bit (i * 4) ((drop_bit i x AND 1) OR 0xE) OR w) [0 ..< 8] 0"

definition qspi_io_byte_to_mosi :: "u32 \<Rightarrow> u32" where
  "qspi_io_byte_to_mosi x =
     (let ones = 0xFFFFFFFF;
          x = x OR 0xFFFFFF00;
          (x, ones) = zip_bits x ones;
          (ones, x) = zip_bits ones x
      in bitrev x)"

definition qspi_io_miso_to_byte :: "u32 \<Rightarrow> u32" where
  "qspi_io_miso_to_byte x =
     (let unzipped = 0;
          x = bitrev x;
          (unzipped, x) = unzip_bits unzipped x;
          (unzipped, x) = unzip_bits unzipped x
      in unzipped)"

definition qspi_io_nibble_swap :: "u32 \<Rightarrow> u32" where
  "qspi_io_nibble_swap word =
     (let tmp = word AND 0xF0F0F0F0;
          word = word AND 0x0F0F0F0F;
          word = push_bit 4 word;
          tmp = drop_bit 4 tmp
      in word OR tmp)"

datatype transfer_mode = qspi_io_transfer_normal | qspi_io_transfer_nibble_swap

section \<open>Output\<close>

text \<open>
  The nibbles that the port puts on the lines. \<open>data\<close> is the memory from the caller's pointer on, \<open>len\<close> the number of bytes
  to send; the words that contain them are read as wholes.
\<close>

definition data_word :: "u8 list \<Rightarrow> nat \<Rightarrow> u32" where
  "data_word data i = of_le32 (drop (4 * i) data)"

definition swap_if :: "bool \<Rightarrow> u32 \<Rightarrow> u32" where
  "swap_if b word = (if b then qspi_io_nibble_swap word else word)"

definition qspi_io_start_word :: "u32 \<Rightarrow> nibble list" where
  "qspi_io_start_word first_word = port_nibbles (qspi_io_nibble_swap (byterev first_word))"

definition quad_out :: "transfer_mode \<Rightarrow> u8 list \<Rightarrow> nat \<Rightarrow> nibble list" where
  "quad_out transfer_mode data len =
     (let word_len = len div 4;
          words = concat (map (\<lambda>i. port_nibbles (swap_if (transfer_mode = qspi_io_transfer_normal) (data_word data i))) [0 ..< word_len]);
          len = len mod 4
      in if len \<noteq> 0
         then words @ take (2 * len) (port_nibbles (swap_if (transfer_mode = qspi_io_transfer_normal) (data_word data word_len)))
         else words)"

text \<open>
  The caller's pointer \<open>p\<close> has to be on a 4-byte boundary: the bytes are read and written as words.
\<close>

definition c_aligned :: "nat \<Rightarrow> unit res" where
  "c_aligned p = (if p mod 4 = 0 then Inr () else Inl Misaligned)"

lemma c_aligned_Inr [simp]: "c_aligned p = Inr u \<longleftrightarrow> p mod 4 = 0"
  by (simp add: c_aligned_def)

lemma c_aligned_mod [simp]: "p mod 4 = 0 \<Longrightarrow> c_aligned p = Inr ()"
  by (simp add: c_aligned_def)

definition qspi_io_bytes_out :: "transfer_mode \<Rightarrow> nat \<Rightarrow> u8 list \<Rightarrow> nat \<Rightarrow> nibble list res" where
  "qspi_io_bytes_out transfer_mode p data len = rbind (c_aligned p) (\<lambda>_. Inr (quad_out transfer_mode data len))"

definition qspi_io_words_out :: "transfer_mode \<Rightarrow> u32 list \<Rightarrow> nibble list" where
  "qspi_io_words_out transfer_mode data =
     concat (map (\<lambda>w. port_nibbles (swap_if (transfer_mode = qspi_io_transfer_normal) (byterev w))) data)"

definition qspi_io_mosi_out :: "transfer_mode \<Rightarrow> u8 list \<Rightarrow> nibble list" where
  "qspi_io_mosi_out transfer_mode data =
     concat (map (\<lambda>b. port_nibbles (qspi_io_byte_to_mosi (swap_if (transfer_mode \<noteq> qspi_io_transfer_normal) (ucast b)))) data)"

section \<open>Input\<close>

text \<open>
  \<open>sio\<close> are the levels of the lines cycle by cycle. Of a last group of fewer than four bytes, the port
  is told the number unless its trigger time is still set, for the very first group.
\<close>

definition quad_in :: "transfer_mode \<Rightarrow> (nat \<Rightarrow> nibble) \<Rightarrow> nat \<Rightarrow> nat \<Rightarrow> u8 list" where
  "quad_in transfer_mode sio start_time len =
     (let word_len = len div 4;
          conv = swap_if (transfer_mode = qspi_io_transfer_normal);
          words = concat (map (\<lambda>i. le32 (conv (port_word sio (start_time + 8 * i)))) [0 ..< word_len]);
          len = len mod 4
      in if len \<noteq> 0
         then let last_time = (if 0 < word_len then start_time + 8 * (word_len - 1) + 2 * len else start_time);
                  word = drop_bit (8 * (4 - len)) (port_word sio last_time)
              in words @ take len (le32 (conv word))
         else words)"

definition qspi_io_bytes_in :: "transfer_mode \<Rightarrow> nat \<Rightarrow> (nat \<Rightarrow> nibble) \<Rightarrow> nat \<Rightarrow> nat \<Rightarrow> u8 list res" where
  "qspi_io_bytes_in transfer_mode p sio start_time len = rbind (c_aligned p) (\<lambda>_. Inr (quad_in transfer_mode sio start_time len))"

definition qspi_io_words_in :: "transfer_mode \<Rightarrow> (nat \<Rightarrow> nibble) \<Rightarrow> nat \<Rightarrow> nat \<Rightarrow> u32 list" where
  "qspi_io_words_in transfer_mode sio start_time len =
     map (\<lambda>i. byterev (swap_if (transfer_mode = qspi_io_transfer_normal) (port_word sio (start_time + 8 * i)))) [0 ..< len]"

definition qspi_io_miso_in :: "transfer_mode \<Rightarrow> (nat \<Rightarrow> nibble) \<Rightarrow> nat \<Rightarrow> nat \<Rightarrow> u8 list" where
  "qspi_io_miso_in transfer_mode sio start_time len =
     map (\<lambda>i. ucast (swap_if (transfer_mode \<noteq> qspi_io_transfer_normal) (qspi_io_miso_to_byte (port_word sio (start_time + 8 * i)))))
       [0 ..< len]"

text \<open>
  The poll may not end. Its result is the number of bytes that did not match; for each, the end of the transaction is put
  off by eight cycles. \<open>sio n\<close> are the levels of the lines in a transaction that has been put off \<open>n\<close> times.
\<close>

partial_function (option) qspi_io_miso_poll :: "(nat \<Rightarrow> nat \<Rightarrow> nibble) \<Rightarrow> u8 \<Rightarrow> u8 \<Rightarrow> nat \<Rightarrow> nat \<Rightarrow> nat option" where
  "qspi_io_miso_poll sio mask_bits val start_time n =
     (if qspi_io_miso_to_byte (port_word (sio n) (start_time + 8 * n)) AND ucast mask_bits = ucast val then Some n
      else qspi_io_miso_poll sio mask_bits val start_time (Suc n))"

section \<open>What is on the lines\<close>

text \<open>
  A byte on four lines takes two cycles, the upper nibble first; on one line eight, the most
  significant bit first, while the other lines stay high.
\<close>

definition quad_nibbles :: "u8 list \<Rightarrow> nibble list" where
  "quad_nibbles bs = concat (map (\<lambda>b. [hi_nib b, lo_nib b]) bs)"

definition spi_nibbles :: "u8 list \<Rightarrow> nibble list" where
  "spi_nibbles bs = concat (map (\<lambda>b. map (\<lambda>i. if bit b (7 - i) then 0xF else 0xE) [0 ..< 8]) bs)"

definition swap_byte :: "u8 \<Rightarrow> u8" where
  "swap_byte b = of_hi_lo (lo_nib b) (hi_nib b)"

lemma quad_nibbles_simps [simp]:
  "quad_nibbles [] = []" "quad_nibbles (b # bs) = hi_nib b # lo_nib b # quad_nibbles bs"
  "quad_nibbles (bs @ cs) = quad_nibbles bs @ quad_nibbles cs"
  by (simp_all add: quad_nibbles_def)

lemma length_quad_nibbles [simp]: "length (quad_nibbles bs) = 2 * length bs"
  by (induction bs) simp_all

lemma spi_nibbles_simps [simp]:
  "spi_nibbles [] = []" "spi_nibbles (bs @ cs) = spi_nibbles bs @ spi_nibbles cs"
  by (simp_all add: spi_nibbles_def)

lemma spi_nibbles_Cons: "spi_nibbles (b # bs) = spi_nibbles [b] @ spi_nibbles bs"
  by (simp add: spi_nibbles_def)

lemma length_spi_nibbles [simp]: "length (spi_nibbles bs) = 8 * length bs"
proof (induction bs)
  case (Cons b bs)
  then show ?case by (subst spi_nibbles_Cons) (simp add: spi_nibbles_def)
qed simp

lemma mask_0F_bits: "bit (0x0F0F0F0F :: u32) k \<longleftrightarrow> k < 32 \<and> k mod 8 < 4"
proof (cases "k < 32")
  case True
  moreover have "\<forall>k \<in> set [0 ..< 32]. bit (0x0F0F0F0F :: u32) k = (k mod 8 < 4)" by code_simp
  ultimately show ?thesis by simp
qed (simp add: bit_word_iff_drop_bit_and)

lemma mask_F0_bits: "bit (0xF0F0F0F0 :: u32) k \<longleftrightarrow> k < 32 \<and> 4 \<le> k mod 8"
proof (cases "k < 32")
  case True
  moreover have "\<forall>k \<in> set [0 ..< 32]. bit (0xF0F0F0F0 :: u32) k = (4 \<le> k mod 8)" by code_simp
  ultimately show ?thesis by simp
qed (simp add: bit_word_iff_drop_bit_and)

lemma mod8_shift: "(m + 4) mod 8 < 4 \<longleftrightarrow> 4 \<le> m mod (8 :: nat)"
proof -
  have "(m mod 8 + 4) mod 8 < 4 \<longleftrightarrow> 4 \<le> m mod (8 :: nat)"
  proof (cases "m mod 8 < 4")
    case False
    moreover have "m mod 8 < 8" by simp
    ultimately have "m mod 8 \<in> {4, 5, 6, 7}" by auto
    then show ?thesis by auto
  qed simp
  then show ?thesis by (simp add: mod_add_left_eq)
qed

lemma bit_nibble_swap:
  "bit (qspi_io_nibble_swap w) k \<longleftrightarrow> k < 32 \<and> (if k mod 8 < 4 then bit w (k + 4) else bit w (k - 4))"
proof -
  have b: "bit (qspi_io_nibble_swap w) k \<longleftrightarrow> k < 32 \<and> 4 \<le> k \<and> bit w (k - 4) \<and> (k - 4) mod 8 < 4
      \<or> bit w (4 + k) \<and> 4 + k < 32 \<and> 4 \<le> (4 + k) mod 8"
    unfolding qspi_io_nibble_swap_def Let_def bit_or_iff bit_push_bit_iff bit_drop_bit_eq bit_and_iff mask_0F_bits mask_F0_bits comp_def
    by auto
  have wb: "bit w (4 + k) \<Longrightarrow> 4 + k < 32" using bit_imp_le_length [of w "4 + k"] by simp
  have up: "4 \<le> (4 + k) mod 8 \<longleftrightarrow> k mod 8 < 4" using mod8_shift [of k] by (simp add: add.commute not_less [symmetric])
  show ?thesis
  proof (cases "4 \<le> k")
    case True
    then obtain m where m: "k = m + 4" using le_Suc_ex [of 4 k] by (auto simp: add.commute)
    then show ?thesis unfolding b up using wb mod8_shift [of m] by (auto simp: add.commute)
  next
    case False
    then show ?thesis unfolding b up using wb by (auto simp: add.commute)
  qed
qed

lemma nib_swap:
  assumes "i < 8"
  shows "nib (qspi_io_nibble_swap w) i = nib w (if even i then i + 1 else i - 1)"
proof (rule bit_word_eqI)
  fix j assume "j < LENGTH(4)"
  then have j: "j < 4" by simp
  then have "(4 * i + j) mod 8 < 4 \<longleftrightarrow> even i" by presburger
  moreover have "4 * (i + 1) + j = 4 * i + j + 4" by simp
  moreover have "odd i \<Longrightarrow> 4 * (i - 1) + j = 4 * i + j - 4" by (cases i) auto
  ultimately show "bit (nib (qspi_io_nibble_swap w) i) j \<longleftrightarrow> bit (nib w (if even i then i + 1 else i - 1)) j"
    using assms j unfolding bit_nib bit_nibble_swap by (cases "even i") (auto simp: add.assoc add.commute [of 4])
qed

lemma upt8: "[0 ..< 8] = [0, 1, 2, 3, 4, 5, 6, 7 :: nat]"
  by (simp add: upt_rec)

lemma port_nibbles_swap:
  "port_nibbles (qspi_io_nibble_swap w) = [nib w 1, nib w 0, nib w 3, nib w 2, nib w 5, nib w 4, nib w 7, nib w 6]"
  by (simp add: port_nibbles_def upt8 nib_swap)

lemma u8_no_bit: "8 \<le> n \<Longrightarrow> \<not> bit (b :: u8) n"
  using u8_bit_bound [of b n] by auto

lemma nib_of_le32:
  "nib (of_le32 (a # b # c # d # bs)) 0 = lo_nib a" "nib (of_le32 (a # b # c # d # bs)) 1 = hi_nib a"
  "nib (of_le32 (a # b # c # d # bs)) (Suc 0) = hi_nib a"
  "nib (of_le32 (a # b # c # d # bs)) 2 = lo_nib b" "nib (of_le32 (a # b # c # d # bs)) 3 = hi_nib b"
  "nib (of_le32 (a # b # c # d # bs)) 4 = lo_nib c" "nib (of_le32 (a # b # c # d # bs)) 5 = hi_nib c"
  "nib (of_le32 (a # b # c # d # bs)) 6 = lo_nib d" "nib (of_le32 (a # b # c # d # bs)) 7 = hi_nib d"
  by (auto intro!: bit_word_eqI simp: bit_simps u8_no_bit)

definition as_sent :: "transfer_mode \<Rightarrow> u8 \<Rightarrow> u8" where
  "as_sent transfer_mode b = (if transfer_mode = qspi_io_transfer_normal then b else swap_byte b)"

lemma swap_byte_nibs [simp]: "hi_nib (swap_byte b) = lo_nib b" "lo_nib (swap_byte b) = hi_nib b"
  by (simp_all add: swap_byte_def)

lemma swap_byte_twice [simp]: "swap_byte (swap_byte b) = b"
  by (simp add: swap_byte_def)

lemma port_nibbles_word:
  "port_nibbles (swap_if (m = qspi_io_transfer_normal) (of_le32 (a # b # c # d # bs))) = quad_nibbles (map (as_sent m) [a, b, c, d])"
  by (cases m) (simp_all add: swap_if_def as_sent_def nib_swap port_nibbles_def upt8 nib_of_le32 del: of_le32.simps)

lemma bytes_out_step:
  "quad_out m (a # b # c # d # data) (len + 4) = quad_nibbles (map (as_sent m) [a, b, c, d]) @ quad_out m data len"
proof -
  have "data_word (a # b # c # d # data) (Suc i) = data_word data i" for i
  proof -
    have "4 * Suc i = Suc (Suc (Suc (Suc (4 * i))))" by simp
    then show ?thesis by (simp only: data_word_def drop_Suc_Cons)
  qed
  moreover have "data_word (a # b # c # d # data) 0 = of_le32 (a # b # c # d # data)" by (simp add: data_word_def)
  moreover have "(len + 4) div 4 = Suc (len div 4)" "(len + 4) mod 4 = len mod 4" by simp_all
  ultimately show ?thesis
    unfolding quad_out_def by (simp add: map_upt_Suc port_nibbles_word Let_def del: upt_Suc of_le32.simps)
qed

lemma bytes_out_lines:
  "4 * ((len + 3) div 4) \<le> length data \<Longrightarrow> quad_out m data len = quad_nibbles (map (as_sent m) (take len data))"
proof (induction len arbitrary: data rule: less_induct)
  case (less len)
  show ?case
  proof (cases "len < 4")
    case True
    show ?thesis
    proof (cases "len = 0")
      case False
      then have "len = 1 \<or> len = 2 \<or> len = 3" using True by auto
      then have "4 \<le> length data" using less.prems by auto
      then obtain a b c d rest where data: "data = a # b # c # d # rest"
        by (auto simp: numeral_eq_Suc Suc_le_length_iff)
      have "len = 1 \<or> len = 2 \<or> len = 3" using True False by auto
      then show ?thesis unfolding data quad_out_def data_word_def
        by (auto simp: Let_def port_nibbles_word simp del: of_le32.simps)
    qed (simp add: quad_out_def)
  next
    case False
    then obtain n where n: "len = n + 4" using le_Suc_ex [of 4 len] by (auto simp: add.commute)
    then have "4 \<le> length data" using less.prems by simp
    then obtain a b c d rest where data: "data = a # b # c # d # rest"
      by (auto simp: numeral_eq_Suc Suc_le_length_iff)
    have "(n + 4 + 3) div 4 = Suc ((n + 3) div 4)" using div_add_self2 [of 4 "n + 3"] by (simp add: add.commute add.left_commute)
    moreover have "4 * ((n + 4 + 3) div 4) \<le> length rest + 4" using less.prems unfolding n data by simp
    ultimately have "4 * ((n + 3) div 4) \<le> length rest" by linarith
    then have "quad_out m rest n = quad_nibbles (map (as_sent m) (take n rest))" using less.IH [of n rest] n by simp
    moreover have "take (n + 4) (a # b # c # d # rest) = [a, b, c, d] @ take n rest" by (simp add: numeral_eq_Suc)
    ultimately show ?thesis unfolding n data bytes_out_step by simp
  qed
qed

section \<open>What is read from the lines\<close>

definition sio_window :: "(nat \<Rightarrow> nibble) \<Rightarrow> nat \<Rightarrow> nat \<Rightarrow> nibble list" where
  "sio_window sio t n = map (\<lambda>i. sio (t + i)) [0 ..< n]"

lemma window_split: "sio_window sio t (m + n) = sio_window sio t m @ sio_window sio (t + m) n"
  by (rule nth_equalityI) (auto simp: sio_window_def nth_append)

lemma nib_port_word: "i < 8 \<Longrightarrow> nib (port_word sio t) i = sio (t + i - 7)"
  by (simp add: port_word_def nib_of_nibbles del: upt_Suc upt_rec_numeral)

lemma nib_drop: "nib (drop_bit (4 * n) w) i = nib w (n + i)"
  by (auto intro!: bit_word_eqI simp: bit_simps algebra_simps)

lemma le32_nibs: "le32 w = map (\<lambda>j. of_hi_lo (nib w (2 * j + 1)) (nib w (2 * j))) [0, 1, 2, 3]"
  by (auto simp: le32_def bit_simps split: if_splits intro!: bit_word_eqI)

lemma le32_nth:
  assumes "j < 4"
  shows "le32 w ! j = of_hi_lo (nib w (2 * j + 1)) (nib w (2 * j))"
proof -
  have "j = 0 \<or> j = 1 \<or> j = 2 \<or> j = 3" using assms by auto
  then show ?thesis by (auto simp: le32_nibs)
qed

lemma swap_if_nibs:
  assumes "j < 4"
  shows "of_hi_lo (nib (swap_if (m = qspi_io_transfer_normal) w) (2 * j + 1)) (nib (swap_if (m = qspi_io_transfer_normal) w) (2 * j))
    = as_sent m (of_hi_lo (nib w (2 * j)) (nib w (2 * j + 1)))"
  using assms by (cases m) (simp_all add: swap_if_def as_sent_def swap_byte_def nib_swap)

lemma as_sent_twice [simp]: "as_sent m (as_sent m b) = b"
  by (simp add: as_sent_def)

text \<open>The last \<open>r\<close> bytes that the port has shifted in when it is read at time \<open>t\<close>.\<close>

lemma last_bytes_in:
  assumes "sio_window sio t (2 * length bs) = quad_nibbles bs" and "length bs \<le> 4" and "bs \<noteq> []"
  shows "take (length bs) (le32 (swap_if (m = qspi_io_transfer_normal)
      (drop_bit (8 * (4 - length bs)) (port_word sio (t + 2 * length bs - 1))))) = map (as_sent m) bs"
proof (rule nth_equalityI)
  fix j assume "j < length (take (length bs) (le32 (swap_if (m = qspi_io_transfer_normal)
      (drop_bit (8 * (4 - length bs)) (port_word sio (t + 2 * length bs - 1))))))"
  then have j: "j < length bs" "j < 4" by simp_all
  let ?p = "port_word sio (t + 2 * length bs - 1)"
  let ?w = "drop_bit (8 * (4 - length bs)) ?p"
  have quad: "k < length xs \<Longrightarrow> quad_nibbles xs ! (2 * k) = hi_nib (xs ! k) \<and> quad_nibbles xs ! (2 * k + 1) = lo_nib (xs ! k)" for k xs
  proof (induction xs arbitrary: k)
    case (Cons x xs)
    then show ?case by (cases k) auto
  qed simp
  have nibs: "nib ?w i = sio (t + i)" if "i < 2 * length bs" for i
  proof -
    have "nib ?w i = nib ?p (2 * (4 - length bs) + i)" using nib_drop [of "2 * (4 - length bs)" ?p i] by (simp add: mult.assoc)
    also have "\<dots> = sio (t + 2 * length bs - 1 + (2 * (4 - length bs) + i) - 7)"
      by (rule nib_port_word) (use that assms(2) in simp)
    also have "t + 2 * length bs - 1 + (2 * (4 - length bs) + i) - 7 = t + i" using assms(2,3) by (cases bs) auto
    finally show ?thesis .
  qed
  have sio: "sio (t + i) = quad_nibbles bs ! i" if "i < 2 * length bs" for i
    using arg_cong [OF assms(1), of "\<lambda>l. l ! i"] that by (simp add: sio_window_def del: upt_Suc upt_rec_numeral)
  have "le32 (swap_if (m = qspi_io_transfer_normal) ?w) ! j = as_sent m (of_hi_lo (nib ?w (2 * j)) (nib ?w (2 * j + 1)))"
    using j(2) by (subst swap_if_nibs [OF j(2), symmetric]) (simp add: le32_nth [OF j(2)])
  also have "nib ?w (2 * j) = hi_nib (bs ! j)" using j(1) by (subst nibs, simp, subst sio, simp) (rule quad [OF j(1), THEN conjunct1])
  also have "nib ?w (2 * j + 1) = lo_nib (bs ! j)" using j(1) by (subst nibs, simp, subst sio, simp) (rule quad [OF j(1), THEN conjunct2])
  also have "of_hi_lo (hi_nib (bs ! j)) (lo_nib (bs ! j)) = bs ! j" by simp
  finally show "take (length bs) (le32 (swap_if (m = qspi_io_transfer_normal) ?w)) ! j = map (as_sent m) bs ! j" using j by simp
qed (use assms in simp)

lemma bytes_in_step:
  "quad_in m sio t (len + 4) =
     le32 (swap_if (m = qspi_io_transfer_normal) (port_word sio t)) @ quad_in m sio (t + 2 * min 4 len) len"
proof -
  have "(len + 4) div 4 = Suc (len div 4)" "(len + 4) mod 4 = len mod 4" by simp_all
  moreover have "0 < len div 4 \<Longrightarrow> t + 8 * (Suc (len div 4) - 1) + k = t + 8 + 8 * (len div 4 - 1) + k" for k
    by (cases "len div 4") auto
  ultimately show ?thesis
    unfolding quad_in_def
    by (cases "4 \<le> len") (simp_all add: map_upt_Suc Let_def min_def div_eq_0_iff add.assoc del: upt_Suc)
qed

lemma bytes_in_lines:
  assumes "sio_window sio t (2 * length bs) = quad_nibbles bs"
  shows "quad_in m sio (t + 2 * min 4 (length bs) - 1) (length bs) = map (as_sent m) bs"
  using assms
proof (induction "length bs" arbitrary: bs t rule: less_induct)
  case less
  show ?case
  proof (cases "length bs < 4")
    case True
    then show ?thesis
      using last_bytes_in [OF less.prems, of m] by (cases "bs = []") (simp_all add: quad_in_def min_def Let_def)
  next
    case False
    then have split: "bs = take 4 bs @ drop 4 bs" and four: "length (take 4 bs) = 4" by simp_all
    let ?x = "take 4 bs" and ?y = "drop 4 bs"
    have len: "length bs = length ?y + 4" using False by simp
    have "sio_window sio t (2 * length bs) = sio_window sio t 8 @ sio_window sio (t + 8) (2 * length ?y)"
      unfolding len distrib_left by (subst window_split [symmetric]) (simp add: add.commute)
    moreover have "quad_nibbles bs = quad_nibbles ?x @ quad_nibbles ?y" by (metis append_take_drop_id quad_nibbles_simps(3))
    ultimately have "sio_window sio t 8 @ sio_window sio (t + 8) (2 * length ?y) = quad_nibbles ?x @ quad_nibbles ?y"
      using less.prems by simp
    then have win: "sio_window sio t (2 * length ?x) = quad_nibbles ?x" "sio_window sio (t + 8) (2 * length ?y) = quad_nibbles ?y"
      using four by (simp_all add: append_eq_append_conv sio_window_def del: upt_Suc upt_rec_numeral)
    have "length ?y < length bs" using False by simp
    from less.hyps [OF this win(2)]
    have rest: "quad_in m sio (t + 8 + 2 * min 4 (length ?y) - 1) (length ?y) = map (as_sent m) ?y" .
    have "take (length ?x) (le32 (swap_if (m = qspi_io_transfer_normal) (drop_bit (8 * (4 - length ?x)) (port_word sio (t + 2 * length ?x - 1)))))
        = map (as_sent m) ?x"
      by (rule last_bytes_in [OF win(1)]) (use False in auto)
    then have first: "le32 (swap_if (m = qspi_io_transfer_normal) (port_word sio (t + 7))) = map (as_sent m) ?x" unfolding four by (simp add: add.commute [of t])
    have "quad_in m sio (t + 7) (length bs)
        = le32 (swap_if (m = qspi_io_transfer_normal) (port_word sio (t + 7))) @ quad_in m sio (t + 7 + 2 * min 4 (length ?y)) (length ?y)"
      unfolding len by (rule bytes_in_step)
    also have "t + 7 + 2 * min 4 (length ?y) = t + 8 + 2 * min 4 (length ?y) - 1" by simp
    finally have "quad_in m sio (t + 7) (length bs) = map (as_sent m) ?x @ map (as_sent m) ?y" unfolding first rest .
    moreover have "t + 2 * min 4 (length bs) - 1 = t + 7" using False by (simp add: min_def)
    moreover have "map (as_sent m) bs = map (as_sent m) ?x @ map (as_sent m) ?y" by (metis append_take_drop_id map_append)
    ultimately show ?thesis by metis
  qed
qed

section \<open>One line\<close>

lemma bit_foldr_or: "bit (foldr (\<lambda>i w. g i OR w) is (0 :: u32)) k \<longleftrightarrow> (\<exists>i \<in> set is. bit (g i) k)"
  by (induction "is") (auto simp: bit_or_iff)

lemma nib_macro:
  assumes "i < 8"
  shows "nib (QSPI_IO_BYTE_TO_MOSI x) i = (if bit x i then 0xF else 0xE)"
proof (rule bit_word_eqI)
  fix j assume "j < LENGTH(4)"
  then have j: "j < 4" by simp
  have e: "bit ((drop_bit l x AND 1) OR 0xE :: u32) m \<longleftrightarrow> (m = 0 \<and> bit x l) \<or> m = 1 \<or> m = 2 \<or> m = 3" for l m
  proof -
    have "bit (0xE :: u32) m \<longleftrightarrow> m = 1 \<or> m = 2 \<or> m = 3"
      by (simp add: bit_numeral_rec split: nat.splits) (auto simp: bit_numeral_rec bit_1_iff split: nat.splits)
    then show ?thesis by (auto simp: bit_or_iff bit_and_iff bit_1_iff bit_drop_bit_eq)
  qed
  have m: "bit (QSPI_IO_BYTE_TO_MOSI x) (4 * i + j) \<longleftrightarrow> (j = 0 \<and> bit x i) \<or> j = 1 \<or> j = 2 \<or> j = 3"
  proof
    assume "bit (QSPI_IO_BYTE_TO_MOSI x) (4 * i + j)"
    then obtain l where "bit (push_bit (l * 4) ((drop_bit l x AND 1) OR 0xE) :: u32) (4 * i + j)"
      unfolding QSPI_IO_BYTE_TO_MOSI_def bit_foldr_or by blast
    then have l: "l * 4 \<le> 4 * i + j"
      "(4 * i + j - l * 4 = 0 \<and> bit x l) \<or> 4 * i + j - l * 4 = 1 \<or> 4 * i + j - l * 4 = 2 \<or> 4 * i + j - l * 4 = 3"
      unfolding bit_push_bit_iff e by blast+
    then have "4 * i + j - l * 4 < 4" by auto
    then have "l = i" using l(1) j by presburger
    then show "(j = 0 \<and> bit x i) \<or> j = 1 \<or> j = 2 \<or> j = 3" using l(2) by auto
  next
    assume "(j = 0 \<and> bit x i) \<or> j = 1 \<or> j = 2 \<or> j = 3"
    then have "bit (push_bit (i * 4) ((drop_bit i x AND 1) OR 0xE) :: u32) (4 * i + j)"
      unfolding bit_push_bit_iff e using assms by auto
    then show "bit (QSPI_IO_BYTE_TO_MOSI x) (4 * i + j)"
      unfolding QSPI_IO_BYTE_TO_MOSI_def bit_foldr_or using assms by (intro bexI [of _ i]) auto
  qed
  have "j = 0 \<or> j = 1 \<or> j = 2 \<or> j = 3" using j by auto
  then show "bit (nib (QSPI_IO_BYTE_TO_MOSI x) i) j \<longleftrightarrow> bit (if bit x i then 0xF else 0xE :: nibble) j"
    unfolding bit_nib m by (elim disjE) (simp_all add: bit_numeral_rec)
qed

lemma port_nibbles_byterev:
  "port_nibbles (byterev w) = [nib w 6, nib w 7, nib w 4, nib w 5, nib w 2, nib w 3, nib w 0, nib w 1]"
proof -
  have n: "lo_nib (ucast w) = nib w 0" "hi_nib (ucast w) = nib w 1" "lo_nib (ucast (drop_bit 8 w)) = nib w 2" "hi_nib (ucast (drop_bit 8 w)) = nib w 3"
    "lo_nib (ucast (drop_bit 16 w)) = nib w 4" "hi_nib (ucast (drop_bit 16 w)) = nib w 5"
    "lo_nib (ucast (drop_bit 24 w)) = nib w 6" "hi_nib (ucast (drop_bit 24 w)) = nib w 7"
    by (auto intro!: bit_word_eqI simp: bit_simps)
  show ?thesis by (simp add: byterev_def le32_def port_nibbles_def upt8 nib_of_le32 n del: of_le32.simps)
qed

lemma nib_byterev:
  "nib (byterev w) 0 = nib w 6" "nib (byterev w) 1 = nib w 7" "nib (byterev w) (Suc 0) = nib w 7"
  "nib (byterev w) 2 = nib w 4" "nib (byterev w) 3 = nib w 5" "nib (byterev w) 4 = nib w 2"
  "nib (byterev w) 5 = nib w 3" "nib (byterev w) 6 = nib w 0" "nib (byterev w) 7 = nib w 1"
  using port_nibbles_byterev [of w] by (simp_all add: port_nibbles_def upt8)

text \<open>The first word of a transaction leaves with its most significant nibble first.\<close>

lemma start_word_rev: "qspi_io_start_word w = rev (port_nibbles w)"
  by (simp add: qspi_io_start_word_def port_nibbles_swap nib_byterev) (simp add: port_nibbles_def upt8)

lemma start_command: "qspi_io_start_word (QSPI_IO_BYTE_TO_MOSI x) = spi_nibbles [ucast x]"
  unfolding start_word_rev by (simp add: port_nibbles_def upt8 nib_macro spi_nibbles_def bit_simps)

lemma byte_to_mosi_nibbles: "port_nibbles (qspi_io_byte_to_mosi x) = spi_nibbles [ucast x]"
proof -
  have "nib (qspi_io_byte_to_mosi x) i = (if bit x (7 - i) then 0xF else 0xE)" if "i \<in> set [0, 1, 2, 3, 4, 5, 6, 7]" for i
  proof (rule bit_word_eqI)
    fix j assume "j < LENGTH(4)"
    then have j: "j = 0 \<or> j = 1 \<or> j = 2 \<or> j = 3" by auto
    show "bit (nib (qspi_io_byte_to_mosi x) i) j \<longleftrightarrow> bit (if bit x (7 - i) then 0xF else 0xE :: nibble) j"
      using that j unfolding bit_nib
      by (elim disjE; simp; elim disjE; simp add: qspi_io_byte_to_mosi_def zip_bits_def bitrev_def Let_def bit_or_iff bit_numeral_rec)
  qed
  then show ?thesis by (simp add: port_nibbles_def upt8 spi_nibbles_def bit_simps)
qed

text \<open>
  The conversion of a byte for one line that is computed at run time with two interleavings and
  a bit reversal gives the same port word as the macro with the byte reversal and the nibble swap of the
  output functions, for every word.
\<close>

theorem byte_to_mosi_is_macro: "qspi_io_byte_to_mosi x = qspi_io_nibble_swap (byterev (QSPI_IO_BYTE_TO_MOSI x))"
  using byte_to_mosi_nibbles [of x] start_command [of x] unfolding qspi_io_start_word_def by (simp add: port_nibbles_inject [symmetric])

lemma ucast_up_down [simp]: "(ucast (ucast b :: u32) :: u8) = b"
  by (rule bit_word_eqI) (auto simp: bit_simps dest: u8_bit_bound)

lemma ucast_swap: "(ucast (qspi_io_nibble_swap w) :: u8) = swap_byte (ucast w)"
  by (rule bit_word_eqI) (auto simp: bit_nibble_swap swap_byte_def bit_simps add.commute)

lemma ucast_swap_if: "(ucast (swap_if (m \<noteq> qspi_io_transfer_normal) w) :: u8) = as_sent m (ucast w)"
  by (cases m) (simp_all add: swap_if_def as_sent_def ucast_swap)

lemma mosi_out_lines: "qspi_io_mosi_out m data = spi_nibbles (map (as_sent m) data)"
proof (induction data)
  case (Cons b bs)
  have "qspi_io_mosi_out m (b # bs)
      = port_nibbles (qspi_io_byte_to_mosi (swap_if (m \<noteq> qspi_io_transfer_normal) (ucast b))) @ qspi_io_mosi_out m bs"
    by (simp add: qspi_io_mosi_out_def)
  also have "\<dots> = spi_nibbles [as_sent m b] @ spi_nibbles (map (as_sent m) bs)"
    unfolding byte_to_mosi_nibbles ucast_swap_if Cons ucast_up_down ..
  finally show ?case by (simp add: spi_nibbles_Cons [of "as_sent m b" "map (as_sent m) bs"])
qed (simp add: qspi_io_mosi_out_def)

lemma words_out_lines: "qspi_io_words_out qspi_io_transfer_normal ws = concat (map (\<lambda>w. rev (port_nibbles w)) ws)"
  by (simp add: qspi_io_words_out_def swap_if_def start_word_rev [unfolded qspi_io_start_word_def])

text \<open>A byte on the MISO line, the most significant bit first, whatever the other lines carry.\<close>

definition miso_window :: "(nat \<Rightarrow> nibble) \<Rightarrow> nat \<Rightarrow> nat \<Rightarrow> bool list" where
  "miso_window sio t n = map (\<lambda>i. bit (sio (t + i)) 1) [0 ..< n]"

lemma miso_to_byte_bit:
  assumes "k < 8"
  shows "bit (qspi_io_miso_to_byte w) k \<longleftrightarrow> bit (nib w (7 - k)) 1"
proof -
  have "k = 0 \<or> k = 1 \<or> k = 2 \<or> k = 3 \<or> k = 4 \<or> k = 5 \<or> k = 6 \<or> k = 7" using assms by auto
  then show ?thesis by (elim disjE) (simp_all add: qspi_io_miso_to_byte_def unzip_bits_def bitrev_def Let_def)
qed

lemma miso_byte:
  assumes "miso_window sio t 8 = byte_bits b"
  shows "(ucast (qspi_io_miso_to_byte (port_word sio (t + 7))) :: u8) = b"
proof (rule bit_word_eqI)
  fix k assume "k < LENGTH(8)"
  then have k: "k < 8" by simp
  have "miso_window sio t 8 ! (7 - k) = byte_bits b ! (7 - k)" unfolding assms ..
  then have "bit (sio (t + (7 - k))) 1 = bit b k"
    using k nth_upt [of 0 "7 - k" 8] by (simp add: miso_window_def byte_bits_def del: upt_Suc upt_rec_numeral)
  moreover have "nib (port_word sio (t + 7)) (7 - k) = sio (t + (7 - k))" using k by (simp add: nib_port_word add.commute)
  ultimately show "bit (ucast (qspi_io_miso_to_byte (port_word sio (t + 7))) :: u8) k \<longleftrightarrow> bit b k"
    using k by (simp add: bit_ucast_iff miso_to_byte_bit [OF k] del: bit_nib)
qed

lemma miso_window_split: "miso_window sio t (m + n) = miso_window sio t m @ miso_window sio (t + m) n"
  by (rule nth_equalityI) (auto simp: miso_window_def nth_append)

lemma length_miso_window [simp]: "length (miso_window sio t n) = n"
  by (simp add: miso_window_def)

lemma miso_in_lines:
  "miso_window sio t (8 * length bs) = concat (map byte_bits bs) \<Longrightarrow> qspi_io_miso_in m sio (t + 7) (length bs) = map (as_sent m) bs"
proof (induction bs arbitrary: t)
  case (Cons b bs)
  have "miso_window sio t 8 @ miso_window sio (t + 8) (8 * length bs) = byte_bits b @ concat (map byte_bits bs)"
    using Cons.prems miso_window_split [of sio t 8 "8 * length bs"] by (simp add: add.commute)
  then have win: "miso_window sio t 8 = byte_bits b" "miso_window sio (t + 8) (8 * length bs) = concat (map byte_bits bs)"
    by (simp_all add: append_eq_append_conv)
  have step: "qspi_io_miso_in m sio s (Suc n)
      = ucast (swap_if (m \<noteq> qspi_io_transfer_normal) (qspi_io_miso_to_byte (port_word sio s))) # qspi_io_miso_in m sio (s + 8) n" for s n
    unfolding qspi_io_miso_in_def map_upt_Suc by (simp add: add.assoc)
  have "qspi_io_miso_in m sio (t + 8 + 7) (length bs) = map (as_sent m) bs" by (rule Cons.IH [OF win(2)])
  then show ?case using miso_byte [OF win(1)] by (simp add: step ucast_swap_if add.commute add.left_commute)
qed (simp add: qspi_io_miso_in_def)

text \<open>Polling ends with the first byte that matches; if none does it does not end.\<close>

lemma poll_word: "qspi_io_miso_to_byte w AND ucast m = ucast v \<longleftrightarrow> (ucast (qspi_io_miso_to_byte w) :: u8) AND m = v"
proof -
  have "qspi_io_miso_to_byte w AND ucast m = ucast ((ucast (qspi_io_miso_to_byte w) :: u8) AND m)"
    by (rule bit_word_eqI) (auto simp: bit_simps dest: u8_bit_bound)
  moreover have "(ucast x :: u32) = ucast v \<longleftrightarrow> x = v" for x :: u8
    by (metis ucast_up_down)
  ultimately show ?thesis by simp
qed

lemma miso_poll_from:
  assumes "\<And>i. i \<le> n \<Longrightarrow> miso_window (sio i) (t + 8 * i) 8 = byte_bits (f i)"
    and "\<And>i. i < n \<Longrightarrow> f i AND m \<noteq> v" and "f n AND m = v"
  shows "k \<le> n \<Longrightarrow> qspi_io_miso_poll sio m v (t + 7) k = Some n"
proof (induction "n - k" arbitrary: k)
  have time: "t + 7 + 8 * i = t + 8 * i + 7" for i by simp
  case 0
  then have "k = n" by simp
  then show ?case using miso_byte [OF assms(1), of n] assms(3) by (subst qspi_io_miso_poll.simps) (simp only: poll_word time, simp)
next
  have time: "t + 7 + 8 * i = t + 8 * i + 7" for i by simp
  case (Suc d)
  then have "f k AND m \<noteq> v" "(ucast (qspi_io_miso_to_byte (port_word (sio k) (t + 8 * k + 7))) :: u8) = f k"
    using assms(2) [of k] miso_byte [OF assms(1), of k] by simp_all
  moreover have "qspi_io_miso_poll sio m v (t + 7) (Suc k) = Some n" using Suc by (intro Suc.hyps(1)) simp_all
  ultimately show ?case by (subst qspi_io_miso_poll.simps) (simp only: poll_word time, simp)
qed

lemma miso_poll_first:
  assumes "\<And>i. i \<le> n \<Longrightarrow> miso_window (sio i) (t + 8 * i) 8 = byte_bits (f i)"
    and "\<And>i. i < n \<Longrightarrow> f i AND m \<noteq> v" and "f n AND m = v"
  shows "qspi_io_miso_poll sio m v (t + 7) 0 = Some n"
  using miso_poll_from [OF assms] by simp

text \<open>Only the levels up to the time of the last input matter.\<close>

lemma port_word_cong: "(\<And>i. i \<le> t \<Longrightarrow> f i = g i) \<Longrightarrow> 7 \<le> t \<Longrightarrow> port_word f t = port_word g t"
  by (auto simp: port_word_def intro!: arg_cong [where f = of_nibbles])

lemma miso_window_cong: "(\<And>i. i < t + n \<Longrightarrow> f i = g i) \<Longrightarrow> miso_window f t n = miso_window g t n"
  by (simp add: miso_window_def)

lemma miso_in_cong:
  assumes "\<And>i. i < t + 8 * n \<Longrightarrow> f i = g i"
  shows "qspi_io_miso_in m f (t + 7) n = qspi_io_miso_in m g (t + 7) n"
proof -
  have "port_word f (t + 7 + 8 * i) = port_word g (t + 7 + 8 * i)" if "i < n" for i
    using that by (intro port_word_cong assms) auto
  then show ?thesis by (simp add: qspi_io_miso_in_def del: upt_Suc)
qed

lemma sio_window_cong: "(\<And>i. i < t + n \<Longrightarrow> f i = g i) \<Longrightarrow> sio_window f t n = sio_window g t n"
  by (simp add: sio_window_def)

text \<open>
  C29: What the output functions put on four lines, the input functions read back byte for byte, in whatever mode
  and for any number of bytes, between buffers on 4-byte boundaries, if the first input is timed on the last cycle of the
  fourth byte, or of the last byte if there are fewer.
\<close>

theorem qspi_bytes_round_trip:
  assumes "4 * ((len + 3) div 4) \<le> length data" and "qspi_io_bytes_out m p data len = Inr out"
    and "sio_window sio t (2 * len) = out" and "q mod 4 = 0"
  shows "qspi_io_bytes_in m q sio (t + 2 * min 4 len - 1) len = Inr (take len data)"
proof -
  have "len \<le> length data" using assms(1) by linarith
  then have len: "length (map (as_sent m) (take len data)) = len" by simp
  have "sio_window sio t (2 * length (map (as_sent m) (take len data))) = quad_nibbles (map (as_sent m) (take len data))"
    using assms(2,3) unfolding len bytes_out_lines [OF assms(1), symmetric] by (simp add: qspi_io_bytes_out_def res_simps)
  from bytes_in_lines [OF this, of m] show ?thesis unfolding len using assms(4) by (simp add: qspi_io_bytes_in_def comp_def)
qed

lemma qspi_bytes_round_trip_witness:
  "\<exists>out. qspi_io_bytes_out qspi_io_transfer_nibble_swap 8 [0x12, 0x34, 0x56, 0x78, 0x9A, 0xBC, 0, 0] 6 = Inr out
     \<and> qspi_io_bytes_in qspi_io_transfer_nibble_swap 4 (\<lambda>i. if i < 20 then 0 else out ! (i - 20)) 27 6
       = Inr [0x12, 0x34, 0x56, 0x78, 0x9A, 0xBC]"
proof -
  let ?out = "quad_out qspi_io_transfer_nibble_swap [0x12, 0x34, 0x56, 0x78, 0x9A, 0xBC, 0, 0] 6"
  have o: "qspi_io_bytes_out qspi_io_transfer_nibble_swap 8 [0x12, 0x34, 0x56, 0x78, 0x9A, 0xBC, 0, 0] 6 = Inr ?out"
    by (simp add: qspi_io_bytes_out_def)
  have "length ?out = 12" by code_simp
  then have "sio_window (\<lambda>i. if i < 20 then 0 else ?out ! (i - 20)) 20 (2 * 6) = ?out"
    by (intro nth_equalityI) (simp_all add: sio_window_def del: upt_Suc upt_rec_numeral)
  from qspi_bytes_round_trip [OF _ o this, where q = 4] o show ?thesis by simp
qed

end
