(* ===== verification/Sfdp.thy ===== *)
theory Sfdp
  imports Prelude "HOL-Library.Multiset"
begin

text \<open>
  The discovery of a flash chip by its SFDP tables: modules/hil/lib_qspi_io/src/sfdp.c and
  api/sfdp.h. Reading the tables of the chip is the parameter \<open>rd\<close>, from an address and a
  length to bytes; the structures lie in memory as the compiler of the little-endian xcore lays
  out bit fields, from the least significant bit on.
\<close>

section \<open>The tables\<close>

record sfdp_header =
  sh_signature :: u32
  sh_minor_revision :: u8
  sh_major_revision :: u8

record sfdp_parameter_header =
  ph_minor_revision :: u8
  ph_major_revision :: u8
  ph_length :: u8
  ph_table_address :: u32

record erase_entry =
  ee_size :: u8
  ee_cmd :: u8

text \<open>The fields of \<open>sfdp_parameter_table_t\<close> that the code reads.\<close>

record sfdp_parameter_table =
  address_bytes :: u32
  supports_144_fast_read :: bool
  memory_density :: u32
  memory_density_is_exponent :: bool
  quad_144_read_dummy_clocks :: u32
  quad_144_read_mode_clocks :: u32
  quad_144_read_cmd :: u8
  erase_info :: "erase_entry list"
  page_size :: u32
  busy_poll_methods :: u32
  quad_enable_method :: u32

record sfdp_info =
  info_header :: sfdp_header
  info_parameter_header :: sfdp_parameter_header
  info_table :: sfdp_parameter_table

text \<open>\<open>n\<close> bits of a word from bit \<open>lo\<close> on, and the \<open>i\<close>-th word of a table.\<close>

definition bit_field :: "nat \<Rightarrow> nat \<Rightarrow> u32 \<Rightarrow> u32" where
  "bit_field lo n w = drop_bit lo w AND mask n"

definition dword :: "nat \<Rightarrow> u8 list \<Rightarrow> u32" where
  "dword i bs = of_le32 (drop (4 * i) bs)"

definition parse_sfdp_header :: "u8 list \<Rightarrow> sfdp_header" where
  "parse_sfdp_header bs = \<lparr>sh_signature = of_le32 bs, sh_minor_revision = bs ! 4, sh_major_revision = bs ! 5\<rparr>"

definition parse_parameter_header :: "u8 list \<Rightarrow> sfdp_parameter_header" where
  "parse_parameter_header bs =
     \<lparr>ph_minor_revision = bs ! 1, ph_major_revision = bs ! 2, ph_length = bs ! 3, ph_table_address = bit_field 0 24 (dword 1 bs)\<rparr>"

text \<open>Words 1 to 16 of the data sheets are \<open>dword 0\<close> to \<open>dword 15\<close>.\<close>

definition parse_parameter_table :: "u8 list \<Rightarrow> sfdp_parameter_table" where
  "parse_parameter_table bs =
     \<lparr>address_bytes = bit_field 17 2 (dword 0 bs), supports_144_fast_read = bit (dword 0 bs) 21,
      memory_density = bit_field 0 30 (dword 1 bs), memory_density_is_exponent = bit (dword 1 bs) 30,
      quad_144_read_dummy_clocks = bit_field 0 5 (dword 2 bs), quad_144_read_mode_clocks = bit_field 5 3 (dword 2 bs),
      quad_144_read_cmd = bs ! 9,
      erase_info = map (\<lambda>i. \<lparr>ee_size = bs ! (28 + 2 * i), ee_cmd = bs ! (29 + 2 * i)\<rparr>) [0 ..< 4],
      page_size = bit_field 4 4 (dword 10 bs), busy_poll_methods = bit_field 2 6 (dword 13 bs),
      quad_enable_method = bit_field 20 3 (dword 14 bs)\<rparr>"

definition sizeof_sfdp_header :: nat where "sizeof_sfdp_header = 8"
definition sizeof_sfdp_parameter_header :: nat where "sizeof_sfdp_parameter_header = 8"
definition sizeof_sfdp_parameter_table :: nat where "sizeof_sfdp_parameter_table = 64"

section \<open>What the tables say\<close>

definition sfdp_flash_size_kbytes :: "sfdp_parameter_table \<Rightarrow> u32" where
  "sfdp_flash_size_kbytes t =
     (if memory_density_is_exponent t
      then if 32 \<le> memory_density t \<and> memory_density t \<le> 44 then push_bit (unat (memory_density t - 13)) 1 else 0
      else drop_bit 13 (1 + memory_density t))"

definition sfdp_flash_page_size_bytes :: "sfdp_parameter_table \<Rightarrow> u32" where
  "sfdp_flash_page_size_bytes t = push_bit (unat (page_size t)) 1"

definition SFDP_BUSY_POLL_LEGACY_BM :: u32 where "SFDP_BUSY_POLL_LEGACY_BM = 1"
definition SFDP_BUSY_POLL_ALT1_BM :: u32 where "SFDP_BUSY_POLL_ALT1_BM = 2"

text \<open>The instruction, the bit and its value when ready; None is the result -1.\<close>

definition sfdp_busy_poll_method :: "sfdp_parameter_table \<Rightarrow> (u8 \<times> u8 \<times> u8) option" where
  "sfdp_busy_poll_method t =
     (if busy_poll_methods t AND SFDP_BUSY_POLL_ALT1_BM \<noteq> 0 then Some (0x70, 7, 1)
      else if busy_poll_methods t AND SFDP_BUSY_POLL_LEGACY_BM \<noteq> 0 then Some (0x05, 0, 0)
      else None)"

text \<open>The status register and bit, and the instructions that read and write the second register.\<close>

definition sfdp_quad_enable_method :: "sfdp_parameter_table \<Rightarrow> (u8 \<times> u8 \<times> u8 \<times> u8) option" where
  "sfdp_quad_enable_method t =
     (let m = quad_enable_method t
      in if m = 0 then Some (0, 0, 0, 0)
         else if m = 1 then Some (2, 1, 0, 0)
         else if m = 2 then Some (1, 6, 0, 0)
         else if m = 3 then Some (2, 7, 0x3F, 0x3E)
         else if m = 4 then Some (2, 1, 0, 0)
         else if m = 5 then Some (2, 1, 0x35, 0)
         else if m = 6 then Some (2, 1, 0x35, 0x31)
         else None)"

text \<open>The two loops of the sort: \<open>erase_pass k\<close> compares the first \<open>k\<close> pairs of neighbours.\<close>

definition erase_out_of_order :: "erase_entry \<Rightarrow> erase_entry \<Rightarrow> bool" where
  "erase_out_of_order x y \<longleftrightarrow> ee_size x = 0 \<or> (ee_size y \<noteq> 0 \<and> ee_size y < ee_size x)"

fun erase_pass :: "nat \<Rightarrow> erase_entry list \<Rightarrow> erase_entry list" where
  "erase_pass (Suc k) (x # y # es) =
     (if erase_out_of_order x y then y # erase_pass k (x # es) else x # erase_pass k (y # es))"
| "erase_pass k es = es"

fun erase_passes :: "nat \<Rightarrow> erase_entry list \<Rightarrow> erase_entry list" where
  "erase_passes 0 es = es"
| "erase_passes (Suc k) es = erase_passes k (erase_pass (Suc k) es)"

definition sfdp_erase_table_sort :: "sfdp_parameter_table \<Rightarrow> sfdp_parameter_table" where
  "sfdp_erase_table_sort t = t\<lparr>erase_info := erase_passes 3 (erase_info t)\<rparr>"

section \<open>Discovery\<close>

definition sfdp_supported_header :: "sfdp_header \<Rightarrow> sfdp_parameter_header \<Rightarrow> bool" where
  "sfdp_supported_header h p \<longleftrightarrow> sh_signature h = 0x50444653 \<and> sh_major_revision h = 1 \<and> ph_major_revision p = 1
     \<and> 5 \<le> sh_minor_revision h \<and> 5 \<le> ph_minor_revision p \<and> sizeof_sfdp_parameter_table \<le> 4 * unat (ph_length p)"

text \<open>
  \<open>info\<close> is what the structure holds before; the result says whether the chip is supported. Reading
  may change the state \<open>'s\<close> of the chip.
\<close>

definition sfdp_discover ::
  "(u32 \<Rightarrow> nat \<Rightarrow> 's \<Rightarrow> u8 list \<times> 's) \<Rightarrow> sfdp_info \<Rightarrow> 's \<Rightarrow> bool \<times> sfdp_info \<times> 's" where
  "sfdp_discover rd info s =
     (let (bs, s) = rd 0 (sizeof_sfdp_header + sizeof_sfdp_parameter_header) s;
          h = parse_sfdp_header bs;
          p = parse_parameter_header (drop sizeof_sfdp_header bs);
          info = info\<lparr>info_header := h, info_parameter_header := p\<rparr>;
          table_read_length = 4 * unat (ph_length p)
      in if sfdp_supported_header h p
         then let table_read_length = min sizeof_sfdp_parameter_table table_read_length;
                  (bs, s) = rd (ph_table_address p) table_read_length s
              in (True, info\<lparr>info_table := sfdp_erase_table_sort (parse_parameter_table bs)\<rparr>, s)
         else (False, info, s))"

section \<open>The sort\<close>

text \<open>An unused entry counts as larger than all others.\<close>

definition erase_key :: "erase_entry \<Rightarrow> nat" where
  "erase_key e = (if ee_size e = 0 then 256 else unat (ee_size e))"

lemma out_of_order_key:
  "erase_out_of_order x y \<Longrightarrow> erase_key y \<le> erase_key x" "\<not> erase_out_of_order x y \<Longrightarrow> erase_key x \<le> erase_key y"
  using unsigned_less [of "ee_size x", where ?'a = nat] unsigned_less [of "ee_size y", where ?'a = nat]
  by (auto simp: erase_out_of_order_def erase_key_def word_less_nat_alt split: if_splits)

lemma mset_erase_pass [simp]: "mset (erase_pass k es) = mset es"
  by (induction k es rule: erase_pass.induct) auto

lemma length_erase_pass [simp]: "length (erase_pass k es) = length es"
  using mset_erase_pass [of k es] by (metis size_mset)

lemma mset_erase_passes [simp]: "mset (erase_passes k es) = mset es"
  by (induction k arbitrary: es) simp_all

text \<open>A pass moves the largest of the entries it compares to their end, and leaves the rest alone.\<close>

lemma erase_pass_max:
  "k < length es \<Longrightarrow> (\<forall>e \<in> set (take (Suc k) es). erase_key e \<le> erase_key (erase_pass k es ! k))"
proof (induction k es rule: erase_pass.induct)
  case (1 k x y es)
  then show ?case using out_of_order_key [of x y] by (cases "erase_out_of_order x y") (fastforce intro: order_trans)+
qed (auto simp: take_Suc hd_conv_nth)

lemma drop_erase_pass: "drop (Suc k) (erase_pass k es) = drop (Suc k) es"
  by (induction k es rule: erase_pass.induct) auto

lemma erase_passes_drop: "drop (Suc k) (erase_passes k es) = drop (Suc k) es"
proof (induction k arbitrary: es)
  case (Suc k)
  have "drop (Suc (Suc k)) (erase_passes k (erase_pass (Suc k) es)) = drop 1 (drop (Suc k) (erase_passes k (erase_pass (Suc k) es)))"
    by simp
  then show ?case unfolding Suc.IH by (simp add: drop_erase_pass)
qed simp

lemma erase_passes_sorted:
  assumes "sorted (map erase_key (drop (Suc k) es))"
    and "\<forall>x \<in> set (take (Suc k) es). \<forall>y \<in> set (drop (Suc k) es). erase_key x \<le> erase_key y"
  shows "sorted (map erase_key (erase_passes k es))"
  using assms
proof (induction k arbitrary: es)
  case 0
  then show ?case by (cases es) auto
next
  case (Suc k)
  let ?es = "erase_pass (Suc k) es"
  show ?case
  proof (cases "Suc k < length es")
    case True
    have d: "drop (Suc (Suc k)) ?es = drop (Suc (Suc k)) es" by (rule drop_erase_pass)
    then have m: "mset (take (Suc (Suc k)) ?es) = mset (take (Suc (Suc k)) es)"
      by (metis append_take_drop_id mset_append mset_erase_pass union_right_cancel)
    have split: "drop (Suc k) ?es = ?es ! Suc k # drop (Suc (Suc k)) ?es" using True by (simp add: Cons_nth_drop_Suc)
    have t: "take (Suc (Suc k)) ?es = take (Suc k) ?es @ [?es ! Suc k]" using True by (simp add: take_Suc_conv_app_nth)
    have mem: "set (take (Suc (Suc k)) ?es) = set (take (Suc (Suc k)) es)" using m by (metis set_mset_mset)
    have top: "\<forall>e \<in> set (take (Suc (Suc k)) ?es). erase_key e \<le> erase_key (?es ! Suc k)"
      using erase_pass_max [OF True] mem by simp
    have rest: "\<forall>x \<in> set (take (Suc (Suc k)) ?es). \<forall>y \<in> set (drop (Suc (Suc k)) ?es). erase_key x \<le> erase_key y"
      using Suc.prems(2) d mem by simp
    have "sorted (map erase_key (drop (Suc k) ?es))"
      unfolding split using Suc.prems(1) d rest t by simp
    moreover have "\<forall>x \<in> set (take (Suc k) ?es). \<forall>y \<in> set (drop (Suc k) ?es). erase_key x \<le> erase_key y"
      unfolding split using top rest t by simp
    ultimately show ?thesis using Suc.IH by simp
  next
    case False
    have "drop (Suc k) ?es = []" "drop (Suc k) es = []" using False by simp_all
    then show ?thesis using Suc.IH [of ?es] by simp
  qed
qed

lemma erase_table_sorted:
  assumes "length (erase_info t) = 4"
  shows "sorted (map erase_key (erase_info (sfdp_erase_table_sort t)))"
  using erase_passes_sorted [of 3 "erase_info t"] assms by (simp add: sfdp_erase_table_sort_def)

lemma sorted_table: "sorted (map erase_key (erase_info (sfdp_erase_table_sort (parse_parameter_table bs))))"
  by (rule erase_table_sorted) (simp add: parse_parameter_table_def)

text \<open>A supported chip has at least the 64 bytes of the table, so that this many are read.\<close>

lemma discover_supported:
  assumes "rd 0 16 s = (bs, s1)" and "sfdp_supported_header (parse_sfdp_header bs) (parse_parameter_header (drop 8 bs))"
  shows "sfdp_discover rd info s =
    (let p = parse_parameter_header (drop 8 bs);
         (bs', s2) = rd (ph_table_address p) 64 s1
     in (True, info\<lparr>info_header := parse_sfdp_header bs, info_parameter_header := p,
           info_table := sfdp_erase_table_sort (parse_parameter_table bs')\<rparr>, s2))"
proof -
  have "min sizeof_sfdp_parameter_table (4 * unat (ph_length (parse_parameter_header (drop 8 bs)))) = 64"
    using assms(2) unfolding sfdp_supported_header_def by (simp add: sizeof_sfdp_parameter_table_def)
  then show ?thesis using assms
    by (simp add: sfdp_discover_def Let_def sizeof_sfdp_header_def sizeof_sfdp_parameter_header_def split: prod.splits)
qed

text \<open>
  C34: Discovery accepts exactly the headers it supports. It then holds the parameter table of
  the chip with the same erase types, the used ones first in ascending order of their sizes and the
  unused ones behind them; a chip it refuses leaves the table as it was.
\<close>

theorem sfdp_discover_sound:
  "let (ok, info', s') = sfdp_discover rd info s;
       (bs, s1) = rd 0 16 s;
       t = parse_parameter_table (fst (rd (ph_table_address (info_parameter_header info')) 64 s1))
   in info_header info' = parse_sfdp_header bs \<and> info_parameter_header info' = parse_parameter_header (drop 8 bs)
     \<and> ok = sfdp_supported_header (parse_sfdp_header bs) (parse_parameter_header (drop 8 bs))
     \<and> (if ok
        then info_table info' = t\<lparr>erase_info := erase_info (info_table info')\<rparr>
          \<and> mset (erase_info (info_table info')) = mset (erase_info t)
          \<and> sorted (map erase_key (erase_info (info_table info')))
        else info_table info' = info_table info)"
proof -
  obtain bs s1 where rd: "rd 0 16 s = (bs, s1)" by force
  show ?thesis
  proof (cases "sfdp_supported_header (parse_sfdp_header bs) (parse_parameter_header (drop 8 bs))")
    case True
    obtain bs' s2 where "rd (ph_table_address (parse_parameter_header (drop 8 bs))) 64 s1 = (bs', s2)" by force
    then show ?thesis using rd True sorted_table [of bs']
      by (simp add: discover_supported Let_def) (simp add: sfdp_erase_table_sort_def)
  qed (use rd in \<open>simp add: sfdp_discover_def Let_def sizeof_sfdp_header_def sizeof_sfdp_parameter_header_def\<close>)
qed

section \<open>Sizes\<close>

text \<open>
  What the second word of the table means by the standard (JESD216): the size in bits is one more than the
  word, or if bit 31 is set two to the power of the other bits.
\<close>

definition jedec_density_bits :: "u32 \<Rightarrow> nat" where
  "jedec_density_bits w = (if bit w 31 then 2 ^ unat (w AND mask 31) else unat w + 1)"

lemma density_fields:
  "memory_density (parse_parameter_table bs) = dword 1 bs AND mask 30"
  "memory_density_is_exponent (parse_parameter_table bs) = bit (dword 1 bs) 30"
  by (simp_all add: parse_parameter_table_def bit_field_def)

lemma small_word_bits:
  assumes "unat (w :: u32) < 2 ^ 30"
  shows "w AND mask 30 = w" "\<not> bit w 30" "\<not> bit w 31"
proof -
  have w: "take_bit 30 (unat w) = unat w" using assms by (simp add: take_bit_nat_eq_self)
  then have m: "take_bit 30 w = w" by (metis unsigned_take_bit_eq word_unat_eq_iff)
  then show "w AND mask 30 = w" by (simp add: take_bit_eq_mask)
  show "\<not> bit w 30" "\<not> bit w 31" using m by (metis bit_take_bit_iff less_irrefl, metis bit_take_bit_iff less_imp_not_less lessI numeral_less_iff semiring_norm(76) semiring_norm(81))
qed

text \<open>
  For every chip of up to 1 Gbit that gives its size as a number of bits, the size in kilobytes is
  the size the standard defines.
\<close>

theorem sfdp_flash_size_correct:
  assumes "unat (dword 1 bs) < 2 ^ 30"
  shows "unat (sfdp_flash_size_kbytes (parse_parameter_table bs)) = jedec_density_bits (dword 1 bs) div (8 * 1024)"
proof -
  note s = small_word_bits [OF assms]
  have "1 + dword 1 bs \<noteq> 0"
  proof
    assume "1 + dword 1 bs = 0"
    then have "dword 1 bs = - 1" by (simp add: eq_neg_iff_add_eq_0 add.commute)
    then show False using assms by (simp add: unsigned_minus_1_eq_mask mask_eq_exp_minus_1)
  qed
  then have "unat (1 + dword 1 bs) = Suc (unat (dword 1 bs))" by (rule unatSuc)
  then show ?thesis using s
    by (simp add: sfdp_flash_size_kbytes_def density_fields jedec_density_bits_def drop_bit_eq_div unat_div)
qed

definition sample_table :: "u32 \<Rightarrow> u8 list" where
  "sample_table density = [0xE5, 0x20, 0xF1, 0xFF] @ le32 density @ [0x44, 0xEB, 0x08, 0x6B, 0x08, 0x3B, 0x80, 0xBB, 0xEE, 0xFF, 0xFF, 0xFF,
     0xFF, 0xFF, 0x00, 0xFF, 0xFF, 0xFF, 0x00, 0xFF, 0x10, 0xD8, 0x00, 0xFF, 0x0F, 0x52, 0x0C, 0x20, 0x36, 0x02, 0xA6, 0x00, 0x82, 0xEA, 0x14, 0xC9,
     0xE9, 0x63, 0x76, 0x33, 0x7A, 0x75, 0x7A, 0x75, 0xF7, 0xA2, 0xD5, 0x5C, 0x19, 0xF7, 0x4D, 0xFF, 0xE9, 0x30, 0xF8, 0x80]"

lemma sfdp_flash_size_correct_witness:
  "unat (sfdp_flash_size_kbytes (parse_parameter_table (sample_table 0x07FFFFFF))) = 16384"
proof -
  have d: "dword 1 (sample_table 0x07FFFFFF) = 0x07FFFFFF" by code_simp
  have "unat (dword 1 (sample_table 0x07FFFFFF)) < 2 ^ 30" unfolding d by simp
  from sfdp_flash_size_correct [OF this] show ?thesis unfolding d jedec_density_bits_def by (simp add: bit_numeral_rec)
qed

lemma sample_table_fields:
  "map ee_size (erase_info (sfdp_erase_table_sort (parse_parameter_table (sample_table 0x07FFFFFF)))) = [0x0C, 0x0F, 0x10, 0]"
  "sfdp_flash_page_size_bytes (parse_parameter_table (sample_table 0x07FFFFFF)) = 256"
  "sfdp_busy_poll_method (parse_parameter_table (sample_table 0x07FFFFFF)) = Some (0x05, 0, 0)"
  "sfdp_quad_enable_method (parse_parameter_table (sample_table 0x07FFFFFF)) = Some (2, 1, 0, 0)"
  by code_simp+

text \<open>
  The structure has the flag for an exponent at bit 30, the standard at bit 31: a chip of 4 Gbit, which
  gives the exponent 32, and one of 2 Gbit, whose word is 0x7FFFFFFF, have size 0.
\<close>

lemma sfdp_large_chips:
  "jedec_density_bits 0x80000020 = 2 ^ 32" "sfdp_flash_size_kbytes (parse_parameter_table (sample_table 0x80000020)) = 0"
  "jedec_density_bits 0x7FFFFFFF = 2 ^ 31" "sfdp_flash_size_kbytes (parse_parameter_table (sample_table 0x7FFFFFFF)) = 0"
  by (simp add: jedec_density_bits_def bit_numeral_rec mask_numeral, code_simp, simp add: jedec_density_bits_def bit_numeral_rec, code_simp)

end
