(* ===== verification/Qspi_Hil.thy ===== *)
theory Qspi_Hil
  imports Qspi_Io Sfdp
begin

text \<open>
  The QSPI flash functions of the hardware layer, modules/hil/lib_qspi_io/src/qspi_flash.c: transactions
  on the lines of Qspi_Io. What the chip puts on the lines and how a transaction changes it are
  a parameter.
\<close>

section \<open>The chip's side of a transaction\<close>

text \<open>
  \<open>chip_drive\<close>: the levels of the lines by cycle, once the nibbles have been sent, while the chip is selected.
  \<open>chip_undriven\<close>: the levels of the lines when it is not, which may be any.
  \<open>chip_deselect\<close>: the state after a transaction of a number of cycles. What is sent behind the last cycle
  does not reach the chip.
\<close>

record 's qspi_chip =
  chip_drive :: "'s \<Rightarrow> nibble list \<Rightarrow> nat \<Rightarrow> nibble"
  chip_undriven :: "nat \<Rightarrow> nibble"
  chip_deselect :: "'s \<Rightarrow> nibble list \<Rightarrow> nat \<Rightarrow> 's"

text \<open>
  The chip select is released a number of cycles after it has been asserted, at a time of its port. The number is
  a \<open>size_t\<close>, of 32 bits, and a port's time has 16: what is left of the number is its rest modulo \<open>2 ^ 16\<close>.
\<close>

definition cs_release :: "nat \<Rightarrow> nat" where
  "cs_release cycles = cycles mod 2 ^ 16"

definition chip_lines :: "'s qspi_chip \<Rightarrow> 's \<Rightarrow> nibble list \<Rightarrow> nat \<Rightarrow> nat \<Rightarrow> nibble" where
  "chip_lines C s out release t = (if t < release then chip_drive C s out t else chip_undriven C t)"

section \<open>The context\<close>

datatype page_program_cmd = qspi_flash_page_program_1_1_1 | qspi_flash_page_program_1_1_4 | qspi_flash_page_program_1_4_4

datatype sample_edge = qspi_io_sample_edge_rising | qspi_io_sample_edge_falling

record qspi_clock =
  ck_source_is_ref :: bool
  ck_full_speed_clk_divisor :: int
  ck_full_speed_sclk_sample_delay :: u32
  ck_full_speed_sclk_sample_edge :: sample_edge
  ck_full_speed_sio_pad_delay :: u32
  ck_spi_read_clk_divisor :: int
  ck_spi_read_sclk_sample_delay :: u32
  ck_spi_read_sclk_sample_edge :: sample_edge
  ck_spi_read_sio_pad_delay :: u32

record qspi_flash_ctx =
  fx_clock :: qspi_clock
  fx_custom_clock_setup :: bool
  fx_quad_page_program_cmd :: page_program_cmd
  fx_sfdp_supported :: bool
  fx_page_size_bytes :: u32
  fx_page_count :: u32
  fx_flash_size_kbytes :: u32
  fx_address_bytes :: int
  fx_erase_info :: "(u32 \<times> u32) list"
  fx_busy_poll_cmd :: u32
  fx_busy_poll_bit :: u8
  fx_busy_poll_ready_value :: u8
  fx_qe_reg :: u8
  fx_qe_bit :: u8
  fx_sr2_read_cmd :: u32
  fx_sr2_write_cmd :: u32

definition QSPI_FLASH_STATUS_REG_WIP_BM :: u8 where "QSPI_FLASH_STATUS_REG_WIP_BM = 0x01"
definition QSPI_FLASH_STATUS_REG_WEL_BM :: u8 where "QSPI_FLASH_STATUS_REG_WEL_BM = 0x02"

definition WRITE_ENABLE_COMMAND :: u32 where "WRITE_ENABLE_COMMAND = QSPI_IO_BYTE_TO_MOSI 0x06"
definition WRITE_DISABLE_COMMAND :: u32 where "WRITE_DISABLE_COMMAND = QSPI_IO_BYTE_TO_MOSI 0x04"
definition ERASE_CHIP_COMMAND :: u32 where "ERASE_CHIP_COMMAND = QSPI_IO_BYTE_TO_MOSI 0xC7"
definition PP_1_1_1_COMMAND :: u32 where "PP_1_1_1_COMMAND = QSPI_IO_BYTE_TO_MOSI 0x02"
definition PP_1_1_4_COMMAND :: u32 where "PP_1_1_4_COMMAND = QSPI_IO_BYTE_TO_MOSI 0x32"
definition PP_1_4_4_COMMAND :: u32 where "PP_1_4_4_COMMAND = QSPI_IO_BYTE_TO_MOSI 0x38"
definition READ_STATUS_REG_COMMAND :: u32 where "READ_STATUS_REG_COMMAND = QSPI_IO_BYTE_TO_MOSI 0x05"
definition READ_ID_COMMAND :: u32 where "READ_ID_COMMAND = QSPI_IO_BYTE_TO_MOSI 0x9F"
definition WRITE_STATUS_REG_COMMAND :: u32 where "WRITE_STATUS_REG_COMMAND = QSPI_IO_BYTE_TO_MOSI 0x01"
definition FAST_READ_COMMAND :: u32 where "FAST_READ_COMMAND = QSPI_IO_BYTE_TO_MOSI 0x0B"
definition QUAD_IO_READ_CMD_VAL :: u32 where "QUAD_IO_READ_CMD_VAL = 0xEB"
definition QUAD_IO_READ_COMMAND :: u32 where "QUAD_IO_READ_COMMAND = QSPI_IO_BYTE_TO_MOSI QUAD_IO_READ_CMD_VAL"
definition SFDP_READ_INSTRUCTION :: u32 where "SFDP_READ_INSTRUCTION = 0x5A"

definition QUAD_IO_READ_DUMMY_CYCLES :: nat where "QUAD_IO_READ_DUMMY_CYCLES = 4"
definition FAST_READ_DUMMY_CYCLES :: nat where "FAST_READ_DUMMY_CYCLES = 8"

text \<open>The three bytes of an address in the order they are sent: \<open>byterev(address << 8)\<close> in memory.\<close>

definition address_word :: "u32 \<Rightarrow> u8 list" where
  "address_word address = le32 (byterev (push_bit 8 address))"

definition address_out :: "u32 \<Rightarrow> u8 list" where
  "address_out address = take 3 (address_word address)"

section \<open>Registers\<close>

definition qspi_flash_write_register :: "'s qspi_chip \<Rightarrow> u32 \<Rightarrow> u8 list \<Rightarrow> 's \<Rightarrow> 's" where
  "qspi_flash_write_register C cmd val s =
     (let cycles = 8 + 8 * length val
      in chip_deselect C s (qspi_io_start_word cmd @ qspi_io_mosi_out qspi_io_transfer_normal val) (cs_release cycles))"

definition qspi_flash_write_status_register :: "'s qspi_chip \<Rightarrow> u8 list \<Rightarrow> 's \<Rightarrow> 's" where
  "qspi_flash_write_status_register C val s = qspi_flash_write_register C WRITE_STATUS_REG_COMMAND val s"

definition qspi_flash_read_register :: "'s qspi_chip \<Rightarrow> u32 \<Rightarrow> nat \<Rightarrow> 's \<Rightarrow> u8 list \<times> 's" where
  "qspi_flash_read_register C cmd len s =
     (let cycles = 8 + 8 * len;
          out = qspi_io_start_word cmd
      in (qspi_io_miso_in qspi_io_transfer_normal (chip_lines C s out (cs_release cycles)) (8 + 7) len, chip_deselect C s out (cs_release cycles)))"

definition qspi_flash_read_status_register :: "'s qspi_chip \<Rightarrow> nat \<Rightarrow> 's \<Rightarrow> u8 list \<times> 's" where
  "qspi_flash_read_status_register C len s = qspi_flash_read_register C READ_STATUS_REG_COMMAND len s"

definition qspi_flash_read_id :: "'s qspi_chip \<Rightarrow> nat \<Rightarrow> 's \<Rightarrow> u8 list \<times> 's" where
  "qspi_flash_read_id C len s = qspi_flash_read_register C READ_ID_COMMAND len s"

text \<open>Each byte that does not match puts the end of the transaction off by eight cycles.\<close>

definition qspi_flash_poll_register :: "'s qspi_chip \<Rightarrow> u32 \<Rightarrow> u8 \<Rightarrow> u8 \<Rightarrow> 's \<Rightarrow> 's option" where
  "qspi_flash_poll_register C cmd mask_bits val s =
     (let cycles = 8 + 8 * 2;
          out = qspi_io_start_word cmd
      in map_option (\<lambda>n. chip_deselect C s out (cs_release cycles + 8 * n))
           (qspi_io_miso_poll (\<lambda>n. chip_lines C s out (cs_release cycles + 8 * n)) mask_bits val (8 + 7) 0))"

definition qspi_flash_poll_status_register :: "'s qspi_chip \<Rightarrow> u8 \<Rightarrow> u8 \<Rightarrow> 's \<Rightarrow> 's option" where
  "qspi_flash_poll_status_register C mask_bits val s = qspi_flash_poll_register C READ_STATUS_REG_COMMAND mask_bits val s"

text \<open>The two loops may not end.\<close>

partial_function (option) qspi_flash_write_enable :: "'s qspi_chip \<Rightarrow> 's \<Rightarrow> 's option" where
  "qspi_flash_write_enable C s =
     (let s = chip_deselect C s (qspi_io_start_word WRITE_ENABLE_COMMAND) (cs_release 8);
          (status, s) = qspi_flash_read_status_register C 1 s
      in if status ! 0 AND QSPI_FLASH_STATUS_REG_WEL_BM = 0 then qspi_flash_write_enable C s else Some s)"

partial_function (option) qspi_flash_write_disable :: "'s qspi_chip \<Rightarrow> 's \<Rightarrow> 's option" where
  "qspi_flash_write_disable C s =
     (let s = chip_deselect C s (qspi_io_start_word WRITE_DISABLE_COMMAND) (cs_release 8);
          (status, s) = qspi_flash_read_status_register C 1 s
      in if status ! 0 AND QSPI_FLASH_STATUS_REG_WEL_BM \<noteq> 0 then qspi_flash_write_disable C s else Some s)"

definition qspi_flash_write_in_progress :: "'s qspi_chip \<Rightarrow> qspi_flash_ctx \<Rightarrow> 's \<Rightarrow> bool \<times> 's" where
  "qspi_flash_write_in_progress C ctx s =
     (let (status_reg, s) = qspi_flash_read_register C (fx_busy_poll_cmd ctx) 1 s
      in (drop_bit (unat (fx_busy_poll_bit ctx)) (status_reg ! 0) AND 1 \<noteq> fx_busy_poll_ready_value ctx, s))"

definition qspi_flash_wait_while_write_in_progress :: "'s qspi_chip \<Rightarrow> qspi_flash_ctx \<Rightarrow> 's \<Rightarrow> 's option" where
  "qspi_flash_wait_while_write_in_progress C ctx s =
     qspi_flash_poll_register C (fx_busy_poll_cmd ctx) (push_bit (unat (fx_busy_poll_bit ctx)) 1)
       (push_bit (unat (fx_busy_poll_bit ctx)) (fx_busy_poll_ready_value ctx)) s"

text \<open>The driver's own loop, rtos_qspi_flash.c, which lets interrupts run between the reads.\<close>

partial_function (option) while_busy :: "'s qspi_chip \<Rightarrow> qspi_flash_ctx \<Rightarrow> 's \<Rightarrow> 's option" where
  "while_busy C ctx s =
     (let (busy, s) = qspi_flash_write_in_progress C ctx s in if busy then while_busy C ctx s else Some s)"

text \<open>\<open>read_both\<close> fills \<open>status\<close>: with the one register or both, by one command or two.\<close>

definition read_both :: "'s qspi_chip \<Rightarrow> qspi_flash_ctx \<Rightarrow> 's \<Rightarrow> u8 list \<times> 's" where
  "read_both C ctx s =
     (if fx_qe_reg ctx = 1 \<or> fx_sr2_read_cmd ctx = QSPI_IO_BYTE_TO_MOSI 0 then qspi_flash_read_status_register C (unat (fx_qe_reg ctx)) s
      else let (st1, s) = qspi_flash_read_status_register C 1 s;
               (st2, s) = qspi_flash_read_register C (fx_sr2_read_cmd ctx) 1 s
           in (st1 @ st2, s))"

text \<open>Before it reads the registers again the code clears \<open>status\<close> and reads only what it tests.\<close>

definition read_again :: "'s qspi_chip \<Rightarrow> qspi_flash_ctx \<Rightarrow> 's \<Rightarrow> u8 list \<times> 's" where
  "read_again C ctx s =
     (if fx_qe_reg ctx = 1 \<or> fx_sr2_read_cmd ctx = QSPI_IO_BYTE_TO_MOSI 0 then qspi_flash_read_status_register C (unat (fx_qe_reg ctx)) s
      else let (st2, s) = qspi_flash_read_register C (fx_sr2_read_cmd ctx) 1 s in (0 # st2, s))"

definition qspi_flash_quad_enable_write :: "'s qspi_chip \<Rightarrow> qspi_flash_ctx \<Rightarrow> bool \<Rightarrow> 's \<Rightarrow> (bool \<times> 's) res option" where
  "qspi_flash_quad_enable_write C ctx enable s =
     (if fx_qe_reg ctx = 0 then Some (Inr (True, s))
      else if \<not> (fx_qe_reg ctx = 1 \<or> fx_qe_reg ctx = 2) \<or> \<not> fx_qe_bit ctx \<le> 7 then Some (Inl AssertFail)
      else let bitmask = push_bit (unat (fx_qe_bit ctx)) 1;
               i = unat (fx_qe_reg ctx) - 1;
               (status, s) = read_both C ctx s
           in if (status ! i AND bitmask \<noteq> 0) \<noteq> enable
              then let status = status[i := (if enable then status ! i OR bitmask else status ! i AND NOT bitmask)]
                   in do { s \<leftarrow> qspi_flash_write_enable C s;
                           s \<leftarrow> Some (if fx_qe_reg ctx = 1 \<or> fx_sr2_write_cmd ctx = QSPI_IO_BYTE_TO_MOSI 0
                                      then qspi_flash_write_status_register C (take (unat (fx_qe_reg ctx)) status) s
                                      else qspi_flash_write_register C (fx_sr2_write_cmd ctx) [status ! 1] s);
                           s \<leftarrow> qspi_flash_wait_while_write_in_progress C ctx s;
                           let (status, s) = read_again C ctx s
                           in Some (Inr ((status ! i AND bitmask \<noteq> 0) = enable, s)) }
              else Some (Inr (True, s)))"

section \<open>Erasing, writing and reading\<close>

definition qspi_flash_erase_chip :: nat where "qspi_flash_erase_chip = 4"

definition qspi_flash_erase :: "'s qspi_chip \<Rightarrow> qspi_flash_ctx \<Rightarrow> u32 \<Rightarrow> nat \<Rightarrow> 's \<Rightarrow> 's res" where
  "qspi_flash_erase C ctx address erase_length s =
     rbind (c_assert (erase_length \<le> qspi_flash_erase_chip)) (\<lambda>_.
       if erase_length = qspi_flash_erase_chip
       then Inr (chip_deselect C s (qspi_io_start_word ERASE_CHIP_COMMAND) (cs_release 8))
       else let (size_log2, cmd) = fx_erase_info ctx ! erase_length
            in rbind (c_assert (0 < size_log2)) (\<lambda>_.
                 Inr (chip_deselect C s (qspi_io_start_word cmd @ qspi_io_mosi_out qspi_io_transfer_normal (address_out address)) (cs_release 32))))"

text \<open>\<open>p\<close> is the pointer to the data. The address is in a variable of the function, which is on a 4-byte boundary: 0.\<close>

definition qspi_flash_write_i :: "'s qspi_chip \<Rightarrow> qspi_flash_ctx \<Rightarrow> transfer_mode \<Rightarrow> nat \<Rightarrow> u8 list \<Rightarrow> u32 \<Rightarrow> nat \<Rightarrow> 's \<Rightarrow> 's res" where
  "qspi_flash_write_i C ctx transfer_mode p data address len s =
     (case fx_quad_page_program_cmd ctx of
        qspi_flash_page_program_1_1_4 \<Rightarrow>
          (let cycles = 8 + 24 + 2 * len;
               out = qspi_io_start_word PP_1_1_4_COMMAND @ qspi_io_mosi_out qspi_io_transfer_normal (address_out address)
           in rbind (qspi_io_bytes_out transfer_mode p data len) (\<lambda>bytes. Inr (chip_deselect C s (out @ bytes) (cs_release cycles))))
      | qspi_flash_page_program_1_4_4 \<Rightarrow>
          (let cycles = 8 + 6 + 2 * len;
               out = qspi_io_start_word PP_1_4_4_COMMAND
           in rbind (qspi_io_bytes_out qspi_io_transfer_normal 0 (address_word address) 3) (\<lambda>addr.
              rbind (qspi_io_bytes_out transfer_mode p data len) (\<lambda>bytes. Inr (chip_deselect C s (out @ addr @ bytes) (cs_release cycles)))))
      | qspi_flash_page_program_1_1_1 \<Rightarrow>
          (let cycles = 8 + 24 + 8 * len;
               out = qspi_io_start_word PP_1_1_1_COMMAND @ qspi_io_mosi_out qspi_io_transfer_normal (address_out address)
           in Inr (chip_deselect C s (out @ qspi_io_mosi_out transfer_mode (take len data)) (cs_release cycles))))"

definition qspi_flash_write :: "'s qspi_chip \<Rightarrow> qspi_flash_ctx \<Rightarrow> nat \<Rightarrow> u8 list \<Rightarrow> u32 \<Rightarrow> nat \<Rightarrow> 's \<Rightarrow> 's res" where
  "qspi_flash_write C ctx p data address len s = qspi_flash_write_i C ctx qspi_io_transfer_normal p data address len s"

definition qspi_flash_write_nibble_swapped :: "'s qspi_chip \<Rightarrow> qspi_flash_ctx \<Rightarrow> nat \<Rightarrow> u8 list \<Rightarrow> u32 \<Rightarrow> nat \<Rightarrow> 's \<Rightarrow> 's res" where
  "qspi_flash_write_nibble_swapped C ctx p data address len s = qspi_flash_write_i C ctx qspi_io_transfer_nibble_swap p data address len s"

definition qspi_flash_fast_read_i :: "'s qspi_chip \<Rightarrow> u32 \<Rightarrow> u32 \<Rightarrow> nat \<Rightarrow> 's \<Rightarrow> u8 list \<times> 's" where
  "qspi_flash_fast_read_i C cmd address len s =
     (let cycles = 8 + 24 + FAST_READ_DUMMY_CYCLES + 8 * len;
          input_cycle = 8 + 24 + FAST_READ_DUMMY_CYCLES + 7;
          out = qspi_io_start_word cmd @ qspi_io_mosi_out qspi_io_transfer_normal (address_out address)
      in (qspi_io_miso_in qspi_io_transfer_normal (chip_lines C s out (cs_release cycles)) input_cycle len, chip_deselect C s out (cs_release cycles)))"

definition qspi_flash_fast_read :: "'s qspi_chip \<Rightarrow> u32 \<Rightarrow> nat \<Rightarrow> 's \<Rightarrow> u8 list \<times> 's" where
  "qspi_flash_fast_read C address len s = qspi_flash_fast_read_i C (QSPI_IO_BYTE_TO_MOSI FAST_READ_COMMAND) address len s"

definition qspi_flash_sfdp_read :: "'s qspi_chip \<Rightarrow> u32 \<Rightarrow> nat \<Rightarrow> 's \<Rightarrow> u8 list \<times> 's" where
  "qspi_flash_sfdp_read C address len s = qspi_flash_fast_read_i C (QSPI_IO_BYTE_TO_MOSI SFDP_READ_INSTRUCTION) address len s"

definition qspi_flash_read_calc :: "bool \<Rightarrow> u32 \<Rightarrow> nat \<Rightarrow> u32 \<times> nat \<times> nat" where
  "qspi_flash_read_calc xip address len =
     (let first_input_byte = (if 4 < len then 4 else len);
          (cycles, input_cycle) =
            (if xip then (8 + QUAD_IO_READ_DUMMY_CYCLES + 2 * len, 8 + QUAD_IO_READ_DUMMY_CYCLES + 2 * first_input_byte - 1)
             else (8 * 2 + QUAD_IO_READ_DUMMY_CYCLES + 2 * len, 8 * 2 + QUAD_IO_READ_DUMMY_CYCLES + 2 * first_input_byte - 1))
      in (push_bit 8 address OR drop_bit 24 address, cycles, input_cycle))"

text \<open>\<open>p\<close> is the pointer to the caller's buffer.\<close>

definition qspi_flash_read_i :: "'s qspi_chip \<Rightarrow> transfer_mode \<Rightarrow> bool \<Rightarrow> nat \<Rightarrow> u32 \<Rightarrow> nat \<Rightarrow> 's \<Rightarrow> (u8 list \<times> 's) res" where
  "qspi_flash_read_i C transfer_mode xip p address len s =
     (let (address, cycles, input_cycle) = qspi_flash_read_calc xip address len;
          out = (if xip then qspi_io_start_word address
                 else qspi_io_start_word QUAD_IO_READ_COMMAND @ qspi_io_words_out qspi_io_transfer_normal [address])
      in rbind (qspi_io_bytes_in transfer_mode p (chip_lines C s out (cs_release cycles)) input_cycle len)
           (\<lambda>data. Inr (data, chip_deselect C s out (cs_release cycles))))"

definition qspi_flash_read :: "'s qspi_chip \<Rightarrow> nat \<Rightarrow> u32 \<Rightarrow> nat \<Rightarrow> 's \<Rightarrow> (u8 list \<times> 's) res" where
  "qspi_flash_read C p address len s = qspi_flash_read_i C qspi_io_transfer_normal False p address len s"

definition qspi_flash_read_nibble_swapped :: "'s qspi_chip \<Rightarrow> nat \<Rightarrow> u32 \<Rightarrow> nat \<Rightarrow> 's \<Rightarrow> (u8 list \<times> 's) res" where
  "qspi_flash_read_nibble_swapped C p address len s = qspi_flash_read_i C qspi_io_transfer_nibble_swap False p address len s"

definition qspi_flash_xip_read :: "'s qspi_chip \<Rightarrow> nat \<Rightarrow> u32 \<Rightarrow> nat \<Rightarrow> 's \<Rightarrow> (u8 list \<times> 's) res" where
  "qspi_flash_xip_read C p address len s = qspi_flash_read_i C qspi_io_transfer_normal True p address len s"

definition qspi_flash_xip_read_nibble_swapped :: "'s qspi_chip \<Rightarrow> nat \<Rightarrow> u32 \<Rightarrow> nat \<Rightarrow> 's \<Rightarrow> (u8 list \<times> 's) res" where
  "qspi_flash_xip_read_nibble_swapped C p address len s = qspi_flash_read_i C qspi_io_transfer_nibble_swap True p address len s"

section \<open>Erase types and initialisation\<close>

text \<open>\<open>SIZE_MAX\<close> and \<open>UINT32_MAX\<close> for the whole chip.\<close>

definition qspi_flash_erase_type_size :: "qspi_flash_ctx \<Rightarrow> nat \<Rightarrow> u32" where
  "qspi_flash_erase_type_size ctx erase_type =
     (if erase_type < 4
      then let size_log2 = fst (fx_erase_info ctx ! erase_type) in if 0 < size_log2 then push_bit (unat size_log2) 1 else 0
      else if erase_type = qspi_flash_erase_chip then 0xFFFFFFFF else 0)"

definition qspi_flash_erase_type_size_log2 :: "qspi_flash_ctx \<Rightarrow> nat \<Rightarrow> u32" where
  "qspi_flash_erase_type_size_log2 ctx erase_type =
     (if erase_type < 4 then fst (fx_erase_info ctx ! erase_type)
      else if erase_type = qspi_flash_erase_chip then 0xFFFFFFFF else 0)"

definition default_clock :: qspi_clock where
  "default_clock =
     \<lparr>ck_source_is_ref = True,
      ck_full_speed_clk_divisor = 2, ck_full_speed_sclk_sample_delay = 0, ck_full_speed_sclk_sample_edge = qspi_io_sample_edge_falling,
      ck_full_speed_sio_pad_delay = 0,
      ck_spi_read_clk_divisor = 2, ck_spi_read_sclk_sample_delay = 0, ck_spi_read_sclk_sample_edge = qspi_io_sample_edge_falling,
      ck_spi_read_sio_pad_delay = 0\<rparr>"

definition erase_entry_of :: "erase_entry \<Rightarrow> u32 \<times> u32 \<Rightarrow> u32 \<times> u32" where
  "erase_entry_of e old =
     (if ee_size e \<noteq> 0 then (ucast (ee_size e), QSPI_IO_BYTE_TO_MOSI (ucast (ee_cmd e))) else (0, snd old))"

text \<open>The parameters from the tables, assertion by assertion.\<close>

definition init_from_sfdp :: "sfdp_parameter_table \<Rightarrow> qspi_flash_ctx \<Rightarrow> qspi_flash_ctx res" where
  "init_from_sfdp t ctx =
     (let ctx = ctx\<lparr>fx_sfdp_supported := True\<rparr> in
      rbind (c_assert (supports_144_fast_read t)) (\<lambda>_.
      rbind (c_assert (quad_144_read_cmd t = 0xEB)) (\<lambda>_.
      rbind (c_assert (quad_144_read_mode_clocks t + quad_144_read_dummy_clocks t = 6)) (\<lambda>_.
      let ctx = ctx\<lparr>fx_page_size_bytes := sfdp_flash_page_size_bytes t, fx_flash_size_kbytes := sfdp_flash_size_kbytes t\<rparr>;
          ctx = (if fx_flash_size_kbytes ctx \<noteq> 0
                 then ctx\<lparr>fx_page_count := push_bit 10 (drop_bit (unat (page_size t)) (fx_flash_size_kbytes ctx))\<rparr> else ctx)
      in rbind (c_assert (fx_flash_size_kbytes ctx \<noteq> 0)) (\<lambda>_.
      case sfdp_busy_poll_method t of None \<Rightarrow> Inl AssertFail | Some (instruction, poll_bit, ready) \<Rightarrow>
      let ctx = ctx\<lparr>fx_busy_poll_cmd := QSPI_IO_BYTE_TO_MOSI (ucast instruction), fx_busy_poll_bit := poll_bit, fx_busy_poll_ready_value := ready\<rparr>
      in case sfdp_quad_enable_method t of None \<Rightarrow> Inl AssertFail | Some (reg, qe_bit, rd, wr) \<Rightarrow>
      let ctx = ctx\<lparr>fx_qe_reg := reg, fx_qe_bit := qe_bit, fx_sr2_read_cmd := QSPI_IO_BYTE_TO_MOSI (ucast rd),
                    fx_sr2_write_cmd := QSPI_IO_BYTE_TO_MOSI (ucast wr)\<rparr>;
          ctx = ctx\<lparr>fx_erase_info := map2 erase_entry_of (erase_info t) (fx_erase_info ctx)\<rparr>
      in rbind (c_assert (0 < length (erase_info t))) (\<lambda>_.
         if address_bytes t = 2 then Inl AssertFail else Inr (ctx\<lparr>fx_address_bytes := 3\<rparr>)))))))"

definition qspi_flash_init :: "'s qspi_chip \<Rightarrow> sfdp_info \<Rightarrow> qspi_flash_ctx \<Rightarrow> 's \<Rightarrow> (qspi_flash_ctx \<times> 's) res" where
  "qspi_flash_init C info ctx s =
     (let ctx = (if \<not> fx_custom_clock_setup ctx then ctx\<lparr>fx_clock := default_clock\<rparr> else ctx);
          (ok, info, s) = sfdp_discover (qspi_flash_sfdp_read C) info s
      in if ok then rbind (init_from_sfdp (info_table info) ctx) (\<lambda>ctx. Inr (ctx, s))
         else let ctx = ctx\<lparr>fx_sfdp_supported := False\<rparr>
              in rbind (c_assert ((fx_address_bytes ctx = 3 \<or> fx_address_bytes ctx = 4) \<and> fx_busy_poll_bit ctx \<le> 7
                   \<and> (fx_busy_poll_ready_value ctx = 0 \<or> fx_busy_poll_ready_value ctx = 1))) (\<lambda>_. Inr (ctx, s)))"

end
