(* ===== verification/Qspi_Chip.thy ===== *)
theory Qspi_Chip
  imports Qspi_Hil Qspi_Flash
begin

text \<open>
  The functions of Qspi_Hil on a flash chip as the data sheets describe it: what it hears on the lines is what the
  driver of Qspi_Flash takes the functions to say, and what they return is what it answers. With the chip's
  own description of itself, its SFDP tables, initialisation makes a context for which that holds.
\<close>

section \<open>A chip as the data sheets describe it\<close>

text \<open>
  Reading nibbles as bytes: from one line, or from four. An address is three bytes, the upper first.
\<close>

definition spi_byte :: "nibble list \<Rightarrow> u8" where
  "spi_byte ns = foldl (\<lambda>w x. push_bit 1 w OR of_bool (bit x 0)) 0 ns"

fun spi_bytes :: "nibble list \<Rightarrow> u8 list" where
  "spi_bytes (a # b # c # d # e # f # g # h # ns) = spi_byte [a, b, c, d, e, f, g, h] # spi_bytes ns"
| "spi_bytes ns = []"

fun quad_bytes :: "nibble list \<Rightarrow> u8 list" where
  "quad_bytes (h # l # ns) = of_hi_lo h l # quad_bytes ns"
| "quad_bytes ns = []"

fun address24 :: "u8 list \<Rightarrow> u32" where
  "address24 [a, b, c] = push_bit 16 (ucast a) OR push_bit 8 (ucast b) OR ucast c"
| "address24 bs = 0"

text \<open>
  The sheet: page size, the sizes that the erase instructions have, the instructions for the second status register
  (0 for none), how many status bytes a program or erase cycle takes, the SFDP area, and the levels on lines that the chip
  does not drive.
\<close>

record sheet =
  sheet_page :: nat
  sheet_erase :: "u8 \<Rightarrow> nat option"
  sheet_sr2_read :: u8
  sheet_sr2_write :: u8
  sheet_delay :: nat
  sheet_sfdp :: "nat \<Rightarrow> u8"
  sheet_undriven :: "nat \<Rightarrow> nibble"

text \<open>\<open>nc_busy\<close> is the number of status bytes for which the chip stays busy.\<close>

record nor_chip =
  nc_nor :: nor
  nc_busy :: nat
  nc_sr1 :: u8
  nc_sr2 :: u8

definition decode_cmd :: "sheet \<Rightarrow> nibble list \<Rightarrow> flash_cmd option" where
  "decode_cmd sh ns =
     (let op = spi_byte (take 8 ns);
          rest = drop 8 ns;
          addr = address24 (spi_bytes (take 24 rest))
      in if op = 0x06 then Some Write_Enable
         else if op = 0xC7 then Some Erase_Chip
         else if op = 0x02 then Some (Page_Program addr (spi_bytes (drop 24 rest)))
         else if op = 0x32 then Some (Page_Program addr (quad_bytes (drop 24 rest)))
         else if op = 0x38 then Some (Page_Program (address24 (quad_bytes (take 6 rest))) (quad_bytes (drop 6 rest)))
         else map_option (Erase_Sector addr) (sheet_erase sh op))"

text \<open>The first status register: its bits 1 and 0 are the write enable latch and the busy flag of the \<open>i\<close>-th byte read.\<close>

definition nc_status :: "nor_chip \<Rightarrow> nat \<Rightarrow> u8" where
  "nc_status c i = (nc_sr1 c AND 0xFC) OR (if snd (nc_nor c) then 2 else 0) OR (if i < nc_busy c then 1 else 0)"

definition nc_flag_status :: "nor_chip \<Rightarrow> nat \<Rightarrow> u8" where
  "nc_flag_status c i = (if i < nc_busy c then 0 else 0x80)"

text \<open>What the chip sends after an instruction: on one line from a cycle on, or on four.\<close>

definition spi_line :: "nat \<Rightarrow> (nat \<Rightarrow> u8) \<Rightarrow> nat \<Rightarrow> nibble" where
  "spi_line start f t = (if start \<le> t \<and> bit (f ((t - start) div 8)) (7 - (t - start) mod 8) then 0xF else 0xD)"

definition quad_line :: "nat \<Rightarrow> (nat \<Rightarrow> u8) \<Rightarrow> nat \<Rightarrow> nibble" where
  "quad_line start f t = (if even (t - start) then hi_nib (f ((t - start) div 2)) else lo_nib (f ((t - start) div 2)))"

definition sheet_drive :: "sheet \<Rightarrow> nor_chip \<Rightarrow> nibble list \<Rightarrow> nat \<Rightarrow> nibble" where
  "sheet_drive sh c out =
     (let op = spi_byte (take 8 out);
          addr = unat (address24 (spi_bytes (take 24 (drop 8 out))));
          quad_addr = unat (address24 (quad_bytes (take 6 (drop 8 out))))
      in if op = 0x05 then spi_line 8 (nc_status c)
         else if op = 0x70 then spi_line 8 (nc_flag_status c)
         else if op = 0xEB then quad_line 20 (\<lambda>i. fst (nc_nor c) (quad_addr + i))
         else if op = 0x0B then spi_line 40 (\<lambda>i. fst (nc_nor c) (addr + i))
         else if op = 0x5A then spi_line 40 (\<lambda>i. sheet_sfdp sh (addr + i))
         else if op = sheet_sr2_read sh then spi_line 8 (\<lambda>i. nc_sr2 c)
         else (\<lambda>t. 0xF))"

text \<open>While it is busy the chip answers only the instructions that read the status.\<close>

definition nc_command :: "sheet \<Rightarrow> flash_cmd \<Rightarrow> nor_chip \<Rightarrow> nor_chip" where
  "nc_command sh cmd c =
     c\<lparr>nc_nor := nor_step (sheet_page sh) cmd (nc_nor c),
       nc_busy := (if cmd \<noteq> Write_Enable \<and> snd (nc_nor c) then sheet_delay sh else 0)\<rparr>"

definition nc_write_status :: "sheet \<Rightarrow> (nor_chip \<Rightarrow> nor_chip) \<Rightarrow> nor_chip \<Rightarrow> nor_chip" where
  "nc_write_status sh f c =
     (if snd (nc_nor c) then (f c)\<lparr>nc_nor := (fst (nc_nor c), False), nc_busy := sheet_delay sh\<rparr> else c)"

definition sheet_deselect :: "sheet \<Rightarrow> nor_chip \<Rightarrow> nibble list \<Rightarrow> nat \<Rightarrow> nor_chip" where
  "sheet_deselect sh c out cycles =
     (let ns = take cycles out;
          op = spi_byte (take 8 ns);
          val = spi_bytes (drop 8 ns)
      in if length ns < 8 then c
         else if op = 0x05 \<or> op = 0x70 then c\<lparr>nc_busy := nc_busy c - (cycles - 8) div 8\<rparr>
         else if 0 < nc_busy c \<or> op = 0xEB \<or> op = 0x0B \<or> op = 0x5A then c
         else if op = 0x04 then c\<lparr>nc_nor := (fst (nc_nor c), False)\<rparr>
         else if op = 0x01
         then (case val of
                 [] \<Rightarrow> c
               | [v] \<Rightarrow> nc_write_status sh (nc_sr1_update (\<lambda>_. v AND 0xFC)) c
               | v # w # _ \<Rightarrow> nc_write_status sh (nc_sr2_update (\<lambda>_. w) \<circ> nc_sr1_update (\<lambda>_. v AND 0xFC)) c)
         else if op = sheet_sr2_read sh then c
         else if op = sheet_sr2_write sh \<and> val \<noteq> [] then nc_write_status sh (nc_sr2_update (\<lambda>_. hd val)) c
         else case decode_cmd sh ns of None \<Rightarrow> c | Some cmd \<Rightarrow> nc_command sh cmd c)"

definition sheet_chip :: "sheet \<Rightarrow> nor_chip qspi_chip" where
  "sheet_chip sh = \<lparr>chip_drive = sheet_drive sh, chip_undriven = sheet_undriven sh, chip_deselect = sheet_deselect sh\<rparr>"

section \<open>What the chip hears\<close>

lemma spi_byte_nibbles [simp]: "spi_byte (spi_nibbles [b]) = b"
proof -
  have "spi_byte (spi_nibbles [b]) = foldl (\<lambda>w x. push_bit 1 w OR of_bool x) 0 (map (\<lambda>i. bit b (7 - i)) [0, 1, 2, 3, 4, 5, 6, 7])"
    by (simp add: spi_byte_def spi_nibbles_def upt8 bit_numeral_rec)
  also have "\<dots> = b"
  proof (rule bit_word_eqI)
    fix n assume "n < LENGTH(8)"
    then have n: "n = 0 \<or> n = 1 \<or> n = 2 \<or> n = 3 \<or> n = 4 \<or> n = 5 \<or> n = 6 \<or> n = 7" by auto
    have o: "bit (of_bool x :: u8) k \<longleftrightarrow> x \<and> k = 0" for x k by (simp add: bit_1_iff)
    show "bit (foldl (\<lambda>w x. push_bit 1 w OR of_bool x) (0 :: u8) (map (\<lambda>i. bit b (7 - i)) [0, 1, 2, 3, 4, 5, 6, 7])) n \<longleftrightarrow> bit b n"
      unfolding list.map foldl_Cons foldl_Nil bit_or_iff bit_push_bit_iff o using n by (elim disjE) simp_all
  qed
  finally show ?thesis .
qed

lemma spi_nibbles_8: "spi_nibbles [b] = map (\<lambda>i. if bit b (7 - i) then 0xF else 0xE) [0, 1, 2, 3, 4, 5, 6, 7]"
  by (simp add: spi_nibbles_def upt8)

lemma spi_bytes_nibbles [simp]: "spi_bytes (spi_nibbles bs) = bs"
proof (induction bs)
  case (Cons b bs)
  have "spi_bytes (spi_nibbles (b # bs)) = spi_byte (spi_nibbles [b]) # spi_bytes (spi_nibbles bs)"
    by (subst spi_nibbles_Cons) (simp add: spi_nibbles_8)
  then show ?case using Cons by simp
qed simp

lemma quad_bytes_nibbles [simp]: "quad_bytes (quad_nibbles bs) = bs"
  by (induction bs) simp_all

lemma take_spi: "length bs = n \<Longrightarrow> take (8 * n) (spi_nibbles bs @ ns) = spi_nibbles bs" "length bs = n \<Longrightarrow> drop (8 * n) (spi_nibbles bs @ ns) = ns"
  by simp_all

lemma command_nibbles [simp]:
  "take 8 (spi_nibbles [b] @ ns) = spi_nibbles [b]" "drop 8 (spi_nibbles [b] @ ns) = ns"
  "take 8 (spi_nibbles [b]) = spi_nibbles [b]" "drop 8 (spi_nibbles [b]) = []"
  using take_spi [of "[b]" 1] by simp_all

lemma le32_byterev: "le32 (byterev w) = rev (le32 w)"
  by (simp add: byterev_def)

lemma length_address [simp]: "length (address_word a) = 4" "length (address_out a) = 3"
  by (simp_all add: address_word_def address_out_def)

lemma address24_out [simp]: "address24 (address_out a) = a AND mask 24"
proof -
  have "address_out a = [ucast (drop_bit 16 a), ucast (drop_bit 8 a), ucast a]"
    by (simp add: address_out_def address_word_def le32_byterev) (auto simp: le32_def bit_simps intro!: bit_word_eqI)
  moreover have "push_bit 16 (ucast (ucast (drop_bit 16 a) :: u8)) OR push_bit 8 (ucast (ucast (drop_bit 8 a) :: u8)) OR ucast (ucast a :: u8)
      = a AND mask 24"
  proof (rule bit_word_eqI)
    fix n assume "n < LENGTH(32)"
    then consider "n < 8" | "8 \<le> n" "n < 16" | "16 \<le> n" "n < 24" | "24 \<le> n" "n < 32" by fastforce
    then show "bit (push_bit 16 (ucast (ucast (drop_bit 16 a) :: u8)) OR push_bit 8 (ucast (ucast (drop_bit 8 a) :: u8)) OR ucast (ucast a :: u8) :: u32) n
        \<longleftrightarrow> bit (a AND mask 24) n"
      by cases (auto simp: bit_simps)
  qed
  ultimately show ?thesis by simp
qed

lemma as_sent_normal [simp]: "as_sent qspi_io_transfer_normal = id"
  by (rule ext) (simp add: as_sent_def)

lemma address_lines:
  "qspi_io_mosi_out qspi_io_transfer_normal (address_out a) = spi_nibbles (address_out a)"
  "qspi_io_bytes_out qspi_io_transfer_normal 0 (address_word a) 3 = Inr (quad_nibbles (address_out a))"
  by (simp_all add: mosi_out_lines qspi_io_bytes_out_def bytes_out_lines address_out_def)

lemma addressed [simp]:
  "take 24 (spi_nibbles (address_out a) @ ns) = spi_nibbles (address_out a)" "drop 24 (spi_nibbles (address_out a) @ ns) = ns"
  "take 24 (spi_nibbles (address_out a)) = spi_nibbles (address_out a)"
  "take 6 (quad_nibbles (address_out a) @ ns) = quad_nibbles (address_out a)" "drop 6 (quad_nibbles (address_out a) @ ns) = ns"
  by simp_all

lemmas opcodes = WRITE_ENABLE_COMMAND_def WRITE_DISABLE_COMMAND_def ERASE_CHIP_COMMAND_def PP_1_1_1_COMMAND_def PP_1_1_4_COMMAND_def PP_1_4_4_COMMAND_def
  READ_STATUS_REG_COMMAND_def READ_ID_COMMAND_def WRITE_STATUS_REG_COMMAND_def FAST_READ_COMMAND_def QUAD_IO_READ_COMMAND_def
  QUAD_IO_READ_CMD_VAL_def SFDP_READ_INSTRUCTION_def QUAD_IO_READ_DUMMY_CYCLES_def FAST_READ_DUMMY_CYCLES_def start_command

section \<open>What the chip answers\<close>

lemma spi_line_bits: "miso_window (spi_line start f) (start + 8 * k) (8 * n) = concat (map byte_bits (map (\<lambda>i. f (k + i)) [0 ..< n]))"
proof (induction n arbitrary: k)
  case (Suc n)
  have first: "miso_window (spi_line start f) (start + 8 * k) 8 = byte_bits (f k)"
    by (rule nth_equalityI) (auto simp: miso_window_def byte_bits_def spi_line_def bit_numeral_rec simp del: upt_Suc upt_rec_numeral)
  have "8 * Suc n = 8 + 8 * n" "start + 8 * Suc k = start + 8 * k + 8" by simp_all
  then have "miso_window (spi_line start f) (start + 8 * k) (8 * Suc n)
      = miso_window (spi_line start f) (start + 8 * k) 8 @ miso_window (spi_line start f) (start + 8 * Suc k) (8 * n)"
    by (simp only: miso_window_split)
  also have "\<dots> = concat (map byte_bits (f k # map (\<lambda>i. f (Suc k + i)) [0 ..< n]))" unfolding first Suc by simp
  also have "f k # map (\<lambda>i. f (Suc k + i)) [0 ..< n] = map (\<lambda>i. f (k + i)) [0 ..< Suc n]"
    by (simp add: map_upt_Suc del: upt_Suc)
  finally show ?case .
qed (simp add: miso_window_def)

text \<open>The lines as the driver sees them while the chip is selected.\<close>

lemma spi_line_in:
  assumes "\<And>t. t < start + 8 * n \<Longrightarrow> sio t = spi_line start f t"
  shows "qspi_io_miso_in qspi_io_transfer_normal sio (start + 7) n = map f [0 ..< n]"
proof -
  have "qspi_io_miso_in qspi_io_transfer_normal sio (start + 7) n = qspi_io_miso_in qspi_io_transfer_normal (spi_line start f) (start + 7) n"
    by (rule miso_in_cong) (rule assms)
  then show ?thesis
    using miso_in_lines [of "spi_line start f" start "map f [0 ..< n]" qspi_io_transfer_normal] spi_line_bits [of start f 0 n]
    by (simp add: comp_def)
qed

lemma quad_line_in:
  assumes "\<And>t. t < start + 2 * n \<Longrightarrow> sio t = quad_line start f t"
  shows "quad_in m sio (start + 2 * min 4 n - 1) n = map (\<lambda>i. as_sent m (f i)) [0 ..< n]"
proof -
  have "sio_window (quad_line start f) (start + 2 * k) (2 * n) = quad_nibbles (map (\<lambda>i. f (k + i)) [0 ..< n])" for k
  proof (induction n arbitrary: k)
    case (Suc n)
    have "sio_window (quad_line start f) (start + 2 * k) 2 = [hi_nib (f k), lo_nib (f k)]"
      by (simp add: sio_window_def quad_line_def upt_rec)
    moreover have "2 * Suc n = 2 + 2 * n" "start + 2 * Suc k = start + 2 * k + 2" by simp_all
    then have "sio_window (quad_line start f) (start + 2 * k) (2 * Suc n)
        = sio_window (quad_line start f) (start + 2 * k) 2 @ sio_window (quad_line start f) (start + 2 * Suc k) (2 * n)"
      by (simp only: window_split)
    ultimately show ?case using Suc [of "Suc k"] by (simp add: map_upt_Suc del: upt_Suc)
  qed (simp add: sio_window_def)
  from this [of 0] have "sio_window (quad_line start f) start (2 * length (map f [0 ..< n])) = quad_nibbles (map f [0 ..< n])" by simp
  moreover have "sio_window sio start (2 * length (map f [0 ..< n])) = sio_window (quad_line start f) start (2 * length (map f [0 ..< n]))"
    by (rule sio_window_cong) (simp add: assms)
  ultimately have "sio_window sio start (2 * length (map f [0 ..< n])) = quad_nibbles (map f [0 ..< n])" by simp
  from bytes_in_lines [OF this, of m] show ?thesis by (simp add: comp_def)
qed

lemma cs_release_small [simp]: "n < 65536 \<Longrightarrow> cs_release n = n"
  by (simp add: cs_release_def)

section \<open>The functions on such a chip\<close>

definition basic_opcodes :: "u8 list" where
  "basic_opcodes = [0x01, 0x02, 0x04, 0x05, 0x06, 0x0B, 0x32, 0x38, 0x5A, 0x70, 0xC7, 0xEB]"

definition sheet_ok :: "sheet \<Rightarrow> bool" where
  "sheet_ok sh \<longleftrightarrow> sheet_sr2_read sh \<notin> set basic_opcodes \<and> sheet_sr2_write sh \<notin> set basic_opcodes
     \<and> (sheet_sr2_read sh \<noteq> 0 \<longrightarrow> sheet_sr2_read sh \<noteq> sheet_sr2_write sh)"

text \<open>The context names the instructions of the chip.\<close>

definition ctx_fits :: "sheet \<Rightarrow> qspi_flash_ctx \<Rightarrow> bool" where
  "ctx_fits sh ctx \<longleftrightarrow>
     (fx_busy_poll_cmd ctx, fx_busy_poll_bit ctx, fx_busy_poll_ready_value ctx) \<in>
       {(QSPI_IO_BYTE_TO_MOSI 0x05, 0, 0), (QSPI_IO_BYTE_TO_MOSI 0x70, 7, 1)}
     \<and> length (fx_erase_info ctx) = 4
     \<and> (\<forall>(l, cmd) \<in> set (fx_erase_info ctx). 0 < l \<longrightarrow>
         (\<exists>op. cmd = QSPI_IO_BYTE_TO_MOSI (ucast op) \<and> sheet_erase sh op = Some (unat l)
            \<and> op \<notin> set basic_opcodes \<and> op \<noteq> sheet_sr2_read sh \<and> op \<noteq> sheet_sr2_write sh))"

lemma sheet_chip_sel [simp]: "chip_drive (sheet_chip sh) = sheet_drive sh" "chip_deselect (sheet_chip sh) = sheet_deselect sh"
  by (simp_all add: sheet_chip_def)

lemma chip_lines_selected: "t < release \<Longrightarrow> chip_lines (sheet_chip sh) c out release t = sheet_drive sh c out t"
  by (simp add: chip_lines_def)

lemma bit_u8_consts:
  "bit (0xFC :: u8) k \<longleftrightarrow> 2 \<le> k \<and> k < 8" "bit (2 :: u8) k \<longleftrightarrow> k = 1" "bit (1 :: u8) k \<longleftrightarrow> k = 0" "bit (0x80 :: u8) k \<longleftrightarrow> k = 7"
proof -
  have all: "\<forall>k \<in> set [0 ..< 8]. bit (0xFC :: u8) k = (2 \<le> k) \<and> bit (2 :: u8) k = (k = 1) \<and> bit (1 :: u8) k = (k = 0) \<and> bit (0x80 :: u8) k = (k = 7)"
    by code_simp
  have "k < 8" if "bit (w :: u8) k" for w using that by (rule u8_bit_bound)
  then show "bit (0xFC :: u8) k \<longleftrightarrow> 2 \<le> k \<and> k < 8" "bit (2 :: u8) k \<longleftrightarrow> k = 1" "bit (1 :: u8) k \<longleftrightarrow> k = 0" "bit (0x80 :: u8) k \<longleftrightarrow> k = 7"
    using all by (cases "k < 8"; force)+
qed

lemma nc_status_bit: "bit (nc_status c i) k \<longleftrightarrow> (k = 0 \<and> i < nc_busy c) \<or> (k = 1 \<and> snd (nc_nor c)) \<or> (2 \<le> k \<and> k < 8 \<and> bit (nc_sr1 c) k)"
proof -
  have b: "bit (if b then x else 0 :: u8) k \<longleftrightarrow> b \<and> bit x k" for b x by simp
  show ?thesis unfolding nc_status_def bit_or_iff bit_and_iff b bit_u8_consts by auto
qed

lemma and_bit_0: "w AND push_bit n 1 = 0 \<longleftrightarrow> \<not> bit w n" for w :: u8
  using and_exp_eq_0_iff_not_bit [of w n] by (simp add: push_bit_eq_mult)

lemma and_bit: "w AND push_bit n 1 = (if bit w n then push_bit n 1 else 0)" for w :: u8
  by (rule bit_word_eqI) (auto simp: bit_simps bit_1_iff)

lemma drop_bit_and_1: "drop_bit n w AND 1 = (if bit w n then 1 else 0)" for w :: u8
  by (simp add: bit_iff_and_drop_bit_eq_1 and_one_eq)

lemma basic_replies:
  "sheet_drive sh c (spi_nibbles [0x05]) = spi_line 8 (nc_status c)"
  "sheet_drive sh c (spi_nibbles [0x70]) = spi_line 8 (nc_flag_status c)"
  "sheet_ok sh \<Longrightarrow> sheet_drive sh c (spi_nibbles [sheet_sr2_read sh]) = spi_line 8 (\<lambda>i. nc_sr2 c)"
  unfolding sheet_drive_def command_nibbles spi_byte_nibbles by (auto simp: Let_def sheet_ok_def basic_opcodes_def)

lemma status_deselect:
  "sheet_deselect sh c (spi_nibbles [0x05]) (8 + 8 * n) = c\<lparr>nc_busy := nc_busy c - n\<rparr>"
  "sheet_deselect sh c (spi_nibbles [0x70]) (8 + 8 * n) = c\<lparr>nc_busy := nc_busy c - n\<rparr>"
  unfolding sheet_deselect_def by (simp_all add: Let_def)

lemma ucast_ops [simp]: "(ucast (0x05 :: u32) :: u8) = 0x05" "(ucast (0x70 :: u32) :: u8) = 0x70" "(ucast (0x06 :: u32) :: u8) = 0x06"
  "(ucast (0x01 :: u32) :: u8) = 0x01" "(ucast (0x04 :: u32) :: u8) = 0x04" "(ucast (0xC7 :: u32) :: u8) = 0xC7" "(ucast (0x02 :: u32) :: u8) = 0x02"
  "(ucast (0x32 :: u32) :: u8) = 0x32" "(ucast (0x38 :: u32) :: u8) = 0x38" "(ucast (0xEB :: u32) :: u8) = 0xEB" "(ucast (0x5A :: u32) :: u8) = 0x5A"
  by simp_all

lemma read_register_chip:
  assumes "sheet_drive sh c (spi_nibbles [op]) = spi_line 8 f" and "8 + 8 * n < 65536"
  shows "qspi_flash_read_register (sheet_chip sh) (QSPI_IO_BYTE_TO_MOSI (ucast op)) n c
    = (map f [0 ..< n], sheet_deselect sh c (spi_nibbles [op]) (8 + 8 * n))"
proof -
  have "qspi_io_miso_in qspi_io_transfer_normal (chip_lines (sheet_chip sh) c (spi_nibbles [op]) (8 + 8 * n)) (8 + 7) n = map f [0 ..< n]"
    by (rule spi_line_in) (simp add: chip_lines_selected assms(1))
  then show ?thesis using assms(2) unfolding qspi_flash_read_register_def start_command Let_def by simp
qed

lemma read_status:
  "8 + 8 * n < 65536 \<Longrightarrow> qspi_flash_read_status_register (sheet_chip sh) n c = (map (nc_status c) [0 ..< n], c\<lparr>nc_busy := nc_busy c - n\<rparr>)"
  using read_register_chip [of sh c "0x05" "nc_status c" n]
  by (simp add: qspi_flash_read_status_register_def READ_STATUS_REG_COMMAND_def basic_replies status_deselect)

lemma write_in_progress_chip:
  assumes "ctx_fits sh ctx"
  shows "qspi_flash_write_in_progress (sheet_chip sh) ctx c = (0 < nc_busy c, c\<lparr>nc_busy := nc_busy c - 1\<rparr>)"
proof -
  have flag: "bit (nc_flag_status c 0) 7 \<longleftrightarrow> nc_busy c = 0" by (simp add: nc_flag_status_def bit_u8_consts)
  from assms consider "fx_busy_poll_cmd ctx = QSPI_IO_BYTE_TO_MOSI 0x05" "fx_busy_poll_bit ctx = 0" "fx_busy_poll_ready_value ctx = 0"
    | "fx_busy_poll_cmd ctx = QSPI_IO_BYTE_TO_MOSI 0x70" "fx_busy_poll_bit ctx = 7" "fx_busy_poll_ready_value ctx = 1"
    by (auto simp: ctx_fits_def)
  then show ?thesis
  proof cases
    case 1
    have "qspi_flash_read_register (sheet_chip sh) (QSPI_IO_BYTE_TO_MOSI 0x05) 1 c = ([nc_status c 0], c\<lparr>nc_busy := nc_busy c - 1\<rparr>)"
      using read_status [of 1 sh c] by (simp add: qspi_flash_read_status_register_def READ_STATUS_REG_COMMAND_def)
    then show ?thesis unfolding qspi_flash_write_in_progress_def drop_bit_and_1 using 1 by (simp add: nc_status_bit drop_bit_and_1 del: drop_bit_0)
  next
    case 2
    have "qspi_flash_read_register (sheet_chip sh) (QSPI_IO_BYTE_TO_MOSI 0x70) 1 c = ([nc_flag_status c 0], c\<lparr>nc_busy := nc_busy c - 1\<rparr>)"
      using read_register_chip [of sh c "0x70" "nc_flag_status c" 1] status_deselect(2) [of sh c 1] by (simp add: basic_replies)
    then show ?thesis unfolding qspi_flash_write_in_progress_def using 2 flag by (simp add: drop_bit_and_1)
  qed
qed

lemma while_busy_chip:
  assumes "ctx_fits sh ctx"
  shows "while_busy (sheet_chip sh) ctx c = Some (c\<lparr>nc_busy := 0\<rparr>)"
proof (induction "nc_busy c" arbitrary: c)
  case 0
  then show ?case by (subst while_busy.simps) (simp add: write_in_progress_chip [OF assms])
next
  case (Suc n)
  then have "while_busy (sheet_chip sh) ctx (c\<lparr>nc_busy := nc_busy c - 1\<rparr>) = Some (c\<lparr>nc_busy := 0\<rparr>)"
    using Suc.hyps(1) [of "c\<lparr>nc_busy := nc_busy c - 1\<rparr>"] by simp
  then show ?case using Suc.hyps(2) by (subst while_busy.simps) (simp add: write_in_progress_chip [OF assms])
qed

lemma poll_busy_chip:
  assumes "ctx_fits sh ctx"
  shows "qspi_flash_wait_while_write_in_progress (sheet_chip sh) ctx c = Some (c\<lparr>nc_busy := 0\<rparr>)"
proof -
  have lines: "miso_window (chip_lines (sheet_chip sh) c out (24 + 8 * i)) (8 + 8 * i) 8 = byte_bits (f i)"
    if "sheet_drive sh c out = spi_line 8 f" for out f i
  proof -
    have "miso_window (chip_lines (sheet_chip sh) c out (24 + 8 * i)) (8 + 8 * i) 8 = miso_window (spi_line 8 f) (8 + 8 * i) 8"
      by (rule miso_window_cong) (simp add: chip_lines_selected that)
    then show ?thesis using spi_line_bits [of 8 f i 1] by simp
  qed
  from assms consider "fx_busy_poll_cmd ctx = QSPI_IO_BYTE_TO_MOSI 0x05" "fx_busy_poll_bit ctx = 0" "fx_busy_poll_ready_value ctx = 0"
    | "fx_busy_poll_cmd ctx = QSPI_IO_BYTE_TO_MOSI 0x70" "fx_busy_poll_bit ctx = 7" "fx_busy_poll_ready_value ctx = 1"
    by (auto simp: ctx_fits_def)
  then show ?thesis
  proof cases
    case 1
    have "qspi_io_miso_poll (\<lambda>n. chip_lines (sheet_chip sh) c (spi_nibbles [0x05]) (24 + 8 * n)) (push_bit 0 1) 0 (8 + 7) 0 = Some (nc_busy c)"
      by (rule miso_poll_first [of _ _ _ "nc_status c"]) (simp_all only: lines [OF basic_replies(1)] and_bit_0 nc_status_bit, simp_all)
    then show ?thesis
      using 1 status_deselect(1) [of sh c "2 + nc_busy c"]
      unfolding qspi_flash_wait_while_write_in_progress_def qspi_flash_poll_register_def by (simp add: start_command basic_replies)
  next
    case 2
    have "nc_flag_status c i AND push_bit 7 1 = (if i < nc_busy c then 0 else push_bit 7 1)" for i
      unfolding and_bit by (simp add: nc_flag_status_def bit_u8_consts)
    then have "qspi_io_miso_poll (\<lambda>n. chip_lines (sheet_chip sh) c (spi_nibbles [0x70]) (24 + 8 * n)) (push_bit 7 1) (push_bit 7 1) (8 + 7) 0 = Some (nc_busy c)"
      by (intro miso_poll_first [of _ _ _ "nc_flag_status c"]) (simp_all only: lines [OF basic_replies(2)], simp_all)
    then show ?thesis
      using 2 status_deselect(2) [of sh c "2 + nc_busy c"]
      unfolding qspi_flash_wait_while_write_in_progress_def qspi_flash_poll_register_def by (simp add: start_command basic_replies)
  qed
qed

text \<open>A chip that is busy has no write enabled.\<close>

definition nc_ok :: "nor_chip \<Rightarrow> bool" where
  "nc_ok c \<longleftrightarrow> (0 < nc_busy c \<longrightarrow> \<not> snd (nc_nor c))"

lemma enable_deselect:
  assumes "sheet_ok sh"
  shows "sheet_deselect sh c (spi_nibbles [0x06]) 8
    = (if 0 < nc_busy c then c else c\<lparr>nc_nor := (fst (nc_nor c), True), nc_busy := 0\<rparr>)"
  using assms unfolding sheet_deselect_def
  by (cases "nc_nor c") (auto simp: Let_def sheet_ok_def basic_opcodes_def decode_cmd_def nc_command_def)

lemma write_enable_chip:
  assumes sh: "sheet_ok sh"
  shows "nc_ok c \<Longrightarrow> qspi_flash_write_enable (sheet_chip sh) c = Some (c\<lparr>nc_nor := (fst (nc_nor c), True), nc_busy := 0\<rparr>)"
proof (induction "nc_busy c" arbitrary: c)
  case 0
  then have "sheet_deselect sh c (spi_nibbles [0x06]) 8 = c\<lparr>nc_nor := (fst (nc_nor c), True), nc_busy := 0\<rparr>"
    using enable_deselect [OF sh] by simp
  moreover have "nc_status (c\<lparr>nc_nor := (fst (nc_nor c), True), nc_busy := 0\<rparr>) 0 AND 2 \<noteq> 0"
    using and_bit_0 [of _ 1] by (simp add: nc_status_bit numeral_2_eq_2)
  ultimately show ?case
    by (subst qspi_flash_write_enable.simps) (simp add: opcodes read_status QSPI_FLASH_STATUS_REG_WEL_BM_def)
next
  case (Suc n)
  have wel: "\<not> snd (nc_nor c)" using Suc.hyps(2) Suc.prems by (simp add: nc_ok_def)
  have "nc_ok (c\<lparr>nc_busy := nc_busy c - 1\<rparr>)" using wel by (simp add: nc_ok_def)
  then have "qspi_flash_write_enable (sheet_chip sh) (c\<lparr>nc_busy := nc_busy c - 1\<rparr>) = Some (c\<lparr>nc_nor := (fst (nc_nor c), True), nc_busy := 0\<rparr>)"
    using Suc.hyps(1) [of "c\<lparr>nc_busy := nc_busy c - 1\<rparr>"] Suc.hyps(2) by simp
  moreover have "nc_status c 0 AND 2 = 0"
    using and_bit_0 [of _ 1] wel by (simp add: nc_status_bit numeral_2_eq_2)
  moreover have "sheet_deselect sh c (spi_nibbles [0x06]) 8 = c" using enable_deselect [OF sh] Suc.hyps(2) by simp
  ultimately show ?case
    by (subst qspi_flash_write_enable.simps) (simp add: opcodes read_status QSPI_FLASH_STATUS_REG_WEL_BM_def)
qed

text \<open>A command that is not busy and whose opcode is none of the register instructions.\<close>

lemma command_deselect:
  assumes "sheet_ok sh" and "nc_busy c = 0" and "decode_cmd sh (spi_nibbles [op] @ ns) = Some cmd"
    and "op \<notin> {0x01, 0x04, 0x05, 0x0B, 0x5A, 0x70, 0xEB}" "op \<noteq> sheet_sr2_read sh" "op \<noteq> sheet_sr2_write sh"
    and "cycles = 8 + length ns"
  shows "sheet_deselect sh c (spi_nibbles [op] @ ns) cycles = nc_command sh cmd c"
proof -
  have all: "take cycles (spi_nibbles [op] @ ns) = spi_nibbles [op] @ ns" using assms(7) by simp
  show ?thesis unfolding sheet_deselect_def all command_nibbles spi_byte_nibbles using assms by (simp add: Let_def)
qed

text \<open>Whether the page program instruction takes its data from a pointer on a 4-byte boundary.\<close>

definition data_aligned :: "qspi_flash_ctx \<Rightarrow> nat \<Rightarrow> bool" where
  "data_aligned ctx p \<longleftrightarrow> fx_quad_page_program_cmd ctx = qspi_flash_page_program_1_1_1 \<or> p mod 4 = 0"

lemma write_chip:
  assumes sh: "sheet_ok sh" and idle: "nc_busy c = 0" and data: "4 * ((len + 3) div 4) \<le> length data"
    and aligned: "data_aligned ctx p" and short: "32 + 8 * len < 65536"
  shows "qspi_flash_write_i (sheet_chip sh) ctx m p data a len c
    = Inr (nc_command sh (Page_Program (a AND mask 24) (map (as_sent m) (take len data))) c)"
proof -
  have len: "len \<le> length data" using data by linarith
  have out: "qspi_io_bytes_out m p data len = Inr (quad_nibbles (map (as_sent m) (take len data)))" if "p mod 4 = 0"
    using that by (simp add: qspi_io_bytes_out_def bytes_out_lines [OF data])
  have ops: "op \<in> {0x02, 0x32, 0x38} \<Longrightarrow> op \<notin> {0x01, 0x04, 0x05, 0x0B, 0x5A, 0x70, 0xEB} \<and> op \<noteq> sheet_sr2_read sh \<and> op \<noteq> sheet_sr2_write sh" for op
    using sh by (auto simp: sheet_ok_def basic_opcodes_def)
  let ?cmd = "Page_Program (a AND mask 24) (map (as_sent m) (take len data))"
  show ?thesis
  proof (cases "fx_quad_page_program_cmd ctx")
    case qspi_flash_page_program_1_1_1
    have "decode_cmd sh (spi_nibbles [0x02] @ spi_nibbles (address_out a) @ spi_nibbles (map (as_sent m) (take len data))) = Some ?cmd"
      unfolding decode_cmd_def command_nibbles addressed by (simp add: Let_def)
    from command_deselect [OF sh idle this] show ?thesis
      using qspi_flash_page_program_1_1_1 ops [of 2] len short
      by (simp add: qspi_flash_write_i_def opcodes address_lines mosi_out_lines Let_def)
  next
    case qspi_flash_page_program_1_1_4
    have "decode_cmd sh (spi_nibbles [0x32] @ spi_nibbles (address_out a) @ quad_nibbles (map (as_sent m) (take len data))) = Some ?cmd"
      unfolding decode_cmd_def command_nibbles addressed by (simp add: Let_def)
    from command_deselect [OF sh idle this] show ?thesis
      using qspi_flash_page_program_1_1_4 ops [of "0x32"] len short aligned
      by (simp add: qspi_flash_write_i_def opcodes address_lines out data_aligned_def Let_def)
  next
    case qspi_flash_page_program_1_4_4
    have "decode_cmd sh (spi_nibbles [0x38] @ quad_nibbles (address_out a) @ quad_nibbles (map (as_sent m) (take len data))) = Some ?cmd"
      unfolding decode_cmd_def command_nibbles addressed by (simp add: Let_def)
    from command_deselect [OF sh idle this] show ?thesis
      using qspi_flash_page_program_1_4_4 ops [of "0x38"] len short aligned
      by (simp add: qspi_flash_write_i_def opcodes address_lines out data_aligned_def Let_def)
  qed
qed

lemma erase_chip_sector:
  assumes sh: "sheet_ok sh" and fits: "ctx_fits sh ctx" and idle: "nc_busy c = 0" and i: "i < 4" "0 < fst (fx_erase_info ctx ! i)"
  shows "qspi_flash_erase (sheet_chip sh) ctx a i c = Inr (nc_command sh (Erase_Sector (a AND mask 24) (unat (fst (fx_erase_info ctx ! i)))) c)"
proof -
  obtain l cmd where lc: "fx_erase_info ctx ! i = (l, cmd)" by force
  have "(l, cmd) \<in> set (fx_erase_info ctx)" using fits i(1) lc by (metis ctx_fits_def nth_mem)
  then obtain op where op: "cmd = QSPI_IO_BYTE_TO_MOSI (ucast op)" "sheet_erase sh op = Some (unat l)" "op \<notin> set basic_opcodes"
    "op \<noteq> sheet_sr2_read sh" "op \<noteq> sheet_sr2_write sh"
    using fits i(2) lc unfolding ctx_fits_def by fastforce
  have "decode_cmd sh (spi_nibbles [op] @ spi_nibbles (address_out a)) = Some (Erase_Sector (a AND mask 24) (unat l))"
    unfolding decode_cmd_def command_nibbles addressed using op by (simp add: Let_def basic_opcodes_def)
  from command_deselect [OF sh idle this] show ?thesis
    using lc i op by (simp add: qspi_flash_erase_def qspi_flash_erase_chip_def start_command address_lines basic_opcodes_def Let_def)
qed

lemma erase_chip_all:
  assumes sh: "sheet_ok sh" and idle: "nc_busy c = 0"
  shows "qspi_flash_erase (sheet_chip sh) ctx a qspi_flash_erase_chip c = Inr (nc_command sh Erase_Chip c)"
proof -
  have "decode_cmd sh (spi_nibbles [0xC7] @ []) = Some Erase_Chip"
    unfolding decode_cmd_def command_nibbles by (simp add: Let_def)
  from command_deselect [OF sh idle this] show ?thesis
    using sh by (simp add: qspi_flash_erase_def opcodes sheet_ok_def basic_opcodes_def)
qed

section \<open>Reading\<close>

lemma word_out_lines:
  "qspi_io_words_out qspi_io_transfer_normal [w] = quad_nibbles (rev (le32 w))"
proof -
  have "quad_nibbles (rev (le32 w)) = rev (concat (map (\<lambda>b. [lo_nib b, hi_nib b]) (le32 w)))" by (simp add: le32_def)
  also have "concat (map (\<lambda>b. [lo_nib b, hi_nib b]) (le32 w)) = port_nibbles w"
    by (simp add: le32_nibs port_nibbles_def upt8)
  finally show ?thesis by (simp add: words_out_lines)
qed

lemma rotated_address: "rev (le32 (push_bit 8 a OR drop_bit 24 a)) = address_out a @ [ucast (drop_bit 24 a)]"
proof -
  have "address_out a = [ucast (drop_bit 16 a), ucast (drop_bit 8 a), ucast a]"
    by (simp add: address_out_def address_word_def le32_byterev) (auto simp: le32_def bit_simps intro!: bit_word_eqI)
  moreover have "bit a n \<Longrightarrow> n < 32" for n by (drule bit_imp_le_length) simp
  ultimately show ?thesis by (auto simp: le32_def bit_simps intro!: bit_word_eqI)
qed

lemma read_chip:
  assumes "p mod 4 = 0" and short: "20 + 2 * n < 65536"
  shows "qspi_flash_read_i (sheet_chip sh) m False p a n c
    = Inr (map (\<lambda>i. as_sent m (fst (nc_nor c) (unat (a AND mask 24) + i))) [0 ..< n], c)"
proof -
  let ?out = "spi_nibbles [0xEB] @ quad_nibbles (address_out a @ [ucast (drop_bit 24 a)])"
  let ?f = "\<lambda>i. fst (nc_nor c) (unat (a AND mask 24) + i)"
  have calc: "qspi_flash_read_calc False a n = (push_bit 8 a OR drop_bit 24 a, 20 + 2 * n, 20 + 2 * min 4 n - 1)"
    by (simp add: qspi_flash_read_calc_def QUAD_IO_READ_DUMMY_CYCLES_def min_def Let_def)
  have out: "qspi_io_start_word QUAD_IO_READ_COMMAND @ qspi_io_words_out qspi_io_transfer_normal [push_bit 8 a OR drop_bit 24 a] = ?out"
    unfolding word_out_lines rotated_address by (simp add: opcodes)
  have addr: "take 6 (quad_nibbles (address_out a @ [ucast (drop_bit 24 a)])) = quad_nibbles (address_out a)" by simp
  have drive: "sheet_drive sh c ?out = quad_line 20 ?f"
    unfolding sheet_drive_def command_nibbles addr by (simp add: Let_def)
  have "quad_in m (chip_lines (sheet_chip sh) c ?out (20 + 2 * n)) (20 + 2 * min 4 n - 1) n = map (\<lambda>i. as_sent m (?f i)) [0 ..< n]"
    by (rule quad_line_in) (simp only: chip_lines_selected drive)
  moreover have "sheet_deselect sh c ?out (20 + 2 * n) = c"
  proof -
    have all: "take (20 + 2 * n) ?out = ?out" by simp
    show ?thesis unfolding sheet_deselect_def all command_nibbles by (simp add: Let_def)
  qed
  ultimately show ?thesis
    unfolding qspi_flash_read_i_def calc qspi_io_bytes_in_def Let_def
    by (simp only: assms(1) c_aligned_mod rbind.simps if_False split sheet_chip_sel out cs_release_small [OF short])
qed

lemma fast_read_chip:
  assumes "op = (0x0B :: u8) \<or> op = 0x5A" and short: "40 + 8 * n < 65536"
  shows "qspi_flash_fast_read_i (sheet_chip sh) (QSPI_IO_BYTE_TO_MOSI (ucast op)) a n c
    = (map (\<lambda>i. (if op = 0x0B then fst (nc_nor c) else sheet_sfdp sh) (unat (a AND mask 24) + i)) [0 ..< n], c)"
proof -
  let ?out = "spi_nibbles [op] @ spi_nibbles (address_out a)"
  let ?f = "\<lambda>i. (if op = 0x0B then fst (nc_nor c) else sheet_sfdp sh) (unat (a AND mask 24) + i)"
  have drive: "sheet_drive sh c ?out = spi_line 40 ?f"
    unfolding sheet_drive_def command_nibbles addressed using assms by (auto simp: Let_def)
  have "qspi_io_miso_in qspi_io_transfer_normal (chip_lines (sheet_chip sh) c ?out (40 + 8 * n)) (40 + 7) n = map ?f [0 ..< n]"
    by (rule spi_line_in) (simp only: chip_lines_selected drive)
  moreover have "sheet_deselect sh c ?out (40 + 8 * n) = c"
  proof -
    have all: "take (40 + 8 * n) ?out = ?out" by simp
    show ?thesis unfolding sheet_deselect_def all command_nibbles using assms by (auto simp: Let_def)
  qed
  ultimately show ?thesis using short
    unfolding qspi_flash_fast_read_i_def FAST_READ_DUMMY_CYCLES_def Let_def start_command ucast_up_down address_lines
    by simp
qed

lemma sfdp_read_chip:
  "40 + 8 * n < 65536 \<Longrightarrow> qspi_flash_sfdp_read (sheet_chip sh) a n c = (map (\<lambda>i. sheet_sfdp sh (unat (a AND mask 24) + i)) [0 ..< n], c)"
  using fast_read_chip [of "0x5A" n sh a c] by (simp add: qspi_flash_sfdp_read_def SFDP_READ_INSTRUCTION_def)

text \<open>
  \<open>qspi_flash_fast_read\<close> converts its opcode twice. What it sends is 0xFF instead of 0x0B, and the
  data it returns has nothing to do with the contents of the flash.
\<close>

lemma fast_read_opcode: "qspi_io_start_word (QSPI_IO_BYTE_TO_MOSI FAST_READ_COMMAND) = spi_nibbles [0xFF]"
  by code_simp

lemma fast_read_reads_nothing:
  assumes "sheet_sr2_read sh \<noteq> 0xFF" and short: "40 + 8 * n < 65536"
  shows "fst (qspi_flash_fast_read (sheet_chip sh) a n c) = replicate n 0xFF"
proof -
  let ?out = "spi_nibbles [0xFF] @ spi_nibbles (address_out a)"
  have drive: "sheet_drive sh c ?out = (\<lambda>t. 0xF)"
    unfolding sheet_drive_def command_nibbles addressed using assms by (auto simp: Let_def)
  have "qspi_io_miso_in qspi_io_transfer_normal (chip_lines (sheet_chip sh) c ?out (40 + 8 * n)) (40 + 7) n
      = qspi_io_miso_in qspi_io_transfer_normal (\<lambda>t. 0xF) (40 + 7) n"
    by (rule miso_in_cong) (simp only: chip_lines_selected drive)
  also have "\<dots> = map (\<lambda>i. 0xFF) [0 ..< n]"
  proof -
    have "miso_window (\<lambda>t. 0xF) 40 (8 * n) = replicate (8 * n) True"
      by (simp add: miso_window_def bit_numeral_rec map_replicate_const)
    also have "\<dots> = concat (map byte_bits (map (\<lambda>i. 0xFF) [0 ..< n]))"
    proof (induction n)
      case (Suc n)
      have "byte_bits 0xFF = replicate 8 True" by code_simp
      moreover have "replicate (8 * Suc n) True = replicate (8 * n) True @ replicate 8 True" by (simp add: replicate_add [symmetric])
      ultimately show ?case using Suc by simp
    qed simp
    finally show ?thesis using miso_in_lines [of "\<lambda>t. 0xF" 40 "map (\<lambda>i. 0xFF) [0 ..< n]" qspi_io_transfer_normal] by simp
  qed
  finally show ?thesis using short
    unfolding qspi_flash_fast_read_def qspi_flash_fast_read_i_def FAST_READ_DUMMY_CYCLES_def Let_def fast_read_opcode address_lines
    by (simp add: map_replicate_const)
qed

text \<open>
  The driver reads at most 24 kilobytes at a time. With that, the number of cycles fits the 16 bits of a port's time.
\<close>

lemma chunk_cycles: "n \<le> unat RTOS_QSPI_FLASH_READ_CHUNK_SIZE \<Longrightarrow> 20 + 2 * n < 65536"
  by (simp add: RTOS_QSPI_FLASH_READ_CHUNK_SIZE_def)

section \<open>The driver's commands on the chip\<close>

text \<open>
  The calls that \<open>write_op\<close> and \<open>erase_op\<close> of Qspi_Flash make for a command of theirs. \<open>p\<close> is the pointer into the data of
  the request, which a page program moves on by the bytes it writes. Behind the data lies memory of the caller, of which up to
  three bytes are read.
\<close>

definition erase_index :: "qspi_flash_ctx \<Rightarrow> nat \<Rightarrow> nat" where
  "erase_index ctx l = length (takeWhile (\<lambda>(k, _). unat k \<noteq> l) (fx_erase_info ctx))"

definition then_wait :: "'s qspi_chip \<Rightarrow> qspi_flash_ctx \<Rightarrow> 's res \<Rightarrow> 's res option" where
  "then_wait C ctx r = (case r of Inl e \<Rightarrow> Some (Inl e) | Inr s \<Rightarrow> map_option Inr (while_busy C ctx s))"

definition hil_cmd :: "'s qspi_chip \<Rightarrow> qspi_flash_ctx \<Rightarrow> nat \<Rightarrow> u8 list \<Rightarrow> flash_cmd \<Rightarrow> 's \<Rightarrow> 's res option" where
  "hil_cmd C ctx p behind cmd s =
     (case cmd of
        Write_Enable \<Rightarrow> map_option Inr (qspi_flash_write_enable C s)
      | Page_Program a bs \<Rightarrow> then_wait C ctx (qspi_flash_write C ctx p (bs @ behind) a (length bs) s)
      | Erase_Sector a l \<Rightarrow> then_wait C ctx (qspi_flash_erase C ctx a (erase_index ctx l) s)
      | Erase_Chip \<Rightarrow> then_wait C ctx (qspi_flash_erase C ctx 0 qspi_flash_erase_chip s))"

definition moved_on :: "flash_cmd \<Rightarrow> nat \<Rightarrow> nat" where
  "moved_on cmd p = (case cmd of Page_Program a bs \<Rightarrow> p + length bs | _ \<Rightarrow> p)"

fun hil_cmds :: "'s qspi_chip \<Rightarrow> qspi_flash_ctx \<Rightarrow> nat \<Rightarrow> u8 list \<Rightarrow> flash_cmd list \<Rightarrow> 's \<Rightarrow> 's res option" where
  "hil_cmds C ctx p behind [] s = Some (Inr s)"
| "hil_cmds C ctx p behind (cmd # cmds) s =
     (case hil_cmd C ctx p behind cmd s of
        None \<Rightarrow> None | Some (Inl e) \<Rightarrow> Some (Inl e) | Some (Inr s) \<Rightarrow> hil_cmds C ctx (moved_on cmd p) behind cmds s)"

text \<open>
  A command that the chip understands: its address has three bytes, its page is short enough for a port's time, its data are on a
  4-byte boundary.
\<close>

fun cmd_ok :: "qspi_flash_ctx \<Rightarrow> nat \<Rightarrow> flash_cmd \<Rightarrow> bool" where
  "cmd_ok ctx p (Page_Program a bs) \<longleftrightarrow> unat a < 2 ^ 24 \<and> 32 + 8 * length bs < 65536 \<and> data_aligned ctx p"
| "cmd_ok ctx p (Erase_Sector a l) \<longleftrightarrow> unat a < 2 ^ 24 \<and> 0 < l \<and> l \<in> (unat \<circ> fst) ` set (fx_erase_info ctx)"
| "cmd_ok ctx p c \<longleftrightarrow> True"

fun cmds_ok :: "qspi_flash_ctx \<Rightarrow> nat \<Rightarrow> flash_cmd list \<Rightarrow> bool" where
  "cmds_ok ctx p [] \<longleftrightarrow> True"
| "cmds_ok ctx p (cmd # cmds) \<longleftrightarrow> cmd_ok ctx p cmd \<and> cmds_ok ctx (moved_on cmd p) cmds"

lemma moved_on_simps [simp]:
  "moved_on (Page_Program a bs) p = p + length bs" "moved_on Write_Enable p = p" "moved_on (Erase_Sector a l) p = p" "moved_on Erase_Chip p = p"
  by (simp_all add: moved_on_def)

lemma then_wait_simps [simp]: "then_wait C ctx (Inl e) = Some (Inl e)" "then_wait C ctx (Inr s) = map_option Inr (while_busy C ctx s)"
  by (simp_all add: then_wait_def)

lemma address_fits: "unat (a :: u32) < 2 ^ 24 \<Longrightarrow> a AND mask 24 = a"
proof -
  assume "unat a < 2 ^ 24"
  then have "take_bit 24 (unat a) = unat a" by (simp add: take_bit_nat_eq_self)
  then have "take_bit 24 a = a" by (metis unsigned_take_bit_eq word_unat_eq_iff)
  then show ?thesis by (simp add: take_bit_eq_mask)
qed

lemma erase_index_entry:
  assumes "l \<in> (unat \<circ> fst) ` set (fx_erase_info ctx)" and "length (fx_erase_info ctx) = 4"
  shows "erase_index ctx l < 4" "unat (fst (fx_erase_info ctx ! erase_index ctx l)) = l"
proof -
  have ex: "\<exists>x \<in> set (fx_erase_info ctx). \<not> (\<lambda>(k, _). unat k \<noteq> l) x" using assms(1) by auto
  have "length (takeWhile (\<lambda>(k, _). unat k \<noteq> l) (fx_erase_info ctx)) < length (fx_erase_info ctx)"
    using ex by (metis length_takeWhile_le le_neq_implies_less set_takeWhileD takeWhile_eq_take take_all order_refl)
  then show "erase_index ctx l < 4" by (simp add: erase_index_def assms(2))
  have "\<not> (\<lambda>(k, _). unat k \<noteq> l) (fx_erase_info ctx ! erase_index ctx l)"
    unfolding erase_index_def by (rule nth_length_takeWhile) fact
  then show "unat (fst (fx_erase_info ctx ! erase_index ctx l)) = l" by (simp add: case_prod_beta)
qed

lemma hil_cmd_chip:
  assumes sh: "sheet_ok sh" and fits: "ctx_fits sh ctx" and idle: "nc_busy c = 0" and ok: "cmd_ok ctx p cmd" and behind: "3 \<le> length behind"
  shows "hil_cmd (sheet_chip sh) ctx p behind cmd c = Some (Inr (c\<lparr>nc_nor := nor_step (sheet_page sh) cmd (nc_nor c), nc_busy := 0\<rparr>))"
proof (cases cmd)
  case Write_Enable
  then show ?thesis using write_enable_chip [OF sh, of c] idle by (cases "nc_nor c") (simp add: hil_cmd_def nc_ok_def)
next
  case (Page_Program a bs)
  have "4 * ((length bs + 3) div 4) \<le> length (bs @ behind)" using behind by simp
  from write_chip [OF sh idle this, of ctx p] show ?thesis
    using Page_Program ok by (simp add: hil_cmd_def qspi_flash_write_def address_fits while_busy_chip [OF fits] nc_command_def)
next
  case (Erase_Sector a l)
  have len: "length (fx_erase_info ctx) = 4" using fits by (simp add: ctx_fits_def)
  have l: "l \<in> (unat \<circ> fst) ` set (fx_erase_info ctx)" "0 < l" "unat a < 2 ^ 24" using ok Erase_Sector by simp_all
  note i = erase_index_entry [OF l(1) len]
  have "0 < fst (fx_erase_info ctx ! erase_index ctx l)" using i(2) l(2) by (simp add: word_less_nat_alt)
  from erase_chip_sector [OF sh fits idle i(1) this] show ?thesis
    using Erase_Sector i(2) l(3) by (simp add: hil_cmd_def address_fits while_busy_chip [OF fits] nc_command_def)
next
  case Erase_Chip
  then show ?thesis using erase_chip_all [OF sh idle, of ctx 0] by (simp add: hil_cmd_def while_busy_chip [OF fits] nc_command_def)
qed

lemma hil_cmds_chip:
  assumes sh: "sheet_ok sh" and fits: "ctx_fits sh ctx" and behind: "3 \<le> length behind"
  shows "nc_busy c = 0 \<Longrightarrow> cmds_ok ctx p cmds \<Longrightarrow>
    hil_cmds (sheet_chip sh) ctx p behind cmds c = Some (Inr (c\<lparr>nc_nor := nor_exec (sheet_page sh) cmds (nc_nor c), nc_busy := 0\<rparr>))"
proof (induction cmds arbitrary: c p)
  case (Cons cmd cmds)
  have "hil_cmd (sheet_chip sh) ctx p behind cmd c = Some (Inr (c\<lparr>nc_nor := nor_step (sheet_page sh) cmd (nc_nor c), nc_busy := 0\<rparr>))"
    using hil_cmd_chip [OF sh fits Cons.prems(1) _ behind] Cons.prems(2) by simp
  then show ?case using Cons.IH Cons.prems(2) by simp
qed simp






section \<open>The quad enable bit\<close>

text \<open>How the context may describe the place of the bit: nowhere, in the first register, or in the second with an instruction to read it.\<close>

definition qe_fits :: "sheet \<Rightarrow> qspi_flash_ctx \<Rightarrow> bool" where
  "qe_fits sh ctx \<longleftrightarrow> fx_qe_reg ctx = 0
     \<or> fx_qe_reg ctx = 1 \<and> 2 \<le> fx_qe_bit ctx \<and> fx_qe_bit ctx \<le> 7
     \<or> fx_qe_reg ctx = 2 \<and> fx_qe_bit ctx \<le> 7
       \<and> fx_sr2_read_cmd ctx = QSPI_IO_BYTE_TO_MOSI (ucast (sheet_sr2_read sh)) \<and> fx_sr2_read_cmd ctx \<noteq> QSPI_IO_BYTE_TO_MOSI 0
       \<and> (fx_sr2_write_cmd ctx = QSPI_IO_BYTE_TO_MOSI 0 \<or> fx_sr2_write_cmd ctx = QSPI_IO_BYTE_TO_MOSI (ucast (sheet_sr2_write sh)))
       \<and> sheet_sr2_read sh \<noteq> sheet_sr2_write sh"

definition with_bit :: "u8 \<Rightarrow> bool \<Rightarrow> u8 \<Rightarrow> u8" where
  "with_bit b e w = (if e then w OR push_bit (unat b) 1 else w AND NOT (push_bit (unat b) 1))"



lemma write_status_2:
  "nc_busy c = 0 \<Longrightarrow> qspi_flash_write_status_register (sheet_chip sh) [v, w] c
    = nc_write_status sh (nc_sr2_update (\<lambda>_. w) \<circ> nc_sr1_update (\<lambda>_. v AND 0xFC)) c"
proof -
  assume idle: "nc_busy c = 0"
  have all: "take 24 (spi_nibbles [0x01] @ spi_nibbles [v, w]) = spi_nibbles [0x01] @ spi_nibbles [v, w]" by simp
  have "sheet_deselect sh c (spi_nibbles [0x01] @ spi_nibbles [v, w]) 24
      = nc_write_status sh (nc_sr2_update (\<lambda>_. w) \<circ> nc_sr1_update (\<lambda>_. v AND 0xFC)) c"
    unfolding sheet_deselect_def all command_nibbles spi_byte_nibbles spi_bytes_nibbles using idle by (simp add: Let_def)
  then show ?thesis
    unfolding qspi_flash_write_status_register_def qspi_flash_write_register_def by (simp add: opcodes mosi_out_lines)
qed




lemma idle_busy [simp]: "nc_busy c = 0 \<Longrightarrow> c\<lparr>nc_busy := 0\<rparr> = c"
  by (cases c) simp


lemma quad_enable_unfold:
  assumes "fx_qe_reg ctx = 1 \<or> fx_qe_reg ctx = 2" and "fx_qe_bit ctx \<le> 7"
  shows "qspi_flash_quad_enable_write C ctx e s =
    (let i = unat (fx_qe_reg ctx) - 1;
         (status, s) = read_both C ctx s
     in if bit (status ! i) (unat (fx_qe_bit ctx)) \<noteq> e
        then let status = status[i := with_bit (fx_qe_bit ctx) e (status ! i)]
             in do { s \<leftarrow> qspi_flash_write_enable C s;
                     s \<leftarrow> Some (if fx_qe_reg ctx = 1 \<or> fx_sr2_write_cmd ctx = QSPI_IO_BYTE_TO_MOSI 0
                                then qspi_flash_write_status_register C (take (unat (fx_qe_reg ctx)) status) s
                                else qspi_flash_write_register C (fx_sr2_write_cmd ctx) [status ! 1] s);
                     s \<leftarrow> qspi_flash_wait_while_write_in_progress C ctx s;
                     let (status, s) = read_again C ctx s
                     in Some (Inr (bit (status ! i) (unat (fx_qe_bit ctx)) = e, s)) }
        else Some (Inr (True, s)))"
proof -
  have c: "fx_qe_reg ctx = 0 \<longleftrightarrow> False" "\<not> (fx_qe_reg ctx = 1 \<or> fx_qe_reg ctx = 2) \<or> \<not> fx_qe_bit ctx \<le> 7 \<longleftrightarrow> False"
    using assms by auto
  show ?thesis by (simp only: qspi_flash_quad_enable_write_def with_bit_def Let_def and_bit_0 not_not c if_False)
qed



section \<open>Initialisation\<close>

text \<open>The chip does what its own tables say.\<close>

definition sheet_table :: "sheet \<Rightarrow> sfdp_parameter_table" where
  "sheet_table sh =
     (let p = parse_parameter_header (drop 8 (map (sheet_sfdp sh) [0 ..< 16]))
      in parse_parameter_table (map (\<lambda>i. sheet_sfdp sh (unat (ph_table_address p) + i)) [0 ..< 64]))"

definition sfdp_describes :: "sheet \<Rightarrow> bool" where
  "sfdp_describes sh \<longleftrightarrow>
     list_all (\<lambda>e. ee_size e \<noteq> 0 \<longrightarrow> sheet_erase sh (ee_cmd e) = Some (unat (ee_size e)) \<and> ee_cmd e \<notin> set basic_opcodes
       \<and> ee_cmd e \<noteq> sheet_sr2_read sh \<and> ee_cmd e \<noteq> sheet_sr2_write sh) (erase_info (sheet_table sh))
     \<and> (case sfdp_quad_enable_method (sheet_table sh) of None \<Rightarrow> True
        | Some (reg, b, rd, wr) \<Rightarrow> (rd \<noteq> 0 \<longrightarrow> rd = sheet_sr2_read sh) \<and> (wr \<noteq> 0 \<longrightarrow> wr = sheet_sr2_write sh))"

lemma discover_chip:
  assumes "sfdp_discover (qspi_flash_sfdp_read (sheet_chip sh)) info c = (True, info', c')"
  shows "c' = c" "info_table info' = sfdp_erase_table_sort (sheet_table sh)"
proof -
  let ?rd = "qspi_flash_sfdp_read (sheet_chip sh)"
  let ?bs = "map (sheet_sfdp sh) [0 ..< 16]" and ?p = "parse_parameter_header (drop 8 (map (sheet_sfdp sh) [0 ..< 16]))"
  have rd: "?rd 0 16 c = (?bs, c)" by (simp add: sfdp_read_chip del: upt_Suc upt_rec_numeral)
  have "sfdp_supported_header (parse_sfdp_header ?bs) ?p"
  proof (rule ccontr)
    assume "\<not> sfdp_supported_header (parse_sfdp_header ?bs) ?p"
    then have "fst (sfdp_discover ?rd info c) = False"
      using rd by (simp add: sfdp_discover_def Let_def sizeof_sfdp_header_def sizeof_sfdp_parameter_header_def del: upt_Suc upt_rec_numeral)
    then show False using assms by simp
  qed
  note d = discover_supported [of ?rd, OF rd this]
  have "ph_table_address ?p AND mask 24 = ph_table_address ?p"
    unfolding parse_parameter_header_def bit_field_def by (simp add: and.assoc del: upt_Suc upt_rec_numeral)
  then have "?rd (ph_table_address ?p) 64 c = (map (\<lambda>i. sheet_sfdp sh (unat (ph_table_address ?p) + i)) [0 ..< 64], c)"
    by (simp only: sfdp_read_chip)
  then show "c' = c" "info_table info' = sfdp_erase_table_sort (sheet_table sh)"
    using assms unfolding d sheet_table_def Let_def by (auto simp del: upt_Suc upt_rec_numeral)
qed

definition unused_last :: "(u32 \<times> u32) list \<Rightarrow> bool" where
  "unused_last es \<longleftrightarrow> sorted (map (\<lambda>(l, _). if l = 0 then 256 else unat l) es)"

lemma init_sfdp_ok:
  assumes "init_from_sfdp t ctx = Inr ctx'"
  shows "fx_erase_info ctx' = map2 erase_entry_of (erase_info t) (fx_erase_info ctx)"
    "fx_page_size_bytes ctx' = sfdp_flash_page_size_bytes t" "fx_flash_size_kbytes ctx' = sfdp_flash_size_kbytes t" "sfdp_flash_size_kbytes t \<noteq> 0"
    "(fx_busy_poll_cmd ctx', fx_busy_poll_bit ctx', fx_busy_poll_ready_value ctx') \<in>
       {(QSPI_IO_BYTE_TO_MOSI 0x05, 0, 0), (QSPI_IO_BYTE_TO_MOSI 0x70, 7, 1)}"
    "\<exists>reg b rd wr. sfdp_quad_enable_method t = Some (reg, b, rd, wr) \<and> fx_qe_reg ctx' = reg \<and> fx_qe_bit ctx' = b
       \<and> fx_sr2_read_cmd ctx' = QSPI_IO_BYTE_TO_MOSI (ucast rd) \<and> fx_sr2_write_cmd ctx' = QSPI_IO_BYTE_TO_MOSI (ucast wr)"
proof -
  obtain ins b r where poll: "sfdp_busy_poll_method t = Some (ins, b, r)" "(ins, b, r) \<in> {(0x05, 0, 0), (0x70, 7, 1)}"
    using assms unfolding init_from_sfdp_def sfdp_busy_poll_method_def by (auto simp: Let_def res_simps split: if_splits option.splits)
  obtain reg qb rd wr where qe: "sfdp_quad_enable_method t = Some (reg, qb, rd, wr)"
    using assms unfolding init_from_sfdp_def by (auto simp: Let_def res_simps split: if_splits option.splits)
  have k: "sfdp_flash_size_kbytes t \<noteq> 0"
    using assms unfolding init_from_sfdp_def by (auto simp: Let_def res_simps split: if_splits option.splits)
  note facts = assms [unfolded init_from_sfdp_def Let_def poll(1) qe, simplified k, simplified]
  show "fx_erase_info ctx' = map2 erase_entry_of (erase_info t) (fx_erase_info ctx)"
    "fx_page_size_bytes ctx' = sfdp_flash_page_size_bytes t" "fx_flash_size_kbytes ctx' = sfdp_flash_size_kbytes t" "sfdp_flash_size_kbytes t \<noteq> 0"
    "(fx_busy_poll_cmd ctx', fx_busy_poll_bit ctx', fx_busy_poll_ready_value ctx') \<in>
       {(QSPI_IO_BYTE_TO_MOSI 0x05, 0, 0), (QSPI_IO_BYTE_TO_MOSI 0x70, 7, 1)}"
    "\<exists>reg b rd wr. sfdp_quad_enable_method t = Some (reg, b, rd, wr) \<and> fx_qe_reg ctx' = reg \<and> fx_qe_bit ctx' = b
       \<and> fx_sr2_read_cmd ctx' = QSPI_IO_BYTE_TO_MOSI (ucast rd) \<and> fx_sr2_write_cmd ctx' = QSPI_IO_BYTE_TO_MOSI (ucast wr)"
    using facts poll(2) qe k by (auto simp: res_simps split: if_splits)
qed

lemma entry_of_simps: "fst (erase_entry_of e old) = ucast (ee_size e)"
  "ee_size e \<noteq> 0 \<Longrightarrow> snd (erase_entry_of e old) = QSPI_IO_BYTE_TO_MOSI (ucast (ee_cmd e))"
  by (auto simp: erase_entry_of_def)

lemma ucast_u8_0: "(ucast (w :: u8) :: u32) = 0 \<longleftrightarrow> w = 0"
  by (metis ucast_up_down unsigned_0)

lemma unat_ucast_u8: "unat (ucast (w :: u8) :: u32) = unat w"
proof -
  have "unat w < 2 ^ 32" using unsigned_less [of w, where ?'a = nat] by simp
  then show ?thesis by (simp add: unsigned_ucast_eq take_bit_nat_eq_self)
qed

lemma entries_unused_last:
  assumes "sorted (map erase_key es)" and "length es = length old"
  shows "unused_last (map2 erase_entry_of es old)"
proof -
  have "map (\<lambda>(l, _). if l = 0 then 256 else unat l) (map2 erase_entry_of es old) = map erase_key es"
    using assms(2)
  proof (induction es old rule: list_induct2)
    case (Cons e es x xs)
    have "(case erase_entry_of e x of (l, _) \<Rightarrow> if l = 0 then 256 else unat l) = erase_key e"
      using entry_of_simps(1) [of e x] by (cases "erase_entry_of e x") (simp add: erase_key_def ucast_u8_0 unat_ucast_u8)
    then show ?case using Cons by simp
  qed simp
  then show ?thesis using assms(1) unfolding unused_last_def by simp
qed

lemma erase_info_sort: "length (erase_info (sheet_table sh)) = 4" "mset (erase_info (sfdp_erase_table_sort t)) = mset (erase_info t)"
  by (simp_all add: sheet_table_def parse_parameter_table_def sfdp_erase_table_sort_def Let_def)

lemma sort_other_fields:
  "sfdp_flash_page_size_bytes (sfdp_erase_table_sort t) = sfdp_flash_page_size_bytes t"
  "sfdp_quad_enable_method (sfdp_erase_table_sort t) = sfdp_quad_enable_method t"
  by (simp_all add: sfdp_erase_table_sort_def sfdp_flash_page_size_bytes_def sfdp_quad_enable_method_def)

lemma page_power: "power_of_2 (sfdp_flash_page_size_bytes (sheet_table sh))"
proof -
  let ?n = "unat (page_size (sheet_table sh))"
  have "page_size (sheet_table sh) AND mask 4 = page_size (sheet_table sh)"
    unfolding sheet_table_def parse_parameter_table_def bit_field_def Let_def by (simp add: and.assoc)
  then have "take_bit 4 (page_size (sheet_table sh)) = page_size (sheet_table sh)" by (simp add: take_bit_eq_mask)
  then have "take_bit 4 ?n = ?n" by (metis unsigned_take_bit_eq)
  then have "?n < 2 ^ 4" by (metis take_bit_nat_less_exp)
  then show ?thesis unfolding power_of_2_def sfdp_flash_page_size_bytes_def by (intro exI [of _ ?n]) simp
qed

lemma init_supported:
  assumes init: "qspi_flash_init (sheet_chip sh) info ctx c = Inr (ctx', c')" and sup: "fx_sfdp_supported ctx'"
  obtains ctx1 where "init_from_sfdp (sfdp_erase_table_sort (sheet_table sh)) ctx1 = Inr ctx'" "fx_erase_info ctx1 = fx_erase_info ctx" "c' = c"
proof -
  obtain ok info' c1 where d: "sfdp_discover (qspi_flash_sfdp_read (sheet_chip sh)) info c = (ok, info', c1)"
    by (cases "sfdp_discover (qspi_flash_sfdp_read (sheet_chip sh)) info c")
  have ok using init sup unfolding qspi_flash_init_def Let_def d by (auto simp: res_simps split: if_splits)
  with d have d': "sfdp_discover (qspi_flash_sfdp_read (sheet_chip sh)) info c = (True, info', c1)" by simp
  show thesis
    using that [of "if \<not> fx_custom_clock_setup ctx then ctx\<lparr>fx_clock := default_clock\<rparr> else ctx"] init discover_chip [OF d']
    unfolding qspi_flash_init_def Let_def d' by (auto simp: res_simps split: if_splits)
qed

lemma byte_to_mosi_inject: "QSPI_IO_BYTE_TO_MOSI (ucast (a :: u8)) = QSPI_IO_BYTE_TO_MOSI (ucast b) \<longleftrightarrow> a = b"
  by (metis start_command spi_byte_nibbles ucast_up_down)

lemma describes_fits:
  assumes sh: "sfdp_describes sh" and len: "length (fx_erase_info ctx1) = 4"
    and init: "init_from_sfdp (sfdp_erase_table_sort (sheet_table sh)) ctx1 = Inr ctx'"
  shows "ctx_fits sh ctx'"
proof -
  note ok = init_sfdp_ok [OF init]
  let ?es = "erase_info (sfdp_erase_table_sort (sheet_table sh))"
  have len_es: "length ?es = 4" using erase_info_sort mset_eq_length by metis
  have set: "set ?es = set (erase_info (sheet_table sh))" using erase_info_sort(2) by (metis set_mset_mset)
  have entry: "\<exists>op. cmd = QSPI_IO_BYTE_TO_MOSI (ucast op) \<and> sheet_erase sh op = Some (unat l)
      \<and> op \<notin> set basic_opcodes \<and> op \<noteq> sheet_sr2_read sh \<and> op \<noteq> sheet_sr2_write sh"
    if "(l, cmd) \<in> set (map2 erase_entry_of ?es (fx_erase_info ctx1))" "0 < l" for l cmd
  proof -
    from that(1) obtain e old where e: "e \<in> set ?es" "(l, cmd) = erase_entry_of e old" by (auto dest: set_zip_leftD)
    have "l = fst (erase_entry_of e old)" "cmd = snd (erase_entry_of e old)" using e(2) by (metis fst_conv, metis snd_conv)
    then have l: "l = ucast (ee_size e)" "ee_size e \<noteq> 0" using that(2) entry_of_simps(1) [of e old] by (auto simp: ucast_u8_0)
    then have "cmd = QSPI_IO_BYTE_TO_MOSI (ucast (ee_cmd e))" using \<open>cmd = _\<close> entry_of_simps(2) by metis
    moreover have "sheet_erase sh (ee_cmd e) = Some (unat l) \<and> ee_cmd e \<notin> set basic_opcodes
        \<and> ee_cmd e \<noteq> sheet_sr2_read sh \<and> ee_cmd e \<noteq> sheet_sr2_write sh"
      using sh e(1) l unfolding sfdp_describes_def set list_all_iff by (simp add: unat_ucast_u8)
    ultimately show ?thesis by blast
  qed
  have "\<forall>x \<in> set (fx_erase_info ctx'). case x of (l, cmd) \<Rightarrow> 0 < l \<longrightarrow>
      (\<exists>op. cmd = QSPI_IO_BYTE_TO_MOSI (ucast op) \<and> sheet_erase sh op = Some (unat l)
        \<and> op \<notin> set basic_opcodes \<and> op \<noteq> sheet_sr2_read sh \<and> op \<noteq> sheet_sr2_write sh)"
  proof
    fix x assume x: "x \<in> set (fx_erase_info ctx')"
    obtain l cmd where "x = (l, cmd)" by (cases x)
    with x entry [of l cmd] show "case x of (l, cmd) \<Rightarrow> 0 < l \<longrightarrow>
        (\<exists>op. cmd = QSPI_IO_BYTE_TO_MOSI (ucast op) \<and> sheet_erase sh op = Some (unat l)
          \<and> op \<notin> set basic_opcodes \<and> op \<noteq> sheet_sr2_read sh \<and> op \<noteq> sheet_sr2_write sh)"
      unfolding ok(1) by simp
  qed
  moreover have "length (fx_erase_info ctx') = 4" unfolding ok(1) using len len_es by simp
  ultimately show ?thesis unfolding ctx_fits_def using ok(5) by blast
qed

lemma describes_qe:
  assumes ok: "sheet_ok sh" and sh: "sfdp_describes sh" and init: "init_from_sfdp (sfdp_erase_table_sort (sheet_table sh)) ctx1 = Inr ctx'"
    and m: "quad_enable_method (sheet_table sh) \<notin> {1, 4}"
  shows "qe_fits sh ctx'"
proof -
  obtain reg b rd wr where qe: "sfdp_quad_enable_method (sheet_table sh) = Some (reg, b, rd, wr)" "fx_qe_reg ctx' = reg" "fx_qe_bit ctx' = b"
    "fx_sr2_read_cmd ctx' = QSPI_IO_BYTE_TO_MOSI (ucast rd)" "fx_sr2_write_cmd ctx' = QSPI_IO_BYTE_TO_MOSI (ucast wr)"
    using init_sfdp_ok(6) [OF init] by (auto simp: sort_other_fields)
  have agree: "rd \<noteq> 0 \<longrightarrow> rd = sheet_sr2_read sh" "wr \<noteq> 0 \<longrightarrow> wr = sheet_sr2_write sh"
    using sh qe(1) by (simp_all add: sfdp_describes_def)
  have cases: "(reg, b, rd, wr) \<in> {(0, 0, 0, 0), (1, 6, 0, 0), (2, 7, 0x3F, 0x3E), (2, 1, 0x35, 0), (2, 1, 0x35, 0x31)}"
    using qe(1) m by (auto simp: sfdp_quad_enable_method_def Let_def split: if_splits)
  have nz: "QSPI_IO_BYTE_TO_MOSI (ucast op) = QSPI_IO_BYTE_TO_MOSI 0 \<longleftrightarrow> op = 0" for op :: u8
    using byte_to_mosi_inject [of op 0] by simp
  show ?thesis
  proof (cases "reg = 2")
    case True
    then have "rd \<noteq> 0" "b \<le> 7" using cases by auto
    moreover have "sheet_sr2_read sh \<noteq> sheet_sr2_write sh" using agree(1) \<open>rd \<noteq> 0\<close> ok by (simp add: sheet_ok_def)
    moreover have "fx_sr2_write_cmd ctx' = QSPI_IO_BYTE_TO_MOSI 0 \<or> fx_sr2_write_cmd ctx' = QSPI_IO_BYTE_TO_MOSI (ucast (sheet_sr2_write sh))"
      using agree(2) qe(5) by (cases "wr = 0") auto
    ultimately show ?thesis unfolding qe_fits_def using True qe agree(1) nz by simp
  next
    case False
    then show ?thesis unfolding qe_fits_def using cases qe by auto
  qed
qed

text \<open>
  C17: If initialisation accepts a chip by its SFDP tables, the context it makes names the instructions of the chip, for
  erasing, for polling and for the quad enable bit; the erase types are in ascending order with the unused ones
  last, the page size is a power of two, and the chip is as it was.
\<close>

theorem qspi_init_fits:
  assumes "sheet_ok sh" and "sfdp_describes sh" and "length (fx_erase_info ctx) = 4"
    and "qspi_flash_init (sheet_chip sh) info ctx c = Inr (ctx', c')" and "fx_sfdp_supported ctx'"
  shows "ctx_fits sh ctx' \<and> unused_last (fx_erase_info ctx') \<and> power_of_2 (fx_page_size_bytes ctx') \<and> fx_flash_size_kbytes ctx' \<noteq> 0
    \<and> (quad_enable_method (sheet_table sh) \<in> {0, 2, 3, 5, 6} \<longrightarrow> qe_fits sh ctx') \<and> c' = c"
proof -
  obtain ctx1 where i: "init_from_sfdp (sfdp_erase_table_sort (sheet_table sh)) ctx1 = Inr ctx'" "fx_erase_info ctx1 = fx_erase_info ctx" "c' = c"
    using init_supported [OF assms(4,5)] by blast
  have "length (erase_info (sfdp_erase_table_sort (sheet_table sh))) = length (fx_erase_info ctx1)"
    using erase_info_sort mset_eq_length assms(3) i(2) by metis
  then have "unused_last (fx_erase_info ctx')"
    unfolding init_sfdp_ok(1) [OF i(1)] by (intro entries_unused_last erase_table_sorted erase_info_sort(1))
  moreover have "power_of_2 (fx_page_size_bytes ctx')"
    unfolding init_sfdp_ok(2) [OF i(1)] sort_other_fields by (rule page_power)
  moreover have "quad_enable_method (sheet_table sh) \<in> {0, 2, 3, 5, 6} \<Longrightarrow> quad_enable_method (sheet_table sh) \<notin> {1, 4}" by auto
  ultimately show ?thesis
    using describes_fits [OF assms(2) _ i(1)] describes_qe [OF assms(1,2) i(1)] init_sfdp_ok(3,4) [OF i(1)] assms(3) i(2,3) by auto
qed

text \<open>A chip for the examples: 128 Mbit, sectors of 4, 32 and 64 kilobytes, method 6 for the quad enable bit.\<close>

definition sample_sfdp :: "u8 list" where
  "sample_sfdp = [0x53, 0x46, 0x44, 0x50, 6, 1, 1, 0xFF, 0, 6, 1, 16, 0x30, 0, 0, 0xFF]"

definition sample_sheet :: sheet where
  "sample_sheet = \<lparr>sheet_page = 256, sheet_erase = [0x20 \<mapsto> 12, 0x52 \<mapsto> 15, 0xD8 \<mapsto> 16], sheet_sr2_read = 0x35, sheet_sr2_write = 0x31, sheet_delay = 3,
     sheet_sfdp = (\<lambda>i. if i < 16 then sample_sfdp ! i else (sample_table 0x07FFFFFF)[58 := 0x60] ! (i - 48)), sheet_undriven = (\<lambda>t. 0xF)\<rparr>"

definition sample_ctx :: qspi_flash_ctx where
  "sample_ctx = \<lparr>fx_clock = default_clock, fx_custom_clock_setup = False, fx_quad_page_program_cmd = qspi_flash_page_program_1_1_4,
     fx_sfdp_supported = False, fx_page_size_bytes = 0, fx_page_count = 0, fx_flash_size_kbytes = 0, fx_address_bytes = 0,
     fx_erase_info = replicate 4 (0, 0), fx_busy_poll_cmd = 0, fx_busy_poll_bit = 0, fx_busy_poll_ready_value = 0, fx_qe_reg = 0, fx_qe_bit = 0,
     fx_sr2_read_cmd = 0, fx_sr2_write_cmd = 0\<rparr>"

definition sample_ready :: qspi_flash_ctx where
  "sample_ready = sample_ctx\<lparr>fx_sfdp_supported := True, fx_page_size_bytes := 256, fx_page_count := 65536, fx_flash_size_kbytes := 16384,
     fx_address_bytes := 3,
     fx_erase_info := [(12, QSPI_IO_BYTE_TO_MOSI 0x20), (15, QSPI_IO_BYTE_TO_MOSI 0x52), (16, QSPI_IO_BYTE_TO_MOSI 0xD8), (0, 0)],
     fx_busy_poll_cmd := QSPI_IO_BYTE_TO_MOSI 0x05, fx_busy_poll_bit := 0, fx_busy_poll_ready_value := 0, fx_qe_reg := 2, fx_qe_bit := 1,
     fx_sr2_read_cmd := QSPI_IO_BYTE_TO_MOSI 0x35, fx_sr2_write_cmd := QSPI_IO_BYTE_TO_MOSI 0x31\<rparr>"

lemma sample_sheet_ok: "sheet_ok sample_sheet" "sfdp_describes sample_sheet" "length (fx_erase_info sample_ctx) = 4"
  by (code_simp, code_simp, simp add: sample_ctx_def)

lemma sample_init_table: "init_from_sfdp (sfdp_erase_table_sort (sheet_table sample_sheet)) sample_ctx = Inr sample_ready"
  by code_simp

lemma sample_supported:
  "sfdp_supported_header (parse_sfdp_header (map (sheet_sfdp sample_sheet) [0 ..< 16]))
     (parse_parameter_header (drop 8 (map (sheet_sfdp sample_sheet) [0 ..< 16])))"
  by code_simp

lemma init_chip:
  assumes "sfdp_supported_header (parse_sfdp_header (map (sheet_sfdp sh) [0 ..< 16])) (parse_parameter_header (drop 8 (map (sheet_sfdp sh) [0 ..< 16])))"
    and "fx_clock ctx = default_clock" and "init_from_sfdp (sfdp_erase_table_sort (sheet_table sh)) ctx = Inr ctx'"
  shows "qspi_flash_init (sheet_chip sh) info ctx c = Inr (ctx', c)"
proof -
  have rd: "qspi_flash_sfdp_read (sheet_chip sh) 0 16 c = (map (sheet_sfdp sh) [0 ..< 16], c)"
    by (simp add: sfdp_read_chip del: upt_Suc upt_rec_numeral)
  obtain info' c' where d: "sfdp_discover (qspi_flash_sfdp_read (sheet_chip sh)) info c = (True, info', c')"
    unfolding discover_supported [of "qspi_flash_sfdp_read (sheet_chip sh)", OF rd assms(1)] Let_def case_prod_beta by blast
  have "ctx\<lparr>fx_clock := default_clock\<rparr> = ctx" using assms(2) by (cases ctx) simp
  then show ?thesis unfolding qspi_flash_init_def Let_def d using discover_chip [OF d] assms(3) by simp
qed

lemma sample_init: "qspi_flash_init (sheet_chip sample_sheet) info sample_ctx c = Inr (sample_ready, c)"
  by (rule init_chip [OF sample_supported _ sample_init_table]) (simp add: sample_ctx_def)

lemma qspi_init_fits_witness:
  "ctx_fits sample_sheet sample_ready \<and> unused_last (fx_erase_info sample_ready) \<and> power_of_2 (fx_page_size_bytes sample_ready)
    \<and> fx_flash_size_kbytes sample_ready \<noteq> 0 \<and> qe_fits sample_sheet sample_ready"
proof -
  have "fx_sfdp_supported sample_ready" by (simp add: sample_ready_def)
  moreover have "quad_enable_method (sheet_table sample_sheet) = 6" by code_simp
  ultimately show ?thesis using qspi_init_fits [OF sample_sheet_ok sample_init] by simp
qed

lemma sample_fits: "ctx_fits sample_sheet sample_ready" "qe_fits sample_sheet sample_ready"
proof -
  have "quad_enable_method (sheet_table sample_sheet) = 6" by code_simp
  then show "qe_fits sample_sheet sample_ready" by (intro describes_qe [OF sample_sheet_ok(1,2) sample_init_table]) simp
  show "ctx_fits sample_sheet sample_ready" by (rule describes_fits [OF sample_sheet_ok(2,3) sample_init_table])
qed

section \<open>The driver on the chip\<close>

text \<open>
  Each command of the driver, sent as its nibbles over the four lines, is the same command to the chip, whichever page
  program instruction is used, however long the chip is busy after it, and the functions return only when it is ready
  again: a sequence of commands has on the chip the effect that the specification gives it.
\<close>

theorem qspi_commands_reach_chip:
  assumes "sheet_ok sh" and "ctx_fits sh ctx" and "3 \<le> length behind" and "nc_busy c = 0" and "cmds_ok ctx p cmds"
  shows "hil_cmds (sheet_chip sh) ctx p behind cmds c = Some (Inr (c\<lparr>nc_nor := nor_exec (sheet_page sh) cmds (nc_nor c), nc_busy := 0\<rparr>))"
  by (rule hil_cmds_chip [OF assms])

definition blank_chip :: nor_chip where
  "blank_chip = \<lparr>nc_nor = (\<lambda>x. 0xFF, False), nc_busy = 0, nc_sr1 = 0, nc_sr2 = 0\<rparr>"

lemma qspi_commands_reach_chip_witness:
  "hil_cmds (sheet_chip sample_sheet) sample_ready 8 [0, 0, 0] [Write_Enable, Page_Program 5 [1, 2, 3], Write_Enable, Erase_Sector 4096 12] blank_chip
    = Some (Inr (blank_chip\<lparr>nc_nor := nor_exec 256 [Write_Enable, Page_Program 5 [1, 2, 3], Write_Enable, Erase_Sector 4096 12] (\<lambda>x. 0xFF, False)\<rparr>))"
  using qspi_commands_reach_chip [OF sample_sheet_ok(1) sample_fits(1), of "[0, 0, 0]" blank_chip 8
      "[Write_Enable, Page_Program 5 [1, 2, 3], Write_Enable, Erase_Sector 4096 12]"]
  by (simp add: blank_chip_def sample_ready_def sample_sheet_def data_aligned_def del: nor_step.simps)


definition small_driver :: qspi where
  "small_driver = \<lparr>flash_size = 65536, page_size_bytes = 256, erase_size_log2 = (\<lambda>i. 12)\<rparr>"






text \<open>
  C15: A read into a buffer on a 4-byte boundary returns the bytes of the flash from the address on, with the nibbles of each
  byte swapped if that is asked for, and does not change the chip, whatever is on the lines before the chip is selected and after it is released.
  The number of clock cycles has to fit the 16 bits of a port's time: up to 32757 bytes, of which the driver asks for at most 24576.
\<close>

theorem qspi_read_on_lines:
  assumes "unat a < 2 ^ 24" and "p mod 4 = 0" and "unat n \<le> 32757"
  shows "qspi_flash_read (sheet_chip sh) p a (unat n) c = Inr (nor_read (fst (nc_nor c)) a n, c)
    \<and> qspi_flash_read_nibble_swapped (sheet_chip sh) p a (unat n) c = Inr (map swap_byte (nor_read (fst (nc_nor c)) a n), c)"
  using address_fits [OF assms(1)] assms(2,3)
  by (simp add: qspi_flash_read_def qspi_flash_read_nibble_swapped_def read_chip nor_read_def as_sent_def comp_def del: upt_Suc)

lemma qspi_read_on_lines_witness:
  "qspi_flash_read (sheet_chip sample_sheet) 1000 5000 (unat (7 :: u32)) (blank_chip\<lparr>nc_nor := (\<lambda>x. of_nat x, False)\<rparr>)
    = Inr (nor_read (\<lambda>x. of_nat x) 5000 7, blank_chip\<lparr>nc_nor := (\<lambda>x. of_nat x, False)\<rparr>)"
  using qspi_read_on_lines [of 5000 1000 7 sample_sheet "blank_chip\<lparr>nc_nor := (\<lambda>x. of_nat x, False)\<rparr>"] by simp

text \<open>One byte more than that number, and the chip is released at once: nothing that is read comes from it.\<close>

lemma read_too_long:
  "qspi_flash_read (sheet_chip sh) 0 a 32758 c = Inr (quad_in qspi_io_transfer_normal (sheet_undriven sh) 27 32758, sheet_deselect sh c
    (spi_nibbles [0xEB] @ quad_nibbles (address_out a @ [ucast (drop_bit 24 a)])) 0)"
proof -
  have calc: "qspi_flash_read_calc False a 32758 = (push_bit 8 a OR drop_bit 24 a, 65536, 27)"
    by (simp add: qspi_flash_read_calc_def QUAD_IO_READ_DUMMY_CYCLES_def)
  have r: "cs_release 65536 = 0" by (simp add: cs_release_def)
  have out: "qspi_io_start_word QUAD_IO_READ_COMMAND @ qspi_io_words_out qspi_io_transfer_normal [push_bit 8 a OR drop_bit 24 a]
      = spi_nibbles [0xEB] @ quad_nibbles (address_out a @ [ucast (drop_bit 24 a)])"
    unfolding word_out_lines rotated_address by (simp add: opcodes)
  have "chip_lines (sheet_chip sh) c out 0 = sheet_undriven sh" for out by (rule ext) (simp add: chip_lines_def sheet_chip_def)
  then show ?thesis unfolding qspi_flash_read_def qspi_flash_read_i_def calc Let_def split r if_False out
    by (simp add: qspi_io_bytes_in_def)
qed



section \<open>Both registers by one instruction\<close>

text \<open>
  For two of the methods the code reads the second register as the second byte of the first one's instruction, although
  waiting relies on that instruction repeating the first register. On a chip that repeats it, the second
  register receives the contents of the first, and the bit is reported as not set.
\<close>

lemma quad_enable_one_instruction:
  assumes sh: "sheet_ok sh" and fits: "ctx_fits sh ctx" and idle: "nc_busy c = 0" "\<not> snd (nc_nor c)"
    and reg: "fx_qe_reg ctx = 2" "fx_qe_bit ctx = 1" "fx_sr2_read_cmd ctx = QSPI_IO_BYTE_TO_MOSI 0" "fx_sr2_write_cmd ctx = QSPI_IO_BYTE_TO_MOSI 0"
  shows "\<exists>c'. qspi_flash_quad_enable_write (sheet_chip sh) ctx True c = Some (Inr (False, c')) \<and> nc_sr2 c' = with_bit 1 True (nc_status c 0)"
proof -
  let ?st = "nc_status c 0"
  let ?w = "with_bit 1 True ?st"
  let ?c1 = "c\<lparr>nc_nor := (fst (nc_nor c), True), nc_busy := 0\<rparr>"
  let ?c3 = "c\<lparr>nc_sr1 := ?st AND 0xFC, nc_sr2 := ?w, nc_nor := (fst (nc_nor c), False), nc_busy := 0\<rparr>"
  have same: "nc_status c (Suc 0) = ?st" using idle(1) by (simp add: nc_status_def)
  have two: "unat (2 :: u8) = 2" "[0 ..< 2 :: nat] = [0, Suc 0]" by (simp, simp add: upt_rec)
  have both: "read_both (sheet_chip sh) ctx c = ([?st, ?st], c)"
    using reg(1,3) idle(1) same by (simp add: read_both_def read_status two)
  have again: "read_again (sheet_chip sh) ctx ?c3 = ([nc_status ?c3 0, nc_status ?c3 (Suc 0)], ?c3)"
    using reg(1,3) by (simp add: read_again_def read_status two)
  have we: "qspi_flash_write_enable (sheet_chip sh) c = Some ?c1" using write_enable_chip [OF sh, of c] idle by (simp add: nc_ok_def)
  have ws: "qspi_flash_write_status_register (sheet_chip sh) [?st, ?w] ?c1
      = c\<lparr>nc_sr1 := ?st AND 0xFC, nc_sr2 := ?w, nc_nor := (fst (nc_nor c), False), nc_busy := sheet_delay sh\<rparr>"
    using write_status_2 [of ?c1 sh ?st ?w] by (simp add: nc_write_status_def)
  have poll: "qspi_flash_wait_while_write_in_progress (sheet_chip sh) ctx
      (c\<lparr>nc_sr1 := ?st AND 0xFC, nc_sr2 := ?w, nc_nor := (fst (nc_nor c), False), nc_busy := sheet_delay sh\<rparr>) = Some ?c3"
    using poll_busy_chip [OF fits] by simp
  have "\<not> bit ?st (Suc 0)" "\<not> bit (nc_status ?c3 (Suc 0)) (Suc 0)" using idle by (simp_all add: nc_status_bit)
  then have "qspi_flash_quad_enable_write (sheet_chip sh) ctx True c = Some (Inr (False, ?c3))"
    using reg by (simp add: quad_enable_unfold both again we ws poll)
  then show ?thesis by simp
qed

section \<open>Alignment\<close>

text \<open>
  The driver does not look after the alignment: a write over the end of a page that does not begin at a multiple of four hands
  the output of bytes on four lines a pointer into the middle of a word, and fails after its first page.
\<close>

lemma unaligned_part:
  assumes "fx_quad_page_program_cmd ctx \<noteq> qspi_flash_page_program_1_1_1" and "p mod 4 \<noteq> 0"
  shows "hil_cmd C ctx p behind (Page_Program a bs) s = Some (Inl Misaligned)"
  using assms unfolding hil_cmd_def qspi_flash_write_def qspi_flash_write_i_def qspi_io_bytes_out_def
  by (cases "fx_quad_page_program_cmd ctx") (simp_all add: c_aligned_def Let_def)

lemma hil_cmds_append:
  "hil_cmds C ctx p behind (xs @ ys) s = (case hil_cmds C ctx p behind xs s of
     None \<Rightarrow> None | Some (Inl e) \<Rightarrow> Some (Inl e) | Some (Inr s) \<Rightarrow> hil_cmds C ctx (fold moved_on xs p) behind ys s)"
  by (induction xs arbitrary: p s) (auto split: option.splits sum.splits)

lemma write_pointer_unaligned:
  "\<exists>cs. write_op small_driver (replicate 300 b) 1 = Some cs
    \<and> hil_cmds (sheet_chip sample_sheet) sample_ready 0 [9, 9, 9] cs blank_chip = Some (Inl Misaligned)"
proof -
  let ?c1 = "[Write_Enable, Page_Program 1 (replicate 255 b), Write_Enable]" and ?c2 = "[Page_Program 256 (replicate 45 b)]"
  have chunk: "write_chunk 256 1 300 = 255" "write_chunk 256 256 45 = 45" by (simp_all add: write_chunk_def)
  have loop: "write_loop 65536 256 (replicate 300 b) 1 = Some (?c1 @ ?c2)"
    apply (subst write_loop.simps)
    apply (subst write_loop.simps)
    apply (subst write_loop.simps)
    apply (simp add: chunk word_le_nat_alt)
    done
  have ok: "cmds_ok sample_ready 0 ?c1" by (simp add: data_aligned_def)
  have "nc_busy blank_chip = 0" by (simp add: blank_chip_def)
  note first = hil_cmds_chip [OF sample_sheet_ok(1) sample_fits(1) _ this ok, of "[9, 9, 9]"]
  have moved: "fold moved_on ?c1 0 = 255" by simp
  have quad: "fx_quad_page_program_cmd sample_ready \<noteq> qspi_flash_page_program_1_1_1" and odd: "255 mod 4 \<noteq> (0 :: nat)"
    by (simp_all add: sample_ready_def sample_ctx_def)
  have second: "hil_cmds (sheet_chip sample_sheet) sample_ready 255 [9, 9, 9] ?c2 c' = Some (Inl Misaligned)" for c'
    by (simp add: unaligned_part [OF quad odd])
  have "hil_cmds (sheet_chip sample_sheet) sample_ready 0 [9, 9, 9] (?c1 @ ?c2) blank_chip = Some (Inl Misaligned)"
    unfolding hil_cmds_append moved second using first by (auto split: option.splits sum.splits)
  then show ?thesis using loop by (auto simp: write_op_def small_driver_def)
qed

end
