(* ===== verification/Gpio_Driver.thy ===== *)
theory Gpio_Driver
  imports Prelude
begin

text \<open>
  The GPIO driver on the tile that owns the ports, modules/rtos/drivers/gpio/rtos_gpio.c and
  api/rtos_gpio.h: the table of ports, the functions of the application, and the interrupt of a port. The
  interrupt calls the application's callback outside its critical section, so that tasks on other cores run
  between its two halves; the system is a step relation.
\<close>

section \<open>Ports\<close>

text \<open>A resource identifier of the processor: one of its ports, or something else.\<close>

datatype xs1_port =
  XS1_PORT_1A | XS1_PORT_1B | XS1_PORT_1C | XS1_PORT_1D | XS1_PORT_1E | XS1_PORT_1F | XS1_PORT_1G | XS1_PORT_1H
| XS1_PORT_1I | XS1_PORT_1J | XS1_PORT_1K | XS1_PORT_1L | XS1_PORT_1M | XS1_PORT_1N | XS1_PORT_1O | XS1_PORT_1P
| XS1_PORT_4A | XS1_PORT_4B | XS1_PORT_4C | XS1_PORT_4D | XS1_PORT_4E | XS1_PORT_4F | XS1_PORT_8A | XS1_PORT_8B
| XS1_PORT_8C | XS1_PORT_8D | XS1_PORT_16A | XS1_PORT_16B | XS1_PORT_16C | XS1_PORT_16D | XS1_PORT_32A | XS1_PORT_32B
| XS1_OTHER u32

text \<open>The numbers of \<open>rtos_gpio_port_id_t\<close>: -1 is none, 0 to 31 are the ports in the order of the table.\<close>

definition RTOS_GPIO_TOTAL_PORT_CNT :: int where "RTOS_GPIO_TOTAL_PORT_CNT = 32"
definition rtos_gpio_port_none :: int where "rtos_gpio_port_none = - 1"

definition gpio_port_lookup :: "xs1_port list" where
  "gpio_port_lookup =
     [XS1_PORT_1A, XS1_PORT_1B, XS1_PORT_1C, XS1_PORT_1D, XS1_PORT_1E, XS1_PORT_1F, XS1_PORT_1G, XS1_PORT_1H,
      XS1_PORT_1I, XS1_PORT_1J, XS1_PORT_1K, XS1_PORT_1L, XS1_PORT_1M, XS1_PORT_1N, XS1_PORT_1O, XS1_PORT_1P,
      XS1_PORT_4A, XS1_PORT_4B, XS1_PORT_4C, XS1_PORT_4D, XS1_PORT_4E, XS1_PORT_4F, XS1_PORT_8A, XS1_PORT_8B,
      XS1_PORT_8C, XS1_PORT_8D, XS1_PORT_16A, XS1_PORT_16B, XS1_PORT_16C, XS1_PORT_16D, XS1_PORT_32A, XS1_PORT_32B]"

fun rtos_gpio_port :: "xs1_port \<Rightarrow> int" where
  "rtos_gpio_port XS1_PORT_1A = 0"
| "rtos_gpio_port XS1_PORT_1B = 1"
| "rtos_gpio_port XS1_PORT_1C = 2"
| "rtos_gpio_port XS1_PORT_1D = 3"
| "rtos_gpio_port XS1_PORT_1E = 4"
| "rtos_gpio_port XS1_PORT_1F = 5"
| "rtos_gpio_port XS1_PORT_1G = 6"
| "rtos_gpio_port XS1_PORT_1H = 7"
| "rtos_gpio_port XS1_PORT_1I = 8"
| "rtos_gpio_port XS1_PORT_1J = 9"
| "rtos_gpio_port XS1_PORT_1K = 10"
| "rtos_gpio_port XS1_PORT_1L = 11"
| "rtos_gpio_port XS1_PORT_1M = 12"
| "rtos_gpio_port XS1_PORT_1N = 13"
| "rtos_gpio_port XS1_PORT_1O = 14"
| "rtos_gpio_port XS1_PORT_1P = 15"
| "rtos_gpio_port XS1_PORT_4A = 16"
| "rtos_gpio_port XS1_PORT_4B = 17"
| "rtos_gpio_port XS1_PORT_4C = 18"
| "rtos_gpio_port XS1_PORT_4D = 19"
| "rtos_gpio_port XS1_PORT_4E = 20"
| "rtos_gpio_port XS1_PORT_4F = 21"
| "rtos_gpio_port XS1_PORT_8A = 22"
| "rtos_gpio_port XS1_PORT_8B = 23"
| "rtos_gpio_port XS1_PORT_8C = 24"
| "rtos_gpio_port XS1_PORT_8D = 25"
| "rtos_gpio_port XS1_PORT_16A = 26"
| "rtos_gpio_port XS1_PORT_16B = 27"
| "rtos_gpio_port XS1_PORT_16C = 28"
| "rtos_gpio_port XS1_PORT_16D = 29"
| "rtos_gpio_port XS1_PORT_32A = 30"
| "rtos_gpio_port XS1_PORT_32B = 31"
| "rtos_gpio_port (XS1_OTHER r) = rtos_gpio_port_none"

definition port_valid :: "int \<Rightarrow> bool" where
  "port_valid port_id \<longleftrightarrow> rtos_gpio_port_none < port_id \<and> port_id < RTOS_GPIO_TOTAL_PORT_CNT"

definition port_of :: "int \<Rightarrow> xs1_port" where
  "port_of port_id = gpio_port_lookup ! nat port_id"

section \<open>State\<close>

datatype isr_state = INTERRUPT_DISABLED | INTERRUPT_ENABLED | INTERRUPT_DISABLE_PENDING

text \<open>\<open>'cb\<close>: a callback with its application data.\<close>

record 'cb gpio_isr_info =
  gi_callback :: 'cb
  gi_enabled :: isr_state

text \<open>
  A port: whether it is in use, the levels of its pins, what has been put out and the last control word, the value its
  trigger compares the pins with, whether the trigger is enabled, the value that it has latched, and whether the interrupt has a handler.
  The port latches the pins when they differ from the value of its trigger, and keeps what it has latched until \<open>port_in\<close> takes it or a
  new value for the trigger is set.
\<close>

record gpio_hw =
  hw_in_use :: bool
  hw_pins :: u32
  hw_out :: u32
  hw_control :: u32
  hw_trigger :: u32
  hw_armed :: bool
  hw_latch :: "u32 option"
  hw_vector :: bool

definition hw_sample :: "gpio_hw \<Rightarrow> gpio_hw" where
  "hw_sample h = (if hw_armed h \<and> hw_latch h = None \<and> hw_pins h \<noteq> hw_trigger h then h\<lparr>hw_latch := Some (hw_pins h)\<rparr> else h)"

definition hw_set_pins :: "u32 \<Rightarrow> gpio_hw \<Rightarrow> gpio_hw" where
  "hw_set_pins v h = hw_sample (h\<lparr>hw_pins := v\<rparr>)"

definition hw_port_in :: "gpio_hw \<Rightarrow> u32 \<times> gpio_hw" where
  "hw_port_in h = (case hw_latch h of Some v \<Rightarrow> (v, hw_sample (h\<lparr>hw_latch := None\<rparr>)) | None \<Rightarrow> (hw_pins h, h))"

definition hw_set_trigger :: "u32 \<Rightarrow> gpio_hw \<Rightarrow> gpio_hw" where
  "hw_set_trigger v h = hw_sample (h\<lparr>hw_trigger := v, hw_latch := None\<rparr>)"

record 'cb gpio =
  gp_info :: "int \<Rightarrow> 'cb gpio_isr_info option"
  gp_port :: "xs1_port \<Rightarrow> gpio_hw"

definition upd_port :: "xs1_port \<Rightarrow> (gpio_hw \<Rightarrow> gpio_hw) \<Rightarrow> 'cb gpio \<Rightarrow> 'cb gpio" where
  "upd_port p f s = s\<lparr>gp_port := (gp_port s)(p := f (gp_port s p))\<rparr>"

definition upd_info :: "int \<Rightarrow> ('cb gpio_isr_info \<Rightarrow> 'cb gpio_isr_info) \<Rightarrow> 'cb gpio \<Rightarrow> 'cb gpio" where
  "upd_info i f s = s\<lparr>gp_info := (gp_info s)(i := map_option f (gp_info s i))\<rparr>"

section \<open>The functions of the application\<close>

definition gpio_local_port_enable :: "int \<Rightarrow> 'cb gpio \<Rightarrow> 'cb gpio res" where
  "gpio_local_port_enable port_id s =
     rbind (c_assert (port_valid port_id)) (\<lambda>_. Inr (upd_port (port_of port_id) (hw_in_use_update (\<lambda>_. True)) s))"

definition gpio_local_port_in :: "int \<Rightarrow> 'cb gpio \<Rightarrow> (u32 \<times> 'cb gpio) res" where
  "gpio_local_port_in port_id s =
     rbind (c_assert (port_valid port_id)) (\<lambda>_. Inr (hw_pins (gp_port s (port_of port_id)), s))"

definition gpio_local_port_out :: "int \<Rightarrow> u32 \<Rightarrow> 'cb gpio \<Rightarrow> 'cb gpio res" where
  "gpio_local_port_out port_id v s =
     rbind (c_assert (port_valid port_id)) (\<lambda>_. Inr (upd_port (port_of port_id) (hw_out_update (\<lambda>_. v)) s))"

definition gpio_local_port_write_control_word :: "int \<Rightarrow> u32 \<Rightarrow> 'cb gpio \<Rightarrow> 'cb gpio res" where
  "gpio_local_port_write_control_word port_id v s =
     rbind (c_assert (port_valid port_id)) (\<lambda>_. Inr (upd_port (port_of port_id) (hw_control_update (\<lambda>_. v)) s))"

definition gpio_local_isr_callback_set :: "int \<Rightarrow> 'cb \<Rightarrow> 'cb gpio \<Rightarrow> 'cb gpio res" where
  "gpio_local_isr_callback_set port_id cb s =
     rbind (c_assert (port_valid port_id)) (\<lambda>_.
       let s = (if gp_info s port_id = None
                then upd_port (port_of port_id) (hw_vector_update (\<lambda>_. True))
                       (s\<lparr>gp_info := (gp_info s)(port_id := Some \<lparr>gi_callback = cb, gi_enabled = INTERRUPT_DISABLED\<rparr>)\<rparr>)
                else s)
       in Inr (upd_info port_id (gi_callback_update (\<lambda>_. cb)) s))"

text \<open>The state of the interrupt is set outside the test for a missing record.\<close>

definition gpio_local_interrupt_enable :: "int \<Rightarrow> 'cb gpio \<Rightarrow> 'cb gpio res" where
  "gpio_local_interrupt_enable port_id s =
     rbind (c_assert (port_valid port_id)) (\<lambda>_.
       case gp_info s port_id of
         None \<Rightarrow> Inl NullDeref
       | Some info \<Rightarrow>
           let s = (if gi_enabled info = INTERRUPT_DISABLED
                    then upd_port (port_of port_id) (\<lambda>h. hw_set_trigger (hw_pins h) h\<lparr>hw_armed := True\<rparr>) s else s)
           in Inr (upd_info port_id (gi_enabled_update (\<lambda>_. INTERRUPT_ENABLED)) s))"

definition gpio_local_interrupt_disable :: "int \<Rightarrow> 'cb gpio \<Rightarrow> 'cb gpio res" where
  "gpio_local_interrupt_disable port_id s =
     rbind (c_assert (port_valid port_id)) (\<lambda>_.
       case gp_info s port_id of
         None \<Rightarrow> Inr s
       | Some info \<Rightarrow>
           Inr (if gi_enabled info \<noteq> INTERRUPT_DISABLED
                then upd_info port_id (gi_enabled_update (\<lambda>_. INTERRUPT_DISABLE_PENDING)) s else s))"

definition rtos_gpio_init :: "'cb gpio \<Rightarrow> 'cb gpio" where
  "rtos_gpio_init s = s\<lparr>gp_info := \<lambda>i. None\<rparr>"

text \<open>Starting the driver starts the threads of its remote clients, if it has any: the function of its RPC configuration.\<close>

definition rtos_gpio_start :: "('h \<Rightarrow> 'h) option option \<Rightarrow> 'h \<Rightarrow> 'h" where
  "rtos_gpio_start rpc_config h =
     (case rpc_config of Some (Some rpc_host_start) \<Rightarrow> rpc_host_start h | _ \<Rightarrow> h)"

section \<open>The interrupt\<close>

text \<open>
  The critical section takes the latched value, and either finishes a disable or hands the callback and the value to
  the second half, which calls it and then waits for the next change from that value.
\<close>

definition rtos_gpio_isr_critical :: "int \<Rightarrow> 'cb gpio \<Rightarrow> (('cb \<times> u32) option \<times> 'cb gpio) res" where
  "rtos_gpio_isr_critical port_id s =
     (case gp_info s port_id of
        None \<Rightarrow> Inl NullDeref
      | Some info \<Rightarrow>
          let (v, h) = hw_port_in (gp_port s (port_of port_id));
              s = upd_port (port_of port_id) (\<lambda>_. h) s
          in Inr (if gi_enabled info = INTERRUPT_DISABLE_PENDING
                  then (None, upd_info port_id (gi_enabled_update (\<lambda>_. INTERRUPT_DISABLED))
                          (upd_port (port_of port_id) (hw_armed_update (\<lambda>_. False)) s))
                  else (Some (gi_callback info, v), s)))"

definition rtos_gpio_isr_end :: "int \<Rightarrow> u32 \<Rightarrow> 'cb gpio \<Rightarrow> 'cb gpio" where
  "rtos_gpio_isr_end port_id v s = upd_port (port_of port_id) (hw_set_trigger v) s"

section \<open>The system\<close>

text \<open>
  Tasks call the driver, the pins change, interrupts run. \<open>sy_flight\<close> is the interrupt of a port between its halves;
  \<open>sy_calls\<close> are the calls of callbacks, the latest first. \<open>sy_seen\<close> is the level of a port that the application
  knows: that at the time it enabled the interrupt, or the one reported last. \<open>sy_levels\<close> are the levels that the pins have had
  since it was enabled or the last callback has returned, the current one last.
\<close>

datatype 'cb gpio_request =
    Call_Enable int | Call_Out int u32 | Call_Control int u32 | Call_Set int 'cb | Call_Int_Enable int | Call_Int_Disable int

fun gpio_call :: "'cb gpio_request \<Rightarrow> 'cb gpio \<Rightarrow> 'cb gpio res" where
  "gpio_call (Call_Enable i) s = gpio_local_port_enable i s"
| "gpio_call (Call_Out i v) s = gpio_local_port_out i v s"
| "gpio_call (Call_Control i v) s = gpio_local_port_write_control_word i v s"
| "gpio_call (Call_Set i cb) s = gpio_local_isr_callback_set i cb s"
| "gpio_call (Call_Int_Enable i) s = gpio_local_interrupt_enable i s"
| "gpio_call (Call_Int_Disable i) s = gpio_local_interrupt_disable i s"

record 'cb gpio_sys =
  sy_gpio :: "'cb gpio"
  sy_flight :: "int \<Rightarrow> ('cb \<times> u32) option"
  sy_calls :: "(int \<times> 'cb \<times> u32) list"
  sy_seen :: "int \<Rightarrow> u32"
  sy_levels :: "int \<Rightarrow> u32 list"

definition call_enables :: "'cb gpio_request \<Rightarrow> 'cb gpio \<Rightarrow> int \<Rightarrow> bool" where
  "call_enables c s i \<longleftrightarrow> (case c of Call_Int_Enable j \<Rightarrow> j = i \<and> map_option gi_enabled (gp_info s i) = Some INTERRUPT_DISABLED | _ \<Rightarrow> False)"

definition after_call :: "'cb gpio_request \<Rightarrow> 'cb gpio \<Rightarrow> 'cb gpio_sys \<Rightarrow> 'cb gpio_sys" where
  "after_call c s y =
     (let level = (\<lambda>i. hw_pins (gp_port (sy_gpio y) (port_of i)))
      in y\<lparr>sy_gpio := s, sy_seen := (\<lambda>i. if call_enables c (sy_gpio y) i then level i else sy_seen y i),
           sy_levels := (\<lambda>i. if call_enables c (sy_gpio y) i then [level i] else sy_levels y i)\<rparr>)"

definition after_pins :: "int \<Rightarrow> u32 \<Rightarrow> 'cb gpio_sys \<Rightarrow> 'cb gpio_sys" where
  "after_pins i v y = y\<lparr>sy_gpio := upd_port (port_of i) (hw_set_pins v) (sy_gpio y), sy_levels := (sy_levels y)(i := sy_levels y i @ [v])\<rparr>"

definition after_isr_end :: "int \<Rightarrow> 'cb \<Rightarrow> u32 \<Rightarrow> 'cb gpio_sys \<Rightarrow> 'cb gpio_sys" where
  "after_isr_end i cb v y =
     y\<lparr>sy_gpio := rtos_gpio_isr_end i v (sy_gpio y), sy_flight := (sy_flight y)(i := None), sy_calls := (i, cb, v) # sy_calls y,
       sy_seen := (sy_seen y)(i := v), sy_levels := (sy_levels y)(i := [hw_pins (gp_port (sy_gpio y) (port_of i))])\<rparr>"

text \<open>The interrupt of a port is due: its trigger is enabled and has latched a value.\<close>

definition interrupt_due :: "int \<Rightarrow> 'cb gpio_sys \<Rightarrow> bool" where
  "interrupt_due i y \<longleftrightarrow> sy_flight y i = None
     \<and> (let h = gp_port (sy_gpio y) (port_of i) in hw_armed h \<and> hw_latch h \<noteq> None)"

datatype 'cb gpio_event = Ev_Call "'cb gpio_request" | Ev_Pins int u32 | Ev_Isr int | Ev_Isr_End int

inductive gpio_step :: "'cb gpio_event \<Rightarrow> 'cb gpio_sys \<Rightarrow> 'cb gpio_sys \<Rightarrow> bool" where
  task: "gpio_call c (sy_gpio y) = Inr s \<Longrightarrow> gpio_step (Ev_Call c) y (after_call c s y)"
| pins: "port_valid i \<Longrightarrow> gpio_step (Ev_Pins i v) y (after_pins i v y)"
| isr: "port_valid i \<Longrightarrow> interrupt_due i y \<Longrightarrow> rtos_gpio_isr_critical i (sy_gpio y) = Inr (r, s) \<Longrightarrow>
    gpio_step (Ev_Isr i) y (y\<lparr>sy_gpio := s, sy_flight := (sy_flight y)(i := r)\<rparr>)"
| isr_end: "port_valid i \<Longrightarrow> sy_flight y i = Some (cb, v) \<Longrightarrow>
    gpio_step (Ev_Isr_End i) y (after_isr_end i cb v y)"

inductive_cases gpio_stepE: "gpio_step e y y'"

inductive gpio_run :: "'cb gpio_event list \<Rightarrow> 'cb gpio_sys \<Rightarrow> 'cb gpio_sys \<Rightarrow> bool" where
  run_Nil: "gpio_run [] y y"
| run_snoc: "gpio_run es y y' \<Longrightarrow> gpio_step e y' y'' \<Longrightarrow> gpio_run (es @ [e]) y y''"

text \<open>The same step as a function, to follow a run of events.\<close>

fun gpio_next :: "'cb gpio_event \<Rightarrow> 'cb gpio_sys \<Rightarrow> 'cb gpio_sys option" where
  "gpio_next (Ev_Call c) y = (case gpio_call c (sy_gpio y) of Inl e \<Rightarrow> None
     | Inr s \<Rightarrow> Some (after_call c s y))"
| "gpio_next (Ev_Pins i v) y =
     (if port_valid i then Some (after_pins i v y) else None)"
| "gpio_next (Ev_Isr i) y =
     (if port_valid i \<and> interrupt_due i y
      then (case rtos_gpio_isr_critical i (sy_gpio y) of Inl e \<Rightarrow> None
            | Inr (r, s) \<Rightarrow> Some (y\<lparr>sy_gpio := s, sy_flight := (sy_flight y)(i := r)\<rparr>)) else None)"
| "gpio_next (Ev_Isr_End i) y =
     (case sy_flight y i of None \<Rightarrow> None
      | Some (cb, v) \<Rightarrow> if port_valid i
          then Some (after_isr_end i cb v y) else None)"

lemma gpio_step_next: "gpio_step e y y' \<longleftrightarrow> gpio_next e y = Some y'"
  by (cases e) (auto simp: gpio_step.simps split: sum.splits prod.splits option.splits if_splits)

fun gpio_exec :: "'cb gpio_event list \<Rightarrow> 'cb gpio_sys \<Rightarrow> 'cb gpio_sys option" where
  "gpio_exec [] y = Some y"
| "gpio_exec (e # es) y = Option.bind (gpio_next e y) (gpio_exec es)"

lemma gpio_run_append: "gpio_run es' y' y'' \<Longrightarrow> gpio_run es y y' \<Longrightarrow> gpio_run (es @ es') y y''"
  by (induction rule: gpio_run.induct) (simp, metis append.assoc run_snoc)

lemma gpio_run_exec: "gpio_exec es y = Some y' \<Longrightarrow> gpio_run es y y'"
proof (induction es arbitrary: y)
  case Nil
  then show ?case by (simp add: run_Nil)
next
  case (Cons e es)
  then obtain z where "gpio_next e y = Some z" "gpio_run es z y'" by (auto simp: bind_eq_Some_conv)
  then show ?case using gpio_run_append [of es z y' "[e]" y] run_snoc [OF run_Nil, of e y z] by (simp add: gpio_step_next)
qed

text \<open>At the start no trigger is enabled and nothing has been called.\<close>

definition gpio_start_ok :: "'cb gpio_sys \<Rightarrow> bool" where
  "gpio_start_ok y \<longleftrightarrow> sy_gpio y = rtos_gpio_init (sy_gpio y) \<and> (\<forall>i. sy_flight y i = None) \<and> sy_calls y = []
     \<and> (\<forall>p. \<not> hw_armed (gp_port (sy_gpio y) p))"

section \<open>The table of ports\<close>

lemma lookup_table: "map rtos_gpio_port gpio_port_lookup = map int [0 ..< 32]" "length gpio_port_lookup = 32" "distinct gpio_port_lookup"
  by code_simp+

lemma port_of_round_trip: "port_valid i \<Longrightarrow> rtos_gpio_port (port_of i) = i"
proof -
  assume "port_valid i"
  then have i: "nat i < 32" "0 \<le> i" by (auto simp: port_valid_def rtos_gpio_port_none_def RTOS_GPIO_TOTAL_PORT_CNT_def)
  then have "map rtos_gpio_port gpio_port_lookup ! nat i = map int [0 ..< 32] ! nat i" by (simp only: lookup_table(1))
  then show ?thesis using i lookup_table(2) by (simp add: port_of_def del: upt_Suc upt_rec_numeral)
qed

lemma port_of_inject: "port_valid i \<Longrightarrow> port_valid j \<Longrightarrow> port_of i = port_of j \<longleftrightarrow> i = j"
  by (metis port_of_round_trip)

lemma port_of_rtos_gpio_port: "rtos_gpio_port p \<noteq> rtos_gpio_port_none \<Longrightarrow> port_valid (rtos_gpio_port p) \<and> port_of (rtos_gpio_port p) = p"
  by (cases p) (simp_all add: rtos_gpio_port_none_def, code_simp+)

text \<open>
  The two tables between ports and port numbers are inverse to each other: every number from 0 to 31 comes back from its
  port, every port with a number comes back from it, and everything else has the number of no port.
\<close>

theorem gpio_ports_round_trip:
  "map (\<lambda>i. rtos_gpio_port (port_of i)) [0 .. 31] = [0 .. 31]
    \<and> (\<forall>p. if rtos_gpio_port p = rtos_gpio_port_none then p \<notin> set gpio_port_lookup else port_of (rtos_gpio_port p) = p)"
proof (intro conjI allI)
  show "map (\<lambda>i. rtos_gpio_port (port_of i)) [0 .. 31] = [0 .. 31]"
    by (rule map_idI, intro port_of_round_trip) (simp add: port_valid_def rtos_gpio_port_none_def RTOS_GPIO_TOTAL_PORT_CNT_def)
next
  fix p
  have "q \<in> set gpio_port_lookup \<Longrightarrow> 0 \<le> rtos_gpio_port q" for q
  proof -
    assume "q \<in> set gpio_port_lookup"
    then have "rtos_gpio_port q \<in> set (map rtos_gpio_port gpio_port_lookup)" by simp
    then show ?thesis unfolding lookup_table(1) by auto
  qed
  then show "if rtos_gpio_port p = rtos_gpio_port_none then p \<notin> set gpio_port_lookup else port_of (rtos_gpio_port p) = p"
    using port_of_rtos_gpio_port [of p] by (force simp: rtos_gpio_port_none_def)
qed

section \<open>The invariant\<close>

definition port_fit :: "isr_state option \<Rightarrow> gpio_hw \<Rightarrow> bool \<Rightarrow> u32 \<Rightarrow> u32 list \<Rightarrow> bool" where
  "port_fit state h flying seen levels \<longleftrightarrow>
     (case state of
        None \<Rightarrow> \<not> hw_armed h \<and> \<not> flying
      | Some st \<Rightarrow> hw_armed h = (st \<noteq> INTERRUPT_DISABLED) \<and> (st = INTERRUPT_DISABLED \<longrightarrow> \<not> flying)
          \<and> (hw_armed h \<longrightarrow> hw_trigger h = seen \<and> levels \<noteq> [] \<and> hw_pins h = last levels)
          \<and> (hw_armed h \<and> \<not> flying \<longrightarrow> hw_latch h = find (\<lambda>v. v \<noteq> seen) levels))"

definition port_ok :: "int \<Rightarrow> 'cb gpio_sys \<Rightarrow> bool" where
  "port_ok i y \<longleftrightarrow> port_fit (map_option gi_enabled (gp_info (sy_gpio y) i)) (gp_port (sy_gpio y) (port_of i)) (sy_flight y i \<noteq> None)
     (sy_seen y i) (sy_levels y i)"

lemmas hw_funs = hw_sample_def hw_set_pins_def hw_port_in_def hw_set_trigger_def

lemma hw_sel [simp]:
  "hw_armed (hw_sample h) = hw_armed h" "hw_trigger (hw_sample h) = hw_trigger h" "hw_pins (hw_sample h) = hw_pins h"
  "hw_armed (hw_set_pins v h) = hw_armed h" "hw_trigger (hw_set_pins v h) = hw_trigger h" "hw_pins (hw_set_pins v h) = v"
  "hw_armed (snd (hw_port_in h)) = hw_armed h" "hw_trigger (snd (hw_port_in h)) = hw_trigger h" "hw_pins (snd (hw_port_in h)) = hw_pins h"
  "hw_armed (hw_set_trigger v h) = hw_armed h" "hw_trigger (hw_set_trigger v h) = v" "hw_pins (hw_set_trigger v h) = hw_pins h"
  "hw_latch (hw_set_trigger v h) = (if hw_armed h \<and> hw_pins h \<noteq> v then Some (hw_pins h) else None)"
  "hw_latch (hw_set_pins v h) = (if hw_armed h \<and> hw_latch h = None \<and> v \<noteq> hw_trigger h then Some v else hw_latch h)"
  by (auto simp: hw_funs split: option.splits)

lemma find_snoc [simp]: "find P (xs @ [x]) = (case find P xs of None \<Rightarrow> if P x then Some x else None | Some y \<Rightarrow> Some y)"
  by (induction xs) simp_all

lemma upd_sel [simp]:
  "gp_port (upd_port p f s) q = (if p = q then f (gp_port s q) else gp_port s q)" "gp_info (upd_port p f s) = gp_info s"
  "gp_port (upd_info i g s) = gp_port s" "gp_info (upd_info i g s) j = (if i = j then map_option g (gp_info s j) else gp_info s j)"
  by (auto simp: upd_port_def upd_info_def)

lemmas gpio_funs = gpio_local_port_enable_def gpio_local_port_out_def gpio_local_port_write_control_word_def gpio_local_isr_callback_set_def
  gpio_local_interrupt_enable_def gpio_local_interrupt_disable_def

lemma port_fit_pins: "port_fit st h f seen ls \<Longrightarrow> port_fit st (hw_set_pins v h) f seen (ls @ [v])"
  by (cases "find (\<lambda>v. v \<noteq> seen) ls") (auto simp: port_fit_def split: option.splits)

lemma port_fit_enable: "port_fit (Some INTERRUPT_DISABLED) h f seen ls \<Longrightarrow> port_fit (Some INTERRUPT_ENABLED) (hw_set_trigger (hw_pins h) h\<lparr>hw_armed := True\<rparr>) f (hw_pins h) [hw_pins h]"
  by (simp add: port_fit_def)

lemma port_fit_state: "port_fit (Some st) h f seen ls \<Longrightarrow> st \<noteq> INTERRUPT_DISABLED \<Longrightarrow> st' \<noteq> INTERRUPT_DISABLED \<Longrightarrow> port_fit (Some st') h f seen ls"
  by (simp add: port_fit_def)

lemma port_fit_same:
  "hw_armed h' = hw_armed h \<Longrightarrow> hw_trigger h' = hw_trigger h \<Longrightarrow> hw_pins h' = hw_pins h \<Longrightarrow> hw_latch h' = hw_latch h \<Longrightarrow> port_fit st h' f seen ls = port_fit st h f seen ls"
  by (simp add: port_fit_def split: option.splits)

lemma port_fit_first: "port_fit None h f seen ls \<Longrightarrow> port_fit (Some INTERRUPT_DISABLED) h f seen ls"
  by (simp add: port_fit_def)

lemma port_fit_isr: "port_fit (Some st) h f seen ls \<Longrightarrow> st \<noteq> INTERRUPT_DISABLED \<Longrightarrow> port_fit (Some st) (snd (hw_port_in h)) True seen ls"
  by (simp add: port_fit_def)

lemma port_fit_isr_disable: "port_fit (Some INTERRUPT_DISABLED) (h\<lparr>hw_armed := False\<rparr>) False seen ls"
  by (simp add: port_fit_def)

lemma port_fit_isr_end: "port_fit st h True seen ls \<Longrightarrow> port_fit st (hw_set_trigger v h) False v [hw_pins h]"
  by (auto simp: port_fit_def split: option.splits)

lemmas after_defs = after_call_def after_pins_def after_isr_end_def call_enables_def

lemma port_ok_call:
  assumes ok: "port_ok i y" and i: "port_valid i" and call: "gpio_call c (sy_gpio y) = Inr s"
  shows "port_ok i (after_call c s y)"
proof -
  have p: "port_valid j \<Longrightarrow> port_of j = port_of i \<longleftrightarrow> j = i" for j using port_of_inject i by metis
  show ?thesis
  proof (cases c)
    case (Call_Int_Enable j)
    then obtain g where g: "port_valid j" "gp_info (sy_gpio y) j = Some g"
      and s: "s = upd_info j (gi_enabled_update (\<lambda>_. INTERRUPT_ENABLED)) (if gi_enabled g = INTERRUPT_DISABLED
        then upd_port (port_of j) (\<lambda>h. hw_set_trigger (hw_pins h) h\<lparr>hw_armed := True\<rparr>) (sy_gpio y) else sy_gpio y)"
      using call by (auto simp: gpio_local_interrupt_enable_def res_simps Let_def split: option.splits)
    have "port_ok i (after_call c s y)" if [simp]: "i = j"
    proof (cases "gi_enabled g = INTERRUPT_DISABLED")
      case True
      then have "port_fit (Some INTERRUPT_DISABLED) (gp_port (sy_gpio y) (port_of j)) (sy_flight y j \<noteq> None) (sy_seen y j) (sy_levels y j)"
        using ok g by (simp add: port_ok_def)
      from port_fit_enable [OF this] show ?thesis using g True by (simp add: port_ok_def after_defs s Call_Int_Enable)
    next
      case False
      then show ?thesis using ok g port_fit_state [of "gi_enabled g" _ _ _ _ INTERRUPT_ENABLED] by (simp add: port_ok_def after_defs s Call_Int_Enable)
    qed
    moreover have "i \<noteq> j \<Longrightarrow> port_ok i (after_call c s y)" using ok p [OF g(1)] by (simp add: port_ok_def after_defs s Call_Int_Enable)
    ultimately show ?thesis by blast
  next
    case (Call_Int_Disable j)
    show ?thesis
    proof (cases "gp_info (sy_gpio y) j = None \<or> map_option gi_enabled (gp_info (sy_gpio y) j) = Some INTERRUPT_DISABLED")
      case True
      then have "s = sy_gpio y" using call Call_Int_Disable by (auto simp: gpio_local_interrupt_disable_def res_simps split: option.splits)
      then show ?thesis using ok Call_Int_Disable by (simp add: port_ok_def after_defs)
    next
      case False
      then obtain g where g: "gp_info (sy_gpio y) j = Some g" "gi_enabled g \<noteq> INTERRUPT_DISABLED" by auto
      then have "s = upd_info j (gi_enabled_update (\<lambda>_. INTERRUPT_DISABLE_PENDING)) (sy_gpio y)"
        using call Call_Int_Disable by (auto simp: gpio_local_interrupt_disable_def res_simps)
      then show ?thesis using ok g port_fit_state [of "gi_enabled g" _ _ _ _ INTERRUPT_DISABLE_PENDING] Call_Int_Disable
        by (auto simp: port_ok_def after_defs)
    qed
  next
    case (Call_Set j cb)
    have "port_valid j" using call Call_Set by (auto simp: gpio_local_isr_callback_set_def res_simps Let_def)
    then have "map_option gi_enabled (gp_info s i) = (if i = j \<and> gp_info (sy_gpio y) j = None then Some INTERRUPT_DISABLED else map_option gi_enabled (gp_info (sy_gpio y) i))"
        "gp_port s (port_of i) = (if i = j \<and> gp_info (sy_gpio y) j = None then hw_vector_update (\<lambda>_. True) (gp_port (sy_gpio y) (port_of i)) else gp_port (sy_gpio y) (port_of i))"
      using call Call_Set p [of j] by (auto simp: gpio_local_isr_callback_set_def res_simps Let_def option.map_comp comp_def)
    then show ?thesis using ok port_fit_first port_fit_same [of "hw_vector_update (\<lambda>_. True) (gp_port (sy_gpio y) (port_of i))" "gp_port (sy_gpio y) (port_of i)"] Call_Set
      by (auto simp: port_ok_def after_defs split: if_splits)
  next
    case (Call_Enable j)
    then have "s = upd_port (port_of j) (hw_in_use_update (\<lambda>_. True)) (sy_gpio y)" using call by (auto simp: gpio_local_port_enable_def res_simps)
    then show ?thesis using ok Call_Enable port_fit_same [of "hw_in_use_update (\<lambda>_. True) (gp_port (sy_gpio y) (port_of i))" "gp_port (sy_gpio y) (port_of i)"]
      by (simp add: port_ok_def after_defs)
  next
    case (Call_Out j v)
    then have "s = upd_port (port_of j) (hw_out_update (\<lambda>_. v)) (sy_gpio y)" using call by (auto simp: gpio_local_port_out_def res_simps)
    then show ?thesis using ok Call_Out port_fit_same [of "hw_out_update (\<lambda>_. v) (gp_port (sy_gpio y) (port_of i))" "gp_port (sy_gpio y) (port_of i)"]
      by (simp add: port_ok_def after_defs)
  next
    case (Call_Control j v)
    then have "s = upd_port (port_of j) (hw_control_update (\<lambda>_. v)) (sy_gpio y)" using call by (auto simp: gpio_local_port_write_control_word_def res_simps)
    then show ?thesis using ok Call_Control port_fit_same [of "hw_control_update (\<lambda>_. v) (gp_port (sy_gpio y) (port_of i))" "gp_port (sy_gpio y) (port_of i)"]
      by (simp add: port_ok_def after_defs)
  qed
qed

lemma port_ok_step: "gpio_step e y y' \<Longrightarrow> port_valid i \<Longrightarrow> port_ok i y \<Longrightarrow> port_ok i y'"
proof (induction rule: gpio_step.induct)
  case (task c y s)
  then show ?case using port_ok_call by blast
next
  case (pins j v y)
  then have "port_of j = port_of i \<longleftrightarrow> j = i" using port_of_inject by metis
  then show ?case using pins.prems(2) port_fit_pins by (auto simp: port_ok_def after_defs)
next
  case (isr j y r s)
  then have p: "port_of j = port_of i \<longleftrightarrow> j = i" using port_of_inject by metis
  obtain g where g: "gp_info (sy_gpio y) j = Some g" using isr(3) by (auto simp: rtos_gpio_isr_critical_def split: option.splits)
  have due: "hw_armed (gp_port (sy_gpio y) (port_of j))" using isr(2) by (simp add: interrupt_due_def Let_def)
  show ?case
  proof (cases "i = j")
    case False
    then show ?thesis using isr g p by (auto simp: port_ok_def rtos_gpio_isr_critical_def case_prod_beta Let_def split: if_splits)
  next
    case True
    then have "gi_enabled g \<noteq> INTERRUPT_DISABLED" using isr.prems(2) g due by (auto simp: port_ok_def port_fit_def)
    then show ?thesis using True isr g port_fit_isr [of "gi_enabled g"] port_fit_isr_disable
      by (auto simp: port_ok_def rtos_gpio_isr_critical_def case_prod_beta Let_def split: if_splits)
  qed
next
  case (isr_end j y cb v)
  then have "port_of j = port_of i \<longleftrightarrow> j = i" using port_of_inject by metis
  then show ?case using isr_end port_fit_isr_end by (auto simp: port_ok_def rtos_gpio_isr_end_def after_defs)
qed

lemma port_ok_run: "gpio_run es y y' \<Longrightarrow> port_valid i \<Longrightarrow> port_ok i y \<Longrightarrow> port_ok i y'"
  by (induction rule: gpio_run.induct) (auto intro: port_ok_step)

lemma port_ok_start: "gpio_start_ok y \<Longrightarrow> port_ok i y"
proof -
  assume s: "gpio_start_ok y"
  then have "gp_info (sy_gpio y) = (\<lambda>i. None)" unfolding gpio_start_ok_def rtos_gpio_init_def by (metis gpio.select_convs(1) gpio.surjective gpio.update_convs(1))
  then show ?thesis using s by (simp add: port_ok_def port_fit_def gpio_start_ok_def)
qed

text \<open>The interrupt finds its record.\<close>

lemma gpio_isr_defined:
  assumes "gpio_start_ok y0" "gpio_run es y0 y" "port_valid i" "interrupt_due i y"
  shows "\<exists>r s. rtos_gpio_isr_critical i (sy_gpio y) = Inr (r, s)"
  using port_ok_run [OF assms(2,3) port_ok_start [OF assms(1)]] assms(4)
  by (auto simp: port_ok_def port_fit_def interrupt_due_def rtos_gpio_isr_critical_def Let_def case_prod_beta split: option.splits)

lemma find_None_last: "find P xs = None \<Longrightarrow> xs \<noteq> [] \<Longrightarrow> \<not> P (last xs)"
  by (simp add: find_None_iff)

lemma port_in_latched: "hw_latch h = Some v \<Longrightarrow> fst (hw_port_in h) = v"
  by (simp add: hw_port_in_def)

text \<open>
  C18: While the interrupt of a port is enabled and not running, whatever the order of calls, changes of the pins and halves of
  interrupts was: if the pins have had a level different from the one that the application knows since then, the interrupt is due
  and hands the first such level to the callback, also when the pins have changed again; otherwise the interrupt is not due and the
  application knows the level of the pins. The levels are those since the interrupt was enabled or since its last callback has
  returned: what comes and goes while a callback runs is not reported.
\<close>

theorem gpio_levels_reported:
  assumes "gpio_start_ok y0" and "gpio_run es y0 y" and "port_valid i"
    and "gp_info (sy_gpio y) i = Some g" and "gi_enabled g = INTERRUPT_ENABLED" and "sy_flight y i = None"
  shows "case find (\<lambda>v. v \<noteq> sy_seen y i) (sy_levels y i) of
           None \<Rightarrow> \<not> interrupt_due i y \<and> sy_seen y i = hw_pins (gp_port (sy_gpio y) (port_of i))
         | Some v \<Rightarrow> interrupt_due i y \<and> (\<exists>s. rtos_gpio_isr_critical i (sy_gpio y) = Inr (Some (gi_callback g, v), s))"
proof -
  have ok: "port_fit (Some INTERRUPT_ENABLED) (gp_port (sy_gpio y) (port_of i)) False (sy_seen y i) (sy_levels y i)"
    using port_ok_run [OF assms(2,3) port_ok_start [OF assms(1)]] assms(4-6) by (simp add: port_ok_def)
  then show ?thesis
    using assms(4-6) find_None_last [of "\<lambda>v. v \<noteq> sy_seen y i"] port_in_latched [of "gp_port (sy_gpio y) (port_of i)"]
    by (auto simp: port_fit_def interrupt_due_def rtos_gpio_isr_critical_def Let_def case_prod_beta split: option.splits)
qed

text \<open>A run: a button on port 1B that is pressed, and released before the interrupt runs.\<close>

definition button_start :: "nat gpio_sys" where
  "button_start = \<lparr>sy_gpio = \<lparr>gp_info = \<lambda>i. None, gp_port = \<lambda>p. \<lparr>hw_in_use = False, hw_pins = 1, hw_out = 0, hw_control = 0,
     hw_trigger = 0, hw_armed = False, hw_latch = None, hw_vector = False\<rparr>\<rparr>, sy_flight = \<lambda>i. None, sy_calls = [], sy_seen = \<lambda>i. 0,
     sy_levels = \<lambda>i. []\<rparr>"

definition button_pulse :: "nat gpio_event list" where
  "button_pulse = [Ev_Call (Call_Enable 1), Ev_Call (Call_Set 1 7), Ev_Call (Call_Int_Enable 1), Ev_Pins 1 0, Ev_Pins 1 1]"

definition button_press :: "nat gpio_event list" where
  "button_press = [Ev_Call (Call_Enable 1), Ev_Call (Call_Set 1 7), Ev_Call (Call_Int_Enable 1), Ev_Pins 1 0, Ev_Pins 1 1, Ev_Isr 1]"

lemmas button_eval = gpio_funs after_defs hw_funs port_valid_def rtos_gpio_port_none_def RTOS_GPIO_TOTAL_PORT_CNT_def res_simps
  port_of_def gpio_port_lookup_def rtos_gpio_isr_critical_def rtos_gpio_isr_end_def interrupt_due_def Let_def

lemma button_start_ok: "gpio_start_ok button_start"
  by (simp add: gpio_start_ok_def button_start_def rtos_gpio_init_def)

theorem gpio_levels_reported_witness:
  "\<exists>y s. gpio_run button_pulse button_start y \<and> hw_pins (gp_port (sy_gpio y) XS1_PORT_1B) = 1
     \<and> rtos_gpio_isr_critical 1 (sy_gpio y) = Inr (Some (7, 0), s)"
proof -
  obtain y where e: "gpio_exec button_pulse button_start = Some y" "sy_flight y 1 = None" "sy_levels y 1 = [1, 0, 1]" "sy_seen y 1 = 1"
    and g: "gp_info (sy_gpio y) 1 = Some \<lparr>gi_callback = 7, gi_enabled = INTERRUPT_ENABLED\<rparr>" and pins: "hw_pins (gp_port (sy_gpio y) XS1_PORT_1B) = 1"
    by (simp add: button_pulse_def button_start_def button_eval)
  have "port_valid 1" by (simp add: button_eval)
  from gpio_levels_reported [OF button_start_ok gpio_run_exec [OF e(1)] this g _ e(2)] e gpio_run_exec [OF e(1)] pins show ?thesis by auto
qed

section \<open>A disabled interrupt\<close>

definition quiet :: "int \<Rightarrow> 'cb gpio_sys \<Rightarrow> bool" where
  "quiet i y \<longleftrightarrow> map_option gi_enabled (gp_info (sy_gpio y) i) \<noteq> Some INTERRUPT_ENABLED"

definition calls_of :: "int \<Rightarrow> 'cb gpio_sys \<Rightarrow> (int \<times> 'cb \<times> u32) list" where
  "calls_of i y = filter (\<lambda>(j, _). j = i) (sy_calls y)"

text \<open>The callback that an interrupt of the port is about to call.\<close>

definition call_in_flight :: "int \<Rightarrow> 'cb gpio_sys \<Rightarrow> (int \<times> 'cb \<times> u32) list" where
  "call_in_flight i y = (case sy_flight y i of None \<Rightarrow> [] | Some (cb, v) \<Rightarrow> [(i, cb, v)])"

lemmas quiet_defs = quiet_def calls_of_def call_in_flight_def

lemma quiet_step:
  "gpio_step e y y' \<Longrightarrow> port_valid i \<Longrightarrow> port_ok i y \<Longrightarrow> quiet i y \<Longrightarrow> e \<noteq> Ev_Call (Call_Int_Enable i) \<Longrightarrow>
    quiet i y' \<and> call_in_flight i y' @ calls_of i y' = call_in_flight i y @ calls_of i y"
proof (induction rule: gpio_step.induct)
  case (task c y s)
  then have "quiet i (after_call c s y)"
    by (cases c) (auto simp: gpio_funs quiet_def after_call_def Let_def res_simps split: option.splits if_splits)
  then show ?case by (simp add: quiet_defs after_call_def Let_def)
next
  case (pins j y v)
  then show ?case by (simp add: quiet_defs after_pins_def)
next
  case (isr j y r s)
  then obtain g where g: "gp_info (sy_gpio y) j = Some g" by (auto simp: rtos_gpio_isr_critical_def split: option.splits)
  show ?case
  proof (cases "j = i")
    case False
    then show ?thesis using isr g by (auto simp: quiet_defs rtos_gpio_isr_critical_def Let_def case_prod_beta split: if_splits)
  next
    case True
    have "hw_armed (gp_port (sy_gpio y) (port_of i))" "sy_flight y i = None" using isr(2) True by (auto simp: interrupt_due_def Let_def)
    moreover from this have "gi_enabled g = INTERRUPT_DISABLE_PENDING"
      using isr.prems(2,3) g True by (cases "gi_enabled g") (auto simp: port_ok_def port_fit_def quiet_def)
    ultimately show ?thesis using isr g True by (auto simp: quiet_defs rtos_gpio_isr_critical_def Let_def case_prod_beta)
  qed
next
  case (isr_end j y cb v)
  then show ?case by (auto simp: quiet_defs after_isr_end_def rtos_gpio_isr_end_def)
qed

lemma quiet_run:
  "gpio_run es y y' \<Longrightarrow> port_valid i \<Longrightarrow> port_ok i y \<Longrightarrow> quiet i y \<Longrightarrow> Ev_Call (Call_Int_Enable i) \<notin> set es \<Longrightarrow>
    quiet i y' \<and> call_in_flight i y' @ calls_of i y' = call_in_flight i y @ calls_of i y"
proof (induction rule: gpio_run.induct)
  case (run_snoc es y y' e y'')
  then show ?case using quiet_step [OF run_snoc.hyps(2) run_snoc.prems(1)] port_ok_run [OF run_snoc.hyps(1)] by auto
qed simp

text \<open>
  C30: After the interrupt of a port has been disabled, no callback is called until it is enabled again, but for the one that an
  interrupt which had read the port before the disable is about to call: that callback and the calls made are together what they
  were. So a disable while no interrupt of the port is between its halves is final, although the trigger of the port stays on
  until it fires once more.
\<close>

theorem gpio_disabled_silent:
  assumes "gpio_start_ok y0" and "gpio_run es0 y0 y" and "port_valid i"
    and "gpio_local_interrupt_disable i (sy_gpio y) = Inr s"
    and "gpio_run es (y\<lparr>sy_gpio := s\<rparr>) y'" and "Ev_Call (Call_Int_Enable i) \<notin> set es"
  shows "call_in_flight i y' @ calls_of i y' = call_in_flight i y @ calls_of i y"
proof -
  have ok: "port_ok i y" using port_ok_run [OF assms(2,3) port_ok_start [OF assms(1)]] .
  have "port_ok i (after_call (Call_Int_Disable i) s y)"
    by (rule port_ok_call [OF ok assms(3)]) (simp add: assms(4))
  moreover have "quiet i (y\<lparr>sy_gpio := s\<rparr>)"
    using assms(4) by (auto simp: quiet_def gpio_local_interrupt_disable_def res_simps split: option.splits if_splits)
  ultimately show ?thesis
    using quiet_run [OF assms(5,3)] assms(6) by (simp add: after_call_def call_enables_def calls_of_def call_in_flight_def)
qed

theorem gpio_disabled_silent_witness:
  "\<exists>y s y'. gpio_run button_press button_start y \<and> gpio_local_interrupt_disable 1 (sy_gpio y) = Inr s
     \<and> gpio_run [Ev_Pins 1 0, Ev_Isr_End 1, Ev_Pins 1 1, Ev_Isr 1] (y\<lparr>sy_gpio := s\<rparr>) y'
     \<and> calls_of 1 y = [] \<and> call_in_flight 1 y = [(1, 7, 0)] \<and> calls_of 1 y' = [(1, 7, 0)]"
proof -
  obtain y s y' where e: "gpio_exec button_press button_start = Some y" "gpio_local_interrupt_disable 1 (sy_gpio y) = Inr s"
      "gpio_exec [Ev_Pins 1 0, Ev_Isr_End 1, Ev_Pins 1 1, Ev_Isr 1] (y\<lparr>sy_gpio := s\<rparr>) = Some y'"
      "sy_flight y 1 = Some (7, 0)" "sy_calls y = []" "sy_flight y' 1 = None"
    by (simp add: button_press_def button_start_def button_eval gpio_local_interrupt_disable_def)
  have "port_valid 1" by (simp add: button_eval)
  from gpio_disabled_silent [OF button_start_ok gpio_run_exec [OF e(1)] this e(2) gpio_run_exec [OF e(3)]] e
  have "calls_of 1 y = []" "call_in_flight 1 y = [(1, 7, 0)]" "calls_of 1 y' = [(1, 7, 0)]" by (simp_all add: calls_of_def call_in_flight_def)
  then show ?thesis using e(2) gpio_run_exec [OF e(1)] gpio_run_exec [OF e(3)] by blast
qed

text \<open>Enabling the interrupt of a port without a callback follows a null pointer.\<close>

lemma gpio_enable_without_callback: "port_valid i \<Longrightarrow> gpio_local_interrupt_enable i (rtos_gpio_init s) = Inl NullDeref"
  by (simp add: gpio_local_interrupt_enable_def rtos_gpio_init_def)

end
