(* ===== verification/Spec2Isabelle.thy ===== *)
theory Spec2Isabelle
  imports Prelude Dhcp_Daemon Rtos_Printf Device_Control Sample_Rx I2s_Send Gpio_Rpc Qspi_Flash Qspi_Rpc
    I2c_Rpc I2c_Slave_Driver Spi_Slave_Driver Spi_Master Spi_Rpc Audio_Rpc Rpc_Setup Intertile Dispatcher Qspi_Chip Gpio_Driver
begin

text \<open>
  A model of the XCORE SDK: its RTOS drivers and software services, written in C for
  microcontrollers whose tiles share no memory. All paths below are under modules/.

  The parts and how they interact. A driver (rtos/drivers) runs on the tile that owns the pins
  or the peripheral. Interrupts and I/O threads move data between the hardware and circular
  buffers or queues; application tasks call the driver and block on semaphores, locks and
  queues. A tile that does not own the peripheral uses the same interface: its functions are
  stubs that send a request over the intertile link, and a thread of the owner carries it out.
  On the drivers rest the software services (rtos/sw_services): a DHCP server, the control
  of device resources by an external host, and a dispatcher of jobs to worker threads.

  Conventions. Machine integers are words of their width where wrapping matters. A C structure
  is a record, a function is a definition of the same name. A failed assertion, an access
  outside an object, and a free object used again are values of \<open>c_error\<close>; a
  function that can meet one returns \<open>'a res\<close>. A loop of which the code does not bound the turns is a
  \<open>partial_function (option)\<close>: None is a loop that does not return, and termination is the
  theorem that the value is Some. Code outside the repository (FreeRTOS, lwIP or FreeRTOS-Plus-TCP
  sockets, the I2S and microphone libraries) is a parameter, its documented
  behaviour a hypothesis. Memory allocation succeeds.

  Shared theories.
  Prelude: errors, byte encodings, arrays, the locale \<open>byte_codec\<close> of encodings that can
  be read back. Interpreted for 32-bit words, parameter descriptors and device commands.
  Ring_Buffer: the circular sample buffers of the audio drivers and the locale \<open>fifo\<close>
  of bounded queues, which they implement.

  The DHCP server, rtos/sw_services/dhcpd/FreeRTOS/dhcpd.c.
  Dhcp_Pool: the table of addresses and the list that orders it; the locale \<open>binding_table\<close>
  of a map of addresses to clients. Dhcp_Init: configuration checks and construction of the
  table. Dhcp_Message: messages and options, with the round trip of options. Dhcp_Lease: choice
  of addresses, probing, leases; clients keep distinct addresses. Dhcp_Server: the handler of a
  message: safety for any message and the form of replies. Dhcp_Daemon: the expiry of leases,
  the loop and the start. The FreeRTOS list is represented by its sorted content.

  Formatted output, rtos/rtos_support/src/rtos_printf.c, in Rtos_Printf: the formatter with
  its output buffers, compared with the text of a format.

  Device control, rtos/sw_services/device_control. Resource_Table: which servicer owns a resource;
  the locale \<open>registry\<close>. Device_Control: requests, transfers over I2C and USB, commands to
  servicers on either tile, registration; off-tile commands are equivalent to local ones.

  Audio. Sample_Rx: the microphone driver (rtos/drivers/mic_array/rtos_mic_array.c), interrupt
  and receiver interleaved as a step relation; no samples are lost, a waiting reader wakes.
  I2s_Driver: rtos/drivers/i2s/rtos_i2s.c with its callbacks. Audio_Rpc: their remote halves.

  Remote calls. Intertile: the link, rtos/drivers/intertile/rtos_intertile.c. Rpc: descriptors
  and messages of rtos/drivers/rpc/rtos_rpc.c; a remote call refines a local one. Rpc_Setup:
  the exchange by which hosts and clients find each other.

  The flash, from the driver down to the lines. Qspi_Flash: rtos/drivers/qspi_flash/rtos_qspi_flash.c,
  read, write and erase as commands to a chip. Qspi_Io: the words that hil/lib_qspi_io/api/qspi_io.h
  shifts through the four data lines. Sfdp: sfdp.c, the tables in which a chip describes itself.
  Qspi_Hil: qspi_flash.c, every operation as the nibbles it drives and samples. Qspi_Chip: a chip as its
  data sheet describes it, nibble by nibble; the operations of the driver have on it, through all these
  layers, the effects of the commands, with a context that initialisation has read from the chip.

  I2C. I2c_Master: hil/lib_i2c/src/i2c_master.c bit by bit over abstract wires, its register helpers
  and the driver. I2c_Slave: the automaton of i2c_slave.c, and the bus between it and the master's
  bit functions. I2c_Slave_Driver: rtos/drivers/i2c/rtos_i2c_slave.c, its two threads. Conversations of
  the master are served as the application at the other end would serve them directly. After a change of a
  line the slave is given eight turns of its loop to settle; lemma \<open>slave_settles\<close> shows that they
  are enough.

  SPI. Xcore_Bits: the bit instructions and port words that QSPI and SPI share. Spi_Hil: hil/lib_spi/src/spi_master.c,
  a transfer as levels on SCLK, MOSI and the chip selects. Spi_Slave: spi_slave.c, the chip-select interrupt and the
  loop, in any interleaving with the edges of the clock that loses no word. Spi_Bus: both ends on one bus; a transaction
  exchanges the bytes of master and slave. Spi_Slave_Driver: rtos/drivers/spi/rtos_spi_slave.c, up to the
  application. Spi_Master: rtos/drivers/spi/rtos_spi_master.c, tasks and request thread as a step relation. On the
  bus the loop of the slave has three turns in each tick, the number it takes for a word.

  Other peripherals. Gpio_Driver: rtos/drivers/gpio/rtos_gpio.c, its interrupt interleaved with calls of
  other cores. Gpio_Rpc, Qspi_Rpc, I2c_Rpc and Spi_Rpc: the remote halves, equivalent to local calls.

  Jobs. Dispatcher: rtos/sw_services/dispatcher, the caller and the worker threads as a step
  relation; a wait returns when all jobs are done, and the system stops nowhere else.

  Assumptions of the interleavings. An interrupt runs to its end on its core. Kernel calls
  (queue, semaphore, lock, event group) are atomic. A copy between a driver's buffer and the
  caller is one step of a reader: the writer only uses words that the reader has released, and
  the read counter is advanced once for the whole copy. A mutex serialises the callers of a
  driver, so that one caller is modelled where the code holds it. A channel delivers words in
  the order in which they are written.

  Not modelled. Port, clock and register programming of the hardware layer (hil/lib_i2s,
  hil/lib_mic_array, hil/lib_qspi_io/src/qspi_io.c and the set-up parts of qspi_io.h): timed I/O. USB,
  WiFi, TLS and SNTP: glue between libraries that are submodules. The OSAL: wrappers of FreeRTOS.
  FatFs: third-party. The model runner: C++ around TensorFlow Lite.
  Logging, priorities and core affinity have no part in the properties and are left out.

  Planned next: the core support of rtos/rtos_support, the WiFi connection
  manager, and the interrupt workers of the dispatcher as part of its system.
\<close>

end
